(* ===== verification/Prelude.thy ===== *)
theory Prelude
  imports Main "HOL-Library.Word"
begin

text \<open>
  Types, collections of rewrite rules and generic lemmas shared by the components of the
  development. Machine integers follow one rule throughout: an unsigned C integer whose
  wrap-around can matter is a word of its width, a signed C integer is an \<open>int\<close> (its
  overflow is undefined in C, so the code must not rely on it), and a size or an index is
  a \<open>nat\<close>. A C string is the list of its bytes up to, not including, the terminating NUL.
\<close>

unbundle bit_operations_syntax

named_theorems mc_word \<open>facts that move word arithmetic to the natural numbers\<close>
named_theorems mc_inv \<open>preservation of invariants by operations\<close>
named_theorems mc_frame \<open>parts of the state an operation leaves alone\<close>

type_synonym byte = "8 word"
type_synonym bytes = "byte list"
type_synonym uint32 = "32 word"
type_synonym uint64 = "64 word"
type_synonym addr = nat

abbreviation (input) NULL :: addr where "NULL \<equiv> 0"

subsection \<open>C strings\<close>

text \<open>The bytes of a C string literal.\<close>

definition ascii :: "string \<Rightarrow> bytes" where
  "ascii s = map of_char s"

lemma ascii_Nil [simp]: "ascii [] = []"
  by (simp add: ascii_def)

lemma ascii_append [simp]: "ascii (s @ t) = ascii s @ ascii t"
  by (simp add: ascii_def)

text \<open>Reading a C string: the byte at an index, the NUL at and after its end.\<close>

definition cstr_at :: "bytes \<Rightarrow> nat \<Rightarrow> byte" where
  "cstr_at s i = (if i < length s then s ! i else 0)"

lemma cstr_at_append_left [simp]: "i < length s \<Longrightarrow> cstr_at (s @ t) i = cstr_at s i"
  by (simp add: cstr_at_def nth_append)

lemma cstr_at_append_right [simp]: "cstr_at (s @ t) (length s + i) = cstr_at t i"
  by (simp add: cstr_at_def)

lemma cstr_at_Cons_Suc [simp]: "cstr_at (c # s) (Suc i) = cstr_at s i"
  by (simp add: cstr_at_def)

lemma cstr_at_Cons_0 [simp]: "cstr_at (c # s) 0 = c"
  by (simp add: cstr_at_def)

lemma cstr_at_Nil [simp]: "cstr_at [] i = 0"
  by (simp add: cstr_at_def)

subsection \<open>Words\<close>

lemma unat_bound: "unat (w :: 'a::len word) < 2 ^ LENGTH('a)"
  by (rule unsigned_less)

lemma unat_plus_small [mc_word]:
  fixes a b :: "'a::len word"
  shows "unat a + unat b < 2 ^ LENGTH('a) \<Longrightarrow> unat (a + b) = unat a + unat b"
  by (simp add: unat_word_ariths)

lemma unat_times_small [mc_word]:
  fixes a b :: "'a::len word"
  shows "unat a * unat b < 2 ^ LENGTH('a) \<Longrightarrow> unat (a * b) = unat a * unat b"
  by (simp add: unat_word_ariths)

lemma unat_minus_le [mc_word]:
  fixes a b :: "'a::len word"
  shows "unat b \<le> unat a \<Longrightarrow> unat (a - b) = unat a - unat b"
  by (simp add: unat_sub_if_size)

lemma unat_ucast [mc_word]:
  "unat (ucast (w :: 'b::len word) :: 'a::len word) = unat w mod 2 ^ LENGTH('a)"
  by (simp add: unsigned_ucast_eq take_bit_eq_mod)

lemma unat_ucast_up [mc_word]:
  fixes w :: "'b::len word"
  assumes "unat w < 2 ^ LENGTH('a::len)"
  shows "unat (ucast w :: 'a word) = unat w"
  using assms by (simp add: unat_ucast)

lemma sint_small: "sint (w :: uint32) = int n" if "unat w = n" "n < 2 ^ 31"
proof -
  have u: "uint w = int n" by (simp flip: that(1))
  then have "uint w < 2 ^ 31" using that(2) by simp
  moreover have "- (2 ^ 31) \<le> uint w" by (rule order_trans [OF _ uint_ge_0]) simp
  ultimately have "signed_take_bit 31 (uint w) = uint w" by (intro signed_take_bit_int_eq_self)
  then show ?thesis by (simp add: sint_uint u)
qed

subsection \<open>Lists\<close>

lemma nth_update_neq [simp]: "i \<noteq> j \<Longrightarrow> xs[i := v] ! j = xs ! j"
  by simp

lemma nth_update_if: "xs[i := v] ! j = (if i = j \<and> j < length xs then v else xs ! j)"
  by (cases "i = j"; cases "j < length xs"; simp add: list_update_beyond)

lemma take_Suc_update: "i < length xs \<Longrightarrow> take (Suc i) (xs[i := v]) = take i xs @ [v]"
  by (simp add: take_Suc_conv_app_nth)

end
