(* ===== verification/Base64_C.thy ===== *)
theory Base64_C
  imports Prelude
begin

text \<open>
  Model of \<^verbatim>\<open>base64.c\<close>, the codec of the binary keys of the meta commands. Both routines write to
  a buffer of the caller: the model returns the bytes written, in order, beside the value
  returned. The two length computations of the encoder are done in 64-bit arithmetic.
\<close>

section \<open>Model\<close>

definition base64_table :: bytes where
  "base64_table = ascii ''ABCDEFGHIJKLMNOPQRSTUVWXYZabcdefghijklmnopqrstuvwxyz0123456789+/''"

definition dtable :: bytes where
  "dtable = replicate 43 128 @
    [62, 128, 128, 128, 63, 52, 53, 54, 55, 56, 57, 58, 59, 60,
     61, 128, 128, 128, 0, 128, 128, 128, 0, 1, 2, 3, 4, 5,
     6, 7, 8, 9, 10, 11, 12, 13, 14, 15, 16, 17, 18, 19,
     20, 21, 22, 23, 24, 25, 128, 128, 128, 128, 128, 128, 26, 27,
     28, 29, 30, 31, 32, 33, 34, 35, 36, 37, 38, 39, 40, 41,
     42, 43, 44, 45, 46, 47, 48, 49, 50, 51] @ replicate 133 128"

definition enc :: "byte \<Rightarrow> byte" where "enc v = base64_table ! unat v"
definition dtab :: "byte \<Rightarrow> byte" where "dtab c = dtable ! unat c"

text \<open>The bits of a byte that go to the next sextet.\<close>

definition low2 :: "byte \<Rightarrow> byte" where "low2 a = push_bit 4 (a AND 3)"
definition low4 :: "byte \<Rightarrow> byte" where "low4 b = push_bit 2 (b AND 15)"
definition low6 :: "byte \<Rightarrow> byte" where "low6 c = (c AND 63)"

text \<open>The loop over blocks of three bytes and the code for the one or two bytes left.\<close>

fun encode_blocks :: "bytes \<Rightarrow> bytes" where
  "encode_blocks (a # b # c # rest) =
     [enc (drop_bit 2 a), enc (low2 a OR drop_bit 4 b),
      enc (low4 b OR drop_bit 6 c), enc (low6 c)] @ encode_blocks rest"
| "encode_blocks [] = []"
| "encode_blocks [a] = [enc (drop_bit 2 a), enc (low2 a), 61, 61]"
| "encode_blocks [a, b] =
     [enc (drop_bit 2 a), enc (low2 a OR drop_bit 4 b), enc (low4 b), 61]"

text \<open>The room the encoder asks for: four bytes per block of three, line feeds and the NUL.\<close>

definition encode_len :: "uint64 \<Rightarrow> uint64" where
  "encode_len len =
    (let olen = len * 4 div 3 + 4;
         olen = olen + olen div 72
     in olen + 1)"

text \<open>The bytes written to the output buffer (its closing NUL included) and the value returned.\<close>

definition base64_encode :: "bytes \<Rightarrow> bool \<Rightarrow> uint64 \<Rightarrow> bytes \<times> nat" where
  "base64_encode src out_null out_len =
    (let len = of_nat (length src) :: uint64;
         olen = encode_len len
     in if olen < len then ([], 0)
        else if olen > out_len then ([], 0)
        else if out_null then ([], 0)
        else let e = encode_blocks src in (e @ [0], length e))"

definition block_out :: "bytes \<Rightarrow> bytes" where
  "block_out block =
     [push_bit 2 (block ! 0) OR drop_bit 4 (block ! 1),
      push_bit 4 (block ! 1) OR drop_bit 2 (block ! 2),
      push_bit 6 (block ! 2) OR block ! 3]"

text \<open>
  The decoding loop: \<open>block\<close> holds the sextets collected so far, \<open>pad\<close> counts the padding
  characters and \<open>out\<close> is what was written. The first padded block ends the loop.
\<close>

fun decode_loop :: "bytes \<Rightarrow> bytes \<Rightarrow> nat \<Rightarrow> bytes \<Rightarrow> bytes \<times> nat" where
  "decode_loop [] block pad out = (out, length out)"
| "decode_loop (c # src) block pad out =
    (let tmp = dtab c in
     if tmp = 128 then decode_loop src block pad out
     else let pad' = (if c = 61 then pad + 1 else pad);
              block' = block @ [tmp]
          in if length block' = 4
             then let out' = out @ block_out block'
                  in if pad' \<noteq> 0
                     then if pad' = 1 then (out', length out' - 1)
                          else if pad' = 2 then (out', length out' - 2)
                          else (out', 0)
                     else decode_loop src [] pad' out'
             else decode_loop src block' pad' out)"

definition base64_decode :: "bytes \<Rightarrow> bool \<Rightarrow> uint64 \<Rightarrow> bytes \<times> nat" where
  "base64_decode src out_null out_len =
    (let count = length (filter (\<lambda>c. dtab c \<noteq> 128) src);
         olen = count div 4 * 3
     in if count = 0 \<or> count mod 4 \<noteq> 0 then ([], 0)
        else if olen > unat out_len then ([], 0)
        else if out_null then ([], 0)
        else decode_loop src [] 0 [])"

section \<open>Tables\<close>

lemma sextet_cases: "v < 64 \<Longrightarrow> P v" if "\<forall>n < 64. P (of_nat n)" for v :: byte
proof -
  assume "v < 64"
  then have "unat v < 64" by (simp add: word_less_nat_alt)
  with that have "P (of_nat (unat v))" by blast
  then show "P v" by simp
qed

lemma all_less_64: "(\<forall>n < (64::nat). P n) \<longleftrightarrow> list_all P [0..<64]"
  by (auto simp: list_all_iff)

lemma tables_inverse: "v < 64 \<Longrightarrow> dtab (enc v) = v \<and> enc v \<noteq> 61"
proof (rule sextet_cases [where v = v])
  show "\<forall>n < 64. dtab (enc (of_nat n)) = of_nat n \<and> enc (of_nat n) \<noteq> 61"
    unfolding all_less_64
    by (simp add: upt_rec [of 0 64] upt_conv_Cons enc_def dtab_def base64_table_def ascii_def dtable_def
        unat_of_nat nth_append)
qed


lemma low_take_bit:
  "low2 a = push_bit 4 (take_bit 2 a)" "low4 b = push_bit 2 (take_bit 4 b)" "low6 c = take_bit 6 c"
  by (simp_all add: low2_def low4_def low6_def take_bit_eq_mask mask_eq_exp_minus_1)

lemma low_0 [simp]: "low2 0 = 0" "low4 0 = 0" "low6 0 = 0"
  by (simp_all add: low2_def low4_def low6_def)

lemma sextets_less:
  fixes a b c :: byte
  shows "drop_bit 2 a < 64" "low2 a OR drop_bit 4 b < 64"
    "low4 b OR drop_bit 6 c < 64" "low6 c < 64"
    "low2 a < 64" "low4 b < 64"
proof -
  have lt: "x < 64 \<longleftrightarrow> (\<forall>n. bit x n \<longrightarrow> n < 6)" for x :: byte
  proof -
    have "x < 64 \<longleftrightarrow> take_bit 6 x = x"
      by (simp add: word_less_nat_alt word_unat_eq_iff take_bit_nat_eq_self_iff unsigned_take_bit_eq)
    then show ?thesis by (metis bit_eqI bit_take_bit_iff)
  qed
  show "drop_bit 2 a < 64" "low2 a OR drop_bit 4 b < 64"
    "low4 b OR drop_bit 6 c < 64" "low6 c < 64"
    "low2 a < 64" "low4 b < 64"
    unfolding lt low_take_bit
    by (auto simp: bit_drop_bit_eq bit_push_bit_iff bit_take_bit_iff bit_or_iff
        dest!: bit_imp_le_length)
qed

lemma block_out_encode:
  fixes a b c :: byte
  shows "block_out [drop_bit 2 a, low2 a OR drop_bit 4 b,
      low4 b OR drop_bit 6 c, low6 c] = [a, b, c]"
proof -
  have s: "2 \<le> n \<Longrightarrow> Suc (Suc (n - 2)) = n" for n :: nat by simp
  show ?thesis
    unfolding block_out_def low_take_bit
    by (auto intro!: bit_word_eqI simp: bit_drop_bit_eq bit_push_bit_iff bit_take_bit_iff bit_or_iff s
        dest: bit_imp_le_length)
qed


lemma sextet_enc:
  assumes "v < 64"
  shows "dtab (enc v) = v" "enc v \<noteq> 61" "v \<noteq> 128"
  using assms tables_inverse [OF assms] by auto

lemma dtab_pad: "dtab 61 = 0"
  by (simp add: dtab_def dtable_def nth_append)

lemmas sextet_simps = sextets_less [THEN sextet_enc(1)] sextets_less [THEN sextet_enc(2)]
  sextets_less [THEN sextet_enc(3)] dtab_pad

section \<open>Properties\<close>

lemma decode_encode_loop:
  "\<exists>w. decode_loop (encode_blocks src) [] 0 out = (w, length (out @ src)) \<and>
    take (length (out @ src)) w = out @ src"
proof (induction src arbitrary: out rule: encode_blocks.induct)
  case (1 a b c rest)
  from "1.IH" [of "out @ [a, b, c]"] show ?case
    by (simp add: Let_def sextet_simps block_out_encode)
next
  case (3 a)
  have "block_out [drop_bit 2 a, low2 a, 0, 0] = [a, 0, 0]"
    using block_out_encode [of a 0 0] by simp
  then show ?case by (simp add: Let_def sextet_simps)
next
  case (4 a b)
  have "block_out [drop_bit 2 a, low2 a OR drop_bit 4 b, low4 b, 0] = [a, b, 0]"
    using block_out_encode [of a b 0] by simp
  then show ?case by (simp add: Let_def sextet_simps)
qed simp

lemma length_encode_blocks: "length (encode_blocks src) = (length src + 2) div 3 * 4"
  by (induction src rule: encode_blocks.induct) (simp_all, presburger)

lemma encode_blocks_alphabet: "\<forall>c \<in> set (encode_blocks src). dtab c \<noteq> 128"
  by (induction src rule: encode_blocks.induct) (simp_all add: sextet_simps)

lemma unat_encode_len:
  assumes "n < 2 ^ 60"
  shows "unat (encode_len (of_nat n)) = n * 4 div 3 + 4 + (n * 4 div 3 + 4) div 72 + 1"
proof -
  define len where "len = (of_nat n :: uint64)"
  have len: "unat len = n" using assms by (simp add: len_def unat_of_nat)
  have o1: "unat (len * 4 div 3 + 4) = n * 4 div 3 + 4"
    using assms by (simp add: unat_word_ariths unat_div_distrib len)
  have o2: "unat (len * 4 div 3 + 4 + (len * 4 div 3 + 4) div 72) = n * 4 div 3 + 4 + (n * 4 div 3 + 4) div 72"
    using assms by (subst unat_plus_small) (simp_all add: unat_div_distrib o1)
  show ?thesis
    unfolding encode_len_def Let_def len_def [symmetric]
    using assms by (subst unat_plus_small) (simp_all only: o2 unat_1, simp_all)
qed

lemma decode_loop_length:
  assumes "length block < 4"
  shows "length (fst (decode_loop src block pad out)) \<le>
      length out + (length block + length (filter (\<lambda>c. dtab c \<noteq> 128) src)) div 4 * 3 \<and>
    snd (decode_loop src block pad out) \<le> length (fst (decode_loop src block pad out))"
  using assms
proof (induction src arbitrary: block pad out)
  case (Cons c src)
  have l3: "length (block_out b) = 3" for b by (simp add: block_out_def)
  have d4: "(4 + m) div 4 = Suc (m div 4)" for m :: nat by simp
  show ?case
    using Cons.prems Cons.IH [of block pad out] Cons.IH [of "[]" 0 "out @ block_out (block @ [dtab c])"]
      Cons.IH [of "block @ [dtab c]" "if c = 61 then pad + 1 else pad" out]
    by (auto simp: Let_def l3 d4)
qed simp

text \<open>
  C26. What \<^verbatim>\<open>base64_encode\<close> writes for a non-empty key, \<^verbatim>\<open>base64_decode\<close> turns back into the key: the
  value it returns is the length of the key and the first bytes of its buffer are the key.
  The encoder succeeds whenever the output buffer has room for its length estimate, the
  decoder whenever it has three bytes for each four characters.
\<close>

theorem base64_roundtrip:
  assumes "src \<noteq> []" and "length src < 2 ^ 60"
    and "length src * 4 div 3 + 4 + (length src * 4 div 3 + 4) div 72 + 1 \<le> unat elen"
    and "(length src + 2) div 3 * 3 \<le> unat dlen"
  shows "base64_encode src False elen = (encode_blocks src @ [0], (length src + 2) div 3 * 4) \<and>
    length (encode_blocks src @ [0]) \<le> unat elen \<and>
    snd (base64_decode (encode_blocks src) False dlen) = length src \<and>
    take (length src) (fst (base64_decode (encode_blocks src) False dlen)) = src"
proof -
  have "base64_encode src False elen = (encode_blocks src @ [0], (length src + 2) div 3 * 4)"
    using assms(2,3) by (simp add: base64_encode_def word_less_nat_alt unat_encode_len unat_of_nat
        length_encode_blocks Let_def)
  moreover have "length (encode_blocks src @ [0]) \<le> unat elen"
    using assms(3) by (simp add: length_encode_blocks)
  moreover have f: "filter (\<lambda>c. dtab c \<noteq> 128) (encode_blocks src) = encode_blocks src"
    using encode_blocks_alphabet by (simp add: filter_id_conv)
  have "(length src + 2) div 3 \<noteq> 0" using assms(1) by (cases src) simp_all
  then have "base64_decode (encode_blocks src) False dlen = decode_loop (encode_blocks src) [] 0 []"
    using assms(4) by (simp add: base64_decode_def f length_encode_blocks Let_def)
  ultimately show ?thesis using decode_encode_loop [of src "[]"] by auto
qed

theorem base64_roundtrip_witness:
  "base64_encode [77, 97, 110, 255] False 10 = (encode_blocks [77, 97, 110, 255] @ [0], 8) \<and>
   encode_blocks [77, 97, 110, 255] = ascii ''TWFu/w=='' \<and>
   snd (base64_decode (encode_blocks [77, 97, 110, 255]) False 6) = 4"
proof -
  have "encode_blocks [77, 97, 110, 255] = ascii ''TWFu/w==''"
    by (simp add: enc_def base64_table_def ascii_def low2_def low4_def low6_def)
  with base64_roundtrip [of "[77, 97, 110, 255]" 10 6] show ?thesis by simp
qed

text \<open>
  C27. Neither routine writes past the output buffer, whatever the input is, and the value
  returned never exceeds the number of bytes written. Without a buffer nothing is written.
  (The encoder is asked for inputs whose length estimate does not wrap around.)
\<close>

theorem base64_bounds:
  assumes "length src < 2 ^ 60"
  shows "length (fst (base64_encode src out_null elen)) \<le> unat elen \<and>
    snd (base64_encode src out_null elen) \<le> length (fst (base64_encode src out_null elen)) \<and>
    length (fst (base64_decode inp out_null dlen)) \<le> unat dlen \<and>
    snd (base64_decode inp out_null dlen) \<le> length (fst (base64_decode inp out_null dlen)) \<and>
    base64_encode src True elen = ([], 0) \<and> base64_decode inp True dlen = ([], 0)"
proof -
  have "length (encode_blocks src) + 1 \<le> unat (encode_len (of_nat (length src)))"
    using assms by (simp add: unat_encode_len length_encode_blocks)
  then show ?thesis
    using decode_loop_length [of "[]" inp 0 "[]"]
    by (auto simp: base64_encode_def base64_decode_def Let_def word_less_nat_alt not_less)
qed

theorem base64_bounds_witness:
  "length (fst (base64_encode [1, 2, 3] False 9)) \<le> 9 \<and>
   length (fst (base64_decode (ascii ''TWFu'') False 3)) \<le> 3"
  using base64_bounds [of "[1, 2, 3]" False 9 "ascii ''TWFu''" 3] by simp

end
