(* ===== verification/Linked_Lists.thy ===== *)
theory Linked_Lists
  imports Prelude
begin

text \<open>
  Pointer chains. The server threads its items on three kinds of lists: the hash chains are
  singly linked, the LRU queues and the free lists of the slab classes are doubly linked with
  a head (and for the LRU a tail) pointer outside. A list is described by the functions that
  give the link fields of an address and by the sequence of addresses on it.
\<close>

section \<open>Singly linked chains\<close>

fun seg :: "(addr \<Rightarrow> addr) \<Rightarrow> addr \<Rightarrow> addr list \<Rightarrow> addr \<Rightarrow> bool" where
  "seg nx p [] q \<longleftrightarrow> p = q"
| "seg nx p (a # as) q \<longleftrightarrow> p = a \<and> a \<noteq> NULL \<and> seg nx (nx a) as q"

abbreviation chain :: "(addr \<Rightarrow> addr) \<Rightarrow> addr \<Rightarrow> addr list \<Rightarrow> bool" where
  "chain nx p as \<equiv> seg nx p as NULL"

lemma seg_append [simp]: "seg nx p (as @ bs) q \<longleftrightarrow> (\<exists>m. seg nx p as m \<and> seg nx m bs q)"
  by (induction as arbitrary: p) auto

lemma seg_frame [simp]: "a \<notin> set as \<Longrightarrow> seg (nx(a := v)) p as q \<longleftrightarrow> seg nx p as q"
  by (induction as arbitrary: p) auto

lemma seg_cong: "(\<And>a. a \<in> set as \<Longrightarrow> nx a = nx' a) \<Longrightarrow> seg nx p as q \<longleftrightarrow> seg nx' p as q"
  by (induction as arbitrary: p) auto

lemma seg_not_NULL: "seg nx p as q \<Longrightarrow> NULL \<notin> set as"
  by (induction as arbitrary: p) auto

lemma chain_NULL [simp]: "chain nx NULL as \<longleftrightarrow> as = []"
  by (cases as) auto

lemma chain_head: "chain nx p as \<Longrightarrow> p \<noteq> NULL \<Longrightarrow> \<exists>bs. as = p # bs \<and> chain nx (nx p) bs"
  by (cases as) auto

lemma chain_unique: "chain nx p as \<Longrightarrow> chain nx p bs \<Longrightarrow> as = bs"
proof (induction as arbitrary: p bs)
  case (Cons a as)
  then show ?case by (cases bs) auto
qed simp

lemma chain_distinct: "chain nx p as \<Longrightarrow> distinct as"
proof (induction as arbitrary: p)
  case (Cons a as)
  have "a \<notin> set as"
  proof
    assume "a \<in> set as"
    then obtain xs ys where xy: "as = xs @ a # ys" by (auto simp: in_set_conv_decomp)
    with Cons.prems have "chain nx a (a # as)" "chain nx a (a # ys)" by auto
    then have "a # as = a # ys" by (rule chain_unique)
    with xy show False by simp
  qed
  with Cons show ?case by auto
qed simp

section \<open>Doubly linked lists\<close>

text \<open>
  A segment: \<open>pr\<close> is what the first element has as predecessor, \<open>q\<close> what the last has as
  successor, \<open>l\<close> the last element (\<open>pr\<close> when there is none).
\<close>

fun dseg :: "(addr \<Rightarrow> addr) \<Rightarrow> (addr \<Rightarrow> addr) \<Rightarrow> addr \<Rightarrow> addr \<Rightarrow> addr list \<Rightarrow> addr \<Rightarrow> addr \<Rightarrow> bool" where
  "dseg nx pv pr p [] q l \<longleftrightarrow> p = q \<and> l = pr"
| "dseg nx pv pr p (a # as) q l \<longleftrightarrow> p = a \<and> a \<noteq> NULL \<and> pv a = pr \<and> dseg nx pv a (nx a) as q l"

abbreviation dll :: "(addr \<Rightarrow> addr) \<Rightarrow> (addr \<Rightarrow> addr) \<Rightarrow> addr \<Rightarrow> addr list \<Rightarrow> addr \<Rightarrow> bool" where
  "dll nx pv h as t \<equiv> dseg nx pv NULL h as NULL t"

lemma dseg_append [simp]:
  "dseg nx pv pr p (as @ bs) q l \<longleftrightarrow> (\<exists>m lm. dseg nx pv pr p as m lm \<and> dseg nx pv lm m bs q l)"
  by (induction as arbitrary: p pr) auto

lemma dseg_frame_next [simp]: "a \<notin> set as \<Longrightarrow> dseg (nx(a := v)) pv pr p as q l \<longleftrightarrow> dseg nx pv pr p as q l"
  by (induction as arbitrary: p pr) auto

lemma dseg_frame_prev [simp]: "a \<notin> set as \<Longrightarrow> dseg nx (pv(a := v)) pr p as q l \<longleftrightarrow> dseg nx pv pr p as q l"
  by (induction as arbitrary: p pr) auto

lemma dseg_cong:
  "(\<And>a. a \<in> set as \<Longrightarrow> nx a = nx' a \<and> pv a = pv' a) \<Longrightarrow> dseg nx pv pr p as q l \<longleftrightarrow> dseg nx' pv' pr p as q l"
  by (induction as arbitrary: p pr) auto

lemma dseg_seg: "dseg nx pv pr p as q l \<Longrightarrow> seg nx p as q"
  by (induction as arbitrary: p pr) auto

lemma dseg_last: "dseg nx pv pr p as q l \<Longrightarrow> l = (if as = [] then pr else last as)"
  by (induction as arbitrary: p pr) (auto split: if_splits)

lemma dseg_head: "dseg nx pv pr p as q l \<Longrightarrow> p = (if as = [] then q else hd as)"
  by (cases as) auto

lemma dll_distinct: "dll nx pv h as t \<Longrightarrow> distinct as"
  by (blast dest: dseg_seg chain_distinct)

lemma dll_not_NULL: "dll nx pv h as t \<Longrightarrow> NULL \<notin> set as"
  by (blast dest: dseg_seg seg_not_NULL)

lemma dll_unique: "dll nx pv h as t \<Longrightarrow> dll nx pv' h bs t' \<Longrightarrow> as = bs"
  by (blast dest: dseg_seg chain_unique)

lemma dll_ends: "dll nx pv h as t \<Longrightarrow> (t = NULL \<longleftrightarrow> as = []) \<and> (h = NULL \<longleftrightarrow> as = [])"
  using dseg_last dseg_head dll_not_NULL last_in_set hd_in_set by (metis (full_types))

text \<open>The neighbours of an element.\<close>

lemma dll_split:
  assumes "dll nx pv h (xs @ a # ys) t"
  shows "pv a = (if xs = [] then NULL else last xs)" "nx a = (if ys = [] then NULL else hd ys)"
    "a \<noteq> NULL" "h = (if xs = [] then a else hd xs)" "t = (if ys = [] then a else last ys)"
  using assms by (auto dest: dseg_last dseg_head)

lemma dseg_next_last:
  "dseg nx pv pr p (as @ [a]) q l \<longleftrightarrow> l = a \<and> (\<exists>lm. dseg nx pv pr p as a lm \<and> pv a = lm \<and> a \<noteq> NULL) \<and> nx a = q"
  by auto

text \<open>Changing what an end of a segment points to.\<close>

lemma dseg_retarget:
  assumes "dseg nx pv pr p as q l" "as \<noteq> []" "distinct as"
  shows "dseg (nx(last as := q')) pv pr p as q' l"
proof -
  obtain bs b where "as = bs @ [b]" using assms(2) by (cases as rule: rev_cases) auto
  with assms show ?thesis by auto
qed

lemma dseg_resource:
  assumes "dseg nx pv pr p as q l" "as \<noteq> []" "distinct as"
  shows "dseg nx (pv(hd as := pr')) pr' p as q l"
  using assms by (cases as) auto

section \<open>Insertion and removal\<close>

lemma dll_push:
  assumes "dll nx pv h as t" "a \<notin> set as" "a \<noteq> NULL"
  shows "dll (nx(a := h)) (if h = NULL then pv(a := NULL) else pv(a := NULL, h := a)) a (a # as)
    (if t = NULL then a else t)"
proof (cases as)
  case (Cons b bs)
  with assms have "b \<notin> set bs" using dll_distinct by fastforce
  with assms Cons dll_ends [OF assms(1)] show ?thesis by auto
qed (use assms in auto)

lemma dll_push_tail:
  assumes "dll nx pv h as t" "a \<notin> set as" "a \<noteq> NULL"
  shows "dll (if t = NULL then nx(a := NULL) else nx(a := NULL, t := a)) (pv(a := t))
    (if h = NULL then a else h) (as @ [a]) a"
proof (cases as rule: rev_cases)
  case (snoc bs b)
  with assms have "b \<notin> set bs" using dll_distinct by fastforce
  with assms snoc show ?thesis by (cases bs) (auto dest: dseg_last)
qed (use assms in auto)

lemma dll_remove:
  assumes l: "dll nx pv h (xs @ a # ys) t"
  shows "dll (if pv a = NULL then nx else nx(pv a := nx a)) (if nx a = NULL then pv else pv(nx a := pv a))
    (if h = a then nx a else h) (xs @ ys) (if t = a then pv a else t)"
proof -
  have d: "distinct (xs @ a # ys)" "NULL \<notin> set (xs @ a # ys)" using dll_distinct [OF l] dll_not_NULL [OF l] by auto
  from l obtain m lm where x: "dseg nx pv NULL h xs a lm" and y: "dseg nx pv a (nx a) ys NULL t"
    and lm: "pv a = lm" "m = a" by auto
  have lx: "lm = (if xs = [] then NULL else last xs)" using dseg_last [OF x] .
  have hy: "nx a = (if ys = [] then NULL else hd ys)" using dseg_head [OF y] .
  have ty: "t = (if ys = [] then a else last ys)" using dseg_last [OF y] .
  have hx: "h = (if xs = [] then a else hd xs)" using dseg_head [OF x] .
  have hne: "ys \<noteq> [] \<Longrightarrow> hd ys \<noteq> NULL" "xs \<noteq> [] \<Longrightarrow> last xs \<noteq> NULL"
    using d hd_in_set [of ys] last_in_set [of xs] by (auto simp del: hd_in_set last_in_set)
  define nx' where "nx' = (if pv a = NULL then nx else nx(pv a := nx a))"
  define pv' where "pv' = (if nx a = NULL then pv else pv(nx a := pv a))"
  have pv': "pv' = (if ys = [] then pv else pv(hd ys := pv a))"
    using hy hne by (auto simp: pv'_def)
  have nx': "nx' = (if xs = [] then nx else nx(last xs := nx a))"
    using lm lx hne by (auto simp: nx'_def)
  have x1: "dseg nx' pv NULL h xs (nx a) lm" if "xs \<noteq> []"
    using that d dseg_retarget [OF x that] by (simp add: nx')
  have "hd ys \<notin> set xs" if "ys \<noteq> []" using d that by (cases ys) auto
  with x1 have X: "dseg nx' pv' NULL h xs (nx a) lm" if "xs \<noteq> []"
    using that by (simp add: pv')
  have y1: "dseg nx pv' lm (nx a) ys NULL t" if "ys \<noteq> []"
    using that d dseg_resource [OF y that] lm by (simp add: pv')
  have "last xs \<notin> set ys" if "xs \<noteq> []" using d last_in_set [OF that] by auto
  with y1 have Y: "dseg nx' pv' lm (nx a) ys NULL t" if "ys \<noteq> []"
    using that by (simp add: nx')
  have ha: "h = a \<longleftrightarrow> xs = []" "t = a \<longleftrightarrow> ys = []"
    using hx ty d hd_in_set [of xs] last_in_set [of ys] by (auto simp del: hd_in_set last_in_set)
  show ?thesis
    unfolding nx'_def [symmetric] pv'_def [symmetric]
    using X Y ha lx lm hy ty by (cases "xs = []"; cases "ys = []") auto
qed

end
