(* ===== verification/Item_Mem.thy ===== *)
theory Item_Mem
  imports Linked_Lists
begin

text \<open>
  The item of \<^verbatim>\<open>memcached.h\<close> and the memory that holds items. An address stands for a chunk of slab
  memory; the heap gives the \<^verbatim>\<open>struct _stritem\<close> there. What the C code finds behind the header at
  computed offsets (CAS value, key, client flags, data) are fields of the record. A chunk of a
  large item uses the same 48 byte header (\<^verbatim>\<open>struct _strchunk\<close>): its fields \<^verbatim>\<open>head\<close>, \<^verbatim>\<open>size\<close>, \<^verbatim>\<open>used\<close> and
  \<^verbatim>\<open>orig_clsid\<close> lie where an item has \<^verbatim>\<open>h_next\<close>, \<^verbatim>\<open>time\<close>, \<^verbatim>\<open>exptime\<close> and \<^verbatim>\<open>nkey\<close>.
\<close>

record item =
  it_next :: addr
  it_prev :: addr
  h_next :: addr
  it_time :: uint32
  exptime :: uint32
  nbytes :: int
  refcount :: "16 word"
  it_flags :: "16 word"
  slabs_clsid :: byte
  nkey :: byte
  cas_f :: uint64
  ikey :: bytes
  cflags :: uint32
  idata :: bytes

record mem =
  heap :: "addr \<Rightarrow> item"

definition upd_item :: "addr \<Rightarrow> (item \<Rightarrow> item) \<Rightarrow> 'a mem_scheme \<Rightarrow> 'a mem_scheme" where
  [simp]: "upd_item a f s = s\<lparr>heap := (heap s)(a := f (heap s a))\<rparr>"

text \<open>Zeroed memory.\<close>

definition item0 :: item where
  "item0 = \<lparr>it_next = NULL, it_prev = NULL, h_next = NULL, it_time = 0, exptime = 0, nbytes = 0, refcount = 0,
     it_flags = 0, slabs_clsid = 0, nkey = 0, cas_f = 0, ikey = [], cflags = 0, idata = []\<rparr>"

section \<open>Flags and macros\<close>

abbreviation (input) ITEM_LINKED :: "16 word" where "ITEM_LINKED \<equiv> 1"
abbreviation (input) ITEM_CAS :: "16 word" where "ITEM_CAS \<equiv> 2"
abbreviation (input) ITEM_SLABBED :: "16 word" where "ITEM_SLABBED \<equiv> 4"
abbreviation (input) ITEM_FETCHED :: "16 word" where "ITEM_FETCHED \<equiv> 8"
abbreviation (input) ITEM_ACTIVE :: "16 word" where "ITEM_ACTIVE \<equiv> 16"
abbreviation (input) ITEM_CHUNKED :: "16 word" where "ITEM_CHUNKED \<equiv> 32"
abbreviation (input) ITEM_CHUNK :: "16 word" where "ITEM_CHUNK \<equiv> 64"
abbreviation (input) ITEM_HDR :: "16 word" where "ITEM_HDR \<equiv> 128"
abbreviation (input) ITEM_CFLAGS :: "16 word" where "ITEM_CFLAGS \<equiv> 256"

definition has_flag :: "16 word \<Rightarrow> item \<Rightarrow> bool" where
  "has_flag f it \<longleftrightarrow> it_flags it AND f \<noteq> 0"

definition ITEM_get_cas :: "item \<Rightarrow> uint64" where
  "ITEM_get_cas it = (if has_flag ITEM_CAS it then cas_f it else 0)"

definition ITEM_set_cas :: "uint64 \<Rightarrow> item \<Rightarrow> item" where
  "ITEM_set_cas v it = (if has_flag ITEM_CAS it then it\<lparr>cas_f := v\<rparr> else it)"

definition ITEM_ntotal :: "item \<Rightarrow> uint64" where
  "ITEM_ntotal it = 48 + ucast (nkey it) + 1 + word_of_int (nbytes it)
     + (if has_flag ITEM_CFLAGS it then 4 else 0) + (if has_flag ITEM_CAS it then 8 else 0)"

definition ITEM_clsid :: "item \<Rightarrow> byte" where
  "ITEM_clsid it = slabs_clsid it AND NOT (push_bit 6 3)"

definition ITEM_lruid :: "item \<Rightarrow> byte" where
  "ITEM_lruid it = slabs_clsid it AND push_bit 6 3"

definition FLAGS_CONV :: "item \<Rightarrow> uint32" where
  "FLAGS_CONV it = (if has_flag ITEM_CFLAGS it then cflags it else 0)"

definition FLAGS_SIZE :: "item \<Rightarrow> nat" where
  "FLAGS_SIZE it = (if has_flag ITEM_CFLAGS it then 4 else 0)"

text \<open>The offsets, from the start of the item, of its key, of its flags, of its data and of its first chunk.\<close>

definition ITEM_key :: "item \<Rightarrow> nat" where
  "ITEM_key it = 48 + (if has_flag ITEM_CAS it then 8 else 0)"

definition ITEM_suffix :: "item \<Rightarrow> nat" where
  "ITEM_suffix it = 48 + unat (nkey it) + 1 + (if has_flag ITEM_CAS it then 8 else 0)"

definition ITEM_data :: "item \<Rightarrow> nat" where
  "ITEM_data it = 48 + unat (nkey it) + 1 + (if has_flag ITEM_CFLAGS it then 4 else 0)
     + (if has_flag ITEM_CAS it then 8 else 0)"

definition ITEM_schunk :: "addr \<Rightarrow> item \<Rightarrow> addr" where
  "ITEM_schunk a it = a + 48 + unat (nkey it) + 1 + (if has_flag ITEM_CFLAGS it then 4 else 0)
     + (if has_flag ITEM_CAS it then 8 else 0)"

section \<open>Projections of the heap\<close>

lemmas heap_comp [simp] = fun_upd_comp

lemma comp_upd_same [simp]: "(f \<circ> h)(x := f (h x)) = f \<circ> h"
  by (simp add: fun_eq_iff)

lemma flag_bit:
  fixes w :: "16 word"
  shows "w AND 1 = 0 \<longleftrightarrow> \<not> bit w 0" "w AND 2 = 0 \<longleftrightarrow> \<not> bit w 1" "w AND 4 = 0 \<longleftrightarrow> \<not> bit w 2"
    "w AND 8 = 0 \<longleftrightarrow> \<not> bit w 3" "w AND 16 = 0 \<longleftrightarrow> \<not> bit w 4" "w AND 32 = 0 \<longleftrightarrow> \<not> bit w 5"
    "w AND 64 = 0 \<longleftrightarrow> \<not> bit w 6" "w AND 128 = 0 \<longleftrightarrow> \<not> bit w 7" "w AND 256 = 0 \<longleftrightarrow> \<not> bit w 8"
  using and_exp_eq_0_iff_not_bit [of w 0] and_exp_eq_0_iff_not_bit [of w 1]
    and_exp_eq_0_iff_not_bit [of w 2] and_exp_eq_0_iff_not_bit [of w 3]
    and_exp_eq_0_iff_not_bit [of w 4] and_exp_eq_0_iff_not_bit [of w 5]
    and_exp_eq_0_iff_not_bit [of w 6] and_exp_eq_0_iff_not_bit [of w 7]
    and_exp_eq_0_iff_not_bit [of w 8] by (simp_all)

text \<open>The header, the optional parts and the data follow each other without gap or overlap.\<close>

lemma ITEM_layout:
  "ITEM_key it + unat (nkey it) + 1 = ITEM_suffix it"
  "ITEM_suffix it + FLAGS_SIZE it = ITEM_data it"
  "0 \<le> nbytes it \<Longrightarrow> nbytes it < 2 ^ 31 \<Longrightarrow> ITEM_data it + nat (nbytes it) = unat (ITEM_ntotal it)"
proof -
  show "ITEM_key it + unat (nkey it) + 1 = ITEM_suffix it" by (simp add: ITEM_key_def ITEM_suffix_def)
  show "ITEM_suffix it + FLAGS_SIZE it = ITEM_data it"
    by (simp add: ITEM_suffix_def ITEM_data_def FLAGS_SIZE_def)
  assume nb: "0 \<le> nbytes it" "nbytes it < 2 ^ 31"
  then obtain n where n: "nbytes it = int n" "n < 2 ^ 31" using zero_le_imp_eq_int by fastforce
  have "ITEM_ntotal it = of_nat (ITEM_data it + n)"
    by (simp add: ITEM_ntotal_def ITEM_data_def n(1) del: unsigned_of_nat)
  moreover have "ITEM_data it + n < 2 ^ 64"
    using n(2) unat_bound [of "nkey it"] by (simp add: ITEM_data_def)
  ultimately show "ITEM_data it + nat (nbytes it) = unat (ITEM_ntotal it)"
    using n unat_of_nat [of "ITEM_data it + n", where 'a = 64] by (simp del: of_nat_add)
qed

text \<open>Heaps that differ only in hash chain links.\<close>

definition hnext_only :: "(addr \<Rightarrow> item) \<Rightarrow> (addr \<Rightarrow> item) \<Rightarrow> bool" where
  "hnext_only h h' \<longleftrightarrow> (\<forall>a. (h' a)\<lparr>h_next := NULL\<rparr> = (h a)\<lparr>h_next := NULL\<rparr>)"

lemma hnext_only_refl [simp]: "hnext_only h h"
  by (simp add: hnext_only_def)

lemma hnext_only_upd [simp]: "hnext_only h (h'(a := (h' a)\<lparr>h_next := v\<rparr>)) \<longleftrightarrow> hnext_only h h'"
  by (auto simp: hnext_only_def)

lemma hnext_only_trans: "hnext_only h h' \<Longrightarrow> hnext_only h' h'' \<Longrightarrow> hnext_only h h''"
  by (simp add: hnext_only_def)

lemma hnext_only_fields:
  assumes "hnext_only h h'"
  shows "it_next (h' a) = it_next (h a)" "it_prev (h' a) = it_prev (h a)" "it_time (h' a) = it_time (h a)"
    "exptime (h' a) = exptime (h a)" "nbytes (h' a) = nbytes (h a)" "refcount (h' a) = refcount (h a)"
    "it_flags (h' a) = it_flags (h a)" "slabs_clsid (h' a) = slabs_clsid (h a)" "nkey (h' a) = nkey (h a)"
    "cas_f (h' a) = cas_f (h a)" "ikey (h' a) = ikey (h a)" "cflags (h' a) = cflags (h a)" "idata (h' a) = idata (h a)"
proof -
  have e: "(h' a)\<lparr>h_next := NULL\<rparr> = (h a)\<lparr>h_next := NULL\<rparr>" using assms by (simp add: hnext_only_def)
  show "it_next (h' a) = it_next (h a)" "it_prev (h' a) = it_prev (h a)" "it_time (h' a) = it_time (h a)"
    "exptime (h' a) = exptime (h a)" "nbytes (h' a) = nbytes (h a)" "refcount (h' a) = refcount (h a)"
    "it_flags (h' a) = it_flags (h a)" "slabs_clsid (h' a) = slabs_clsid (h a)" "nkey (h' a) = nkey (h a)"
    "cas_f (h' a) = cas_f (h a)" "ikey (h' a) = ikey (h a)" "cflags (h' a) = cflags (h a)" "idata (h' a) = idata (h a)"
    using e by (cases "h a"; cases "h' a"; simp)+
qed

end
