(* ===== verification/Assoc_Table.thy ===== *)
theory Assoc_Table
  imports Item_Mem
begin

text \<open>
  Model of \<^verbatim>\<open>assoc.c\<close>, the hash table over the items. The table is an array of chain heads; a larger
  table is filled bucket by bucket while lookups go on (\<^verbatim>\<open>expanding\<close>, \<^verbatim>\<open>expand_bucket\<close>). The hash function
  chosen at start (\<^verbatim>\<open>hash.c\<close>) is a parameter. A walk along a chain need not end on a corrupted
  heap, so it is a partial function; under the representation invariant it always returns.
\<close>

section \<open>Model\<close>

record assoc = mem +
  hashpower :: nat
  primary_hashtable :: "addr list"
  old_hashtable :: "addr list"
  expanding :: bool
  expand_bucket :: uint32
  hash_power_level :: nat
  hash_bytes :: uint64
  hash_is_expanding :: bool

definition hashsize :: "nat \<Rightarrow> uint32" where "hashsize n = push_bit n 1"
definition hashmask :: "nat \<Rightarrow> uint32" where "hashmask n = hashsize n - 1"

text \<open>\<open>None\<close> is the exit of the server when the table cannot be allocated.\<close>

definition assoc_init :: "bool \<Rightarrow> nat \<Rightarrow> 'a assoc_scheme \<Rightarrow> 'a assoc_scheme option" where
  "assoc_init calloc_ok hashtable_init s =
    (let s1 = (if hashtable_init \<noteq> 0 then s\<lparr>hashpower := hashtable_init\<rparr> else s) in
     if \<not> calloc_ok then None
     else Some (s1\<lparr>primary_hashtable := replicate (unat (hashsize (hashpower s1))) NULL,
                   hash_power_level := hashpower s1,
                   hash_bytes := ucast (hashsize (hashpower s1)) * 8\<rparr>))"

text \<open>The slot of the table that holds the chain of a hash value: the old table's while its bucket was not moved yet.\<close>

datatype hpos = In_primary nat | In_old nat | In_next addr

definition slot_of :: "'a assoc_scheme \<Rightarrow> uint32 \<Rightarrow> hpos" where
  "slot_of s hv =
    (let oldbucket = hv AND hashmask (hashpower s - 1) in
     if expanding s \<and> oldbucket \<ge> expand_bucket s then In_old (unat oldbucket)
     else In_primary (unat (hv AND hashmask (hashpower s))))"

definition get_pos :: "'a assoc_scheme \<Rightarrow> hpos \<Rightarrow> addr" where
  "get_pos s pos = (case pos of In_primary i \<Rightarrow> primary_hashtable s ! i
     | In_old i \<Rightarrow> old_hashtable s ! i | In_next a \<Rightarrow> h_next (heap s a))"

definition set_pos :: "hpos \<Rightarrow> addr \<Rightarrow> 'a assoc_scheme \<Rightarrow> 'a assoc_scheme" where
  "set_pos pos v s = (case pos of
       In_primary i \<Rightarrow> s\<lparr>primary_hashtable := (primary_hashtable s)[i := v]\<rparr>
     | In_old i \<Rightarrow> s\<lparr>old_hashtable := (old_hashtable s)[i := v]\<rparr>
     | In_next a \<Rightarrow> upd_item a (h_next_update (\<lambda>_. v)) s)"

definition key_is :: "bytes \<Rightarrow> item \<Rightarrow> bool" where
  "key_is key it \<longleftrightarrow> length key = unat (nkey it) \<and> key = take (length key) (ikey it)"

partial_function (option) find_loop :: "(addr \<Rightarrow> item) \<Rightarrow> bytes \<Rightarrow> addr \<Rightarrow> addr option" where
  "find_loop h key it =
    (if it = NULL then Some NULL
     else if key_is key (h it) then Some it
     else find_loop h key (h_next (h it)))"

definition assoc_find :: "bytes \<Rightarrow> uint32 \<Rightarrow> 'a assoc_scheme \<Rightarrow> addr option" where
  "assoc_find key hv s = find_loop (heap s) key (get_pos s (slot_of s hv))"

partial_function (option) before_loop :: "'a assoc_scheme \<Rightarrow> bytes \<Rightarrow> hpos \<Rightarrow> hpos option" where
  "before_loop s key pos =
    (let p = get_pos s pos in
     if p \<noteq> NULL \<and> \<not> key_is key (heap s p) then before_loop s key (In_next p) else Some pos)"

definition hashitem_before :: "bytes \<Rightarrow> uint32 \<Rightarrow> 'a assoc_scheme \<Rightarrow> hpos option" where
  "hashitem_before key hv s = before_loop s key (slot_of s hv)"

definition assoc_expand :: "bool \<Rightarrow> 'a assoc_scheme \<Rightarrow> 'a assoc_scheme" where
  "assoc_expand calloc_ok s =
    (let s1 = s\<lparr>old_hashtable := primary_hashtable s\<rparr> in
     if calloc_ok
     then s1\<lparr>primary_hashtable := replicate (unat (hashsize (hashpower s + 1))) NULL,
             hashpower := hashpower s + 1, expanding := True, expand_bucket := 0,
             hash_power_level := hashpower s + 1,
             hash_bytes := hash_bytes s + ucast (hashsize (hashpower s + 1)) * 8,
             hash_is_expanding := True\<rparr>
     else s1)"

text \<open>Whether the maintenance thread is woken to expand the table.\<close>

definition assoc_start_expand :: "bool \<Rightarrow> uint64 \<Rightarrow> 'a assoc_scheme \<Rightarrow> bool" where
  "assoc_start_expand trylock_ok curr_items s \<longleftrightarrow>
    trylock_ok \<and> curr_items > ucast ((hashsize (hashpower s) * 3) div 2) \<and> hashpower s < 32"

definition assoc_insert :: "addr \<Rightarrow> uint32 \<Rightarrow> 'a assoc_scheme \<Rightarrow> 'a assoc_scheme" where
  "assoc_insert it hv s =
    (let pos = slot_of s hv;
         s1 = upd_item it (h_next_update (\<lambda>_. get_pos s pos)) s
     in set_pos pos it s1)"

definition assoc_delete :: "bytes \<Rightarrow> uint32 \<Rightarrow> 'a assoc_scheme \<Rightarrow> 'a assoc_scheme option" where
  "assoc_delete key hv s =
    (case hashitem_before key hv s of None \<Rightarrow> None
     | Some before \<Rightarrow>
        let p = get_pos s before in
        if p \<noteq> NULL
        then let nxt = h_next (heap s p);
                 s1 = upd_item p (h_next_update (\<lambda>_. NULL)) s
             in Some (set_pos before nxt s1)
        else Some s)"

text \<open>
  The maintenance thread. \<open>move_loop\<close> is the walk over one old bucket, \<open>move_bucket\<close> one turn of
  the bulk loop (with the result of \<^verbatim>\<open>item_trylock\<close>), \<open>maintenance_round\<close> one turn of the outer loop:
  up to \<^verbatim>\<open>hash_bulk_move\<close> buckets, then, when no expansion is going on, the wait for a signal and
  the start of the next expansion.
\<close>

partial_function (option) move_loop ::
    "(bytes \<Rightarrow> uint32) \<Rightarrow> addr \<Rightarrow> 'a assoc_scheme \<Rightarrow> 'a assoc_scheme option" where
  "move_loop hash it s =
    (if it = NULL then Some s
     else
       let next = h_next (heap s it);
           bucket = unat (hash (take (unat (nkey (heap s it))) (ikey (heap s it))) AND hashmask (hashpower s));
           s1 = upd_item it (h_next_update (\<lambda>_. primary_hashtable s ! bucket)) s;
           s2 = s1\<lparr>primary_hashtable := (primary_hashtable s)[bucket := it]\<rparr>
       in move_loop hash next s2)"

definition move_bucket :: "(bytes \<Rightarrow> uint32) \<Rightarrow> bool \<Rightarrow> 'a assoc_scheme \<Rightarrow> 'a assoc_scheme option" where
  "move_bucket hash trylock_ok s =
    (if \<not> trylock_ok then Some s
     else
       let eb = unat (expand_bucket s) in
       case move_loop hash (old_hashtable s ! eb) s of None \<Rightarrow> None
       | Some s1 \<Rightarrow>
          let s2 = s1\<lparr>old_hashtable := (old_hashtable s1)[eb := NULL], expand_bucket := expand_bucket s1 + 1\<rparr> in
          if expand_bucket s2 = hashsize (hashpower s2 - 1)
          then Some (s2\<lparr>expanding := False, old_hashtable := [],
                 hash_bytes := hash_bytes s2 - ucast (hashsize (hashpower s2 - 1)) * 8,
                 hash_is_expanding := False\<rparr>)
          else Some s2)"

fun bulk_move :: "(bytes \<Rightarrow> uint32) \<Rightarrow> bool list \<Rightarrow> 'a assoc_scheme \<Rightarrow> 'a assoc_scheme option" where
  "bulk_move hash [] s = Some s"
| "bulk_move hash (lk # lks) s =
    (if expanding s
     then (case move_bucket hash lk s of None \<Rightarrow> None | Some s1 \<Rightarrow> bulk_move hash lks s1)
     else Some s)"

definition maintenance_round ::
    "(bytes \<Rightarrow> uint32) \<Rightarrow> bool list \<Rightarrow> bool \<Rightarrow> bool \<Rightarrow> 'a assoc_scheme \<Rightarrow> 'a assoc_scheme option" where
  "maintenance_round hash locks do_run calloc_ok s =
    (case bulk_move hash locks s of None \<Rightarrow> None
     | Some s1 \<Rightarrow> if \<not> expanding s1 \<and> do_run then Some (assoc_expand calloc_ok s1) else Some s1)"

text \<open>
  The iterator of the crawler. It holds the maintenance lock, so no expansion runs; the item
  lock of the bucket in hand is the flag \<^verbatim>\<open>bucket_locked\<close>. The result is the return value, the item
  stored through the second argument and the iterator.
\<close>

record assoc_iterator =
  bucket :: uint32
  bucket_locked :: bool
  iter_it :: addr
  iter_next :: addr

definition assoc_get_iterator :: "bool \<Rightarrow> assoc_iterator option" where
  "assoc_get_iterator calloc_ok =
    (if calloc_ok then Some \<lparr>bucket = 0, bucket_locked = False, iter_it = NULL, iter_next = NULL\<rparr> else None)"

definition assoc_iterate :: "assoc_iterator \<Rightarrow> 'a assoc_scheme \<Rightarrow> bool \<times> addr \<times> assoc_iterator" where
  "assoc_iterate iter s =
    (if bucket_locked iter
     then if iter_next iter \<noteq> NULL
          then (True, iter_next iter,
                iter\<lparr>iter_it := iter_next iter, iter_next := h_next (heap s (iter_next iter))\<rparr>)
          else (True, NULL, iter\<lparr>bucket := bucket iter + 1, bucket_locked := False\<rparr>)
     else if bucket iter \<noteq> hashsize (hashpower s)
     then let it = primary_hashtable s ! unat (bucket iter) in
          if it \<noteq> NULL
          then (True, it, iter\<lparr>bucket_locked := True, iter_it := it, iter_next := h_next (heap s it)\<rparr>)
          else (True, NULL, iter\<lparr>iter_it := it, bucket_locked := False, bucket := bucket iter + 1\<rparr>)
     else (False, NULL, iter))"

text \<open>Whether \<^verbatim>\<open>assoc_iterate_final\<close> has a bucket lock to release before the maintenance lock.\<close>

definition assoc_iterate_final :: "assoc_iterator \<Rightarrow> bool" where
  "assoc_iterate_final iter = bucket_locked iter"

section \<open>Representation\<close>

lemma hashmask_mask: "hashmask n = mask n"
  by (simp add: hashmask_def hashsize_def mask_eq_exp_minus_1 push_bit_eq_mult)

lemma unat_hashmask [simp]: "unat (hv AND hashmask n) = unat hv mod 2 ^ n"
  by (simp only: hashmask_mask unsigned_take_bit_eq flip: take_bit_eq_mask) (simp only: take_bit_eq_mod)

lemma unat_hashsize: "n < 32 \<Longrightarrow> unat (hashsize n) = 2 ^ n"
proof -
  assume "n < 32"
  then have "(2 :: nat) ^ n < 2 ^ 32" by (rule power_strict_increasing) simp
  then have "unat (of_nat (2 ^ n) :: uint32) = 2 ^ n" by (simp add: unat_of_nat del: of_nat_power)
  then show ?thesis by (simp add: hashsize_def push_bit_eq_mult)
qed

definition key_of :: "item \<Rightarrow> bytes" where
  "key_of it = take (unat (nkey it)) (ikey it)"

definition key_wf :: "item \<Rightarrow> bool" where
  "key_wf it \<longleftrightarrow> unat (nkey it) \<le> length (ikey it)"

lemma key_is_iff: "key_wf it \<Longrightarrow> key_is key it \<longleftrightarrow> key = key_of it"
  by (auto simp: key_is_def key_of_def key_wf_def min_def)

lemma key_upd [simp]:
  "key_of (it\<lparr>h_next := v\<rparr>) = key_of it" "key_wf (it\<lparr>h_next := v\<rparr>) = key_wf it"
  by (simp_all add: key_of_def key_wf_def)

text \<open>
  The slots of the table, and its state: every slot heads a chain, and every item on the chain
  of a slot has a hash value that selects this slot. During an expansion the latter says that
  the moved buckets of the old table are empty and that the primary table holds the moved items.
\<close>

definition slots :: "'a assoc_scheme \<Rightarrow> hpos set" where
  "slots s = In_primary ` {..<2 ^ hashpower s} \<union> (if expanding s then In_old ` {..<2 ^ (hashpower s - 1)} else {})"

definition table_wf :: "'a assoc_scheme \<Rightarrow> bool" where
  "table_wf s \<longleftrightarrow> hashpower s < 32 \<and> length (primary_hashtable s) = 2 ^ hashpower s \<and>
    (expanding s \<longrightarrow> 0 < hashpower s \<and> length (old_hashtable s) = 2 ^ (hashpower s - 1) \<and>
      unat (expand_bucket s) < 2 ^ (hashpower s - 1))"

definition rep_on :: "hpos set \<Rightarrow> (bytes \<Rightarrow> hpos) \<Rightarrow> 'a assoc_scheme \<Rightarrow> (hpos \<Rightarrow> addr list) \<Rightarrow> bool" where
  "rep_on S sl s C \<longleftrightarrow>
    (\<forall>pos \<in> S. chain (h_next \<circ> heap s) (get_pos s pos) (C pos) \<and>
      (\<forall>a \<in> set (C pos). key_wf (heap s a) \<and> sl (key_of (heap s a)) = pos))"

definition assoc_rep :: "(bytes \<Rightarrow> uint32) \<Rightarrow> 'a assoc_scheme \<Rightarrow> (hpos \<Rightarrow> addr list) \<Rightarrow> bool" where
  "assoc_rep hash s C \<longleftrightarrow> table_wf s \<and> rep_on (slots s) (\<lambda>k. slot_of s (hash k)) s C"

definition items_on :: "hpos set \<Rightarrow> (hpos \<Rightarrow> addr list) \<Rightarrow> addr set" where
  "items_on S C = (\<Union>pos \<in> S. set (C pos))"

definition tab_items :: "'a assoc_scheme \<Rightarrow> (hpos \<Rightarrow> addr list) \<Rightarrow> addr set" where
  "tab_items s C = items_on (slots s) C"

lemma items_on_mono_neutral:
  assumes "S \<subseteq> T" "\<And>pos. pos \<in> T - S \<Longrightarrow> C pos = []"
  shows "items_on S C = items_on T C"
proof
  show "items_on S C \<subseteq> items_on T C" using assms(1) unfolding items_on_def by blast
  show "items_on T C \<subseteq> items_on S C"
  proof
    fix a assume "a \<in> items_on T C"
    then obtain pos where p: "pos \<in> T" "a \<in> set (C pos)" by (auto simp: items_on_def)
    with assms(2) [of pos] have "pos \<in> S" by (cases "pos \<in> S") auto
    with p show "a \<in> items_on S C" by (auto simp: items_on_def)
  qed
qed

text \<open>The table as a finite map from keys to the addresses of items.\<close>

definition abs_map :: "'a assoc_scheme \<Rightarrow> addr set \<Rightarrow> (bytes \<rightharpoonup> addr) \<Rightarrow> bool" where
  "abs_map s A m \<longleftrightarrow> (\<forall>k a. m k = Some a \<longleftrightarrow> a \<in> A \<and> key_of (heap s a) = k)"

definition assoc_abs :: "(bytes \<Rightarrow> uint32) \<Rightarrow> 'a assoc_scheme \<Rightarrow> (bytes \<rightharpoonup> addr) \<Rightarrow> bool" where
  "assoc_abs hash s m \<longleftrightarrow> (\<exists>C. assoc_rep hash s C \<and> abs_map s (tab_items s C) m)"

lemma abs_map_ran: "abs_map s A m \<Longrightarrow> ran m = A"
  by (auto simp: abs_map_def ran_def)

lemma abs_map_insert:
  assumes "abs_map s A m" "a \<notin> A" "m (key_of (heap s a)) = None"
    and "\<And>b. key_of (heap s' b) = key_of (heap s b)" "A' = insert a A"
  shows "abs_map s' A' (m(key_of (heap s a) \<mapsto> a))"
proof -
  have "key_of (heap s b) \<noteq> key_of (heap s a)" if "b \<in> A" for b
    using assms(1,3) that by (metis abs_map_def option.distinct(1))
  with assms show ?thesis by (auto simp: abs_map_def)
qed

lemma abs_map_delete:
  assumes "abs_map s A m" "m k = Some a" and "\<And>b. key_of (heap s' b) = key_of (heap s b)"
  shows "abs_map s' (A - {a}) (m(k := None))"
proof -
  have "b = a" if "b \<in> A" "key_of (heap s b) = k" for b
    using assms(1,2) that by (metis abs_map_def option.inject)
  with assms show ?thesis by (auto simp: abs_map_def)
qed

lemma slot_of_in_slots [simp]: "slot_of s hv \<in> slots s"
  by (auto simp: slot_of_def slots_def Let_def)

lemma repD:
  assumes "assoc_rep hash s C" "pos \<in> slots s"
  shows "chain (h_next \<circ> heap s) (get_pos s pos) (C pos)"
    "a \<in> set (C pos) \<Longrightarrow> key_wf (heap s a)"
    "a \<in> set (C pos) \<Longrightarrow> slot_of s (hash (key_of (heap s a))) = pos"
  using assms by (auto simp: assoc_rep_def rep_on_def)

lemma tab_items_slot:
  "assoc_rep hash s C \<Longrightarrow> a \<in> tab_items s C \<Longrightarrow> a \<in> set (C (slot_of s (hash (key_of (heap s a)))))"
  by (auto simp: tab_items_def items_on_def assoc_rep_def rep_on_def)

lemma slot_subset: "set (C (slot_of s hv)) \<subseteq> tab_items s C"
  unfolding tab_items_def items_on_def using slot_of_in_slots by blast

lemma tab_items_not_NULL: "assoc_rep hash s C \<Longrightarrow> NULL \<notin> tab_items s C"
  by (auto simp: tab_items_def items_on_def assoc_rep_def rep_on_def dest: seg_not_NULL)

lemma slots_disjoint:
  "\<lbrakk>assoc_rep hash s C; p \<in> slots s; q \<in> slots s; a \<in> set (C p); a \<in> set (C q)\<rbrakk> \<Longrightarrow> p = q"
  by (metis repD(3))

text \<open>Reading and writing slots.\<close>

lemma set_pos_fields [simp]:
  "hashpower (set_pos pos v s) = hashpower s" "expanding (set_pos pos v s) = expanding s"
  "expand_bucket (set_pos pos v s) = expand_bucket s"
  by (cases pos; simp add: set_pos_def)+

lemma slot_cong:
  "hashpower s' = hashpower s \<Longrightarrow> expanding s' = expanding s \<Longrightarrow> expand_bucket s' = expand_bucket s \<Longrightarrow>
    slot_of s' = slot_of s \<and> slots s' = slots s"
  by (simp add: slot_of_def slots_def fun_eq_iff Let_def)

lemma slot_set_pos [simp]: "slot_of (set_pos pos v s) = slot_of s" "slots (set_pos pos v s) = slots s"
  using slot_cong [of "set_pos pos v s" s] by simp_all

lemma slot_heap [simp]: "slot_of (s\<lparr>heap := h\<rparr>) = slot_of s" "slots (s\<lparr>heap := h\<rparr>) = slots s"
  using slot_cong [of "s\<lparr>heap := h\<rparr>" s] by simp_all

lemma set_pos_wf [simp]: "table_wf (set_pos pos v s) = table_wf s"
  by (cases pos) (simp_all add: set_pos_def table_wf_def)

lemma heap_wf [simp]: "table_wf (s\<lparr>heap := h\<rparr>) = table_wf s"
  by (simp add: table_wf_def)

lemma get_set_pos:
  assumes "table_wf s" "pos \<in> slots s" "q \<in> slots s"
  shows "get_pos (set_pos pos v s) q = (if q = pos then v else get_pos s q)"
    and "heap (set_pos pos v s) = heap s"
  using assms by (auto simp: get_pos_def set_pos_def table_wf_def slots_def nth_list_update split: if_splits)

lemma get_pos_heap: "q \<in> slots s \<Longrightarrow> get_pos (s\<lparr>heap := h\<rparr>) q = get_pos s q"
  by (auto simp: get_pos_def slots_def split: if_splits)

section \<open>Lookup\<close>

lemma find_loop_chain:
  assumes "chain (h_next \<circ> h) p as" "\<forall>a \<in> set as. key_wf (h a)"
  shows "find_loop h key p = Some (case find (\<lambda>a. key_of (h a) = key) as of None \<Rightarrow> NULL | Some a \<Rightarrow> a)"
  using assms
proof (induction as arbitrary: p)
  case (Cons a as)
  then show ?case by (subst find_loop.simps) (auto simp: key_is_iff)
qed (simp add: find_loop.simps)

lemma find_unique:
  assumes "\<And>a. a \<in> set as \<and> f a = k \<longleftrightarrow> m = Some a"
  shows "find (\<lambda>a. f a = k) as = m"
proof (cases "find (\<lambda>a. f a = k) as")
  case None
  then show ?thesis using assms by (cases m) (auto simp: find_None_iff)
next
  case (Some a)
  then have "a \<in> set as \<and> f a = k" by (auto simp: find_Some_iff)
  with Some assms show ?thesis by simp
qed

lemma slot_items_key:
  assumes "assoc_rep hash s C" "abs_map s (tab_items s C) m"
  shows "a \<in> set (C (slot_of s (hash k))) \<and> key_of (heap s a) = k \<longleftrightarrow> m k = Some a"
  using assms tab_items_slot [OF assms(1), of a] by (auto simp: abs_map_def tab_items_def items_on_def)

lemma assoc_find_abs:
  assumes "assoc_abs hash s m"
  shows "assoc_find k (hash k) s = Some (case m k of None \<Rightarrow> NULL | Some a \<Rightarrow> a)"
proof -
  from assms obtain C where C: "assoc_rep hash s C" "abs_map s (tab_items s C) m"
    by (auto simp: assoc_abs_def)
  have "find (\<lambda>a. key_of (heap s a) = k) (C (slot_of s (hash k))) = m k"
    by (rule find_unique) (rule slot_items_key [OF C])
  with find_loop_chain [OF repD(1) [OF C(1) slot_of_in_slots]] repD(2) [OF C(1) slot_of_in_slots]
  show ?thesis by (simp add: assoc_find_def)
qed

section \<open>Updates of one slot\<close>

text \<open>
  A change of the chain of one slot that leaves all keys and all other chains alone.
\<close>

lemma rep_on_update:
  assumes rep: "rep_on S sl s C" and S: "S \<subseteq> slots s" and wf: "table_wf s" and pos: "pos \<in> S"
    and ch: "chain (h_next \<circ> h') v as"
    and frame: "\<And>b. b \<in> items_on S C - set (C pos) \<Longrightarrow> h_next (h' b) = h_next (heap s b)"
    and keys: "\<And>b. key_of (h' b) = key_of (heap s b)" "\<And>b. key_wf (h' b) = key_wf (heap s b)"
    and new: "\<And>b. b \<in> set as \<Longrightarrow> key_wf (heap s b) \<and> sl (key_of (heap s b)) = pos"
  shows "rep_on S sl (set_pos pos v (s\<lparr>heap := h'\<rparr>)) (C(pos := as)) \<and>
    items_on S (C(pos := as)) = items_on S C - set (C pos) \<union> set as"
proof -
  let ?s = "set_pos pos v (s\<lparr>heap := h'\<rparr>)"
  have g: "get_pos ?s q = (if q = pos then v else get_pos s q)" "heap ?s = h'" if "q \<in> S" for q
  proof -
    from that pos S have "q \<in> slots s" "pos \<in> slots s" by auto
    then show "get_pos ?s q = (if q = pos then v else get_pos s q)" "heap ?s = h'"
      using get_set_pos [of "s\<lparr>heap := h'\<rparr>" pos q v] wf by (simp_all add: get_pos_heap)
  qed
  have dis: "p = q" if "p \<in> S" "q \<in> S" "a \<in> set (C p)" "a \<in> set (C q)" for p q a
    using that rep unfolding rep_on_def by metis
  have other: "chain (h_next \<circ> h') (get_pos s q) (C q)" if "q \<in> S" "q \<noteq> pos" for q
  proof -
    have "b \<in> items_on S C - set (C pos)" if "b \<in> set (C q)" for b
      using that \<open>q \<in> S\<close> \<open>q \<noteq> pos\<close> dis [OF \<open>q \<in> S\<close> pos] by (auto simp: items_on_def)
    with frame have "seg (h_next \<circ> h') (get_pos s q) (C q) NULL = seg (h_next \<circ> heap s) (get_pos s q) (C q) NULL"
      by (intro seg_cong) auto
    with rep that(1) show ?thesis by (auto simp: rep_on_def)
  qed
  have "rep_on S sl ?s (C(pos := as))"
    unfolding rep_on_def using g ch other new keys pos rep [unfolded rep_on_def] by auto
  moreover have "items_on S (C(pos := as)) = items_on S C - set (C pos) \<union> set as"
    using pos dis by (auto simp: items_on_def split: if_splits)
  ultimately show ?thesis by simp
qed

lemma rep_slot_update:
  assumes rep: "assoc_rep hash s C" and pos: "pos \<in> slots s"
    and ch: "chain (h_next \<circ> h') v as"
    and frame: "\<And>b. b \<in> tab_items s C - set (C pos) \<Longrightarrow> h_next (h' b) = h_next (heap s b)"
    and keys: "\<And>b. key_of (h' b) = key_of (heap s b)" "\<And>b. key_wf (h' b) = key_wf (heap s b)"
    and new: "\<And>b. b \<in> set as \<Longrightarrow> key_wf (heap s b) \<and> slot_of s (hash (key_of (heap s b))) = pos"
  shows "assoc_rep hash (set_pos pos v (s\<lparr>heap := h'\<rparr>)) (C(pos := as)) \<and>
    tab_items (set_pos pos v (s\<lparr>heap := h'\<rparr>)) (C(pos := as)) = tab_items s C - set (C pos) \<union> set as"
  using rep_on_update [of "slots s" "\<lambda>k. slot_of s (hash k)" s C pos h' v as] assms
  by (simp add: assoc_rep_def tab_items_def)

lemma assoc_insert_abs:
  assumes abs: "assoc_abs hash s m" and a: "a \<noteq> NULL" "a \<notin> ran m" "key_wf (heap s a)"
    and k: "m (key_of (heap s a)) = None"
  shows "assoc_abs hash (assoc_insert a (hash (key_of (heap s a))) s) (m(key_of (heap s a) \<mapsto> a))"
proof -
  from abs obtain C where C: "assoc_rep hash s C" "abs_map s (tab_items s C) m"
    by (auto simp: assoc_abs_def)
  let ?k = "key_of (heap s a)" and ?pos = "slot_of s (hash (key_of (heap s a)))"
  let ?h = "(heap s)(a := (heap s a)\<lparr>h_next := get_pos s ?pos\<rparr>)"
  have na: "a \<notin> tab_items s C" using a(2) abs_map_ran [OF C(2)] by simp
  then have "a \<notin> set (C ?pos)" using slot_of_in_slots by (auto simp: tab_items_def items_on_def)
  then have ch: "chain (h_next \<circ> ?h) a (a # C ?pos)"
    using a(1) repD(1) [OF C(1) slot_of_in_slots] by simp
  have up: "assoc_insert a (hash ?k) s = set_pos ?pos a (s\<lparr>heap := ?h\<rparr>)"
    by (simp add: assoc_insert_def Let_def)
  have rep: "assoc_rep hash (set_pos ?pos a (s\<lparr>heap := ?h\<rparr>)) (C(?pos := a # C ?pos)) \<and>
    tab_items (set_pos ?pos a (s\<lparr>heap := ?h\<rparr>)) (C(?pos := a # C ?pos)) = tab_items s C - set (C ?pos) \<union> set (a # C ?pos)"
    using na a(3) repD(2,3) [OF C(1) slot_of_in_slots]
    by (intro rep_slot_update [OF C(1) slot_of_in_slots ch]) (auto simp: fun_upd_apply)
  have "heap (set_pos ?pos a (s\<lparr>heap := ?h\<rparr>)) = ?h"
    using get_set_pos(2) [of "s\<lparr>heap := ?h\<rparr>" ?pos ?pos] C(1) by (simp add: assoc_rep_def rep_on_def)
  moreover have "set (C ?pos) \<subseteq> tab_items s C" by (rule slot_subset)
  ultimately have "abs_map (set_pos ?pos a (s\<lparr>heap := ?h\<rparr>)) (tab_items (set_pos ?pos a (s\<lparr>heap := ?h\<rparr>)) (C(?pos := a # C ?pos))) (m(?k \<mapsto> a))"
    using rep by (intro abs_map_insert [OF C(2) na k]) (auto simp: fun_upd_apply)
  with rep up show ?thesis by (auto simp: assoc_abs_def)
qed

lemma before_loop_chain:
  assumes "chain (h_next \<circ> heap s) (get_pos s pos) as" "\<forall>a \<in> set as. key_wf (heap s a)"
    and "as = xs @ ys" "\<forall>a \<in> set xs. key_of (heap s a) \<noteq> key" "ys \<noteq> [] \<Longrightarrow> key_of (heap s (hd ys)) = key"
  shows "before_loop s key pos = Some (if xs = [] then pos else In_next (last xs))"
  using assms
proof (induction as arbitrary: pos xs)
  case Nil
  then show ?case by (subst before_loop.simps) simp
next
  case (Cons a as)
  show ?case
  proof (cases xs)
    case Nil
    with Cons show ?thesis by (subst before_loop.simps) (auto simp: key_is_iff)
  next
    case (Cons b zs)
    have "get_pos s (In_next a) = h_next (heap s a)" by (simp add: get_pos_def)
    with Cons.IH [of "In_next a" zs] Cons.prems Cons show ?thesis
      by (subst before_loop.simps) (auto simp: key_is_iff)
  qed
qed

text \<open>Unhooking the element after a position of a chain.\<close>

lemma chain_unhook:
  assumes "chain nx p (xs @ a # ys)"
  shows "chain ((nx(a := NULL))(if xs = [] then a else last xs := if xs = [] then NULL else nx a))
    (if xs = [] then nx a else p) (xs @ ys)"
proof -
  have d: "distinct (xs @ a # ys)" by (rule chain_distinct [OF assms])
  show ?thesis
  proof (cases xs rule: rev_cases)
    case (snoc zs z)
    with assms d show ?thesis by auto
  qed (use assms d in auto)
qed

lemma assoc_delete_abs:
  assumes abs: "assoc_abs hash s m" and k: "m k = Some a"
  shows "\<exists>s'. assoc_delete k (hash k) s = Some s' \<and> assoc_abs hash s' (m(k := None)) \<and>
    hnext_only (heap s) (heap s') \<and> (\<forall>b. b \<notin> ran m \<longrightarrow> heap s' b = heap s b) \<and>
    h_next (heap s' a) = NULL"
proof -
  from abs obtain C where C: "assoc_rep hash s C" "abs_map s (tab_items s C) m"
    by (auto simp: assoc_abs_def)
  let ?pos = "slot_of s (hash k)"
  have aC: "a \<in> set (C ?pos)" "key_of (heap s a) = k" using slot_items_key [OF C] k by auto
  then obtain xs ys where xy: "C ?pos = xs @ a # ys" by (auto simp: in_set_conv_decomp)
  have ch: "chain (h_next \<circ> heap s) (get_pos s ?pos) (xs @ a # ys)"
    using repD(1) [OF C(1) slot_of_in_slots] by (simp flip: xy)
  have d: "distinct (xs @ a # ys)" by (rule chain_distinct [OF ch])
  have nx: "\<forall>b \<in> set xs. key_of (heap s b) \<noteq> k"
  proof
    fix b assume "b \<in> set xs"
    with d have "b \<in> set (C ?pos)" "b \<noteq> a" by (auto simp: xy)
    with slot_items_key [OF C, of b k] k show "key_of (heap s b) \<noteq> k" by auto
  qed
  define bpos where "bpos = (if xs = [] then ?pos else In_next (last xs))"
  have wf: "\<forall>b \<in> set (xs @ a # ys). key_wf (heap s b)"
    unfolding xy [symmetric] using repD(2) [OF C(1) slot_of_in_slots] by blast
  have bef: "hashitem_before k (hash k) s = Some bpos"
    using before_loop_chain [OF ch wf refl nx] aC(2) by (simp add: hashitem_before_def bpos_def)
  have gb: "get_pos s bpos = a"
    using ch by (cases xs rule: rev_cases) (auto simp: bpos_def get_pos_def)
  have an: "a \<noteq> NULL" using ch by auto
  let ?nxt = "h_next (heap s a)"
  define h' where "h' = (let h1 = (heap s)(a := (heap s a)\<lparr>h_next := NULL\<rparr>) in
    if xs = [] then h1 else h1(last xs := (heap s (last xs))\<lparr>h_next := ?nxt\<rparr>))"
  define v where "v = (if xs = [] then ?nxt else get_pos s ?pos)"
  have la: "xs \<noteq> [] \<Longrightarrow> last xs \<noteq> a" "xs \<noteq> [] \<Longrightarrow> last xs \<in> set (C ?pos)" using d by (auto simp: xy)
  have triv: "set_pos ?pos (get_pos s ?pos) (s\<lparr>heap := hh\<rparr>) = s\<lparr>heap := hh\<rparr>" for hh
    using slot_of_in_slots [of s "hash k"] by (auto simp: set_pos_def get_pos_def slots_def split: hpos.splits if_splits)
  have del: "assoc_delete k (hash k) s = Some (set_pos ?pos v (s\<lparr>heap := h'\<rparr>))"
  proof (cases "xs = []")
    case True
    then show ?thesis using bef gb an by (simp add: assoc_delete_def h'_def v_def bpos_def)
  next
    case False
    then show ?thesis using bef gb an la triv
      by (simp add: assoc_delete_def h'_def v_def bpos_def set_pos_def [of "In_next _"])
  qed
  have hn: "h_next \<circ> h' = ((h_next \<circ> heap s)(a := NULL))(if xs = [] then a else last xs := if xs = [] then NULL else ?nxt)"
    by (auto simp: h'_def Let_def)
  have ch': "chain (h_next \<circ> h') v (xs @ ys)"
    unfolding hn v_def using chain_unhook [OF ch] by (cases "xs = []") simp_all
  have keys: "key_of (h' b) = key_of (heap s b)" "key_wf (h' b) = key_wf (heap s b)" for b
    by (auto simp: h'_def Let_def)
  have rep: "assoc_rep hash (set_pos ?pos v (s\<lparr>heap := h'\<rparr>)) (C(?pos := xs @ ys)) \<and>
    tab_items (set_pos ?pos v (s\<lparr>heap := h'\<rparr>)) (C(?pos := xs @ ys)) = tab_items s C - set (C ?pos) \<union> set (xs @ ys)"
    using repD(3) [OF C(1) slot_of_in_slots] wf aC la
    by (intro rep_slot_update [OF C(1) slot_of_in_slots ch']) (auto simp: keys xy h'_def Let_def)
  have hp: "heap (set_pos ?pos v (s\<lparr>heap := h'\<rparr>)) = h'"
    using get_set_pos(2) [of "s\<lparr>heap := h'\<rparr>" ?pos ?pos] C(1) by (simp add: assoc_rep_def rep_on_def)
  have items: "tab_items s C - set (C ?pos) \<union> set (xs @ ys) = tab_items s C - {a}"
    using d slot_subset [of C s "hash k"] by (auto simp: xy)
  have "abs_map (set_pos ?pos v (s\<lparr>heap := h'\<rparr>)) (tab_items s C - {a}) (m(k := None))"
    by (rule abs_map_delete [OF C(2) k]) (simp add: hp keys)
  with rep items have "assoc_abs hash (set_pos ?pos v (s\<lparr>heap := h'\<rparr>)) (m(k := None))"
    by (auto simp: assoc_abs_def)
  moreover have "h' b = heap s b" if "b \<notin> ran m" for b
  proof -
    from that have "b \<notin> set (C ?pos)" using slot_subset [of C s "hash k"] abs_map_ran [OF C(2)] by blast
    then have "b \<noteq> a" "xs \<noteq> [] \<Longrightarrow> b \<noteq> last xs" using la(2) aC(1) by blast+
    then show ?thesis by (simp add: h'_def Let_def)
  qed
  moreover have "hnext_only (heap s) h'"
    by (simp add: hnext_only_def h'_def Let_def)
  moreover have "h_next (h' a) = NULL" using la by (auto simp: h'_def Let_def)
  ultimately show ?thesis using del hp by auto
qed

section \<open>Expansion\<close>

lemma slot_of_expanding:
  "expanding s \<Longrightarrow> slot_of s hv =
    (if unat (expand_bucket s) \<le> unat hv mod 2 ^ (hashpower s - 1)
     then In_old (unat hv mod 2 ^ (hashpower s - 1)) else In_primary (unat hv mod 2 ^ hashpower s))"
  "\<not> expanding s \<Longrightarrow> slot_of s hv = In_primary (unat hv mod 2 ^ hashpower s)"
  by (simp_all add: slot_of_def word_le_nat_alt Let_def)

lemma assoc_expand_abs:
  assumes abs: "assoc_abs hash s m" and ne: "\<not> expanding s" and hp: "hashpower s < 31"
  shows "assoc_abs hash (assoc_expand ok s) m"
proof -
  from abs obtain C where C: "assoc_rep hash s C" "abs_map s (tab_items s C) m"
    by (auto simp: assoc_abs_def)
  have wf: "table_wf s" using C(1) by (simp add: assoc_rep_def rep_on_def)
  show ?thesis
  proof (cases ok)
    case True
    let ?s = "assoc_expand ok s"
    define D where "D pos = (case pos of In_old i \<Rightarrow> C (In_primary i) | _ \<Rightarrow> [])" for pos
    have sl: "slot_of ?s hv = In_old (unat hv mod 2 ^ hashpower s)" for hv
      using slot_of_expanding(1) [of ?s hv] True by (simp add: assoc_expand_def Let_def)
    have sl0: "slot_of s hv = In_primary (unat hv mod 2 ^ hashpower s)" for hv
      using slot_of_expanding(2) [OF ne] .
    have slots: "slots ?s = In_primary ` {..<2 ^ Suc (hashpower s)} \<union> In_old ` {..<2 ^ hashpower s}"
      "slots s = In_primary ` {..<2 ^ hashpower s}"
      using True ne by (simp_all add: slots_def assoc_expand_def Let_def)
    have wf': "table_wf ?s"
      using wf hp True unat_hashsize [of "Suc (hashpower s)"] by (simp add: table_wf_def assoc_expand_def Let_def)
    have "assoc_rep hash ?s D"
      unfolding assoc_rep_def rep_on_def
    proof (intro conjI ballI)
      fix pos assume p: "pos \<in> slots ?s"
      have "get_pos ?s (In_old i) = get_pos s (In_primary i)" "heap ?s = heap s" for i
        using True by (simp_all add: get_pos_def assoc_expand_def Let_def)
      moreover have "get_pos ?s (In_primary i) = NULL" if "i < 2 ^ Suc (hashpower s)" for i
        using that True hp unat_hashsize [of "Suc (hashpower s)"]
        by (simp add: get_pos_def assoc_expand_def Let_def)
      ultimately show "chain (h_next \<circ> heap ?s) (get_pos ?s pos) (D pos)"
        using p repD(1) [OF C(1), of "In_primary _"] by (auto simp: slots D_def)
      fix a assume a: "a \<in> set (D pos)"
      then obtain i where i: "pos = In_old i" "a \<in> set (C (In_primary i))" by (auto simp: D_def split: hpos.splits)
      with p have "In_primary i \<in> slots s" by (auto simp: slots)
      from repD(2,3) [OF C(1) this i(2)] show "key_wf (heap ?s a)" "slot_of ?s (hash (key_of (heap ?s a))) = pos"
        unfolding sl sl0 using i True by (simp_all add: assoc_expand_def Let_def)
    qed (rule wf')
    moreover have "tab_items ?s D = tab_items s C"
      by (auto simp: tab_items_def items_on_def slots D_def)
    moreover have "heap ?s = heap s" by (simp add: assoc_expand_def Let_def)
    ultimately show ?thesis using C(2) by (auto simp: assoc_abs_def abs_map_def)
  next
    case False
    then have eq: "assoc_expand ok s = s\<lparr>old_hashtable := primary_hashtable s\<rparr>" by (simp add: assoc_expand_def Let_def)
    have sl: "slot_of (s\<lparr>old_hashtable := t\<rparr>) = slot_of s" "slots (s\<lparr>old_hashtable := t\<rparr>) = slots s" for t
      using slot_cong [of "s\<lparr>old_hashtable := t\<rparr>" s] by simp_all
    have "get_pos (s\<lparr>old_hashtable := t\<rparr>) pos = get_pos s pos" if "pos \<in> slots s" for pos t
      using that ne by (auto simp: slots_def get_pos_def)
    then have "assoc_rep hash (assoc_expand ok s) C"
      using C(1) ne by (auto simp: assoc_rep_def rep_on_def table_wf_def eq sl)
    moreover have "tab_items (assoc_expand ok s) C = tab_items s C" by (simp add: eq sl tab_items_def items_on_def)
    ultimately show ?thesis using C(2) by (auto simp: assoc_abs_def abs_map_def eq)
  qed
qed

text \<open>
  While the bucket \<^verbatim>\<open>expand_bucket\<close> is being moved, the slots other than this one already follow the
  placement that holds when it is done.
\<close>

definition slot1 :: "'a assoc_scheme \<Rightarrow> uint32 \<Rightarrow> hpos" where
  "slot1 s hv = (if unat (expand_bucket s) < unat hv mod 2 ^ (hashpower s - 1)
     then In_old (unat hv mod 2 ^ (hashpower s - 1)) else In_primary (unat hv mod 2 ^ hashpower s))"

lemma move_loop_rep:
  assumes "table_wf s" "expanding s" "S = slots s - {In_old (unat (expand_bucket s))}"
    and "rep_on S (\<lambda>k. slot1 s (hash k)) s C"
    and "chain (h_next \<circ> heap s) p as" "set as \<inter> items_on S C = {}"
    and "\<forall>a \<in> set as. key_wf (heap s a) \<and> unat (hash (key_of (heap s a))) mod 2 ^ (hashpower s - 1) = unat (expand_bucket s)"
  shows "\<exists>s' C'. move_loop hash p s = Some s' \<and> rep_on S (\<lambda>k. slot1 s (hash k)) s' C' \<and>
    items_on S C' = items_on S C \<union> set as \<and> table_wf s' \<and>
    (\<exists>h t. s' = s\<lparr>heap := h, primary_hashtable := t\<rparr> \<and> hnext_only (heap s) h \<and>
      (\<forall>b. b \<notin> set as \<longrightarrow> h b = heap s b))"
  using assms
proof (induction as arbitrary: p s C)
  case Nil
  have "s = s\<lparr>heap := heap s, primary_hashtable := primary_hashtable s\<rparr>" by simp
  moreover have "move_loop hash p s = Some s" using Nil by (subst move_loop.simps) simp
  moreover have "hnext_only (heap s) (heap s)" by simp
  ultimately show ?case using Nil.prems(1,4) by (metis set_empty Un_empty_right list.set(1))
next
  case (Cons a as)
  let ?i = "unat (hash (key_of (heap s a))) mod 2 ^ hashpower s"
  let ?pos = "In_primary ?i"
  let ?h = "(heap s)(a := (heap s a)\<lparr>h_next := primary_hashtable s ! ?i\<rparr>)"
  let ?s = "set_pos ?pos a (s\<lparr>heap := ?h\<rparr>)"
  let ?sl = "\<lambda>k. slot1 s (hash k)"
  have a: "p = a" "a \<noteq> NULL" "chain (h_next \<circ> heap s) (h_next (heap s a)) as" "a \<notin> set as"
    using Cons.prems(5) chain_distinct [OF Cons.prems(5)] by (simp_all add: o_def)
  have ps: "?pos \<in> S" using Cons.prems(3) by (simp add: slots_def)
  have na: "a \<notin> items_on S C" using Cons.prems(6) by auto
  have eq: "?s = s\<lparr>heap := ?h, primary_hashtable := (primary_hashtable s)[?i := a]\<rparr>" by (simp add: set_pos_def)
  have ch: "chain (h_next \<circ> ?h) a (a # C ?pos)"
  proof -
    have "a \<notin> set (C ?pos)" using na ps by (auto simp: items_on_def)
    moreover have "chain (h_next \<circ> heap s) (primary_hashtable s ! ?i) (C ?pos)"
      using Cons.prems(4) ps by (auto simp: rep_on_def get_pos_def)
    ultimately show ?thesis using a(2) by simp
  qed
  have r1: "rep_on S ?sl ?s (C(?pos := a # C ?pos)) \<and>
      items_on S (C(?pos := a # C ?pos)) = items_on S C - set (C ?pos) \<union> set (a # C ?pos)"
  proof (rule rep_on_update [OF Cons.prems(4) _ Cons.prems(1) ps ch])
    show "key_wf (heap s b) \<and> ?sl (key_of (heap s b)) = ?pos" if "b \<in> set (a # C ?pos)" for b
    proof (cases "b = a")
      case True
      with Cons.prems(7) show ?thesis by (simp add: slot1_def)
    next
      case False
      with that Cons.prems(4) ps show ?thesis by (simp add: rep_on_def)
    qed
  qed (use Cons.prems(3) na in \<open>auto simp: fun_upd_apply\<close>)
  have i1: "items_on S (C(?pos := a # C ?pos)) = insert a (items_on S C)"
    using r1 ps by (auto simp: items_on_def)
  have sl: "slot1 ?s = slot1 s" "slots ?s = slots s" by (simp_all add: slot1_def fun_eq_iff)
  have hs: "heap ?s = ?h" by (simp add: eq)
  have p1: "table_wf ?s" "expanding ?s" "S = slots ?s - {In_old (unat (expand_bucket ?s))}"
    using Cons.prems(1,2,3) by (simp_all add: sl)
  have p2: "rep_on S (\<lambda>k. slot1 ?s (hash k)) ?s (C(?pos := a # C ?pos))" unfolding sl using r1 ..
  have p3: "chain (h_next \<circ> heap ?s) (h_next (heap s a)) as" unfolding hs using a(3,4) by simp
  have p4: "set as \<inter> items_on S (C(?pos := a # C ?pos)) = {}" unfolding i1 using Cons.prems(6) a(4) by auto
  have p5: "\<forall>b \<in> set as. key_wf (heap ?s b) \<and>
      unat (hash (key_of (heap ?s b))) mod 2 ^ (hashpower ?s - 1) = unat (expand_bucket ?s)"
    unfolding hs using Cons.prems(7) a(4) by (simp add: fun_upd_apply)
  note Cons.IH [OF p1 p2 p3 p4 p5, unfolded sl]
  then obtain s' C' h t where s': "move_loop hash (h_next (heap s a)) ?s = Some s'" "rep_on S ?sl s' C'"
      "items_on S C' = insert a (items_on S C) \<union> set as" "table_wf s'"
      "s' = ?s\<lparr>heap := h, primary_hashtable := t\<rparr>" "hnext_only ?h h"
      "\<forall>b. b \<notin> set as \<longrightarrow> h b = ?h b"
    unfolding i1 hs by blast
  have "move_loop hash p s = Some s'"
    using s'(1) a(1,2) by (subst move_loop.simps) (simp add: Let_def key_of_def set_pos_def)
  moreover have "s' = s\<lparr>heap := h, primary_hashtable := t\<rparr>" using s'(5) by (simp add: eq)
  moreover have "hnext_only (heap s) h"
    by (rule hnext_only_trans [OF _ s'(6)]) (simp add: hnext_only_def)
  moreover have "\<forall>b. b \<notin> set (a # as) \<longrightarrow> h b = heap s b" using s'(7) by simp
  moreover have "items_on S C' = items_on S C \<union> set (a # as)" using s'(3) by auto
  ultimately show ?case using s'(2,4) by blast
qed

lemma slot1_next:
  assumes "expanding s" "unat (expand_bucket s) < 2 ^ (hashpower s - 1)" "hashpower s < 32"
  shows "unat (expand_bucket s + 1) = unat (expand_bucket s) + 1"
    and "expand_bucket s + 1 = hashsize (hashpower s - 1) \<longleftrightarrow> unat (expand_bucket s) + 1 = 2 ^ (hashpower s - 1)"
proof -
  have "(2 :: nat) ^ (hashpower s - 1) \<le> 2 ^ 31" using assms(3) by (intro power_increasing) auto
  with assms(2) show u: "unat (expand_bucket s + 1) = unat (expand_bucket s) + 1"
    by (subst unat_plus_small) auto
  show "expand_bucket s + 1 = hashsize (hashpower s - 1) \<longleftrightarrow> unat (expand_bucket s) + 1 = 2 ^ (hashpower s - 1)"
    using assms(3) by (simp only: word_unat_eq_iff u unat_hashsize)
qed

lemma move_bucket_abs:
  assumes abs: "assoc_abs hash s m" and ex: "expanding s"
  shows "\<exists>s'. move_bucket hash lk s = Some s' \<and> assoc_abs hash s' m \<and> hnext_only (heap s) (heap s') \<and>
    hashpower s' = hashpower s \<and>
    (lk \<longrightarrow> expanding s' \<longrightarrow> unat (expand_bucket s') = unat (expand_bucket s) + 1)"
proof (cases lk)
  case True
  from abs obtain C where C: "assoc_rep hash s C" "abs_map s (tab_items s C) m"
    by (auto simp: assoc_abs_def)
  let ?eb = "unat (expand_bucket s)" and ?hp = "hashpower s"
  let ?old = "In_old ?eb" and ?sl = "\<lambda>k. slot1 s (hash k)"
  have wf: "table_wf s" using C(1) by (simp add: assoc_rep_def)
  then have eb: "?eb < 2 ^ (?hp - 1)" "?hp < 32" "0 < ?hp" "length (old_hashtable s) = 2 ^ (?hp - 1)"
    using ex by (auto simp: table_wf_def)
  have os: "?old \<in> slots s" using eb(1) ex by (simp add: slots_def)
  define S where "S = slots s - {?old}"
  have s1: "slot1 s hv = slot_of s hv" if "slot_of s hv \<noteq> ?old" for hv
    using that by (auto simp: slot1_def slot_of_expanding(1) [OF ex] split: if_splits)
  have r0: "rep_on S ?sl s C"
    unfolding rep_on_def S_def using repD [OF C(1)] s1 by auto
  have pend: "\<forall>a \<in> set (C ?old). key_wf (heap s a) \<and> unat (hash (key_of (heap s a))) mod 2 ^ (?hp - 1) = ?eb"
  proof (intro ballI conjI)
    fix a assume a: "a \<in> set (C ?old)"
    show "key_wf (heap s a)" by (rule repD(2) [OF C(1) os a])
    from repD(3) [OF C(1) os a] show "unat (hash (key_of (heap s a))) mod 2 ^ (?hp - 1) = ?eb"
      by (auto simp: slot_of_expanding(1) [OF ex] split: if_splits)
  qed
  have dis: "set (C ?old) \<inter> items_on S C = {}"
    using slots_disjoint [OF C(1) os] by (fastforce simp: items_on_def S_def)
  have ch: "chain (h_next \<circ> heap s) (old_hashtable s ! ?eb) (C ?old)"
    using repD(1) [OF C(1) os] by (simp add: get_pos_def)
  obtain s1 C1 h t where m1: "move_loop hash (old_hashtable s ! ?eb) s = Some s1" "rep_on S ?sl s1 C1"
      "items_on S C1 = items_on S C \<union> set (C ?old)" "table_wf s1"
      "s1 = s\<lparr>heap := h, primary_hashtable := t\<rparr>" "hnext_only (heap s) h"
    using move_loop_rep [OF wf ex S_def r0 ch dis pend] by blast
  have items: "items_on S C1 = tab_items s C" using m1(3) os by (auto simp: items_on_def tab_items_def S_def)
  have keys: "key_of (h a) = key_of (heap s a)" for a
    by (simp add: key_of_def hnext_only_fields [OF m1(6)])
  define s2 where "s2 = s1\<lparr>old_hashtable := (old_hashtable s1)[?eb := NULL], expand_bucket := expand_bucket s1 + 1\<rparr>"
  have gp: "get_pos s2 pos = get_pos s1 pos" if "pos \<in> S" for pos
    using that by (auto simp: S_def s2_def get_pos_def slots_def nth_update_if split: hpos.splits if_splits)
  define C2 where "C2 = C1(?old := [])"
  have r2: "chain (h_next \<circ> heap s2) (get_pos s2 pos) (C2 pos) \<and>
      (\<forall>a \<in> set (C2 pos). key_wf (heap s2 a) \<and> ?sl (key_of (heap s2 a)) = pos)" if "pos \<in> slots s" for pos
  proof (cases "pos = ?old")
    case True
    then show ?thesis using eb m1(5) by (simp add: C2_def s2_def get_pos_def)
  next
    case False
    with that have "pos \<in> S" by (simp add: S_def)
    with m1(2) gp False show ?thesis by (auto simp: rep_on_def C2_def s2_def)
  qed
  have it2: "items_on (slots s) C2 = tab_items s C"
    unfolding items [symmetric] using os by (auto simp: items_on_def C2_def S_def split: if_splits)
  have f2: "expand_bucket s2 = expand_bucket s + 1" "hashpower s2 = ?hp" "expanding s2" "heap s2 = h"
    "length (primary_hashtable s2) = 2 ^ ?hp" "length (old_hashtable s2) = 2 ^ (?hp - 1)"
    using m1(4,5) ex eb(4) by (auto simp: s2_def table_wf_def)
  note nxt = slot1_next [OF ex eb(1,2)]
  show ?thesis
  proof (cases "?eb + 1 = 2 ^ (?hp - 1)")
    case True
    define s3 where "s3 = s2\<lparr>expanding := False, old_hashtable := [],
      hash_bytes := hash_bytes s2 - ucast (hashsize (hashpower s2 - 1)) * 8, hash_is_expanding := False\<rparr>"
    have mb: "move_bucket hash lk s = Some s3"
      using \<open>lk\<close> m1(1) nxt(2) True f2 by (simp add: move_bucket_def Let_def s3_def flip: s2_def)
    have lt: "unat hv mod 2 ^ (?hp - 1) < ?eb + 1" for hv :: uint32 unfolding True by simp
    have sl3: "slot_of s3 hv = slot1 s hv" for hv
      using slot_of_expanding(2) [of s3 hv] lt [of hv] f2(2) by (simp add: s3_def slot1_def)
    have sl: "slots s3 \<subseteq> slots s" "slots s3 = In_primary ` {..<2 ^ ?hp}"
      using f2(2) by (auto simp: slots_def s3_def)
    have g3: "get_pos s3 pos = get_pos s2 pos" if "pos \<in> slots s3" for pos
      using that unfolding sl(2) by (auto simp: get_pos_def s3_def)
    have rep: "assoc_rep hash s3 C2"
      using r2 sl g3 f2 eb(2) sl3 by (auto simp: assoc_rep_def rep_on_def table_wf_def s3_def)
    have "C2 pos = []" if "pos \<in> slots s - slots s3" for pos
    proof -
      have "pos \<notin> In_primary ` UNIV" using that unfolding sl(2) by (auto simp: slots_def split: if_splits)
      moreover have "slot1 s hv \<in> In_primary ` UNIV" for hv using lt [of hv] by (simp add: slot1_def)
      ultimately have "a \<notin> set (C2 pos)" for a using r2 [of pos] that by (metis DiffD1)
      then show ?thesis by (cases "C2 pos") auto
    qed
    then have "tab_items s3 C2 = tab_items s C"
      unfolding it2 [symmetric] unfolding tab_items_def by (rule items_on_mono_neutral [OF sl(1)])
    with rep C(2) have "assoc_abs hash s3 m"
      unfolding assoc_abs_def abs_map_def using keys f2(4) by (auto simp: s3_def)
    with mb m1(6) f2 show ?thesis by (simp add: s3_def)
  next
    case False
    have mb: "move_bucket hash lk s = Some s2"
      using \<open>lk\<close> m1(1) nxt(2) False f2 by (simp add: move_bucket_def Let_def flip: s2_def)
    have sl2: "slot_of s2 hv = slot1 s hv" for hv
      using slot_of_expanding(1) [of s2 hv] f2 nxt(1) by (simp add: slot1_def Suc_le_eq)
    have sl: "slots s2 = slots s" using f2 ex by (simp add: slots_def)
    have rep: "assoc_rep hash s2 C2"
      using r2 sl f2 eb nxt(1) False sl2 by (auto simp: assoc_rep_def rep_on_def table_wf_def)
    moreover have "tab_items s2 C2 = tab_items s C" using it2 sl by (simp add: tab_items_def)
    ultimately have "assoc_abs hash s2 m"
      using C(2) unfolding assoc_abs_def abs_map_def using keys f2(4) by auto
    with mb m1(6) f2 nxt(1) show ?thesis by simp
  qed
qed (use abs in \<open>simp add: move_bucket_def\<close>)

text \<open>Each bucket moved brings the expansion one step nearer to its end.\<close>

definition to_move :: "'a assoc_scheme \<Rightarrow> nat" where
  "to_move s = (if expanding s then 2 ^ (hashpower s - 1) - unat (expand_bucket s) else 0)"

lemma move_bucket_progress:
  assumes "assoc_abs hash s m" "expanding s" "move_bucket hash True s = Some s'"
  shows "to_move s' < to_move s"
proof -
  have "unat (expand_bucket s) < 2 ^ (hashpower s - 1)"
    using assms(1,2) by (auto simp: assoc_abs_def assoc_rep_def table_wf_def)
  moreover have "hashpower s' = hashpower s" "expanding s' \<Longrightarrow> unat (expand_bucket s') = unat (expand_bucket s) + 1"
    using move_bucket_abs [OF assms(1,2), of True] assms(3) by auto
  ultimately show ?thesis using assms(2) by (simp add: to_move_def diff_less_mono2)
qed

lemma bulk_move_abs:
  assumes "assoc_abs hash s m"
  shows "\<exists>s'. bulk_move hash lks s = Some s' \<and> assoc_abs hash s' m \<and> hnext_only (heap s) (heap s') \<and>
    hashpower s' = hashpower s \<and> (length (filter (\<lambda>b. b) lks) \<ge> to_move s \<longrightarrow> \<not> expanding s')"
  using assms
proof (induction lks arbitrary: s)
  case Nil
  moreover from Nil have "0 < to_move s" if "expanding s"
    using that by (auto simp: to_move_def assoc_abs_def assoc_rep_def table_wf_def)
  ultimately show ?case by auto
next
  case (Cons lk lks)
  show ?case
  proof (cases "expanding s")
    case True
    obtain s1 where s1: "move_bucket hash lk s = Some s1" "assoc_abs hash s1 m" "hnext_only (heap s) (heap s1)"
        "hashpower s1 = hashpower s"
      using move_bucket_abs [OF Cons.prems True] by blast
    have "to_move s1 < to_move s" if lk using move_bucket_progress [OF Cons.prems True] s1(1) that by simp
    moreover have "s1 = s" if "\<not> lk" using s1(1) that by (simp add: move_bucket_def)
    ultimately have "to_move s1 \<le> length (filter (\<lambda>b. b) lks)" if "to_move s \<le> length (filter (\<lambda>b. b) (lk # lks))"
      using that by (cases lk) auto
    moreover obtain s2 where "bulk_move hash lks s1 = Some s2" "assoc_abs hash s2 m" "hnext_only (heap s1) (heap s2)"
        "hashpower s2 = hashpower s1" "to_move s1 \<le> length (filter (\<lambda>b. b) lks) \<longrightarrow> \<not> expanding s2"
      using Cons.IH [OF s1(2)] by blast
    ultimately show ?thesis using s1 True hnext_only_trans [OF s1(3)] by simp
  qed (use Cons.prems in auto)
qed

lemma maintenance_round_abs:
  assumes "assoc_abs hash s m" "hashpower s < 31"
  shows "\<exists>s'. maintenance_round hash lks go ok s = Some s' \<and> assoc_abs hash s' m"
proof -
  obtain s1 where s1: "bulk_move hash lks s = Some s1" "assoc_abs hash s1 m" "hashpower s1 = hashpower s"
    using bulk_move_abs [OF assms(1)] by blast
  with assoc_expand_abs [OF s1(2)] assms(2) show ?thesis by (simp add: maintenance_round_def)
qed

text \<open>Writes elsewhere in the heap do not disturb the table.\<close>

lemma assoc_abs_frame:
  assumes "assoc_abs hash s m"
    and "hashpower s' = hashpower s" "primary_hashtable s' = primary_hashtable s" "old_hashtable s' = old_hashtable s"
      "expanding s' = expanding s" "expand_bucket s' = expand_bucket s"
    and "\<And>a. a \<in> ran m \<Longrightarrow> h_next (heap s' a) = h_next (heap s a) \<and> nkey (heap s' a) = nkey (heap s a) \<and>
      ikey (heap s' a) = ikey (heap s a)"
  shows "assoc_abs hash s' m"
proof -
  from assms(1) obtain C where C: "assoc_rep hash s C" "abs_map s (tab_items s C) m"
    by (auto simp: assoc_abs_def)
  have sl: "slot_of s' = slot_of s" "slots s' = slots s" using slot_cong [of s' s] assms by auto
  have k: "key_of (heap s' a) = key_of (heap s a)" "key_wf (heap s' a) = key_wf (heap s a)" if "a \<in> tab_items s C" for a
    using assms(7) [of a] that abs_map_ran [OF C(2)] by (simp_all add: key_of_def key_wf_def)
  have g: "get_pos s' pos = get_pos s pos" if "pos \<in> slots s" for pos
    using that assms by (auto simp: get_pos_def slots_def split: if_splits)
  have ch: "chain (h_next \<circ> heap s') (get_pos s pos) (C pos)" if "pos \<in> slots s" for pos
  proof -
    have "seg (h_next \<circ> heap s') (get_pos s pos) (C pos) NULL = seg (h_next \<circ> heap s) (get_pos s pos) (C pos) NULL"
      using that assms(7) abs_map_ran [OF C(2)] by (intro seg_cong) (auto simp: tab_items_def items_on_def)
    with repD(1) [OF C(1) that] show ?thesis by simp
  qed
  have "pos \<in> slots s \<Longrightarrow> a \<in> set (C pos) \<Longrightarrow> a \<in> tab_items s C" for pos a
    by (auto simp: tab_items_def items_on_def)
  then have "assoc_rep hash s' C"
    using C(1) g ch k assms(2-6) by (auto simp: assoc_rep_def rep_on_def table_wf_def sl)
  moreover have "tab_items s' C = tab_items s C" by (simp add: tab_items_def sl)
  moreover have "abs_map s' (tab_items s C) m" using C(2) k by (auto simp: abs_map_def)
  ultimately show ?thesis by (auto simp: assoc_abs_def)
qed

lemma assoc_init_abs:
  assumes "assoc_init True n s = Some s'" "hashpower s' < 32" "\<not> expanding s"
  shows "assoc_abs hash s' Map.empty"
proof -
  have ne: "\<not> expanding s'" and tab: "primary_hashtable s' = replicate (2 ^ hashpower s') NULL"
    using assms by (auto simp: assoc_init_def Let_def unat_hashsize split: if_splits)
  have "assoc_rep hash s' (\<lambda>_. [])"
    using ne tab assms(2) by (auto simp: assoc_rep_def rep_on_def table_wf_def slots_def get_pos_def)
  then show ?thesis by (auto simp: assoc_abs_def abs_map_def tab_items_def items_on_def)
qed

section \<open>Iteration\<close>

text \<open>The loop of a client over the iterator: the items it is given, until the iterator says that it is done.\<close>

partial_function (option) iterate_all :: "'a assoc_scheme \<Rightarrow> assoc_iterator \<Rightarrow> addr list \<Rightarrow> addr list option" where
  "iterate_all s iter acc =
    (case assoc_iterate iter s of (go, it, iter') \<Rightarrow>
       if go then iterate_all s iter' (if it \<noteq> NULL then acc @ [it] else acc) else Some acc)"

lemma iterate_locked:
  assumes "bucket_locked iter" "chain (h_next \<circ> heap s) (iter_next iter) as"
    and next_bucket: "\<And>iter' acc. \<lbrakk>\<not> bucket_locked iter'; bucket iter' = bucket iter + 1\<rbrakk> \<Longrightarrow>
      iterate_all s iter' acc = Some (acc @ rest)"
  shows "iterate_all s iter acc = Some (acc @ as @ rest)"
  using assms
proof (induction as arbitrary: iter acc)
  case Nil
  then show ?case by (subst iterate_all.simps) (simp add: assoc_iterate_def)
next
  case (Cons a as)
  let ?iter = "iter\<lparr>iter_it := a, iter_next := h_next (heap s a)\<rparr>"
  have "iterate_all s ?iter (acc @ [a]) = Some ((acc @ [a]) @ as @ rest)"
    using Cons.prems by (intro Cons.IH) auto
  then show ?case using Cons.prems(1,2) by (subst iterate_all.simps) (simp add: assoc_iterate_def)
qed

lemma iterate_all_from:
  assumes rep: "assoc_rep hash s C" and ne: "\<not> expanding s"
    and b: "b \<le> 2 ^ hashpower s" "bucket iter = of_nat b" "\<not> bucket_locked iter"
  shows "iterate_all s iter acc = Some (acc @ concat (map (\<lambda>i. C (In_primary i)) [b..<2 ^ hashpower s]))"
  using b
proof (induction "2 ^ hashpower s - b" arbitrary: b iter acc)
  case 0
  have hp: "hashpower s < 32" using rep by (simp add: assoc_rep_def table_wf_def)
  from 0 have "b = 2 ^ hashpower s" by simp
  with 0 have "bucket iter = hashsize (hashpower s)" by (simp add: hashsize_def push_bit_eq_mult)
  with 0 \<open>b = _\<close> show ?case by (subst iterate_all.simps) (simp add: assoc_iterate_def)
next
  case (Suc n)
  have hp: "hashpower s < 32" using rep by (simp add: assoc_rep_def table_wf_def)
  have b: "b < 2 ^ hashpower s" using Suc.hyps(2) by simp
  have "(2 :: nat) ^ hashpower s < 2 ^ 32" using hp by (intro power_strict_increasing) auto
  with b have ub: "unat (of_nat b :: uint32) = b" by (simp add: unat_of_nat)
  then have nb: "bucket iter \<noteq> hashsize (hashpower s)" "unat (bucket iter) = b"
    using Suc.prems(2) b unat_hashsize [OF hp] by auto
  have IH: "iterate_all s iter' acc = Some (acc @ concat (map (\<lambda>i. C (In_primary i)) [Suc b..<2 ^ hashpower s]))"
    if "\<not> bucket_locked iter'" "bucket iter' = bucket iter + 1" for iter' acc
    using that Suc.hyps(2) b Suc.prems(2) by (intro Suc.hyps(1)) (auto simp: add.commute)
  have sl: "In_primary b \<in> slots s" using b by (simp add: slots_def)
  have ch: "chain (h_next \<circ> heap s) (primary_hashtable s ! b) (C (In_primary b))"
    using repD(1) [OF rep sl] by (simp add: get_pos_def)
  have up: "[b..<2 ^ hashpower s] = b # [Suc b..<2 ^ hashpower s]" using b by (simp add: upt_conv_Cons)
  show ?case
  proof (cases "primary_hashtable s ! b = NULL")
    case True
    with ch have "C (In_primary b) = []" by simp
    then show ?thesis using True nb Suc.prems(3) IH
      by (subst iterate_all.simps) (simp add: assoc_iterate_def up Let_def)
  next
    case False
    let ?p = "primary_hashtable s ! b"
    obtain as where as: "C (In_primary b) = ?p # as" "chain (h_next \<circ> heap s) (h_next (heap s ?p)) as"
      using chain_head [OF ch False] by auto
    let ?iter = "iter\<lparr>bucket_locked := True, iter_it := ?p, iter_next := h_next (heap s ?p)\<rparr>"
    have "iterate_all s ?iter (acc @ [?p]) =
        Some ((acc @ [?p]) @ as @ concat (map (\<lambda>i. C (In_primary i)) [Suc b..<2 ^ hashpower s]))"
      using as(2) IH by (intro iterate_locked) auto
    then show ?thesis using False nb Suc.prems(3) as(1)
      by (subst iterate_all.simps) (simp add: assoc_iterate_def up Let_def)
  qed
qed

lemma distinct_concat_slots:
  assumes "assoc_rep hash s C"
  shows "distinct (concat (map (\<lambda>i. C (In_primary i)) [0..<2 ^ hashpower s]))"
proof -
  have d: "distinct (C (In_primary i))" if "i < 2 ^ hashpower s" for i
    using repD(1) [OF assms, of "In_primary i"] that chain_distinct by (auto simp: slots_def)
  have inj: "i = j" if "i < 2 ^ hashpower s" "j < 2 ^ hashpower s" "a \<in> set (C (In_primary i))" "a \<in> set (C (In_primary j))" for i j a
    using slots_disjoint [OF assms, of "In_primary i" "In_primary j" a] that by (auto simp: slots_def)
  have "distinct (concat (map (\<lambda>i. C (In_primary i)) [0..<n]))" if "n \<le> 2 ^ hashpower s" for n
    using that
  proof (induction n)
    case (Suc n)
    have "a \<notin> set (C (In_primary i))" if "a \<in> set (C (In_primary n))" "i < n" for a i
      using inj [of n i a] that Suc.prems by auto
    then have "set (concat (map (\<lambda>i. C (In_primary i)) [0..<n])) \<inter> set (C (In_primary n)) = {}"
      by (auto simp: set_concat)
    with Suc d [of n] show ?case by simp
  qed simp
  then show ?thesis by simp
qed

section \<open>The interface: an index of items by key\<close>

text \<open>
  What the item store relies on. \<open>usable s a\<close> says that \<open>a\<close> is an item that could be indexed.
\<close>

locale item_index =
  fixes rep :: "'s \<Rightarrow> (bytes \<rightharpoonup> addr) \<Rightarrow> bool"
    and key :: "'s \<Rightarrow> addr \<Rightarrow> bytes"
    and usable :: "'s \<Rightarrow> addr \<Rightarrow> bool"
    and find :: "bytes \<Rightarrow> 's \<Rightarrow> addr option"
    and ins :: "addr \<Rightarrow> 's \<Rightarrow> 's"
    and del :: "bytes \<Rightarrow> 's \<Rightarrow> 's option"
  assumes find_law: "rep s m \<Longrightarrow> find k s = Some (case m k of None \<Rightarrow> NULL | Some a \<Rightarrow> a)"
    and member_not_NULL: "rep s m \<Longrightarrow> m k = Some a \<Longrightarrow> a \<noteq> NULL"
    and ins_law: "\<lbrakk>rep s m; usable s a; a \<notin> ran m; m (key s a) = None\<rbrakk> \<Longrightarrow>
      rep (ins a s) (m(key s a \<mapsto> a)) \<and> key (ins a s) = key s \<and> usable (ins a s) = usable s"
    and del_law: "\<lbrakk>rep s m; m k = Some a\<rbrakk> \<Longrightarrow>
      \<exists>s'. del k s = Some s' \<and> rep s' (m(k := None)) \<and> key s' = key s \<and> usable s' = usable s"
begin

lemma find_hit_iff: "rep s m \<Longrightarrow> a \<noteq> NULL \<Longrightarrow> find k s = Some a \<longleftrightarrow> m k = Some a"
  using member_not_NULL by (auto simp: find_law split: option.splits)

lemma find_after_ins:
  assumes "rep s m" "usable s a" "a \<notin> ran m" "m (key s a) = None"
  shows "find k (ins a s) = (if k = key s a then Some a else find k s)"
  using ins_law [OF assms] find_law [OF assms(1), of k] find_law [of "ins a s" _ k] by auto

lemma replace_law:
  assumes "rep s m" "m k = Some old" "usable s new" "new \<notin> ran m" "key s new = k"
  shows "\<exists>s1. del k s = Some s1 \<and> rep (ins new s1) (m(k \<mapsto> new)) \<and> find k (ins new s1) = Some new"
proof -
  obtain s1 where s1: "del k s = Some s1" "rep s1 (m(k := None))" "key s1 = key s" "usable s1 = usable s"
    using del_law [OF assms(1,2)] by blast
  have "new \<notin> ran (m(k := None))" using assms(4) by (auto simp: ran_def)
  with ins_law [OF s1(2), of new] s1 assms have "rep (ins new s1) (m(k \<mapsto> new))" by simp
  with s1 find_law show ?thesis by (auto split: option.splits)
qed

end

interpretation idx: item_index "assoc_abs hash" "\<lambda>s a. key_of (heap s a)"
  "\<lambda>s a. a \<noteq> NULL \<and> key_wf (heap s a)" "\<lambda>k s. assoc_find k (hash k) s"
  "\<lambda>a s. assoc_insert a (hash (key_of (heap s a))) s" "\<lambda>k s. assoc_delete k (hash k) s"
  for hash :: "bytes \<Rightarrow> uint32"
proof
  fix s :: "'a assoc_scheme" and m k
  assume rep: "assoc_abs hash s m"
  show "assoc_find k (hash k) s = Some (case m k of None \<Rightarrow> NULL | Some a \<Rightarrow> a)"
    by (rule assoc_find_abs [OF rep])
  show "a \<noteq> NULL" if "m k = Some a" for a
    using rep that tab_items_not_NULL by (fastforce simp: assoc_abs_def abs_map_def)
  show "\<exists>s'. assoc_delete k (hash k) s = Some s' \<and> assoc_abs hash s' (m(k := None)) \<and>
      (\<lambda>a. key_of (heap s' a)) = (\<lambda>a. key_of (heap s a)) \<and>
      (\<lambda>a. a \<noteq> NULL \<and> key_wf (heap s' a)) = (\<lambda>a. a \<noteq> NULL \<and> key_wf (heap s a))" if "m k = Some a" for a
    using assoc_delete_abs [OF rep that] by (auto simp: key_of_def key_wf_def hnext_only_fields)
next
  fix s :: "'a assoc_scheme" and m a
  assume a: "assoc_abs hash s m" "a \<noteq> NULL \<and> key_wf (heap s a)" "a \<notin> ran m" "m (key_of (heap s a)) = None"
  have hp: "heap (set_pos (slot_of s hv) v s') = heap s'" for hv v and s' :: "'a assoc_scheme"
    by (cases "slot_of s hv") (auto simp: set_pos_def slot_of_def Let_def split: if_splits)
  have "key_of (heap (assoc_insert a (hash (key_of (heap s a))) s) b) = key_of (heap s b) \<and>
      key_wf (heap (assoc_insert a (hash (key_of (heap s a))) s) b) = key_wf (heap s b)" for b
    by (simp add: assoc_insert_def Let_def hp)
  with assoc_insert_abs [of hash s m a] a
  show "assoc_abs hash (assoc_insert a (hash (key_of (heap s a))) s) (m(key_of (heap s a) \<mapsto> a)) \<and>
      (\<lambda>b. key_of (heap (assoc_insert a (hash (key_of (heap s a))) s) b)) = (\<lambda>b. key_of (heap s b)) \<and>
      (\<lambda>b. b \<noteq> NULL \<and> key_wf (heap (assoc_insert a (hash (key_of (heap s a))) s) b)) = (\<lambda>b. b \<noteq> NULL \<and> key_wf (heap s b))"
    by simp
qed

section \<open>Reachable tables\<close>

text \<open>
  All states of the table, with the map it stands for: insertions of unindexed items under unused
  keys, deletions of present keys, rounds of the maintenance thread under any outcome of its
  locks and allocations, and writes of the rest of the server that leave the keys and chain
  links of indexed items alone. The size stays below the power at which \<^verbatim>\<open>hashsize\<close> overflows.
\<close>

inductive assoc_run :: "(bytes \<Rightarrow> uint32) \<Rightarrow> assoc \<Rightarrow> (bytes \<rightharpoonup> addr) \<Rightarrow> bool" for hash where
  init: "\<lbrakk>assoc_init True n s0 = Some s; hashpower s < 32; \<not> expanding s0\<rbrakk> \<Longrightarrow> assoc_run hash s Map.empty"
| insert: "\<lbrakk>assoc_run hash s m; a \<noteq> NULL; key_wf (heap s a); a \<notin> ran m; m (key_of (heap s a)) = None\<rbrakk> \<Longrightarrow>
    assoc_run hash (assoc_insert a (hash (key_of (heap s a))) s) (m(key_of (heap s a) \<mapsto> a))"
| delete: "\<lbrakk>assoc_run hash s m; k \<in> dom m; assoc_delete k (hash k) s = Some s'\<rbrakk> \<Longrightarrow>
    assoc_run hash s' (m(k := None))"
| maintain: "\<lbrakk>assoc_run hash s m; hashpower s < 31; maintenance_round hash lks go ok s = Some s'\<rbrakk> \<Longrightarrow>
    assoc_run hash s' m"
| write_item: "\<lbrakk>assoc_run hash s m; \<forall>a \<in> ran m. h_next (h a) = h_next (heap s a) \<and> nkey (h a) = nkey (heap s a) \<and>
      ikey (h a) = ikey (heap s a)\<rbrakk> \<Longrightarrow> assoc_run hash (s\<lparr>heap := h\<rparr>) m"

lemma assoc_run_abs: "assoc_run hash s m \<Longrightarrow> assoc_abs hash s m"
proof (induction rule: assoc_run.induct)
  case (init n s0 s)
  then show ?case by (rule assoc_init_abs)
next
  case (insert s m a)
  then show ?case by (intro assoc_insert_abs)
next
  case (delete s m k s')
  then obtain a where "m k = Some a" by auto
  from idx.del_law [OF delete.IH this] delete.hyps(3) show ?case by (metis option.inject)
next
  case (maintain s m lks go ok s')
  from maintenance_round_abs [OF maintain.IH maintain.hyps(2), of lks go ok] maintain.hyps(3)
  show ?case by auto
next
  case (write_item s m h)
  then show ?case by (intro assoc_abs_frame [OF write_item.IH]) auto
qed

text \<open>
  C1. The hash table is a map from keys to items in every reachable state, also in the middle of
  an expansion: a lookup walks a finite chain and returns exactly the item indexed under the
  key or NULL; deletion of a present key and every round of the maintenance thread return.
\<close>

theorem assoc_refines_map:
  assumes "assoc_run hash s m"
  shows "assoc_find k (hash k) s = Some (case m k of None \<Rightarrow> NULL | Some a \<Rightarrow> a) \<and>
    (k \<in> dom m \<longrightarrow> (\<exists>s'. assoc_delete k (hash k) s = Some s' \<and> assoc_find k (hash k) s' = Some NULL)) \<and>
    (hashpower s < 31 \<longrightarrow> (\<exists>s'. maintenance_round hash lks go ok s = Some s' \<and>
      (\<forall>k'. assoc_find k' (hash k') s' = assoc_find k' (hash k') s)))"
proof -
  note abs = assoc_run_abs [OF assms]
  have "\<exists>s'. assoc_delete k (hash k) s = Some s' \<and> assoc_find k (hash k) s' = Some NULL" if "k \<in> dom m"
    using that idx.del_law [OF abs, of k] idx.find_law by fastforce
  moreover have "\<exists>s'. maintenance_round hash lks go ok s = Some s' \<and>
      (\<forall>k'. assoc_find k' (hash k') s' = assoc_find k' (hash k') s)" if "hashpower s < 31"
    using maintenance_round_abs [OF abs that] assoc_find_abs abs by metis
  ultimately show ?thesis using idx.find_law [OF abs] by blast
qed

text \<open>A table with one item, for the examples.\<close>

definition demo_hash :: "bytes \<Rightarrow> uint32" where "demo_hash k = (if k = [65] then 5 else 2)"

definition demo_table :: assoc where
  "demo_table = \<lparr>heap = (\<lambda>a. item0\<lparr>nkey := 1, ikey := [of_nat a]\<rparr>), hashpower = 1,
     primary_hashtable = [NULL, 65], old_hashtable = [], expanding = False, expand_bucket = 0,
     hash_power_level = 1, hash_bytes = 16, hash_is_expanding = False\<rparr>"

lemma demo_table_run: "assoc_run demo_hash demo_table [[65] \<mapsto> 65]"
proof -
  let ?s0 = "demo_table\<lparr>primary_hashtable := [NULL, NULL]\<rparr>"
  have "replicate 2 NULL = [NULL, NULL]" by (simp add: numeral_2_eq_2)
  then have "assoc_init True 1 ?s0 = Some ?s0"
    by (simp add: assoc_init_def demo_table_def hashsize_def)
  then have r: "assoc_run demo_hash ?s0 Map.empty"
    by (rule assoc_run.init) (simp_all add: demo_table_def)
  have kw: "key_wf (heap ?s0 65)" "key_of (heap ?s0 65) = [65]"
    by (simp_all add: key_wf_def key_of_def demo_table_def)
  have "assoc_insert 65 (demo_hash [65]) ?s0 = demo_table"
    by (simp add: assoc_insert_def slot_of_def get_pos_def set_pos_def demo_hash_def demo_table_def hashmask_def
        hashsize_def Let_def fun_eq_iff item0_def)
  with assoc_run.insert [OF r, of 65] kw show ?thesis by simp
qed

theorem assoc_refines_map_witness:
  "assoc_find [65] (demo_hash [65]) demo_table = Some 65 \<and> assoc_find [66] (demo_hash [66]) demo_table = Some NULL \<and>
   (\<exists>s'. assoc_delete [65] (demo_hash [65]) demo_table = Some s' \<and> assoc_find [65] (demo_hash [65]) s' = Some NULL) \<and>
   (\<exists>s'. maintenance_round demo_hash [] True True demo_table = Some s' \<and>
      (\<forall>k'. assoc_find k' (demo_hash k') s' = assoc_find k' (demo_hash k') demo_table))"
  using assoc_refines_map [OF demo_table_run, of "[65]" "[]" True True] assoc_refines_map [OF demo_table_run, of "[66]"]
  by (simp add: demo_table_def)

text \<open>
  C2. An expansion ends: once the maintenance thread got as many item locks as there were
  buckets left to move, the old table is gone, the power is unchanged, and no lookup has
  changed its result.
\<close>

theorem assoc_expansion_completes:
  assumes "assoc_run hash s m" and "to_move s \<le> length (filter (\<lambda>b. b) lks)"
  shows "\<exists>s'. bulk_move hash lks s = Some s' \<and> \<not> expanding s' \<and> hashpower s' = hashpower s \<and>
    (\<forall>k. assoc_find k (hash k) s' = assoc_find k (hash k) s)"
proof -
  note abs = assoc_run_abs [OF assms(1)]
  obtain s' where "bulk_move hash lks s = Some s'" "assoc_abs hash s' m" "hashpower s' = hashpower s" "\<not> expanding s'"
    using bulk_move_abs [OF abs, of lks] assms(2) by blast
  with idx.find_law [OF abs] idx.find_law show ?thesis by metis
qed

theorem assoc_expansion_completes_witness:
  "\<exists>s'. bulk_move demo_hash [True, False, True] (assoc_expand True demo_table) = Some s' \<and> \<not> expanding s' \<and>
     hashpower s' = 2 \<and> assoc_find [65] (demo_hash [65]) s' = Some 65"
proof -
  have e: "maintenance_round demo_hash [] True True demo_table = Some (assoc_expand True demo_table)"
    by (simp add: maintenance_round_def demo_table_def)
  have r: "assoc_run demo_hash (assoc_expand True demo_table) [[65] \<mapsto> 65]"
    by (rule assoc_run.maintain [OF demo_table_run _ e]) (simp add: demo_table_def)
  have f: "assoc_find [65] (demo_hash [65]) (assoc_expand True demo_table) = Some 65"
    using idx.find_law [OF assoc_run_abs [OF r], of "[65]"] by simp
  have "to_move (assoc_expand True demo_table) \<le> length (filter (\<lambda>b. b) [True, False, True])"
    by (simp add: to_move_def assoc_expand_def demo_table_def Let_def)
  from assoc_expansion_completes [OF r this] obtain s' where
    "bulk_move demo_hash [True, False, True] (assoc_expand True demo_table) = Some s'" "\<not> expanding s'"
    "hashpower s' = hashpower (assoc_expand True demo_table)"
    "assoc_find [65] (demo_hash [65]) s' = assoc_find [65] (demo_hash [65]) (assoc_expand True demo_table)" by blast
  moreover have "hashpower (assoc_expand True demo_table) = 2" by (simp add: assoc_expand_def demo_table_def Let_def)
  ultimately show ?thesis using f by simp
qed

text \<open>
  C3. The iterator of the crawler ends and visits every indexed item exactly once (it holds the
  maintenance lock, so no expansion is under way).
\<close>

theorem assoc_iterate_complete:
  assumes "assoc_run hash s m" and "\<not> expanding s" and "assoc_get_iterator True = Some iter"
  shows "\<exists>xs. iterate_all s iter [] = Some xs \<and> distinct xs \<and> set xs = ran m"
proof -
  from assoc_run_abs [OF assms(1)] obtain C where C: "assoc_rep hash s C" "abs_map s (tab_items s C) m"
    by (auto simp: assoc_abs_def)
  let ?xs = "concat (map (\<lambda>i. C (In_primary i)) [0..<2 ^ hashpower s])"
  have "iterate_all s iter [] = Some ?xs"
    using iterate_all_from [OF C(1) assms(2), of 0 iter "[]"] assms(3) by (auto simp: assoc_get_iterator_def)
  moreover have "set ?xs = ran m"
    unfolding abs_map_ran [OF C(2)] using assms(2) by (auto simp: tab_items_def items_on_def slots_def)
  ultimately show ?thesis using distinct_concat_slots [OF C(1)] by blast
qed

theorem assoc_iterate_complete_witness:
  "\<exists>xs. iterate_all demo_table \<lparr>bucket = 0, bucket_locked = False, iter_it = NULL, iter_next = NULL\<rparr> [] = Some xs \<and>
     distinct xs \<and> set xs = {65}"
  using assoc_iterate_complete [OF demo_table_run, of "\<lparr>bucket = 0, bucket_locked = False, iter_it = NULL, iter_next = NULL\<rparr>"]
  by (simp add: demo_table_def assoc_get_iterator_def)

end
