(* ===== verification/Itoa_Ljust.thy ===== *)
theory Itoa_Ljust
  imports Prelude
begin

text \<open>
  \<^verbatim>\<open>itoa_ljust.c\<close>: conversion of integers to decimal, two digits at a time through a lookup
  table. The output pointer of the C functions is the list of bytes written so far; the
  NUL that the code stores after the last digit is the end of the list. The switch of
  \<^verbatim>\<open>itoa\<close> falls through, so its case \<open>k\<close> runs for every entry \<open>n\<close> with \<open>k \<le> n \<le> 10\<close>.
\<close>

subsection \<open>The code\<close>

definition lut :: bytes where
  "lut = ascii (''0001020304050607080910111213141516171819'' @
                ''2021222324252627282930313233343536373839'' @
                ''4041424344454647484950515253545556575859'' @
                ''6061626364656667686970717273747576777879'' @
                ''8081828384858687888990919293949596979899'')"

definition out2 :: "uint32 \<Rightarrow> bytes \<Rightarrow> bytes" where
  "out2 d p = p @ [lut ! (2 * unat d), lut ! Suc (2 * unat d)]"

definition out1 :: "byte \<Rightarrow> bytes \<Rightarrow> bytes" where
  "out1 c p = p @ [c]"

definition digits :: "uint32 \<Rightarrow> uint32 \<Rightarrow> uint32 \<Rightarrow> bytes \<Rightarrow> nat \<Rightarrow> nat \<times> uint32 \<times> bytes" where
  "digits u k d p n =
     (if u < k * 10 then (n - 1, u div k, out1 (48 + ucast (u div k)) p) else (n, d, p))"

definition falls :: "nat \<Rightarrow> nat \<Rightarrow> bool" where
  "falls k n \<longleftrightarrow> k \<le> n \<and> n \<le> 10"

definition itoa :: "uint32 \<Rightarrow> bytes \<Rightarrow> uint32 \<Rightarrow> nat \<Rightarrow> bytes" where
  "itoa u p d n =
    (let (d, p) = (if falls 10 n then (u div 100000000, out2 (u div 100000000) p) else (d, p));
         u = (if falls 9 n then u - d * 100000000 else u);
         (d, p) = (if falls 8 n then (u div 1000000, out2 (u div 1000000) p) else (d, p));
         u = (if falls 7 n then u - d * 1000000 else u);
         (d, p) = (if falls 6 n then (u div 10000, out2 (u div 10000) p) else (d, p));
         u = (if falls 5 n then u - d * 10000 else u);
         (d, p) = (if falls 4 n then (u div 100, out2 (u div 100) p) else (d, p));
         u = (if falls 3 n then u - d * 100 else u);
         (d, p) = (if falls 2 n then (u div 1, out2 (u div 1) p) else (d, p))
     in p)"

definition itoa_u32 :: "uint32 \<Rightarrow> bytes \<Rightarrow> bytes" where
  "itoa_u32 u p =
    (let (n, d, p) =
       (if u \<ge> 100000000 then digits u 100000000 0 p 10
        else if u < 100 then digits u 1 0 p 2
        else if u < 10000 then digits u 100 0 p 4
        else if u < 1000000 then digits u 10000 0 p 6
        else digits u 1000000 0 p 8)
     in itoa u p d n)"

definition itoa_32 :: "int \<Rightarrow> bytes \<Rightarrow> bytes" where
  "itoa_32 i p =
    (let u = (word_of_int i :: uint32)
     in if i < 0 then itoa_u32 (- u) (p @ [45]) else itoa_u32 u p)"

lemma itoa_u64_smaller:
  fixes u :: uint64
  assumes "ucast (ucast u :: uint32) \<noteq> u"
  shows "unat u div 1000000000 < unat u"
proof -
  from assms have "u \<noteq> 0" by auto
  then show ?thesis by (simp add: unat_gt_0)
qed

function itoa_u64 :: "uint64 \<Rightarrow> bytes \<Rightarrow> bytes" where
  "itoa_u64 u p =
    (let lower = (ucast u :: uint32) in
     if ucast lower = u then itoa_u32 lower p
     else let upper = u div 1000000000;
              p = itoa_u64 upper p;
              lower = ucast (u - upper * 1000000000);
              d = lower div 100000000;
              p = out1 (48 + ucast d) p
          in itoa lower p d 9)"
  by pat_completeness auto
termination
  by (relation "measure (\<lambda>(u, p). unat u)") (auto simp: itoa_u64_smaller unat_div_distrib)

declare itoa_u64.simps [simp del]

definition itoa_64 :: "int \<Rightarrow> bytes \<Rightarrow> bytes" where
  "itoa_64 i p =
    (let u = (word_of_int i :: uint64)
     in if i < 0 then itoa_u64 (- u) (p @ [45]) else itoa_u64 u p)"

subsection \<open>Reference: decimal notation\<close>

fun dec :: "nat \<Rightarrow> bytes" where
  "dec n = (if n < 10 then [48 + of_nat n] else dec (n div 10) @ [48 + of_nat (n mod 10)])"

declare dec.simps [simp del]

lemma dec_small: "n < 10 \<Longrightarrow> dec n = [48 + of_nat n]"
  by (subst dec.simps) simp

text \<open>The last \<open>w\<close> decimal digits, with leading zeros.\<close>

fun fixd :: "nat \<Rightarrow> nat \<Rightarrow> bytes" where
  "fixd 0 x = []"
| "fixd (Suc w) x = fixd w (x div 10) @ [48 + of_nat (x mod 10)]"

lemma mod_pow10_Suc:
  fixes x :: nat
  shows "x mod 10 ^ Suc w div 10 = x div 10 mod 10 ^ w" and "x mod 10 ^ Suc w mod 10 = x mod 10"
proof -
  have "x mod 10 ^ Suc w = 10 * (x div 10 mod 10 ^ w) + x mod 10"
    by (simp add: mod_mult2_eq)
  then show "x mod 10 ^ Suc w div 10 = x div 10 mod 10 ^ w" "x mod 10 ^ Suc w mod 10 = x mod 10"
    by simp_all
qed

lemma fixd_add: "fixd (a + b) x = fixd a (x div 10 ^ b) @ fixd b (x mod 10 ^ b)"
proof (induction b arbitrary: x)
  case 0
  show ?case by simp
next
  case (Suc b)
  from Suc.IH [of "x div 10"] show ?case
    using mod_pow10_Suc [of x b] by (simp add: div_mult2_eq)
qed

lemma dec_split: "0 < x div 10 ^ w \<Longrightarrow> dec x = dec (x div 10 ^ w) @ fixd w (x mod 10 ^ w)"
proof (induction w arbitrary: x)
  case 0
  show ?case by simp
next
  case (Suc w)
  then have "0 < x div 10 div 10 ^ w" by (simp add: div_mult2_eq)
  then have "dec (x div 10) = dec (x div 10 div 10 ^ w) @ fixd w (x div 10 mod 10 ^ w)"
    by (rule Suc.IH)
  moreover have "\<not> x < 10"
  proof
    assume "x < 10"
    then have "x div 10 div 10 ^ w = 0" by simp
    with \<open>0 < x div 10 div 10 ^ w\<close> show False by simp
  qed
  ultimately show ?case
    using mod_pow10_Suc [of x w] by (subst dec.simps) (simp add: div_mult2_eq)
qed

lemma dec_fixd: "10 ^ w \<le> x \<Longrightarrow> x < 10 ^ Suc w \<Longrightarrow> dec x = fixd (Suc w) x"
proof (induction w arbitrary: x)
  case 0
  then show ?case by (simp add: dec_small)
next
  case (Suc w)
  from Suc.prems(1) have "10 * 10 ^ w div 10 \<le> x div 10"
    by (intro div_le_mono) simp
  moreover from Suc.prems(2) have "x div 10 < 10 ^ Suc w"
    by (auto simp: less_mult_imp_div_less mult.commute)
  ultimately have "10 ^ w \<le> x div 10" "x div 10 < 10 ^ Suc w" by simp_all
  then have "dec (x div 10) = fixd (Suc w) (x div 10)" by (rule Suc.IH)
  moreover have "\<not> x < 10"
  proof -
    have "0 < (10::nat) ^ w" by simp
    with Suc.prems(1) show ?thesis unfolding power_Suc by linarith
  qed
  ultimately show ?case by (subst dec.simps) simp
qed

subsection \<open>The two-digit steps\<close>

lemma nth_concat_pairs:
  assumes "d < n"
  shows "concat (map (\<lambda>d. [f d, g d]) [0..<n]) ! (2 * d) = f d"
    and "concat (map (\<lambda>d. [f d, g d]) [0..<n]) ! Suc (2 * d) = g d"
  using assms
proof (induction n)
  case (Suc n)
  have len: "length (concat (map (\<lambda>d. [f d, g d]) [0..<n])) = 2 * n"
    by (induction n) auto
  case 1
  with Suc len show ?case by (cases "d = n") (auto simp: nth_append)
  case 2
  with Suc len show ?case by (cases "d = n") (auto simp: nth_append)
qed auto

lemma lut_pairs: "lut = concat (map (\<lambda>d. [48 + of_nat (d div 10), 48 + of_nat (d mod 10)]) [0..<100])"
  by (simp add: lut_def ascii_def upt_rec [of 0 100] upt_rec [of "Suc 0" 100] numeral_2_eq_2 [symmetric])

lemma fixd_2: "fixd 2 x = [48 + of_nat (x div 10 mod 10), 48 + of_nat (x mod 10)]"
  by (simp add: numeral_2_eq_2)

lemma out2_fixd: "unat d < 100 \<Longrightarrow> out2 d p = p @ fixd 2 (unat d)"
  by (simp add: out2_def lut_pairs nth_concat_pairs fixd_2)

lemma out1_fixd: "unat d < 10 \<Longrightarrow> out1 (48 + ucast d) p = p @ fixd 1 (unat d)"
  by (simp add: out1_def)

text \<open>Entering the switch one case higher writes one more pair, or one subtraction more.\<close>

lemma itoa_unfold:
  "itoa u p d 10 = itoa u (out2 (u div 100000000) p) (u div 100000000) 9"
  "itoa u p d 9 = itoa (u - d * 100000000) p d 8"
  "itoa u p d 8 = itoa u (out2 (u div 1000000) p) (u div 1000000) 7"
  "itoa u p d 7 = itoa (u - d * 1000000) p d 6"
  "itoa u p d 6 = itoa u (out2 (u div 10000) p) (u div 10000) 5"
  "itoa u p d 5 = itoa (u - d * 10000) p d 4"
  "itoa u p d 4 = itoa u (out2 (u div 100) p) (u div 100) 3"
  "itoa u p d 3 = itoa (u - d * 100) p d 2"
  "itoa u p d 2 = out2 u p"
  "itoa u p d (Suc 0) = p"
  by (simp_all add: itoa_def falls_def)

lemma unat_rest: "unat (u - u div k * k) = unat u mod unat k" for u k :: uint32
  by (simp add: minus_div_mult_eq_mod unat_mod_distrib)

lemma itoa_2: "unat u < 10 ^ 2 \<Longrightarrow> itoa u p d 2 = p @ fixd 2 (unat u)"
  by (simp add: itoa_unfold out2_fixd)

lemma itoa_pair:
  assumes step: "\<And>d. itoa u p d (Suc (Suc n)) = itoa (u - u div k * k) (out2 (u div k) p) (u div k) n"
    and k: "unat k = 10 ^ n"
    and IH: "\<And>u p d. unat u < 10 ^ n \<Longrightarrow> itoa u p d n = p @ fixd n (unat u)"
    and u: "unat u < 10 ^ (n + 2)"
  shows "itoa u p d (Suc (Suc n)) = p @ fixd (Suc (Suc n)) (unat u)"
proof -
  have "unat (u div k) < 100"
    using u by (simp add: unat_div_distrib k less_mult_imp_div_less)
  moreover have "unat u mod 10 ^ n < 10 ^ n" by simp
  ultimately show ?thesis
    using fixd_add [of 2 n "unat u"]
    by (simp add: step IH out2_fixd unat_rest k unat_div_distrib)
qed

lemma itoa_4: "unat u < 10 ^ 4 \<Longrightarrow> itoa u p d 4 = p @ fixd 4 (unat u)"
  using itoa_pair [of u p 2 100 d] itoa_2 by (simp add: itoa_unfold)

lemma itoa_6: "unat u < 10 ^ 6 \<Longrightarrow> itoa u p d 6 = p @ fixd 6 (unat u)"
  using itoa_pair [of u p 4 10000 d] itoa_4 by (simp add: itoa_unfold)

lemma itoa_8: "unat u < 10 ^ 8 \<Longrightarrow> itoa u p d 8 = p @ fixd 8 (unat u)"
  using itoa_pair [of u p 6 1000000 d] itoa_6 by (simp add: itoa_unfold)

lemma itoa_10: "unat u < 10 ^ 10 \<Longrightarrow> itoa u p d 10 = p @ fixd 10 (unat u)"
  using itoa_pair [of u p 8 100000000 d] itoa_8 by (simp add: itoa_unfold)

text \<open>An odd entry drops the leading digit that \<^verbatim>\<open>digits\<close> has written.\<close>

lemma itoa_odd:
  assumes "itoa u p (u div k) (Suc n) = itoa (u - u div k * k) p (u div k) n"
    and k: "unat k = 10 ^ n"
    and "\<And>u p d. unat u < 10 ^ n \<Longrightarrow> itoa u p d n = p @ fixd n (unat u)"
  shows "itoa u p (u div k) (Suc n) = p @ fixd n (unat u mod 10 ^ n)"
proof -
  have "unat u mod 10 ^ n < 10 ^ n" by simp
  then show ?thesis by (simp add: assms unat_rest)
qed

lemma digits_itoa:
  assumes k: "unat k = 10 ^ n" and kb: "unat k * 10 < 2 ^ 32"
    and lo: "10 ^ n \<le> unat u \<or> n = 0" and hi: "unat u < 10 ^ Suc (Suc n)"
    and even: "itoa u p 0 (Suc (Suc n)) = p @ fixd (Suc (Suc n)) (unat u)"
    and odd: "\<And>p. itoa u p (u div k) (Suc n) = p @ fixd n (unat u mod 10 ^ n)"
  shows "(let (n, d, p) = digits u k 0 p (Suc (Suc n)) in itoa u p d n) = p @ dec (unat u)"
proof (cases "u < k * 10")
  case True
  have "unat (k * 10) = unat k * 10" using kb by (simp add: unat_times_small)
  with True k have lt: "unat u < 10 ^ Suc n" by (simp add: word_less_nat_alt)
  then have d: "unat u div 10 ^ n < 10" by (simp add: less_mult_imp_div_less mult.commute)
  have "dec (unat u) = fixd (Suc n) (unat u)"
    using lo lt dec_fixd [of n "unat u"] by (auto simp: dec_small)
  also have "\<dots> = fixd 1 (unat u div 10 ^ n) @ fixd n (unat u mod 10 ^ n)"
    using fixd_add [of 1 n "unat u"] by simp
  finally have "dec (unat u) = fixd 1 (unat u div 10 ^ n) @ fixd n (unat u mod 10 ^ n)" .
  moreover have "digits u k 0 p (Suc (Suc n)) = (Suc n, u div k, p @ fixd 1 (unat u div 10 ^ n))"
    using True d k out1_fixd [of "u div k" p] by (simp add: digits_def unat_div_distrib)
  ultimately show ?thesis by (simp add: odd del: fixd.simps)
next
  case False
  have "unat (k * 10) = unat k * 10" using kb by (simp add: unat_times_small)
  with False k have "10 ^ Suc n \<le> unat u" by (simp add: word_less_nat_alt)
  then have "dec (unat u) = fixd (Suc (Suc n)) (unat u)" using hi by (rule dec_fixd)
  moreover from False have "digits u k 0 p (Suc (Suc n)) = (Suc (Suc n), 0, p)"
    by (simp add: digits_def)
  ultimately show ?thesis using even by (simp del: fixd.simps)
qed

subsection \<open>Correctness\<close>

lemma itoa_u32_dec: "itoa_u32 u p = p @ dec (unat u)"
proof -
  have top: "unat u < 10 ^ 10" using unat_bound [of u] by simp
  consider (a) "100000000 \<le> unat u" | (b) "unat u < 100" | (c) "100 \<le> unat u" "unat u < 10000"
    | (d) "10000 \<le> unat u" "unat u < 1000000" | (e) "1000000 \<le> unat u" "unat u < 100000000"
    by linarith
  then show ?thesis
  proof cases
    case a
    with top have "(let (n, d, p) = digits u 100000000 0 p 10 in itoa u p d n) = p @ dec (unat u)"
      using digits_itoa [of 100000000 8 u p] itoa_10 [of u p 0] itoa_odd [of u _ 100000000 8] itoa_8
      by (simp add: itoa_unfold)
    with a show ?thesis by (simp add: itoa_u32_def word_less_nat_alt word_le_nat_alt)
  next
    case b
    then have "(let (n, d, p) = digits u 1 0 p 2 in itoa u p d n) = p @ dec (unat u)"
      using digits_itoa [of 1 0 u p] itoa_2 [of u p 0]
      by (simp add: itoa_unfold numeral_2_eq_2 [symmetric])
    with b show ?thesis by (simp add: itoa_u32_def word_less_nat_alt word_le_nat_alt)
  next
    case c
    then have "(let (n, d, p) = digits u 100 0 p 4 in itoa u p d n) = p @ dec (unat u)"
      using digits_itoa [of 100 2 u p] itoa_4 [of u p 0] itoa_odd [of u _ 100 2] itoa_2
      by (simp add: itoa_unfold)
    with c show ?thesis by (simp add: itoa_u32_def word_less_nat_alt word_le_nat_alt)
  next
    case d
    then have "(let (n, d, p) = digits u 10000 0 p 6 in itoa u p d n) = p @ dec (unat u)"
      using digits_itoa [of 10000 4 u p] itoa_6 [of u p 0] itoa_odd [of u _ 10000 4] itoa_4
      by (simp add: itoa_unfold)
    with d show ?thesis by (simp add: itoa_u32_def word_less_nat_alt word_le_nat_alt)
  next
    case e
    then have "(let (n, d, p) = digits u 1000000 0 p 8 in itoa u p d n) = p @ dec (unat u)"
      using digits_itoa [of 1000000 6 u p] itoa_8 [of u p 0] itoa_odd [of u _ 1000000 6] itoa_6
      by (simp add: itoa_unfold)
    with e show ?thesis by (simp add: itoa_u32_def word_less_nat_alt word_le_nat_alt)
  qed
qed

lemma ucast_fits: "(ucast (ucast u :: uint32) = u) = (unat u < 2 ^ 32)" for u :: uint64
proof -
  have "unat (ucast (ucast u :: uint32) :: uint64) = unat u mod 2 ^ 32"
    by (simp add: unat_ucast)
  then show ?thesis by (metis mod_less mod_less_divisor word_unat_eq_iff zero_less_numeral
        zero_less_power)
qed

lemma itoa_nine:
  assumes "unat l < 10 ^ 9"
  shows "itoa l (out1 (48 + ucast (l div 100000000)) p) (l div 100000000) 9 = p @ fixd 9 (unat l)"
proof -
  have d: "unat (l div 100000000) = unat l div 10 ^ 8" by (simp add: unat_div_distrib)
  with assms have "unat (l div 100000000) < 10" by (simp add: less_mult_imp_div_less)
  then have "out1 (48 + ucast (l div 100000000)) p = p @ fixd 1 (unat l div 10 ^ 8)"
    using out1_fixd [of "l div 100000000" p] d by simp
  moreover have "itoa l q (l div 100000000) 9 = q @ fixd 8 (unat l mod 10 ^ 8)" for q
    using itoa_odd [of l q 100000000 8] itoa_8 by (simp add: itoa_unfold)
  ultimately show ?thesis using fixd_add [of 1 8 "unat l"] by simp
qed

lemma itoa_u64_dec: "itoa_u64 u p = p @ dec (unat u)"
proof (induction u p rule: itoa_u64.induct)
  case (1 u p)
  let ?lower = "ucast u :: uint32" and ?K = "1000000000 :: uint64" and ?x = "unat u"
  show ?case
  proof (cases "ucast ?lower = u")
    case True
    then have "unat ?lower = ?x" by (simp add: ucast_fits unat_ucast)
    with True show ?thesis by (simp add: itoa_u64.simps [of u p] itoa_u32_dec)
  next
    case False
    let ?l = "ucast (u - u div ?K * ?K) :: uint32"
    have "unat (u - u div ?K * ?K) = ?x mod 10 ^ 9"
      by (simp add: minus_div_mult_eq_mod unat_mod_distrib)
    then have l: "unat ?l = ?x mod 10 ^ 9" by (simp add: unat_ucast)
    then have "unat ?l < 10 ^ 9" by simp
    then have step: "itoa ?l (out1 (48 + ucast (?l div 100000000)) q) (?l div 100000000) 9
      = q @ fixd 9 (?x mod 10 ^ 9)" for q
      using itoa_nine [of ?l q] l by simp
    from False have "10 ^ 9 \<le> ?x" by (simp add: ucast_fits)
    then have "0 < ?x div 10 ^ 9" by (simp add: div_greater_zero_iff)
    then have "dec ?x = dec (?x div 10 ^ 9) @ fixd 9 (?x mod 10 ^ 9)" by (rule dec_split)
    with False step "1.IH" show ?thesis
      by (simp add: itoa_u64.simps [of u p] Let_def unat_div_distrib)
  qed
qed

lemma unat_of_int_small:
  assumes "0 \<le> i" and "i < 2 ^ LENGTH('a)"
  shows "unat (word_of_int i :: 'a::len word) = nat i"
  using assms by (simp add: unat_eq_nat_uint uint_word_of_int)

text \<open>
  C20. \<^verbatim>\<open>itoa_u32\<close>, \<^verbatim>\<open>itoa_32\<close>, \<^verbatim>\<open>itoa_u64\<close> and \<^verbatim>\<open>itoa_64\<close> append exactly the decimal notation of
  their argument, with a minus sign for a negative one, over the whole range of their
  types: the smallest 32-bit and 64-bit integers, whose negation overflows, included.
\<close>

theorem itoa_decimal:
  assumes "i \<in> {- (2 ^ 31)..<2 ^ 31}" and "j \<in> {- (2 ^ 63)..<2 ^ 63}"
  shows "itoa_u32 u p = p @ dec (unat u) \<and> itoa_u64 v p = p @ dec (unat v) \<and>
    itoa_32 i p = p @ (if i < 0 then 45 # dec (nat (- i)) else dec (nat i)) \<and>
    itoa_64 j p = p @ (if j < 0 then 45 # dec (nat (- j)) else dec (nat j))"
proof (intro conjI)
  show "itoa_u32 u p = p @ dec (unat u)" by (rule itoa_u32_dec)
  show "itoa_u64 v p = p @ dec (unat v)" by (rule itoa_u64_dec)
  show "itoa_32 i p = p @ (if i < 0 then 45 # dec (nat (- i)) else dec (nat i))"
    using assms(1) unat_of_int_small [where 'a = 32, of i] unat_of_int_small [where 'a = 32, of "- i"]
    by (auto simp: itoa_32_def itoa_u32_dec Let_def)
  show "itoa_64 j p = p @ (if j < 0 then 45 # dec (nat (- j)) else dec (nat j))"
    using assms(2) unat_of_int_small [where 'a = 64, of j] unat_of_int_small [where 'a = 64, of "- j"]
    by (auto simp: itoa_64_def itoa_u64_dec Let_def)
qed

theorem itoa_decimal_witness:
  "itoa_32 (- 2147483648) [97] = 97 # 45 # dec 2147483648 \<and> itoa_64 (- 42) [97] = [97, 45, 52, 50]"
proof -
  have "dec 42 = [52, 50]" by (simp add: dec.simps [of 42] dec_small)
  then show ?thesis using itoa_decimal [of "- 2147483648" "- 42" 0 "[97]" 0] by simp
qed

end
