(* ===== verification/Util_C.thy ===== *)
theory Util_C
  imports Itoa_Ljust
begin

text \<open>
  \<^verbatim>\<open>util.c\<close>: URI encoding, the checked number parsers, bounded string copy, constant-time
  comparison and byte swapping, with what they use of the C library (\<^verbatim>\<open>isspace\<close>,
  \<^verbatim>\<open>isalnum\<close>, \<^verbatim>\<open>strtoull\<close> and \<^verbatim>\<open>strtoll\<close> of an LP64 system, in the C locale).
\<close>

subsection \<open>The C library\<close>

definition isspace :: "byte \<Rightarrow> bool" where
  "isspace c \<longleftrightarrow> c = 32 \<or> (9 \<le> c \<and> c \<le> 13)"

definition isalnum :: "byte \<Rightarrow> bool" where
  "isalnum c \<longleftrightarrow> (48 \<le> c \<and> c \<le> 57) \<or> (65 \<le> c \<and> c \<le> 90) \<or> (97 \<le> c \<and> c \<le> 122)"

definition digit_val :: "nat \<Rightarrow> byte \<Rightarrow> nat option" where
  "digit_val base c =
    (let v = (if 48 \<le> c \<and> c \<le> 57 then unat c - 48
              else if 97 \<le> c \<and> c \<le> 122 then unat c - 87
              else if 65 \<le> c \<and> c \<le> 90 then unat c - 55
              else base)
     in if v < base then Some v else None)"

text \<open>The value and the number of the digits a string starts with.\<close>

fun scan_digits :: "nat \<Rightarrow> bytes \<Rightarrow> nat \<Rightarrow> nat \<times> nat" where
  "scan_digits b [] acc = (acc, 0)"
| "scan_digits b (c # s) acc =
    (case digit_val b c of None \<Rightarrow> (acc, 0)
     | Some d \<Rightarrow> let (v, n) = scan_digits b s (acc * b + d) in (v, Suc n))"

text \<open>
  The subject sequence of the \<^verbatim>\<open>strto\<close> functions: white space, a sign, for base 16 an
  optional \<^verbatim>\<open>0x\<close> before a digit, digits. The result is the sign, the magnitude and the offset
  of the end; the offset is 0 when there is no conversion.
\<close>

definition strto_scan :: "nat \<Rightarrow> bytes \<Rightarrow> bool \<times> nat \<times> nat" where
  "strto_scan base str =
    (let ws = length (takeWhile isspace str);
         neg = (cstr_at str ws = 45);
         i = (if cstr_at str ws = 45 \<or> cstr_at str ws = 43 then Suc ws else ws);
         i = (if base = 16 \<and> cstr_at str i = 48 \<and>
                 (cstr_at str (i + 1) = 120 \<or> cstr_at str (i + 1) = 88) \<and>
                 digit_val 16 (cstr_at str (i + 2)) \<noteq> None then i + 2 else i);
         (v, n) = scan_digits base (drop i str) 0
     in if n = 0 then (False, 0, 0) else (neg, v, i + n))"

text \<open>Value, end offset and whether \<^verbatim>\<open>errno\<close> is \<^verbatim>\<open>ERANGE\<close>.\<close>

definition strtoull :: "nat \<Rightarrow> bytes \<Rightarrow> uint64 \<times> nat \<times> bool" where
  "strtoull base str =
    (let (neg, v, e) = strto_scan base str
     in if v < 2 ^ 64 then (if neg then - of_nat v else of_nat v, e, False)
        else (- 1, e, True))"

definition strtoll :: "bytes \<Rightarrow> int \<times> nat \<times> bool" where
  "strtoll str =
    (let (neg, v, e) = strto_scan 10 str; i = (if neg then - int v else int v)
     in if i < - (2 ^ 63) then (- (2 ^ 63), e, True)
        else if 2 ^ 63 \<le> i then (2 ^ 63 - 1, e, True) else (i, e, False))"

subsection \<open>The code\<close>

text \<open>\<^verbatim>\<open>xisspace (*endptr) || (*endptr == '\0' && endptr != str)\<close>\<close>

definition ends_number :: "bytes \<Rightarrow> nat \<Rightarrow> bool" where
  "ends_number str e \<longleftrightarrow> isspace (cstr_at str e) \<or> (cstr_at str e = 0 \<and> e \<noteq> 0)"

definition safe_strtoull :: "bytes \<Rightarrow> bool \<times> uint64" where
  "safe_strtoull str =
    (let (ull, e, erange) = strtoull 10 str
     in if erange \<or> e = 0 then (False, 0)
        else if ends_number str e then
          (if sint ull < 0 \<and> 45 \<in> set str then (False, 0) else (True, ull))
        else (False, 0))"

definition safe_strtoull_hex :: "bytes \<Rightarrow> bool \<times> uint64" where
  "safe_strtoull_hex str =
    (let (ull, e, erange) = strtoull 16 str
     in if erange \<or> e = 0 then (False, 0)
        else if ends_number str e then
          (if sint ull < 0 \<and> 45 \<in> set str then (False, 0) else (True, ull))
        else (False, 0))"

definition safe_strtoll :: "bytes \<Rightarrow> bool \<times> int" where
  "safe_strtoll str =
    (let (ll, e, erange) = strtoll str
     in if erange \<or> e = 0 then (False, 0)
        else if ends_number str e then (True, ll) else (False, 0))"

text \<open>\<^verbatim>\<open>unsigned long\<close> has 64 bits, \<^verbatim>\<open>*out\<close> has 32: the assignment truncates.\<close>

definition safe_strtoul :: "bytes \<Rightarrow> bool \<times> uint32" where
  "safe_strtoul str =
    (let (l, e, erange) = strtoull 10 str
     in if erange \<or> e = 0 then (False, 0)
        else if ends_number str e then
          (if sint l < 0 \<and> 45 \<in> set str then (False, 0) else (True, ucast l))
        else (False, 0))"

definition safe_strtol :: "bytes \<Rightarrow> bool \<times> int" where
  "safe_strtol str =
    (let (l, e, erange) = strtoll str
     in if erange \<or> e = 0 then (False, 0)
        else if ends_number str e then (True, sint (word_of_int l :: uint32)) else (False, 0))"

definition safe_strtod :: "(bytes \<Rightarrow> 'd \<times> nat \<times> bool) \<Rightarrow> 'd \<Rightarrow> bytes \<Rightarrow> bool \<times> 'd" where
  "safe_strtod strtod zero str =
    (let (d, e, erange) = strtod str
     in if erange \<or> e = 0 then (False, zero)
        else if ends_number str e then (True, d) else (False, zero))"

definition hex_digit :: "nat \<Rightarrow> byte" where
  "hex_digit n = (if n < 10 then 48 + of_nat n else 55 + of_nat n)"

definition uriencode_map :: "byte \<Rightarrow> bytes option" where
  "uriencode_map x =
    (if isalnum x \<or> x = 45 \<or> x = 46 \<or> x = 95 \<or> x = 126 then None
     else Some [37, hex_digit (unat x div 16), hex_digit (unat x mod 16)])"

fun uriencode_loop :: "bytes \<Rightarrow> bytes \<Rightarrow> nat \<Rightarrow> bytes option" where
  "uriencode_loop [] dst dstlen = Some dst"
| "uriencode_loop (c # src) dst dstlen =
    (if length dst + 4 > dstlen then None
     else uriencode_loop src (dst @ (case uriencode_map c of Some e \<Rightarrow> e | None \<Rightarrow> [c])) dstlen)"

text \<open>The destination before its NUL, or \<open>None\<close> where the code returns false.\<close>

definition uriencode :: "bytes \<Rightarrow> nat \<Rightarrow> bytes option" where
  "uriencode src dstlen = uriencode_loop src [] dstlen"

text \<open>
  The bytes written to \<^verbatim>\<open>dst\<close>, the terminating NUL included, and the result. A \<^verbatim>\<open>dstmax\<close> of 0
  wraps to the largest \<^verbatim>\<open>size_t\<close>.
\<close>

fun safe_strcpy_loop :: "bytes \<Rightarrow> nat \<Rightarrow> bytes \<Rightarrow> bytes \<times> bool" where
  "safe_strcpy_loop [] n dst = (dst @ [0], True)"
| "safe_strcpy_loop (c # src) 0 dst = (dst @ [0], False)"
| "safe_strcpy_loop (c # src) (Suc n) dst = safe_strcpy_loop src n (dst @ [c])"

definition safe_strcpy :: "bytes \<Rightarrow> uint64 \<Rightarrow> bytes \<times> bool" where
  "safe_strcpy src dstmax = safe_strcpy_loop src (unat (dstmax - 1)) []"

fun memcmp_delta :: "bytes \<Rightarrow> bytes \<Rightarrow> nat \<Rightarrow> nat \<Rightarrow> byte \<Rightarrow> byte" where
  "memcmp_delta a b x 0 delta = delta"
| "memcmp_delta a b x (Suc n) delta = memcmp_delta a b (Suc x) n (delta OR (a ! x XOR b ! x))"

definition safe_memcmp :: "bytes \<Rightarrow> bytes \<Rightarrow> nat \<Rightarrow> bool" where
  "safe_memcmp a b len \<longleftrightarrow> memcmp_delta a b 0 len 0 = 0"

fun swap64_loop :: "nat \<Rightarrow> uint64 \<Rightarrow> uint64 \<Rightarrow> uint64" where
  "swap64_loop 0 rv v = rv"
| "swap64_loop (Suc i) rv v = swap64_loop i (push_bit 8 rv OR (v AND 255)) (drop_bit 8 v)"

definition mc_swap64 :: "uint64 \<Rightarrow> uint64" where
  "mc_swap64 v = swap64_loop 8 0 v"

definition ntohll :: "uint64 \<Rightarrow> uint64" where "ntohll v = mc_swap64 v"
definition htonll :: "uint64 \<Rightarrow> uint64" where "htonll v = mc_swap64 v"

subsection \<open>Numbers\<close>

abbreviation is_dec_digit :: "byte \<Rightarrow> bool" where
  "is_dec_digit c \<equiv> 48 \<le> c \<and> c \<le> 57"

definition dval :: "nat \<Rightarrow> bytes \<Rightarrow> nat" where
  "dval acc ds = foldl (\<lambda>a c. a * 10 + (unat c - 48)) acc ds"

lemma dval_simps [simp]:
  "dval acc [] = acc"
  "dval acc (c # ds) = dval (acc * 10 + (unat c - 48)) ds"
  "dval acc (ds @ [c]) = dval acc ds * 10 + (unat c - 48)"
  by (simp_all add: dval_def)

lemma digit_val_dec: "is_dec_digit c \<Longrightarrow> digit_val 10 c = Some (unat c - 48)"
  by (auto simp: digit_val_def Let_def word_le_nat_alt)

lemma digit_val_not_dec: "\<not> is_dec_digit c \<Longrightarrow> digit_val 10 c = None"
  by (auto simp: digit_val_def Let_def word_le_nat_alt)

lemma isspace_not_digit: "isspace c \<Longrightarrow> \<not> is_dec_digit c \<and> c \<noteq> 45 \<and> c \<noteq> 43 \<and> c \<noteq> 0"
  by (auto simp: isspace_def word_le_nat_alt unat_arith_simps)

lemma scan_digits_dec:
  assumes "\<forall>c \<in> set ds. is_dec_digit c" and "rest = [] \<or> \<not> is_dec_digit (hd rest)"
  shows "scan_digits 10 (ds @ rest) acc = (dval acc ds, length ds)"
  using assms
proof (induction ds arbitrary: acc)
  case Nil
  then show ?case by (cases rest) (auto simp: digit_val_not_dec)
next
  case (Cons c ds)
  then show ?case by (simp add: digit_val_dec)
qed

lemma dec_digit: "n < 10 \<Longrightarrow> is_dec_digit (48 + of_nat n) \<and> unat (48 + of_nat n :: byte) = 48 + n"
  by (simp add: word_le_nat_alt unat_word_ariths unat_of_nat)

lemma dec_digits: "\<forall>c \<in> set (dec n). is_dec_digit c"
proof (induction n rule: dec.induct)
  case (1 n)
  then show ?case
    using dec_digit [of n] dec_digit [of "n mod 10"] by (subst dec.simps) auto
qed

lemma dval_dec: "dval 0 (dec n) = n"
proof (induction n rule: dec.induct)
  case (1 n)
  then show ?case
    using dec_digit [of n] dec_digit [of "n mod 10"] by (subst dec.simps) auto
qed

lemma dec_not_Nil: "dec n \<noteq> []"
  by (subst dec.simps) simp

lemma takeWhile_spaces:
  assumes "\<forall>c \<in> set ws. isspace c" and "ds \<noteq> []" and "\<not> isspace (hd ds)"
  shows "takeWhile isspace (ws @ ds @ rest) = ws"
  using assms by (cases ds) (auto simp: takeWhile_append)

text \<open>White space, then digits, then white space or the end: the accepted input.\<close>

lemma strto_scan_dec:
  assumes ws: "\<forall>c \<in> set ws. isspace c" and ds: "ds \<noteq> []" "\<forall>c \<in> set ds. is_dec_digit c"
    and rest: "rest = [] \<or> isspace (hd rest)"
  shows "strto_scan 10 (ws @ ds @ rest) = (False, dval 0 ds, length ws + length ds)"
    and "ends_number (ws @ ds @ rest) (length ws + length ds)"
proof -
  from ds have hd: "is_dec_digit (hd ds)" by simp
  then have sp: "\<not> isspace (hd ds)" and sg: "hd ds \<noteq> 45" "hd ds \<noteq> 43"
    using isspace_not_digit [of "hd ds"] by (auto simp: word_le_nat_alt)
  have at: "cstr_at (ws @ ds @ rest) (length ws) = hd ds"
    using ds by (cases ds) (simp_all add: cstr_at_def nth_append)
  have "rest = [] \<or> \<not> is_dec_digit (hd rest)" using rest isspace_not_digit by auto
  then have "scan_digits 10 (ds @ rest) 0 = (dval 0 ds, length ds)"
    using ds by (intro scan_digits_dec) auto
  then show "strto_scan 10 (ws @ ds @ rest) = (False, dval 0 ds, length ws + length ds)"
    using ds at sg takeWhile_spaces [OF ws ds(1) sp, of rest]
    by (simp add: strto_scan_def Let_def)
  show "ends_number (ws @ ds @ rest) (length ws + length ds)"
    using ds rest cstr_at_append_right [of "ws @ ds" rest 0]
    by (cases rest) (auto simp: ends_number_def)
qed

lemma safe_strtoull_dec:
  assumes "\<forall>c \<in> set ws. isspace c" and "ds \<noteq> []" "\<forall>c \<in> set ds. is_dec_digit c"
    and "rest = [] \<or> isspace (hd rest)" and "45 \<notin> set rest"
  shows "safe_strtoull (ws @ ds @ rest) =
    (if dval 0 ds < 2 ^ 64 then (True, of_nat (dval 0 ds)) else (False, 0))"
proof -
  have "45 \<notin> set (ws @ ds @ rest)"
    using assms isspace_not_digit by (auto simp: word_le_nat_alt)
  then show ?thesis
    using strto_scan_dec [OF assms(1-4)] assms(2)
    by (simp add: safe_strtoull_def strtoull_def)
qed

text \<open>The same with a minus sign in front.\<close>

lemma strto_scan_neg:
  assumes ws: "\<forall>c \<in> set ws. isspace c" and ds: "ds \<noteq> []" "\<forall>c \<in> set ds. is_dec_digit c"
    and rest: "rest = [] \<or> isspace (hd rest)"
  shows "strto_scan 10 (ws @ (45 # ds) @ rest) = (True, dval 0 ds, length ws + length (45 # ds))"
    and "ends_number (ws @ (45 # ds) @ rest) (length ws + length (45 # ds))"
proof -
  have sp: "\<not> isspace (hd (45 # ds))" by (simp add: isspace_def)
  have at: "cstr_at (ws @ (45 # ds) @ rest) (length ws) = 45" by (simp add: cstr_at_def nth_append)
  have "rest = [] \<or> \<not> is_dec_digit (hd rest)" using rest isspace_not_digit by auto
  then have sc: "scan_digits 10 (ds @ rest) 0 = (dval 0 ds, length ds)" using ds by (intro scan_digits_dec) auto
  have dr: "drop (Suc (length ws)) (ws @ (45 # ds) @ rest) = ds @ rest" by simp
  show "strto_scan 10 (ws @ (45 # ds) @ rest) = (True, dval 0 ds, length ws + length (45 # ds))"
    using ds(1) at sc dr takeWhile_spaces [OF ws _ sp, of rest] by (simp add: strto_scan_def Let_def)
  show "ends_number (ws @ (45 # ds) @ rest) (length ws + length (45 # ds))"
    using ds rest cstr_at_append_right [of "ws @ 45 # ds" rest 0] by (cases rest) (auto simp: ends_number_def)
qed

text \<open>The decimal notation of a signed number.\<close>

definition sdec :: "int \<Rightarrow> bytes" where
  "sdec i = (if i < 0 then 45 # dec (nat (- i)) else dec (nat i))"

lemma strto_scan_sdec:
  assumes "\<forall>c \<in> set ws. isspace c" "rest = [] \<or> isspace (hd rest)"
  shows "strto_scan 10 (ws @ sdec i @ rest) = (i < 0, nat \<bar>i\<bar>, length ws + length (sdec i))"
    and "ends_number (ws @ sdec i @ rest) (length ws + length (sdec i))"
proof -
  show "strto_scan 10 (ws @ sdec i @ rest) = (i < 0, nat \<bar>i\<bar>, length ws + length (sdec i))"
  proof (cases "i < 0")
    case True
    from strto_scan_neg(1) [OF assms(1) dec_not_Nil dec_digits assms(2), of "nat (- i)"] show ?thesis
      using True unfolding dval_dec by (simp add: sdec_def del: append_Cons)
  next
    case False
    from strto_scan_dec(1) [OF assms(1) dec_not_Nil dec_digits assms(2), of "nat i"] show ?thesis
      using False unfolding dval_dec by (simp add: sdec_def)
  qed
  show "ends_number (ws @ sdec i @ rest) (length ws + length (sdec i))"
  proof (cases "i < 0")
    case True
    from strto_scan_neg(2) [OF assms(1) dec_not_Nil dec_digits assms(2), of "nat (- i)"] show ?thesis
      using True by (simp add: sdec_def del: append_Cons)
  next
    case False
    from strto_scan_dec(2) [OF assms(1) dec_not_Nil dec_digits assms(2), of "nat i"] show ?thesis
      using False by (simp add: sdec_def)
  qed
qed

lemma strtoll_sdec:
  assumes "\<forall>c \<in> set ws. isspace c" "rest = [] \<or> isspace (hd rest)" "- (2 ^ 63) \<le> i" "i < 2 ^ 63"
  shows "strtoll (ws @ sdec i @ rest) = (i, length ws + length (sdec i), False)"
  using strto_scan_sdec(1) [OF assms(1,2), of i] assms(3,4) by (auto simp: strtoll_def)

lemma sdec_not_Nil: "0 < length (sdec i)"
  using dec_not_Nil by (simp add: sdec_def)

lemma counter_tail: "replicate k 32 @ [13, 10] = [] \<or> isspace (hd (replicate k 32 @ [13, 10]))"
  by (cases k) (simp_all add: isspace_def)

text \<open>
  C21. What \<^verbatim>\<open>itoa_u64\<close> prints, \<^verbatim>\<open>safe_strtoull\<close> reads back, for every 64-bit value, and what \<^verbatim>\<open>itoa_64\<close> prints,
  \<^verbatim>\<open>safe_strtoll\<close> reads back, for every signed 64-bit value, the least one included. This holds
  with any white space before the number and with the form in which \<^verbatim>\<open>do_add_delta\<close> leaves a
  counter in an item: padded by spaces and closed by carriage return and line feed.
\<close>

theorem strtoull_itoa_roundtrip:
  assumes ws: "\<forall>c \<in> set ws. isspace c" and i: "- (2 ^ 63) \<le> i" "i < 2 ^ 63"
  shows "safe_strtoull (ws @ itoa_u64 v []) = (True, v) \<and>
    safe_strtoull (ws @ itoa_u64 v [] @ replicate k 32 @ [13, 10]) = (True, v) \<and>
    safe_strtoll (ws @ itoa_64 i []) = (True, i) \<and>
    safe_strtoll (ws @ itoa_64 i [] @ replicate k 32 @ [13, 10]) = (True, i)"
proof -
  have "dval 0 (dec (unat v)) < 2 ^ 64" using unat_bound [of v] by (simp add: dval_dec)
  moreover have "45 \<notin> set (replicate k 32 @ [13, 10 :: byte])" by simp
  ultimately have u: "safe_strtoull (ws @ itoa_u64 v []) = (True, v)" "safe_strtoull (ws @ itoa_u64 v [] @ replicate k 32 @ [13, 10]) = (True, v)"
    using safe_strtoull_dec [OF ws dec_not_Nil dec_digits, of "[]"] safe_strtoull_dec [OF ws dec_not_Nil dec_digits counter_tail]
    by (simp_all add: itoa_u64_dec dval_dec)
  have p: "itoa_64 i [] = sdec i"
    using i unat_of_int_small [where 'a = 64, of i] unat_of_int_small [where 'a = 64, of "- i"] by (auto simp: itoa_64_def itoa_u64_dec Let_def sdec_def)
  have "safe_strtoll (ws @ sdec i @ rest) = (True, i)" if "rest = [] \<or> isspace (hd rest)" for rest
    using strtoll_sdec [OF ws that i] strto_scan_sdec(2) [OF ws that, of i] sdec_not_Nil [of i] by (simp add: safe_strtoll_def)
  from this [of "[]"] this [OF counter_tail] u show ?thesis unfolding p by simp
qed

theorem strtoull_itoa_roundtrip_witness:
  "safe_strtoull ([32, 9] @ itoa_u64 18446744073709551615 [] @ replicate 3 32 @ [13, 10]) = (True, 18446744073709551615) \<and>
   safe_strtoll ([32, 9] @ itoa_64 (- 9223372036854775808) []) = (True, - 9223372036854775808)"
proof -
  have "\<forall>c \<in> set [32, 9]. isspace c" by (simp add: isspace_def)
  from strtoull_itoa_roundtrip [OF this, of "- 9223372036854775808" 18446744073709551615 3] show ?thesis by simp
qed

text \<open>
  C22. The parsers do not reject every number that is out of their range. \<^verbatim>\<open>safe_strtoul\<close> reports success for every
  64-bit number and stores its low 32 bits, \<^verbatim>\<open>safe_strtol\<close> does so for every signed 64-bit number, so that of the numbers accepted
  only those that fit 32 bits are read as what they are; and \<^verbatim>\<open>safe_strtoull\<close> accepts \<open>-n\<close> for every \<open>n\<close> between 2^63 and 2^64, as 2^64 - n, because its test
  for a minus sign looks only at values that are negative as signed numbers.
\<close>

theorem safe_strto_out_of_range:
  fixes v :: uint64
  assumes ws: "\<forall>c \<in> set ws. isspace c" and i: "- (2 ^ 63) \<le> i" "i < 2 ^ 63" and n: "2 ^ 63 < n" "n < 2 ^ 64"
  shows "safe_strtoul (ws @ dec (unat v)) = (True, ucast v) \<and>
    safe_strtol (ws @ sdec i) = (True, sint (word_of_int i :: uint32)) \<and>
    ((- (2 ^ 31) \<le> i \<and> i < 2 ^ 31) = (safe_strtol (ws @ sdec i) = (True, i))) \<and>
    safe_strtoull (ws @ 45 # dec n) = (True, of_nat (2 ^ 64 - n))"
proof -
  have nm: "45 \<notin> set (ws @ dec (unat v))" using ws isspace_not_digit dec_digits [of "unat v"] by (auto simp: word_le_nat_alt)
  have "strto_scan 10 (ws @ dec (unat v) @ []) = (False, unat v, length ws + length (dec (unat v)))" "ends_number (ws @ dec (unat v) @ []) (length ws + length (dec (unat v)))"
    using strto_scan_dec [OF ws dec_not_Nil dec_digits, of "[]" "unat v"] by (simp_all add: dval_dec)
  then have u: "safe_strtoul (ws @ dec (unat v)) = (True, ucast v)"
    using nm unat_bound [of v] dec_not_Nil by (simp add: safe_strtoul_def strtoull_def)
  have l: "safe_strtol (ws @ sdec i) = (True, sint (word_of_int i :: uint32))"
    using strtoll_sdec [OF ws, of "[]" i] i strto_scan_sdec(2) [OF ws, of "[]" i] sdec_not_Nil [of i] by (simp add: safe_strtol_def)
  have r: "(- (2 ^ 31) \<le> i \<and> i < 2 ^ 31) = (safe_strtol (ws @ sdec i) = (True, i))"
  proof
    assume "- (2 ^ 31) \<le> i \<and> i < 2 ^ 31"
    then have "sint (word_of_int i :: uint32) = i" by (simp add: sint_sbintrunc' signed_take_bit_int_eq_self)
    then show "safe_strtol (ws @ sdec i) = (True, i)" using l by simp
  next
    assume "safe_strtol (ws @ sdec i) = (True, i)"
    then have e: "sint (word_of_int i :: uint32) = i" using l by simp
    then show "- (2 ^ 31) \<le> i \<and> i < 2 ^ 31"
      using sint_ge [of "word_of_int i :: uint32"] sint_lt [of "word_of_int i :: uint32"] by simp
  qed
  have m: "(- of_nat n :: uint64) = of_nat (2 ^ 64 - n)"
  proof -
    have "(of_nat (2 ^ 64 - n) + of_nat n :: uint64) = of_nat (2 ^ 64 - n + n)" by (simp only: of_nat_add)
    also have "2 ^ 64 - n + n = (2 ^ 64 :: nat)" using n by simp
    also have "(of_nat (2 ^ 64) :: uint64) = 0" by simp
    finally show ?thesis by (simp add: add_eq_0_iff)
  qed
  have k: "unat (of_nat (2 ^ 64 - n) :: uint64) = 2 ^ 64 - n" by (subst unat_of_nat) (use n in simp)
  have "int (2 ^ 64 - n) < 2 ^ 63" using n by simp
  then have "uint (of_nat (2 ^ 64 - n) :: uint64) < 2 ^ 63" using k by (simp add: uint_nat)
  then have "signed_take_bit 63 (uint (of_nat (2 ^ 64 - n) :: uint64)) = uint (of_nat (2 ^ 64 - n) :: uint64)"
    using uint_ge_0 [of "of_nat (2 ^ 64 - n) :: uint64"] by (intro signed_take_bit_int_eq_self) linarith+
  then have "sint (of_nat (2 ^ 64 - n) :: uint64) = uint (of_nat (2 ^ 64 - n) :: uint64)" by (subst sint_uint) simp
  then have sg: "\<not> sint (of_nat (2 ^ 64 - n) :: uint64) < 0" by (simp only: not_less uint_ge_0)
  have sc: "strto_scan 10 (ws @ (45 # dec n) @ []) = (True, n, length ws + length (45 # dec n))" "ends_number (ws @ (45 # dec n) @ []) (length ws + length (45 # dec n))"
    using strto_scan_neg [OF ws dec_not_Nil dec_digits, of "[]" n] by (simp_all add: dval_dec)
  moreover have "\<not> sint (- of_nat n :: uint64) < 0" using sg unfolding m .
  ultimately have "safe_strtoull (ws @ 45 # dec n) = (True, - of_nat n)" using n(2) by (simp add: safe_strtoull_def strtoull_def)
  then show ?thesis using u l r unfolding m by blast
qed

theorem safe_strto_out_of_range_witness:
  "safe_strtoul (ascii ''4294967296'') = (True, 0) \<and> safe_strtol (ascii ''4294967295'') = (True, - 1) \<and>
   safe_strtoull (ascii ''-18446744073709551615'') = (True, 1)"
proof -
  have d: "dec 4294967296 = ascii ''4294967296''" "dec 4294967295 = ascii ''4294967295''" "dec 18446744073709551615 = ascii ''18446744073709551615''"
    by (simp_all add: dec.simps ascii_def)
  have s: "sdec 4294967295 = ascii ''4294967295''" by (simp add: sdec_def d)
  have u: "unat (4294967296 :: uint64) = 4294967296" by simp
  have n: "45 # ascii ''18446744073709551615'' = ascii ''-18446744073709551615''" by (simp add: ascii_def)
  from safe_strto_out_of_range [of "[]" 4294967295 18446744073709551615 4294967296, unfolded u d s append_Nil n] show ?thesis by simp
qed

subsection \<open>URI encoding\<close>

fun uridecode :: "bytes \<Rightarrow> bytes" where
  "uridecode (c # s) =
    (if c = 37 then
       (case s of a # b # s' \<Rightarrow> of_nat (the (digit_val 16 a) * 16 + the (digit_val 16 b)) # uridecode s'
        | _ \<Rightarrow> [])
     else c # uridecode s)"
| "uridecode [] = []"

lemma digit_val_hex_digit: "n < 16 \<Longrightarrow> digit_val 16 (hex_digit n) = Some n"
  by (auto simp: digit_val_def hex_digit_def Let_def word_le_nat_alt unat_word_ariths unat_of_nat)

definition uri_char :: "byte \<Rightarrow> bytes" where
  "uri_char c = (case uriencode_map c of Some e \<Rightarrow> e | None \<Rightarrow> [c])"

lemma length_uri_char: "1 \<le> length (uri_char c) \<and> length (uri_char c) \<le> 3"
  by (simp add: uri_char_def uriencode_map_def)

lemma uridecode_uri_char: "uridecode (uri_char c @ s) = c # uridecode s"
proof -
  have "unat c div 16 < 16" using unat_bound [of c] by (simp add: less_mult_imp_div_less)
  moreover have "of_nat (unat c div 16 * 16 + unat c mod 16) = c"
    by (simp only: div_mult_mod_eq) simp
  then have "of_nat (unat c div 16) * 16 + of_nat (unat c mod 16) = c"
    by (simp only: of_nat_add of_nat_mult of_nat_numeral)
  ultimately show ?thesis
    by (auto simp: uri_char_def uriencode_map_def digit_val_hex_digit isalnum_def word_le_nat_alt)
qed

lemma uriencode_loop_Some:
  "uriencode_loop src dst n = Some out \<Longrightarrow>
     out = dst @ concat (map uri_char src) \<and> (src \<noteq> [] \<longrightarrow> length out < n)"
proof (induction src dst n rule: uriencode_loop.induct)
  case (2 c src dst n)
  then have ok: "length dst + 4 \<le> n"
    and rec: "uriencode_loop src (dst @ uri_char c) n = Some out"
    by (auto simp: uri_char_def split: if_splits)
  have "out = (dst @ uri_char c) @ concat (map uri_char src) \<and> (src \<noteq> [] \<longrightarrow> length out < n)"
    using "2.IH" ok rec by (auto simp: uri_char_def [symmetric])
  then show ?case using ok length_uri_char [of c] by (cases src) auto
qed simp

lemma uriencode_loop_total:
  "length dst + 3 * length src + 1 \<le> n \<Longrightarrow> uriencode_loop src dst n \<noteq> None"
proof (induction src dst n rule: uriencode_loop.induct)
  case (2 c src dst n)
  then show ?case using length_uri_char [of c] by (simp add: uri_char_def [symmetric])
qed simp

lemma uridecode_concat: "uridecode (concat (map uri_char src)) = src"
  by (induction src) (simp_all add: uridecode_uri_char)

text \<open>Four bytes must be free in front of every source byte: three for its encoding and one for the NUL.\<close>

lemma uriencode_loop_fits:
  "uriencode_loop src dst n \<noteq> None \<longleftrightarrow> (\<forall>i < length src. length (dst @ concat (map uri_char (take i src))) + 4 \<le> n)"
proof (induction src dst n rule: uriencode_loop.induct)
  case (2 c src dst n)
  have "(\<forall>i < length (c # src). length (dst @ concat (map uri_char (take i (c # src)))) + 4 \<le> n) \<longleftrightarrow>
      length dst + 4 \<le> n \<and> (\<forall>i < length src. length ((dst @ uri_char c) @ concat (map uri_char (take i src))) + 4 \<le> n)"
    by (simp add: All_less_Suc2)
  then show ?case using "2.IH" by (auto simp: uri_char_def [symmetric])
qed simp

text \<open>
  C23. \<^verbatim>\<open>uriencode\<close> never writes past its destination, NUL included, and percent-decoding its output
  gives back the source. It succeeds exactly when, in front of each byte of the source, the destination has room for three more bytes and a NUL
  behind what the bytes before it are encoded to; so a destination of \<^verbatim>\<open>KEY_MAX_URI_ENCODED_LENGTH\<close> (751) bytes is
  enough for every key of at most \<^verbatim>\<open>KEY_MAX_LENGTH\<close> (250) bytes.
\<close>

theorem uriencode_correct:
  assumes "0 < dstlen"
  shows "(\<forall>out. uriencode src dstlen = Some out \<longrightarrow> uridecode out = src \<and> length out < dstlen) \<and>
    (uriencode src dstlen \<noteq> None \<longleftrightarrow> (\<forall>i < length src. length (concat (map uri_char (take i src))) + 4 \<le> dstlen)) \<and>
    (3 * length src + 1 \<le> dstlen \<longrightarrow> uriencode src dstlen \<noteq> None) \<and>
    (length src \<le> 250 \<longrightarrow> uriencode src 751 \<noteq> None)"
proof (intro conjI allI impI)
  fix out assume out: "uriencode src dstlen = Some out"
  then have "out = concat (map uri_char src)" and len: "src \<noteq> [] \<longrightarrow> length out < dstlen"
    using uriencode_loop_Some [of src "[]" dstlen out] by (auto simp: uriencode_def)
  then show "uridecode out = src" by (simp add: uridecode_concat)
  show "length out < dstlen"
    using len assms \<open>out = concat (map uri_char src)\<close> by (cases src) auto
next
  show "uriencode src dstlen \<noteq> None \<longleftrightarrow> (\<forall>i < length src. length (concat (map uri_char (take i src))) + 4 \<le> dstlen)"
    using uriencode_loop_fits [of src "[]" dstlen] by (simp add: uriencode_def)
  show "uriencode src dstlen \<noteq> None" if "3 * length src + 1 \<le> dstlen"
    using that uriencode_loop_total [of "[]" src dstlen] by (simp add: uriencode_def)
  show "uriencode src 751 \<noteq> None" if "length src \<le> 250"
    using that uriencode_loop_total [of "[]" src 751] by (simp add: uriencode_def)
qed

theorem uriencode_correct_witness:
  "uriencode [97, 32] 5 = Some [97, 37, 50, 48] \<and> uridecode [97, 37, 50, 48] = [97, 32] \<and> uriencode [97, 32] 4 = None"
proof -
  have enc: "uriencode [97, 32] 5 = Some [97, 37, 50, 48]" "uriencode [97, 32] 4 = None"
    by (simp_all add: uriencode_def uriencode_map_def isalnum_def hex_digit_def)
  then show ?thesis using uriencode_correct [of 5 "[97, 32]"] by simp
qed

subsection \<open>Copying, comparing, swapping\<close>

lemma safe_strcpy_loop_eq:
  "safe_strcpy_loop src n dst = (dst @ take n src @ [0], length src \<le> n)"
  by (induction src n dst rule: safe_strcpy_loop.induct) auto

lemma or_xor_zero: "d OR (x XOR y) = 0 \<longleftrightarrow> d = 0 \<and> x = y" for d x y :: byte
  by (auto simp: bit_eq_iff bit_or_iff bit_xor_iff)

lemma memcmp_delta_zero:
  "memcmp_delta a b x n d = 0 \<longleftrightarrow> d = 0 \<and> (\<forall>i < n. a ! (x + i) = b ! (x + i))"
proof (induction n arbitrary: x d)
  case (Suc n)
  have "(\<forall>i < Suc n. a ! (x + i) = b ! (x + i)) \<longleftrightarrow>
      a ! x = b ! x \<and> (\<forall>i < n. a ! (Suc x + i) = b ! (Suc x + i))"
    by (auto simp: less_Suc_eq_0_disj)
  then show ?case by (simp add: Suc.IH or_xor_zero)
qed simp

lemma and_255: "v AND 255 = take_bit 8 v" for v :: uint64
  by (simp add: take_bit_eq_mask mask_eq_exp_minus_1)

lemma bit_swap64_step:
  fixes rv v :: uint64
  assumes "m < 64"
  shows "bit (push_bit 8 rv OR (v AND 255)) m \<longleftrightarrow> (if m < 8 then bit v m else bit rv (m - 8))"
  using assms by (auto simp: and_255 bit_or_iff bit_take_bit_iff bit_push_bit_iff)

lemma bit_swap64_loop:
  assumes "n < 64"
  shows "bit (swap64_loop i rv v) n \<longleftrightarrow>
    (if n < 8 * i then bit v (8 * (i - 1 - n div 8) + n mod 8) else bit rv (n - 8 * i))"
proof (induction i arbitrary: rv v)
  case (Suc i)
  show ?case
  proof (cases "n < 8 * i")
    case True
    then have "8 + 8 * (i - 1 - n div 8) = 8 * (i - n div 8)" by auto
    with True show ?thesis
      using Suc by (simp add: bit_drop_bit_eq) (metis add.assoc)
  next
    case False
    then have "bit (swap64_loop (Suc i) rv v) n \<longleftrightarrow>
      (if n - 8 * i < 8 then bit v (n - 8 * i) else bit rv (n - 8 * i - 8))"
      using assms bit_swap64_step [of "n - 8 * i" rv v] Suc by simp
    moreover have "n div 8 = i \<and> n mod 8 = n - 8 * i" if "n < 8 * Suc i"
    proof -
      have "n div 8 = i" using that False by (intro div_nat_eqI) auto
      then show ?thesis by (simp add: modulo_nat_def mult.commute)
    qed
    ultimately show ?thesis using False by (auto simp: not_less add.commute)
  qed
qed simp

lemma bit_mc_swap64: "n < 64 \<Longrightarrow> bit (mc_swap64 v) n \<longleftrightarrow> bit v (8 * (7 - n div 8) + n mod 8)"
  by (simp add: mc_swap64_def bit_swap64_loop)

lemma mc_swap64_involution: "mc_swap64 (mc_swap64 v) = v"
proof (rule bit_word_eqI)
  fix n assume "n < LENGTH(64)"
  then have n: "n < 64" by simp
  define m where "m = 8 * (7 - n div 8) + n mod 8"
  have q: "n div 8 < 8" and r: "n mod 8 < 8" using n by (simp_all add: less_mult_imp_div_less)
  then have "m < 64" unfolding m_def by linarith
  moreover have "m div 8 = 7 - n div 8" and "m mod 8 = n mod 8"
    unfolding m_def using r by simp_all
  then have "8 * (7 - m div 8) + m mod 8 = n" using q by simp
  ultimately have "m < 64" "8 * (7 - m div 8) + m mod 8 = n" .
  then show "bit (mc_swap64 (mc_swap64 v)) n = bit v n"
    using n bit_mc_swap64 [of n "mc_swap64 v"] bit_mc_swap64 [of m v] by (simp add: m_def)
qed

text \<open>
  The helpers on memory do what they promise: \<^verbatim>\<open>safe_strcpy\<close> with \<^verbatim>\<open>dstmax > 0\<close> writes at most
  \<^verbatim>\<open>dstmax\<close> bytes, the NUL last, and reports whether the whole source was copied;
  \<^verbatim>\<open>safe_memcmp\<close> decides equality of the first \<^verbatim>\<open>len\<close> bytes although it never stops early;
  \<^verbatim>\<open>ntohll\<close> and \<^verbatim>\<open>htonll\<close> are inverse to each other.
\<close>

theorem memory_helpers_correct:
  assumes "dstmax \<noteq> 0" and "len \<le> length a" "len \<le> length b"
  shows "safe_strcpy src dstmax = (take (unat dstmax - 1) src @ [0], length src < unat dstmax) \<and>
    length (fst (safe_strcpy src dstmax)) \<le> unat dstmax \<and>
    (safe_memcmp a b len \<longleftrightarrow> take len a = take len b) \<and>
    ntohll (htonll v) = v \<and> htonll (ntohll v) = v"
proof -
  have "unat (dstmax - 1) = unat dstmax - 1" and "0 < unat dstmax"
    using assms(1) by (simp_all add: unat_minus_one unat_gt_0)
  then have "safe_strcpy src dstmax = (take (unat dstmax - 1) src @ [0], length src < unat dstmax)"
    by (auto simp: safe_strcpy_def safe_strcpy_loop_eq)
  moreover have "safe_memcmp a b len \<longleftrightarrow> take len a = take len b"
    using assms(2,3) by (auto simp: safe_memcmp_def memcmp_delta_zero list_eq_iff_nth_eq)
  ultimately show ?thesis
    using \<open>0 < unat dstmax\<close> by (auto simp: ntohll_def htonll_def mc_swap64_involution)
qed

theorem memory_helpers_correct_witness:
  "safe_strcpy [97, 98, 99] 3 = ([97, 98, 0], False) \<and> \<not> safe_memcmp [1, 2] [1, 3] 2 \<and>
   ntohll (htonll 258) = 258"
  using memory_helpers_correct [of 3 2 "[1, 2]" "[1, 3]" "[97, 98, 99]" 258] by simp

end
