(* ===== verification/Slabs_Alloc.thy ===== *)
theory Slabs_Alloc
  imports Assoc_Table Util_C
begin

text \<open>
  Model of the allocator of \<^verbatim>\<open>slabs.c\<close>: size classes, pages, the free lists threaded through the item
  headers, the global page pool and the memory limit. Operations run under \<^verbatim>\<open>slabs_lock\<close>, so each is
  one step. The results of \<^verbatim>\<open>malloc\<close> and \<^verbatim>\<open>realloc\<close> are taken from supplies in the state, in the
  order of the calls (an exhausted supply fails). The growth factor of the sizes is a \<^verbatim>\<open>double\<close> in the
  source: the two places that use it are parameters.
\<close>

section \<open>State\<close>

text \<open>The settings the storage layer reads.\<close>

record settings =
  maxbytes :: uint64
  oldest_live :: uint32
  oldest_cas :: uint64
  evict_to_free :: int
  chunk_size :: int
  use_cas :: bool
  item_size_max :: int
  slab_chunk_size_max :: int
  slab_page_size :: int
  lru_maintainer_thread :: bool
  lru_segmented :: bool
  slab_reassign :: bool
  slab_automove :: int
  tail_repair_time :: int
  hot_lru_pct :: int
  warm_lru_pct :: int
  temp_lru :: bool
  temporary_ttl :: uint32

record slabclass_t =
  sc_size :: uint32
  perslab :: uint32
  sc_slots :: addr
  sl_curr :: uint32
  slabs_n :: uint32
  slab_list :: "addr list"
  list_size :: uint32

record slabs = assoc +
  settings :: settings
  current_time :: uint32
  slabclass :: "slabclass_t list"
  mem_limit :: uint64
  mem_malloced :: uint64
  mem_limit_reached :: bool
  power_largest :: nat
  mem_base :: addr
  mem_current :: addr
  mem_avail :: uint64
  malloc_supply :: "addr list"
  realloc_supply :: "bool list"

abbreviation (input) POWER_SMALLEST :: nat where "POWER_SMALLEST \<equiv> 1"
abbreviation (input) MAX_NUMBER_OF_SLAB_CLASSES :: nat where "MAX_NUMBER_OF_SLAB_CLASSES \<equiv> 64"
abbreviation (input) SLAB_GLOBAL_PAGE_POOL :: nat where "SLAB_GLOBAL_PAGE_POOL \<equiv> 0"
abbreviation (input) SLABS_ALLOC_NO_NEWPAGE :: uint32 where "SLABS_ALLOC_NO_NEWPAGE \<equiv> 1"

abbreviation cls :: "'a slabs_scheme \<Rightarrow> nat \<Rightarrow> slabclass_t" where
  "cls s cid \<equiv> slabclass s ! cid"

definition upd_cls :: "nat \<Rightarrow> (slabclass_t \<Rightarrow> slabclass_t) \<Rightarrow> 'a slabs_scheme \<Rightarrow> 'a slabs_scheme" where
  "upd_cls cid f s = s\<lparr>slabclass := (slabclass s)[cid := f (slabclass s ! cid)]\<rparr>"

section \<open>Size classes\<close>

text \<open>
  The search of \<^verbatim>\<open>slabs_clsid\<close>. The class starts at \<^verbatim>\<open>POWER_SMALLEST\<close> and goes up by one, so the test for
  equality with \<^verbatim>\<open>power_largest\<close> is the first one that the class reaches.
\<close>

function clsid_loop :: "'a slabs_scheme \<Rightarrow> uint64 \<Rightarrow> nat \<Rightarrow> nat" where
  "clsid_loop s sz res =
    (if sz > ucast (sc_size (cls s res))
     then if res \<ge> power_largest s then power_largest s else clsid_loop s sz (res + 1)
     else res)"
  by pat_completeness auto
termination by (relation "measure (\<lambda>(s, sz, res). power_largest s - res)") auto

declare clsid_loop.simps [simp del]

definition slabs_clsid_of :: "'a slabs_scheme \<Rightarrow> uint64 \<Rightarrow> nat" where
  "slabs_clsid_of s sz =
    (if sz = 0 \<or> sz > word_of_int (item_size_max (settings s)) then 0
     else clsid_loop s sz POWER_SMALLEST)"

definition slabs_size :: "'a slabs_scheme \<Rightarrow> nat \<Rightarrow> uint32" where
  "slabs_size s clsid = sc_size (cls s clsid)"

section \<open>Free lists and pages\<close>

text \<open>The C library.\<close>

definition malloc :: "'a slabs_scheme \<Rightarrow> 'a slabs_scheme \<times> addr" where
  "malloc s = (case malloc_supply s of [] \<Rightarrow> (s, NULL) | p # ps \<Rightarrow> (s\<lparr>malloc_supply := ps\<rparr>, p))"

definition realloc :: "'a slabs_scheme \<Rightarrow> 'a slabs_scheme \<times> bool" where
  "realloc s = (case realloc_supply s of [] \<Rightarrow> (s, False) | b # bs \<Rightarrow> (s\<lparr>realloc_supply := bs\<rparr>, b))"

text \<open>\<^verbatim>\<open>memset(ptr, 0, len)\<close> on item memory.\<close>

definition wipe :: "addr \<Rightarrow> nat \<Rightarrow> 'a mem_scheme \<Rightarrow> 'a mem_scheme" where
  "wipe p len s = s\<lparr>heap := (\<lambda>a. if p \<le> a \<and> a < p + len then item0 else heap s a)\<rparr>"

text \<open>Pushing a chunk on the free list of a class, the code that three routines share.\<close>

definition freelist_push :: "nat \<Rightarrow> addr \<Rightarrow> 'a slabs_scheme \<Rightarrow> 'a slabs_scheme" where
  "freelist_push cid it s =
    (let s1 = upd_item it (it_prev_update (\<lambda>_. NULL)) s;
         s2 = upd_item it (it_next_update (\<lambda>_. sc_slots (cls s1 cid))) s1;
         nx = it_next (heap s2 it);
         s3 = (if nx \<noteq> NULL then upd_item nx (it_prev_update (\<lambda>_. it)) s2 else s2)
     in upd_cls cid (\<lambda>p. p\<lparr>sc_slots := it, sl_curr := sl_curr p + 1\<rparr>) s3)"

definition grow_slab_list :: "nat \<Rightarrow> 'a slabs_scheme \<Rightarrow> 'a slabs_scheme \<times> bool" where
  "grow_slab_list cid s =
    (let p = cls s cid in
     if slabs_n p = list_size p
     then let new_size = (if list_size p \<noteq> 0 then list_size p * 2 else 16);
              (s1, ok) = realloc s
          in if \<not> ok then (s1, False)
             else (upd_cls cid (\<lambda>p. p\<lparr>list_size := new_size,
                      slab_list := slab_list p @ replicate (unat new_size - length (slab_list p)) NULL\<rparr>) s1, True)
     else (s, True))"

text \<open>\<^verbatim>\<open>p->slab_list[p->slabs++] = page\<close>\<close>

definition add_page :: "nat \<Rightarrow> addr \<Rightarrow> 'a slabs_scheme \<Rightarrow> 'a slabs_scheme" where
  "add_page cid page = upd_cls cid (\<lambda>p. p\<lparr>slab_list := (slab_list p)[unat (slabs_n p) := page],
     slabs_n := slabs_n p + 1\<rparr>)"

definition get_page_from_global_pool :: "'a slabs_scheme \<Rightarrow> 'a slabs_scheme \<times> addr" where
  "get_page_from_global_pool s =
    (let p = cls s SLAB_GLOBAL_PAGE_POOL in
     if slabs_n p < 1 then (s, NULL)
     else (upd_cls SLAB_GLOBAL_PAGE_POOL (\<lambda>p. p\<lparr>slabs_n := slabs_n p - 1\<rparr>) s,
           slab_list p ! unat (slabs_n p - 1)))"

definition align_up :: "uint64 \<Rightarrow> uint64" where
  "align_up sz = (if sz mod 8 \<noteq> 0 then sz + (8 - sz mod 8) else sz)"

definition memory_allocate :: "uint64 \<Rightarrow> 'a slabs_scheme \<Rightarrow> 'a slabs_scheme \<times> addr" where
  "memory_allocate sz s =
    (if mem_base s = NULL
     then let (s1, ret) = malloc s in (s1\<lparr>mem_malloced := mem_malloced s1 + sz\<rparr>, ret)
     else if sz > mem_avail s then (s, NULL)
     else let sz' = align_up sz
          in (s\<lparr>mem_current := mem_current s + unat sz',
                mem_avail := (if sz' < mem_avail s then mem_avail s - sz' else 0),
                mem_malloced := mem_malloced s + sz'\<rparr>, mem_current s))"

text \<open>The chunk loop of \<^verbatim>\<open>do_slabs_free_chunked\<close> and the two free routines.\<close>

partial_function (option) free_chunks_loop :: "addr \<Rightarrow> 'a slabs_scheme \<Rightarrow> 'a slabs_scheme option" where
  "free_chunks_loop chunk s =
    (if chunk = NULL then Some s
     else let s1 = upd_item chunk (it_flags_update (\<lambda>_. ITEM_SLABBED)) s;
              cid = unat (slabs_clsid (heap s1 chunk));
              next_chunk = it_next (heap s1 chunk)
          in free_chunks_loop next_chunk (freelist_push cid chunk s1))"

definition do_slabs_free_chunked :: "addr \<Rightarrow> 'a slabs_scheme \<Rightarrow> 'a slabs_scheme option" where
  "do_slabs_free_chunked it s =
    (let chunk = ITEM_schunk it (heap s it);
         s1 = upd_item it (\<lambda>i. i\<lparr>it_flags := ITEM_SLABBED, it_prev := NULL\<rparr>) s;
         orig = nkey (heap s1 chunk);
         s2 = upd_item it (slabs_clsid_update (\<lambda>_. orig)) s1;
         nxt = it_next (heap s2 chunk);
         s3 = (if nxt \<noteq> NULL then upd_item nxt (it_prev_update (\<lambda>_. NULL)) s2 else s2)
     in free_chunks_loop nxt (freelist_push (unat orig) it s3))"

definition do_slabs_free :: "addr \<Rightarrow> nat \<Rightarrow> 'a slabs_scheme \<Rightarrow> 'a slabs_scheme option" where
  "do_slabs_free ptr cid s =
    (if cid < POWER_SMALLEST \<or> cid > power_largest s then Some s
     else if \<not> has_flag ITEM_CHUNKED (heap s ptr)
     then Some (freelist_push cid ptr
            (upd_item ptr (\<lambda>i. i\<lparr>it_flags := ITEM_SLABBED, slabs_clsid := of_nat cid\<rparr>) s))
     else do_slabs_free_chunked ptr s)"

text \<open>Cutting a page into free chunks, from the first to the last.\<close>

fun split_loop :: "nat \<Rightarrow> addr \<Rightarrow> nat \<Rightarrow> 'a slabs_scheme \<Rightarrow> 'a slabs_scheme option" where
  "split_loop 0 ptr cid s = Some s"
| "split_loop (Suc x) ptr cid s =
    (case do_slabs_free ptr cid s of None \<Rightarrow> None
     | Some s1 \<Rightarrow> split_loop x (ptr + unat (sc_size (cls s1 cid))) cid s1)"

definition split_slab_page_into_freelist :: "addr \<Rightarrow> nat \<Rightarrow> 'a slabs_scheme \<Rightarrow> 'a slabs_scheme option" where
  "split_slab_page_into_freelist ptr cid s = split_loop (unat (perslab (cls s cid))) ptr cid s"

definition page_len :: "'a slabs_scheme \<Rightarrow> nat \<Rightarrow> int" where
  "page_len s cid =
    (if slab_reassign (settings s) \<or> slab_chunk_size_max (settings s) \<noteq> slab_page_size (settings s)
     then slab_page_size (settings s)
     else sint (sc_size (cls s cid) * perslab (cls s cid)))"

text \<open>\<open>None\<close> is a walk that does not end; the boolean is the value returned.\<close>

definition do_slabs_newslab :: "nat \<Rightarrow> 'a slabs_scheme \<Rightarrow> ('a slabs_scheme \<times> bool) option" where
  "do_slabs_newslab cid s =
    (let len = page_len s cid in
     if mem_limit s \<noteq> 0 \<and> mem_malloced s + word_of_int len > mem_limit s \<and> slabs_n (cls s cid) > 0 \<and>
        slabs_n (cls s SLAB_GLOBAL_PAGE_POOL) = 0
     then Some (s\<lparr>mem_limit_reached := True\<rparr>, False)
     else let (s1, ok) = grow_slab_list cid s in
     if \<not> ok then Some (s1, False)
     else let (s2, p0) = get_page_from_global_pool s1;
              (s3, ptr) = (if p0 = NULL then memory_allocate (word_of_int len) s2 else (s2, p0))
          in if ptr = NULL then Some (s3, False)
             else let s4 = wipe ptr (unat (word_of_int len :: uint64)) s3
                  in (case split_slab_page_into_freelist ptr cid s4 of None \<Rightarrow> None
                      | Some s5 \<Rightarrow> Some (add_page cid ptr s5, True)))"

text \<open>Taking the first chunk of a free list.\<close>

definition freelist_pop :: "nat \<Rightarrow> 'a slabs_scheme \<Rightarrow> 'a slabs_scheme" where
  "freelist_pop cid s1 =
    (let it = sc_slots (cls s1 cid);
         nx = it_next (heap s1 it);
         s2 = upd_cls cid (\<lambda>p. p\<lparr>sc_slots := nx\<rparr>) s1;
         s3 = (if nx \<noteq> NULL then upd_item nx (it_prev_update (\<lambda>_. NULL)) s2 else s2);
         s4 = upd_item it (\<lambda>i. i\<lparr>it_flags := it_flags i AND NOT ITEM_SLABBED, refcount := 1\<rparr>) s3
     in upd_cls cid (\<lambda>p. p\<lparr>sl_curr := sl_curr p - 1\<rparr>) s4)"

definition do_slabs_alloc :: "uint64 \<Rightarrow> nat \<Rightarrow> uint32 \<Rightarrow> 'a slabs_scheme \<Rightarrow> ('a slabs_scheme \<times> addr) option" where
  "do_slabs_alloc sz cid flags s =
    (if cid < POWER_SMALLEST \<or> cid > power_largest s then Some (s, NULL)
     else case (if sl_curr (cls s cid) = 0 \<and> flags \<noteq> SLABS_ALLOC_NO_NEWPAGE
                then do_slabs_newslab cid s else Some (s, True)) of
       None \<Rightarrow> None
     | Some (s1, _) \<Rightarrow>
        if sl_curr (cls s1 cid) \<noteq> 0 then Some (freelist_pop cid s1, sc_slots (cls s1 cid))
        else Some (s1, NULL))"

abbreviation slabs_alloc :: "uint64 \<Rightarrow> nat \<Rightarrow> uint32 \<Rightarrow> 'a slabs_scheme \<Rightarrow> ('a slabs_scheme \<times> addr) option" where
  "slabs_alloc \<equiv> do_slabs_alloc"

abbreviation slabs_free :: "addr \<Rightarrow> nat \<Rightarrow> 'a slabs_scheme \<Rightarrow> 'a slabs_scheme option" where
  "slabs_free \<equiv> do_slabs_free"

section \<open>Start-up, limits and statistics\<close>

text \<open>Warm restart: re-registering a chunk of reused memory. The value returned is the chunk size, all ones for an unused page.\<close>

definition slabs_fixup :: "addr \<Rightarrow> int \<Rightarrow> 'a slabs_scheme \<Rightarrow> 'a slabs_scheme \<times> uint32" where
  "slabs_fixup chunk border s =
    (let cid = unat (ITEM_clsid (heap s chunk)) in
     if cid = 0
     then (add_page SLAB_GLOBAL_PAGE_POOL chunk (fst (grow_slab_list SLAB_GLOBAL_PAGE_POOL s)), - 1)
     else let s1 = (if border = 0 then add_page cid chunk (fst (grow_slab_list cid s)) else s);
              s2 = (if it_flags (heap s1 chunk) = ITEM_SLABBED then freelist_push cid chunk s1 else s1)
          in (s2, sc_size (cls s2 cid)))"

text \<open>
  The loop that sizes the classes. \<open>at_max\<close> is the test \<^verbatim>\<open>size >= settings.slab_chunk_size_max / factor\<close>
  and \<open>times_factor\<close> the assignment \<^verbatim>\<open>size *= factor\<close>; \<open>ss\<close> is the list of sizes given on the command
  line, if any. The result is the loop variable at the exit.
\<close>

definition align32 :: "uint32 \<Rightarrow> uint32" where
  "align32 sz = (if sz mod 8 \<noteq> 0 then sz + (8 - sz mod 8) else sz)"

function init_loop :: "(uint32 \<Rightarrow> bool) \<Rightarrow> (uint32 \<Rightarrow> uint32) \<Rightarrow> uint32 list option \<Rightarrow> nat \<Rightarrow> uint32 \<Rightarrow>
    'a slabs_scheme \<Rightarrow> 'a slabs_scheme \<times> nat" where
  "init_loop at_max times_factor ss i sz s =
    (if i \<ge> MAX_NUMBER_OF_SLAB_CLASSES - 1 then (s, i)
     else if (case ss of Some l \<Rightarrow> l ! (i - 1) = 0 | None \<Rightarrow> at_max sz) then (s, i)
     else let sz1 = align32 (case ss of Some l \<Rightarrow> l ! (i - 1) | None \<Rightarrow> sz);
              s1 = upd_cls i (\<lambda>p. p\<lparr>sc_size := sz1,
                     perslab := word_of_int (slab_page_size (settings s)) div sz1\<rparr>) s;
              sz2 = (if ss = None then times_factor sz1 else sz1)
          in init_loop at_max times_factor ss (i + 1) sz2 s1)"
  by pat_completeness auto
termination by (relation "measure (\<lambda>(_, _, _, i, _, _). 64 - i)") auto

declare init_loop.simps [simp del]

definition slabclass0 :: slabclass_t where
  "slabclass0 = \<lparr>sc_size = 0, perslab = 0, sc_slots = NULL, sl_curr = 0, slabs_n = 0, slab_list = [], list_size = 0\<rparr>"

text \<open>One page for every class; the boolean is false when the server exits because a page is missing.\<close>

function preallocate_loop :: "nat \<Rightarrow> nat \<Rightarrow> nat \<Rightarrow> 'a slabs_scheme \<Rightarrow> ('a slabs_scheme \<times> bool) option" where
  "preallocate_loop i prealloc maxslabs s =
    (if i \<ge> MAX_NUMBER_OF_SLAB_CLASSES \<or> prealloc + 1 > maxslabs then Some (s, True)
     else case do_slabs_newslab i s of None \<Rightarrow> None
       | Some (s1, ok) \<Rightarrow> if \<not> ok then Some (s1, False) else preallocate_loop (i + 1) (prealloc + 1) maxslabs s1)"
  by pat_completeness auto
termination by (relation "measure (\<lambda>(i, _, _, _). 64 - i)") auto

declare preallocate_loop.simps [simp del]

definition slabs_preallocate :: "nat \<Rightarrow> 'a slabs_scheme \<Rightarrow> ('a slabs_scheme \<times> bool) option" where
  "slabs_preallocate maxslabs s = preallocate_loop POWER_SMALLEST 0 maxslabs s"

text \<open>
  \<open>large\<close> is what \<^verbatim>\<open>alloc_large_chunk\<close> returns, \<open>ext\<close> the external memory (NULL for none) and \<open>env\<close> the
  value of \<^verbatim>\<open>T_MEMD_INITIAL_MALLOC\<close>, if set.
\<close>

definition slabs_init :: "(uint32 \<Rightarrow> bool) \<Rightarrow> (uint32 \<Rightarrow> uint32) \<Rightarrow> uint64 \<Rightarrow> bool \<Rightarrow> uint32 list option \<Rightarrow> addr \<Rightarrow>
    addr \<Rightarrow> bool \<Rightarrow> bytes option \<Rightarrow> 'a slabs_scheme \<Rightarrow> ('a slabs_scheme \<times> bool) option" where
  "slabs_init at_max times_factor limit prealloc ss large ext reuse_mem env s =
    (let s1 = s\<lparr>mem_limit := limit\<rparr>;
         (s2, do_prealloc) =
           (if prealloc \<and> ext = NULL
            then if large \<noteq> NULL then (s1\<lparr>mem_base := large, mem_current := large, mem_avail := limit\<rparr>, True)
                 else (s1\<lparr>mem_base := large\<rparr>, False)
            else if prealloc \<and> ext \<noteq> NULL
            then if reuse_mem then (s1\<lparr>mem_base := ext, mem_current := ext + unat limit, mem_avail := 0\<rparr>, True)
                 else (s1\<lparr>mem_base := ext, mem_current := ext, mem_avail := limit\<rparr>, True)
            else (s1, False));
         s3 = s2\<lparr>slabclass := replicate MAX_NUMBER_OF_SLAB_CLASSES slabclass0\<rparr>;
         (s4, i) = init_loop at_max times_factor ss POWER_SMALLEST (48 + word_of_int (chunk_size (settings s))) s3;
         s5 = upd_cls i (\<lambda>p. p\<lparr>sc_size := word_of_int (slab_chunk_size_max (settings s)),
                perslab := word_of_int (slab_page_size (settings s) div slab_chunk_size_max (settings s))\<rparr>)
                (s4\<lparr>power_largest := i\<rparr>);
         s6 = (case env of None \<Rightarrow> s5
               | Some t \<Rightarrow> (case safe_strtoll t of (ok, v) \<Rightarrow> if ok then s5\<lparr>mem_malloced := word_of_int v\<rparr> else s5))
     in if do_prealloc \<and> \<not> reuse_mem then slabs_preallocate (power_largest s6) s6 else Some (s6, True))"

text \<open>The 48 bytes of a header zeroed; what lies behind stays.\<close>

definition clear_header :: "item \<Rightarrow> item" where
  "clear_header i = item0\<lparr>cas_f := cas_f i, ikey := ikey i, cflags := cflags i, idata := idata i\<rparr>"

partial_function (option) prefill_loop :: "'a slabs_scheme \<Rightarrow> 'a slabs_scheme option" where
  "prefill_loop s =
    (if mem_malloced s < mem_limit s
     then case memory_allocate (word_of_int (slab_page_size (settings s))) s of (s1, ptr) \<Rightarrow>
       if ptr = NULL then Some s1
       else prefill_loop (add_page SLAB_GLOBAL_PAGE_POOL ptr
              (upd_item ptr clear_header (fst (grow_slab_list SLAB_GLOBAL_PAGE_POOL s1))))
     else Some s)"

definition slabs_prefill_global :: "'a slabs_scheme \<Rightarrow> 'a slabs_scheme option" where
  "slabs_prefill_global s = map_option (\<lambda>s. s\<lparr>mem_limit_reached := True\<rparr>) (prefill_loop s)"

text \<open>
  Giving pages of the global pool back while the limit is exceeded; the pages freed are the second
  result. Each turn takes a page, so the number of pages in the pool bounds the turns; an empty
  pool ends the loop.
\<close>

fun release_loop :: "nat \<Rightarrow> 'a slabs_scheme \<Rightarrow> 'a slabs_scheme \<times> addr list" where
  "release_loop 0 s = (s, [])"
| "release_loop (Suc n) s =
    (if mem_malloced s > mem_limit s
     then case get_page_from_global_pool s of (s1, p) \<Rightarrow>
       if p = NULL then (s1, [])
       else case release_loop n (s1\<lparr>mem_malloced := mem_malloced s1 - word_of_int (slab_page_size (settings s1))\<rparr>) of
         (s2, ps) \<Rightarrow> (s2, p # ps)
     else (s, []))"

definition memory_release :: "'a slabs_scheme \<Rightarrow> 'a slabs_scheme \<times> addr list" where
  "memory_release s =
    (if mem_base s \<noteq> NULL then (s, [])
     else if \<not> slab_reassign (settings s) then (s, [])
     else release_loop (unat (slabs_n (cls s SLAB_GLOBAL_PAGE_POOL))) s)"

definition do_slabs_adjust_mem_limit :: "uint64 \<Rightarrow> 'a slabs_scheme \<Rightarrow> 'a slabs_scheme \<times> bool" where
  "do_slabs_adjust_mem_limit new_mem_limit s =
    (if mem_base s \<noteq> NULL then (s, False)
     else (fst (memory_release (s\<lparr>settings := (settings s)\<lparr>maxbytes := new_mem_limit\<rparr>,
             mem_limit := new_mem_limit, mem_limit_reached := False\<rparr>)), True))"

record slab_stats_automove =
  chunks_per_page :: uint32
  am_chunk_size :: uint32
  free_chunks :: int
  total_pages :: int

definition fill_slab_stats_automove :: "'a slabs_scheme \<Rightarrow> slab_stats_automove list" where
  "fill_slab_stats_automove s =
    map (\<lambda>n. let p = cls s n in
      \<lparr>chunks_per_page = perslab p, am_chunk_size = sc_size p, free_chunks = uint (sl_curr p), total_pages = uint (slabs_n p)\<rparr>)
      [0..<MAX_NUMBER_OF_SLAB_CLASSES]"

definition global_page_pool_size :: "'a slabs_scheme \<Rightarrow> uint32 \<times> bool" where
  "global_page_pool_size s = (slabs_n (cls s SLAB_GLOBAL_PAGE_POOL), mem_malloced s \<ge> mem_limit s)"

definition slabs_available_chunks :: "nat \<Rightarrow> 'a slabs_scheme \<Rightarrow> uint32 \<times> bool \<times> uint32" where
  "slabs_available_chunks cid s = (sl_curr (cls s cid), mem_malloced s \<ge> mem_limit s, perslab (cls s cid))"

section \<open>Free lists\<close>

text \<open>
  The free list of every class is a doubly linked list of as many chunks as its counter says, all
  marked free and owned by the class. \<open>F\<close> gives the chunks of each class in list order.
\<close>

definition class_ok :: "'a slabs_scheme \<Rightarrow> bool" where
  "class_ok s \<longleftrightarrow> length (slabclass s) = 64 \<and> 1 \<le> power_largest s \<and> power_largest s < 64"

definition free_list :: "'a slabs_scheme \<Rightarrow> nat \<Rightarrow> addr list \<Rightarrow> bool" where
  "free_list s cid fl \<longleftrightarrow>
    (\<exists>t. dll (it_next \<circ> heap s) (it_prev \<circ> heap s) (sc_slots (cls s cid)) fl t) \<and>
    unat (sl_curr (cls s cid)) = length fl \<and>
    (\<forall>a \<in> set fl. it_flags (heap s a) = ITEM_SLABBED \<and> unat (slabs_clsid (heap s a)) = cid)"

definition free_ok :: "'a slabs_scheme \<Rightarrow> (nat \<Rightarrow> addr list) \<Rightarrow> bool" where
  "free_ok s F \<longleftrightarrow> class_ok s \<and> (\<forall>cid \<in> {1..power_largest s}. free_list s cid (F cid))"

definition all_free :: "'a slabs_scheme \<Rightarrow> (nat \<Rightarrow> addr list) \<Rightarrow> addr set" where
  "all_free s F = (\<Union>cid \<in> {1..power_largest s}. set (F cid))"

lemma free_listD:
  assumes "free_list s cid fl"
  shows "distinct fl" "NULL \<notin> set fl" "sc_slots (cls s cid) = (if fl = [] then NULL else hd fl)"
  using assms by (auto simp: free_list_def dest: dll_distinct dll_not_NULL dseg_head)

lemma free_disjoint:
  "\<lbrakk>free_list s c fl; free_list s d gl; a \<in> set fl; a \<in> set gl\<rbrakk> \<Longrightarrow> c = d"
  by (auto simp: free_list_def)

lemma free_list_frame:
  assumes "free_list s c fl" and "sc_slots (cls s' c) = sc_slots (cls s c)" "sl_curr (cls s' c) = sl_curr (cls s c)"
    and "\<And>a. a \<in> set fl \<Longrightarrow> it_next (heap s' a) = it_next (heap s a) \<and> it_prev (heap s' a) = it_prev (heap s a) \<and>
      it_flags (heap s' a) = it_flags (heap s a) \<and> slabs_clsid (heap s' a) = slabs_clsid (heap s a)"
  shows "free_list s' c fl"
proof -
  from assms(1) obtain t where "dll (it_next \<circ> heap s) (it_prev \<circ> heap s) (sc_slots (cls s c)) fl t"
    by (auto simp: free_list_def)
  then have "dll (it_next \<circ> heap s') (it_prev \<circ> heap s') (sc_slots (cls s c)) fl t"
    using dseg_cong [of fl "it_next \<circ> heap s" "it_next \<circ> heap s'" "it_prev \<circ> heap s" "it_prev \<circ> heap s'"] assms(4)
    by simp
  with assms show ?thesis by (auto simp: free_list_def)
qed

lemma free_ok_frame:
  assumes "free_ok s F" "slabclass s' = slabclass s" "power_largest s' = power_largest s"
    and "\<And>a. a \<in> all_free s F \<Longrightarrow> heap s' a = heap s a"
  shows "free_ok s' F"
proof -
  have "free_list s' d (F d)" if d: "d \<in> {1..power_largest s}" for d
  proof (rule free_list_frame)
    show "free_list s d (F d)" using assms(1) d by (simp add: free_ok_def)
    have "set (F d) \<subseteq> all_free s F" unfolding all_free_def using d by blast
    with assms(4) show "it_next (heap s' a) = it_next (heap s a) \<and> it_prev (heap s' a) = it_prev (heap s a) \<and>
      it_flags (heap s' a) = it_flags (heap s a) \<and> slabs_clsid (heap s' a) = slabs_clsid (heap s a)"
      if "a \<in> set (F d)" for a using that by auto
  qed (simp_all add: assms(2))
  with assms show ?thesis by (simp add: free_ok_def class_ok_def)
qed

lemma cls_upd_cls:
  "d < length (slabclass s) \<Longrightarrow> cls (upd_cls c f s) d = (if c = d then f (cls s d) else cls s d)"
  by (simp add: upd_cls_def)

lemma upd_cls_fields [simp]:
  "heap (upd_cls c f s) = heap s" "power_largest (upd_cls c f s) = power_largest s"
  "length (slabclass (upd_cls c f s)) = length (slabclass s)" "settings (upd_cls c f s) = settings s"
  "malloc_supply (upd_cls c f s) = malloc_supply s" "realloc_supply (upd_cls c f s) = realloc_supply s"
  "mem_base (upd_cls c f s) = mem_base s" "mem_limit (upd_cls c f s) = mem_limit s" "mem_malloced (upd_cls c f s) = mem_malloced s"
  by (simp_all add: upd_cls_def)

lemma freelist_push_fields [simp]:
  "power_largest (freelist_push c a s) = power_largest s" "length (slabclass (freelist_push c a s)) = length (slabclass s)"
  "settings (freelist_push c a s) = settings s" "malloc_supply (freelist_push c a s) = malloc_supply s"
  "mem_base (freelist_push c a s) = mem_base s" "mem_malloced (freelist_push c a s) = mem_malloced s"
  by (simp_all add: freelist_push_def Let_def)

lemma freelist_push_cls:
  assumes "d < length (slabclass s)"
  shows "cls (freelist_push c a s) d =
    (if c = d then (cls s d)\<lparr>sc_slots := a, sl_curr := sl_curr (cls s d) + 1\<rparr> else cls s d)"
  using assms by (simp add: freelist_push_def Let_def upd_cls_def)

lemma freelist_push_heap:
  "heap (freelist_push c a s) =
    (let h = (heap s)(a := (heap s a)\<lparr>it_prev := NULL, it_next := sc_slots (cls s c)\<rparr>)
     in if sc_slots (cls s c) = NULL then h
        else h(sc_slots (cls s c) := (h (sc_slots (cls s c)))\<lparr>it_prev := a\<rparr>))"
  by (simp add: freelist_push_def Let_def)

lemma freelist_push_free:
  assumes ok: "free_ok s F" and c: "c \<in> {1..power_largest s}" and a: "a \<noteq> NULL" "a \<notin> all_free s F"
    and fl: "it_flags (heap s a) = ITEM_SLABBED" "unat (slabs_clsid (heap s a)) = c"
    and len: "length (F c) + 1 < 2 ^ 32"
  shows "free_ok (freelist_push c a s) (F(c := a # F c))"
proof -
  have co: "class_ok s" using ok by (simp add: free_ok_def)
  have fc: "free_list s c (F c)" using ok c by (simp add: free_ok_def)
  have na: "a \<notin> set (F d)" if "d \<in> {1..power_largest s}" for d using a(2) that by (auto simp: all_free_def)
  let ?s = "freelist_push c a s" and ?h = "sc_slots (cls s c)"
  have hd: "?h \<noteq> NULL \<Longrightarrow> ?h \<in> set (F c)" using free_listD(3) [OF fc] by (auto split: if_splits)
  have ha: "?h \<noteq> a" using hd na [OF c] a(1) by (cases "?h = NULL") auto
  have hp: "heap ?s b = (if b = a then (heap s a)\<lparr>it_prev := NULL, it_next := ?h\<rparr>
      else if b = ?h \<and> ?h \<noteq> NULL then (heap s b)\<lparr>it_prev := a\<rparr> else heap s b)" for b
    using ha by (auto simp: freelist_push_heap Let_def)
  have lt: "c < length (slabclass s)" using co c by (auto simp: class_ok_def)
  have "free_list ?s d ((F(c := a # F c)) d)" if d: "d \<in> {1..power_largest s}" for d
  proof (cases "d = c")
    case True
    from fc obtain t where dl: "dll (it_next \<circ> heap s) (it_prev \<circ> heap s) ?h (F c) t" by (auto simp: free_list_def)
    have nx: "it_next \<circ> heap ?s = (it_next \<circ> heap s)(a := ?h)"
      and pv: "it_prev \<circ> heap ?s = (if ?h = NULL then (it_prev \<circ> heap s)(a := NULL) else (it_prev \<circ> heap s)(a := NULL, ?h := a))"
      using ha by (auto simp: fun_eq_iff hp)
    have sl: "sc_slots (cls ?s c) = a" "sl_curr (cls ?s c) = sl_curr (cls s c) + 1"
      using lt by (simp_all add: freelist_push_cls)
    have "unat (sl_curr (cls ?s c)) = length (a # F c)"
      using fc len unfolding sl by (subst unat_plus_small) (auto simp: free_list_def)
    moreover have "\<exists>t. dll (it_next \<circ> heap ?s) (it_prev \<circ> heap ?s) (sc_slots (cls ?s c)) (a # F c) t"
      using dll_push [OF dl na [OF c] a(1)] unfolding nx pv sl by blast
    ultimately show ?thesis using True fc fl by (auto simp: free_list_def hp)
  next
    case False
    have fd: "free_list s d (F d)" using ok d by (simp add: free_ok_def)
    have ne: "b \<noteq> a \<and> (?h \<noteq> NULL \<longrightarrow> b \<noteq> ?h)" if "b \<in> set (F d)" for b
      using that na [OF d] hd free_disjoint [OF fd fc] False by blast
    have "free_list ?s d (F d)"
    proof (rule free_list_frame [OF fd])
      show "sc_slots (cls ?s d) = sc_slots (cls s d)" "sl_curr (cls ?s d) = sl_curr (cls s d)"
        using co d False by (auto simp: freelist_push_cls class_ok_def)
    qed (use ne in \<open>auto simp: hp\<close>)
    with False show ?thesis by simp
  qed
  with co show ?thesis by (auto simp: free_ok_def class_ok_def)
qed

lemma freelist_pop_free:
  assumes ok: "free_ok s F" and c: "c \<in> {1..power_largest s}" and F: "F c = a # as"
  shows "free_ok (freelist_pop c s) (F(c := as)) \<and> sc_slots (cls s c) = a \<and>
    heap (freelist_pop c s) a = (heap s a)\<lparr>it_flags := 0, refcount := 1\<rparr> \<and>
    (\<forall>b. b \<notin> set (F c) \<longrightarrow> heap (freelist_pop c s) b = heap s b)"
proof -
  have co: "class_ok s" using ok by (simp add: free_ok_def)
  have "free_list s c (F c)" using ok c by (simp add: free_ok_def)
  then have fc: "free_list s c (a # as)" by (simp only: F)
  from fc obtain t where dl: "dll (it_next \<circ> heap s) (it_prev \<circ> heap s) (sc_slots (cls s c)) (a # as) t"
    and n: "unat (sl_curr (cls s c)) = length (a # as)" by (auto simp: free_list_def)
  then have sl: "sc_slots (cls s c) = a" "a \<noteq> NULL" "it_prev (heap s a) = NULL" by auto
  let ?s = "freelist_pop c s" and ?n = "it_next (heap s a)"
  have di: "distinct (a # as)" by (rule dll_distinct [OF dl])
  have nn: "?n = (if as = [] then NULL else hd as)" using dl by (auto dest: dseg_head)
  then have na: "?n \<noteq> a" "?n \<noteq> NULL \<Longrightarrow> ?n \<in> set as" using di sl(2) by (auto split: if_splits)
  have lt: "c < length (slabclass s)" using co c by (auto simp: class_ok_def)
  have hp: "heap ?s b = (if b = a then (heap s a)\<lparr>it_flags := it_flags (heap s a) AND NOT ITEM_SLABBED, refcount := 1\<rparr>
      else if b = ?n \<and> ?n \<noteq> NULL then (heap s b)\<lparr>it_prev := NULL\<rparr> else heap s b)" for b
    using na(1) by (auto simp: freelist_pop_def Let_def sl)
  have cl: "cls ?s d = (if d = c then (cls s d)\<lparr>sc_slots := ?n, sl_curr := sl_curr (cls s d) - 1\<rparr> else cls s d)"
    if "d < length (slabclass s)" for d
    using that lt by (simp add: freelist_pop_def Let_def upd_cls_def sl)
  have flg: "it_flags (heap s a) = ITEM_SLABBED" using fc by (simp add: free_list_def)
  have "free_list ?s d ((F(c := as)) d)" if d: "d \<in> {1..power_largest s}" for d
  proof (cases "d = c")
    case True
    have nx: "it_next \<circ> heap ?s = it_next \<circ> heap s" and pv: "it_prev \<circ> heap ?s = (if ?n = NULL then it_prev \<circ> heap s else (it_prev \<circ> heap s)(?n := NULL))"
      using na(1) by (auto simp: fun_eq_iff hp)
    have "\<exists>t. dll (it_next \<circ> heap ?s) (it_prev \<circ> heap ?s) ?n as t"
      using dll_remove [of "it_next \<circ> heap s" "it_prev \<circ> heap s" a "[]" a as t] dl sl unfolding nx pv by auto
    moreover have "unat (sl_curr (cls s c) - 1) = length as" using n by (simp add: unat_minus_le)
    ultimately show ?thesis using True lt fc di by (auto simp: free_list_def cl hp)
  next
    case False
    have fd: "free_list s d (F d)" using ok d by (simp add: free_ok_def)
    have "d < length (slabclass s)" using co d by (auto simp: class_ok_def)
    moreover have "b \<noteq> a \<and> (?n \<noteq> NULL \<longrightarrow> b \<noteq> ?n)" if "b \<in> set (F d)" for b
      using that na(2) free_disjoint [OF fd fc] False by (metis list.set_intros)
    ultimately have "free_list ?s d (F d)" using False by (intro free_list_frame [OF fd]) (auto simp: cl hp)
    with False show ?thesis by simp
  qed
  moreover have "class_ok ?s" "power_largest ?s = power_largest s"
    using co by (simp_all add: freelist_pop_def Let_def class_ok_def)
  moreover have "b \<notin> set (F c) \<Longrightarrow> heap ?s b = heap s b" for b using na(2) F by (auto simp: hp)
  ultimately show ?thesis using sl flg by (auto simp: free_ok_def hp)
qed

section \<open>Cutting pages\<close>

text \<open>What a class keeps while chunks come and go: its geometry and its pages.\<close>

definition geo :: "slabclass_t \<Rightarrow> slabclass_t" where
  "geo p = p\<lparr>sc_slots := NULL, sl_curr := 0\<rparr>"

lemma geo_fields:
  assumes "geo p = geo q"
  shows "sc_size p = sc_size q" "perslab p = perslab q" "slabs_n p = slabs_n q" "slab_list p = slab_list q"
    "list_size p = list_size q"
  using assms by (cases p; cases q; simp add: geo_def)+

definition chunk_at :: "nat \<Rightarrow> addr \<Rightarrow> nat \<Rightarrow> addr" where
  "chunk_at sz p i = p + i * sz"

definition lists_only :: "'a slabs_scheme \<Rightarrow> 'a slabs_scheme \<Rightarrow> bool" where
  "lists_only s s' \<longleftrightarrow> s'\<lparr>heap := (\<lambda>_. item0), slabclass := []\<rparr> = s\<lparr>heap := (\<lambda>_. item0), slabclass := []\<rparr> \<and>
    map geo (slabclass s') = map geo (slabclass s)"

lemma lists_only_refl [simp]: "lists_only s s"
  by (simp add: lists_only_def)

lemma lists_only_trans: "lists_only s s' \<Longrightarrow> lists_only s' s'' \<Longrightarrow> lists_only s s''"
  by (simp add: lists_only_def)

lemma lists_onlyD:
  assumes "lists_only s s'"
  shows "power_largest s' = power_largest s" "length (slabclass s') = length (slabclass s)"
    "settings s' = settings s" "mem_malloced s' = mem_malloced s" "mem_limit s' = mem_limit s" "mem_base s' = mem_base s"
    "malloc_supply s' = malloc_supply s" "realloc_supply s' = realloc_supply s"
    "d < length (slabclass s) \<Longrightarrow> geo (cls s' d) = geo (cls s d)"
proof -
  let ?w = "\<lambda>s. s\<lparr>heap := (\<lambda>_. item0), slabclass := []\<rparr>"
  have e: "?w s' = ?w s" and g: "map geo (slabclass s') = map geo (slabclass s)"
    using assms by (simp_all add: lists_only_def)
  show "power_largest s' = power_largest s" "settings s' = settings s" "mem_malloced s' = mem_malloced s"
    "mem_limit s' = mem_limit s" "mem_base s' = mem_base s" "malloc_supply s' = malloc_supply s"
    "realloc_supply s' = realloc_supply s"
    using arg_cong [OF e, of power_largest] arg_cong [OF e, of settings] arg_cong [OF e, of mem_malloced]
      arg_cong [OF e, of mem_limit] arg_cong [OF e, of mem_base] arg_cong [OF e, of malloc_supply]
      arg_cong [OF e, of realloc_supply] by simp_all
  show len: "length (slabclass s') = length (slabclass s)" using arg_cong [OF g, of length] by simp
  show "geo (cls s' d) = geo (cls s d)" if "d < length (slabclass s)"
    using arg_cong [OF g, of "\<lambda>l. l ! d"] that len by simp
qed

lemma map_geo_update: "geo y = geo (l ! c) \<Longrightarrow> map geo (l[c := y]) = map geo l"
  by (rule nth_equalityI) (auto simp: nth_update_if)

lemma lists_only_push: "lists_only s (freelist_push c a s)"
  by (simp add: lists_only_def freelist_push_def upd_cls_def Let_def map_geo_update geo_def)

lemma lists_only_upd_item [simp]: "lists_only s (upd_item a f s)"
  by (simp add: lists_only_def)

lemma split_loop_free:
  assumes "free_ok s F" "c \<in> {1..power_largest s}" "sz = unat (sc_size (cls s c))" "n \<le> 1 \<or> 0 < sz"
    and "\<forall>i < n. chunk_at sz p i \<noteq> NULL \<and> chunk_at sz p i \<notin> all_free s F \<and> it_flags (heap s (chunk_at sz p i)) = 0"
    and "length (F c) + n < 2 ^ 32"
  shows "\<exists>s'. split_loop n p c s = Some s' \<and>
    free_ok s' (F(c := rev (map (chunk_at sz p) [0..<n]) @ F c)) \<and> lists_only s s' \<and>
    (\<forall>b. b \<notin> chunk_at sz p ` {..<n} \<union> set (F c) \<longrightarrow> heap s' b = heap s b)"
  using assms
proof (induction n arbitrary: p s F)
  case 0
  then show ?case by simp
next
  case (Suc n)
  have c64: "c < length (slabclass s)" "c < 64" using Suc.prems(1,2) by (auto simp: free_ok_def class_ok_def)
  have p0: "p \<noteq> NULL" "p \<notin> all_free s F" "it_flags (heap s p) = 0"
    using Suc.prems(5) by (force simp: chunk_at_def)+
  let ?s1 = "upd_item p (\<lambda>i. i\<lparr>it_flags := ITEM_SLABBED, slabs_clsid := of_nat c\<rparr>) s"
  let ?s2 = "freelist_push c p ?s1" and ?F = "F(c := p # F c)"
  have f1: "free_ok ?s1 F"
    by (rule free_ok_frame [OF Suc.prems(1)]) (use p0(2) in auto)
  have a1: "p \<notin> all_free ?s1 F" using p0(2) by (simp add: all_free_def)
  have a2: "it_flags (heap ?s1 p) = ITEM_SLABBED" "unat (slabs_clsid (heap ?s1 p)) = c"
    using c64(2) by (simp_all add: unat_of_nat)
  have f2: "free_ok ?s2 ?F"
    by (rule freelist_push_free [OF f1 _ p0(1) a1 a2]) (use Suc.prems(2,6) in simp_all)
  have free: "do_slabs_free p c s = Some ?s2"
    using Suc.prems(2) p0(3) by (simp add: do_slabs_free_def has_flag_def)
  have lo: "lists_only s ?s2"
    by (rule lists_only_trans [OF lists_only_upd_item lists_only_push])
  note lod = lists_onlyD [OF lo]
  have sz2: "unat (sc_size (cls ?s2 c)) = sz" using geo_fields(1) [OF lod(9) [OF c64(1)]] Suc.prems(3) by simp
  have hp: "heap ?s2 b = heap s b" if "b \<noteq> p" "b \<notin> set (F c)" for b
  proof -
    have "free_list s c (F c)" using Suc.prems(1,2) by (simp add: free_ok_def)
    from free_listD(3) [OF this] that have "sc_slots (cls s c) \<noteq> NULL \<Longrightarrow> b \<noteq> sc_slots (cls s c)" by (auto split: if_splits)
    with that show ?thesis by (auto simp: freelist_push_heap Let_def)
  qed
  have nxt: "chunk_at sz (p + sz) i = chunk_at sz p (Suc i)" for i by (simp add: chunk_at_def)
  have ne: "chunk_at sz p (Suc i) \<noteq> p" if "i < n" for i using Suc.prems(4) that by (auto simp: chunk_at_def)
  have "\<exists>s'. split_loop n (p + sz) c ?s2 = Some s' \<and>
      free_ok s' (?F(c := rev (map (chunk_at sz (p + sz)) [0..<n]) @ ?F c)) \<and> lists_only ?s2 s' \<and>
      (\<forall>b. b \<notin> chunk_at sz (p + sz) ` {..<n} \<union> set (?F c) \<longrightarrow> heap s' b = heap ?s2 b)"
  proof (rule Suc.IH [OF f2])
    show "c \<in> {1..power_largest ?s2}" "sz = unat (sc_size (cls ?s2 c))" "n \<le> 1 \<or> 0 < sz" "length (?F c) + n < 2 ^ 32"
      using Suc.prems(2,4,6) sz2 by auto
    show "\<forall>i<n. chunk_at sz (p + sz) i \<noteq> NULL \<and> chunk_at sz (p + sz) i \<notin> all_free ?s2 ?F \<and>
        it_flags (heap ?s2 (chunk_at sz (p + sz) i)) = 0"
    proof (intro allI impI)
      fix i assume i: "i < n"
      have n1: "chunk_at sz p (Suc i) \<noteq> NULL" "chunk_at sz p (Suc i) \<notin> all_free s F" "it_flags (heap s (chunk_at sz p (Suc i))) = 0"
        using Suc.prems(5) i by auto
      moreover have "chunk_at sz p (Suc i) \<notin> set (F c)" using n1(2) Suc.prems(2) by (auto simp: all_free_def)
      ultimately show "chunk_at sz (p + sz) i \<noteq> NULL \<and> chunk_at sz (p + sz) i \<notin> all_free ?s2 ?F \<and>
        it_flags (heap ?s2 (chunk_at sz (p + sz) i)) = 0"
        unfolding nxt using ne [OF i] hp by (auto simp: all_free_def split: if_splits)
    qed
  qed
  then obtain s' where s': "split_loop n (p + sz) c ?s2 = Some s'"
      "free_ok s' (?F(c := rev (map (chunk_at sz (p + sz)) [0..<n]) @ ?F c))" "lists_only ?s2 s'"
      "\<forall>b. b \<notin> chunk_at sz (p + sz) ` {..<n} \<union> set (?F c) \<longrightarrow> heap s' b = heap ?s2 b" by blast
  have upt: "[0..<Suc n] = 0 # map Suc [0..<n]" by (simp add: map_Suc_upt upt_conv_Cons)
  have "map (chunk_at sz (p + sz)) [0..<n] = map (chunk_at sz p) (map Suc [0..<n])" by (simp add: nxt o_def)
  then have e: "rev (map (chunk_at sz p) [0..<Suc n]) @ F c = rev (map (chunk_at sz (p + sz)) [0..<n]) @ ?F c"
    unfolding upt by (simp add: chunk_at_def)
  have im: "chunk_at sz p ` {..<Suc n} = insert p (chunk_at sz (p + sz) ` {..<n})"
    unfolding lessThan_Suc_eq_insert_0 nxt [abs_def] by (auto simp: chunk_at_def image_image)
  have "heap s' b = heap s b" if "b \<notin> chunk_at sz p ` {..<Suc n} \<union> set (F c)" for b
    using that s'(4) hp [of b] unfolding im by auto
  moreover have "split_loop (Suc n) p c s = Some s'"
    by (simp only: split_loop.simps free option.case sz2 s'(1))
  moreover have "free_ok s' (F(c := rev (map (chunk_at sz p) [0..<Suc n]) @ F c))"
    using s'(2) unfolding e by (simp only: fun_upd_upd)
  ultimately show ?case using lists_only_trans [OF lo s'(3)] by blast
qed

section \<open>Pages\<close>

definition region :: "addr \<Rightarrow> nat \<Rightarrow> addr set" where
  "region p n = {p..<p + n}"

text \<open>
  Families of pages: \<open>P c\<close> are the pages of owner \<open>c\<close> and \<open>E c\<close> their length. No two of them overlap.
\<close>

definition disj_pages :: "nat set \<Rightarrow> (nat \<Rightarrow> addr list) \<Rightarrow> (nat \<Rightarrow> nat) \<Rightarrow> bool" where
  "disj_pages I P E \<longleftrightarrow> (\<forall>c \<in> I. distinct (P c)) \<and>
    (\<forall>c \<in> I. \<forall>d \<in> I. \<forall>p \<in> set (P c). \<forall>q \<in> set (P d). (c, p) \<noteq> (d, q) \<longrightarrow> region p (E c) \<inter> region q (E d) = {})"

lemma disj_pagesD:
  "\<lbrakk>disj_pages I P E; c \<in> I; d \<in> I; p \<in> set (P c); q \<in> set (P d); (c, p) \<noteq> (d, q)\<rbrakk> \<Longrightarrow> region p (E c) \<inter> region q (E d) = {}"
  unfolding disj_pages_def by blast

lemma disj_pages_sub:
  assumes "disj_pages I P E" "\<And>c. c \<in> I \<Longrightarrow> distinct (P' c) \<and> set (P' c) \<subseteq> set (P c)"
  shows "disj_pages I P' E"
  using assms unfolding disj_pages_def by blast

definition fresh_page :: "nat set \<Rightarrow> (nat \<Rightarrow> addr list) \<Rightarrow> (nat \<Rightarrow> nat) \<Rightarrow> addr \<Rightarrow> nat \<Rightarrow> bool" where
  "fresh_page I P E p n \<longleftrightarrow> (\<forall>d \<in> I. \<forall>q \<in> set (P d). region p n \<inter> region q (E d) = {})"

lemma disj_pages_add:
  assumes dj: "disj_pages I P E" and fr: "fresh_page I P E p n" and c: "c \<in> I" "0 < E c" "E c \<le> n"
  shows "disj_pages I (P(c := P c @ [p])) E"
proof -
  let ?P = "P(c := P c @ [p])"
  have sub: "region p (E c) \<subseteq> region p n" using c(3) by (auto simp: region_def)
  have "region p (E c) \<inter> region p (E c) \<noteq> {}" using c(2) by (auto simp: region_def)
  with fr c(1) sub have "p \<notin> set (P c)" unfolding fresh_page_def by blast
  then have "distinct (?P e)" if "e \<in> I" for e using dj that c(1) by (auto simp: disj_pages_def)
  moreover have "region q (E e) \<inter> region r (E f) = {}"
    if "e \<in> I" "f \<in> I" "q \<in> set (?P e)" "r \<in> set (?P f)" "(e, q) \<noteq> (f, r)" for e f q r
  proof -
    have ne: "(e, q) \<noteq> (f, r)" by (fact that(5))
    have qr: "q \<in> set (P e) \<or> e = c \<and> q = p" "r \<in> set (P f) \<or> f = c \<and> r = p" using that(3,4) by (auto split: if_splits)
    consider "q \<in> set (P e)" "r \<in> set (P f)" | "e = c" "q = p" "r \<in> set (P f)" | "f = c" "r = p" "q \<in> set (P e)"
      using qr ne by blast
    then show ?thesis
    proof cases
      case 1
      then show ?thesis using disj_pagesD [OF dj] that by blast
    next
      case 2
      then show ?thesis using fr sub that unfolding fresh_page_def by blast
    next
      case 3
      then show ?thesis using fr sub that unfolding fresh_page_def by blast
    qed
  qed
  ultimately show ?thesis by (auto simp: disj_pages_def)
qed

text \<open>
  The pages of the classes and of the pool; the pages the C library will hand out count as pages
  of an owner beyond all classes.
\<close>

abbreviation (input) UNUSED_PAGES :: nat where "UNUSED_PAGES \<equiv> 64"

definition pages :: "'a slabs_scheme \<Rightarrow> nat \<Rightarrow> addr list" where
  "pages s c = (if c = UNUSED_PAGES then filter (\<lambda>p. p \<noteq> NULL) (malloc_supply s)
     else take (unat (slabs_n (cls s c))) (slab_list (cls s c)))"

definition extent :: "'a slabs_scheme \<Rightarrow> nat \<Rightarrow> nat" where
  "extent s c = (if c = SLAB_GLOBAL_PAGE_POOL \<or> c = UNUSED_PAGES then nat (slab_page_size (settings s))
     else unat (sc_size (cls s c)) * unat (perslab (cls s c)))"

definition owners :: "'a slabs_scheme \<Rightarrow> nat set" where
  "owners s = insert UNUSED_PAGES {0..power_largest s}"

definition chunks :: "'a slabs_scheme \<Rightarrow> nat \<Rightarrow> addr set" where
  "chunks s c = (\<Union>p \<in> set (pages s c). chunk_at (unat (sc_size (cls s c))) p ` {..<unat (perslab (cls s c))})"

definition list_wf :: "slabclass_t \<Rightarrow> bool" where
  "list_wf p \<longleftrightarrow> unat (slabs_n p) \<le> length (slab_list p) \<and> length (slab_list p) = unat (list_size p)"

definition page_ok :: "'a slabs_scheme \<Rightarrow> bool" where
  "page_ok s \<longleftrightarrow> 0 < slab_page_size (settings s) \<and> slab_page_size (settings s) < 2 ^ 31 \<and>
    (\<forall>c \<in> {1..power_largest s}. 0 < extent s c \<and> extent s c \<le> nat (slab_page_size (settings s))) \<and>
    (\<forall>c \<in> {0..power_largest s}. list_wf (cls s c)) \<and>
    (\<forall>c \<in> owners s. NULL \<notin> set (pages s c)) \<and> disj_pages (owners s) (pages s) (extent s)"

text \<open>Free chunks and chunks in use (\<open>H c\<close>) partition the chunks of the pages of a class.\<close>

definition slab_inv :: "'a slabs_scheme \<Rightarrow> (nat \<Rightarrow> addr list) \<Rightarrow> (nat \<Rightarrow> addr set) \<Rightarrow> bool" where
  "slab_inv s F H \<longleftrightarrow> free_ok s F \<and> page_ok s \<and>
    (\<forall>c \<in> {1..power_largest s}. set (F c) \<inter> H c = {} \<and> set (F c) \<union> H c = chunks s c)"

lemma geometry_cong:
  assumes "lists_only s s'" "length (slabclass s) = 64" "power_largest s < 64"
  shows "c \<in> owners s \<Longrightarrow> pages s' c = pages s c" "c \<in> owners s \<Longrightarrow> extent s' c = extent s c" "owners s' = owners s"
    "c \<in> {1..power_largest s} \<Longrightarrow> chunks s' c = chunks s c"
proof -
  note lo = lists_onlyD [OF assms(1)]
  have g: "sc_size (cls s' c) = sc_size (cls s c)" "perslab (cls s' c) = perslab (cls s c)"
    "slabs_n (cls s' c) = slabs_n (cls s c)" "slab_list (cls s' c) = slab_list (cls s c)" if "c < 64" for c
    using geo_fields [OF lo(9), of c] that assms(2) by auto
  show p: "c \<in> owners s \<Longrightarrow> pages s' c = pages s c" for c
    using g [of c] lo(7) assms(3) by (auto simp: pages_def owners_def)
  show "c \<in> owners s \<Longrightarrow> extent s' c = extent s c"
    using g [of c] lo(3) assms(3) by (auto simp: extent_def owners_def)
  show "owners s' = owners s" by (simp add: owners_def lo)
  show "c \<in> {1..power_largest s} \<Longrightarrow> chunks s' c = chunks s c"
    using g [of c] p [of c] assms(3) by (auto simp: chunks_def owners_def)
qed

lemma page_ok_cong:
  assumes "lists_only s s'" "class_ok s" "page_ok s"
  shows "page_ok s'"
proof -
  note lo = lists_onlyD [OF assms(1)]
  have l: "length (slabclass s) = 64" "power_largest s < 64" using assms(2) by (simp_all add: class_ok_def)
  note gc = geometry_cong [OF assms(1) l]
  have g: "list_wf (cls s' c) = list_wf (cls s c)" if "c \<in> {0..power_largest s}" for c
    using geo_fields [OF lo(9), of c] that l by (auto simp: list_wf_def)
  have "c \<in> {1..power_largest s} \<Longrightarrow> c \<in> owners s" for c by (simp add: owners_def)
  with assms(3) gc g show ?thesis
    unfolding page_ok_def lo gc(3) disj_pages_def by auto
qed

text \<open>A chunk lies in its page.\<close>

lemma chunk_in_region:
  assumes "i < n" "0 < sz"
  shows "chunk_at sz p i \<in> region p (sz * n)"
proof -
  have "i * sz < n * sz" using assms by simp
  then show ?thesis by (simp add: region_def chunk_at_def mult.commute)
qed

section \<open>New pages\<close>

text \<open>Two states of a class with the same chunks and the same pages, the page list possibly longer.\<close>

definition same_class :: "slabclass_t \<Rightarrow> slabclass_t \<Rightarrow> bool" where
  "same_class p q \<longleftrightarrow> sc_size p = sc_size q \<and> perslab p = perslab q \<and> sc_slots p = sc_slots q \<and>
    sl_curr p = sl_curr q \<and> slabs_n p = slabs_n q \<and>
    take (unat (slabs_n q)) (slab_list p) = take (unat (slabs_n q)) (slab_list q) \<and> list_wf p"

lemma slab_inv_cong:
  assumes inv: "slab_inv s F H"
    and same: "heap s1 = heap s" "power_largest s1 = power_largest s" "settings s1 = settings s"
      "malloc_supply s1 = malloc_supply s" "length (slabclass s1) = length (slabclass s)"
    and cl0: "\<And>d. d \<le> power_largest s \<Longrightarrow> same_class (cls s1 d) (cls s d)"
  shows "slab_inv s1 F H" "\<And>d. d \<in> owners s \<Longrightarrow> pages s1 d = pages s d"
proof -
  note cl = cl0 [unfolded same_class_def]
  have pl: "power_largest s < 64" using inv by (simp add: slab_inv_def free_ok_def class_ok_def)
  show pg: "pages s1 d = pages s d" if "d \<in> owners s" for d
    using that cl [of d] pl same(4) by (auto simp: pages_def owners_def)
  have ex: "extent s1 d = extent s d" if "d \<in> owners s" for d
    using that cl [of d] pl same(3) by (auto simp: extent_def owners_def)
  have ow: "owners s1 = owners s" by (simp add: owners_def same)
  have ch: "chunks s1 d = chunks s d" if "d \<in> {1..power_largest s}" for d
    using that cl [of d] pg [of d] by (auto simp: chunks_def owners_def)
  have "free_ok s1 F"
    using inv same cl by (auto simp: slab_inv_def free_ok_def class_ok_def free_list_def)
  moreover have "page_ok s1"
  proof -
    have po: "page_ok s" using inv by (simp add: slab_inv_def)
    have 1: "0 < extent s1 d \<and> extent s1 d \<le> nat (slab_page_size (settings s))" if "d \<in> {1..power_largest s}" for d
      using po that ex [of d] by (auto simp: page_ok_def owners_def)
    have 2: "list_wf (cls s1 d)" if "d \<in> {0..power_largest s}" for d using cl [of d] that by simp
    have 3: "NULL \<notin> set (pages s1 d)" if "d \<in> owners s" for d using po pg [OF that] that by (simp add: page_ok_def)
    have 4: "disj_pages (owners s) (pages s1) (extent s1)"
      using po pg ex unfolding page_ok_def disj_pages_def by simp
    show ?thesis unfolding page_ok_def ow same using po 1 2 3 4 by (simp add: page_ok_def)
  qed
  ultimately show "slab_inv s1 F H" using inv ch same(2) by (auto simp: slab_inv_def)
qed

lemma page_list_wf:
  assumes "slab_inv s F H" "d \<le> power_largest s"
  shows "list_wf (cls s d)" "d < length (slabclass s)"
  using assms by (auto simp: slab_inv_def page_ok_def free_ok_def class_ok_def)

lemma grow_slab_list_inv:
  assumes inv: "slab_inv s F H" and c: "c \<le> power_largest s" and n: "unat (slabs_n (cls s c)) < 2 ^ 31"
    and g: "grow_slab_list c s = (s1, ok)"
  shows "slab_inv s1 F H" "heap s1 = heap s" "power_largest s1 = power_largest s" "settings s1 = settings s"
    "mem_base s1 = mem_base s" "malloc_supply s1 = malloc_supply s"
    "\<And>d. slabs_n (cls s1 d) = slabs_n (cls s d) \<and> sc_size (cls s1 d) = sc_size (cls s d) \<and> perslab (cls s1 d) = perslab (cls s d)"
    "ok \<Longrightarrow> unat (slabs_n (cls s1 c)) < length (slab_list (cls s1 c))"
    "\<And>d. d \<in> owners s \<Longrightarrow> pages s1 d = pages s d"
proof -
  let ?p = "cls s c"
  note wf = page_list_wf [OF inv]
  define ns where "ns = (if list_size ?p \<noteq> 0 then list_size ?p * 2 else 16)"
  have nsz: "unat (slabs_n ?p) < unat ns \<and> unat (list_size ?p) \<le> unat ns" if "slabs_n ?p = list_size ?p"
  proof (cases "list_size ?p = 0")
    case False
    have "unat (list_size ?p * 2) = unat (list_size ?p) * 2" using n that by (subst unat_times_small) simp_all
    with False that show ?thesis by (simp add: ns_def unat_gt_0)
  qed (use that in \<open>simp add: ns_def\<close>)
  note gs = grow_slab_list_def realloc_def Let_def upd_cls_def
  show f: "heap s1 = heap s" "power_largest s1 = power_largest s" "settings s1 = settings s"
    "mem_base s1 = mem_base s" "malloc_supply s1 = malloc_supply s"
    using g by (auto simp: gs split: if_splits list.splits)
  have ln: "length (slabclass s1) = length (slabclass s)"
    using g by (auto simp: gs split: if_splits list.splits)
  have cl: "cls s1 d = (if d = c \<and> slabs_n ?p = list_size ?p \<and> ok
      then ?p\<lparr>list_size := ns, slab_list := slab_list ?p @ replicate (unat ns - length (slab_list ?p)) NULL\<rparr> else cls s d)" for d
    using g wf(2) [OF c] by (auto simp: gs nth_update_if ns_def split: if_splits list.splits)
  show "slabs_n (cls s1 d) = slabs_n (cls s d) \<and> sc_size (cls s1 d) = sc_size (cls s d) \<and> perslab (cls s1 d) = perslab (cls s d)" for d
    by (simp add: cl)
  have "same_class (cls s1 d) (cls s d)" if "d \<le> power_largest s" for d
    using wf(1) [OF that] wf(1) [OF c] nsz by (auto simp: cl list_wf_def same_class_def)
  note e = slab_inv_cong [OF inv f(1-3,5) ln this]
  show "slab_inv s1 F H" by (rule e(1))
  show "\<And>d. d \<in> owners s \<Longrightarrow> pages s1 d = pages s d" by (rule e(2))
  show "unat (slabs_n (cls s1 c)) < length (slab_list (cls s1 c))" if ok
  proof (cases "slabs_n ?p = list_size ?p")
    case True
    with that nsz wf [OF c] show ?thesis by (simp add: cl list_wf_def)
  next
    case False
    then have "unat (slabs_n ?p) \<noteq> unat (list_size ?p)" by (simp add: word_unat_eq_iff)
    with False wf [OF c] show ?thesis by (simp add: cl list_wf_def)
  qed
qed

text \<open>Taking a page from the pool or from the C library leaves a page that overlaps no other.\<close>

lemma slab_inv_take:
  assumes inv: "slab_inv s F H" and same: "heap s2 = heap s" "power_largest s2 = power_largest s" "settings s2 = settings s"
      "length (slabclass s2) = length (slabclass s)"
    and cl: "\<And>d. d \<in> {1..power_largest s} \<Longrightarrow> cls s2 d = cls s d"
    and c0: "slab_list (cls s2 0) = slab_list (cls s 0) \<and> list_size (cls s2 0) = list_size (cls s 0) \<and> slabs_n (cls s2 0) \<le> slabs_n (cls s 0)"
    and o: "w = 0 \<or> w = UNUSED_PAGES" "p \<in> set (pages s w)" "p \<notin> set (pages s2 w)"
    and sub: "\<And>d. d \<in> {0, UNUSED_PAGES} \<Longrightarrow> distinct (pages s2 d) \<and> set (pages s2 d) \<subseteq> set (pages s d)"
  shows "slab_inv s2 F H" "fresh_page (owners s2) (pages s2) (extent s2) p (nat (slab_page_size (settings s)))" "p \<noteq> NULL"
proof -
  have pl: "power_largest s < 64" and po: "page_ok s" using inv by (simp_all add: slab_inv_def free_ok_def class_ok_def)
  have pg: "pages s2 d = pages s d" if "d \<in> {1..power_largest s}" for d
    using that cl [of d] pl by (auto simp: pages_def)
  have ex: "extent s2 d = extent s d" if "d \<in> owners s" for d
    using that cl [of d] pl same(3) by (auto simp: extent_def owners_def)
  have ow: "owners s2 = owners s" by (simp add: owners_def same)
  have subs: "distinct (pages s2 d) \<and> set (pages s2 d) \<subseteq> set (pages s d)" if d: "d \<in> owners s" for d
  proof (cases "d \<in> {1..power_largest s}")
    case True
    then show ?thesis using pg po d by (auto simp: page_ok_def disj_pages_def)
  next
    case False
    then have "d \<in> {0, UNUSED_PAGES}" using d by (auto simp: owners_def)
    then show ?thesis by (rule sub)
  qed
  have dj: "disj_pages (owners s) (pages s) (extent s)" using po by (simp add: page_ok_def)
  have dj2: "disj_pages (owners s2) (pages s2) (extent s2)"
    using disj_pages_sub [OF dj subs] ex unfolding ow disj_pages_def by auto
  have wo: "w \<in> owners s" using o(1) by (auto simp: owners_def)
  have ew: "extent s w = nat (slab_page_size (settings s))" using o(1) by (auto simp: extent_def)
  show "fresh_page (owners s2) (pages s2) (extent s2) p (nat (slab_page_size (settings s)))"
    unfolding fresh_page_def ow
  proof (intro ballI)
    fix d q assume d: "d \<in> owners s" and q: "q \<in> set (pages s2 d)"
    have "(w, p) \<noteq> (d, q)" using q o(3) by auto
    with disj_pagesD [OF dj wo d o(2), of q] q subs [OF d] ex [OF d] ew
    show "region p (nat (slab_page_size (settings s))) \<inter> region q (extent s2 d) = {}" by auto
  qed
  show "p \<noteq> NULL" using po wo o(2) unfolding page_ok_def by metis
  have "free_ok s2 F" using inv same cl by (auto simp: slab_inv_def free_ok_def class_ok_def free_list_def)
  moreover have "page_ok s2"
  proof -
    have "list_wf (cls s2 d)"
      if "d \<in> {0..power_largest s}" for d
      using that page_list_wf(1) [OF inv, of d] c0 cl [of d] by (cases "d = 0") (auto simp: list_wf_def word_le_nat_alt)
    moreover have "NULL \<notin> set (pages s2 d)" if "d \<in> owners s" for d using po subs [OF that] that by (auto simp: page_ok_def)
    ultimately show ?thesis using po dj2 ex unfolding page_ok_def ow same by (auto simp: owners_def)
  qed
  moreover have "chunks s2 d = chunks s d" if "d \<in> {1..power_largest s}" for d
    using that cl pg by (simp add: chunks_def)
  ultimately show "slab_inv s2 F H" using inv same(2) by (auto simp: slab_inv_def)
qed

text \<open>The two sources of a page.\<close>

lemma get_page_inv:
  assumes inv: "slab_inv s F H" and g: "get_page_from_global_pool s = (s2, p)" and p: "p \<noteq> NULL"
  shows "slab_inv s2 F H" "fresh_page (owners s2) (pages s2) (extent s2) p (nat (slab_page_size (settings s)))"
    "power_largest s2 = power_largest s" "settings s2 = settings s" "mem_base s2 = mem_base s"
    "\<And>d. d \<in> {1..power_largest s} \<Longrightarrow> cls s2 d = cls s d"
proof -
  let ?q = "cls s 0" and ?n = "unat (slabs_n (cls s 0))"
  note wf = page_list_wf [OF inv, of 0, simplified]
  have n: "0 < ?n" and s2: "s2 = upd_cls 0 (\<lambda>p. p\<lparr>slabs_n := slabs_n p - 1\<rparr>) s" and pp: "p = slab_list ?q ! unat (slabs_n ?q - 1)"
    using g p by (auto simp: get_page_from_global_pool_def Let_def word_less_nat_alt split: if_splits)
  have n1: "unat (slabs_n ?q - 1) = ?n - 1" using n by (simp add: unat_minus_le)
  have le: "?n \<le> length (slab_list ?q)" using wf(1) by (simp add: list_wf_def)
  have tk: "take ?n (slab_list ?q) = take (?n - 1) (slab_list ?q) @ [p]"
    using take_Suc_conv_app_nth [of "?n - 1" "slab_list ?q"] n le unfolding pp n1 by simp
  show eq: "power_largest s2 = power_largest s" "settings s2 = settings s" "mem_base s2 = mem_base s"
    by (simp_all add: s2 upd_cls_def)
  have cl0: "cls s2 0 = ?q\<lparr>slabs_n := slabs_n ?q - 1\<rparr>" using wf(2) by (simp add: s2 upd_cls_def)
  show cl: "cls s2 d = cls s d" if "d \<in> {1..power_largest s}" for d using that by (simp add: s2 upd_cls_def)
  have pg: "pages s 0 = pages s2 0 @ [p]" using tk by (simp add: pages_def cl0 n1)
  have pu: "pages s2 UNUSED_PAGES = pages s UNUSED_PAGES" by (simp add: pages_def s2 upd_cls_def)
  have di: "distinct (pages s d)" if "d \<in> owners s" for d using inv that by (simp add: slab_inv_def page_ok_def disj_pages_def)
  have d0: "distinct (pages s2 0 @ [p])" "distinct (pages s UNUSED_PAGES)" using di [of 0] di [of UNUSED_PAGES] pg by (simp_all add: owners_def)
  have sub: "distinct (pages s2 d) \<and> set (pages s2 d) \<subseteq> set (pages s d)" if "d \<in> {0, UNUSED_PAGES}" for d
    using that d0 by (auto simp: pg pu)
  have c0: "slab_list (cls s2 0) = slab_list (cls s 0) \<and> list_size (cls s2 0) = list_size (cls s 0) \<and> slabs_n (cls s2 0) \<le> slabs_n (cls s 0)"
    using n1 by (simp add: cl0 word_le_nat_alt)
  have hl: "heap s2 = heap s" "length (slabclass s2) = length (slabclass s)" by (simp_all add: s2 upd_cls_def)
  note t = slab_inv_take [OF inv hl(1) eq(1,2) hl(2) cl c0 _ _ _ sub, where w = 0 and p = p]
  show "slab_inv s2 F H" "fresh_page (owners s2) (pages s2) (extent s2) p (nat (slab_page_size (settings s)))"
    by (rule t; use pg d0 in simp)+
qed

lemma memory_allocate_inv:
  assumes inv: "slab_inv s F H" and m: "mem_base s = NULL" and g: "memory_allocate len s = (s2, p)"
  shows "slab_inv s2 F H" "p \<noteq> NULL \<Longrightarrow> fresh_page (owners s2) (pages s2) (extent s2) p (nat (slab_page_size (settings s)))"
    "power_largest s2 = power_largest s" "settings s2 = settings s" "mem_base s2 = mem_base s" "slabclass s2 = slabclass s"
proof -
  have e: "malloc_supply s = (if malloc_supply s = [] then [] else p # malloc_supply s2)" "malloc_supply s = [] \<Longrightarrow> p = NULL \<and> malloc_supply s2 = []"
    using g m by (auto simp: memory_allocate_def malloc_def split: list.splits)
  show eq: "power_largest s2 = power_largest s" "settings s2 = settings s" "mem_base s2 = mem_base s" "slabclass s2 = slabclass s"
    using g m by (auto simp: memory_allocate_def malloc_def split: list.splits)
  have hl: "heap s2 = heap s" using g m by (auto simp: memory_allocate_def malloc_def split: list.splits)
  have pu: "pages s UNUSED_PAGES = (if p = NULL then [] else [p]) @ pages s2 UNUSED_PAGES"
    using e by (cases "malloc_supply s = []") (auto simp: pages_def)
  have pc: "pages s2 d = pages s d" if "d \<noteq> UNUSED_PAGES" for d using that by (simp add: pages_def eq)
  have di: "distinct (pages s d)" if "d \<in> owners s" for d using inv that by (simp add: slab_inv_def page_ok_def disj_pages_def)
  have d0: "distinct (pages s 0)" "distinct (pages s UNUSED_PAGES)" by (rule di; simp add: owners_def)+
  have sub: "distinct (pages s2 d) \<and> set (pages s2 d) \<subseteq> set (pages s d)" if "d \<in> {0, UNUSED_PAGES}" for d
    using that d0 pc [of 0] by (auto simp: pu)
  have f: "slab_inv s2 F H \<and> fresh_page (owners s2) (pages s2) (extent s2) p (nat (slab_page_size (settings s)))" if "p \<noteq> NULL"
    using slab_inv_take(1,2) [OF inv hl eq(1,2), where w = UNUSED_PAGES and p = p] sub d0 that eq(4) by (simp add: pu)
  then show "p \<noteq> NULL \<Longrightarrow> fresh_page (owners s2) (pages s2) (extent s2) p (nat (slab_page_size (settings s)))" by simp
  show "slab_inv s2 F H"
  proof (cases "p = NULL")
    case True
    then have "pages s2 d = pages s d" for d using pu pc by (cases "d = UNUSED_PAGES") auto
    then have pe: "pages s2 = pages s" "extent s2 = extent s" "owners s2 = owners s"
      by (auto simp: extent_def owners_def eq)
    then have "page_ok s2" "\<And>c. chunks s2 c = chunks s c"
      using inv by (simp_all add: slab_inv_def page_ok_def chunks_def eq)
    with inv show ?thesis by (auto simp: slab_inv_def free_ok_def class_ok_def free_list_def eq hl)
  qed (use f in simp)
qed

text \<open>The chunks of a class, counted.\<close>

lemma inv_class:
  assumes "slab_inv s F H" "c \<in> {1..power_largest s}"
  shows "0 < unat (sc_size (cls s c))" "0 < unat (perslab (cls s c))" "extent s c = unat (sc_size (cls s c)) * unat (perslab (cls s c))"
    "0 < extent s c" "extent s c \<le> nat (slab_page_size (settings s))" "c < 64" "c \<in> owners s"
    "set (F c) \<inter> H c = {}" "set (F c) \<union> H c = chunks s c" "free_list s c (F c)"
proof -
  have pl: "power_largest s < 64" using assms(1) by (simp add: slab_inv_def free_ok_def class_ok_def)
  show "c < 64" "c \<in> owners s" using pl assms(2) by (auto simp: owners_def)
  with assms(2) show e: "extent s c = unat (sc_size (cls s c)) * unat (perslab (cls s c))" by (auto simp: extent_def)
  show g: "0 < extent s c" "extent s c \<le> nat (slab_page_size (settings s))"
    using assms by (auto simp: slab_inv_def page_ok_def)
  show "0 < unat (sc_size (cls s c))" "0 < unat (perslab (cls s c))" using g(1) unfolding e by simp_all
  show "set (F c) \<inter> H c = {}" "set (F c) \<union> H c = chunks s c" "free_list s c (F c)"
    using assms by (simp_all add: slab_inv_def free_ok_def)
qed

lemma chunk_at_inj: "0 < sz \<Longrightarrow> inj_on (chunk_at sz p) A"
  by (rule inj_onI) (simp add: chunk_at_def)

lemma chunks_region:
  assumes "slab_inv s F H" "c \<in> {1..power_largest s}" "a \<in> chunks s c"
  shows "\<exists>q \<in> set (pages s c). a \<in> region q (extent s c)"
proof -
  from assms(3) obtain q i where q: "q \<in> set (pages s c)" "i < unat (perslab (cls s c))" "a = chunk_at (unat (sc_size (cls s c))) q i"
    by (auto simp: chunks_def)
  with chunk_in_region [OF q(2) inv_class(1) [OF assms(1,2)], of q] inv_class(3) [OF assms(1,2)] show ?thesis by auto
qed

lemma card_chunks:
  assumes inv: "slab_inv s F H" and c: "c \<in> {1..power_largest s}"
  shows "card (chunks s c) = unat (slabs_n (cls s c)) * unat (perslab (cls s c))" "finite (chunks s c)"
proof -
  note k = inv_class [OF inv c]
  let ?ch = "\<lambda>p. chunk_at (unat (sc_size (cls s c))) p ` {..<unat (perslab (cls s c))}"
  have dj: "disj_pages (owners s) (pages s) (extent s)" using inv by (simp add: slab_inv_def page_ok_def)
  have sub: "?ch p \<subseteq> region p (extent s c)" for p using chunk_in_region k(1,3) by auto
  have "?ch p \<inter> ?ch q = {}" if "p \<in> set (pages s c)" "q \<in> set (pages s c)" "p \<noteq> q" for p q
    using disj_pagesD [OF dj k(7) k(7) that(1,2)] that(3) sub [of p] sub [of q] by blast
  then have "card (chunks s c) = (\<Sum>p \<in> set (pages s c). card (?ch p))"
    unfolding chunks_def by (intro card_UN_disjoint) auto
  also have "\<dots> = length (pages s c) * unat (perslab (cls s c))"
    using dj k(7) chunk_at_inj [OF k(1)] by (simp add: card_image disj_pages_def distinct_card)
  also have "length (pages s c) = unat (slabs_n (cls s c))"
    using page_list_wf(1) [OF inv, of c] c k(6) by (simp add: pages_def list_wf_def)
  finally show "card (chunks s c) = unat (slabs_n (cls s c)) * unat (perslab (cls s c))" .
  show "finite (chunks s c)" by (simp add: chunks_def)
qed

lemma free_length:
  assumes inv: "slab_inv s F H" and c: "c \<in> {1..power_largest s}"
  shows "length (F c) + card (H c) = unat (slabs_n (cls s c)) * unat (perslab (cls s c))"
    "unat (sl_curr (cls s c)) = length (F c)"
proof -
  note k = inv_class [OF inv c] and ch = card_chunks [OF inv c]
  have "distinct (F c)" using free_listD [OF k(10)] by auto
  moreover have "finite (H c)" using ch(2) unfolding k(9) [symmetric] by simp
  ultimately show "length (F c) + card (H c) = unat (slabs_n (cls s c)) * unat (perslab (cls s c))"
    using ch(1) k(8) unfolding k(9) [symmetric] by (simp add: card_Un_disjoint distinct_card)
  show "unat (sl_curr (cls s c)) = length (F c)" using k(10) by (simp add: free_list_def)
qed

lemma fresh_not_chunk:
  assumes "slab_inv s F H" "fresh_page (owners s) (pages s) (extent s) p n" "c \<in> {1..power_largest s}"
  shows "region p n \<inter> chunks s c = {}"
  using chunks_region [OF assms(1,3)] assms(2) inv_class(7) [OF assms(1,3)] unfolding fresh_page_def by blast

lemma all_free_chunks: "slab_inv s F H \<Longrightarrow> a \<in> all_free s F \<Longrightarrow> \<exists>c \<in> {1..power_largest s}. a \<in> chunks s c"
  using inv_class(9) by (fastforce simp: all_free_def)

text \<open>Cutting a fresh page into free chunks and entering it in the page list of its class.\<close>

lemma wipe_simps [simp]:
  "slabclass (wipe p n s) = slabclass s" "power_largest (wipe p n s) = power_largest s" "settings (wipe p n s) = settings s"
  "malloc_supply (wipe p n s) = malloc_supply s" "mem_base (wipe p n s) = mem_base s"
  by (simp_all add: wipe_def)

lemma heap_wipe: "heap (wipe p n s) a = (if a \<in> region p n then item0 else heap s a)"
  by (simp add: wipe_def region_def)

lemma wipe_geo [simp]:
  "pages (wipe p n s) = pages s" "extent (wipe p n s) = extent s" "owners (wipe p n s) = owners s" "chunks (wipe p n s) = chunks s"
  by (auto simp: pages_def extent_def owners_def chunks_def fun_eq_iff)

lemma slab_inv_wipe:
  assumes inv: "slab_inv s F H" and fr: "fresh_page (owners s) (pages s) (extent s) p n"
  shows "slab_inv (wipe p n s) F H"
proof -
  have nr: "a \<notin> region p n" if "a \<in> all_free s F" for a
    using all_free_chunks [OF inv that] fresh_not_chunk [OF inv fr] by blast
  have fo: "free_ok s F" using inv by (simp add: slab_inv_def)
  have "free_ok (wipe p n s) F"
    by (rule free_ok_frame [OF fo]) (simp_all add: heap_wipe nr)
  then show ?thesis using inv by (simp add: slab_inv_def page_ok_def)
qed

lemma slab_inv_lists:
  assumes inv: "slab_inv s F H" and lo: "lists_only s s'" and ok: "free_ok s' F'"
    and fc: "\<And>c. c \<in> {1..power_largest s} \<Longrightarrow> set (F' c) \<inter> H' c = {} \<and> set (F' c) \<union> H' c = chunks s c"
  shows "slab_inv s' F' H'"
proof -
  have co: "class_ok s" and po: "page_ok s" using inv by (simp_all add: slab_inv_def free_ok_def)
  have l: "length (slabclass s) = 64" "power_largest s < 64" using co by (simp_all add: class_ok_def)
  show ?thesis
    using page_ok_cong [OF lo co po] ok fc geometry_cong(4) [OF lo l] lists_onlyD(1) [OF lo] by (simp add: slab_inv_def)
qed

lemma add_page_inv:
  assumes ok: "free_ok s F'" and po: "page_ok s" and c: "c \<in> {1..power_largest s}"
    and fr: "fresh_page (owners s) (pages s) (extent s) p n" "extent s c \<le> n" "p \<noteq> NULL"
    and room: "unat (slabs_n (cls s c)) < length (slab_list (cls s c))"
    and part: "\<And>d. d \<in> {1..power_largest s} \<Longrightarrow> set (F' d) \<inter> H d = {} \<and> set (F' d) \<union> H d =
      (if d = c then chunk_at (unat (sc_size (cls s c))) p ` {..<unat (perslab (cls s c))} else {}) \<union> chunks s d"
  shows "slab_inv (add_page c p s) F' H"
proof -
  let ?s = "add_page c p s" and ?q = "cls s c"
  have c64: "c < 64" "c < length (slabclass s)" using ok c by (auto simp: free_ok_def class_ok_def)
  have "unat (list_size ?q) < 2 ^ 32" using unat_bound [of "list_size ?q"] by simp
  moreover have lw: "list_wf ?q" using po c by (simp add: page_ok_def)
  ultimately have sn: "unat (slabs_n ?q + 1) = Suc (unat (slabs_n ?q))"
    using room by (subst unat_plus_small) (simp_all add: list_wf_def)
  have cl: "cls ?s d = (if d = c then ?q\<lparr>slab_list := (slab_list ?q)[unat (slabs_n ?q) := p], slabs_n := slabs_n ?q + 1\<rparr> else cls s d)" for d
    using c64 by (simp add: add_page_def upd_cls_def)
  have eq: "power_largest ?s = power_largest s" "settings ?s = settings s" "heap ?s = heap s" "length (slabclass ?s) = length (slabclass s)"
    "malloc_supply ?s = malloc_supply s" by (simp_all add: add_page_def upd_cls_def)
  have pg: "pages ?s = (pages s)(c := pages s c @ [p])"
    using c64 room by (auto simp: fun_eq_iff pages_def cl eq sn take_Suc_update)
  have geo: "extent ?s = extent s" "owners ?s = owners s" by (auto simp: fun_eq_iff extent_def owners_def eq cl)
  have e0: "0 < extent s c" "c \<in> owners s" using po c by (auto simp: page_ok_def owners_def)
  have "disj_pages (owners s) (pages s) (extent s)" using po by (simp add: page_ok_def)
  then have "disj_pages (owners ?s) (pages ?s) (extent ?s)"
    unfolding pg geo by (rule disj_pages_add [OF _ fr(1) e0(2,1) fr(2)])
  moreover have "list_wf (cls ?s d)" if "d \<in> {0..power_largest s}" for d
  proof (cases "d = c")
    case True
    with lw room show ?thesis by (simp add: cl list_wf_def sn)
  next
    case False
    with that po show ?thesis by (simp add: cl page_ok_def)
  qed
  moreover have "NULL \<notin> set (pages ?s d)" if "d \<in> owners s" for d
  proof -
    have "NULL \<notin> set (pages s d)" using that po by (simp add: page_ok_def)
    with fr(3) show ?thesis by (cases "d = c") (simp_all add: pg)
  qed
  ultimately have "page_ok ?s" using po by (simp add: page_ok_def geo eq)
  moreover have "free_ok ?s F'" using ok by (auto simp: free_ok_def class_ok_def free_list_def eq cl)
  moreover have "chunks ?s d = (if d = c then chunk_at (unat (sc_size ?q)) p ` {..<unat (perslab ?q)} else {}) \<union> chunks s d" for d
    by (auto simp: chunks_def pg cl)
  ultimately show ?thesis using part by (simp add: slab_inv_def eq)
qed

lemma attach_page:
  assumes inv0: "slab_inv s F H" and c: "c \<in> {1..power_largest s}" and p: "p \<noteq> NULL"
    and fr: "fresh_page (owners s) (pages s) (extent s) p n" and n: "extent s c \<le> n"
    and room: "unat (slabs_n (cls s c)) < length (slab_list (cls s c))"
    and small: "(unat (slabs_n (cls s c)) + 1) * unat (perslab (cls s c)) < 2 ^ 32"
  shows "\<exists>s' F'. split_slab_page_into_freelist p c (wipe p n s) = Some s' \<and> slab_inv (add_page c p s') F' H \<and> F' c \<noteq> [] \<and>
    lists_only (wipe p n s) s' \<and> (\<forall>d. set (F' d) \<subseteq> region p n \<union> set (F d)) \<and> (\<forall>b. b \<notin> region p n \<union> all_free s F \<longrightarrow> heap s' b = heap s b)"
proof -
  let ?w = "wipe p n s" and ?sz = "unat (sc_size (cls s c))" and ?n = "unat (perslab (cls s c))"
  have inv: "slab_inv ?w F H" by (rule slab_inv_wipe [OF inv0 fr])
  have cw: "c \<in> {1..power_largest ?w}" using c by simp
  note k = inv_class [OF inv0 c]
  have frw: "fresh_page (owners ?w) (pages ?w) (extent ?w) p n"
    using fr by simp
  have reg: "chunk_at ?sz p i \<in> region p n" if "i < ?n" for i
    using chunk_in_region [OF that k(1), of p] k(3) n by (auto simp: region_def)
  have nf: "a \<notin> all_free ?w F" if "a \<in> region p n" for a
    using all_free_chunks [OF inv] fresh_not_chunk [OF inv frw] that by blast
  have "\<exists>s'. split_loop ?n p c ?w = Some s' \<and>
    free_ok s' (F(c := rev (map (chunk_at ?sz p) [0..<?n]) @ F c)) \<and> lists_only ?w s' \<and>
    (\<forall>b. b \<notin> chunk_at ?sz p ` {..<?n} \<union> set (F c) \<longrightarrow> heap s' b = heap ?w b)"
  proof (rule split_loop_free)
    show "free_ok ?w F" using inv by (simp add: slab_inv_def)
    show "\<forall>i<?n. chunk_at ?sz p i \<noteq> NULL \<and> chunk_at ?sz p i \<notin> all_free ?w F \<and> it_flags (heap ?w (chunk_at ?sz p i)) = 0"
      using reg nf p by (simp add: heap_wipe item0_def) (simp add: chunk_at_def)
    show "length (F c) + ?n < 2 ^ 32" using free_length(1) [OF inv0 c] small by simp
  qed (use c k in simp_all)
  then obtain s' where s': "split_loop ?n p c ?w = Some s'" "free_ok s' (F(c := rev (map (chunk_at ?sz p) [0..<?n]) @ F c))"
    "lists_only ?w s'" "\<forall>b. b \<notin> chunk_at ?sz p ` {..<?n} \<union> set (F c) \<longrightarrow> heap s' b = heap ?w b" by blast
  let ?F = "F(c := rev (map (chunk_at ?sz p) [0..<?n]) @ F c)"
  have co: "class_ok ?w" "page_ok ?w" using inv by (simp_all add: slab_inv_def free_ok_def)
  have l: "length (slabclass ?w) = 64" "power_largest ?w < 64" using co(1) by (simp_all add: class_ok_def)
  note gc = geometry_cong [OF s'(3) l] and lo = lists_onlyD [OF s'(3)]
  note gf = geo_fields [OF lo(9), of c]
  have cl: "sc_size (cls s' c) = sc_size (cls s c)" "perslab (cls s' c) = perslab (cls s c)" "slabs_n (cls s' c) = slabs_n (cls s c)"
    "slab_list (cls s' c) = slab_list (cls s c)" using gf k(6) l by simp_all
  have img: "set (map (chunk_at ?sz p) [0..<?n]) = chunk_at ?sz p ` {..<?n}" by (simp add: lessThan_atLeast0)
  have "slab_inv (add_page c p s') ?F H"
  proof (rule add_page_inv [OF s'(2) page_ok_cong [OF s'(3) co]])
    show "fresh_page (owners s') (pages s') (extent s') p n"
      using fr gc(1,2) unfolding gc(3) fresh_page_def by simp
    show "extent s' c \<le> n" using gc(2) [of c] n k(7) by simp
    fix d assume d: "d \<in> {1..power_largest s'}"
    then have d': "d \<in> {1..power_largest s}" using lo(1) by simp
    have "chunk_at ?sz p ` {..<?n} \<inter> chunks s c = {}" using reg fresh_not_chunk [OF inv0 fr c] by blast
    then show "set (?F d) \<inter> H d = {} \<and> set (?F d) \<union> H d =
      (if d = c then chunk_at (unat (sc_size (cls s' c))) p ` {..<unat (perslab (cls s' c))} else {}) \<union> chunks s' d"
      using inv_class(8,9) [OF inv0 d'] gc(4) [of d] d' unfolding cl by (auto simp: lessThan_atLeast0)
  qed (use c p room lo(1) cl in simp_all)
  moreover have "?F c \<noteq> []" "\<forall>d. set (?F d) \<subseteq> region p n \<union> set (F d)" using k(2) reg by auto
  moreover have "heap s' b = heap s b" if "b \<notin> region p n \<union> all_free s F" for b
  proof -
    have "b \<notin> chunk_at ?sz p ` {..<?n} \<union> set (F c)" using that reg c by (auto simp: all_free_def)
    with s'(4) that show ?thesis by (simp add: heap_wipe)
  qed
  moreover have "split_slab_page_into_freelist p c ?w = Some s'" using s'(1) by (simp add: split_slab_page_into_freelist_def)
  ultimately show ?thesis using s'(3) by blast
qed

section \<open>Allocation and release\<close>

text \<open>The memory of the pages the classes own.\<close>

definition slab_mem :: "'a slabs_scheme \<Rightarrow> addr set" where
  "slab_mem s = (\<Union>c \<in> {1..power_largest s}. \<Union>q \<in> set (pages s c). region q (extent s c))"

lemma held_not_free:
  assumes inv: "slab_inv s F H" and c: "c \<in> {1..power_largest s}" and a: "a \<in> H c"
  shows "a \<notin> all_free s F" "a \<in> slab_mem s" "a \<noteq> NULL" "\<And>d. d \<in> {1..power_largest s} \<Longrightarrow> a \<in> H d \<Longrightarrow> d = c"
proof -
  have dj: "disj_pages (owners s) (pages s) (extent s)" and nn: "NULL \<notin> set (pages s c)"
    using inv inv_class(7) [OF inv c] by (simp_all add: slab_inv_def page_ok_def)
  have ac: "a \<in> chunks s c" using inv_class(9) [OF inv c] a by auto
  have same: "d = c" if d: "d \<in> {1..power_largest s}" "a \<in> chunks s d" for d
    using chunks_region [OF inv d] chunks_region [OF inv c ac]
      disj_pagesD [OF dj inv_class(7) [OF inv d(1)] inv_class(7) [OF inv c]] by blast
  show "a \<notin> all_free s F"
  proof
    assume "a \<in> all_free s F"
    then obtain d where d: "d \<in> {1..power_largest s}" "a \<in> set (F d)" by (auto simp: all_free_def)
    then have "d = c" using inv_class(9) [OF inv d(1)] same by auto
    with d a inv_class(8) [OF inv c] show False by auto
  qed
  show "a \<in> slab_mem s" using chunks_region [OF inv c ac] c by (auto simp: slab_mem_def)
  show "a \<noteq> NULL"
  proof
    assume "a = NULL"
    with ac have "NULL \<in> set (pages s c)" by (auto simp: chunks_def chunk_at_def)
    with nn show False by simp
  qed
  show "d = c" if "d \<in> {1..power_largest s}" "a \<in> H d" for d using same that inv_class(9) [OF inv that(1)] by auto
qed

lemma page_len_bounds:
  assumes "slab_inv s F H" "c \<in> {1..power_largest s}"
  shows "extent s c \<le> unat (word_of_int (page_len s c) :: uint64)"
    "unat (word_of_int (page_len s c) :: uint64) \<le> nat (slab_page_size (settings s))"
proof -
  note k = inv_class [OF assms]
  have ps: "0 < slab_page_size (settings s)" "slab_page_size (settings s) < 2 ^ 31"
    using assms(1) by (simp_all add: slab_inv_def page_ok_def)
  have e: "unat (sc_size (cls s c) * perslab (cls s c)) = extent s c"
    unfolding k(3) using k(3,5) ps by (subst unat_times_small) auto
  have e31: "extent s c < 2 ^ 31" using k(5) ps by simp
  have pl: "page_len s c = slab_page_size (settings s) \<or> page_len s c = int (extent s c)"
    using sint_small [OF e e31] by (auto simp: page_len_def)
  have "unat (word_of_int (int n) :: uint64) = n" if "n < 2 ^ 31" for n
    using that by (simp add: unat_of_nat)
  from this [of "extent s c"] this [of "nat (slab_page_size (settings s))"] pl k(5) ps e31
  show "extent s c \<le> unat (word_of_int (page_len s c) :: uint64)"
    "unat (word_of_int (page_len s c) :: uint64) \<le> nat (slab_page_size (settings s))" by auto
qed

text \<open>The counters of a class have room for one more page.\<close>

definition class_room :: "'a slabs_scheme \<Rightarrow> nat \<Rightarrow> bool" where
  "class_room s c \<longleftrightarrow> unat (slabs_n (cls s c)) < 2 ^ 31 \<and> (unat (slabs_n (cls s c)) + 1) * unat (perslab (cls s c)) < 2 ^ 32"

definition slab_frame :: "'a slabs_scheme \<Rightarrow> (nat \<Rightarrow> addr list) \<Rightarrow> 'a slabs_scheme \<Rightarrow> bool" where
  "slab_frame s F s' \<longleftrightarrow> (\<forall>b \<in> slab_mem s. b \<notin> all_free s F \<longrightarrow> heap s' b = heap s b) \<and>
    power_largest s' = power_largest s \<and> settings s' = settings s \<and> mem_base s' = mem_base s"

lemma fresh_not_mem:
  "slab_inv s F H \<Longrightarrow> fresh_page (owners s) (pages s) (extent s) p n \<Longrightarrow> b \<in> slab_mem s \<Longrightarrow> b \<notin> region p n"
  using inv_class(7) unfolding slab_mem_def fresh_page_def by fast

lemma take_page_inv:
  assumes inv: "slab_inv s F H" and m: "mem_base s = NULL"
    and g: "get_page_from_global_pool s = (s2, p0)" "(if p0 = NULL then memory_allocate len s2 else (s2, p0)) = (s3, p)"
  shows "slab_inv s3 F H" "p \<noteq> NULL \<Longrightarrow> fresh_page (owners s3) (pages s3) (extent s3) p (nat (slab_page_size (settings s)))"
    "power_largest s3 = power_largest s" "settings s3 = settings s" "mem_base s3 = mem_base s"
    "\<And>d. d \<in> {1..power_largest s} \<Longrightarrow> cls s3 d = cls s d" "heap s3 = heap s"
proof -
  have hp: "heap s2 = heap s" using g(1) by (auto simp: get_page_from_global_pool_def upd_cls_def Let_def split: if_splits)
  show hp3: "heap s3 = heap s"
    using g(2) hp by (auto simp: memory_allocate_def malloc_def Let_def split: if_splits list.splits prod.splits)
  have "slab_inv s3 F H \<and> (p \<noteq> NULL \<longrightarrow> fresh_page (owners s3) (pages s3) (extent s3) p (nat (slab_page_size (settings s)))) \<and>
    power_largest s3 = power_largest s \<and> settings s3 = settings s \<and> mem_base s3 = mem_base s \<and>
    (\<forall>d \<in> {1..power_largest s}. cls s3 d = cls s d)"
  proof (cases "p0 = NULL")
    case False
    then show ?thesis using get_page_inv [OF inv g(1)] g(2) by simp
  next
    case True
    have lw: "list_wf (cls s 0)" "NULL \<notin> set (pages s 0)"
      using page_list_wf(1) [OF inv, of 0] inv by (simp_all add: slab_inv_def page_ok_def owners_def)
    have s2: "s2 = s"
    proof (rule ccontr)
      assume "s2 \<noteq> s"
      then have n: "0 < unat (slabs_n (cls s 0))" "p0 = slab_list (cls s 0) ! unat (slabs_n (cls s 0) - 1)"
        using g(1) by (auto simp: get_page_from_global_pool_def Let_def word_less_nat_alt split: if_splits)
      then have "p0 \<in> set (pages s 0)" using lw(1)
        by (auto simp: pages_def list_wf_def unat_minus_le in_set_conv_nth intro!: exI [of _ "unat (slabs_n (cls s 0)) - 1"])
      with True lw(2) show False by simp
    qed
    have g2: "memory_allocate len s = (s3, p)" using g(2) True s2 by simp
    note ma = memory_allocate_inv [OF inv m g2]
    show ?thesis using ma by simp
  qed
  then show "slab_inv s3 F H" "p \<noteq> NULL \<Longrightarrow> fresh_page (owners s3) (pages s3) (extent s3) p (nat (slab_page_size (settings s)))"
    "power_largest s3 = power_largest s" "settings s3 = settings s" "mem_base s3 = mem_base s"
    "\<And>d. d \<in> {1..power_largest s} \<Longrightarrow> cls s3 d = cls s d" by simp_all
qed

lemma newslab_inv:
  assumes inv: "slab_inv s F H" and c: "c \<in> {1..power_largest s}" and m: "mem_base s = NULL" and room: "class_room s c"
  shows "\<exists>s' ok F'. do_slabs_newslab c s = Some (s', ok) \<and> slab_inv s' F' H \<and> slab_frame s F s' \<and>
    (if ok then F' c \<noteq> [] else F' = F) \<and> all_free s' F' \<inter> slab_mem s \<subseteq> all_free s F"
proof (cases "mem_limit s \<noteq> 0 \<and> mem_malloced s + word_of_int (page_len s c) > mem_limit s \<and> slabs_n (cls s c) > 0 \<and>
        slabs_n (cls s SLAB_GLOBAL_PAGE_POOL) = 0")
  case True
  let ?s = "s\<lparr>mem_limit_reached := True\<rparr>"
  have "slab_inv ?s F H"
    by (rule slab_inv_cong [OF inv]) (use page_list_wf(1) [OF inv] in \<open>simp_all add: same_class_def\<close>)
  with True show ?thesis by (auto simp: do_slabs_newslab_def slab_frame_def all_free_def)
next
  case lim: False
  have n31: "unat (slabs_n (cls s c)) < 2 ^ 31" using room by (simp add: class_room_def)
  have cp: "c \<le> power_largest s" using c by simp
  obtain s1 ok where g1: "grow_slab_list c s = (s1, ok)" by fastforce
  note G = grow_slab_list_inv [OF inv cp n31 g1]
  have fr1: "slab_frame s F s1" by (simp add: slab_frame_def G)
  obtain s2 p0 where g2: "get_page_from_global_pool s1 = (s2, p0)" by fastforce
  let ?len = "word_of_int (page_len s c) :: uint64"
  obtain s3 p where g3: "(if p0 = NULL then memory_allocate ?len s2 else (s2, p0)) = (s3, p)" by fastforce
  have nw: "do_slabs_newslab c s = (if \<not> ok then Some (s1, False) else if p = NULL then Some (s3, False)
      else (case split_slab_page_into_freelist p c (wipe p (unat ?len) s3) of None \<Rightarrow> None | Some s5 \<Rightarrow> Some (add_page c p s5, True)))"
    unfolding do_slabs_newslab_def Let_def if_not_P [OF lim] g1 g2 prod.case g3 ..
  have m1: "mem_base s1 = NULL" using G(5) m by simp
  note T = take_page_inv [OF G(1) m1 g2 g3]
  have fr3: "slab_frame s F s3" by (simp add: slab_frame_def T G)
  show ?thesis
  proof (cases "ok \<and> p \<noteq> NULL")
    case False
    let ?s = "if ok then s3 else s1"
    have "do_slabs_newslab c s = Some (?s, False)"
      using False by (auto simp: nw)
    moreover have "slab_inv ?s F H" "slab_frame s F ?s" "all_free ?s F = all_free s F"
      using G(1) T(1) fr1 fr3 T(3) G(3) by (simp_all add: all_free_def)
    ultimately show ?thesis by auto
  next
    case True
    have c3: "c \<in> {1..power_largest s3}" using c T(3) G(3) by simp
    have cl3: "cls s3 c = cls s1 c" using T(6) c G(3) by simp
    have fp: "fresh_page (owners s3) (pages s3) (extent s3) p (nat (slab_page_size (settings s)))" using T(2) True G(4) by simp
    have ex: "extent s3 c = extent s c" using inv_class(3) [OF T(1) c3] inv_class(3) [OF inv c] G(7) [of c] cl3 by simp
    note len = page_len_bounds [OF inv c]
    have sub: "region p (unat ?len) \<subseteq> region p (nat (slab_page_size (settings s)))" using len(2) by (auto simp: region_def)
    then have fl: "fresh_page (owners s3) (pages s3) (extent s3) p (unat ?len)" using fp unfolding fresh_page_def by blast
    have rm: "unat (slabs_n (cls s3 c)) < length (slab_list (cls s3 c))" using G(8) True cl3 by simp
    have sm: "(unat (slabs_n (cls s3 c)) + 1) * unat (perslab (cls s3 c)) < 2 ^ 32"
      using room G(7) [of c] cl3 by (simp add: class_room_def)
    from attach_page [OF T(1) c3 _ fl _ rm sm] len(1) ex True obtain s' F'
      where s': "split_slab_page_into_freelist p c (wipe p (unat ?len) s3) = Some s'" "slab_inv (add_page c p s') F' H" "F' c \<noteq> []"
        "lists_only (wipe p (unat ?len) s3) s'" "\<forall>b. b \<notin> region p (unat ?len) \<union> all_free s3 F \<longrightarrow> heap s' b = heap s3 b"
        "\<forall>d. set (F' d) \<subseteq> region p (unat ?len) \<union> set (F d)"
      by auto
    have pg: "pages s3 d = pages s d \<and> extent s3 d = extent s d" if d: "d \<in> {1..power_largest s}" for d
    proof -
      have "d \<in> owners s" "d \<noteq> 64" using inv_class(6,7) [OF inv d] by auto
      with G(9) [of d] G(7) [of d] T(6) [of d] d G(3) G(4) T(4) show ?thesis by (simp add: pages_def extent_def)
    qed
    then have sm: "slab_mem s3 = slab_mem s" using T(3) G(3) by (simp add: slab_mem_def)
    have fr: "all_free (add_page c p s') F' \<inter> slab_mem s \<subseteq> all_free s F"
      using s'(6) fresh_not_mem [OF T(1) fl] lists_onlyD(1) [OF s'(4)] T(3) G(3) unfolding sm
      by (fastforce simp: all_free_def add_page_def upd_cls_def)
    have "heap s' b = heap s b" if "b \<in> slab_mem s" "b \<notin> all_free s F" for b
      using s'(5) that fresh_not_mem [OF T(1) fl] T(3,7) G(2,3) sm by (simp add: all_free_def)
    then have "slab_frame s F (add_page c p s')"
      using lists_onlyD [OF s'(4)] T(3-5) G(3-5) by (simp add: slab_frame_def add_page_def upd_cls_def)
    then show ?thesis using True s'(1-3) fr by (auto simp: nw)
  qed
qed

lemma slab_frame_refl [simp]: "slab_frame s F s"
  by (simp add: slab_frame_def)

lemma alloc_inv:
  assumes inv: "slab_inv s F H" and c: "c \<in> {1..power_largest s}" and m: "mem_base s = NULL" and room: "class_room s c"
  shows "\<exists>s' p F'. do_slabs_alloc sz c fl s = Some (s', p) \<and> slab_frame s F s' \<and>
    (if p = NULL then slab_inv s' F' H \<and> sl_curr (cls s c) = 0
     else p \<notin> H c \<and> slab_inv s' F' (H(c := insert p (H c))) \<and> it_flags (heap s' p) = 0 \<and> refcount (heap s' p) = 1)"
proof -
  let ?new = "if sl_curr (cls s c) = 0 \<and> fl \<noteq> SLABS_ALLOC_NO_NEWPAGE then do_slabs_newslab c s else Some (s, True)"
  from newslab_inv [OF inv c m room] obtain s1 ok F1
    where n: "?new = Some (s1, ok)" "slab_inv s1 F1 H" "slab_frame s F s1" "sl_curr (cls s c) \<noteq> 0 \<longrightarrow> s1 = s \<and> F1 = F"
      "all_free s1 F1 \<inter> slab_mem s \<subseteq> all_free s F"
    using inv by (cases "sl_curr (cls s c) = 0 \<and> fl \<noteq> SLABS_ALLOC_NO_NEWPAGE") force+
  have pl: "power_largest s1 = power_largest s" using n(3) by (simp add: slab_frame_def)
  have c1: "c \<in> {1..power_largest s1}" using c pl by simp
  have al: "do_slabs_alloc sz c fl s = (if sl_curr (cls s1 c) \<noteq> 0 then Some (freelist_pop c s1, sc_slots (cls s1 c)) else Some (s1, NULL))"
    using c n(1) by (auto simp: do_slabs_alloc_def)
  note fl1 = free_length(2) [OF n(2) c1]
  show ?thesis
  proof (cases "F1 c")
    case Nil
    then have "sl_curr (cls s1 c) = 0" using fl1 by (simp add: unat_eq_zero)
    with al n Nil show ?thesis by auto
  next
    case (Cons a as)
    then have nz: "sl_curr (cls s1 c) \<noteq> 0" using fl1 by auto
    have "free_ok s1 F1" using n(2) by (simp add: slab_inv_def)
    note P = freelist_pop_free [OF this c1 Cons]
    let ?s = "freelist_pop c s1"
    have lo: "lists_only s1 ?s"
      by (simp add: lists_only_def freelist_pop_def upd_cls_def Let_def map_geo_update geo_def)
    have di: "distinct (a # as)" "a \<noteq> NULL" using free_listD [OF inv_class(10) [OF n(2) c1]] Cons by auto
    have aH: "a \<notin> H c" using inv_class(8) [OF n(2) c1] Cons by auto
    have "slab_inv ?s (F1(c := as)) (H(c := insert a (H c)))"
    proof (rule slab_inv_lists [OF n(2) lo])
      fix d assume "d \<in> {1..power_largest s1}"
      from inv_class(8,9) [OF n(2) this] di(1) Cons
      show "set ((F1(c := as)) d) \<inter> (H(c := insert a (H c))) d = {} \<and> set ((F1(c := as)) d) \<union> (H(c := insert a (H c))) d = chunks s1 d"
        by auto
    qed (use P in simp)
    moreover have "slab_frame s F ?s"
    proof -
      have "b \<notin> set (F1 c)" if "b \<in> slab_mem s" "b \<notin> all_free s F" for b
      proof -
        have "set (F1 c) \<subseteq> all_free s1 F1" using c1 by (auto simp: all_free_def)
        with n(5) that show ?thesis by blast
      qed
      with P n(3) lists_onlyD [OF lo] show ?thesis by (simp add: slab_frame_def)
    qed
    ultimately show ?thesis using al nz P di(2) aH by auto
  qed
qed

lemma slab_inv_frame:
  assumes inv: "slab_inv s F H" and "slabclass s' = slabclass s" "power_largest s' = power_largest s" "settings s' = settings s"
    "malloc_supply s' = malloc_supply s" and hp: "\<And>a. a \<in> all_free s F \<Longrightarrow> heap s' a = heap s a"
  shows "slab_inv s' F H"
proof -
  have "free_ok s F" using inv by (simp add: slab_inv_def)
  then have "free_ok s' F" by (rule free_ok_frame) (simp_all add: assms)
  moreover have "pages s' = pages s" "extent s' = extent s" "owners s' = owners s" "chunks s' = chunks s"
    by (auto simp: fun_eq_iff pages_def extent_def owners_def chunks_def assms)
  ultimately show ?thesis using inv by (simp add: slab_inv_def page_ok_def assms)
qed

lemma push_inv:
  assumes inv: "slab_inv s F H" and c: "c \<in> {1..power_largest s}" and a: "a \<in> H c"
    and fl: "it_flags (heap s a) = ITEM_SLABBED" "unat (slabs_clsid (heap s a)) = c"
    and small: "unat (slabs_n (cls s c)) * unat (perslab (cls s c)) < 2 ^ 32"
  shows "slab_inv (freelist_push c a s) (F(c := a # F c)) (H(c := H c - {a}))"
    "\<And>b. b \<noteq> a \<Longrightarrow> b \<notin> all_free s F \<Longrightarrow> heap (freelist_push c a s) b = heap s b"
    "lists_only s (freelist_push c a s)"
proof -
  note h = held_not_free [OF inv c a] and k = inv_class [OF inv c]
  have ok: "free_ok s F" using inv by (simp add: slab_inv_def)
  have "finite (H c)" using card_chunks(2) [OF inv c] unfolding k(9) [symmetric] by simp
  then have "0 < card (H c)" using a by (auto simp: card_gt_0_iff)
  then have len: "length (F c) + 1 < 2 ^ 32" using free_length(1) [OF inv c] small by linarith
  note P = freelist_push_free [OF ok c h(3,1) fl len]
  show lo: "lists_only s (freelist_push c a s)" by (rule lists_only_push)
  show "slab_inv (freelist_push c a s) (F(c := a # F c)) (H(c := H c - {a}))"
  proof (rule slab_inv_lists [OF inv lo P])
    fix d assume "d \<in> {1..power_largest s}"
    from inv_class(8,9) [OF inv this] a
    show "set ((F(c := a # F c)) d) \<inter> (H(c := H c - {a})) d = {} \<and> set ((F(c := a # F c)) d) \<union> (H(c := H c - {a})) d = chunks s d"
      by auto
  qed
  show "heap (freelist_push c a s) b = heap s b" if "b \<noteq> a" "b \<notin> all_free s F" for b
  proof -
    have "set (F c) \<subseteq> all_free s F" using c by (auto simp: all_free_def)
    moreover have "sc_slots (cls s c) \<noteq> NULL \<Longrightarrow> sc_slots (cls s c) \<in> set (F c)"
      using free_listD(3) [OF k(10)] by (auto split: if_splits)
    ultimately have "sc_slots (cls s c) \<noteq> NULL \<Longrightarrow> b \<noteq> sc_slots (cls s c)" using that by blast
    with that show ?thesis by (auto simp: freelist_push_heap Let_def)
  qed
qed

lemma free_inv:
  assumes inv: "slab_inv s F H" and c: "c \<in> {1..power_largest s}" and a: "a \<in> H c" "\<not> has_flag ITEM_CHUNKED (heap s a)"
    and small: "unat (slabs_n (cls s c)) * unat (perslab (cls s c)) < 2 ^ 32"
  shows "\<exists>s'. do_slabs_free a c s = Some s' \<and> slab_inv s' (F(c := a # F c)) (H(c := H c - {a})) \<and> lists_only s s' \<and>
    (\<forall>b. b \<noteq> a \<longrightarrow> b \<notin> all_free s F \<longrightarrow> heap s' b = heap s b)"
proof -
  let ?s1 = "upd_item a (\<lambda>i. i\<lparr>it_flags := ITEM_SLABBED, slabs_clsid := of_nat c\<rparr>) s"
  note h = held_not_free [OF inv c a(1)]
  have i1: "slab_inv ?s1 F H" by (rule slab_inv_frame [OF inv]) (use h(1) in auto)
  have c1: "c \<in> {1..power_largest ?s1}" using c by simp
  have f: "it_flags (heap ?s1 a) = ITEM_SLABBED" "unat (slabs_clsid (heap ?s1 a)) = c"
    using inv_class(6) [OF inv c] by (simp_all add: unat_of_nat)
  have sm: "unat (slabs_n (cls ?s1 c)) * unat (perslab (cls ?s1 c)) < 2 ^ 32" using small by simp
  note P = push_inv [OF i1 c1 a(1) f sm]
  have "do_slabs_free a c s = Some (freelist_push c a ?s1)" using c a(2) by (simp add: do_slabs_free_def)
  moreover have "lists_only s (freelist_push c a ?s1)" by (rule lists_only_trans [OF lists_only_upd_item P(3)])
  moreover have "heap (freelist_push c a ?s1) b = heap s b" if "b \<noteq> a" "b \<notin> all_free s F" for b
    using P(2) [of b] that by (simp add: all_free_def)
  ultimately show ?thesis using P(1) by blast
qed

text \<open>
  A large item: the chunks after its header form a chain. Each is in use and of the class it names.
\<close>

definition chunk_chain :: "'a slabs_scheme \<Rightarrow> (nat \<Rightarrow> addr set) \<Rightarrow> addr \<Rightarrow> addr list \<Rightarrow> bool" where
  "chunk_chain s H p as \<longleftrightarrow> chain (it_next \<circ> heap s) p as \<and>
    (\<forall>a \<in> set as. let c = unat (slabs_clsid (heap s a)) in c \<in> {1..power_largest s} \<and> a \<in> H c)"

definition no_overflow :: "'a slabs_scheme \<Rightarrow> bool" where
  "no_overflow s \<longleftrightarrow> (\<forall>c \<in> {1..power_largest s}. unat (slabs_n (cls s c)) * unat (perslab (cls s c)) < 2 ^ 32)"

lemma no_overflow_lists:
  assumes "lists_only s s'" "class_ok s"
  shows "no_overflow s' = no_overflow s"
proof -
  have "slabs_n (cls s' c) = slabs_n (cls s c) \<and> perslab (cls s' c) = perslab (cls s c)" if "c \<le> power_largest s" for c
    using geo_fields(2,3) [OF lists_onlyD(9) [OF assms(1)], of c] assms(2) that by (simp add: class_ok_def)
  then show ?thesis by (simp add: no_overflow_def lists_onlyD(1) [OF assms(1)])
qed

lemma free_chunks_inv:
  assumes "slab_inv s F H" "chunk_chain s H p as" "no_overflow s"
  shows "\<exists>s' F'. free_chunks_loop p s = Some s' \<and> slab_inv s' F' (\<lambda>c. H c - set as) \<and> lists_only s s' \<and>
    (\<forall>c. set (F' c) \<subseteq> set (F c) \<union> set as)"
  using assms
proof (induction as arbitrary: p s F H)
  case Nil
  then show ?case by (auto simp: chunk_chain_def free_chunks_loop.simps)
next
  case (Cons a as)
  let ?s1 = "upd_item a (it_flags_update (\<lambda>_. ITEM_SLABBED)) s" and ?c = "unat (slabs_clsid (heap s a))"
  from Cons.prems(2) have pa: "p = a" "a \<noteq> NULL" "chain (it_next \<circ> heap s) (it_next (heap s a)) as" "?c \<in> {1..power_largest s}" "a \<in> H ?c"
    by (auto simp: chunk_chain_def Let_def)
  have "chain (it_next \<circ> heap s) p (a # as)" using Cons.prems(2) by (simp add: chunk_chain_def)
  then have dist: "a \<notin> set as" using chain_distinct by fastforce
  note h = held_not_free [OF Cons.prems(1) pa(4,5)]
  have i1: "slab_inv ?s1 F H" by (rule slab_inv_frame [OF Cons.prems(1)]) (use h(1) in auto)
  have c1: "?c \<in> {1..power_largest ?s1}" and f: "it_flags (heap ?s1 a) = ITEM_SLABBED" "unat (slabs_clsid (heap ?s1 a)) = ?c"
    and sm: "unat (slabs_n (cls ?s1 ?c)) * unat (perslab (cls ?s1 ?c)) < 2 ^ 32"
    using pa(4) Cons.prems(3) by (auto simp: no_overflow_def)
  note P = push_inv [OF i1 c1 pa(5) f sm]
  let ?s2 = "freelist_push ?c a ?s1" and ?H = "H(?c := H ?c - {a})" and ?F = "F(?c := a # F ?c)"
  have lo: "lists_only s ?s2" by (rule lists_only_trans [OF lists_only_upd_item P(3)])
  have hp: "heap ?s2 b = heap s b" if b: "b \<in> set as" for b
  proof -
    from Cons.prems(2) b have "unat (slabs_clsid (heap s b)) \<in> {1..power_largest s}" "b \<in> H (unat (slabs_clsid (heap s b)))"
      by (auto simp: chunk_chain_def Let_def)
    from held_not_free(1) [OF Cons.prems(1) this] have "b \<notin> all_free ?s1 F" by (simp add: all_free_def)
    moreover have "b \<noteq> a" using b dist by auto
    ultimately show ?thesis using P(2) [of b] by simp
  qed
  have "seg (it_next \<circ> heap ?s2) (it_next (heap s a)) as NULL \<longleftrightarrow> seg (it_next \<circ> heap s) (it_next (heap s a)) as NULL"
    by (rule seg_cong) (use hp in simp)
  then have "chunk_chain ?s2 ?H (it_next (heap s a)) as"
    using pa(3) Cons.prems(2) dist hp lists_onlyD(1) [OF lo] by (auto simp: chunk_chain_def Let_def)
  moreover have "no_overflow ?s2"
    using no_overflow_lists [OF lo] Cons.prems(1,3) by (simp add: slab_inv_def free_ok_def)
  ultimately obtain s' F' where s': "free_chunks_loop (it_next (heap s a)) ?s2 = Some s'" "slab_inv s' F' (\<lambda>c. ?H c - set as)"
      "lists_only ?s2 s'" "\<forall>c. set (F' c) \<subseteq> set (?F c) \<union> set as"
    using Cons.IH [OF P(1)] by blast
  have "free_chunks_loop p s = Some s'"
    using pa(1,2) s'(1) by (subst free_chunks_loop.simps) (simp add: Let_def)
  moreover have "slab_inv s' F' (\<lambda>c. H c - set (a # as))"
  proof -
    have "\<forall>c \<in> {1..power_largest s'}. ?H c - set as = H c - set (a # as)"
      using h(4) lists_onlyD(1) [OF lo] lists_onlyD(1) [OF s'(3)] by auto
    with s'(2) show ?thesis by (simp add: slab_inv_def)
  qed
  moreover have "set (F' c) \<subseteq> set (F c) \<union> set (a # as)" for c using s'(4) by (auto split: if_splits)
  ultimately show ?case using lists_only_trans [OF lo s'(3)] by blast
qed

text \<open>
  A large item: its first chunk header lies in its own memory, behind the key, and names the
  class the item was taken from; the rest of the data is in a chain of further chunks.
\<close>

definition chunked_item :: "'a slabs_scheme \<Rightarrow> (nat \<Rightarrow> addr set) \<Rightarrow> addr \<Rightarrow> addr list \<Rightarrow> bool" where
  "chunked_item s H it as \<longleftrightarrow>
    (let ch = ITEM_schunk it (heap s it); c = unat (nkey (heap s ch)) in
     has_flag ITEM_CHUNKED (heap s it) \<and> c \<in> {1..power_largest s} \<and> it \<in> H c \<and>
     it \<notin> set as \<and> chunk_chain s H (it_next (heap s ch)) as)"

lemma free_chunked_inv:
  assumes inv: "slab_inv s F H" and it: "chunked_item s H it as" and nov: "no_overflow s"
  shows "\<exists>s' F'. do_slabs_free_chunked it s = Some s' \<and> slab_inv s' F' (\<lambda>c. H c - set (it # as)) \<and> lists_only s s'"
proof -
  define ch where "ch = ITEM_schunk it (heap s it)"
  define c where "c = unat (nkey (heap s ch))"
  define nx where "nx = it_next (heap s ch)"
  have I: "c \<in> {1..power_largest s}" "it \<in> H c" "it \<notin> set as" "chunk_chain s H nx as"
    using it by (simp_all add: chunked_item_def Let_def ch_def c_def nx_def)
  have ne: "ch \<noteq> it" by (simp add: ch_def ITEM_schunk_def)
  note h = held_not_free [OF inv I(1,2)]
  define s1 where "s1 = upd_item it (\<lambda>i. i\<lparr>it_flags := ITEM_SLABBED, it_prev := NULL\<rparr>) s"
  define s2 where "s2 = upd_item it (slabs_clsid_update (\<lambda>_. nkey (heap s ch))) s1"
  define s3 where "s3 = (if nx \<noteq> NULL then upd_item nx (it_prev_update (\<lambda>_. NULL)) s2 else s2)"
  have nxas: "nx \<in> set as" if "nx \<noteq> NULL" using I(4) that by (cases as) (auto simp: chunk_chain_def)
  have nf: "b \<notin> all_free s F" if b: "b \<in> set as" for b
    using I(4) b held_not_free(1) [OF inv] by (auto simp: chunk_chain_def Let_def)
  have "heap s3 b = heap s b" if "b \<in> all_free s F" for b
    using that h(1) nf nxas by (auto simp: s3_def s2_def s1_def)
  then have i3: "slab_inv s3 F H" by (rule slab_inv_frame [OF inv, rotated 4]) (simp_all add: s3_def s2_def s1_def)
  have nit: "nx \<noteq> NULL \<Longrightarrow> nx \<noteq> it" using nxas I(3) by auto
  have eq: "power_largest s3 = power_largest s" "slabclass s3 = slabclass s" by (simp_all add: s3_def s2_def s1_def)
  have c3: "c \<in> {1..power_largest s3}" and f: "it_flags (heap s3 it) = ITEM_SLABBED" "unat (slabs_clsid (heap s3 it)) = c"
    and sm: "unat (slabs_n (cls s3 c)) * unat (perslab (cls s3 c)) < 2 ^ 32"
    using I(1) nit nov by (auto simp: s3_def s2_def s1_def c_def no_overflow_def)
  note P = push_inv [OF i3 c3 I(2) f sm]
  let ?s4 = "freelist_push c it s3"
  have lo3: "lists_only s s3" by (simp add: lists_only_def s3_def s2_def s1_def)
  have lo: "lists_only s ?s4" by (rule lists_only_trans [OF lo3 P(3)])
  have hp: "it_next (heap ?s4 b) = it_next (heap s b) \<and> slabs_clsid (heap ?s4 b) = slabs_clsid (heap s b)" if b: "b \<in> set as" for b
  proof -
    have "b \<noteq> it" "b \<notin> all_free s3 F" using b I(3) nf by (auto simp: all_free_def eq)
    then have "heap ?s4 b = heap s3 b" by (rule P(2))
    with \<open>b \<noteq> it\<close> show ?thesis by (auto simp: s3_def s2_def s1_def)
  qed
  have "seg (it_next \<circ> heap ?s4) nx as NULL \<longleftrightarrow> seg (it_next \<circ> heap s) nx as NULL" by (rule seg_cong) (use hp in simp)
  then have "chunk_chain ?s4 (H(c := H c - {it})) nx as"
    using I(3,4) hp lists_onlyD(1) [OF lo] by (auto simp: chunk_chain_def Let_def)
  moreover have "no_overflow ?s4" using no_overflow_lists [OF lo] inv nov by (simp add: slab_inv_def free_ok_def)
  ultimately obtain s' F' where s': "free_chunks_loop nx ?s4 = Some s'" "slab_inv s' F' (\<lambda>d. (H(c := H c - {it})) d - set as)" "lists_only ?s4 s'"
    using free_chunks_inv [OF P(1)] by blast
  have e1: "heap s1 ch = heap s ch" "heap s2 ch = heap s ch" using ne by (simp_all add: s1_def s2_def)
  have "do_slabs_free_chunked it s = Some s'"
    unfolding do_slabs_free_chunked_def Let_def ch_def [symmetric] s1_def [symmetric] e1 s2_def [symmetric]
      nx_def [symmetric] s3_def [symmetric] c_def [symmetric] by (rule s'(1))
  moreover have "slab_inv s' F' (\<lambda>c. H c - set (it # as))"
  proof -
    have "\<forall>d \<in> {1..power_largest s'}. (H(c := H c - {it})) d - set as = H d - set (it # as)"
      using h(4) lists_onlyD(1) [OF lo] lists_onlyD(1) [OF s'(3)] by auto
    with s'(2) show ?thesis by (simp add: slab_inv_def)
  qed
  ultimately show ?thesis using lists_only_trans [OF lo s'(3)] by blast
qed

section \<open>Runs of the allocator\<close>

text \<open>
  \<open>H c\<close> are the chunks of class \<open>c\<close> in the hands of clients. A client writes to what it holds and to
  memory that is no chunk of a page (the offsets inside a chunk); it leaves the free chunks alone.
\<close>

inductive slab_run :: "'a slabs_scheme \<Rightarrow> (nat \<Rightarrow> addr set) \<Rightarrow> 'a slabs_scheme \<Rightarrow> (nat \<Rightarrow> addr set) \<Rightarrow> bool"
  for s0 H0 where
  run_start: "slab_run s0 H0 s0 H0"
| run_alloc: "\<lbrakk>slab_run s0 H0 s H; c \<in> {1..power_largest s}; class_room s c; slabs_alloc sz c fl s = Some (s', p)\<rbrakk>
    \<Longrightarrow> slab_run s0 H0 s' (if p = NULL then H else H(c := insert p (H c)))"
| run_free: "\<lbrakk>slab_run s0 H0 s H; c \<in> {1..power_largest s}; no_overflow s; a \<in> H c; \<not> has_flag ITEM_CHUNKED (heap s a);
      slabs_free a c s = Some s'\<rbrakk> \<Longrightarrow> slab_run s0 H0 s' (H(c := H c - {a}))"
| run_free_chunked: "\<lbrakk>slab_run s0 H0 s H; c \<in> {1..power_largest s}; no_overflow s; chunked_item s H a as;
      slabs_free a c s = Some s'\<rbrakk> \<Longrightarrow> slab_run s0 H0 s' (\<lambda>d. H d - set (a # as))"
| run_write: "\<lbrakk>slab_run s0 H0 s H; \<forall>c \<in> {1..power_largest s}. \<forall>a \<in> chunks s c - H c. h a = heap s a\<rbrakk>
    \<Longrightarrow> slab_run s0 H0 (s\<lparr>heap := h\<rparr>) H"

lemma slab_run_inv:
  assumes "slab_run s0 H0 s H" "slab_inv s0 F0 H0" "mem_base s0 = NULL"
  shows "mem_base s = NULL \<and> (\<exists>F. slab_inv s F H)"
  using assms
proof (induction rule: slab_run.induct)
  case run_start
  then show ?case by blast
next
  case (run_alloc s H c sz fl s' p)
  then obtain F where "slab_inv s F H" "mem_base s = NULL" by blast
  from alloc_inv [OF this(1) run_alloc.hyps(2) this(2) run_alloc.hyps(3), of sz fl] this(2) run_alloc.hyps(4)
  show ?case by (auto simp: slab_frame_def split: if_splits)
next
  case (run_free s H c a s')
  then obtain F where i: "slab_inv s F H" "mem_base s = NULL" by blast
  have "unat (slabs_n (cls s c)) * unat (perslab (cls s c)) < 2 ^ 32" using run_free.hyps(2,3) by (simp add: no_overflow_def)
  from free_inv [OF i(1) run_free.hyps(2,4,5) this] i(2) run_free.hyps(6) obtain F' where
    "slab_inv s' F' (H(c := H c - {a}))" "lists_only s s'" by auto
  with i(2) lists_onlyD(6) show ?case by metis
next
  case (run_free_chunked s H c a as s')
  then obtain F where i: "slab_inv s F H" "mem_base s = NULL" by blast
  have "has_flag ITEM_CHUNKED (heap s a)" using run_free_chunked.hyps(4) by (auto simp: chunked_item_def Let_def)
  then have "do_slabs_free_chunked a s = Some s'" using run_free_chunked.hyps(2,5) by (auto simp: do_slabs_free_def)
  with free_chunked_inv [OF i(1) run_free_chunked.hyps(4,3)] i(2) show ?case by (auto dest: lists_onlyD(6))
next
  case (run_write s H h)
  then obtain F where i: "slab_inv s F H" "mem_base s = NULL" by blast
  have "h a = heap s a" if "a \<in> all_free s F" for a
  proof -
    from that obtain c where c: "c \<in> {1..power_largest s}" "a \<in> set (F c)" by (auto simp: all_free_def)
    with inv_class(8,9) [OF i(1) c(1)] run_write.hyps(2) show ?thesis by blast
  qed
  then have "slab_inv (s\<lparr>heap := h\<rparr>) F H" by (intro slab_inv_frame [OF i(1)]) simp_all
  with i(2) show ?case by auto
qed

text \<open>Distinct chunks of the classes do not overlap.\<close>

lemma chunks_apart:
  assumes inv: "slab_inv s F H" and c: "c \<in> {1..power_largest s}" "a \<in> chunks s c" and d: "d \<in> {1..power_largest s}" "b \<in> chunks s d"
    and ne: "a \<noteq> b"
  shows "region a (unat (sc_size (cls s c))) \<inter> region b (unat (sc_size (cls s d))) = {}"
proof -
  have dj: "disj_pages (owners s) (pages s) (extent s)" using inv by (simp add: slab_inv_def page_ok_def)
  from c(2) obtain p i where p: "p \<in> set (pages s c)" "i < unat (perslab (cls s c))" "a = chunk_at (unat (sc_size (cls s c))) p i"
    by (auto simp: chunks_def)
  from d(2) obtain q j where q: "q \<in> set (pages s d)" "j < unat (perslab (cls s d))" "b = chunk_at (unat (sc_size (cls s d))) q j"
    by (auto simp: chunks_def)
  have inpage: "region (chunk_at z r k) z \<subseteq> region r (z * n)" if "k < n" for z r k n
  proof -
    have "(k + 1) * z \<le> n * z" using that by (intro mult_right_mono) simp_all
    then have "k * z + z \<le> z * n" by (simp add: algebra_simps)
    then show ?thesis by (auto simp: region_def chunk_at_def)
  qed
  note kc = inv_class [OF inv c(1)] and kd = inv_class [OF inv d(1)]
  show ?thesis
  proof (cases "(c, p) = (d, q)")
    case False
    have "region p (extent s c) \<inter> region q (extent s d) = {}" by (rule disj_pagesD [OF dj kc(7) kd(7) p(1) q(1) False])
    moreover have "region a (unat (sc_size (cls s c))) \<subseteq> region p (extent s c)" "region b (unat (sc_size (cls s d))) \<subseteq> region q (extent s d)"
      using inpage [OF p(2)] inpage [OF q(2)] p(3) q(3) kc(3) kd(3) by simp_all
    ultimately show ?thesis by blast
  next
    case True
    let ?z = "unat (sc_size (cls s c))"
    have ij: "i \<noteq> j" using ne p(3) q(3) True by auto
    have "i * ?z + ?z \<le> j * ?z \<or> j * ?z + ?z \<le> i * ?z"
    proof (cases "i < j")
      case True
      then have "(i + 1) * ?z \<le> j * ?z" by (intro mult_right_mono) simp_all
      then show ?thesis by simp
    next
      case False
      with ij have "(j + 1) * ?z \<le> i * ?z" by (intro mult_right_mono) simp_all
      then show ?thesis by simp
    qed
    then show ?thesis using p(3) q(3) True by (auto simp: region_def chunk_at_def)
  qed
qed

text \<open>A state to start from: one class of two chunks a page, no page yet, two pages to be had.\<close>

definition demo_settings :: settings where
  "demo_settings = \<lparr>maxbytes = 0, oldest_live = 0, oldest_cas = 0, evict_to_free = 1, chunk_size = 48, use_cas = True,
     item_size_max = 1024, slab_chunk_size_max = 512, slab_page_size = 1024, lru_maintainer_thread = False,
     lru_segmented = False, slab_reassign = True, slab_automove = 0, tail_repair_time = 0, hot_lru_pct = 20, warm_lru_pct = 40,
     temp_lru = False, temporary_ttl = 61\<rparr>"

definition demo_slabs :: slabs where
  "demo_slabs = assoc.extend demo_table \<lparr>settings = demo_settings, current_time = 100,
     slabclass = slabclass0 # slabclass0\<lparr>sc_size := 512, perslab := 2\<rparr> # replicate 62 slabclass0,
     mem_limit = 0, mem_malloced = 0, mem_limit_reached = False, power_largest = 1, mem_base = NULL, mem_current = NULL,
     mem_avail = 0, malloc_supply = [4096, 8192], realloc_supply = [True, True]\<rparr>"

lemma demo_slabs_inv: "slab_inv demo_slabs (\<lambda>_. []) (\<lambda>_. {})"
proof -
  let ?s = demo_slabs
  have f: "power_largest ?s = 1" "length (slabclass ?s) = 64" "settings ?s = demo_settings" "malloc_supply ?s = [4096, 8192]"
    and c1: "cls ?s 1 = slabclass0\<lparr>sc_size := 512, perslab := 2\<rparr>" and c0: "cls ?s 0 = slabclass0"
    by (simp_all add: demo_slabs_def assoc.extend_def)
  have ow: "owners ?s = {0, 1, 64}" by (auto simp: owners_def f)
  have pg: "pages ?s 0 = []" "pages ?s 1 = []" "pages ?s 64 = [4096, 8192]"
    using c0 c1 by (simp_all add: pages_def f slabclass0_def)
  have ex: "extent ?s 0 = 1024" "extent ?s 1 = 1024" "extent ?s 64 = 1024"
    using c1 by (simp_all add: extent_def f demo_settings_def)
  have "free_ok ?s (\<lambda>_. [])" using c1 by (simp add: free_ok_def class_ok_def free_list_def f slabclass0_def)
  moreover have "disj_pages (owners ?s) (pages ?s) (extent ?s)"
    unfolding ow by (auto simp: disj_pages_def pg [unfolded One_nat_def] ex [unfolded One_nat_def] region_def)
  moreover have "chunks ?s 1 = {}" using pg by (simp add: chunks_def)
  ultimately show ?thesis
    using c0 c1 ex pg unfolding slab_inv_def page_ok_def ow by (auto simp: f demo_settings_def list_wf_def slabclass0_def le_Suc_eq)
qed

section \<open>Properties\<close>

text \<open>
  C17. No chunk is lost and none is handed out twice. After any sequence of allocations, releases and
  writes by clients: in every class the free chunks and the chunks held by clients add up to all
  the chunks of its pages, and the memory of a held chunk overlaps with no other chunk held, in its
  class or another.
\<close>

theorem slabs_memory_safe:
  assumes "slab_run s0 H0 s H" "slab_inv s0 F0 H0" "mem_base s0 = NULL" "c \<in> {1..power_largest s}" "d \<in> {1..power_largest s}"
  shows "unat (sl_curr (cls s c)) + card (H c) = unat (slabs_n (cls s c)) * unat (perslab (cls s c)) \<and> H c \<subseteq> chunks s c \<and>
    (a \<in> H c \<and> b \<in> H d \<and> a \<noteq> b \<longrightarrow> region a (unat (sc_size (cls s c))) \<inter> region b (unat (sc_size (cls s d))) = {})"
proof -
  obtain F where inv: "slab_inv s F H" using slab_run_inv [OF assms(1-3)] by blast
  have sub: "H c \<subseteq> chunks s c" "H d \<subseteq> chunks s d" using inv_class(9) [OF inv assms(4)] inv_class(9) [OF inv assms(5)] by blast+
  then have "a \<in> H c \<and> b \<in> H d \<and> a \<noteq> b \<longrightarrow> region a (unat (sc_size (cls s c))) \<inter> region b (unat (sc_size (cls s d))) = {}"
    using chunks_apart [OF inv assms(4) _ assms(5), of a b] by blast
  with sub free_length [OF inv assms(4)] show ?thesis by simp
qed

lemma demo_slabs_fields:
  "power_largest demo_slabs = 1" "mem_base demo_slabs = NULL" "sl_curr (cls demo_slabs 1) = 0" "slabs_n (cls demo_slabs 1) = 0"
  "perslab (cls demo_slabs 1) = 2" "class_room demo_slabs 1"
  by (simp_all add: demo_slabs_def assoc.extend_def slabclass0_def class_room_def)

declare free_chunks_loop.simps [code]

lemma demo_alloc: "map_option snd (slabs_alloc 300 1 0 demo_slabs) = Some 4608"
  by code_simp

theorem slabs_memory_safe_witness:
  "\<exists>s p. slabs_alloc 300 1 0 demo_slabs = Some (s, p) \<and> p \<noteq> NULL \<and>
    unat (sl_curr (cls s 1)) + 1 = unat (slabs_n (cls s 1)) * unat (perslab (cls s 1))"
proof -
  have c: "1 \<in> {1..power_largest demo_slabs}" by (simp add: demo_slabs_fields)
  from alloc_inv [OF demo_slabs_inv c demo_slabs_fields(2,6), of 300 0] obtain s p F' where
    a: "slabs_alloc 300 1 0 demo_slabs = Some (s, p)" "slab_frame demo_slabs (\<lambda>_. []) s" by blast
  have "p \<noteq> NULL" using a(1) demo_alloc by simp
  have run: "slab_run demo_slabs (\<lambda>_. {}) s ((\<lambda>_. {})(1 := {p}))"
    using run_alloc [OF run_start c demo_slabs_fields(6) a(1)] \<open>p \<noteq> NULL\<close> by simp
  have c': "1 \<in> {1..power_largest s}" using a(2) c by (simp add: slab_frame_def)
  show ?thesis using slabs_memory_safe [OF run demo_slabs_inv demo_slabs_fields(2) c' c'] a(1) \<open>p \<noteq> NULL\<close> by auto
qed

text \<open>
  C18. Allocation. For a valid class it always returns. It returns NULL only when the class had no free
  chunk; otherwise the chunk was held by nobody before, comes with a cleared flag word and one
  reference, and no memory of the pages outside the free chunks has changed.
\<close>

theorem slabs_alloc_fresh:
  assumes "slab_inv s F H" "c \<in> {1..power_largest s}" "mem_base s = NULL" "class_room s c"
  shows "\<exists>s' p F'. slabs_alloc sz c fl s = Some (s', p) \<and>
    (if p = NULL then slab_inv s' F' H \<and> sl_curr (cls s c) = 0
     else (\<forall>d \<in> {1..power_largest s}. p \<notin> H d) \<and> slab_inv s' F' (H(c := insert p (H c))) \<and>
       it_flags (heap s' p) = 0 \<and> refcount (heap s' p) = 1) \<and>
    (\<forall>b \<in> slab_mem s. b \<notin> all_free s F \<longrightarrow> heap s' b = heap s b)"
proof -
  from alloc_inv [OF assms, of sz fl] obtain s' p F' where a: "slabs_alloc sz c fl s = Some (s', p)" "slab_frame s F s'"
    "if p = NULL then slab_inv s' F' H \<and> sl_curr (cls s c) = 0
     else p \<notin> H c \<and> slab_inv s' F' (H(c := insert p (H c))) \<and> it_flags (heap s' p) = 0 \<and> refcount (heap s' p) = 1" by blast
  have "p \<notin> H d" if p: "p \<noteq> NULL" and d: "d \<in> {1..power_largest s}" for d
  proof
    assume h: "p \<in> H d"
    have inv: "slab_inv s' F' (H(c := insert p (H c)))" "p \<notin> H c" and pl: "power_largest s' = power_largest s"
      using a(2,3) p by (simp_all add: slab_frame_def)
    have "d = c"
      by (rule held_not_free(4) [OF inv(1), of c p]) (use h d assms(2) pl in simp_all)
    with h inv(2) show False by simp
  qed
  with a show ?thesis unfolding slab_frame_def by (intro exI [of _ s'] exI [of _ p] exI [of _ F']) auto
qed

theorem slabs_alloc_fresh_witness:
  "\<exists>s' p. slabs_alloc 300 1 0 demo_slabs = Some (s', p) \<and> (\<forall>b \<in> slab_mem demo_slabs. heap s' b = heap demo_slabs b)"
  using slabs_alloc_fresh [OF demo_slabs_inv, of 1 300 0] demo_slabs_fields by (auto simp: all_free_def)

text \<open>
  C19. Release of a large item: the header chunk and every chunk of its chain go back to the free
  lists of the classes they came from, and nothing else does.
\<close>

theorem slabs_free_chunked_complete:
  assumes "slab_inv s F H" "chunked_item s H it as" "no_overflow s" "c \<in> {1..power_largest s}"
  shows "\<exists>s' F'. slabs_free it c s = Some s' \<and> slab_inv s' F' (\<lambda>d. H d - set (it # as)) \<and>
    (\<forall>d \<in> {1..power_largest s}. set (F' d) = set (F d) \<union> (H d \<inter> set (it # as)))"
proof -
  from free_chunked_inv [OF assms(1-3)] obtain s' F' where f: "do_slabs_free_chunked it s = Some s'"
    "slab_inv s' F' (\<lambda>c. H c - set (it # as))" "lists_only s s'" by blast
  have "has_flag ITEM_CHUNKED (heap s it)" using assms(2) by (auto simp: chunked_item_def Let_def)
  then have "slabs_free it c s = Some s'" using f(1) assms(4) by (auto simp: do_slabs_free_def)
  moreover have "set (F' d) = set (F d) \<union> (H d \<inter> set (it # as))" if d: "d \<in> {1..power_largest s}" for d
  proof -
    have l: "length (slabclass s) = 64" "power_largest s < 64" using assms(1) by (simp_all add: slab_inv_def free_ok_def class_ok_def)
    have d': "d \<in> {1..power_largest s'}" using d lists_onlyD(1) [OF f(3)] by simp
    have "chunks s' d = chunks s d" by (rule geometry_cong(4) [OF f(3) l d])
    with inv_class(8,9) [OF assms(1) d] inv_class(8,9) [OF f(2) d'] show ?thesis by blast
  qed
  ultimately show ?thesis using f(2) by blast
qed

text \<open>The single page of the class, both chunks held by a large item.\<close>

definition demo_large :: slabs where
  "demo_large = demo_slabs\<lparr>
     heap := (\<lambda>_. item0)(4096 := item0\<lparr>it_flags := ITEM_CHUNKED, nkey := 1\<rparr>, 4146 := item0\<lparr>nkey := 1, it_next := 4608\<rparr>,
       4608 := item0\<lparr>slabs_clsid := 1, it_flags := ITEM_CHUNK\<rparr>),
     slabclass := (slabclass demo_slabs)[1 := slabclass0\<lparr>sc_size := 512, perslab := 2, slabs_n := 1, slab_list := [4096], list_size := 1\<rparr>],
     malloc_supply := []\<rparr>"

lemma demo_large_inv: "slab_inv demo_large (\<lambda>_. []) ((\<lambda>_. {})(1 := {4096, 4608}))"
proof -
  let ?s = demo_large
  have f: "power_largest ?s = 1" "length (slabclass ?s) = 64" "settings ?s = demo_settings" "malloc_supply ?s = []"
    and c1: "cls ?s 1 = slabclass0\<lparr>sc_size := 512, perslab := 2, slabs_n := 1, slab_list := [4096], list_size := 1\<rparr>"
    and c0: "cls ?s 0 = slabclass0"
    by (simp_all add: demo_large_def demo_slabs_def assoc.extend_def)
  have ow: "owners ?s = {0, 1, 64}" by (auto simp: owners_def f)
  have pg: "pages ?s 0 = []" "pages ?s 1 = [4096]" "pages ?s 64 = []"
    using c0 c1 by (simp_all add: pages_def f slabclass0_def)
  have ex: "extent ?s 0 = 1024" "extent ?s 1 = 1024" "extent ?s 64 = 1024"
    using c1 by (simp_all add: extent_def f demo_settings_def)
  have "free_ok ?s (\<lambda>_. [])" using c1 by (simp add: free_ok_def class_ok_def free_list_def f slabclass0_def)
  moreover have "disj_pages (owners ?s) (pages ?s) (extent ?s)"
    unfolding ow by (auto simp: disj_pages_def pg [unfolded One_nat_def])
  moreover have "{..<2::nat} = {0, 1}" by auto
  then have "chunks ?s 1 = {4096, 4608}" using pg(2) c1 by (simp add: chunks_def chunk_at_def)
  ultimately show ?thesis
    using c0 c1 ex pg unfolding slab_inv_def page_ok_def ow by (auto simp: f demo_settings_def list_wf_def slabclass0_def le_Suc_eq)
qed

theorem slabs_free_chunked_complete_witness:
  "\<exists>s' F'. slabs_free 4096 1 demo_large = Some s' \<and> slab_inv s' F' (\<lambda>_. {}) \<and> set (F' 1) = {4096, 4608}"
proof -
  have h: "heap demo_large 4096 = item0\<lparr>it_flags := ITEM_CHUNKED, nkey := 1\<rparr>" "heap demo_large 4146 = item0\<lparr>nkey := 1, it_next := 4608\<rparr>"
    "heap demo_large 4608 = item0\<lparr>slabs_clsid := 1, it_flags := ITEM_CHUNK\<rparr>" "power_largest demo_large = 1"
    by (simp_all add: demo_large_def demo_slabs_def assoc.extend_def)
  have "ITEM_schunk 4096 (heap demo_large 4096) = 4146" by (simp add: h ITEM_schunk_def has_flag_def item0_def)
  then have ci: "chunked_item demo_large ((\<lambda>_. {})(1 := {4096, 4608})) 4096 [4608]"
    by (simp add: chunked_item_def chunk_chain_def h has_flag_def item0_def)
  have no: "no_overflow demo_large"
    by (simp add: no_overflow_def demo_large_def demo_slabs_def assoc.extend_def slabclass0_def)
  have c: "1 \<in> {1..power_largest demo_large}" by (simp add: h)
  have e: "(\<lambda>d. ((\<lambda>_. {})(1 := {4096, 4608})) d - set [4096, 4608]) = (\<lambda>_. {} :: addr set)" by (auto simp: fun_eq_iff)
  from slabs_free_chunked_complete [OF demo_large_inv ci no c] c show ?thesis unfolding e by fastforce
qed

lemma clsid_loop_least:
  assumes "r \<le> power_largest s"
  shows "r \<le> clsid_loop s sz r \<and> clsid_loop s sz r \<le> power_largest s \<and>
    (\<forall>d. r \<le> d \<and> d < clsid_loop s sz r \<longrightarrow> ucast (sc_size (cls s d)) < sz) \<and>
    (clsid_loop s sz r < power_largest s \<longrightarrow> sz \<le> ucast (sc_size (cls s (clsid_loop s sz r))))"
  using assms
proof (induction s sz r rule: clsid_loop.induct)
  case (1 s sz res)
  note le = 1(2)
  show ?case
  proof (cases "sz > ucast (sc_size (cls s res)) \<and> res < power_largest s")
    case False
    then have "clsid_loop s sz res = res" using le by (subst clsid_loop.simps) auto
    with False le show ?thesis by (auto simp: not_less)
  next
    case True
    have e: "clsid_loop s sz res = clsid_loop s sz (res + 1)" using True by (subst clsid_loop.simps) auto
    have ih: "res + 1 \<le> clsid_loop s sz (res + 1) \<and> clsid_loop s sz (res + 1) \<le> power_largest s \<and>
      (\<forall>d. res + 1 \<le> d \<and> d < clsid_loop s sz (res + 1) \<longrightarrow> ucast (sc_size (cls s d)) < sz) \<and>
      (clsid_loop s sz (res + 1) < power_largest s \<longrightarrow> sz \<le> ucast (sc_size (cls s (clsid_loop s sz (res + 1)))))"
      using 1 True by auto
    have "ucast (sc_size (cls s d)) < sz" if "res \<le> d" "d < clsid_loop s sz (res + 1)" for d
      using ih that True by (cases "d = res") auto
    with ih show ?thesis unfolding e by auto
  qed
qed

text \<open>
  The size class: 0 for an empty or too large request, otherwise the least class whose chunks
  fit, when one does, and the largest class when none does.
\<close>

lemma slabs_clsid_least:
  assumes "1 \<le> power_largest s"
  shows "(slabs_clsid_of s sz = 0 \<longleftrightarrow> sz = 0 \<or> sz > word_of_int (item_size_max (settings s))) \<and>
    (slabs_clsid_of s sz \<noteq> 0 \<longrightarrow> slabs_clsid_of s sz \<in> {1..power_largest s} \<and>
      (\<forall>d. 1 \<le> d \<and> d < slabs_clsid_of s sz \<longrightarrow> ucast (slabs_size s d) < sz) \<and>
      (slabs_clsid_of s sz < power_largest s \<longrightarrow> sz \<le> ucast (slabs_size s (slabs_clsid_of s sz))))"
  using clsid_loop_least [OF assms, of sz] by (auto simp: slabs_clsid_of_def slabs_size_def)

lemma slabs_clsid_least_witness:
  "slabs_clsid_of demo_slabs 300 = 1 \<and> slabs_clsid_of demo_slabs 0 = 0 \<and> slabs_clsid_of demo_slabs 5000 = 0"
proof -
  have m: "item_size_max (settings demo_slabs) = 1024" by (simp add: demo_slabs_def assoc.extend_def demo_settings_def)
  note l = slabs_clsid_least [of demo_slabs, unfolded demo_slabs_fields, simplified]
  show ?thesis using l [of 300] l [of 0] l [of 5000] by (auto simp: m)
qed

text \<open>The largest class of a fresh server has chunks of \<^verbatim>\<open>slab_chunk_size_max\<close> bytes.\<close>

lemma init_loop_frame:
  assumes "init_loop am tf ss i sz s = (s', j)" "i \<le> 63"
  shows "j \<le> 63 \<and> length (slabclass s') = length (slabclass s) \<and> settings s' = settings s"
  using assms
proof (induction am tf ss i sz s rule: init_loop.induct)
  case (1 am tf ss i sz s)
  let ?stop = "case ss of Some l \<Rightarrow> l ! (i - 1) = 0 | None \<Rightarrow> am sz"
  show ?case
  proof (cases "i \<ge> 63 \<or> ?stop")
    case True
    then have "init_loop am tf ss i sz s = (s, i)" by (subst init_loop.simps) auto
    with 1 show ?thesis by simp
  next
    case False
    define z where "z = align32 (case ss of Some l \<Rightarrow> l ! (i - 1) | None \<Rightarrow> sz)"
    define t where "t = upd_cls i (\<lambda>p. p\<lparr>sc_size := z, perslab := word_of_int (slab_page_size (settings s)) div z\<rparr>) s"
    have e: "init_loop am tf ss i sz s = init_loop am tf ss (i + 1) (if ss = None then tf z else z) t"
      using False by (subst init_loop.simps) (simp add: z_def t_def Let_def)
    have "j \<le> 63 \<and> length (slabclass s') = length (slabclass t) \<and> settings s' = settings t"
      by (rule "1.IH" [OF _ _ z_def t_def refl]) (use False "1.prems" e in auto)
    then show ?thesis by (simp add: t_def upd_cls_def)
  qed
qed

lemma slabs_init_largest:
  assumes "slabs_init am tf lim False ss large ext reuse env s = Some (s', ok)"
  shows "sc_size (cls s' (power_largest s')) = word_of_int (slab_chunk_size_max (settings s'))"
proof -
  let ?s = "s\<lparr>mem_limit := lim, slabclass := replicate 64 slabclass0\<rparr>"
  obtain t i where l: "init_loop am tf ss 1 (48 + word_of_int (chunk_size (settings s))) ?s = (t, i)" by fastforce
  have f: "i < length (slabclass t)" "settings t = settings s" using init_loop_frame [OF l] by simp_all
  then show ?thesis using assms l by (auto simp: slabs_init_def upd_cls_def Let_def split: option.splits prod.splits if_splits)
qed

end
