(* ===== verification/Slab_Reassign.thy ===== *)
theory Slab_Reassign
  imports Slabs_Alloc
begin

text \<open>
  The first half of the page mover of \<^verbatim>\<open>slabs.c\<close>: the request to move a page from one class to another,
  the start of a move, and the two helpers that work on the free list. The half that moves items is
  in the theory \<^verbatim>\<open>Slab_Rebalance\<close>, after the items. A chunk the mover has taken off the free list counts
  as held, by the mover.
\<close>

section \<open>State\<close>

record slab_rebalance =
  slab_start :: addr
  slab_end :: addr
  slab_pos :: addr
  s_clsid :: int
  d_clsid :: int
  busy_items :: uint32
  rescues :: uint32
  evictions_nomem :: uint32
  inline_reclaim :: uint32
  chunk_rescues :: uint32
  busy_deletes :: uint32
  busy_loops :: uint32
  rb_done :: byte
  completed :: "byte list"

text \<open>
  \<open>pick_cur\<close> is the static variable of \<^verbatim>\<open>slabs_reassign_pick_any\<close>; \<open>rebalance_locked\<close> tells whether
  another thread holds \<^verbatim>\<open>slabs_rebalance_lock\<close>.
\<close>

record rebal = slabs +
  slab_rebalance_signal :: int
  slab_rebal :: slab_rebalance
  pick_cur :: int
  rebalance_locked :: bool
  slab_reassign_running :: bool

datatype reassign_result_type = REASSIGN_OK | REASSIGN_RUNNING | REASSIGN_BADCLASS | REASSIGN_NOSPARE | REASSIGN_SRC_DST_SAME

definition upd_rebal :: "(slab_rebalance \<Rightarrow> slab_rebalance) \<Rightarrow> 'a rebal_scheme \<Rightarrow> 'a rebal_scheme" where
  "upd_rebal f s = s\<lparr>slab_rebal := f (slab_rebal s)\<rparr>"

section \<open>Requests\<close>

text \<open>The loop over the classes, from the one after the last pick, at most once around.\<close>

fun pick_loop :: "nat \<Rightarrow> int \<Rightarrow> int \<Rightarrow> 'a rebal_scheme \<Rightarrow> int \<times> int" where
  "pick_loop 0 dst cur s = (cur, - 1)"
| "pick_loop (Suc tries) dst cur s =
    (let cur1 = cur + 1;
         cur2 = (if cur1 > int (power_largest s) then int POWER_SMALLEST else cur1)
     in if cur2 = dst then pick_loop tries dst cur2 s
        else if slabs_n (cls s (nat cur2)) > 1 then (cur2, cur2)
        else pick_loop tries dst cur2 s)"

definition slabs_reassign_pick_any :: "int \<Rightarrow> 'a rebal_scheme \<Rightarrow> 'a rebal_scheme \<times> int" where
  "slabs_reassign_pick_any dst s =
    (case pick_loop (power_largest s) dst (pick_cur s) s of (cur, ret) \<Rightarrow> (s\<lparr>pick_cur := cur\<rparr>, ret))"

definition do_slabs_reassign :: "int \<Rightarrow> int \<Rightarrow> 'a rebal_scheme \<Rightarrow> 'a rebal_scheme \<times> reassign_result_type" where
  "do_slabs_reassign src dst s =
    (if slab_rebalance_signal s \<noteq> 0 then (s, REASSIGN_RUNNING)
     else if src = dst then (s, REASSIGN_SRC_DST_SAME)
     else let (s1, src1) = (if src = - 1 then slabs_reassign_pick_any dst s else (s, src))
          in if src1 < 0 \<or> src1 > int (power_largest s1) \<or> dst < 0 \<or> dst > int (power_largest s1) then (s1, REASSIGN_BADCLASS)
             else if slabs_n (cls s1 (nat src1)) < 2 then (s1, REASSIGN_NOSPARE)
             else ((upd_rebal (\<lambda>r. r\<lparr>s_clsid := src1, d_clsid := dst\<rparr>) s1)\<lparr>slab_rebalance_signal := 1\<rparr>, REASSIGN_OK))"

definition slabs_reassign :: "int \<Rightarrow> int \<Rightarrow> 'a rebal_scheme \<Rightarrow> 'a rebal_scheme \<times> reassign_result_type" where
  "slabs_reassign src dst s = (if rebalance_locked s then (s, REASSIGN_RUNNING) else do_slabs_reassign src dst s)"

section \<open>Start of a move\<close>

text \<open>
  The list of pages of the destination is grown before the checks are evaluated, and later checks
  overwrite the error of earlier ones.
\<close>

definition slab_rebalance_start :: "'a rebal_scheme \<Rightarrow> 'a rebal_scheme \<times> int" where
  "slab_rebalance_start s =
    (let r = slab_rebal s;
         no_go = (if s_clsid r < 0 \<or> s_clsid r > int (power_largest s) \<or> d_clsid r < 0 \<or> d_clsid r > int (power_largest s) \<or>
                     s_clsid r = d_clsid r then - 2 else 0);
         (s1, ok) = grow_slab_list (nat (d_clsid r)) s;
         no_go = (if \<not> ok then - 1 else no_go);
         s_cls = cls s1 (nat (s_clsid r));
         no_go = (if slabs_n s_cls < 2 then - 3 else no_go)
     in if no_go \<noteq> 0 then (s1, no_go)
        else let start = slab_list s_cls ! 0
             in ((upd_rebal (\<lambda>r. r\<lparr>slab_start := start, slab_end := start + unat (sc_size s_cls * perslab s_cls),
                    slab_pos := start, rb_done := (if s_clsid r = 0 then 1 else 0),
                    completed := replicate (unat (perslab s_cls)) 0\<rparr>) s1)
                   \<lparr>slab_rebalance_signal := 2, slab_reassign_running := True\<rparr>, 0))"

section \<open>Work on the free list\<close>

text \<open>A chunk for an item that is moved; a chunk of the page to be cleared is marked and the next one tried.\<close>

fun rebalance_alloc_loop :: "nat \<Rightarrow> uint64 \<Rightarrow> nat \<Rightarrow> 'a rebal_scheme \<Rightarrow> ('a rebal_scheme \<times> addr) option" where
  "rebalance_alloc_loop 0 sz cid s = Some (s, NULL)"
| "rebalance_alloc_loop (Suc n) sz cid s =
    (case do_slabs_alloc sz cid SLABS_ALLOC_NO_NEWPAGE s of None \<Rightarrow> None
     | Some (s1, new_it) \<Rightarrow>
        if new_it = NULL then Some (s1, NULL)
        else if slab_start (slab_rebal s1) \<le> new_it \<and> new_it < slab_end (slab_rebal s1)
        then rebalance_alloc_loop n sz cid
               (upd_rebal (\<lambda>r. r\<lparr>inline_reclaim := inline_reclaim r + 1\<rparr>)
                 (upd_item new_it (\<lambda>i. i\<lparr>refcount := 0, it_flags := ITEM_SLABBED OR ITEM_FETCHED\<rparr>) s1))
        else Some (s1, new_it))"

definition slab_rebalance_alloc :: "uint64 \<Rightarrow> nat \<Rightarrow> 'a rebal_scheme \<Rightarrow> ('a rebal_scheme \<times> addr) option" where
  "slab_rebalance_alloc sz cid s =
    rebalance_alloc_loop (unat (perslab (cls s (nat (s_clsid (slab_rebal s)))))) sz cid s"

definition slab_rebalance_cut_free :: "nat \<Rightarrow> addr \<Rightarrow> 'a slabs_scheme \<Rightarrow> 'a slabs_scheme" where
  "slab_rebalance_cut_free cid it s =
    (let s1 = (if sc_slots (cls s cid) = it then upd_cls cid (\<lambda>p. p\<lparr>sc_slots := it_next (heap s it)\<rparr>) s else s);
         nx = it_next (heap s1 it);
         s2 = (if nx \<noteq> NULL then upd_item nx (it_prev_update (\<lambda>_. it_prev (heap s1 it))) s1 else s1);
         pv = it_prev (heap s2 it);
         s3 = (if pv \<noteq> NULL then upd_item pv (it_next_update (\<lambda>_. it_next (heap s2 it))) s2 else s2)
     in upd_cls cid (\<lambda>p. p\<lparr>sl_curr := sl_curr p - 1\<rparr>) s3)"

section \<open>Detaching a free chunk\<close>

lemma cut_free_inv:
  assumes inv: "slab_inv s F H" and c: "c \<in> {1..power_largest s}" and F: "F c = xs @ a # ys"
  shows "slab_inv (slab_rebalance_cut_free c a s) (F(c := xs @ ys)) (H(c := insert a (H c)))"
    "lists_only s (slab_rebalance_cut_free c a s)"
    "\<And>b. b \<notin> set (xs @ ys) \<Longrightarrow> heap (slab_rebalance_cut_free c a s) b = heap s b"
proof -
  let ?s = "slab_rebalance_cut_free c a s" and ?n = "it_next (heap s a)" and ?p = "it_prev (heap s a)"
  note k = inv_class [OF inv c]
  have fc: "free_list s c (xs @ a # ys)" using k(10) F by simp
  then obtain t where dl: "dll (it_next \<circ> heap s) (it_prev \<circ> heap s) (sc_slots (cls s c)) (xs @ a # ys) t" by (auto simp: free_list_def)
  note sp = dll_split [OF dl, unfolded o_def]
  have di: "distinct (xs @ a # ys)" by (rule dll_distinct [OF dl])
  have na: "?n \<noteq> a" "?p \<noteq> a" "?n \<noteq> NULL \<Longrightarrow> ?n \<in> set ys" "?p \<noteq> NULL \<Longrightarrow> ?p \<in> set xs"
    using sp(1-3) di by (auto split: if_splits)
  have pn: "?n \<noteq> NULL \<Longrightarrow> ?p \<noteq> ?n" using na di by auto
  have lt: "c < length (slabclass s)" using k(6) inv by (simp add: slab_inv_def free_ok_def class_ok_def)
  have hp: "heap ?s b = (if b = ?n \<and> ?n \<noteq> NULL then (heap s b)\<lparr>it_prev := ?p\<rparr>
      else if b = ?p \<and> ?p \<noteq> NULL then (heap s b)\<lparr>it_next := ?n\<rparr> else heap s b)" for b
    using na(1,2) pn by (auto simp: slab_rebalance_cut_free_def Let_def upd_cls_def)
  have cl: "cls ?s d = (if d = c then (cls s d)\<lparr>sc_slots := (if sc_slots (cls s c) = a then ?n else sc_slots (cls s c)), sl_curr := sl_curr (cls s d) - 1\<rparr> else cls s d)" for d
    using lt by (auto simp: slab_rebalance_cut_free_def Let_def upd_cls_def nth_update_if)
  show lo: "lists_only s ?s"
    by (simp add: lists_only_def slab_rebalance_cut_free_def Let_def upd_cls_def map_geo_update geo_def)
  show frame: "heap ?s b = heap s b" if "b \<notin> set (xs @ ys)" for b using na that by (auto simp: hp)
  have nx: "it_next \<circ> heap ?s = (if ?p = NULL then it_next \<circ> heap s else (it_next \<circ> heap s)(?p := ?n))"
    and pv: "it_prev \<circ> heap ?s = (if ?n = NULL then it_prev \<circ> heap s else (it_prev \<circ> heap s)(?n := ?p))"
    using pn by (auto simp: fun_eq_iff hp)
  have "free_list ?s d ((F(c := xs @ ys)) d)" if d: "d \<in> {1..power_largest s}" for d
  proof (cases "d = c")
    case True
    have sl: "sc_slots (cls ?s c) = (if sc_slots (cls s c) = a then ?n else sc_slots (cls s c))" by (simp add: cl)
    have "dll (it_next \<circ> heap ?s) (it_prev \<circ> heap ?s) (sc_slots (cls ?s c)) (xs @ ys) (if t = a then ?p else t)"
      using dll_remove [OF dl] unfolding nx pv sl by (simp only: o_apply)
    then have "\<exists>t. dll (it_next \<circ> heap ?s) (it_prev \<circ> heap ?s) (sc_slots (cls ?s c)) (xs @ ys) t" by blast
    moreover have "unat (sl_curr (cls s c) - 1) = length (xs @ ys)"
      using fc by (subst unat_minus_le) (auto simp: free_list_def)
    ultimately show ?thesis using True fc by (auto simp: free_list_def cl hp)
  next
    case False
    have fd: "free_list s d (F d)" using inv_class(10) [OF inv d] .
    have "free_list ?s d (F d)"
    proof (rule free_list_frame [OF fd])
      fix b assume "b \<in> set (F d)"
      then have "b \<notin> set (xs @ ys)" using free_disjoint [OF fd fc] False by auto
      then have "heap ?s b = heap s b" by (rule frame)
      then show "it_next (heap ?s b) = it_next (heap s b) \<and> it_prev (heap ?s b) = it_prev (heap s b) \<and>
        it_flags (heap ?s b) = it_flags (heap s b) \<and> slabs_clsid (heap ?s b) = slabs_clsid (heap s b)" by simp
    qed (use False in \<open>simp_all add: cl\<close>)
    with False show ?thesis by simp
  qed
  then have ok: "free_ok ?s (F(c := xs @ ys))"
    using inv lists_onlyD(1,2) [OF lo] by (simp add: slab_inv_def free_ok_def class_ok_def)
  show "slab_inv ?s (F(c := xs @ ys)) (H(c := insert a (H c)))"
  proof (rule slab_inv_lists [OF inv lo ok])
    fix d assume "d \<in> {1..power_largest s}"
    from inv_class(8,9) [OF inv this] F di
    show "set ((F(c := xs @ ys)) d) \<inter> (H(c := insert a (H c))) d = {} \<and> set ((F(c := xs @ ys)) d) \<union> (H(c := insert a (H c))) d = chunks s d"
      by auto
  qed
qed

end
