(* ===== verification/Bip_Buffer.thy ===== *)
theory Bip_Buffer
  imports Prelude
begin

text \<open>
  Model of \<^verbatim>\<open>bipbuffer.c\<close>, the bipartite ring buffer that carries log records, watcher output, crawler
  output and LRU bump entries between threads. The record has the fields of \<^verbatim>\<open>bipbuf_t\<close> at their C
  widths; a pointer into \<^verbatim>\<open>data\<close> is its offset and NULL is \<open>None\<close>. A \<^verbatim>\<open>const int size\<close> argument
  is an \<open>int\<close>. The promises of the buffer are stated as a locale of byte queues.
\<close>

section \<open>Model\<close>

record bipbuf =
  size_f :: uint64
  a_start :: uint32
  a_end :: uint32
  b_end :: uint32
  b_inuse :: bool
  data_f :: bytes

definition bipbuf_sizeof :: "uint32 \<Rightarrow> uint64" where
  "bipbuf_sizeof sz = 24 + ucast sz"

definition bipbuf_unused :: "bipbuf \<Rightarrow> int" where
  "bipbuf_unused me =
    (if b_inuse me then sint (a_start me - b_end me)
     else sint (ucast (size_f me - ucast (a_end me)) :: uint32))"

definition bipbuf_size :: "bipbuf \<Rightarrow> int" where
  "bipbuf_size me = sint (ucast (size_f me) :: uint32)"

definition bipbuf_used :: "bipbuf \<Rightarrow> int" where
  "bipbuf_used me = sint ((a_end me - a_start me) + b_end me)"

definition bipbuf_init :: "bipbuf \<Rightarrow> uint32 \<Rightarrow> bipbuf" where
  "bipbuf_init me sz =
    me\<lparr>a_start := 0, a_end := 0, b_end := 0, size_f := ucast sz, b_inuse := False\<rparr>"

text \<open>
  The argument \<open>mem\<close> is what \<^verbatim>\<open>malloc\<close> returns for the request, the bytes behind the header, or
  nothing. \<^verbatim>\<open>bipbuf_free\<close> only gives the memory back.
\<close>

definition bipbuf_new :: "bytes option \<Rightarrow> uint32 \<Rightarrow> bipbuf option" where
  "bipbuf_new mem sz =
    (case mem of None \<Rightarrow> None
     | Some d \<Rightarrow> Some (bipbuf_init
         \<lparr>size_f = 0, a_start = 0, a_end = 0, b_end = 0, b_inuse = False, data_f = d\<rparr> sz))"

definition bipbuf_is_empty :: "bipbuf \<Rightarrow> bool" where
  "bipbuf_is_empty me \<longleftrightarrow> a_start me = a_end me"

definition check_for_switch_to_b :: "bipbuf \<Rightarrow> bipbuf" where
  "check_for_switch_to_b me =
    (if size_f me - ucast (a_end me) < ucast (a_start me - b_end me) then me\<lparr>b_inuse := True\<rparr> else me)"

definition bipbuf_request :: "bipbuf \<Rightarrow> int \<Rightarrow> nat option" where
  "bipbuf_request me sz =
    (if bipbuf_unused me < sz then None
     else if b_inuse me then Some (unat (b_end me))
     else Some (unat (a_end me)))"

definition bipbuf_push :: "bipbuf \<Rightarrow> int \<Rightarrow> bipbuf \<times> int" where
  "bipbuf_push me sz =
    (if bipbuf_unused me < sz then (me, 0)
     else (check_for_switch_to_b
            (if b_inuse me then me\<lparr>b_end := b_end me + word_of_int sz\<rparr>
             else me\<lparr>a_end := a_end me + word_of_int sz\<rparr>), sz))"

text \<open>\<^verbatim>\<open>memcpy\<close> of \<open>src\<close> to the offset \<open>off\<close> of the buffer.\<close>

definition copy_at :: "bytes \<Rightarrow> nat \<Rightarrow> bytes \<Rightarrow> bytes" where
  "copy_at d off src = take off d @ src @ drop (off + length src) d"

definition bipbuf_offer :: "bipbuf \<Rightarrow> bytes \<Rightarrow> int \<Rightarrow> bipbuf \<times> int" where
  "bipbuf_offer me src sz =
    (if bipbuf_unused me < sz then (me, 0)
     else (check_for_switch_to_b
            (if b_inuse me
             then me\<lparr>data_f := copy_at (data_f me) (unat (b_end me)) (take (nat sz) src),
                     b_end := b_end me + word_of_int sz\<rparr>
             else me\<lparr>data_f := copy_at (data_f me) (unat (a_end me)) (take (nat sz) src),
                     a_end := a_end me + word_of_int sz\<rparr>), sz))"

definition bipbuf_peek :: "bipbuf \<Rightarrow> uint32 \<Rightarrow> nat option" where
  "bipbuf_peek me sz =
    (if size_f me < ucast (a_start me + sz) then None
     else if bipbuf_is_empty me then None
     else Some (unat (a_start me)))"

definition bipbuf_peek_all :: "bipbuf \<Rightarrow> (nat \<times> uint32) option" where
  "bipbuf_peek_all me =
    (if bipbuf_is_empty me then None
     else Some (unat (a_start me), a_end me - a_start me))"

definition bipbuf_poll :: "bipbuf \<Rightarrow> uint32 \<Rightarrow> bipbuf \<times> nat option" where
  "bipbuf_poll me sz =
    (if bipbuf_is_empty me then (me, None)
     else if size_f me < ucast (a_start me + sz) then (me, None)
     else
       let end = unat (a_start me);
           me1 = me\<lparr>a_start := a_start me + sz\<rparr>;
           me2 = (if a_start me1 = a_end me1
                  then if b_inuse me1
                       then me1\<lparr>a_start := 0, a_end := b_end me1, b_end := 0, b_inuse := False\<rparr>
                       else me1\<lparr>a_start := 0, a_end := 0\<rparr>
                  else me1)
       in (check_for_switch_to_b me2, Some end))"

section \<open>The interface: a bounded queue of bytes\<close>

text \<open>
  The operations of one writer and one reader, and a schedule of them. \<open>put_bytes\<close> appends bytes or
  refuses; \<open>avail\<close> is the part of the queue that can be read in one piece; \<open>read_bytes\<close> takes
  bytes from the front.
\<close>

datatype queue_op = Write bytes | Read nat

fun run_queue :: "('s \<Rightarrow> bytes \<Rightarrow> 's \<times> bool) \<Rightarrow> ('s \<Rightarrow> bytes) \<Rightarrow> ('s \<Rightarrow> nat \<Rightarrow> 's \<times> bytes) \<Rightarrow>
    queue_op list \<Rightarrow> 's \<Rightarrow> 's \<times> bytes \<times> bytes" where
  "run_queue wr av rd [] s = (s, [], [])"
| "run_queue wr av rd (Write bs # ops) s =
    (let (s1, ok) = wr s bs; (s', ins, outs) = run_queue wr av rd ops s1
     in (s', (if ok then bs @ ins else ins), outs))"
| "run_queue wr av rd (Read n # ops) s =
    (let (s1, bs) = rd s (min n (length (av s))); (s', ins, outs) = run_queue wr av rd ops s1
     in (s', ins, bs @ outs))"

locale byte_queue =
  fixes invar :: "'s \<Rightarrow> bool"
    and contents :: "'s \<Rightarrow> bytes"
    and limit :: "'s \<Rightarrow> nat"
    and put_bytes :: "'s \<Rightarrow> bytes \<Rightarrow> 's \<times> bool"
    and avail :: "'s \<Rightarrow> bytes"
    and read_bytes :: "'s \<Rightarrow> nat \<Rightarrow> 's \<times> bytes"
  assumes avail_prefix: "invar s \<Longrightarrow> \<exists>rest. contents s = avail s @ rest"
    and avail_nonempty: "\<lbrakk>invar s; contents s \<noteq> []\<rbrakk> \<Longrightarrow> avail s \<noteq> []"
    and within_limit: "invar s \<Longrightarrow> length (contents s) \<le> limit s"
    and write_law: "\<lbrakk>invar s; length bs < 2 ^ 31; put_bytes s bs = (s', ok)\<rbrakk> \<Longrightarrow>
      invar s' \<and> limit s' = limit s \<and> contents s' = (if ok then contents s @ bs else contents s)"
    and read_law: "\<lbrakk>invar s; n \<le> length (avail s); read_bytes s n = (s', bs)\<rbrakk> \<Longrightarrow>
      invar s' \<and> limit s' = limit s \<and> bs = take n (contents s) \<and> contents s' = drop n (contents s)"
begin

definition op_ok :: "queue_op \<Rightarrow> bool" where
  "op_ok op \<longleftrightarrow> (case op of Write bs \<Rightarrow> length bs < 2 ^ 31 | Read n \<Rightarrow> True)"

text \<open>Nothing is lost, duplicated or reordered, over any schedule of writes and reads.\<close>

lemma run_queue_fifo:
  assumes "invar s" and "\<forall>op \<in> set ops. op_ok op"
    and "run_queue put_bytes avail read_bytes ops s = (s', ins, outs)"
  shows "invar s' \<and> limit s' = limit s \<and> outs @ contents s' = contents s @ ins"
  using assms
proof (induction ops arbitrary: s ins outs)
  case (Cons op ops)
  show ?case
  proof (cases op)
    case (Write bs)
    obtain s1 ok where w: "put_bytes s bs = (s1, ok)" by fastforce
    obtain s2 i2 o2 where r: "run_queue put_bytes avail read_bytes ops s1 = (s2, i2, o2)"
      using prod_cases3 by blast
    then have r': "run_queue put_bytes avail read_bytes ops s1 = (s', i2, o2)"
      using Cons.prems(3) Write w by simp
    have "invar s1 \<and> limit s1 = limit s \<and> contents s1 = (if ok then contents s @ bs else contents s)"
      using write_law [OF Cons.prems(1) _ w] Cons.prems(2) Write by (simp add: op_ok_def)
    then show ?thesis using Cons.IH [OF _ _ r'] Cons.prems Write w r by (auto split: if_splits)
  next
    case (Read n)
    obtain s1 bs where w: "read_bytes s (min n (length (avail s))) = (s1, bs)" by fastforce
    obtain s2 i2 o2 where r: "run_queue put_bytes avail read_bytes ops s1 = (s2, i2, o2)"
      using prod_cases3 by blast
    then have r': "run_queue put_bytes avail read_bytes ops s1 = (s', i2, o2)"
      using Cons.prems(3) Read w by simp
    have "invar s1 \<and> limit s1 = limit s \<and> bs @ contents s1 = contents s"
      using read_law [OF Cons.prems(1) _ w] by simp
    then show ?thesis using Cons.IH [OF _ _ r'] Cons.prems Read w r
      by (auto simp flip: append_assoc) (simp add: append_assoc)
  qed
qed simp

text \<open>A reader that asks again and again gets everything: a non-empty queue always yields a byte.\<close>

lemma read_progress:
  assumes "invar s" "contents s \<noteq> []" "read_bytes s (length (avail s)) = (s', bs)"
  shows "length (contents s') < length (contents s)"
  using read_law [OF assms(1) order_refl assms(3)] avail_nonempty [OF assms(1,2)]
    avail_prefix [OF assms(1)] by auto

end

section \<open>The buffer keeps the contract\<close>

definition bip_invar :: "bipbuf \<Rightarrow> bool" where
  "bip_invar me \<longleftrightarrow>
    length (data_f me) = unat (size_f me) \<and> unat (size_f me) < 2 ^ 31 \<and>
    unat (a_start me) \<le> unat (a_end me) \<and> unat (a_end me) \<le> unat (size_f me) \<and>
    (if b_inuse me then unat (b_end me) \<le> unat (a_start me) else b_end me = 0) \<and>
    (a_start me = a_end me \<longrightarrow> a_start me = 0)"

definition region_a :: "bipbuf \<Rightarrow> bytes" where
  "region_a me = take (unat (a_end me) - unat (a_start me)) (drop (unat (a_start me)) (data_f me))"

definition bip_contents :: "bipbuf \<Rightarrow> bytes" where
  "bip_contents me = region_a me @ take (unat (b_end me)) (data_f me)"

definition bip_put :: "bipbuf \<Rightarrow> bytes \<Rightarrow> bipbuf \<times> bool" where
  "bip_put me bs = (let (me', r) = bipbuf_offer me bs (int (length bs)) in (me', r = int (length bs)))"

definition bip_avail :: "bipbuf \<Rightarrow> bytes" where
  "bip_avail me = (case bipbuf_peek_all me of None \<Rightarrow> []
     | Some (off, k) \<Rightarrow> take (unat k) (drop off (data_f me)))"

definition bip_read :: "bipbuf \<Rightarrow> nat \<Rightarrow> bipbuf \<times> bytes" where
  "bip_read me n = (case bipbuf_poll me (of_nat n) of (me', None) \<Rightarrow> (me', [])
     | (me', Some off) \<Rightarrow> (me', take n (drop off (data_f me))))"

text \<open>What is free is the gap between the regions, or the tail of the buffer.\<close>

definition bip_free :: "bipbuf \<Rightarrow> nat" where
  "bip_free me = (if b_inuse me then unat (a_start me) - unat (b_end me)
    else unat (size_f me) - unat (a_end me))"

lemma bipbuf_unused_eq:
  assumes "bip_invar me"
  shows "bipbuf_unused me = int (bip_free me)"
proof (cases "b_inuse me")
  case True
  then have "unat (a_start me - b_end me) = bip_free me"
    using assms by (simp add: bip_invar_def unat_minus_le bip_free_def)
  moreover have "bip_free me < 2 ^ 31" using assms True by (auto simp: bip_invar_def bip_free_def)
  ultimately show ?thesis using True by (simp add: bipbuf_unused_def sint_small)
next
  case False
  have "unat (size_f me - ucast (a_end me)) = bip_free me"
    using assms False by (simp add: bip_invar_def unat_minus_le unat_ucast_up bip_free_def)
  moreover have l: "bip_free me < 2 ^ 31" using assms False by (auto simp: bip_invar_def bip_free_def)
  ultimately have "unat (ucast (size_f me - ucast (a_end me)) :: uint32) = bip_free me"
    by (subst unat_ucast_up) simp_all
  then show ?thesis using False l by (simp add: bipbuf_unused_def sint_small)
qed

lemma check_for_switch_to_b_eq:
  assumes "bip_invar me"
  shows "bip_invar (check_for_switch_to_b me)" "bip_contents (check_for_switch_to_b me) = bip_contents me"
    "size_f (check_for_switch_to_b me) = size_f me"
  using assms by (auto simp: check_for_switch_to_b_def bip_invar_def bip_contents_def region_a_def)

lemma region_a_Nil: "bip_invar me \<Longrightarrow> region_a me = [] \<longleftrightarrow> bipbuf_is_empty me"
  by (auto simp: region_a_def bipbuf_is_empty_def bip_invar_def word_unat_eq_iff split: if_splits)

lemma bip_avail_eq: "bip_invar me \<Longrightarrow> bip_avail me = region_a me"
  by (cases "bipbuf_is_empty me")
    (auto simp: bip_avail_def bipbuf_peek_all_def region_a_Nil region_a_def bip_invar_def
      bipbuf_is_empty_def unat_minus_le)

lemma length_bip_contents:
  "bip_invar me \<Longrightarrow> length (bip_contents me) = unat (a_end me) - unat (a_start me) + unat (b_end me)"
  by (auto simp: bip_contents_def region_a_def bip_invar_def split: if_splits)

lemma length_copy_at: "off + length bs \<le> length d \<Longrightarrow> length (copy_at d off bs) = length d"
  by (simp add: copy_at_def)

lemma drop_copy_at: "\<lbrakk>off + length bs \<le> k; off + length bs \<le> length d\<rbrakk> \<Longrightarrow> drop k (copy_at d off bs) = drop k d"
  by (simp add: copy_at_def)

lemma take_copy_at:
  "\<lbrakk>k \<le> off; off \<le> length d\<rbrakk> \<Longrightarrow> take k (copy_at d off bs) = take k d"
  "off \<le> length d \<Longrightarrow> take (off + length bs) (copy_at d off bs) = take off d @ bs"
  by (simp_all add: copy_at_def min_def)

lemma unat_plus_of_nat:
  "unat (w :: uint32) + n < 2 ^ 32 \<Longrightarrow> unat (w + word_of_int (int n)) = unat w + n"
  by (subst unat_plus_small) (simp_all add: unat_of_nat)

text \<open>Appending at the end of the region in use, the step \<^verbatim>\<open>bipbuf_offer\<close> and \<^verbatim>\<open>bipbuf_push\<close> share.\<close>

definition bip_append :: "bipbuf \<Rightarrow> bytes \<Rightarrow> bipbuf" where
  "bip_append me bs =
    (if b_inuse me
     then me\<lparr>data_f := copy_at (data_f me) (unat (b_end me)) bs, b_end := b_end me + word_of_int (int (length bs))\<rparr>
     else me\<lparr>data_f := copy_at (data_f me) (unat (a_end me)) bs, a_end := a_end me + word_of_int (int (length bs))\<rparr>)"

lemma bip_append_law:
  assumes "bip_invar me" and "length bs \<le> bip_free me"
  shows "bip_invar (bip_append me bs) \<and> bip_contents (bip_append me bs) = bip_contents me @ bs \<and>
    size_f (bip_append me bs) = size_f me"
proof (cases "b_inuse me")
  case True
  then have l: "unat (b_end me) + length bs \<le> unat (a_start me)"
    "unat (a_start me) \<le> unat (a_end me)" "unat (a_end me) \<le> length (data_f me)"
    using assms by (auto simp: bip_invar_def bip_free_def)
  moreover have "unat (b_end me + word_of_int (int (length bs))) = unat (b_end me) + length bs"
    using l unat_bound [of "a_start me"] by (intro unat_plus_of_nat) simp
  ultimately show ?thesis
    using assms True
    by (simp add: bip_append_def bip_invar_def bip_contents_def region_a_def length_copy_at drop_copy_at
        take_copy_at)
next
  case False
  then have l: "unat (a_end me) + length bs \<le> length (data_f me)" "length (data_f me) < 2 ^ 31"
    "unat (a_start me) \<le> unat (a_end me)"
    using assms by (auto simp: bip_invar_def bip_free_def)
  moreover have e: "unat (a_end me + word_of_int (int (length bs))) = unat (a_end me) + length bs"
    using l by (intro unat_plus_of_nat) simp
  moreover have "take (unat (a_end me) + length bs - unat (a_start me))
      (drop (unat (a_start me)) (copy_at (data_f me) (unat (a_end me)) bs)) = region_a me @ bs"
    using l by (simp add: take_copy_at region_a_def flip: drop_take)
  moreover have "a_start me = a_end me + word_of_int (int (length bs)) \<Longrightarrow> a_start me = 0"
    using assms e l by (auto simp: bip_invar_def word_unat_eq_iff)
  ultimately show ?thesis
    using assms False
    by (simp add: bip_append_def bip_invar_def bip_contents_def region_a_def length_copy_at)
qed

lemma bipbuf_offer_eq:
  assumes "bip_invar me"
  shows "bipbuf_offer me bs (int (length bs)) =
    (if bip_free me < length bs then (me, 0)
     else (check_for_switch_to_b (bip_append me bs), int (length bs)))"
  using assms by (simp add: bipbuf_offer_def bipbuf_unused_eq bip_append_def)

text \<open>The state after a poll, before the region B is considered again.\<close>

lemma bipbuf_poll_law:
  assumes inv: "bip_invar me" and n: "n \<le> length (region_a me)" and ne: "\<not> bipbuf_is_empty me"
  shows "\<exists>me'. bipbuf_poll me (of_nat n) = (me', Some (unat (a_start me))) \<and> bip_invar me' \<and>
    size_f me' = size_f me \<and> bip_contents me' = drop n (bip_contents me)"
proof -
  have len: "length (region_a me) = unat (a_end me) - unat (a_start me)"
    using inv by (auto simp: region_a_def bip_invar_def)
  have sz: "unat (a_start me) + n \<le> unat (a_end me)" "unat (a_end me) < 2 ^ 31"
    using inv n len by (auto simp: bip_invar_def)
  have un: "unat (a_start me + of_nat n) = unat (a_start me) + n"
    using sz unat_plus_of_nat [of "a_start me" n] by simp
  define me1 where "me1 = me\<lparr>a_start := a_start me + of_nat n\<rparr>"
  define me2 where "me2 = (if a_start me1 = a_end me1
    then if b_inuse me1 then me1\<lparr>a_start := 0, a_end := b_end me1, b_end := 0, b_inuse := False\<rparr>
         else me1\<lparr>a_start := 0, a_end := 0\<rparr> else me1)"
  have poll: "bipbuf_poll me (of_nat n) = (check_for_switch_to_b me2, Some (unat (a_start me)))"
    using ne inv sz un
    by (simp add: bipbuf_poll_def me1_def me2_def word_less_nat_alt unat_ucast_up bip_invar_def)
  have eqv: "a_start me1 = a_end me1 \<longleftrightarrow> unat (a_start me) + n = unat (a_end me)"
    by (simp add: me1_def word_unat_eq_iff un)
  have "bip_invar me2 \<and> bip_contents me2 = drop n (bip_contents me) \<and> size_f me2 = size_f me"
  proof (cases "a_start me1 = a_end me1")
    case True
    with eqv len have "length (region_a me) = n" by simp
    with True inv show ?thesis
      by (auto simp: me2_def me1_def bip_invar_def bip_contents_def region_a_def [of "_\<lparr>a_end := _\<rparr>"] region_a_def
          split: if_splits)
  next
    case False
    have "region_a me1 = drop n (region_a me)"
      by (simp add: me1_def region_a_def un drop_take add.commute)
    with False inv sz un n show ?thesis
      by (auto simp: me2_def bip_contents_def) (auto simp: me1_def bip_invar_def split: if_splits)
  qed
  with poll check_for_switch_to_b_eq [of me2] show ?thesis by auto
qed

interpretation bip: byte_queue bip_invar bip_contents "\<lambda>me. unat (size_f me)" bip_put bip_avail bip_read
proof
  fix s :: bipbuf assume inv: "bip_invar s"
  show "\<exists>rest. bip_contents s = bip_avail s @ rest"
    using inv by (simp add: bip_avail_eq bip_contents_def)
  show "length (bip_contents s) \<le> unat (size_f s)"
    using inv length_bip_contents [OF inv] by (auto simp: bip_invar_def split: if_splits)
  show "bip_avail s \<noteq> []" if "bip_contents s \<noteq> []"
    using inv that region_a_Nil [OF inv]
    by (auto simp: bip_avail_eq bip_contents_def bipbuf_is_empty_def bip_invar_def split: if_splits)
next
  fix s s' bs ok assume "bip_invar s" "bip_put s bs = (s', ok)"
  then show "bip_invar s' \<and> unat (size_f s') = unat (size_f s) \<and>
      bip_contents s' = (if ok then bip_contents s @ bs else bip_contents s)"
    using bip_append_law [of s bs] check_for_switch_to_b_eq [of "bip_append s bs"]
    by (auto simp: bip_put_def bipbuf_offer_eq not_less split: if_splits)
next
  fix s s' n bs assume inv: "bip_invar s" and n: "n \<le> length (bip_avail s)" and r: "bip_read s n = (s', bs)"
  have n': "n \<le> length (region_a s)" using n inv by (simp add: bip_avail_eq)
  show "bip_invar s' \<and> unat (size_f s') = unat (size_f s) \<and> bs = take n (bip_contents s) \<and>
      bip_contents s' = drop n (bip_contents s)"
  proof (cases "bipbuf_is_empty s")
    case True
    then have "n = 0" using n' region_a_Nil [OF inv] by simp
    with True inv r show ?thesis by (auto simp: bip_read_def bipbuf_poll_def)
  next
    case False
    have "take n (drop (unat (a_start s)) (data_f s)) = take n (region_a s)"
      using n' by (simp add: region_a_def min_absorb1)
    with bipbuf_poll_law [OF inv n' False] r n' show ?thesis
      by (auto simp: bip_read_def bip_contents_def [of s])
  qed
qed

section \<open>Properties\<close>

lemma bip_invar_init:
  "length d = unat sz \<Longrightarrow> unat sz < 2 ^ 31 \<Longrightarrow> bipbuf_new (Some d) sz = Some me \<Longrightarrow>
    bip_invar me \<and> bip_contents me = [] \<and> unat (size_f me) = unat sz"
  by (auto simp: bipbuf_new_def bipbuf_init_def bip_invar_def bip_contents_def region_a_def unat_ucast_up)

lemma bip_used_eq:
  assumes "bip_invar me"
  shows "bipbuf_used me = int (length (bip_contents me))"
proof -
  have l: "unat (b_end me) \<le> unat (a_start me)" "unat (a_start me) \<le> unat (a_end me)" "unat (a_end me) < 2 ^ 31"
    using assms by (auto simp: bip_invar_def split: if_splits)
  then have "unat (a_end me - a_start me + b_end me) = length (bip_contents me)"
    using length_bip_contents [OF assms] by (subst unat_plus_small) (auto simp: unat_minus_le)
  moreover have "length (bip_contents me) < 2 ^ 31"
    using l length_bip_contents [OF assms] by simp
  ultimately show ?thesis by (simp add: bipbuf_used_def sint_small)
qed

lemma bip_empty_iff: "bip_invar me \<Longrightarrow> bipbuf_is_empty me \<longleftrightarrow> bip_contents me = []"
  using bip.avail_nonempty [of me] by (auto simp: bip_contents_def bip_avail_eq region_a_Nil
      bipbuf_is_empty_def bip_invar_def split: if_splits)

text \<open>
  C24. A buffer made by \<^verbatim>\<open>bipbuf_new\<close> is a first-in first-out queue of bytes: over every schedule of
  offers and of polls of at most what \<^verbatim>\<open>bipbuf_peek_all\<close> shows, the bytes polled followed by the
  bytes still held are exactly the bytes of the accepted offers, in order. \<^verbatim>\<open>bipbuf_used\<close> is the
  number of bytes held, never more than the size, and \<^verbatim>\<open>bipbuf_is_empty\<close> tells whether it is zero.
\<close>

theorem bipbuf_fifo:
  assumes "length d = unat sz" and "unat sz < 2 ^ 31" and "bipbuf_new (Some d) sz = Some me"
    and "\<forall>op \<in> set ops. (case op of Write bs \<Rightarrow> length bs < 2 ^ 31 | Read n \<Rightarrow> True)"
    and "run_queue bip_put bip_avail bip_read ops me = (me', ins, outs)"
  shows "outs @ bip_contents me' = ins \<and> bipbuf_used me' = int (length (bip_contents me')) \<and>
    bipbuf_used me' \<le> int (unat sz) \<and> (bipbuf_is_empty me' \<longleftrightarrow> outs = ins)"
proof -
  have ini: "bip_invar me" "bip_contents me = []" "unat (size_f me) = unat sz"
    using bip_invar_init [OF assms(1,2,3)] by auto
  have r: "bip_invar me' \<and> unat (size_f me') = unat (size_f me) \<and> outs @ bip_contents me' = bip_contents me @ ins"
    using bip.run_queue_fifo [OF ini(1) _ assms(5)] assms(4) by (simp add: bip.op_ok_def)
  then have "length (bip_contents me') \<le> unat sz" using bip.within_limit [of me'] ini(3) by simp
  then have "int (length (bip_contents me')) \<le> int (unat sz)" by (rule zle_int [THEN iffD2])
  with r ini bip_used_eq [of me'] bip_empty_iff [of me'] show ?thesis by auto
qed

theorem bipbuf_fifo_witness:
  "fst (snd (run_queue bip_put bip_avail bip_read [Write [1, 2, 3], Read 2, Write [4, 5], Read 1, Read 9]
     (the (bipbuf_new (Some [0, 0, 0, 0]) 4)))) = [1, 2, 3, 4, 5] \<and>
   snd (snd (run_queue bip_put bip_avail bip_read [Write [1, 2, 3], Read 2, Write [4, 5], Read 1, Read 9]
     (the (bipbuf_new (Some [0, 0, 0, 0]) 4)))) = [1, 2, 3, 4, 5]"
proof -
  note bips = bipbuf_new_def bipbuf_init_def bip_put_def bip_avail_def bip_read_def bipbuf_offer_def
    bipbuf_unused_def check_for_switch_to_b_def copy_at_def bipbuf_peek_all_def bipbuf_is_empty_def bipbuf_poll_def
  define me where "me = the (bipbuf_new (Some [0, 0, 0, 0]) 4)"
  have n: "bipbuf_new (Some [0, 0, 0, 0]) 4 = Some me" by (simp add: me_def bips)
  define R where "R = run_queue bip_put bip_avail bip_read [Write [1, 2, 3], Read 2, Write [4, 5], Read 1, Read 9] me"
  have "R = (\<lparr>size_f = 4, a_start = 0, a_end = 0, b_end = 0, b_inuse = False, data_f = [4, 5, 3, 0]\<rparr>,
      [1, 2, 3, 4, 5], [1, 2, 3, 4, 5])"
    by (simp add: R_def me_def bips)
  with bipbuf_fifo [OF _ _ n, of "[Write [1, 2, 3], Read 2, Write [4, 5], Read 1, Read 9]"] show ?thesis
    by (simp add: R_def me_def [symmetric])
qed

text \<open>
  Reserving with \<^verbatim>\<open>bipbuf_request\<close>, filling the reserved bytes in place and committing with
  \<^verbatim>\<open>bipbuf_push\<close> is the same as one \<^verbatim>\<open>bipbuf_offer\<close>, also when fewer bytes are committed than were
  reserved; a commit after a granted request never fails, the place lies within the buffer,
  and a request is refused exactly when an offer of that size would be.
\<close>

theorem bipbuf_request_push:
  assumes "bip_invar me" and "length bs \<le> rsv" and "rsv < 2 ^ 31"
  shows "(case bipbuf_request me (int rsv) of
     None \<Rightarrow> bipbuf_offer me (bs @ pad) (int rsv) = (me, 0) \<and> bip_free me < rsv
   | Some off \<Rightarrow> off + rsv \<le> length (data_f me) \<and>
       bipbuf_push (me\<lparr>data_f := copy_at (data_f me) off bs\<rparr>) (int (length bs)) =
       bipbuf_offer me bs (int (length bs)) \<and>
       snd (bipbuf_offer me bs (int (length bs))) = int (length bs))"
proof -
  have un: "bipbuf_unused (me\<lparr>data_f := dd\<rparr>) = bipbuf_unused me" for dd
    by (simp add: bipbuf_unused_def)
  have "(if b_inuse me then unat (b_end me) else unat (a_end me)) + rsv \<le> length (data_f me)"
    if "rsv \<le> bip_free me"
    using assms(1) that by (auto simp: bip_free_def bip_invar_def split: if_splits)
  then show ?thesis
    using assms by (auto simp: bipbuf_request_def bipbuf_push_def bipbuf_offer_def bipbuf_unused_eq un)
qed

theorem bipbuf_request_push_witness:
  "bipbuf_push (\<lparr>size_f = 4, a_start = 0, a_end = 1, b_end = 0, b_inuse = False, data_f = [7, 8, 9, 0]\<rparr>) 2 =
   bipbuf_offer \<lparr>size_f = 4, a_start = 0, a_end = 1, b_end = 0, b_inuse = False, data_f = [7, 0, 0, 0]\<rparr> [8, 9] 2"
  using bipbuf_request_push [of "\<lparr>size_f = 4, a_start = 0, a_end = 1, b_end = 0, b_inuse = False, data_f = [7, 0, 0, 0]\<rparr>"
      "[8, 9]" 3 "[]"]
  by (simp add: bip_invar_def bipbuf_request_def bipbuf_unused_def copy_at_def)



end
