(* ===== verification/Items_Link.thy ===== *)
theory Items_Link
  imports Slab_Reassign Bip_Buffer "HOL-Library.Monad_Syntax" "HOL-Library.Signed_Division"
begin

text \<open>
  The life of an item in \<^verbatim>\<open>items.c\<close>: the LRU queues, linking and unlinking, reference counts, lazy
  expiration on a fetch, and the hit markers. An operation runs under the item lock of its key and
  is one step of the model. \<open>None\<close> is a walk along a corrupted list that does not end. The \<^verbatim>\<open>EXTSTORE\<close>
  build is modelled; what is deleted from the external store is recorded as a list of events.
\<close>

section \<open>State\<close>

record itemstats_t =
  evicted :: uint64
  evicted_nonzero :: uint64
  reclaimed :: uint64
  outofmemory :: uint64
  tailrepairs :: uint64
  expired_unfetched :: uint64
  evicted_unfetched :: uint64
  evicted_active :: uint64
  crawler_reclaimed :: uint64
  crawler_items_checked :: uint64
  lrutail_reflocked :: uint64
  moves_to_cold :: uint64
  moves_to_warm :: uint64
  moves_within_lru :: uint64
  direct_reclaims :: uint64
  hits_to_hot :: uint64
  hits_to_warm :: uint64
  hits_to_cold :: uint64
  hits_to_temp :: uint64
  mem_requested :: uint64
  evicted_time :: uint32

record lru_bump_buf =
  bump_data :: bipbuf
  dropped :: uint64

text \<open>
  The globals of \<^verbatim>\<open>items.c\<close>, the counters of \<^verbatim>\<open>stats\<close> and \<^verbatim>\<open>stats_state\<close> it keeps, and the two counters of the
  worker thread it touches. The bump buffers are named by numbers; \<open>bump_q\<close> is their list.
\<close>

record items = rebal +
  heads :: "addr list"
  tails :: "addr list"
  itemstats :: "itemstats_t list"
  lru_sizes :: "uint32 list"
  sizes_bytes :: "uint64 list"
  stats_sizes_hist :: "uint32 list option"
  stats_sizes_cas_min :: uint64
  stats_sizes_buckets :: int
  cas_id :: uint64
  curr_bytes :: uint64
  curr_items :: uint64
  total_items :: uint64
  get_flushed :: uint64
  get_expired :: uint64
  ext_deleted :: "item list"
  bump_buf :: "nat \<Rightarrow> lru_bump_buf"
  bump_q :: "nat list"

abbreviation (input) LARGEST_ID :: nat where "LARGEST_ID \<equiv> 256"
abbreviation (input) HOT_LRU :: byte where "HOT_LRU \<equiv> 0"
abbreviation (input) WARM_LRU :: byte where "WARM_LRU \<equiv> 64"
abbreviation (input) COLD_LRU :: byte where "COLD_LRU \<equiv> 128"
abbreviation (input) TEMP_LRU :: byte where "TEMP_LRU \<equiv> 192"

definition upd_stat :: "nat \<Rightarrow> (itemstats_t \<Rightarrow> itemstats_t) \<Rightarrow> 'a items_scheme \<Rightarrow> 'a items_scheme" where
  "upd_stat i f s = s\<lparr>itemstats := (itemstats s)[i := f (itemstats s ! i)]\<rparr>"

definition itemstats0 :: itemstats_t where
  "itemstats0 = \<lparr>evicted = 0, evicted_nonzero = 0, reclaimed = 0, outofmemory = 0, tailrepairs = 0, expired_unfetched = 0,
     evicted_unfetched = 0, evicted_active = 0, crawler_reclaimed = 0, crawler_items_checked = 0, lrutail_reflocked = 0,
     moves_to_cold = 0, moves_to_warm = 0, moves_within_lru = 0, direct_reclaims = 0, hits_to_hot = 0, hits_to_warm = 0,
     hits_to_cold = 0, hits_to_temp = 0, mem_requested = 0, evicted_time = 0\<rparr>"

definition item_stats_reset :: "'a items_scheme \<Rightarrow> 'a items_scheme" where
  "item_stats_reset s = s\<lparr>itemstats := map (\<lambda>_. itemstats0) (itemstats s)\<rparr>"

definition do_item_stats_add_crawl :: "nat \<Rightarrow> uint64 \<Rightarrow> uint64 \<Rightarrow> uint64 \<Rightarrow> 'a items_scheme \<Rightarrow> 'a items_scheme" where
  "do_item_stats_add_crawl i recl unfetched checked =
    upd_stat i (\<lambda>t. t\<lparr>crawler_reclaimed := crawler_reclaimed t + recl, expired_unfetched := expired_unfetched t + unfetched,
      crawler_items_checked := crawler_items_checked t + checked\<rparr>)"

section \<open>CAS values, flushing and sizes\<close>

definition get_cas_id :: "'a items_scheme \<Rightarrow> 'a items_scheme \<times> uint64" where
  "get_cas_id s = (let next_id = cas_id s + 1 in (s\<lparr>cas_id := next_id\<rparr>, next_id))"

definition set_cas_id :: "uint64 \<Rightarrow> 'a items_scheme \<Rightarrow> 'a items_scheme" where
  "set_cas_id new_cas s = s\<lparr>cas_id := new_cas\<rparr>"

definition item_is_flushed :: "item \<Rightarrow> 'a slabs_scheme \<Rightarrow> bool" where
  "item_is_flushed it s \<longleftrightarrow>
    (let ol = oldest_live (settings s); cas = ITEM_get_cas it; oc = oldest_cas (settings s) in
     if ol = 0 \<or> ol > current_time s then False
     else it_time it \<le> ol \<or> (oc \<noteq> 0 \<and> cas \<noteq> 0 \<and> cas < oc))"

definition do_get_lru_size :: "nat \<Rightarrow> 'a items_scheme \<Rightarrow> uint32" where
  "do_get_lru_size i s = lru_sizes s ! i"

text \<open>The bucket of the size histogram; \<^verbatim>\<open>ntotal\<close> is an \<^verbatim>\<open>int\<close>.\<close>

definition sizes_bucket :: "item \<Rightarrow> int" where
  "sizes_bucket it =
    (let ntotal = sint (ucast (ITEM_ntotal it) :: uint32); bucket = ntotal sdiv 32
     in if ntotal smod 32 \<noteq> 0 then bucket + 1 else bucket)"

definition item_stats_sizes_add :: "item \<Rightarrow> 'a items_scheme \<Rightarrow> 'a items_scheme" where
  "item_stats_sizes_add it s =
    (case stats_sizes_hist s of None \<Rightarrow> s
     | Some h \<Rightarrow> if stats_sizes_cas_min s > ITEM_get_cas it then s
        else let b = sizes_bucket it
             in if b < stats_sizes_buckets s then s\<lparr>stats_sizes_hist := Some (h[nat b := h ! nat b + 1])\<rparr> else s)"

definition item_stats_sizes_remove :: "item \<Rightarrow> 'a items_scheme \<Rightarrow> 'a items_scheme" where
  "item_stats_sizes_remove it s =
    (case stats_sizes_hist s of None \<Rightarrow> s
     | Some h \<Rightarrow> if stats_sizes_cas_min s > ITEM_get_cas it then s
        else let b = sizes_bucket it
             in if b < stats_sizes_buckets s then s\<lparr>stats_sizes_hist := Some (h[nat b := h ! nat b - 1])\<rparr> else s)"

definition item_stats_sizes_init :: "bool \<Rightarrow> 'a items_scheme \<Rightarrow> 'a items_scheme" where
  "item_stats_sizes_init calloc_ok s =
    (if stats_sizes_hist s \<noteq> None then s
     else let n = item_size_max (settings s) sdiv 32 + 1;
              s1 = s\<lparr>stats_sizes_buckets := n, stats_sizes_hist := (if calloc_ok then Some (replicate (nat n) 0) else None)\<rparr>
          in if use_cas (settings s1) then case get_cas_id s1 of (s2, c) \<Rightarrow> s2\<lparr>stats_sizes_cas_min := c\<rparr>
             else s1\<lparr>stats_sizes_cas_min := 0\<rparr>)"

text \<open>Turning the histogram on and off; the string is the value reported for \<^verbatim>\<open>sizes_status\<close>.\<close>

definition item_stats_sizes_enable :: "bool \<Rightarrow> 'a items_scheme \<Rightarrow> 'a items_scheme \<times> string" where
  "item_stats_sizes_enable calloc_ok s =
    (if \<not> use_cas (settings s) then (s, ''error'')
     else if stats_sizes_hist s = None
     then let s1 = item_stats_sizes_init calloc_ok s
          in (s1, if stats_sizes_hist s1 \<noteq> None then ''enabled'' else ''error'')
     else (s, ''enabled''))"

definition item_stats_sizes_disable :: "'a items_scheme \<Rightarrow> 'a items_scheme \<times> string" where
  "item_stats_sizes_disable s = (s\<lparr>stats_sizes_hist := None\<rparr>, ''disabled'')"

definition item_stats_sizes_status :: "'a items_scheme \<Rightarrow> bool" where
  "item_stats_sizes_status s = (stats_sizes_hist s \<noteq> None)"

text \<open>The rows of \<^verbatim>\<open>stats sizes\<close>: the lower end of each bucket that has items, and their number.\<close>

definition item_stats_sizes :: "'a items_scheme \<Rightarrow> (nat \<times> uint32) list option" where
  "item_stats_sizes s = map_option (\<lambda>h. [(i * 32, h ! i). i \<leftarrow> [0..<nat (stats_sizes_buckets s)], h ! i \<noteq> 0]) (stats_sizes_hist s)"

section \<open>Sizes\<close>

text \<open>\<^verbatim>\<open>item_make_header\<close>: the total size and the size of the client flags; the key length includes the final NUL.\<close>

definition item_make_header :: "byte \<Rightarrow> uint32 \<Rightarrow> int \<Rightarrow> uint64 \<times> byte" where
  "item_make_header nk flags nb =
    (let nsuffix = (if flags = 0 then 0 else 4 :: byte)
     in (48 + ucast nk + ucast nsuffix + word_of_int nb, nsuffix))"

definition item_ntotal_of :: "uint64 \<Rightarrow> uint32 \<Rightarrow> int \<Rightarrow> 'a slabs_scheme \<Rightarrow> uint64 \<times> byte" where
  "item_ntotal_of nk flags nb s =
    (case item_make_header (ucast (nk + 1)) flags nb of (ntotal, nsuffix) \<Rightarrow>
      (if use_cas (settings s) then ntotal + 8 else ntotal, nsuffix))"

definition item_size_ok :: "uint64 \<Rightarrow> uint32 \<Rightarrow> int \<Rightarrow> 'a slabs_scheme \<Rightarrow> bool" where
  "item_size_ok nk flags nb s \<longleftrightarrow> (if nb < 2 then False else slabs_clsid_of s (fst (item_ntotal_of nk flags nb s)) \<noteq> 0)"

section \<open>LRU queues\<close>

text \<open>The bytes an item counts for in its queue: only the header when the data is in the external store.\<close>

definition lru_bytes :: "item \<Rightarrow> uint64" where
  "lru_bytes it = (if has_flag ITEM_HDR it then (ITEM_ntotal it - word_of_int (nbytes it)) + 12 else ITEM_ntotal it)"

definition do_item_link_q :: "addr \<Rightarrow> 'a items_scheme \<Rightarrow> 'a items_scheme" where
  "do_item_link_q it s =
    (let i = unat (slabs_clsid (heap s it));
         h = heads s ! i; t = tails s ! i;
         s1 = upd_item it (\<lambda>x. x\<lparr>it_prev := NULL, it_next := h\<rparr>) s;
         s2 = (if h \<noteq> NULL then upd_item h (it_prev_update (\<lambda>_. it)) s1 else s1)
     in s2\<lparr>heads := (heads s2)[i := it],
           tails := (if t = NULL then (tails s2)[i := it] else tails s2),
           lru_sizes := (lru_sizes s2)[i := lru_sizes s2 ! i + 1],
           sizes_bytes := (sizes_bytes s2)[i := sizes_bytes s2 ! i + lru_bytes (heap s2 it)]\<rparr>)"

definition do_item_unlink_q :: "addr \<Rightarrow> 'a items_scheme \<Rightarrow> 'a items_scheme" where
  "do_item_unlink_q it s =
    (let i = unat (slabs_clsid (heap s it)); nx = it_next (heap s it); pv = it_prev (heap s it);
         s1 = (if heads s ! i = it then s\<lparr>heads := (heads s)[i := nx]\<rparr> else s);
         s2 = (if tails s ! i = it then s1\<lparr>tails := (tails s)[i := pv]\<rparr> else s1);
         s3 = (if nx \<noteq> NULL then upd_item nx (it_prev_update (\<lambda>_. pv)) s2 else s2);
         s4 = (if pv \<noteq> NULL then upd_item pv (it_next_update (\<lambda>_. nx)) s3 else s3)
     in s4\<lparr>lru_sizes := (lru_sizes s4)[i := lru_sizes s4 ! i - 1],
           sizes_bytes := (sizes_bytes s4)[i := sizes_bytes s4 ! i - lru_bytes (heap s4 it)]\<rparr>)"

text \<open>\<^verbatim>\<open>item_link_q\<close> and \<^verbatim>\<open>item_unlink_q\<close> add the queue lock.\<close>

abbreviation item_link_q :: "addr \<Rightarrow> 'a items_scheme \<Rightarrow> 'a items_scheme" where "item_link_q \<equiv> do_item_link_q"
abbreviation item_unlink_q :: "addr \<Rightarrow> 'a items_scheme \<Rightarrow> 'a items_scheme" where "item_unlink_q \<equiv> do_item_unlink_q"

definition item_link_q_warm :: "addr \<Rightarrow> 'a items_scheme \<Rightarrow> 'a items_scheme" where
  "item_link_q_warm it s =
    upd_stat (unat (slabs_clsid (heap s it))) (\<lambda>t. t\<lparr>moves_to_warm := moves_to_warm t + 1\<rparr>) (do_item_link_q it s)"

section \<open>Reference counts and release\<close>

definition refcount_incr :: "addr \<Rightarrow> 'a mem_scheme \<Rightarrow> 'a mem_scheme" where
  "refcount_incr it = upd_item it (\<lambda>i. i\<lparr>refcount := refcount i + 1\<rparr>)"

definition refcount_decr :: "addr \<Rightarrow> 'a mem_scheme \<Rightarrow> 'a mem_scheme" where
  "refcount_decr it = upd_item it (\<lambda>i. i\<lparr>refcount := refcount i - 1\<rparr>)"

definition item_free :: "addr \<Rightarrow> 'a slabs_scheme \<Rightarrow> 'a slabs_scheme option" where
  "item_free it s = slabs_free it (unat (ITEM_clsid (heap s it))) s"

definition do_item_remove :: "addr \<Rightarrow> 'a slabs_scheme \<Rightarrow> 'a slabs_scheme option" where
  "do_item_remove it s =
    (let s1 = refcount_decr it s in if refcount (heap s1 it) = 0 then item_free it s1 else Some s1)"

section \<open>Linking and unlinking\<close>

definition do_item_link :: "addr \<Rightarrow> uint32 \<Rightarrow> 'a items_scheme \<Rightarrow> 'a items_scheme" where
  "do_item_link it hv s =
    (let s1 = upd_item it (\<lambda>i. i\<lparr>it_flags := it_flags i OR ITEM_LINKED, it_time := current_time s\<rparr>) s;
         s2 = s1\<lparr>curr_bytes := curr_bytes s1 + ITEM_ntotal (heap s1 it), curr_items := curr_items s1 + 1,
                 total_items := total_items s1 + 1\<rparr>;
         (s3, cas) = (if has_flag ITEM_CAS (heap s2 it) \<and> use_cas (settings s2) then get_cas_id s2 else (s2, 0));
         s4 = upd_item it (ITEM_set_cas cas) s3;
         s5 = assoc_insert it hv s4;
         s6 = item_link_q it s5;
         s7 = refcount_incr it s6
     in item_stats_sizes_add (heap s7 it) s7)"

definition do_item_unlink :: "addr \<Rightarrow> uint32 \<Rightarrow> 'a items_scheme \<Rightarrow> 'a items_scheme option" where
  "do_item_unlink it hv s =
    (if has_flag ITEM_LINKED (heap s it)
     then let s1 = upd_item it (\<lambda>i. i\<lparr>it_flags := it_flags i AND NOT ITEM_LINKED\<rparr>) s;
              s2 = s1\<lparr>curr_bytes := curr_bytes s1 - ITEM_ntotal (heap s1 it), curr_items := curr_items s1 - 1\<rparr>;
              s3 = item_stats_sizes_remove (heap s2 it) s2
          in do {
            s4 \<leftarrow> assoc_delete (key_of (heap s3 it)) hv s3;
            do_item_remove it (item_unlink_q it s4)
          }
     else Some s)"

text \<open>The copy of \<^verbatim>\<open>do_item_unlink\<close> for callers that hold the queue lock.\<close>

definition do_item_unlink_nolock :: "addr \<Rightarrow> uint32 \<Rightarrow> 'a items_scheme \<Rightarrow> 'a items_scheme option" where
  "do_item_unlink_nolock it hv s =
    (if has_flag ITEM_LINKED (heap s it)
     then let s1 = upd_item it (\<lambda>i. i\<lparr>it_flags := it_flags i AND NOT ITEM_LINKED\<rparr>) s;
              s2 = s1\<lparr>curr_bytes := curr_bytes s1 - ITEM_ntotal (heap s1 it), curr_items := curr_items s1 - 1\<rparr>;
              s3 = item_stats_sizes_remove (heap s2 it) s2
          in do {
            s4 \<leftarrow> assoc_delete (key_of (heap s3 it)) hv s3;
            do_item_remove it (do_item_unlink_q it s4)
          }
     else Some s)"

definition do_item_replace :: "addr \<Rightarrow> addr \<Rightarrow> uint32 \<Rightarrow> 'a items_scheme \<Rightarrow> 'a items_scheme option" where
  "do_item_replace it new_it hv s = do { s1 \<leftarrow> do_item_unlink it hv s; Some (do_item_link new_it hv s1) }"

text \<open>Warm restart: an item found in reused memory is entered again.\<close>

definition do_item_link_fixup :: "(bytes \<Rightarrow> uint32) \<Rightarrow> addr \<Rightarrow> 'a items_scheme \<Rightarrow> 'a items_scheme" where
  "do_item_link_fixup hash it s =
    (let ntotal = scast (ucast (ITEM_ntotal (heap s it)) :: uint32) :: uint64;
         s1 = assoc_insert it (hash (key_of (heap s it))) s;
         x = heap s1 it; i = unat (slabs_clsid x);
         s2 = (if it_prev x = NULL \<and> heads s1 ! i = NULL then s1\<lparr>heads := (heads s1)[i := it]\<rparr> else s1);
         s3 = (if it_next x = NULL \<and> tails s2 ! i = NULL then s2\<lparr>tails := (tails s2)[i := it]\<rparr> else s2);
         s4 = s3\<lparr>lru_sizes := (lru_sizes s3)[i := lru_sizes s3 ! i + 1],
                 sizes_bytes := (sizes_bytes s3)[i := sizes_bytes s3 ! i + ntotal],
                 curr_bytes := curr_bytes s3 + ntotal, curr_items := curr_items s3 + 1, total_items := total_items s3 + 1\<rparr>
     in item_stats_sizes_add x s4)"

section \<open>Updates and fetches\<close>

abbreviation (input) ITEM_UPDATE_INTERVAL :: uint32 where "ITEM_UPDATE_INTERVAL \<equiv> 60"

definition set_lru :: "byte \<Rightarrow> item \<Rightarrow> item" where
  "set_lru lru i = i\<lparr>slabs_clsid := ITEM_clsid i OR lru\<rparr>"

definition do_item_update :: "addr \<Rightarrow> 'a items_scheme \<Rightarrow> 'a items_scheme" where
  "do_item_update it s =
    (let x = heap s it in
     if lru_segmented (settings s)
     then if has_flag ITEM_LINKED x
          then if ITEM_lruid x = COLD_LRU \<and> has_flag ITEM_ACTIVE x
               then let s1 = upd_item it (it_time_update (\<lambda>_. current_time s)) s;
                        s2 = item_unlink_q it s1;
                        s3 = upd_item it (\<lambda>i. (set_lru WARM_LRU i)\<lparr>it_flags := it_flags i AND NOT ITEM_ACTIVE\<rparr>) s2
                    in item_link_q_warm it s3
               else upd_item it (it_time_update (\<lambda>_. current_time s)) s
          else s
     else if it_time x < current_time s - ITEM_UPDATE_INTERVAL
     then if has_flag ITEM_LINKED x
          then item_link_q it (item_unlink_q it (upd_item it (it_time_update (\<lambda>_. current_time s)) s))
          else s
     else s)"

text \<open>
  An entry of a bump buffer as it lies in memory: the pointer, the hash value and the padding, which
  keeps what was there.
\<close>

definition bump_entry :: "addr \<Rightarrow> uint32 \<Rightarrow> bytes \<Rightarrow> bytes" where
  "bump_entry it hv pad =
    map (\<lambda>i. of_nat (it div 256 ^ i)) [0..<8] @ map (\<lambda>i. ucast (drop_bit (8 * i) hv)) [0..<4] @ pad"

definition lru_bump_async :: "nat \<Rightarrow> addr \<Rightarrow> uint32 \<Rightarrow> 'a items_scheme \<Rightarrow> 'a items_scheme \<times> bool" where
  "lru_bump_async th it hv s =
    (let s1 = refcount_incr it s;
         b = bump_buf s1 th;
         set_buf = (\<lambda>b' s. s\<lparr>bump_buf := (bump_buf s)(th := b')\<rparr>);
         drop_it = (\<lambda>b'. refcount_decr it (set_buf (b'\<lparr>dropped := dropped b' + 1\<rparr>) s1))
     in case bipbuf_request (bump_data b) 16 of
          None \<Rightarrow> (drop_it b, False)
        | Some off \<Rightarrow>
            let pad = take 4 (drop (off + 12) (data_f (bump_data b)));
                d1 = (bump_data b)\<lparr>data_f := copy_at (data_f (bump_data b)) off (bump_entry it hv pad)\<rparr>
            in case bipbuf_push d1 16 of (d2, n) \<Rightarrow>
                 if n = 0 then (drop_it (b\<lparr>bump_data := d2\<rparr>), False)
                 else (set_buf (b\<lparr>bump_data := d2\<rparr>) s1, True))"

definition do_item_bump :: "nat \<Rightarrow> addr \<Rightarrow> uint32 \<Rightarrow> 'a items_scheme \<Rightarrow> 'a items_scheme" where
  "do_item_bump th it hv s =
    (let x = heap s it in
     if lru_segmented (settings s)
     then if \<not> has_flag ITEM_ACTIVE x
          then if \<not> has_flag ITEM_FETCHED x
               then upd_item it (\<lambda>i. i\<lparr>it_flags := it_flags i OR ITEM_FETCHED\<rparr>) s
               else let s1 = upd_item it (\<lambda>i. i\<lparr>it_flags := it_flags i OR ITEM_ACTIVE\<rparr>) s
                    in if ITEM_lruid x \<noteq> COLD_LRU then upd_item it (it_time_update (\<lambda>_. current_time s)) s1
                       else case lru_bump_async th it hv s1 of (s2, ok) \<Rightarrow>
                         if \<not> ok then upd_item it (\<lambda>i. i\<lparr>it_flags := it_flags i AND NOT ITEM_ACTIVE\<rparr>) s2 else s2
          else s
     else do_item_update it (upd_item it (\<lambda>i. i\<lparr>it_flags := it_flags i OR ITEM_FETCHED\<rparr>) s))"

definition STORAGE_delete :: "addr \<Rightarrow> 'a items_scheme \<Rightarrow> 'a items_scheme" where
  "STORAGE_delete it s = (if has_flag ITEM_HDR (heap s it) then s\<lparr>ext_deleted := ext_deleted s @ [heap s it]\<rparr> else s)"

definition do_item_get :: "bytes \<Rightarrow> uint32 \<Rightarrow> nat \<Rightarrow> bool \<Rightarrow> 'a items_scheme \<Rightarrow> ('a items_scheme \<times> addr) option" where
  "do_item_get key hv th do_update s = do {
    it \<leftarrow> assoc_find key hv s;
    if it = NULL then Some (s, NULL)
    else let s1 = refcount_incr it s in
      if item_is_flushed (heap s1 it) s1
      then do {
        s2 \<leftarrow> do_item_unlink it hv s1;
        s3 \<leftarrow> do_item_remove it (STORAGE_delete it s2);
        Some (s3\<lparr>get_flushed := get_flushed s3 + 1\<rparr>, NULL)
      }
      else if exptime (heap s1 it) \<noteq> 0 \<and> exptime (heap s1 it) \<le> current_time s1
      then do {
        s2 \<leftarrow> do_item_unlink it hv s1;
        s3 \<leftarrow> do_item_remove it (STORAGE_delete it s2);
        Some (s3\<lparr>get_expired := get_expired s3 + 1\<rparr>, NULL)
      }
      else Some (if do_update then do_item_bump th it hv s1 else s1, it)
  }"

definition do_item_touch :: "bytes \<Rightarrow> uint32 \<Rightarrow> uint32 \<Rightarrow> nat \<Rightarrow> 'a items_scheme \<Rightarrow> ('a items_scheme \<times> addr) option" where
  "do_item_touch key et hv th s = do {
    (s1, it) \<leftarrow> do_item_get key hv th True s;
    Some (if it \<noteq> NULL then upd_item it (exptime_update (\<lambda>_. et)) s1 else s1, it)
  }"

section \<open>The queues as lists\<close>

text \<open>
  \<open>Q i\<close> is the queue number \<open>i\<close> from head to tail: a doubly linked list of the items that name this
  queue, with its length and the bytes of its items in the counters.
\<close>

definition lru_list :: "'a items_scheme \<Rightarrow> nat \<Rightarrow> addr list \<Rightarrow> bool" where
  "lru_list s i q \<longleftrightarrow> dll (it_next \<circ> heap s) (it_prev \<circ> heap s) (heads s ! i) q (tails s ! i) \<and>
    lru_sizes s ! i = of_nat (length q) \<and> sizes_bytes s ! i = (\<Sum>a\<leftarrow>q. lru_bytes (heap s a)) \<and>
    (\<forall>a \<in> set q. unat (slabs_clsid (heap s a)) = i)"

definition lru_ok :: "'a items_scheme \<Rightarrow> (nat \<Rightarrow> addr list) \<Rightarrow> bool" where
  "lru_ok s Q \<longleftrightarrow> length (heads s) = LARGEST_ID \<and> length (tails s) = LARGEST_ID \<and> length (lru_sizes s) = LARGEST_ID \<and>
    length (sizes_bytes s) = LARGEST_ID \<and> (\<forall>i < LARGEST_ID. lru_list s i (Q i))"

definition queued :: "(nat \<Rightarrow> addr list) \<Rightarrow> addr set" where
  "queued Q = (\<Union>i < LARGEST_ID. set (Q i))"

lemma queuedI: "a \<in> set (Q i) \<Longrightarrow> i < LARGEST_ID \<Longrightarrow> a \<in> queued Q"
  by (auto simp: queued_def)

lemma clsid_bound: "unat (slabs_clsid it) < 256"
  using unat_bound [of "slabs_clsid it"] by simp

text \<open>What a queue depends on in an item.\<close>

definition same_q :: "item \<Rightarrow> item \<Rightarrow> bool" where
  "same_q x y \<longleftrightarrow> it_next x = it_next y \<and> it_prev x = it_prev y \<and> slabs_clsid x = slabs_clsid y \<and> lru_bytes x = lru_bytes y"

lemma same_q_refl [simp]: "same_q x x"
  by (simp add: same_q_def)

lemma lru_list_frame:
  assumes "lru_list s i q" "heads s' ! i = heads s ! i" "tails s' ! i = tails s ! i" "lru_sizes s' ! i = lru_sizes s ! i"
    "sizes_bytes s' ! i = sizes_bytes s ! i" and "\<And>a. a \<in> set q \<Longrightarrow> same_q (heap s' a) (heap s a)"
  shows "lru_list s' i q"
proof -
  have "dll (it_next \<circ> heap s') (it_prev \<circ> heap s') (heads s ! i) q (tails s ! i)"
    using assms(1,6) dseg_cong [of q "it_next \<circ> heap s" "it_next \<circ> heap s'" "it_prev \<circ> heap s" "it_prev \<circ> heap s'"]
    by (simp add: lru_list_def same_q_def)
  moreover have "(\<Sum>a\<leftarrow>q. lru_bytes (heap s' a)) = (\<Sum>a\<leftarrow>q. lru_bytes (heap s a))"
    by (rule arg_cong [where f = sum_list], rule map_cong) (use assms(6) in \<open>auto simp: same_q_def\<close>)
  moreover have "\<forall>a \<in> set q. unat (slabs_clsid (heap s' a)) = i" using assms(1,6) by (auto simp: lru_list_def same_q_def)
  ultimately show ?thesis using assms(1-5) by (simp add: lru_list_def)
qed

lemma lru_ok_frame:
  assumes "lru_ok s Q" "heads s' = heads s" "tails s' = tails s" "lru_sizes s' = lru_sizes s" "sizes_bytes s' = sizes_bytes s"
    and "\<And>a. a \<in> queued Q \<Longrightarrow> same_q (heap s' a) (heap s a)"
  shows "lru_ok s' Q"
proof -
  have "lru_list s' i (Q i)" if "i < LARGEST_ID" for i
    by (rule lru_list_frame [of s]) (use assms that in \<open>auto simp: lru_ok_def intro: queuedI\<close>)
  with assms show ?thesis by (simp add: lru_ok_def)
qed

text \<open>Heaps that differ only in the queue links.\<close>

definition links_only :: "(addr \<Rightarrow> item) \<Rightarrow> (addr \<Rightarrow> item) \<Rightarrow> bool" where
  "links_only h h' \<longleftrightarrow> (\<forall>a. (h' a)\<lparr>it_next := NULL, it_prev := NULL\<rparr> = (h a)\<lparr>it_next := NULL, it_prev := NULL\<rparr>)"

lemma links_only_refl [simp]: "links_only h h"
  by (simp add: links_only_def)

lemma links_only_fields:
  assumes "links_only h h'"
  shows "h_next (h' a) = h_next (h a)" "it_time (h' a) = it_time (h a)"
    "exptime (h' a) = exptime (h a)" "nbytes (h' a) = nbytes (h a)" "refcount (h' a) = refcount (h a)"
    "it_flags (h' a) = it_flags (h a)" "slabs_clsid (h' a) = slabs_clsid (h a)" "nkey (h' a) = nkey (h a)"
    "cas_f (h' a) = cas_f (h a)" "ikey (h' a) = ikey (h a)" "cflags (h' a) = cflags (h a)" "idata (h' a) = idata (h a)"
proof -
  have e: "(h' a)\<lparr>it_next := NULL, it_prev := NULL\<rparr> = (h a)\<lparr>it_next := NULL, it_prev := NULL\<rparr>" using assms by (simp add: links_only_def)
  show "h_next (h' a) = h_next (h a)" "it_time (h' a) = it_time (h a)"
    "exptime (h' a) = exptime (h a)" "nbytes (h' a) = nbytes (h a)" "refcount (h' a) = refcount (h a)"
    "it_flags (h' a) = it_flags (h a)" "slabs_clsid (h' a) = slabs_clsid (h a)" "nkey (h' a) = nkey (h a)"
    "cas_f (h' a) = cas_f (h a)" "ikey (h' a) = ikey (h a)" "cflags (h' a) = cflags (h a)" "idata (h' a) = idata (h a)"
    using e by (cases "h a"; cases "h' a"; simp)+
qed

lemma lru_bytes_links: "links_only h h' \<Longrightarrow> lru_bytes (h' a) = lru_bytes (h a) \<and> ITEM_ntotal (h' a) = ITEM_ntotal (h a)"
  using links_only_fields [of h h' a] by (simp add: lru_bytes_def ITEM_ntotal_def has_flag_def)

lemma link_q_ok:
  assumes ok: "lru_ok s Q" and a: "a \<noteq> NULL" "a \<notin> queued Q" and i: "i = unat (slabs_clsid (heap s a))"
  shows "lru_ok (do_item_link_q a s) (Q(i := a # Q i))" "links_only (heap s) (heap (do_item_link_q a s))"
    "\<And>b. b \<noteq> a \<Longrightarrow> b \<notin> queued Q \<Longrightarrow> heap (do_item_link_q a s) b = heap s b"
proof -
  have i256: "i < 256" using i clsid_bound by simp
  let ?s = "do_item_link_q a s" and ?h = "heads s ! i" and ?t = "tails s ! i"
  have li: "lru_list s j (Q j)" if "j < 256" for j using ok that by (simp add: lru_ok_def)
  note l = li [OF i256]
  have len: "length (heads s) = 256" "length (tails s) = 256" "length (lru_sizes s) = 256" "length (sizes_bytes s) = 256"
    using ok by (simp_all add: lru_ok_def)
  have dl: "dll (it_next \<circ> heap s) (it_prev \<circ> heap s) ?h (Q i) ?t" using l by (simp add: lru_list_def)
  have na: "a \<notin> set (Q j)" if "j < 256" for j using a(2) that by (auto simp: queued_def)
  have hd: "?h \<noteq> NULL \<Longrightarrow> ?h \<in> set (Q i)" using dseg_head [OF dl] by (auto split: if_splits)
  have ha: "?h \<noteq> a" using hd na [OF i256] a(1) by (cases "?h = NULL") auto
  have hp: "heap ?s b = (if b = a then (heap s a)\<lparr>it_prev := NULL, it_next := ?h\<rparr>
      else if b = ?h \<and> ?h \<noteq> NULL then (heap s b)\<lparr>it_prev := a\<rparr> else heap s b)" for b
    using ha i by (auto simp: do_item_link_q_def Let_def)
  show lo: "links_only (heap s) (heap ?s)" by (simp add: links_only_def hp)
  show "heap ?s b = heap s b" if "b \<noteq> a" "b \<notin> queued Q" for b
    using that hd i256 by (auto simp: hp queued_def)
  have fld: "heads ?s = (heads s)[i := a]" "tails ?s = (if ?t = NULL then (tails s)[i := a] else tails s)"
    "lru_sizes ?s = (lru_sizes s)[i := lru_sizes s ! i + 1]"
    "sizes_bytes ?s = (sizes_bytes s)[i := sizes_bytes s ! i + lru_bytes (heap ?s a)]"
    using i by (simp_all add: do_item_link_q_def Let_def)
  have nx: "it_next \<circ> heap ?s = (it_next \<circ> heap s)(a := ?h)"
    and pv: "it_prev \<circ> heap ?s = (if ?h = NULL then (it_prev \<circ> heap s)(a := NULL) else (it_prev \<circ> heap s)(a := NULL, ?h := a))"
    using ha by (auto simp: fun_eq_iff hp)
  have bts: "lru_bytes (heap ?s b) = lru_bytes (heap s b)" for b using lru_bytes_links [OF lo] by blast
  have ti: "tails ?s ! i = (if ?t = NULL then a else ?t)" "heads ?s ! i = a" using i256 len by (simp_all add: fld)
  have new: "lru_list ?s i (a # Q i)"
    unfolding lru_list_def ti
  proof (intro conjI)
    show "dll (it_next \<circ> heap ?s) (it_prev \<circ> heap ?s) a (a # Q i) (if ?t = NULL then a else ?t)"
      using dll_push [OF dl na [OF i256] a(1)] unfolding nx pv .
    show "lru_sizes ?s ! i = of_nat (length (a # Q i))" "sizes_bytes ?s ! i = (\<Sum>b\<leftarrow>a # Q i. lru_bytes (heap ?s b))"
      using l i256 len by (simp_all add: fld bts lru_list_def add.commute)
    show "\<forall>b \<in> set (a # Q i). unat (slabs_clsid (heap ?s b)) = i"
      using l links_only_fields(7) [OF lo] i by (simp add: lru_list_def)
  qed
  have "lru_list ?s j (Q j)" if j: "j < 256" "j \<noteq> i" for j
  proof (rule lru_list_frame [OF li [OF j(1)]])
    fix b assume b: "b \<in> set (Q j)"
    have "b \<notin> set (Q i)" using b li [OF j(1)] l j(2) by (auto simp: lru_list_def)
    then have "b \<noteq> a" "\<not> (b = ?h \<and> ?h \<noteq> NULL)" using b na [OF j(1)] hd by auto
    then show "same_q (heap ?s b) (heap s b)" by (simp only: hp if_False if_not_P same_q_refl)
  qed (use j len in \<open>auto simp: fld\<close>)
  with new show "lru_ok ?s (Q(i := a # Q i))" using len by (auto simp: lru_ok_def fld)
qed

lemma unlink_q_ok:
  assumes ok: "lru_ok s Q" and i: "i < LARGEST_ID" and Q: "Q i = xs @ a # ys"
  shows "lru_ok (do_item_unlink_q a s) (Q(i := xs @ ys))" "links_only (heap s) (heap (do_item_unlink_q a s))"
    "\<And>b. b \<notin> queued Q \<Longrightarrow> heap (do_item_unlink_q a s) b = heap s b"
proof -
  let ?s = "do_item_unlink_q a s" and ?n = "it_next (heap s a)" and ?p = "it_prev (heap s a)"
  have li: "lru_list s j (Q j)" if "j < 256" for j using ok that by (simp add: lru_ok_def)
  note l = li [OF i, unfolded Q]
  have ci: "unat (slabs_clsid (heap s a)) = i" using l by (simp add: lru_list_def)
  have len: "length (heads s) = 256" "length (tails s) = 256" "length (lru_sizes s) = 256" "length (sizes_bytes s) = 256"
    using ok by (simp_all add: lru_ok_def)
  have dl: "dll (it_next \<circ> heap s) (it_prev \<circ> heap s) (heads s ! i) (xs @ a # ys) (tails s ! i)" using l by (simp add: lru_list_def)
  note sp = dll_split [OF dl, unfolded o_def]
  have di: "distinct (xs @ a # ys)" by (rule dll_distinct [OF dl])
  have na: "?n \<noteq> a" "?p \<noteq> a" "?n \<noteq> NULL \<Longrightarrow> ?n \<in> set ys" "?p \<noteq> NULL \<Longrightarrow> ?p \<in> set xs"
    using sp(1-3) di by (auto split: if_splits)
  have pn: "?n \<noteq> NULL \<Longrightarrow> ?p \<noteq> ?n" using na di by auto
  have hp: "heap ?s b = (if b = ?n \<and> ?n \<noteq> NULL then (heap s b)\<lparr>it_prev := ?p\<rparr>
      else if b = ?p \<and> ?p \<noteq> NULL then (heap s b)\<lparr>it_next := ?n\<rparr> else heap s b)" for b
    using na(1,2) pn by (auto simp: do_item_unlink_q_def Let_def)
  show lo: "links_only (heap s) (heap ?s)" by (simp add: links_only_def hp)
  show "heap ?s b = heap s b" if "b \<notin> queued Q" for b
  proof -
    have "b \<notin> set (xs @ a # ys)" using that queuedI [of b Q i] i Q by auto
    then show ?thesis using na by (auto simp: hp)
  qed
  have fld: "heads ?s = (if heads s ! i = a then (heads s)[i := ?n] else heads s)"
    "tails ?s = (if tails s ! i = a then (tails s)[i := ?p] else tails s)"
    "lru_sizes ?s = (lru_sizes s)[i := lru_sizes s ! i - 1]"
    "sizes_bytes ?s = (sizes_bytes s)[i := sizes_bytes s ! i - lru_bytes (heap ?s a)]"
    using ci by (simp_all add: do_item_unlink_q_def Let_def)
  have nx: "it_next \<circ> heap ?s = (if ?p = NULL then it_next \<circ> heap s else (it_next \<circ> heap s)(?p := ?n))"
    and pv: "it_prev \<circ> heap ?s = (if ?n = NULL then it_prev \<circ> heap s else (it_prev \<circ> heap s)(?n := ?p))"
    using pn by (auto simp: fun_eq_iff hp)
  have bts: "lru_bytes (heap ?s b) = lru_bytes (heap s b)" for b using lru_bytes_links [OF lo] by blast
  have ends: "heads ?s ! i = (if heads s ! i = a then ?n else heads s ! i)" "tails ?s ! i = (if tails s ! i = a then ?p else tails s ! i)"
    using i len by (simp_all add: fld)
  have new: "lru_list ?s i (xs @ ys)"
    unfolding lru_list_def
  proof (intro conjI)
    show "dll (it_next \<circ> heap ?s) (it_prev \<circ> heap ?s) (heads ?s ! i) (xs @ ys) (tails ?s ! i)"
      using dll_remove [OF dl] unfolding nx pv ends by (simp only: o_apply)
    show "lru_sizes ?s ! i = of_nat (length (xs @ ys))" "sizes_bytes ?s ! i = (\<Sum>b\<leftarrow>xs @ ys. lru_bytes (heap ?s b))"
      using l i len by (simp_all add: fld bts lru_list_def)
    show "\<forall>b \<in> set (xs @ ys). unat (slabs_clsid (heap ?s b)) = i"
      using l links_only_fields(7) [OF lo] by (auto simp: lru_list_def)
  qed
  have "lru_list ?s j (Q j)" if j: "j < 256" "j \<noteq> i" for j
  proof (rule lru_list_frame [OF li [OF j(1)]])
    fix b assume b: "b \<in> set (Q j)"
    have "b \<notin> set (xs @ a # ys)" using b li [OF j(1)] l j(2) by (auto simp: lru_list_def)
    then have "heap ?s b = heap s b" using na by (auto simp: hp)
    then show "same_q (heap ?s b) (heap s b)" by simp
  qed (use j len in \<open>auto simp: fld\<close>)
  with new show "lru_ok ?s (Q(i := xs @ ys))" using len by (auto simp: lru_ok_def fld)
qed

lemma queued_push: "i < LARGEST_ID \<Longrightarrow> queued (Q(i := a # Q i)) = insert a (queued Q)"
  by (auto simp: queued_def split: if_splits)

lemma queued_remove:
  assumes "lru_ok s Q" "i < LARGEST_ID" "Q i = xs @ a # ys"
  shows "queued (Q(i := xs @ ys)) = queued Q - {a}"
proof -
  have l: "lru_list s j (Q j)" if "j < 256" for j using assms(1) that by (simp add: lru_ok_def)
  have "distinct (xs @ a # ys)" using l [OF assms(2)] dll_distinct unfolding assms(3) lru_list_def by blast
  then have a: "a \<notin> set (xs @ ys)" by auto
  have "unat (slabs_clsid (heap s a)) = i" using l [OF assms(2)] by (simp add: lru_list_def assms(3))
  then have o: "a \<notin> set (Q j)" if "j < 256" "j \<noteq> i" for j using l [OF that(1)] that by (auto simp: lru_list_def)
  have "b \<in> queued (Q(i := xs @ ys)) \<longleftrightarrow> b \<in> queued Q - {a}" for b
  proof (cases "b = a")
    case True
    then show ?thesis using a o by (auto simp: queued_def split: if_splits)
  next
    case False
    then have "b \<in> set (Q i) \<longleftrightarrow> b \<in> set (xs @ ys)" by (simp add: assms(3))
    with False show ?thesis by (auto simp: queued_def split: if_splits)
  qed
  then show ?thesis by blast
qed

section \<open>The invariant of the cache\<close>

text \<open>
  \<open>m\<close> is the map from keys to items, \<open>Q\<close> the queues, \<open>F\<close> and \<open>H\<close> the free and the held chunks, and \<open>R a\<close>
  the references to item \<open>a\<close> in the hands of threads. An item is live while it is linked or
  referenced. Its count is the number of references plus one for the link; a live item is a held
  chunk of the class it names. Large items, which are spread over several chunks, are excluded.
\<close>

definition live :: "(bytes \<rightharpoonup> addr) \<Rightarrow> (addr \<Rightarrow> nat) \<Rightarrow> addr set" where
  "live m R = ran m \<union> {a. 0 < R a}"

definition item_ok :: "(bytes \<rightharpoonup> addr) \<Rightarrow> (nat \<Rightarrow> addr set) \<Rightarrow> nat \<Rightarrow> (addr \<Rightarrow> nat) \<Rightarrow> addr \<Rightarrow> item \<Rightarrow> bool" where
  "item_ok m H pl R a x \<longleftrightarrow> key_wf x \<and> \<not> has_flag ITEM_CHUNKED x \<and> it_flags x AND (ITEM_SLABBED OR ITEM_CHUNK) = 0 \<and>
    (has_flag ITEM_LINKED x \<longleftrightarrow> a \<in> ran m) \<and>
    unat (refcount x) = R a + (if a \<in> ran m then 1 else 0) \<and>
    unat (ITEM_clsid x) \<in> {1..pl} \<and> a \<in> H (unat (ITEM_clsid x))"

definition items_inv :: "(bytes \<Rightarrow> uint32) \<Rightarrow> 'a items_scheme \<Rightarrow> (bytes \<rightharpoonup> addr) \<Rightarrow> (nat \<Rightarrow> addr list) \<Rightarrow> (nat \<Rightarrow> addr list) \<Rightarrow>
    (nat \<Rightarrow> addr set) \<Rightarrow> (addr \<Rightarrow> nat) \<Rightarrow> bool" where
  "items_inv hash s m Q F H R \<longleftrightarrow> assoc_abs hash s m \<and> lru_ok s Q \<and> queued Q = ran m \<and> slab_inv s F H \<and> no_overflow s \<and>
    (\<forall>a \<in> live m R. item_ok m H (power_largest s) R a (heap s a)) \<and>
    curr_items s = of_nat (card (ran m)) \<and> curr_bytes s = (\<Sum>a \<in> ran m. ITEM_ntotal (heap s a))"

lemma items_invD:
  assumes "items_inv hash s m Q F H R"
  shows "assoc_abs hash s m" "lru_ok s Q" "queued Q = ran m" "slab_inv s F H" "no_overflow s"
    "\<And>a. a \<in> live m R \<Longrightarrow> item_ok m H (power_largest s) R a (heap s a)"
    "curr_items s = of_nat (card (ran m))" "curr_bytes s = (\<Sum>a \<in> ran m. ITEM_ntotal (heap s a))" "finite (ran m)"
proof -
  show "queued Q = ran m" using assms by (simp add: items_inv_def)
  then show "finite (ran m)" by (metis List.finite_set finite_UN finite_lessThan queued_def)
qed (use assms in \<open>simp_all add: items_inv_def\<close>)

lemma live_held:
  assumes inv: "items_inv hash s m Q F H R" and a: "a \<in> live m R"
  shows "a \<notin> all_free s F" "a \<noteq> NULL" "unat (ITEM_clsid (heap s a)) \<in> {1..power_largest s}" "a \<in> H (unat (ITEM_clsid (heap s a)))"
proof -
  have "item_ok m H (power_largest s) R a (heap s a)" by (rule items_invD(6) [OF inv a])
  then show c: "unat (ITEM_clsid (heap s a)) \<in> {1..power_largest s}" "a \<in> H (unat (ITEM_clsid (heap s a)))"
    by (simp_all add: item_ok_def)
  show "a \<notin> all_free s F" "a \<noteq> NULL" using held_not_free(1,3) [OF items_invD(4) [OF inv] c] by simp_all
qed

text \<open>The fields the invariant reads besides the heap.\<close>

definition same_tables :: "'a items_scheme \<Rightarrow> 'a items_scheme \<Rightarrow> bool" where
  "same_tables s s' \<longleftrightarrow> hashpower s' = hashpower s \<and> primary_hashtable s' = primary_hashtable s \<and> old_hashtable s' = old_hashtable s \<and>
    expanding s' = expanding s \<and> expand_bucket s' = expand_bucket s \<and>
    slabclass s' = slabclass s \<and> power_largest s' = power_largest s \<and> settings s' = settings s \<and> malloc_supply s' = malloc_supply s \<and>
    heads s' = heads s \<and> tails s' = tails s \<and> lru_sizes s' = lru_sizes s \<and> sizes_bytes s' = sizes_bytes s"

text \<open>What the invariant reads of an item, apart from its reference count.\<close>

definition same_core :: "item \<Rightarrow> item \<Rightarrow> bool" where
  "same_core x y \<longleftrightarrow> h_next x = h_next y \<and> it_next x = it_next y \<and> it_prev x = it_prev y \<and> nkey x = nkey y \<and> ikey x = ikey y \<and>
    slabs_clsid x = slabs_clsid y \<and> nbytes x = nbytes y \<and> it_flags x AND 487 = it_flags y AND 487"

lemma flag_in_mask:
  fixes w v :: "16 word"
  assumes "w AND 487 = v AND 487"
  shows "w AND 1 = v AND 1" "w AND 2 = v AND 2" "w AND 32 = v AND 32" "w AND 128 = v AND 128" "w AND 256 = v AND 256" "w AND 68 = v AND 68"
proof -
  have m: "x AND f = (x AND 487) AND f" if "487 AND f = f" for x f :: "16 word" using that by (simp add: and.assoc)
  show "w AND 1 = v AND 1" "w AND 2 = v AND 2" "w AND 32 = v AND 32" "w AND 128 = v AND 128" "w AND 256 = v AND 256" "w AND 68 = v AND 68"
    using m [of 68 w] m [of 68 v] m [of 1 w] m [of 1 v] m [of 2 w] m [of 2 v] m [of 32 w] m [of 32 v] m [of 128 w] m [of 128 v] m [of 256 w] m [of 256 v]
      assms by simp_all
qed

lemma same_coreD:
  assumes "same_core x y"
  shows "same_q x y" "key_wf x = key_wf y" "key_of x = key_of y" "ITEM_ntotal x = ITEM_ntotal y" "ITEM_clsid x = ITEM_clsid y"
    "has_flag ITEM_CHUNKED x = has_flag ITEM_CHUNKED y" "has_flag ITEM_LINKED x = has_flag ITEM_LINKED y"
    "it_flags x AND 68 = it_flags y AND 68"
proof -
  have "it_flags x AND 487 = it_flags y AND 487" using assms by (simp add: same_core_def)
  note f = flag_in_mask [OF this]
  show "ITEM_ntotal x = ITEM_ntotal y" "same_q x y" using assms f
    by (simp_all add: ITEM_ntotal_def same_q_def same_core_def lru_bytes_def has_flag_def)
  show "key_wf x = key_wf y" "key_of x = key_of y" "ITEM_clsid x = ITEM_clsid y" "has_flag ITEM_CHUNKED x = has_flag ITEM_CHUNKED y"
    "has_flag ITEM_LINKED x = has_flag ITEM_LINKED y" "it_flags x AND 68 = it_flags y AND 68"
    using assms f by (simp_all add: same_core_def key_wf_def key_of_def ITEM_clsid_def has_flag_def)
qed

lemma same_core_refl [simp]: "same_core x x"
  by (simp add: same_core_def)

lemma items_inv_tweak:
  assumes inv: "items_inv hash s m Q F H R" and tab: "same_tables s s'" "curr_items s' = curr_items s" "curr_bytes s' = curr_bytes s"
    and core: "\<And>b. b \<in> live m R \<Longrightarrow> same_core (heap s' b) (heap s b)"
    and new: "\<And>b. b \<in> live m R' \<Longrightarrow> b \<in> live m R" "\<And>b. b \<in> live m R' \<Longrightarrow> unat (refcount (heap s' b)) = R' b + (if b \<in> ran m then 1 else 0)"
    and out: "\<And>b. b \<notin> live m R \<Longrightarrow> heap s' b = heap s b"
  shows "items_inv hash s' m Q F H R'"
proof -
  note I = items_invD [OF inv]
  have t: "hashpower s' = hashpower s" "primary_hashtable s' = primary_hashtable s" "old_hashtable s' = old_hashtable s"
    "expanding s' = expanding s" "expand_bucket s' = expand_bucket s"
    "slabclass s' = slabclass s" "power_largest s' = power_largest s" "settings s' = settings s" "malloc_supply s' = malloc_supply s"
    "heads s' = heads s" "tails s' = tails s" "lru_sizes s' = lru_sizes s" "sizes_bytes s' = sizes_bytes s"
    using tab(1) by (simp_all add: same_tables_def)
  have lm: "b \<in> live m R" if "b \<in> ran m" for b using that by (simp add: live_def)
  have "assoc_abs hash s' m"
    by (rule assoc_abs_frame [OF I(1)]) (use t core lm in \<open>auto simp: same_core_def\<close>)
  moreover have "lru_ok s' Q"
    by (rule lru_ok_frame [OF I(2)]) (use t core lm I(3) same_coreD(1) in auto)
  moreover have "slab_inv s' F H"
  proof (rule slab_inv_frame [OF I(4)])
    fix a assume "a \<in> all_free s F"
    then have "a \<notin> live m R" using live_held(1) [OF inv] by blast
    then show "heap s' a = heap s a" by (rule out)
  qed (use t in simp_all)
  moreover have "no_overflow s'" using I(5) t by (simp add: no_overflow_def)
  moreover have "item_ok m H (power_largest s') R' a (heap s' a)" if a: "a \<in> live m R'" for a
    using I(6) [OF new(1) [OF a]] new(2) [OF a] same_coreD [OF core [OF new(1) [OF a]]] t(7) by (simp add: item_ok_def)
  moreover have "(\<Sum>a \<in> ran m. ITEM_ntotal (heap s' a)) = (\<Sum>a \<in> ran m. ITEM_ntotal (heap s a))"
    by (rule sum.cong) (use core lm same_coreD(4) in auto)
  ultimately show ?thesis using I tab by (simp add: items_inv_def)
qed

text \<open>What a client sees of an item. The flags are those that say how the item is laid out: CAS, CHUNKED, HDR and CFLAGS.\<close>

definition same_data :: "item \<Rightarrow> item \<Rightarrow> bool" where
  "same_data x y \<longleftrightarrow> nkey x = nkey y \<and> ikey x = ikey y \<and> nbytes x = nbytes y \<and> idata x = idata y \<and> cflags x = cflags y \<and>
    exptime x = exptime y \<and> cas_f x = cas_f y \<and> it_flags x AND 418 = it_flags y AND 418"

lemma layout_flags [simp]:
  fixes w :: "16 word"
  shows "(w OR 1) AND 418 = w AND 418" "(w OR 8) AND 418 = w AND 418" "(w OR 16) AND 418 = w AND 418"
    "(w AND - 2) AND 418 = w AND 418" "(w AND - 17) AND 418 = w AND 418"
  by (simp_all add: bit.conj_disj_distrib2 and.assoc)

lemma same_data_refl [simp]: "same_data x x"
  by (simp add: same_data_def)

lemma same_data_trans: "same_data x y \<Longrightarrow> same_data y z \<Longrightarrow> same_data x z"
  by (simp add: same_data_def)

definition data_kept :: "addr set \<Rightarrow> 'a items_scheme \<Rightarrow> 'a items_scheme \<Rightarrow> bool" where
  "data_kept A s s' \<longleftrightarrow> (\<forall>b \<in> A. same_data (heap s' b) (heap s b)) \<and> settings s' = settings s \<and> current_time s' = current_time s \<and>
    power_largest s' = power_largest s"

lemma data_keptI:
  "\<lbrakk>\<And>b. b \<in> A \<Longrightarrow> same_data (heap s' b) (heap s b); settings s' = settings s; current_time s' = current_time s; power_largest s' = power_largest s\<rbrakk>
    \<Longrightarrow> data_kept A s s'"
  by (simp add: data_kept_def)

lemma data_kept_refl [simp]: "data_kept A s s"
  by (simp add: data_kept_def)

lemma data_kept_trans: "\<lbrakk>data_kept A s s'; data_kept B s' s''; C \<subseteq> A; C \<subseteq> B\<rbrakk> \<Longrightarrow> data_kept C s s''"
  unfolding data_kept_def by (metis same_data_trans subsetD)

section \<open>References\<close>

lemma refcount_incr_inv:
  assumes inv: "items_inv hash s m Q F H R" and a: "a \<in> live m R" "R a + 2 < 2 ^ 16"
  shows "items_inv hash (refcount_incr a s) m Q F H (R(a := R a + 1))" "data_kept A s (refcount_incr a s)"
proof -
  have r: "unat (refcount (heap s a)) = R a + (if a \<in> ran m then 1 else 0)" using items_invD(6) [OF inv a(1)] by (simp add: item_ok_def)
  have r1: "unat (refcount (heap s a) + 1) = R a + 1 + (if a \<in> ran m then 1 else 0)"
    using r a(2) by (subst unat_plus_small) auto
  show "items_inv hash (refcount_incr a s) m Q F H (R(a := R a + 1))"
  proof (rule items_inv_tweak [OF inv])
    fix b assume b: "b \<in> live m (R(a := R a + 1))"
    then show lb: "b \<in> live m R" using a(1) by (auto simp: live_def split: if_splits)
    show "unat (refcount (heap (refcount_incr a s) b)) = (R(a := R a + 1)) b + (if b \<in> ran m then 1 else 0)"
      using r1 items_invD(6) [OF inv lb] by (auto simp: refcount_incr_def item_ok_def)
  qed (use a(1) in \<open>auto simp: same_tables_def refcount_incr_def same_core_def\<close>)
  show "data_kept A s (refcount_incr a s)" by (rule data_keptI) (auto simp: refcount_incr_def same_data_def)
qed

lemma lists_only_items:
  assumes "lists_only s s'"
  shows "same_tables (s\<lparr>slabclass := slabclass s'\<rparr>) s'" "curr_items s' = curr_items s" "curr_bytes s' = curr_bytes s" "current_time s' = current_time s"
proof -
  have e: "s'\<lparr>heap := (\<lambda>_. item0), slabclass := []\<rparr> = s\<lparr>heap := (\<lambda>_. item0), slabclass := []\<rparr>" using assms by (simp add: lists_only_def)
  show "same_tables (s\<lparr>slabclass := slabclass s'\<rparr>) s'" unfolding same_tables_def
    using arg_cong [OF e, of hashpower] arg_cong [OF e, of primary_hashtable] arg_cong [OF e, of old_hashtable] arg_cong [OF e, of expanding]
      arg_cong [OF e, of expand_bucket] arg_cong [OF e, of power_largest] arg_cong [OF e, of settings] arg_cong [OF e, of malloc_supply]
      arg_cong [OF e, of heads] arg_cong [OF e, of tails] arg_cong [OF e, of lru_sizes] arg_cong [OF e, of sizes_bytes] by simp
  show "curr_items s' = curr_items s" "curr_bytes s' = curr_bytes s" "current_time s' = current_time s"
    using arg_cong [OF e, of curr_items] arg_cong [OF e, of curr_bytes] arg_cong [OF e, of current_time] by simp_all
qed

lemma item_free_inv:
  assumes inv: "items_inv hash s m Q F H R" and a: "a \<notin> live m R" "a \<in> H c" "c \<in> {1..power_largest s}" "\<not> has_flag ITEM_CHUNKED (heap s a)"
    and c: "c = unat (ITEM_clsid (heap s a))"
  shows "\<exists>s' F'. item_free a s = Some s' \<and> items_inv hash s' m Q F' (H(c := H c - {a})) R \<and> data_kept (live m R) s s'"
proof -
  note I = items_invD [OF inv]
  have ov: "unat (slabs_n (cls s c)) * unat (perslab (cls s c)) < 2 ^ 32" using I(5) a(3) by (simp add: no_overflow_def)
  obtain s' where f: "slabs_free a c s = Some s'" "slab_inv s' (F(c := a # F c)) (H(c := H c - {a}))" "lists_only s s'"
    "\<forall>b. b \<noteq> a \<longrightarrow> b \<notin> all_free s F \<longrightarrow> heap s' b = heap s b"
    using free_inv [OF I(4) a(3,2,4) ov] by blast
  have hp: "heap s' b = heap s b" if "b \<in> live m R" for b
  proof -
    have "b \<noteq> a" "b \<notin> all_free s F" using that a(1) live_held(1) [OF inv that] by auto
    with f(4) show ?thesis by blast
  qed
  have lm: "b \<in> live m R" if "b \<in> ran m" for b using that by (simp add: live_def)
  note lo = lists_only_items [OF f(3), unfolded same_tables_def, simplified]
  have "assoc_abs hash s' m" by (rule assoc_abs_frame [OF I(1)]) (use lo hp lm in auto)
  moreover have "lru_ok s' Q" by (rule lru_ok_frame [OF I(2)]) (use lo hp lm I(3) in auto)
  moreover have "class_ok s" using I(4) by (simp add: slab_inv_def free_ok_def)
  then have "no_overflow s'" using no_overflow_lists [OF f(3)] I(5) by simp
  moreover have "item_ok m (H(c := H c - {a})) (power_largest s') R b (heap s' b)" if b: "b \<in> live m R" for b
    using I(6) [OF b] hp [OF b] a(1) b lists_onlyD(1) [OF f(3)] by (auto simp: item_ok_def)
  moreover have "(\<Sum>b \<in> ran m. ITEM_ntotal (heap s' b)) = (\<Sum>b \<in> ran m. ITEM_ntotal (heap s b))"
    by (rule sum.cong) (use hp lm in auto)
  ultimately have "items_inv hash s' m Q (F(c := a # F c)) (H(c := H c - {a})) R" using I(3,7,8) f(2) lo by (simp add: items_inv_def)
  moreover have "data_kept (live m R) s s'" using hp lo by (simp add: data_kept_def)
  moreover have "item_free a s = Some s'" using f(1) c by (simp add: item_free_def)
  ultimately show ?thesis by blast
qed

lemma do_item_remove_inv:
  assumes inv: "items_inv hash s m Q F H R" and a: "0 < R a"
  shows "\<exists>s' F'. do_item_remove a s = Some s' \<and> data_kept (live m (R(a := R a - 1))) s s' \<and>
    items_inv hash s' m Q F' (if R a = 1 \<and> a \<notin> ran m then (let c = unat (ITEM_clsid (heap s a)) in H(c := H c - {a})) else H) (R(a := R a - 1))"
proof -
  let ?R = "R(a := R a - 1)" and ?s = "refcount_decr a s"
  have al: "a \<in> live m R" using a by (simp add: live_def)
  have ok: "item_ok m H (power_largest s) R a (heap s a)" by (rule items_invD(6) [OF inv al])
  then have r: "unat (refcount (heap s a)) = R a + (if a \<in> ran m then 1 else 0)" by (simp add: item_ok_def)
  then have r1: "unat (refcount (heap s a) - 1) = R a - 1 + (if a \<in> ran m then 1 else 0)"
    using a by (subst unat_minus_le) auto
  have inv1: "items_inv hash ?s m Q F H ?R"
  proof (rule items_inv_tweak [OF inv])
    fix b assume b: "b \<in> live m ?R"
    then show lb: "b \<in> live m R" using al by (auto simp: live_def split: if_splits)
    show "unat (refcount (heap ?s b)) = ?R b + (if b \<in> ran m then 1 else 0)"
      using r1 items_invD(6) [OF inv lb] by (auto simp: refcount_decr_def item_ok_def)
  qed (use al in \<open>auto simp: same_tables_def refcount_decr_def same_core_def\<close>)
  have dk: "data_kept A s ?s" for A by (rule data_keptI) (auto simp: refcount_decr_def same_data_def)
  have z: "refcount (heap ?s a) = 0 \<longleftrightarrow> R a = 1 \<and> a \<notin> ran m"
    using r1 a by (auto simp: refcount_decr_def unat_eq_zero [symmetric])
  show ?thesis
  proof (cases "R a = 1 \<and> a \<notin> ran m")
    case False
    then have "do_item_remove a s = Some ?s" unfolding do_item_remove_def Let_def z by auto
    with inv1 dk False show ?thesis by auto
  next
    case True
    let ?c = "unat (ITEM_clsid (heap s a))"
    have k: "a \<notin> live m ?R" "a \<in> H ?c" "?c \<in> {1..power_largest ?s}" "\<not> has_flag ITEM_CHUNKED (heap ?s a)" "?c = unat (ITEM_clsid (heap ?s a))"
      using True ok by (auto simp: live_def item_ok_def refcount_decr_def has_flag_def ITEM_clsid_def)
    from item_free_inv [OF inv1 k] obtain s' F' where f: "item_free a ?s = Some s'" "items_inv hash s' m Q F' (H(?c := H ?c - {a})) ?R"
      "data_kept (live m ?R) ?s s'" by blast
    have "do_item_remove a s = Some s'" using z True f(1) by (simp add: do_item_remove_def Let_def)
    moreover have "data_kept (live m ?R) s s'" by (rule data_kept_trans [OF dk f(3)]) auto
    ultimately show ?thesis using f(2) True by (auto simp: Let_def)
  qed
qed

section \<open>Linking\<close>

lemma flag_or: "g AND f = 0 \<Longrightarrow> (w OR g) AND f = w AND f"
  for w f g :: "16 word"
  by (simp add: bit.conj_disj_distrib2)

lemma slot_of_table: "slot_of s hv \<noteq> In_next b"
  by (simp add: slot_of_def Let_def)

lemma assoc_insert_fields [simp]:
  "heap (assoc_insert a hv s) = (heap s)(a := (heap s a)\<lparr>h_next := get_pos s (slot_of s hv)\<rparr>)"
  "slabclass (assoc_insert a hv s') = slabclass s'" "power_largest (assoc_insert a hv s') = power_largest s'"
  "settings (assoc_insert a hv s') = settings s'" "malloc_supply (assoc_insert a hv s') = malloc_supply s'"
  "current_time (assoc_insert a hv s') = current_time s'"
  "heads (assoc_insert a hv s'') = heads s''" "tails (assoc_insert a hv s'') = tails s''"
  "lru_sizes (assoc_insert a hv s'') = lru_sizes s''" "sizes_bytes (assoc_insert a hv s'') = sizes_bytes s''"
  "curr_items (assoc_insert a hv s'') = curr_items s''" "curr_bytes (assoc_insert a hv s'') = curr_bytes s''"
  "cas_id (assoc_insert a hv s'') = cas_id s''" "total_items (assoc_insert a hv s'') = total_items s''"
  by (cases "slot_of s hv"; simp add: assoc_insert_def set_pos_def Let_def slot_of_table)
    (simp_all add: assoc_insert_def set_pos_def Let_def split: hpos.split)

lemma link_q_fields [simp]:
  "hashpower (do_item_link_q a s) = hashpower s" "primary_hashtable (do_item_link_q a s) = primary_hashtable s"
  "old_hashtable (do_item_link_q a s) = old_hashtable s" "expanding (do_item_link_q a s) = expanding s"
  "expand_bucket (do_item_link_q a s) = expand_bucket s"
  "slabclass (do_item_link_q a s) = slabclass s" "power_largest (do_item_link_q a s) = power_largest s"
  "settings (do_item_link_q a s) = settings s" "malloc_supply (do_item_link_q a s) = malloc_supply s"
  "current_time (do_item_link_q a s) = current_time s"
  "curr_items (do_item_link_q a s) = curr_items s" "curr_bytes (do_item_link_q a s) = curr_bytes s"
  "cas_id (do_item_link_q a s) = cas_id s"
  by (simp_all add: do_item_link_q_def Let_def)

lemma unlink_q_fields [simp]:
  "hashpower (do_item_unlink_q a s) = hashpower s" "primary_hashtable (do_item_unlink_q a s) = primary_hashtable s"
  "old_hashtable (do_item_unlink_q a s) = old_hashtable s" "expanding (do_item_unlink_q a s) = expanding s"
  "expand_bucket (do_item_unlink_q a s) = expand_bucket s"
  "slabclass (do_item_unlink_q a s) = slabclass s" "power_largest (do_item_unlink_q a s) = power_largest s"
  "settings (do_item_unlink_q a s) = settings s" "malloc_supply (do_item_unlink_q a s) = malloc_supply s"
  "current_time (do_item_unlink_q a s) = current_time s"
  "curr_items (do_item_unlink_q a s) = curr_items s" "curr_bytes (do_item_unlink_q a s) = curr_bytes s"
  "cas_id (do_item_unlink_q a s) = cas_id s"
  by (simp_all add: do_item_unlink_q_def Let_def)

lemma sizes_add_eq: "\<exists>h. item_stats_sizes_add x s = s\<lparr>stats_sizes_hist := h\<rparr>"
proof -
  have "item_stats_sizes_add x s = s\<lparr>stats_sizes_hist := stats_sizes_hist (item_stats_sizes_add x s)\<rparr>"
    by (cases "stats_sizes_hist s") (simp_all add: item_stats_sizes_add_def Let_def)
  then show ?thesis by blast
qed

lemma sizes_remove_eq: "\<exists>h. item_stats_sizes_remove x s = s\<lparr>stats_sizes_hist := h\<rparr>"
proof -
  have "item_stats_sizes_remove x s = s\<lparr>stats_sizes_hist := stats_sizes_hist (item_stats_sizes_remove x s)\<rparr>"
    by (cases "stats_sizes_hist s") (simp_all add: item_stats_sizes_remove_def Let_def)
  then show ?thesis by blast
qed

lemma heap_sizes [simp]: "heap (item_stats_sizes_add x s) = heap s" "heap (item_stats_sizes_remove x s) = heap s"
  by (simp_all add: item_stats_sizes_add_def item_stats_sizes_remove_def Let_def split: option.split)

text \<open>The item as it is stored: linked, with the time and, with CAS on, a fresh CAS value.\<close>

definition linked_item :: "'a items_scheme \<Rightarrow> item \<Rightarrow> item" where
  "linked_item s x = ITEM_set_cas (if use_cas (settings s) then cas_id s + 1 else 0)
    (x\<lparr>it_flags := it_flags x OR ITEM_LINKED, it_time := current_time s\<rparr>)"

lemma linked_item_fields:
  "nkey (linked_item s x) = nkey x" "ikey (linked_item s x) = ikey x" "nbytes (linked_item s x) = nbytes x"
  "idata (linked_item s x) = idata x" "cflags (linked_item s x) = cflags x" "exptime (linked_item s x) = exptime x"
  "slabs_clsid (linked_item s x) = slabs_clsid x" "refcount (linked_item s x) = refcount x" "it_flags (linked_item s x) = it_flags x OR ITEM_LINKED"
  "h_next (linked_item s x) = h_next x"
  by (simp_all add: linked_item_def ITEM_set_cas_def)

lemma linked_item_flags:
  "has_flag ITEM_LINKED (linked_item s x)" "has_flag ITEM_CHUNKED (linked_item s x) = has_flag ITEM_CHUNKED x"
  "ITEM_ntotal (linked_item s x) = ITEM_ntotal x" "key_wf (linked_item s x) = key_wf x" "key_of (linked_item s x) = key_of x"
  "ITEM_clsid (linked_item s x) = ITEM_clsid x"
proof -
  have "(it_flags x OR 1) AND 1 = 1" by (simp add: bit.conj_disj_distrib2 or.commute [of _ 1])
  then show "has_flag ITEM_LINKED (linked_item s x)" by (simp add: has_flag_def linked_item_fields)
  show "has_flag ITEM_CHUNKED (linked_item s x) = has_flag ITEM_CHUNKED x" "ITEM_ntotal (linked_item s x) = ITEM_ntotal x"
    by (simp_all add: has_flag_def linked_item_fields flag_or ITEM_ntotal_def)
qed (simp_all add: key_wf_def key_of_def ITEM_clsid_def linked_item_fields)

lemma cas_flag_linked: "has_flag ITEM_CAS (x\<lparr>it_flags := it_flags x OR ITEM_LINKED, it_time := t\<rparr>) = has_flag ITEM_CAS x"
  by (simp add: has_flag_def flag_or)

definition link_start :: "addr \<Rightarrow> 'a items_scheme \<Rightarrow> 'a items_scheme" where
  "link_start a s =
    (let s1 = s\<lparr>curr_bytes := curr_bytes s + ITEM_ntotal (heap s a), curr_items := curr_items s + 1, total_items := total_items s + 1\<rparr>;
         s2 = (if has_flag ITEM_CAS (heap s a) \<and> use_cas (settings s) then s1\<lparr>cas_id := cas_id s + 1\<rparr> else s1)
     in s2\<lparr>heap := (heap s)(a := linked_item s (heap s a))\<rparr>)"

lemma link_start_fields [simp]:
  "same_tables s (link_start a s)" "curr_items (link_start a s) = curr_items s + 1"
  "curr_bytes (link_start a s) = curr_bytes s + ITEM_ntotal (heap s a)" "heap (link_start a s) = (heap s)(a := linked_item s (heap s a))"
  "settings (link_start a s) = settings s" "current_time (link_start a s) = current_time s" "power_largest (link_start a s) = power_largest s"
  by (simp_all add: link_start_def Let_def same_tables_def)

lemma do_item_link_eq:
  "\<exists>h. do_item_link a hv s = (refcount_incr a (do_item_link_q a (assoc_insert a hv (link_start a s))))\<lparr>stats_sizes_hist := h\<rparr>"
proof -
  let ?x = "(heap s a)\<lparr>it_flags := it_flags (heap s a) OR ITEM_LINKED, it_time := current_time s\<rparr>"
  let ?s = "refcount_incr a (do_item_link_q a (assoc_insert a hv (link_start a s)))"
  have n: "ITEM_ntotal ?x = ITEM_ntotal (heap s a)" by (simp add: ITEM_ntotal_def has_flag_def flag_or)
  have "do_item_link a hv s = item_stats_sizes_add (heap ?s a) ?s"
    by (cases "use_cas (settings s)"; cases "has_flag ITEM_CAS (heap s a)")
      (simp_all add: do_item_link_def get_cas_id_def Let_def n link_start_def linked_item_def ITEM_set_cas_def cas_flag_linked)
  with sizes_add_eq show ?thesis by metis
qed

lemma do_item_link_state:
  assumes inv: "items_inv hash s m Q F H R" and a: "a \<notin> ran m" "0 < R a" "R a + 1 < 2 ^ 16"
    and k: "k = key_of (heap s a)" "m k = None" and i: "i = unat (slabs_clsid (heap s a))"
  shows "assoc_abs hash (do_item_link a (hash k) s) (m(k \<mapsto> a))" "lru_ok (do_item_link a (hash k) s) (Q(i := a # Q i))"
    "\<And>b. b \<noteq> a \<Longrightarrow> b \<notin> ran m \<Longrightarrow> heap (do_item_link a (hash k) s) b = heap s b"
    "\<And>b. b \<noteq> a \<Longrightarrow> same_data (heap (do_item_link a (hash k) s) b) (heap s b) \<and>
      refcount (heap (do_item_link a (hash k) s) b) = refcount (heap s b) \<and> it_flags (heap (do_item_link a (hash k) s) b) = it_flags (heap s b) \<and>
      slabs_clsid (heap (do_item_link a (hash k) s) b) = slabs_clsid (heap s b)"
    "(heap (do_item_link a (hash k) s) a)\<lparr>it_next := NULL, it_prev := NULL, h_next := NULL\<rparr> =
      (linked_item s (heap s a))\<lparr>it_next := NULL, it_prev := NULL, h_next := NULL, refcount := refcount (heap s a) + 1\<rparr>"
proof -
  note I = items_invD [OF inv]
  define s4 where "s4 = link_start a s"
  define s5 where "s5 = assoc_insert a (hash k) s4"
  define s6 where "s6 = do_item_link_q a s5"
  obtain h where fin: "do_item_link a (hash k) s = (refcount_incr a s6)\<lparr>stats_sizes_hist := h\<rparr>"
    using do_item_link_eq unfolding s6_def s5_def s4_def by blast
  let ?s = "do_item_link a (hash k) s" and ?x = "linked_item s (heap s a)" and ?Q = "Q(i := a # Q i)"
  have al: "a \<in> live m R" using a(2) by (simp add: live_def)
  note hl = live_held [OF inv al]
  have ok: "item_ok m H (power_largest s) R a (heap s a)" by (rule I(6) [OF al])
  have tab: "same_tables s s4" by (simp add: s4_def)
  have h4: "heap s4 = (heap s)(a := ?x)" by (simp add: s4_def)
  have ab4: "assoc_abs hash s4 m"
    by (rule assoc_abs_frame [OF I(1)]) (use tab a(1) h4 in \<open>auto simp: same_tables_def\<close>)
  have k4: "key_of (heap s4 a) = k" "key_wf (heap s4 a)" using ok k by (simp_all add: h4 linked_item_flags item_ok_def)
  have m4: "m (key_of (heap s4 a)) = None" using k4 k by simp
  have ab5: "assoc_abs hash s5 (m(k \<mapsto> a))"
    using assoc_insert_abs [OF ab4 hl(2) a(1) k4(2) m4] unfolding k4 by (simp add: s5_def)
  define x5 where "x5 = ?x\<lparr>h_next := get_pos s4 (slot_of s4 (hash k))\<rparr>"
  have h5: "heap s5 = (heap s)(a := x5)" by (simp add: s5_def h4 x5_def)
  have aq: "a \<notin> queued Q" using a(1) I(3) by simp
  have lr5: "lru_ok s5 Q"
  proof (rule lru_ok_frame [OF I(2)])
    show "heads s5 = heads s" "tails s5 = tails s" "lru_sizes s5 = lru_sizes s" "sizes_bytes s5 = sizes_bytes s"
      using tab by (simp_all add: s5_def same_tables_def)
    show "same_q (heap s5 b) (heap s b)" if "b \<in> queued Q" for b using that aq by (auto simp: h5)
  qed
  have i5: "i = unat (slabs_clsid (heap s5 a))" using i by (simp add: h5 x5_def linked_item_fields)
  note L = link_q_ok [OF lr5 hl(2) aq i5, folded s6_def]
  note lf = links_only_fields [OF L(2)]
  have hs: "heap ?s b = (if b = a then (heap s6 a)\<lparr>refcount := refcount (heap s6 a) + 1\<rparr> else heap s6 b)" for b
    by (simp add: fin refcount_incr_def)
  show "heap ?s b = heap s b" if "b \<noteq> a" "b \<notin> ran m" for b
    using L(3) [of b] that I(3) by (simp add: hs h5)
  show "same_data (heap ?s b) (heap s b) \<and> refcount (heap ?s b) = refcount (heap s b) \<and> it_flags (heap ?s b) = it_flags (heap s b) \<and>
      slabs_clsid (heap ?s b) = slabs_clsid (heap s b)" if "b \<noteq> a" for b
    using that lf [of b] by (simp add: hs h5 same_data_def)
  show "(heap ?s a)\<lparr>it_next := NULL, it_prev := NULL, h_next := NULL\<rparr> =
      ?x\<lparr>it_next := NULL, it_prev := NULL, h_next := NULL, refcount := refcount (heap s a) + 1\<rparr>"
    using lf [of a] by (simp add: hs h5 x5_def linked_item_fields)
  show "assoc_abs hash ?s (m(k \<mapsto> a))"
    by (rule assoc_abs_frame [OF ab5]) (use lf in \<open>auto simp: fin refcount_incr_def s6_def\<close>)
  show "lru_ok ?s ?Q"
    by (rule lru_ok_frame [OF L(1)]) (auto simp: fin refcount_incr_def same_q_def lru_bytes_def ITEM_ntotal_def has_flag_def)
qed

lemma do_item_link_tables:
  "slabclass (do_item_link a hv s) = slabclass s" "power_largest (do_item_link a hv s) = power_largest s" "settings (do_item_link a hv s) = settings s"
  "malloc_supply (do_item_link a hv s) = malloc_supply s" "current_time (do_item_link a hv s) = current_time s"
  "curr_items (do_item_link a hv s) = curr_items s + 1" "curr_bytes (do_item_link a hv s) = curr_bytes s + ITEM_ntotal (heap s a)"
proof -
  obtain h where fin: "do_item_link a hv s = (refcount_incr a (do_item_link_q a (assoc_insert a hv (link_start a s))))\<lparr>stats_sizes_hist := h\<rparr>"
    using do_item_link_eq by blast
  have t: "same_tables s (link_start a s)" by simp
  show "slabclass (do_item_link a hv s) = slabclass s" "power_largest (do_item_link a hv s) = power_largest s" "settings (do_item_link a hv s) = settings s"
    "malloc_supply (do_item_link a hv s) = malloc_supply s" "current_time (do_item_link a hv s) = current_time s"
    "curr_items (do_item_link a hv s) = curr_items s + 1" "curr_bytes (do_item_link a hv s) = curr_bytes s + ITEM_ntotal (heap s a)"
    using t by (simp_all add: fin refcount_incr_def same_tables_def)
qed

text \<open>Fields of an item that a change of its links and its count leaves alone.\<close>

lemma ignore_links:
  assumes "x\<lparr>it_next := NULL, it_prev := NULL, h_next := NULL\<rparr> = y\<lparr>it_next := NULL, it_prev := NULL, h_next := NULL, refcount := r\<rparr>"
  shows "nkey x = nkey y" "ikey x = ikey y" "nbytes x = nbytes y" "idata x = idata y" "cflags x = cflags y" "exptime x = exptime y"
    "cas_f x = cas_f y" "it_flags x = it_flags y" "slabs_clsid x = slabs_clsid y" "it_time x = it_time y" "refcount x = r"
  using assms by (cases x; cases y; simp)+

lemma same_data_fields:
  assumes "same_data x y" "it_flags x = it_flags y" "slabs_clsid x = slabs_clsid y"
  shows "key_wf x = key_wf y" "key_of x = key_of y" "ITEM_ntotal x = ITEM_ntotal y" "ITEM_clsid x = ITEM_clsid y" "has_flag f x = has_flag f y"
  using assms by (simp_all add: same_data_def key_wf_def key_of_def ITEM_ntotal_def ITEM_clsid_def has_flag_def)

lemma do_item_link_inv:
  assumes inv: "items_inv hash s m Q F H R" and a: "a \<notin> ran m" "0 < R a" "R a + 1 < 2 ^ 16"
    and k: "k = key_of (heap s a)" "m k = None" and i: "i = unat (slabs_clsid (heap s a))"
  shows "items_inv hash (do_item_link a (hash k) s) (m(k \<mapsto> a)) (Q(i := a # Q i)) F H R"
    "data_kept (live m R - {a}) s (do_item_link a (hash k) s)"
proof -
  note I = items_invD [OF inv] and S = do_item_link_state [OF assms] and T = do_item_link_tables [of a "hash k" s]
  let ?s = "do_item_link a (hash k) s" and ?m = "m(k \<mapsto> a)"
  show "data_kept (live m R - {a}) s ?s" by (rule data_keptI) (use S(4) T in auto)
  have al: "a \<in> live m R" using a(2) by (simp add: live_def)
  have ok: "item_ok m H (power_largest s) R a (heap s a)" by (rule I(6) [OF al])
  have rm: "ran ?m = insert a (ran m)" using k(2) by simp
  have lv: "live ?m R = live m R" using al by (auto simp: live_def rm)
  have i256: "i < LARGEST_ID" using i clsid_bound by simp
  note xa = ignore_links [OF S(5)]
  have xn: "ITEM_ntotal (heap ?s a) = ITEM_ntotal (heap s a)"
    using xa by (simp add: ITEM_ntotal_def has_flag_def linked_item_fields flag_or)
  have xk: "key_wf (heap ?s a) = key_wf (heap s a)" "has_flag ITEM_CHUNKED (heap ?s a) = has_flag ITEM_CHUNKED (heap s a)"
    "has_flag ITEM_LINKED (heap ?s a)" "ITEM_clsid (heap ?s a) = ITEM_clsid (heap s a)" "it_flags (heap ?s a) AND 68 = it_flags (heap s a) AND 68"
    using xa linked_item_flags [of s "heap s a"] by (simp_all add: key_wf_def has_flag_def ITEM_clsid_def linked_item_fields flag_or)
  have r1: "unat (refcount (heap s a) + 1) = R a + 1"
    using ok a by (subst unat_plus_small) (auto simp: item_ok_def)
  have "slab_inv ?s F H"
  proof (rule slab_inv_frame [OF I(4)])
    fix b assume "b \<in> all_free s F"
    then have "b \<notin> live m R" using live_held(1) [OF inv] by blast
    then have "b \<noteq> a" "b \<notin> ran m" using al by (auto simp: live_def)
    then show "heap ?s b = heap s b" by (rule S(3))
  qed (simp_all add: T)
  moreover have "item_ok ?m H (power_largest ?s) R b (heap ?s b)" if b: "b \<in> live m R" for b
  proof (cases "b = a")
    case True
    then show ?thesis using ok xk xa(11) r1 by (simp add: item_ok_def T rm)
  next
    case False
    then show ?thesis using I(6) [OF b] S(4) [OF False] same_data_fields [of "heap ?s b" "heap s b"] by (simp add: item_ok_def T rm)
  qed
  moreover have "(\<Sum>b \<in> ran ?m. ITEM_ntotal (heap ?s b)) = ITEM_ntotal (heap s a) + (\<Sum>b \<in> ran m. ITEM_ntotal (heap s b))"
  proof -
    have "(\<Sum>b \<in> ran m. ITEM_ntotal (heap ?s b)) = (\<Sum>b \<in> ran m. ITEM_ntotal (heap s b))"
    proof (rule sum.cong [OF refl])
      fix b assume "b \<in> ran m"
      then have "b \<noteq> a" using a(1) by auto
      from S(4) [OF this] show "ITEM_ntotal (heap ?s b) = ITEM_ntotal (heap s b)" by (intro same_data_fields(3)) simp_all
    qed
    then show ?thesis using a(1) I(9) by (simp add: rm xn)
  qed
  moreover have "no_overflow ?s" using I(5) by (simp add: no_overflow_def T)
  ultimately show "items_inv hash ?s ?m (Q(i := a # Q i)) F H R"
    using S(1,2) I(3,7,8,9) a(1) by (simp add: items_inv_def T rm lv queued_push [OF i256] add.commute)
qed

lemma assoc_key:
  assumes "assoc_abs hash s m" "m k = Some a"
  shows "key_of (heap s a) = k"
  using assms by (auto simp: assoc_abs_def abs_map_def)

lemma assoc_ran_delete:
  assumes "assoc_abs hash s m" "m k = Some a"
  shows "ran (m(k := None)) = ran m - {a}"
  using assoc_key [OF assms(1)] assms(2) by (auto simp: ran_def split: if_splits) (metis option.inject)

section \<open>Unlinking\<close>

lemma assoc_delete_fields:
  assumes "assoc_delete k hv s = Some s'"
  shows "slabclass s' = slabclass s" "power_largest s' = power_largest s" "settings s' = settings s" "malloc_supply s' = malloc_supply s"
    "current_time s' = current_time s" "heads s' = heads s" "tails s' = tails s" "lru_sizes s' = lru_sizes s" "sizes_bytes s' = sizes_bytes s"
    "curr_items s' = curr_items s" "curr_bytes s' = curr_bytes s"
  using assms by (auto simp: assoc_delete_def set_pos_def Let_def split: option.splits if_splits hpos.splits)

definition unlink_start :: "addr \<Rightarrow> 'a items_scheme \<Rightarrow> 'a items_scheme" where
  "unlink_start a s = s\<lparr>heap := (heap s)(a := (heap s a)\<lparr>it_flags := it_flags (heap s a) AND NOT ITEM_LINKED\<rparr>),
     curr_bytes := curr_bytes s - ITEM_ntotal (heap s a), curr_items := curr_items s - 1\<rparr>"

lemma unlink_ntotal: "ITEM_ntotal (x\<lparr>it_flags := it_flags x AND - 2\<rparr>) = ITEM_ntotal x"
  by (simp add: ITEM_ntotal_def has_flag_def and.assoc)

lemma do_item_unlink_eq:
  assumes "has_flag ITEM_LINKED (heap s a)"
  shows "\<exists>h. do_item_unlink a hv s = Option.bind (assoc_delete (key_of (heap s a)) hv ((unlink_start a s)\<lparr>stats_sizes_hist := h\<rparr>))
    (\<lambda>s4. do_item_remove a (do_item_unlink_q a s4))"
proof -
  obtain h where h: "item_stats_sizes_remove (heap (unlink_start a s) a) (unlink_start a s) = (unlink_start a s)\<lparr>stats_sizes_hist := h\<rparr>"
    using sizes_remove_eq by blast
  have "do_item_unlink a hv s = Option.bind (assoc_delete (key_of (heap s a)) hv (item_stats_sizes_remove (heap (unlink_start a s) a) (unlink_start a s)))
    (\<lambda>s4. do_item_remove a (do_item_unlink_q a s4))"
    using assms by (simp add: do_item_unlink_def Let_def unlink_start_def unlink_ntotal key_of_def)
  then show ?thesis unfolding h by blast
qed

lemma unlink_mid_state:
  assumes inv: "items_inv hash s m Q F H R" and k: "m k = Some a" and i: "i = unat (slabs_clsid (heap s a))" and Q: "Q i = xs @ a # ys"
    and s3: "s3 = (unlink_start a s)\<lparr>stats_sizes_hist := h\<rparr>"
  shows "\<exists>s4. assoc_delete k (hash k) s3 = Some s4 \<and> assoc_abs hash (do_item_unlink_q a s4) (m(k := None)) \<and>
    lru_ok (do_item_unlink_q a s4) (Q(i := xs @ ys)) \<and> (\<forall>b. b \<notin> ran m \<longrightarrow> heap (do_item_unlink_q a s4) b = heap s b) \<and>
    (\<forall>b. b \<noteq> a \<longrightarrow> it_flags (heap (do_item_unlink_q a s4) b) = it_flags (heap s b)) \<and>
    it_flags (heap (do_item_unlink_q a s4) a) = it_flags (heap s a) AND NOT ITEM_LINKED \<and>
    (\<forall>b. same_data (heap (do_item_unlink_q a s4) b) (heap s b) \<and> slabs_clsid (heap (do_item_unlink_q a s4) b) = slabs_clsid (heap s b) \<and>
      refcount (heap (do_item_unlink_q a s4) b) = refcount (heap s b))"
proof -
  note I = items_invD [OF inv]
  let ?x = "(heap s a)\<lparr>it_flags := it_flags (heap s a) AND NOT ITEM_LINKED\<rparr>"
  have h3: "heap s3 = (heap s)(a := ?x)" by (simp add: s3 unlink_start_def)
  have ar: "a \<in> ran m" using k by (auto simp: ran_def)
  have ab3: "assoc_abs hash s3 m" by (rule assoc_abs_frame [OF I(1)]) (auto simp: s3 unlink_start_def)
  from assoc_delete_abs [OF ab3 k] obtain s4 where s4: "assoc_delete k (hash k) s3 = Some s4" "assoc_abs hash s4 (m(k := None))"
    "hnext_only (heap s3) (heap s4)" "\<forall>b. b \<notin> ran m \<longrightarrow> heap s4 b = heap s3 b" by blast
  note hf = hnext_only_fields [OF s4(3)] and af = assoc_delete_fields [OF s4(1)]
  have lr4: "lru_ok s4 Q"
  proof (rule lru_ok_frame [OF I(2)])
    show "same_q (heap s4 b) (heap s b)" for b
      using hf [of b] by (cases "b = a") (simp_all add: h3 same_q_def lru_bytes_def ITEM_ntotal_def has_flag_def and.assoc)
  qed (use af in \<open>simp_all add: s3 unlink_start_def\<close>)
  have i256: "i < LARGEST_ID" using i clsid_bound by simp
  note U = unlink_q_ok [OF lr4 i256 Q]
  let ?s = "do_item_unlink_q a s4"
  note lf = links_only_fields [OF U(2)]
  have "assoc_abs hash ?s (m(k := None))" by (rule assoc_abs_frame [OF s4(2)]) (use lf in auto)
  moreover have "heap ?s b = heap s b" if "b \<notin> ran m" for b
  proof -
    have "b \<noteq> a" using that ar by auto
    then show ?thesis using that U(3) [of b] I(3) s4(4) by (simp add: h3)
  qed
  moreover have "b \<noteq> a \<Longrightarrow> it_flags (heap ?s b) = it_flags (heap s b)" "it_flags (heap ?s a) = it_flags (heap s a) AND NOT ITEM_LINKED"
    "same_data (heap ?s b) (heap s b) \<and> slabs_clsid (heap ?s b) = slabs_clsid (heap s b) \<and> refcount (heap ?s b) = refcount (heap s b)" for b
    using lf [of b] hf [of b] lf [of a] hf [of a] by (auto simp: h3 same_data_def)
  ultimately show ?thesis using s4(1) U(1) by blast
qed

lemma unlink_mid_inv:
  assumes inv: "items_inv hash s m Q F H R" and k: "m k = Some a"
  shows "\<exists>s5 i xs ys. do_item_unlink a (hash k) s = do_item_remove a s5 \<and> i < LARGEST_ID \<and> Q i = xs @ a # ys \<and>
    items_inv hash s5 (m(k := None)) (Q(i := xs @ ys)) F H (R(a := R a + 1)) \<and> data_kept UNIV s s5 \<and>
    ITEM_clsid (heap s5 a) = ITEM_clsid (heap s a)"
proof -
  note I = items_invD [OF inv]
  have ar: "a \<in> ran m" using k by (auto simp: ran_def)
  then have al: "a \<in> live m R" by (simp add: live_def)
  have ok: "item_ok m H (power_largest s) R a (heap s a)" by (rule I(6) [OF al])
  define i where "i = unat (slabs_clsid (heap s a))"
  have i256: "i < LARGEST_ID" by (simp add: i_def clsid_bound)
  obtain j where j: "j < 256" "a \<in> set (Q j)" using ar I(3) by (auto simp: queued_def)
  have "lru_list s j (Q j)" using I(2) j(1) by (simp add: lru_ok_def)
  then have "j = i" using j(2) by (auto simp: lru_list_def i_def)
  then obtain xs ys where Q: "Q i = xs @ a # ys" using j(2) by (auto simp: in_set_conv_decomp)
  have keyk: "key_of (heap s a) = k" by (rule assoc_key [OF I(1) k])
  have lk: "has_flag ITEM_LINKED (heap s a)" using ok ar by (simp add: item_ok_def)
  obtain h where e: "do_item_unlink a (hash k) s = Option.bind (assoc_delete k (hash k) ((unlink_start a s)\<lparr>stats_sizes_hist := h\<rparr>))
    (\<lambda>s4. do_item_remove a (do_item_unlink_q a s4))" using do_item_unlink_eq [OF lk] unfolding keyk by blast
  define s3 where "s3 = (unlink_start a s)\<lparr>stats_sizes_hist := h\<rparr>"
  from unlink_mid_state [OF inv k i_def Q s3_def] obtain s4 where s4: "assoc_delete k (hash k) s3 = Some s4"
    "assoc_abs hash (do_item_unlink_q a s4) (m(k := None))" "lru_ok (do_item_unlink_q a s4) (Q(i := xs @ ys))"
    "\<And>b. b \<notin> ran m \<Longrightarrow> heap (do_item_unlink_q a s4) b = heap s b"
    "\<And>b. b \<noteq> a \<Longrightarrow> it_flags (heap (do_item_unlink_q a s4) b) = it_flags (heap s b)"
    "it_flags (heap (do_item_unlink_q a s4) a) = it_flags (heap s a) AND NOT ITEM_LINKED"
    "\<And>b. same_data (heap (do_item_unlink_q a s4) b) (heap s b) \<and> slabs_clsid (heap (do_item_unlink_q a s4) b) = slabs_clsid (heap s b) \<and>
      refcount (heap (do_item_unlink_q a s4) b) = refcount (heap s b)" by blast
  let ?s = "do_item_unlink_q a s4" and ?m = "m(k := None)" and ?R = "R(a := R a + 1)"
  have af: "slabclass s4 = slabclass s" "power_largest s4 = power_largest s" "settings s4 = settings s" "malloc_supply s4 = malloc_supply s"
    "current_time s4 = current_time s" "curr_items s4 = curr_items s - 1" "curr_bytes s4 = curr_bytes s - ITEM_ntotal (heap s a)"
    using assoc_delete_fields [OF s4(1)] by (simp_all add: s3_def unlink_start_def)
  have rm: "ran ?m = ran m - {a}" by (rule assoc_ran_delete [OF I(1) k])
  have nt: "ITEM_ntotal (heap ?s b) = ITEM_ntotal (heap s b)" for b
    using s4(5) [of b] s4(6) s4(7) [of b] same_data_fields(3) [of "heap ?s b" "heap s b"]
    by (cases "b = a") (auto simp: ITEM_ntotal_def has_flag_def and.assoc same_data_def)
  have "slab_inv ?s F H"
  proof (rule slab_inv_frame [OF I(4)])
    fix b assume "b \<in> all_free s F"
    then have "b \<notin> ran m" using live_held(1) [OF inv] by (auto simp: live_def)
    then show "heap ?s b = heap s b" by (rule s4(4))
  qed (simp_all add: af)
  moreover have "item_ok ?m H (power_largest ?s) ?R b (heap ?s b)" if b: "b \<in> live ?m ?R" for b
  proof (cases "b = a")
    case True
    have "\<not> has_flag ITEM_LINKED (heap ?s a)" "has_flag ITEM_CHUNKED (heap ?s a) = has_flag ITEM_CHUNKED (heap s a)"
      "it_flags (heap ?s a) AND 68 = it_flags (heap s a) AND 68"
      by (simp_all add: has_flag_def s4(6) and.assoc)
    then show ?thesis using ok ar s4(7) [of a] True by (simp add: item_ok_def af rm same_data_def key_wf_def ITEM_clsid_def)
  next
    case False
    have bl: "b \<in> live m R" using b False by (auto simp: live_def rm split: if_splits)
    show ?thesis using I(6) [OF bl] s4(5,7) [of b] False same_data_fields [of "heap ?s b" "heap s b"] by (simp add: item_ok_def af rm)
  qed
  moreover have "(\<Sum>b \<in> ran ?m. ITEM_ntotal (heap ?s b)) = curr_bytes s - ITEM_ntotal (heap s a)" "of_nat (card (ran ?m)) = curr_items s - 1"
    using sum.remove [OF I(9) ar, of "\<lambda>b. ITEM_ntotal (heap s b)"] card.remove [OF I(9) ar] I(7,8) by (simp_all add: rm nt)
  moreover have "queued (Q(i := xs @ ys)) = ran ?m" using queued_remove [OF I(2) i256 Q] I(3) rm by simp
  moreover have "no_overflow ?s" using I(5) by (simp add: no_overflow_def af)
  ultimately have "items_inv hash ?s ?m (Q(i := xs @ ys)) F H ?R" using s4(2,3) by (simp add: items_inv_def af)
  moreover have "data_kept UNIV s ?s" by (rule data_keptI) (use s4(7) af in auto)
  moreover have "do_item_unlink a (hash k) s = do_item_remove a ?s" using e s4(1) by (simp add: s3_def)
  moreover have "ITEM_clsid (heap ?s a) = ITEM_clsid (heap s a)" using s4(7) [of a] by (simp add: ITEM_clsid_def)
  ultimately show ?thesis using i256 Q by blast
qed

lemma do_item_unlink_inv:
  assumes inv: "items_inv hash s m Q F H R" and k: "m k = Some a"
  shows "\<exists>s' Q' F'. do_item_unlink a (hash k) s = Some s' \<and> data_kept (live (m(k := None)) R) s s' \<and>
    items_inv hash s' (m(k := None)) Q' F' (if R a = 0 then (let c = unat (ITEM_clsid (heap s a)) in H(c := H c - {a})) else H) R"
proof -
  from unlink_mid_inv [OF inv k] obtain s5 i xs ys where s5: "do_item_unlink a (hash k) s = do_item_remove a s5"
    "items_inv hash s5 (m(k := None)) (Q(i := xs @ ys)) F H (R(a := R a + 1))" "data_kept UNIV s s5"
    "ITEM_clsid (heap s5 a) = ITEM_clsid (heap s a)" by blast
  have an: "a \<notin> ran (m(k := None))" using assoc_ran_delete [OF items_invD(1) [OF inv] k] by simp
  from do_item_remove_inv [OF s5(2), of a] an obtain s' F' where s': "do_item_remove a s5 = Some s'"
    "data_kept (live (m(k := None)) R) s5 s'"
    "items_inv hash s' (m(k := None)) (Q(i := xs @ ys)) F' (if R a = 0 then (let c = unat (ITEM_clsid (heap s5 a)) in H(c := H c - {a})) else H) R"
    by auto
  note s'(3) [unfolded s5(4)]
  moreover have "data_kept (live (m(k := None)) R) s s'" by (rule data_kept_trans [OF s5(3) s'(2)]) auto
  ultimately show ?thesis using s5(1) s'(1) by metis
qed

lemma do_item_unlink_nolock_eq: "do_item_unlink_nolock = do_item_unlink"
  by (simp add: fun_eq_iff do_item_unlink_nolock_def do_item_unlink_def)

section \<open>Moving an item between queues\<close>

lemma clsid_set_lru:
  assumes "lru AND NOT (push_bit 6 3) = 0"
  shows "ITEM_clsid (set_lru lru x) = ITEM_clsid x"
  using assms by (simp add: ITEM_clsid_def set_lru_def bit.conj_disj_distrib2 and.assoc)

lemma item_queue:
  assumes inv: "items_inv hash s m Q F H R" and a: "a \<in> ran m"
  shows "\<exists>i xs ys. i = unat (slabs_clsid (heap s a)) \<and> i < LARGEST_ID \<and> Q i = xs @ a # ys"
proof -
  note I = items_invD [OF inv]
  obtain j where j: "j < 256" "a \<in> set (Q j)" using a I(3) by (auto simp: queued_def)
  have "lru_list s j (Q j)" using I(2) j(1) by (simp add: lru_ok_def)
  then have "j = unat (slabs_clsid (heap s a))" using j(2) by (auto simp: lru_list_def)
  with j show ?thesis by (auto simp: in_set_conv_decomp)
qed

lemma requeue_inv:
  assumes inv: "items_inv hash s m Q F H R" and a: "a \<in> ran m"
    and g: "\<And>x. h_next (g x) = h_next x \<and> nkey (g x) = nkey x \<and> ikey (g x) = ikey x \<and> nbytes (g x) = nbytes x \<and>
      refcount (g x) = refcount x \<and> it_flags (g x) AND 487 = it_flags x AND 487 \<and> ITEM_clsid (g x) = ITEM_clsid x"
  shows "\<exists>Q'. items_inv hash (do_item_link_q a (upd_item a g (do_item_unlink_q a s))) m Q' F H R"
    "\<And>b. b \<noteq> a \<Longrightarrow> same_data (heap (do_item_link_q a (upd_item a g (do_item_unlink_q a s))) b) (heap s b)"
    "links_only ((heap (do_item_unlink_q a s))(a := g (heap (do_item_unlink_q a s) a))) (heap (do_item_link_q a (upd_item a g (do_item_unlink_q a s))))"
proof -
  note I = items_invD [OF inv]
  have al: "a \<in> live m R" using a by (simp add: live_def)
  obtain i xs ys where Q: "i = unat (slabs_clsid (heap s a))" "i < LARGEST_ID" "Q i = xs @ a # ys" using item_queue [OF inv a] by blast
  let ?s2 = "do_item_unlink_q a s" and ?Q2 = "Q(i := xs @ ys)"
  let ?s3 = "upd_item a g ?s2"
  let ?s = "do_item_link_q a ?s3"
  note U = unlink_q_ok [OF I(2) Q(2,3)] and q2 = queued_remove [OF I(2) Q(2,3)]
  have aq: "a \<notin> queued ?Q2" using q2 by simp
  have l3: "lru_ok ?s3 ?Q2" by (rule lru_ok_frame [OF U(1)]) (use aq in auto)
  define j where "j = unat (slabs_clsid (heap ?s3 a))"
  have j256: "j < LARGEST_ID" by (simp add: j_def clsid_bound)
  note L = link_q_ok [OF l3 live_held(2) [OF inv al] aq j_def]
  note lu = links_only_fields [OF U(2)] and ll = links_only_fields [OF L(2)]
  show "links_only ((heap ?s2)(a := g (heap ?s2 a))) (heap ?s)" using L(2) by simp
  have fa: "it_flags (heap ?s b) AND 487 = it_flags (heap s b) AND 487" "h_next (heap ?s b) = h_next (heap s b)" "nkey (heap ?s b) = nkey (heap s b)"
    "ikey (heap ?s b) = ikey (heap s b)" "nbytes (heap ?s b) = nbytes (heap s b)" "refcount (heap ?s b) = refcount (heap s b)" for b
    using lu [of b] ll [of b] g [of "heap ?s2 a"] by (cases "b = a"; simp)+
  have ci: "ITEM_clsid (heap ?s b) = ITEM_clsid (heap s b)" for b
  proof -
    have "ITEM_clsid (heap ?s b) = ITEM_clsid (heap ?s3 b)" "ITEM_clsid (heap ?s2 b) = ITEM_clsid (heap s b)"
      using lu(7) [of b] ll(7) [of b] by (simp_all add: ITEM_clsid_def)
    then show ?thesis using g [of "heap ?s2 a"] by (cases "b = a") simp_all
  qed
  show "same_data (heap ?s b) (heap s b)" if "b \<noteq> a" for b
    using that lu [of b] ll [of b] by (simp add: same_data_def)
  have rep: "same_core ((heap ?s b)\<lparr>it_next := NULL, it_prev := NULL, slabs_clsid := 0\<rparr>) ((heap s b)\<lparr>it_next := NULL, it_prev := NULL, slabs_clsid := 0\<rparr>)" for b
    using fa by (simp add: same_core_def)
  have fl: "has_flag ITEM_LINKED (heap ?s b) = has_flag ITEM_LINKED (heap s b)" "has_flag ITEM_CHUNKED (heap ?s b) = has_flag ITEM_CHUNKED (heap s b)"
    "ITEM_ntotal (heap ?s b) = ITEM_ntotal (heap s b)" "key_wf (heap ?s b) = key_wf (heap s b)" "it_flags (heap ?s b) AND 68 = it_flags (heap s b) AND 68" for b
    using same_coreD(2,4,6,7,8) [OF rep [of b]] by (simp_all add: has_flag_def ITEM_ntotal_def key_wf_def)
  have "assoc_abs hash ?s m" by (rule assoc_abs_frame [OF I(1)]) (use fa in auto)
  moreover have "slab_inv ?s F H"
  proof (rule slab_inv_frame [OF I(4)])
    fix b assume "b \<in> all_free s F"
    then have b: "b \<noteq> a" "b \<notin> queued Q" "b \<notin> queued ?Q2" using live_held(1) [OF inv] I(3) al q2 by (auto simp: live_def)
    show "heap ?s b = heap s b" using L(3) [OF b(1,3)] U(3) [OF b(2)] b(1) by simp
  qed simp_all
  moreover have "queued (?Q2(j := a # ?Q2 j)) = ran m" unfolding queued_push [OF j256] q2 using I(3) a by auto
  moreover have "no_overflow ?s" using I(5) by (simp add: no_overflow_def)
  moreover have "item_ok m H (power_largest ?s) R b (heap ?s b)" if b: "b \<in> live m R" for b
    using I(6) [OF b] fl ci fa by (simp add: item_ok_def)
  ultimately have "items_inv hash ?s m (?Q2(j := a # ?Q2 j)) F H R" using L(1) I(7,8) fl(3) by (simp add: items_inv_def)
  then show "\<exists>Q'. items_inv hash ?s m Q' F H R" by blast
qed

text \<open>A change of hit markers, times or expiration times.\<close>

lemma mark_inv:
  assumes inv: "items_inv hash s m Q F H R" and a: "a \<in> live m R"
    and g: "\<And>x. same_core (g x) x \<and> refcount (g x) = refcount x"
  shows "items_inv hash (upd_item a g s) m Q F H R"
proof (rule items_inv_tweak [OF inv])
  show "same_core (heap (upd_item a g s) b) (heap s b)" for b using g by simp
  show "heap (upd_item a g s) b = heap s b" if "b \<notin> live m R" for b using that a by auto
  show "unat (refcount (heap (upd_item a g s) b)) = R b + (if b \<in> ran m then 1 else 0)" if "b \<in> live m R" for b
    using items_invD(6) [OF inv that] g [of "heap s a"] by (auto simp: item_ok_def)
qed (auto simp: same_tables_def)

lemma mark_kept: "(\<And>x. same_data (g x) x) \<Longrightarrow> data_kept A s (upd_item a g s)"
  by (rule data_keptI) auto

lemma upd_stat_inv: "items_inv hash (upd_stat i f s) m Q F H R \<longleftrightarrow> items_inv hash s m Q F H R"
proof -
  have h: "heap (upd_stat i f s) = heap s" by (simp add: upd_stat_def)
  have e: "same_tables s (upd_stat i f s)" "same_tables (upd_stat i f s) s" "curr_items (upd_stat i f s) = curr_items s" "curr_bytes (upd_stat i f s) = curr_bytes s"
    by (simp_all add: upd_stat_def same_tables_def)
  show ?thesis
  proof
    assume i: "items_inv hash s m Q F H R"
    show "items_inv hash (upd_stat i f s) m Q F H R"
      by (rule items_inv_tweak [OF i e(1,3,4)]) (use items_invD(6) [OF i] in \<open>auto simp: h item_ok_def\<close>)
  next
    assume i: "items_inv hash (upd_stat i f s) m Q F H R"
    show "items_inv hash s m Q F H R"
      by (rule items_inv_tweak [OF i e(2) e(3,4) [symmetric]]) (use items_invD(6) [OF i] in \<open>auto simp: h item_ok_def\<close>)
  qed
qed

lemma upd_stat_kept: "data_kept A s s' \<Longrightarrow> data_kept A s (upd_stat i f s')"
  by (simp add: data_kept_def upd_stat_def)

lemma links_same_data: "links_only h h' \<Longrightarrow> same_data (h' a) (h a)"
  using links_only_fields [of h h' a] by (simp add: same_data_def)

lemma requeue_kept:
  assumes inv: "items_inv hash s m Q F H R" and a: "a \<in> ran m"
    and g: "\<And>x. h_next (g x) = h_next x \<and> nkey (g x) = nkey x \<and> ikey (g x) = ikey x \<and> nbytes (g x) = nbytes x \<and>
      refcount (g x) = refcount x \<and> it_flags (g x) AND 487 = it_flags x AND 487 \<and> ITEM_clsid (g x) = ITEM_clsid x" "\<And>x. same_data (g x) x"
  shows "data_kept A s (do_item_link_q a (upd_item a g (do_item_unlink_q a s)))"
proof (rule data_keptI)
  let ?s2 = "do_item_unlink_q a s" and ?s = "do_item_link_q a (upd_item a g (do_item_unlink_q a s))"
  note rq = requeue_inv [OF inv a g(1)]
  obtain i xs ys where Q: "i < LARGEST_ID" "Q i = xs @ a # ys" using item_queue [OF inv a] by blast
  note lu = unlink_q_ok(2) [OF items_invD(2) [OF inv] Q]
  show "same_data (heap ?s b) (heap s b)" for b
  proof (cases "b = a")
    case True
    have "same_data (heap ?s a) (g (heap ?s2 a))" using links_same_data [OF rq(3), of a] by simp
    moreover have "same_data (heap ?s2 a) (heap s a)" by (rule links_same_data [OF lu])
    ultimately show ?thesis using g(2) same_data_trans True by blast
  qed (rule rq(2))
qed simp_all

lemma do_item_update_inv:
  assumes inv: "items_inv hash s m Q F H R" and a: "a \<in> live m R"
  shows "\<exists>Q'. items_inv hash (do_item_update a s) m Q' F H R" "data_kept A s (do_item_update a s)"
proof -
  let ?t = "it_time_update (\<lambda>_. current_time s)" and ?w = "\<lambda>i. (set_lru WARM_LRU i)\<lparr>it_flags := it_flags i AND NOT ITEM_ACTIVE\<rparr>"
  let ?s1 = "upd_item a ?t s"
  have t: "items_inv hash ?s1 m Q F H R" by (rule mark_inv [OF inv a]) (simp add: same_core_def)
  have tk: "data_kept A s ?s1" for A by (rule mark_kept) (simp add: same_data_def)
  have lk: "has_flag ITEM_LINKED (heap s a) \<longleftrightarrow> a \<in> ran m" using items_invD(6) [OF inv a] by (simp add: item_ok_def)
  have w: "h_next (?w x) = h_next x \<and> nkey (?w x) = nkey x \<and> ikey (?w x) = ikey x \<and> nbytes (?w x) = nbytes x \<and>
      refcount (?w x) = refcount x \<and> it_flags (?w x) AND 487 = it_flags x AND 487 \<and> ITEM_clsid (?w x) = ITEM_clsid x" for x
    using clsid_set_lru [of WARM_LRU x] by (simp add: set_lru_def and.assoc ITEM_clsid_def)
  have wd: "same_data (?w x) x" for x by (simp add: same_data_def set_lru_def)
  have u: "upd_item a (\<lambda>x. x) s' = s'" for s' :: "'a items_scheme" by simp
  consider (same) "do_item_update a s = s" | (time) "do_item_update a s = ?s1"
    | (warm) i where "a \<in> ran m" "do_item_update a s = upd_stat i (\<lambda>t. t\<lparr>moves_to_warm := moves_to_warm t + 1\<rparr>) (do_item_link_q a (upd_item a ?w (do_item_unlink_q a ?s1)))"
    | (front) "a \<in> ran m" "do_item_update a s = do_item_link_q a (upd_item a (\<lambda>x. x) (do_item_unlink_q a ?s1))"
  proof -
    have "do_item_update a s = s \<or> do_item_update a s = ?s1 \<or>
      (\<exists>i. a \<in> ran m \<and> do_item_update a s = upd_stat i (\<lambda>t. t\<lparr>moves_to_warm := moves_to_warm t + 1\<rparr>) (do_item_link_q a (upd_item a ?w (do_item_unlink_q a ?s1)))) \<or>
      (a \<in> ran m \<and> do_item_update a s = do_item_link_q a (do_item_unlink_q a ?s1))"
      unfolding do_item_update_def Let_def item_link_q_warm_def lk by (auto simp del: upd_item_def)
    with that show thesis unfolding u by blast
  qed
  then have "(\<exists>Q'. items_inv hash (do_item_update a s) m Q' F H R) \<and> data_kept A s (do_item_update a s)"
  proof cases
    case warm
    have "data_kept A s (do_item_link_q a (upd_item a ?w (do_item_unlink_q a ?s1)))"
      by (rule data_kept_trans [OF tk requeue_kept [OF t warm(1) w wd]]) auto
    with requeue_inv(1) [OF t warm(1) w] show ?thesis unfolding warm(2) upd_stat_inv by (auto intro: upd_stat_kept simp del: upd_item_def)
  next
    case front
    have "data_kept A s (do_item_link_q a (upd_item a (\<lambda>x. x) (do_item_unlink_q a ?s1)))"
      by (rule data_kept_trans [OF tk requeue_kept [OF t front(1)]]) auto
    with requeue_inv(1) [OF t front(1), of "\<lambda>x. x"] show ?thesis unfolding front(2) by (simp del: upd_item_def)
  qed (use inv t tk in auto)
  then show "\<exists>Q'. items_inv hash (do_item_update a s) m Q' F H R" "data_kept A s (do_item_update a s)" by blast+
qed

section \<open>Fetching\<close>

lemma data_kept_tr: "\<lbrakk>data_kept A s s'; data_kept A s' s''\<rbrakk> \<Longrightarrow> data_kept A s s''"
  by (rule data_kept_trans) auto

lemma lru_bump_async_inv:
  assumes inv: "items_inv hash s m Q F H R" and a: "a \<in> live m R" "R a + 2 < 2 ^ 16" and b: "lru_bump_async th a hv s = (s', ok)"
  shows "items_inv hash s' m Q F H (if ok then R(a := R a + 1) else R)" "data_kept A s s'"
proof -
  let ?s1 = "refcount_incr a s"
  note i1 = refcount_incr_inv [OF inv a]
  have "\<exists>B. s' = (if ok then ?s1 else refcount_decr a ?s1)\<lparr>bump_buf := B\<rparr>"
    using b by (auto simp: lru_bump_async_def Let_def refcount_incr_def refcount_decr_def split: option.splits if_splits prod.splits)
  then obtain B where s': "s' = (if ok then ?s1 else refcount_decr a ?s1)\<lparr>bump_buf := B\<rparr>" by blast
  have hp: "heap s' = (if ok then heap ?s1 else heap s)"
    by (auto simp: s' fun_eq_iff refcount_incr_def refcount_decr_def)
  have t: "same_tables s s'" "curr_items s' = curr_items s" "curr_bytes s' = curr_bytes s" "current_time s' = current_time s"
    by (auto simp: s' same_tables_def refcount_incr_def refcount_decr_def)
  have t1: "same_tables ?s1 s'" "curr_items s' = curr_items ?s1" "curr_bytes s' = curr_bytes ?s1"
    using t by (auto simp: same_tables_def refcount_incr_def)
  show "items_inv hash s' m Q F H (if ok then R(a := R a + 1) else R)"
  proof (cases ok)
    case True
    have "items_inv hash s' m Q F H (R(a := R a + 1))"
      by (rule items_inv_tweak [OF i1(1) t1]) (use True hp items_invD(6) [OF i1(1)] in \<open>auto simp: item_ok_def\<close>)
    with True show ?thesis by simp
  next
    case False
    have "items_inv hash s' m Q F H R"
      by (rule items_inv_tweak [OF inv t(1-3)]) (use False hp items_invD(6) [OF inv] in \<open>auto simp: item_ok_def\<close>)
    with False show ?thesis by simp
  qed
  show "data_kept A s s'"
    by (rule data_keptI) (use hp t in \<open>auto simp: same_tables_def refcount_incr_def same_data_def\<close>)
qed

lemma do_item_bump_inv:
  assumes inv: "items_inv hash s m Q F H R" and a: "a \<in> live m R" "R a + 2 < 2 ^ 16"
  shows "\<exists>Q' R'. items_inv hash (do_item_bump th a hv s) m Q' F H R' \<and> (R' = R \<or> R' = R(a := R a + 1)) \<and> data_kept A s (do_item_bump th a hv s)"
proof -
  let ?f = "upd_item a (\<lambda>i. i\<lparr>it_flags := it_flags i OR ITEM_FETCHED\<rparr>)" and ?c = "upd_item a (\<lambda>i. i\<lparr>it_flags := it_flags i OR ITEM_ACTIVE\<rparr>)"
    and ?t = "upd_item a (it_time_update (\<lambda>_. current_time s))" and ?n = "upd_item a (\<lambda>i. i\<lparr>it_flags := it_flags i AND NOT ITEM_ACTIVE\<rparr>)"
  have f: "items_inv hash (?f s) m Q F H R" "data_kept B s (?f s)" for B
    by (rule mark_inv [OF inv a(1)], simp add: same_core_def flag_or) (rule mark_kept, simp add: same_data_def)
  have c: "items_inv hash (?c s) m Q F H R" "data_kept B s (?c s)" for B
    by (rule mark_inv [OF inv a(1)], simp add: same_core_def flag_or) (rule mark_kept, simp add: same_data_def)
  have ct: "items_inv hash (?t (?c s)) m Q F H R" "data_kept B (?c s) (?t (?c s))" for B
    by (rule mark_inv [OF c(1) a(1)], simp add: same_core_def) (rule mark_kept, simp add: same_data_def)
  obtain s2 ok where b: "lru_bump_async th a hv (?c s) = (s2, ok)" by fastforce
  note B = lru_bump_async_inv [OF c(1) a b]
  have cn: "items_inv hash (?n s2) m Q F H R" if "\<not> ok"
  proof -
    have "items_inv hash s2 m Q F H R" using B(1) that by simp
    then show ?thesis by (rule mark_inv [OF _ a(1)]) (simp add: same_core_def and.assoc)
  qed
  have nk: "data_kept A s2 (?n s2)" by (rule mark_kept) (simp add: same_data_def)
  have k2: "data_kept A s s2" by (rule data_kept_tr [OF c(2) B(2)])
  have k3: "data_kept A s (?t (?c s))" by (rule data_kept_tr [OF c(2) ct(2)])
  have k4: "data_kept A s (?n s2)" by (rule data_kept_tr [OF k2 nk])
  have eq: "do_item_bump th a hv s = (if lru_segmented (settings s)
     then if \<not> has_flag ITEM_ACTIVE (heap s a)
          then if \<not> has_flag ITEM_FETCHED (heap s a) then ?f s
               else if ITEM_lruid (heap s a) \<noteq> COLD_LRU then ?t (?c s) else if \<not> ok then ?n s2 else s2
          else s
     else do_item_update a (?f s))"
    unfolding do_item_bump_def Let_def b prod.case ..
  have u: "\<exists>Q'. items_inv hash (do_item_update a (?f s)) m Q' F H R" "data_kept A s (do_item_update a (?f s))"
    using do_item_update_inv [OF f(1) a(1)] data_kept_trans [OF f(2) do_item_update_inv(2) [OF f(1) a(1)]] by blast+
  let ?P = "\<lambda>s'. \<exists>Q' R'. items_inv hash s' m Q' F H R' \<and> (R' = R \<or> R' = R(a := R a + 1)) \<and> data_kept A s s'"
  have p1: "?P s" using inv data_kept_refl by blast
  have p2: "?P (?f s)" using f(1) f(2) [of A] by blast
  have p3: "?P (?t (?c s))" using ct(1) k3 by blast
  have p4: "?P (do_item_update a (?f s))" using u by blast
  have q: "?P s2" if ok using B(1) k2 that by (auto simp del: fun_upd_apply intro!: exI [of _ Q] exI [of _ "R(a := R a + 1)"])
  have r: "?P (?n s2)" if "\<not> ok" using cn [OF that] k4 by blast
  show ?thesis unfolding eq using p1 p2 p3 p4 q r by presburger
qed

lemma STORAGE_delete_inv:
  "items_inv hash (STORAGE_delete a s) m Q F H R \<longleftrightarrow> items_inv hash s m Q F H R" "data_kept A s (STORAGE_delete a s)"
  "heap (STORAGE_delete a s) = heap s"
proof -
  have e: "STORAGE_delete a s = s \<or> (\<exists>l. STORAGE_delete a s = s\<lparr>ext_deleted := l\<rparr>)" by (auto simp: STORAGE_delete_def)
  then show "data_kept A s (STORAGE_delete a s)" "heap (STORAGE_delete a s) = heap s" by (auto simp: data_kept_def)
  have "items_inv hash (s\<lparr>ext_deleted := l\<rparr>) m Q F H R \<longleftrightarrow> items_inv hash s m Q F H R" for l
  proof
    let ?s = "s\<lparr>ext_deleted := l\<rparr>"
    have t: "same_tables s ?s" "same_tables ?s s" "curr_items ?s = curr_items s" "curr_bytes ?s = curr_bytes s" by (simp_all add: same_tables_def)
    show "items_inv hash s m Q F H R" if i: "items_inv hash ?s m Q F H R"
      by (rule items_inv_tweak [OF i t(2) t(3,4) [symmetric]]) (use items_invD(6) [OF i] in \<open>auto simp: item_ok_def\<close>)
    show "items_inv hash ?s m Q F H R" if i: "items_inv hash s m Q F H R"
      by (rule items_inv_tweak [OF i t(1,3,4)]) (use items_invD(6) [OF i] in \<open>auto simp: item_ok_def\<close>)
  qed
  with e show "items_inv hash (STORAGE_delete a s) m Q F H R \<longleftrightarrow> items_inv hash s m Q F H R" by auto
qed

lemma thread_stats_inv:
  assumes i: "items_inv hash s m Q F H R"
  shows "items_inv hash (s\<lparr>get_flushed := x\<rparr>) m Q F H R" "items_inv hash (s\<lparr>get_expired := x\<rparr>) m Q F H R"
    "data_kept A s (s\<lparr>get_flushed := x\<rparr>)" "data_kept A s (s\<lparr>get_expired := x\<rparr>)"
proof -
  show "items_inv hash (s\<lparr>get_flushed := x\<rparr>) m Q F H R"
    by (rule items_inv_tweak [OF i]) (use items_invD(6) [OF i] in \<open>auto simp: item_ok_def same_tables_def\<close>)
  show "items_inv hash (s\<lparr>get_expired := x\<rparr>) m Q F H R"
    by (rule items_inv_tweak [OF i]) (use items_invD(6) [OF i] in \<open>auto simp: item_ok_def same_tables_def\<close>)
qed (simp_all add: data_kept_def)

text \<open>The removal of an item found dead by a fetch: the fetch holds a reference while it unlinks.\<close>

lemma drop_dead_inv:
  assumes inv: "items_inv hash s m Q F H R" and k: "m k = Some a" "R a + 2 < 2 ^ 16"
  shows "\<exists>s2 s3 Q' F' H'. do_item_unlink a (hash k) (refcount_incr a s) = Some s2 \<and> do_item_remove a (STORAGE_delete a s2) = Some s3 \<and>
    items_inv hash s3 (m(k := None)) Q' F' H' R \<and> data_kept (live (m(k := None)) R) s s3"
proof -
  let ?s1 = "refcount_incr a s" and ?m = "m(k := None)" and ?R = "R(a := R a + 1)"
  have al: "a \<in> live m R" using k(1) by (auto simp: live_def ran_def)
  note i1 = refcount_incr_inv [OF inv al k(2)]
  from do_item_unlink_inv [OF i1(1) k(1)] obtain s2 Q2 F2 H2 where u: "do_item_unlink a (hash k) ?s1 = Some s2"
    "data_kept (live ?m ?R) ?s1 s2" "items_inv hash s2 ?m Q2 F2 H2 ?R" by blast
  have st: "items_inv hash (STORAGE_delete a s2) ?m Q2 F2 H2 ?R" using u(3) by (simp add: STORAGE_delete_inv(1))
  have rr: "?R(a := ?R a - 1) = R" by simp
  from do_item_remove_inv [OF st, of a] obtain s3 F3 H3 where r: "do_item_remove a (STORAGE_delete a s2) = Some s3"
    "data_kept (live ?m (?R(a := ?R a - 1))) (STORAGE_delete a s2) s3" "items_inv hash s3 ?m Q2 F3 H3 (?R(a := ?R a - 1))" by force
  note r2 = r(2,3) [unfolded rr]
  have sub: "live ?m R \<subseteq> live ?m ?R" by (auto simp: live_def)
  have "data_kept (live ?m R) s s2" by (rule data_kept_trans [OF i1(2) u(2)]) (use sub in auto)
  then have "data_kept (live ?m R) s (STORAGE_delete a s2)" by (rule data_kept_tr [OF _ STORAGE_delete_inv(2)])
  then have "data_kept (live ?m R) s s3" by (rule data_kept_tr [OF _ r2(1)])
  with u(1) r(1) r2(2) show ?thesis by blast
qed

definition item_dead :: "item \<Rightarrow> 'a slabs_scheme \<Rightarrow> bool" where
  "item_dead x s \<longleftrightarrow> item_is_flushed x s \<or> (exptime x \<noteq> 0 \<and> exptime x \<le> current_time s)"

lemma do_item_get_inv:
  assumes inv: "items_inv hash s m Q F H R" and small: "\<forall>a \<in> ran m. R a + 3 < 2 ^ 16"
  shows "case m k of
      None \<Rightarrow> do_item_get k (hash k) th upd s = Some (s, NULL)
    | Some a \<Rightarrow> \<exists>s' Q' F' H' R'. do_item_get k (hash k) th upd s = Some (s', if item_dead (heap s a) s then NULL else a) \<and>
        items_inv hash s' (if item_dead (heap s a) s then m(k := None) else m) Q' F' H' R' \<and>
        (if item_dead (heap s a) s then R' = R else R' = R(a := R a + 1) \<or> R' = R(a := R a + 2)) \<and>
        data_kept (live (if item_dead (heap s a) s then m(k := None) else m) R) s s'"
proof (cases "m k")
  case None
  then show ?thesis using assoc_find_abs [OF items_invD(1) [OF inv], of k] by (simp add: do_item_get_def)
next
  case (Some a)
  let ?s1 = "refcount_incr a s"
  have ar: "a \<in> ran m" using Some by (auto simp: ran_def)
  then have al: "a \<in> live m R" by (simp add: live_def)
  have sm: "R a + 2 < 2 ^ 16" "R a + 1 + 2 < 2 ^ 16" using small ar by auto
  note i1 = refcount_incr_inv [OF inv al sm(1)] and hl = live_held [OF inv al]
  have fd: "assoc_find k (hash k) s = Some a" using assoc_find_abs [OF items_invD(1) [OF inv], of k] Some by simp
  have dead: "item_is_flushed (heap ?s1 a) ?s1 = item_is_flushed (heap s a) s" "exptime (heap ?s1 a) = exptime (heap s a)" "current_time ?s1 = current_time s"
    by (simp_all add: item_is_flushed_def refcount_incr_def ITEM_get_cas_def has_flag_def Let_def)
  show ?thesis
  proof (cases "item_dead (heap s a) s")
    case True
    from drop_dead_inv [OF inv Some sm(1)] obtain s2 s3 Q' F' H' where d: "do_item_unlink a (hash k) ?s1 = Some s2"
      "do_item_remove a (STORAGE_delete a s2) = Some s3" "items_inv hash s3 (m(k := None)) Q' F' H' R" "data_kept (live (m(k := None)) R) s s3" by blast
    note ts = thread_stats_inv [OF d(3)]
    have "\<exists>s'. do_item_get k (hash k) th upd s = Some (s', NULL) \<and> items_inv hash s' (m(k := None)) Q' F' H' R \<and> data_kept (live (m(k := None)) R) s s'"
    proof -
      have "do_item_get k (hash k) th upd s = Some (if item_is_flushed (heap s a) s then s3\<lparr>get_flushed := get_flushed s3 + 1\<rparr>
          else s3\<lparr>get_expired := get_expired s3 + 1\<rparr>, NULL)"
        using True by (auto simp: do_item_get_def Let_def fd hl(2) dead d(1,2) item_dead_def)
      then show ?thesis using ts(1,2) data_kept_tr [OF d(4) ts(3)] data_kept_tr [OF d(4) ts(4)] by (cases "item_is_flushed (heap s a) s") auto
    qed
    with True Some show ?thesis by (simp del: fun_upd_apply) blast
  next
    case False
    have al1: "a \<in> live m (R(a := R a + 1))" using ar by (simp add: live_def)
    have sm1: "(R(a := R a + 1)) a + 2 < 2 ^ 16" using sm by simp
    from do_item_bump_inv [OF i1(1) al1 sm1, where th = th and hv = "hash k" and A = "live m R"] obtain Q' R' where b: "items_inv hash (do_item_bump th a (hash k) ?s1) m Q' F H R'"
      "R' = R(a := R a + 1) \<or> R' = (R(a := R a + 1))(a := (R(a := R a + 1)) a + 1)" "data_kept (live m R) ?s1 (do_item_bump th a (hash k) ?s1)" by blast
    let ?s = "if upd then do_item_bump th a (hash k) ?s1 else ?s1"
    have "do_item_get k (hash k) th upd s = Some (?s, a)" using False by (auto simp: do_item_get_def Let_def fd hl(2) dead item_dead_def)
    moreover have "data_kept (live m R) s ?s" using i1(2) data_kept_tr [OF i1(2) b(3)] by simp
    moreover have "\<exists>Q' R'. items_inv hash ?s m Q' F H R' \<and> (R' = R(a := R a + 1) \<or> R' = R(a := R a + 2))"
    proof (cases upd)
      case True
      have "R' = R(a := R a + 1) \<or> R' = R(a := R a + 2)" using b(2) by auto
      with b(1) True show ?thesis by auto
    qed (use i1(1) in auto)
    ultimately have "\<exists>s' Q' R'. do_item_get k (hash k) th upd s = Some (s', a) \<and> items_inv hash s' m Q' F H R' \<and>
      (R' = R(a := R a + 1) \<or> R' = R(a := R a + 2)) \<and> data_kept (live m R) s s'" by blast
    with False Some show ?thesis by (simp del: fun_upd_apply) blast
  qed
qed

section \<open>A new item\<close>

text \<open>A chunk the allocator has handed out becomes an item of its holder once a header is written to it.\<close>

lemma adopt_inv:
  assumes inv: "items_inv hash s m Q F H R" and b: "b \<notin> live m R" "b \<in> H c" "c \<in> {1..power_largest s}"
    and x: "item_ok m H (power_largest s) (R(b := n)) b x"
    and s': "heap s' = (heap s)(b := x)" "same_tables s s'" "curr_items s' = curr_items s" "curr_bytes s' = curr_bytes s"
  shows "items_inv hash s' m Q F H (R(b := n))"
proof -
  note I = items_invD [OF inv]
  have t: "hashpower s' = hashpower s" "primary_hashtable s' = primary_hashtable s" "old_hashtable s' = old_hashtable s"
    "expanding s' = expanding s" "expand_bucket s' = expand_bucket s"
    "slabclass s' = slabclass s" "power_largest s' = power_largest s" "settings s' = settings s" "malloc_supply s' = malloc_supply s"
    "heads s' = heads s" "tails s' = tails s" "lru_sizes s' = lru_sizes s" "sizes_bytes s' = sizes_bytes s"
    using s'(2) by (simp_all add: same_tables_def)
  have nb: "b \<notin> ran m" using b(1) by (auto simp: live_def)
  have h: "heap s' a = heap s a" if "a \<noteq> b" for a using that s'(1) by simp
  have hm: "heap s' a = heap s a" if "a \<in> ran m" for a using that nb h by metis
  have nf: "b \<notin> all_free s F" using held_not_free(1) [OF I(4) b(3,2)] .
  have "assoc_abs hash s' m" by (rule assoc_abs_frame [OF I(1)]) (use t hm in auto)
  moreover have "lru_ok s' Q" by (rule lru_ok_frame [OF I(2)]) (use t hm I(3) in auto)
  moreover have "slab_inv s' F H"
  proof (rule slab_inv_frame [OF I(4)])
    fix a assume "a \<in> all_free s F"
    with nf show "heap s' a = heap s a" using h by metis
  qed (use t in simp_all)
  moreover have "no_overflow s'" using I(5) t by (simp add: no_overflow_def)
  moreover have "item_ok m H (power_largest s') (R(b := n)) a (heap s' a)" if a: "a \<in> live m (R(b := n))" for a
  proof (cases "a = b")
    case True then show ?thesis using x s'(1) t(7) by simp
  next
    case False
    then have "a \<in> live m R" using a by (auto simp: live_def)
    from I(6) [OF this] False h [OF False] t(7) show ?thesis by (simp add: item_ok_def)
  qed
  moreover have "(\<Sum>a \<in> ran m. ITEM_ntotal (heap s' a)) = (\<Sum>a \<in> ran m. ITEM_ntotal (heap s a))"
    by (rule sum.cong) (use hm in auto)
  ultimately show ?thesis using I s' by (simp add: items_inv_def)
qed

section \<open>Properties\<close>

text \<open>
  C12. Fetching refines a lookup in a map with lazy expiration. The fetch of a key always returns. It
  gives NULL exactly when the key is not stored, or is stored with an item that is expired or older
  than the last flush; a dead item is unlinked on the way. Otherwise it gives the stored item, with
  one more reference (two, when the hit is queued for a later move in the LRU), and neither the map
  nor the data of any live item changes. The whole invariant of table, queues, reference counts,
  free lists and counters is kept.
\<close>

theorem item_get_spec:
  assumes "items_inv hash s m Q F H R" "\<forall>a \<in> ran m. R a + 3 < 2 ^ 16"
  shows "case m k of
      None \<Rightarrow> do_item_get k (hash k) th upd s = Some (s, NULL)
    | Some a \<Rightarrow> \<exists>s' Q' F' H' R'. do_item_get k (hash k) th upd s = Some (s', if item_dead (heap s a) s then NULL else a) \<and>
        items_inv hash s' (if item_dead (heap s a) s then m(k := None) else m) Q' F' H' R' \<and>
        (if item_dead (heap s a) s then R' = R else R' = R(a := R a + 1) \<or> R' = R(a := R a + 2)) \<and>
        data_kept (live (if item_dead (heap s a) s then m(k := None) else m) R) s s'"
  by (rule do_item_get_inv [OF assms])

text \<open>An item of class 1 in the hands of a thread, and nothing in the cache.\<close>

definition demo_item :: item where
  "demo_item = item0\<lparr>nkey := 1, ikey := [65], slabs_clsid := 129, refcount := 1, nbytes := 2, idata := [13, 10], it_flags := ITEM_CAS\<rparr>"

definition demo_rebal :: slab_rebalance where
  "demo_rebal = \<lparr>slab_start = NULL, slab_end = NULL, slab_pos = NULL, s_clsid = 0, d_clsid = 0, busy_items = 0, rescues = 0,
     evictions_nomem = 0, inline_reclaim = 0, chunk_rescues = 0, busy_deletes = 0, busy_loops = 0, rb_done = 0, completed = []\<rparr>"

definition demo_items0 :: "'a \<Rightarrow> 'a items_scheme" where
  "demo_items0 z = rebal.extend (slabs.extend
     (demo_large\<lparr>heap := (\<lambda>_. item0)(4096 := demo_item), primary_hashtable := [NULL, NULL]\<rparr>)
       \<lparr>slab_rebalance_signal = 0, slab_rebal = demo_rebal, pick_cur = 0, rebalance_locked = False, slab_reassign_running = False\<rparr>)
     \<lparr>heads = replicate 256 NULL, tails = replicate 256 NULL, itemstats = replicate 256 itemstats0, lru_sizes = replicate 256 0,
      sizes_bytes = replicate 256 0, stats_sizes_hist = None, stats_sizes_cas_min = 0, stats_sizes_buckets = 0, cas_id = 0,
      curr_bytes = 0, curr_items = 0, total_items = 0, get_flushed = 0, get_expired = 0, ext_deleted = [],
      bump_buf = (\<lambda>_. \<lparr>bump_data = \<lparr>size_f = 0, a_start = 0, a_end = 0, b_end = 0, b_inuse = False, data_f = []\<rparr>, dropped = 0\<rparr>),
      bump_q = [], \<dots> = z\<rparr>"

abbreviation demo_H :: "nat \<Rightarrow> addr set" where "demo_H \<equiv> (\<lambda>_. {})(1 := {4096, 4608})"
abbreviation demo_R :: "addr \<Rightarrow> nat" where "demo_R \<equiv> (\<lambda>_. 0)(4096 := 1)"

lemma assoc_empty:
  assumes "hashpower s < 32" "\<not> expanding s" "primary_hashtable s = replicate (2 ^ hashpower s) NULL"
  shows "assoc_abs hash s Map.empty"
proof -
  have "assoc_rep hash s (\<lambda>_. [])" using assms by (auto simp: assoc_rep_def rep_on_def table_wf_def slots_def get_pos_def)
  then show ?thesis by (auto simp: assoc_abs_def abs_map_def tab_items_def items_on_def)
qed

lemma demo_items0_inv: "items_inv demo_hash (demo_items0 z) Map.empty (\<lambda>_. []) (\<lambda>_. []) demo_H demo_R"
proof -
  let ?s = "demo_items0 z"
  have f: "hashpower ?s = 1" "primary_hashtable ?s = [NULL, NULL]" "old_hashtable ?s = []" "\<not> expanding ?s"
    "slabclass ?s = slabclass demo_large" "power_largest ?s = power_largest demo_large" "settings ?s = settings demo_large"
    "malloc_supply ?s = malloc_supply demo_large" "heap ?s = (\<lambda>_. item0)(4096 := demo_item)"
    by (simp_all add: demo_items0_def demo_large_def demo_slabs_def demo_table_def assoc.extend_def slabs.extend_def rebal.extend_def)
  have pl: "power_largest demo_large = 1" by (simp add: demo_large_def demo_slabs_def assoc.extend_def)
  have "assoc_abs demo_hash ?s Map.empty"
    by (rule assoc_empty) (use f in \<open>auto simp: numeral_2_eq_2\<close>)
  moreover have "lru_ok ?s (\<lambda>_. [])"
    by (simp add: lru_ok_def lru_list_def demo_items0_def rebal.extend_def)
  moreover have "slab_inv ?s (\<lambda>_. []) demo_H"
  proof -
    have "pages ?s = pages demo_large" "extent ?s = extent demo_large" "owners ?s = owners demo_large" "chunks ?s = chunks demo_large"
      by (auto simp: fun_eq_iff pages_def extent_def owners_def chunks_def f)
    with demo_large_inv show ?thesis
      by (simp add: slab_inv_def free_ok_def class_ok_def free_list_def page_ok_def f)
  qed
  moreover have "no_overflow ?s"
    by (simp add: no_overflow_def f pl) (simp add: demo_large_def demo_slabs_def assoc.extend_def slabclass0_def)
  moreover have "unat (ITEM_clsid demo_item) = 1" by (simp add: ITEM_clsid_def demo_item_def push_bit_eq_mult)
  then have "item_ok Map.empty demo_H (power_largest ?s) demo_R 4096 (heap ?s 4096)"
    by (simp add: item_ok_def f pl) (simp add: demo_item_def item0_def key_wf_def has_flag_def)
  moreover have "live Map.empty demo_R = {4096}" by (auto simp: live_def split: if_splits)
  moreover have "curr_items ?s = 0" "curr_bytes ?s = 0" by (simp_all add: demo_items0_def rebal.extend_def)
  ultimately show ?thesis by (simp add: items_inv_def queued_def)
qed

definition demo_items :: "'a \<Rightarrow> 'a items_scheme" where
  "demo_items z = do_item_link 4096 (demo_hash [65]) (demo_items0 z)"

lemma demo_items_inv: "items_inv demo_hash (demo_items z) [[65] \<mapsto> 4096] ((\<lambda>_. [])(129 := [4096])) (\<lambda>_. []) demo_H demo_R"
proof -
  have h: "heap (demo_items0 z) 4096 = demo_item" by (simp add: demo_items0_def slabs.extend_def rebal.extend_def)
  have k: "[65] = key_of (heap (demo_items0 z) 4096)" "(129 :: nat) = unat (slabs_clsid (heap (demo_items0 z) 4096))"
    by (simp_all add: h demo_item_def key_of_def)
  show ?thesis unfolding demo_items_def
    using do_item_link_inv(1) [OF demo_items0_inv _ _ _ k(1) _ k(2)] by simp
qed

theorem item_get_spec_witness:
  "\<exists>s'. do_item_get [65] (demo_hash [65]) 0 True (demo_items ()) = Some (s', if item_dead (heap (demo_items ()) 4096) (demo_items ()) then NULL else 4096)"
  using item_get_spec [OF demo_items_inv [where z = "()"], of "[65]" 0 True] by auto

text \<open>
  C13. Replacing an item: the new item takes over the key, the old one is unlinked, and its memory goes
  back to the allocator exactly when no thread holds a reference to it.
\<close>

theorem item_replace_spec:
  assumes inv: "items_inv hash s m Q F H R" and old: "m k = Some a"
    and new: "b \<notin> ran m" "0 < R b" "R b + 1 < 2 ^ 16" "key_of (heap s b) = k"
  shows "\<exists>s' Q' F'. do_item_replace a b (hash k) s = Some s' \<and>
    items_inv hash s' (m(k \<mapsto> b)) Q' F' (if R a = 0 then (let c = unat (ITEM_clsid (heap s a)) in H(c := H c - {a})) else H) R \<and>
    data_kept (live (m(k := None)) R - {b}) s s'"
proof -
  let ?m = "m(k := None)" and ?H = "if R a = 0 then (let c = unat (ITEM_clsid (heap s a)) in H(c := H c - {a})) else H"
  from do_item_unlink_inv [OF inv old] obtain s1 Q1 F1 where u: "do_item_unlink a (hash k) s = Some s1"
    "data_kept (live ?m R) s s1" "items_inv hash s1 ?m Q1 F1 ?H R" by blast
  have bl: "b \<in> live ?m R" "b \<notin> ran ?m" using new(1,2) by (auto simp: live_def ran_def)
  have kb: "k = key_of (heap s1 b)" using u(2) bl(1) new(4) by (auto simp: data_kept_def same_data_def key_of_def)
  note L = do_item_link_inv [OF u(3) bl(2) new(2,3) kb _ refl]
  have "data_kept (live ?m R - {b}) s (do_item_link b (hash k) s1)" by (rule data_kept_trans [OF u(2) L(2)]) auto
  moreover have "do_item_replace a b (hash k) s = Some (do_item_link b (hash k) s1)" using u(1) by (simp add: do_item_replace_def)
  moreover have "items_inv hash (do_item_link b (hash k) s1) (m(k \<mapsto> b)) (Q1(unat (slabs_clsid (heap s1 b)) := b # Q1 (unat (slabs_clsid (heap s1 b))))) F1 ?H R"
    using L(1) by simp
  ultimately show ?thesis by blast
qed

text \<open>A second item for the key, to replace the first.\<close>

definition demo_two :: "'a \<Rightarrow> 'a items_scheme" where
  "demo_two z = upd_item 4608 (\<lambda>_. demo_item) (demo_items z)"

theorem item_replace_spec_witness:
  "\<exists>s' Q' F'. do_item_replace 4096 4608 (demo_hash [65]) (demo_two ()) = Some s' \<and>
    items_inv demo_hash s' [[65] \<mapsto> 4608] Q' F' demo_H (demo_R(4608 := 1))"
proof -
  have r: "ran [[65] \<mapsto> 4096] = {4096 :: addr}" by simp
  have nl: "4608 \<notin> live [[65] \<mapsto> 4096] demo_R" by (simp add: live_def)
  have c: "unat (ITEM_clsid demo_item) = 1" by (simp add: ITEM_clsid_def demo_item_def push_bit_eq_mult)
  have pl: "power_largest (demo_items ()) = 1"
    unfolding demo_items_def do_item_link_tables(2)
    by (simp add: demo_items0_def demo_large_def demo_slabs_def assoc.extend_def slabs.extend_def rebal.extend_def)
  have ok: "item_ok [[65] \<mapsto> 4096] demo_H (power_largest (demo_items ())) (demo_R(4608 := 1)) 4608 demo_item"
    using c by (simp add: item_ok_def pl) (simp add: demo_item_def item0_def key_wf_def has_flag_def)
  have inv: "items_inv demo_hash (demo_two ()) [[65] \<mapsto> 4096] ((\<lambda>_. [])(129 := [4096])) (\<lambda>_. []) demo_H (demo_R(4608 := 1))"
    by (rule adopt_inv [OF demo_items_inv nl _ _ ok, of 1]) (auto simp: pl demo_two_def same_tables_def)
  have kb: "key_of (heap (demo_two ()) 4608) = [65]" by (simp add: demo_two_def demo_item_def key_of_def)
  from item_replace_spec [OF inv, of "[65]" 4096 4608] kb show ?thesis by auto
qed

text \<open>
  C14. Giving up a reference: the count of the item goes down by one, and the memory goes back to the
  allocator exactly when this was the last reference and the item is not linked.
\<close>

theorem item_remove_spec:
  assumes "items_inv hash s m Q F H R" "0 < R a"
  shows "\<exists>s' F'. do_item_remove a s = Some s' \<and> data_kept (live m (R(a := R a - 1))) s s' \<and>
    items_inv hash s' m Q F' (if R a = 1 \<and> a \<notin> ran m then (let c = unat (ITEM_clsid (heap s a)) in H(c := H c - {a})) else H) (R(a := R a - 1))"
  by (rule do_item_remove_inv [OF assms])

theorem item_remove_spec_witness:
  "\<exists>s' F'. do_item_remove 4096 (demo_items0 ()) = Some s' \<and> items_inv demo_hash s' Map.empty (\<lambda>_. []) F' ((\<lambda>_. {})(1 := {4608})) (\<lambda>_. 0)"
proof -
  have h: "heap (demo_items0 ()) 4096 = demo_item" by (simp add: demo_items0_def slabs.extend_def rebal.extend_def)
  have c: "unat (ITEM_clsid demo_item) = 1" by (simp add: ITEM_clsid_def demo_item_def push_bit_eq_mult)
  have e: "demo_R(4096 := demo_R 4096 - 1) = (\<lambda>_. 0)" "demo_H(1 := demo_H 1 - {4096}) = (\<lambda>_. {})(1 := {4608})" "demo_R 4096 = 1"
    by (auto simp: fun_eq_iff)
  have n: "4096 \<notin> ran (Map.empty :: bytes \<rightharpoonup> addr)" "0 < demo_R 4096" by simp_all
  note r = item_remove_spec [OF demo_items0_inv n(2), of "()", unfolded h c Let_def e(1,2)]
  have "demo_R 4096 = 1 \<and> 4096 \<notin> ran (Map.empty :: bytes \<rightharpoonup> addr)" using n(1) e(3) by simp
  with r show ?thesis by (simp only: if_True simp_thms) blast
qed

end
