(* ===== verification/Items_Lru.thy ===== *)
theory Items_Lru
  imports Items_Link
begin

text \<open>
  Memory pressure in \<^verbatim>\<open>items.c\<close>: taking items from the tails of the LRU queues, allocating an item, and
  the work of the LRU maintainer thread. Whether \<^verbatim>\<open>item_trylock\<close> gets the lock of an item depends on the
  other threads; its answers come from a supply in the state, in the order of the calls. \<^verbatim>\<open>hash\<close> is the
  configured hash function on keys.
\<close>

section \<open>State\<close>

record lru = items +
  trylock_supply :: "bool list"

abbreviation (input) LRU_PULL_EVICT :: byte where "LRU_PULL_EVICT \<equiv> 1"
abbreviation (input) LRU_PULL_CRAWL_BLOCKS :: byte where "LRU_PULL_CRAWL_BLOCKS \<equiv> 2"
abbreviation (input) LRU_PULL_RETURN_ITEM :: byte where "LRU_PULL_RETURN_ITEM \<equiv> 4"

definition item_trylock :: "'a lru_scheme \<Rightarrow> 'a lru_scheme \<times> bool" where
  "item_trylock s = (case trylock_supply s of [] \<Rightarrow> (s, False) | b # bs \<Rightarrow> (s\<lparr>trylock_supply := bs\<rparr>, b))"

section \<open>Pulling the tail of a queue\<close>

text \<open>The size limit of a hot or warm queue.\<close>

definition pull_limit :: "byte \<Rightarrow> uint64 \<Rightarrow> 'a lru_scheme \<Rightarrow> uint64" where
  "pull_limit cur_lru total_bytes s =
    (let hot = (if cur_lru = HOT_LRU then total_bytes * word_of_int (hot_lru_pct (settings s)) div 100 else 0)
     in if hot = 0 then total_bytes * word_of_int (warm_lru_pct (settings s)) div 100 else hot)"

definition evict_stats :: "nat \<Rightarrow> item \<Rightarrow> 'a lru_scheme \<Rightarrow> 'a lru_scheme" where
  "evict_stats i x s = upd_stat i (\<lambda>t. t\<lparr>evicted := evicted t + 1, evicted_time := current_time s - it_time x,
     evicted_nonzero := (if exptime x \<noteq> 0 then evicted_nonzero t + 1 else evicted_nonzero t),
     evicted_unfetched := (if \<not> has_flag ITEM_FETCHED x then evicted_unfetched t + 1 else evicted_unfetched t),
     evicted_active := (if has_flag ITEM_ACTIVE x then evicted_active t + 1 else evicted_active t)\<rparr>) s"

definition clear_active :: "addr \<Rightarrow> 'a lru_scheme \<Rightarrow> 'a lru_scheme" where
  "clear_active it = upd_item it (\<lambda>i. i\<lparr>it_flags := it_flags i AND NOT ITEM_ACTIVE\<rparr>)"

text \<open>
  The \<^verbatim>\<open>switch\<close> over the kind of queue. The result holds the item that ends the loop (NULL to go on),
  the queue it moves to (0 for none), what is added to the count of removed items, and the item
  handed back to the caller.
\<close>

type_synonym pull = "addr \<times> byte \<times> int \<times> (addr \<times> uint32) option"

definition pull_switch :: "nat \<Rightarrow> byte \<Rightarrow> uint64 \<Rightarrow> byte \<Rightarrow> uint32 \<Rightarrow> addr \<Rightarrow> uint32 \<Rightarrow> 'a lru_scheme \<Rightarrow> ('a lru_scheme \<times> pull) option" where
  "pull_switch orig_id cur_lru total_bytes flags max_age search hv s =
    (let i = orig_id OR unat cur_lru; x = heap s search in
     if cur_lru = HOT_LRU \<or> cur_lru = WARM_LRU
     then if has_flag ITEM_ACTIVE x
          then if cur_lru = WARM_LRU
               then do {
                 s1 \<leftarrow> do_item_remove search (do_item_link_q search (do_item_unlink_q search
                        (upd_stat i (\<lambda>t. t\<lparr>moves_within_lru := moves_within_lru t + 1\<rparr>) (clear_active search s))));
                 Some (s1, NULL, 0, 1, None)
               }
               else Some (do_item_unlink_q search (upd_stat i (\<lambda>t. t\<lparr>moves_to_warm := moves_to_warm t + 1\<rparr>) (clear_active search s)),
                          search, WARM_LRU, 1, None)
          else if sizes_bytes s ! i > pull_limit cur_lru total_bytes s \<or> current_time s - it_time x > max_age
          then Some (do_item_unlink_q search (upd_stat i (\<lambda>t. t\<lparr>moves_to_cold := moves_to_cold t + 1\<rparr>) s), search, COLD_LRU, 1, None)
          else Some (s, search, 0, 0, None)
     else if cur_lru = COLD_LRU
     then if flags AND LRU_PULL_EVICT \<noteq> 0
          then if evict_to_free (settings s) = 0 then Some (s, search, 0, 0, None)
               else do {
                 s1 \<leftarrow> do_item_unlink_nolock search hv (STORAGE_delete search (evict_stats i x s));
                 Some (if slab_automove (settings s1) = 2 then fst (slabs_reassign (- 1) (int orig_id) s1) else s1, search, 0, 1, None)
               }
          else if flags AND LRU_PULL_RETURN_ITEM \<noteq> 0 then Some (s, search, 0, 0, Some (search, hv))
          else if has_flag ITEM_ACTIVE x \<and> lru_segmented (settings s)
          then Some (do_item_unlink_q search (clear_active search (upd_stat i (\<lambda>t. t\<lparr>moves_to_warm := moves_to_warm t + 1\<rparr>) s)),
                     search, WARM_LRU, 1, None)
          else Some (s, search, 0, 0, None)
     else if cur_lru = TEMP_LRU then Some (s, search, 0, 0, None)
     else Some (s, NULL, 0, 0, None))"

text \<open>A pseudo item of the LRU crawler.\<close>

definition is_crawler :: "item \<Rightarrow> bool" where
  "is_crawler x \<longleftrightarrow> nbytes x = 0 \<and> nkey x = 0 \<and> it_flags x = 1"

definition pull_expired :: "item \<Rightarrow> 'a slabs_scheme \<Rightarrow> bool" where
  "pull_expired x s \<longleftrightarrow> exptime x \<noteq> 0 \<and> exptime x < current_time s \<or> item_is_flushed x s"

definition reclaim_stats :: "nat \<Rightarrow> item \<Rightarrow> 'a lru_scheme \<Rightarrow> 'a lru_scheme" where
  "reclaim_stats i x = upd_stat i (\<lambda>t. t\<lparr>reclaimed := reclaimed t + 1,
     expired_unfetched := (if \<not> has_flag ITEM_FETCHED x then expired_unfetched t + 1 else expired_unfetched t)\<rparr>)"

text \<open>
  The walk from the tail towards the head. \<open>tries\<close> is the number of items still to be looked at; crawler items are
  not counted.
\<close>

partial_function (option) pull_loop :: "(bytes \<Rightarrow> uint32) \<Rightarrow> nat \<Rightarrow> byte \<Rightarrow> uint64 \<Rightarrow> byte \<Rightarrow> uint32 \<Rightarrow>
    nat \<Rightarrow> addr \<Rightarrow> int \<Rightarrow> 'a lru_scheme \<Rightarrow> ('a lru_scheme \<times> pull) option" where
  "pull_loop hash orig_id cur_lru total_bytes flags max_age tries search removed s =
    (if tries = 0 \<or> search = NULL then Some (s, NULL, 0, removed, None)
     else let x = heap s search; next_it = it_prev x; i = orig_id OR unat cur_lru in
     if is_crawler x
     then if flags AND LRU_PULL_CRAWL_BLOCKS \<noteq> 0 then Some (s, NULL, 0, 0, None)
          else pull_loop hash orig_id cur_lru total_bytes flags max_age tries next_it removed s
     else let hv = hash (key_of x); (s1, got) = item_trylock s in
     if \<not> got then pull_loop hash orig_id cur_lru total_bytes flags max_age (tries - 1) next_it removed s1
     else let s2 = refcount_incr search s1;
              reflocked = refcount (heap s2 search) \<noteq> 2;
              s3 = (if reflocked then upd_stat i (\<lambda>t. t\<lparr>lrutail_reflocked := lrutail_reflocked t + 1\<rparr>) s2 else s2)
     in if reflocked \<and> tail_repair_time (settings s3) \<noteq> 0 \<and>
           it_time x + word_of_int (tail_repair_time (settings s3)) < current_time s3
     then do {
       s4 \<leftarrow> do_item_unlink_nolock search hv (STORAGE_delete search (upd_item search (refcount_update (\<lambda>_. 1))
               (upd_stat i (\<lambda>t. t\<lparr>tailrepairs := tailrepairs t + 1\<rparr>) s3)));
       pull_loop hash orig_id cur_lru total_bytes flags max_age (tries - 1) next_it removed s4
     }
     else if pull_expired (heap s3 search) s3
     then do {
       s4 \<leftarrow> do_item_unlink_nolock search hv (reclaim_stats i (heap s3 search) s3);
       s5 \<leftarrow> do_item_remove search (STORAGE_delete search s4);
       pull_loop hash orig_id cur_lru total_bytes flags max_age (tries - 1) next_it (removed + 1) s5
     }
     else do {
       (s4, it, move_to_lru, n, ret_it) \<leftarrow> pull_switch orig_id cur_lru total_bytes flags max_age search hv s3;
       if it \<noteq> NULL then Some (s4, it, move_to_lru, removed + n, ret_it)
       else pull_loop hash orig_id cur_lru total_bytes flags max_age (tries - 1) next_it (removed + n) s4
     })"

declare pull_loop.simps [code]

text \<open>After the walk: the item that ended it is entered in its new queue and given up.\<close>

definition pull_finish :: "byte \<Rightarrow> 'a lru_scheme \<times> pull \<Rightarrow> ('a lru_scheme \<times> int \<times> (addr \<times> uint32) option) option" where
  "pull_finish flags = (\<lambda>(s1, it, move_to_lru, removed, ret_it).
     if it = NULL then Some (s1, removed, ret_it)
     else let s2 = (if move_to_lru \<noteq> 0 then item_link_q it (upd_item it (set_lru move_to_lru) s1) else s1)
     in if flags AND LRU_PULL_RETURN_ITEM = 0
        then do { s3 \<leftarrow> do_item_remove it s2; Some (s3, removed, ret_it) }
        else Some (s2, removed, ret_it))"

definition lru_pull_tail :: "(bytes \<Rightarrow> uint32) \<Rightarrow> nat \<Rightarrow> byte \<Rightarrow> uint64 \<Rightarrow> byte \<Rightarrow> uint32 \<Rightarrow> 'a lru_scheme \<Rightarrow>
    ('a lru_scheme \<times> int \<times> (addr \<times> uint32) option) option" where
  "lru_pull_tail hash orig_id cur_lru total_bytes flags max_age s =
    (if orig_id = 0 then Some (s, 0, None)
     else do {
       res \<leftarrow> pull_loop hash orig_id cur_lru total_bytes flags max_age 5 (tails s ! (orig_id OR unat cur_lru)) 0 s;
       pull_finish flags res
     })"

section \<open>Allocation\<close>

text \<open>The loop of \<^verbatim>\<open>do_item_alloc_pull\<close> with the number of rounds left; the last result is the counter \<^verbatim>\<open>i\<close>.\<close>

fun alloc_pull_loop :: "(bytes \<Rightarrow> uint32) \<Rightarrow> uint64 \<Rightarrow> nat \<Rightarrow> nat \<Rightarrow> 'a lru_scheme \<Rightarrow> ('a lru_scheme \<times> addr \<times> nat) option" where
  "alloc_pull_loop hash ntotal cid 0 s = Some (s, NULL, 10)"
| "alloc_pull_loop hash ntotal cid (Suc n) s = do {
    s1 \<leftarrow> (if \<not> lru_segmented (settings s) then map_option fst (lru_pull_tail hash cid COLD_LRU 0 0 0 s) else Some s);
    (s2, it) \<leftarrow> slabs_alloc ntotal cid 0 s1;
    if it \<noteq> NULL then Some (s2, it, 10 - Suc n)
    else do {
      (s3, r, _) \<leftarrow> lru_pull_tail hash cid COLD_LRU 0 LRU_PULL_EVICT 0 s2;
      if r > 0 then alloc_pull_loop hash ntotal cid n s3
      else if lru_segmented (settings s3)
      then do { (s4, _) \<leftarrow> lru_pull_tail hash cid HOT_LRU 0 0 0 s3; alloc_pull_loop hash ntotal cid n s4 }
      else Some (s3, NULL, 10 - Suc n)
    }
  }"

definition do_item_alloc_pull :: "(bytes \<Rightarrow> uint32) \<Rightarrow> uint64 \<Rightarrow> nat \<Rightarrow> 'a lru_scheme \<Rightarrow> ('a lru_scheme \<times> addr) option" where
  "do_item_alloc_pull hash ntotal cid s = do {
    (s1, it, i) \<leftarrow> alloc_pull_loop hash ntotal cid 10 s;
    Some (if i > 0 then upd_stat cid (\<lambda>t. t\<lparr>direct_reclaims := direct_reclaims t + of_nat i\<rparr>) s1 else s1, it)
  }"

text \<open>Another chunk for a large item; the fields of a chunk lie where an item has the fields named here.\<close>

definition do_item_alloc_chunk :: "(bytes \<Rightarrow> uint32) \<Rightarrow> addr \<Rightarrow> uint64 \<Rightarrow> 'a lru_scheme \<Rightarrow> ('a lru_scheme \<times> addr) option" where
  "do_item_alloc_chunk hash ch bytes_remain s =
    (let max = word_of_int (slab_chunk_size_max (settings s));
         size0 = bytes_remain + 48;
         sz = (if size0 > max then max else size0);
         cid = slabs_clsid_of s sz
     in do {
       (s1, nch) \<leftarrow> do_item_alloc_pull hash sz cid s;
       if nch = NULL then Some (s1, NULL)
       else let s2 = upd_item nch (h_next_update (\<lambda>_. h_next (heap s1 ch))) s1;
                s3 = upd_item ch (it_next_update (\<lambda>_. nch)) s2;
                s4 = upd_item nch (\<lambda>i. i\<lparr>it_prev := ch, it_next := NULL, exptime := 0, slabs_clsid := of_nat cid,
                       it_time := ucast (sz - 48), it_flags := it_flags i OR ITEM_CHUNK\<rparr>) s3
            in Some (s4, nch)
     })"

text \<open>The queue a new item goes to, as a part of \<^verbatim>\<open>slabs_clsid\<close>.\<close>

definition new_lru :: "uint32 \<Rightarrow> 'a slabs_scheme \<Rightarrow> byte" where
  "new_lru et s =
    (if temp_lru (settings s) \<and> et - current_time s \<le> temporary_ttl (settings s) then TEMP_LRU
     else if lru_segmented (settings s) then HOT_LRU else COLD_LRU)"

text \<open>The header of a new item. What the chunk held before stays where nothing is written.\<close>

definition item_header :: "bytes \<Rightarrow> uint32 \<Rightarrow> uint32 \<Rightarrow> int \<Rightarrow> byte \<Rightarrow> nat \<Rightarrow> 'a slabs_scheme \<Rightarrow> item \<Rightarrow> item" where
  "item_header key flags et nb nsuffix cid s x =
    x\<lparr>it_next := NULL, it_prev := NULL, slabs_clsid := of_nat cid OR new_lru et s,
      it_flags := it_flags x OR (if use_cas (settings s) then ITEM_CAS else 0) OR (if nsuffix \<noteq> 0 then ITEM_CFLAGS else 0),
      nkey := of_nat (length key), nbytes := nb, ikey := key, exptime := et,
      cflags := (if nsuffix > 0 then flags else cflags x)\<rparr>"

definition init_schunk :: "addr \<Rightarrow> nat \<Rightarrow> 'a mem_scheme \<Rightarrow> 'a mem_scheme" where
  "init_schunk it hdr_id s =
    upd_item (ITEM_schunk it (heap s it)) (\<lambda>c. c\<lparr>it_next := NULL, it_prev := NULL, exptime := 0, it_time := 0,
      h_next := it, nkey := of_nat hdr_id\<rparr>) s"

definition do_item_alloc :: "(bytes \<Rightarrow> uint32) \<Rightarrow> bytes \<Rightarrow> uint32 \<Rightarrow> uint32 \<Rightarrow> int \<Rightarrow> 'a lru_scheme \<Rightarrow> ('a lru_scheme \<times> addr) option" where
  "do_item_alloc hash key flags et nb s =
    (if nb < 2 then Some (s, NULL)
     else case item_ntotal_of (of_nat (length key)) flags nb s of (ntotal, nsuffix) \<Rightarrow>
     let cid = slabs_clsid_of s ntotal in
     if cid = 0 then Some (s, NULL)
     else let large = ntotal > word_of_int (slab_chunk_size_max (settings s));
              htotal = of_nat (length key) + 1 + ucast nsuffix + 48 + 48 + (if use_cas (settings s) then 8 else 0) :: uint64;
              hdr_id = (if large then slabs_clsid_of s htotal else 0)
     in do {
       (s1, it) \<leftarrow> (if large then do_item_alloc_pull hash htotal hdr_id s else do_item_alloc_pull hash ntotal cid s);
       if it = NULL then Some (upd_stat cid (\<lambda>t. t\<lparr>outofmemory := outofmemory t + 1\<rparr>) s1, NULL)
       else let s2 = (if large then upd_item it (\<lambda>i. i\<lparr>it_flags := it_flags i OR ITEM_CHUNKED\<rparr>) s1 else s1);
                s3 = upd_item it (item_header key flags et nb nsuffix cid s2) s2;
                s4 = (if has_flag ITEM_CHUNKED (heap s3 it) then init_schunk it hdr_id s3 else s3)
            in Some (upd_item it (h_next_update (\<lambda>_. NULL)) s4, it)
     })"

section \<open>The LRU maintainer\<close>

text \<open>
  The list of bump buffers, new ones first. The arguments say whether \<^verbatim>\<open>calloc\<close> succeeds and what memory
  the buffer gets.
\<close>

definition lru_bump_buf_link_q :: "nat \<Rightarrow> 'a items_scheme \<Rightarrow> 'a items_scheme" where
  "lru_bump_buf_link_q b s = s\<lparr>bump_q := b # bump_q s\<rparr>"

definition item_lru_bump_buf_create :: "bool \<Rightarrow> bytes option \<Rightarrow> nat \<Rightarrow> 'a items_scheme \<Rightarrow> 'a items_scheme \<times> bool" where
  "item_lru_bump_buf_create ok mem b s =
    (if \<not> ok then (s, False)
     else case bipbuf_new mem (16 * 8192) of
       None \<Rightarrow> (s, False)
     | Some buf \<Rightarrow> (lru_bump_buf_link_q b (s\<lparr>bump_buf := (bump_buf s)(b := \<lparr>bump_data = buf, dropped = 0\<rparr>)\<rparr>), True))"

text \<open>The pointer in an entry, and the work on the entries of one buffer; \<open>None\<close> when the loop runs past them.\<close>

definition entry_item :: "bytes \<Rightarrow> addr" where
  "entry_item be = (\<Sum>i \<leftarrow> [0..<8]. unat (be ! i) * 256 ^ i)"

function bump_entries :: "bytes \<Rightarrow> 'a items_scheme \<Rightarrow> 'a items_scheme option" where
  "bump_entries be s =
    (if be = [] then Some s
     else if length be < 16 then None
     else do {
       s1 \<leftarrow> do_item_remove (entry_item be) (do_item_update (entry_item be) s);
       bump_entries (drop 16 be) s1
     })"
  by pat_completeness auto

termination
  by (relation "measure (length \<circ> fst)") auto

declare bump_entries.simps [simp del]

definition bump_one :: "nat \<Rightarrow> 'a items_scheme \<Rightarrow> ('a items_scheme \<times> bool) option" where
  "bump_one b s =
    (case bipbuf_peek_all (bump_data (bump_buf s b)) of
       None \<Rightarrow> Some (s, False)
     | Some (off, sz) \<Rightarrow> do {
         s1 \<leftarrow> bump_entries (take (unat sz) (drop off (data_f (bump_data (bump_buf s b))))) s;
         Some (s1\<lparr>bump_buf := (bump_buf s1)(b := (bump_buf s1 b)\<lparr>bump_data := fst (bipbuf_poll (bump_data (bump_buf s1 b)) sz)\<rparr>)\<rparr>, True)
       })"

fun bumps_loop :: "nat list \<Rightarrow> bool \<Rightarrow> 'a items_scheme \<Rightarrow> ('a items_scheme \<times> bool) option" where
  "bumps_loop [] bumped s = Some (s, bumped)"
| "bumps_loop (b # bs) bumped s = do { (s1, any) \<leftarrow> bump_one b s; bumps_loop bs (bumped \<or> any) s1 }"

definition lru_maintainer_bumps :: "'a items_scheme \<Rightarrow> ('a items_scheme \<times> bool) option" where
  "lru_maintainer_bumps s = bumps_loop (bump_q s) False s"

definition lru_total_bumps_dropped :: "'a items_scheme \<Rightarrow> uint64" where
  "lru_total_bumps_dropped s = (\<Sum>b \<leftarrow> bump_q s. dropped (bump_buf s b))"

text \<open>
  Moving items between the queues of one class, at most 500 rounds. The two products with a
  \<^verbatim>\<open>double\<close> factor are the parameters \<open>hot_f\<close> and \<open>warm_f\<close>.
\<close>

fun juggle_temp :: "(bytes \<Rightarrow> uint32) \<Rightarrow> nat \<Rightarrow> nat \<Rightarrow> int \<Rightarrow> 'a lru_scheme \<Rightarrow> ('a lru_scheme \<times> int) option" where
  "juggle_temp hash cid 0 moves s = Some (s, moves)"
| "juggle_temp hash cid (Suc n) moves s = do {
    (s1, r, _) \<leftarrow> lru_pull_tail hash cid TEMP_LRU 0 0 0 s;
    if r \<le> 0 then Some (s1, moves) else juggle_temp hash cid n (moves + 1) s1
  }"

fun juggle_loop :: "(bytes \<Rightarrow> uint32) \<Rightarrow> nat \<Rightarrow> uint64 \<Rightarrow> uint32 \<Rightarrow> uint32 \<Rightarrow> nat \<Rightarrow> int \<Rightarrow> 'a lru_scheme \<Rightarrow> ('a lru_scheme \<times> int) option" where
  "juggle_loop hash cid tot hot_age warm_age 0 moves s = Some (s, moves)"
| "juggle_loop hash cid tot hot_age warm_age (Suc n) moves s = do {
    (s1, r1, _) \<leftarrow> lru_pull_tail hash cid HOT_LRU tot LRU_PULL_CRAWL_BLOCKS hot_age s;
    (s2, r2) \<leftarrow> (if r1 \<noteq> 0 then Some (s1, r1) else do {
      (s2, r2, _) \<leftarrow> lru_pull_tail hash cid WARM_LRU tot LRU_PULL_CRAWL_BLOCKS warm_age s1; Some (s2, r2) });
    (s3, r3) \<leftarrow> (if lru_segmented (settings s2) then do {
      (s3, r3, _) \<leftarrow> lru_pull_tail hash cid COLD_LRU tot LRU_PULL_CRAWL_BLOCKS 0 s2; Some (s3, r3) } else Some (s2, 0));
    if (if r2 \<noteq> 0 then 1 else 0) + r3 = 0 then Some (s3, moves)
    else juggle_loop hash cid tot hot_age warm_age n (moves + 1) s3
  }"

definition lru_maintainer_juggle :: "(bytes \<Rightarrow> uint32) \<Rightarrow> (uint32 \<Rightarrow> uint32) \<Rightarrow> (uint32 \<Rightarrow> uint32) \<Rightarrow> nat \<Rightarrow> 'a lru_scheme \<Rightarrow> ('a lru_scheme \<times> int) option" where
  "lru_maintainer_juggle hash hot_f warm_f cid s = do {
    (s1, moves) \<leftarrow> (if temp_lru (settings s) then juggle_temp hash cid 500 0 s else Some (s, 0));
    let cold = cid OR unat COLD_LRU; seg = lru_segmented (settings s1);
        cold_age = (if seg \<and> tails s1 ! cold \<noteq> NULL then current_time s1 - it_time (heap s1 (tails s1 ! cold)) else 0);
        tot = (if seg then sizes_bytes s1 ! cold + sizes_bytes s1 ! (cid OR unat HOT_LRU) + sizes_bytes s1 ! (cid OR unat WARM_LRU) else 0);
        hot_age = (if seg then hot_f cold_age else 0); warm_age = (if seg then warm_f cold_age else 0)
    in juggle_loop hash cid tot hot_age warm_age 500 moves s1
  }"

text \<open>What the page mover's policy reads of the queues.\<close>

record item_stats_automove =
  am_evicted :: uint64
  am_outofmemory :: uint64
  am_age :: uint32

definition fill_item_stats_automove :: "'a items_scheme \<Rightarrow> item_stats_automove list" where
  "fill_item_stats_automove s =
    map (\<lambda>n. let hot = n OR unat HOT_LRU; cold = n OR unat COLD_LRU
             in \<lparr>am_evicted = evicted (itemstats s ! cold), am_outofmemory = outofmemory (itemstats s ! hot),
                 am_age = (if tails s ! cold \<noteq> NULL then current_time s - it_time (heap s (tails s ! cold)) else 0)\<rparr>)
      [0..<MAX_NUMBER_OF_SLAB_CLASSES]"

section \<open>The place of a crawler in a queue\<close>

definition do_item_linktail_q :: "addr \<Rightarrow> 'a items_scheme \<Rightarrow> 'a items_scheme" where
  "do_item_linktail_q it s =
    (let i = unat (slabs_clsid (heap s it)); h = heads s ! i; t = tails s ! i;
         s1 = upd_item it (\<lambda>x. x\<lparr>it_prev := t, it_next := NULL\<rparr>) s;
         s2 = (if t \<noteq> NULL then upd_item t (it_next_update (\<lambda>_. it)) s1 else s1)
     in s2\<lparr>tails := (tails s2)[i := it], heads := (if h = NULL then (heads s2)[i := it] else heads s2)\<rparr>)"

definition do_item_unlinktail_q :: "addr \<Rightarrow> 'a items_scheme \<Rightarrow> 'a items_scheme" where
  "do_item_unlinktail_q it s =
    (let i = unat (slabs_clsid (heap s it)); nx = it_next (heap s it); pv = it_prev (heap s it);
         s1 = (if heads s ! i = it then s\<lparr>heads := (heads s)[i := nx]\<rparr> else s);
         s2 = (if tails s ! i = it then s1\<lparr>tails := (tails s)[i := pv]\<rparr> else s1);
         s3 = (if nx \<noteq> NULL then upd_item nx (it_prev_update (\<lambda>_. pv)) s2 else s2)
     in if pv \<noteq> NULL then upd_item pv (it_next_update (\<lambda>_. nx)) s3 else s3)"

definition do_item_crawl_q :: "addr \<Rightarrow> 'a items_scheme \<Rightarrow> 'a items_scheme \<times> addr" where
  "do_item_crawl_q it s =
    (let i = unat (slabs_clsid (heap s it)); nx = it_next (heap s it); pv = it_prev (heap s it) in
     if pv = NULL
     then (if nx \<noteq> NULL then upd_item nx (it_prev_update (\<lambda>_. NULL)) (s\<lparr>heads := (heads s)[i := nx]\<rparr>) else s, NULL)
     else let s1 = (if heads s ! i = pv then s\<lparr>heads := (heads s)[i := it]\<rparr> else s);
              s2 = (if tails s1 ! i = it then s1\<lparr>tails := (tails s1)[i := pv]\<rparr> else s1);
              s3 = (if nx \<noteq> NULL then upd_item nx (it_prev_update (\<lambda>_. pv)) (upd_item pv (it_next_update (\<lambda>_. nx)) s2)
                    else upd_item pv (it_next_update (\<lambda>_. NULL)) s2);
              s4 = upd_item it (it_next_update (\<lambda>_. pv)) s3;
              pp = it_prev (heap s4 pv);
              s5 = upd_item it (it_prev_update (\<lambda>_. pp)) s4;
              s6 = upd_item pv (it_prev_update (\<lambda>_. it)) s5;
              s7 = (if pp \<noteq> NULL then upd_item pp (it_next_update (\<lambda>_. it)) s6 else s6)
          in (s7, it_next (heap s7 it)))"

section \<open>What an operation on one item leaves alone in the others\<close>

text \<open>Besides the data: the time of the last access and the CAS value, on which a flush depends.\<close>

definition same_life :: "item \<Rightarrow> item \<Rightarrow> bool" where
  "same_life x y \<longleftrightarrow> it_time x = it_time y \<and> has_flag ITEM_CAS x = has_flag ITEM_CAS y"

lemma same_life_refl [simp]: "same_life x x"
  by (simp add: same_life_def)

lemma same_life_trans: "same_life x y \<Longrightarrow> same_life y z \<Longrightarrow> same_life x z"
  by (simp add: same_life_def)

lemma queue_life:
  "same_life (heap (do_item_link_q a s) b) (heap s b)" "same_life (heap (do_item_unlink_q a s) b) (heap s b)"
  by (simp_all add: do_item_link_q_def do_item_unlink_q_def Let_def same_life_def has_flag_def)

lemma push_life: "same_life (heap (freelist_push c a s) b) (heap s b)"
  by (simp add: freelist_push_heap Let_def same_life_def has_flag_def)

lemma delete_life: "assoc_delete k hv s = Some s' \<Longrightarrow> same_life (heap s' b) (heap s b)"
  by (auto simp: assoc_delete_def set_pos_def Let_def same_life_def has_flag_def split: option.splits if_splits hpos.splits)

lemma remove_life:
  assumes "do_item_remove a s = Some s'" "\<not> has_flag ITEM_CHUNKED (heap s a)" "b \<noteq> a \<or> refcount (heap s a) \<noteq> 1"
  shows "same_life (heap s' b) (heap s b)"
proof -
  have d: "same_life (heap (refcount_decr a s) b) (heap s b)" by (simp add: refcount_decr_def same_life_def has_flag_def)
  show ?thesis
  proof (cases "refcount (heap s a) = 1")
    case False
    then have "s' = refcount_decr a s" using assms(1) by (auto simp: do_item_remove_def Let_def refcount_decr_def split: if_splits)
    with d show ?thesis by simp
  next
    case True
    then have "b \<noteq> a" using assms(3) by simp
    have "s' = refcount_decr a s \<or> (\<exists>c f. s' = freelist_push c a (upd_item a f (refcount_decr a s)))"
      using assms(1,2) by (auto simp: do_item_remove_def Let_def item_free_def do_slabs_free_def refcount_decr_def has_flag_def split: if_splits)
    then show ?thesis
    proof
      assume "\<exists>c f. s' = freelist_push c a (upd_item a f (refcount_decr a s))"
      then obtain c f where "s' = freelist_push c a (upd_item a f (refcount_decr a s))" by blast
      then have "same_life (heap s' b) (heap (upd_item a f (refcount_decr a s)) b)" by (simp only: push_life)
      moreover have "heap (upd_item a f (refcount_decr a s)) b = heap (refcount_decr a s) b" using \<open>b \<noteq> a\<close> by simp
      ultimately show ?thesis using d same_life_trans by metis
    qed (use d in simp)
  qed
qed

lemma unlink_life:
  assumes "do_item_unlink a hv s = Some s'" "\<not> has_flag ITEM_CHUNKED (heap s a)" "b \<noteq> a"
  shows "same_life (heap s' b) (heap s b)"
proof (cases "has_flag ITEM_LINKED (heap s a)")
  case False
  then show ?thesis using assms(1) by (simp add: do_item_unlink_def)
next
  case True
  from do_item_unlink_eq [OF this] obtain h where "do_item_unlink a hv s = Option.bind (assoc_delete (key_of (heap s a)) hv ((unlink_start a s)\<lparr>stats_sizes_hist := h\<rparr>))
    (\<lambda>s4. do_item_remove a (do_item_unlink_q a s4))" by blast
  with assms(1) obtain s4 where s4: "assoc_delete (key_of (heap s a)) hv ((unlink_start a s)\<lparr>stats_sizes_hist := h\<rparr>) = Some s4"
    "do_item_remove a (do_item_unlink_q a s4) = Some s'" by (auto split: bind_splits)
  have fl: "has_flag ITEM_CHUNKED (heap (do_item_unlink_q a s4) a) = has_flag ITEM_CHUNKED (heap s4 a)" for s4 :: "'a items_scheme"
    by (simp add: do_item_unlink_q_def Let_def has_flag_def)
  have "has_flag ITEM_CHUNKED (heap s4 a) = has_flag ITEM_CHUNKED (heap (unlink_start a s) a)"
    using s4(1) by (auto simp: assoc_delete_def set_pos_def Let_def has_flag_def split: option.splits if_splits hpos.splits)
  then have nc: "\<not> has_flag ITEM_CHUNKED (heap (do_item_unlink_q a s4) a)"
    using assms(2) fl by (simp add: unlink_start_def has_flag_def and.assoc)
  have "same_life (heap s' b) (heap (do_item_unlink_q a s4) b)" by (rule remove_life [OF s4(2) nc]) (use assms(3) in simp)
  moreover have "same_life (heap s4 b) (heap s b)" using delete_life [OF s4(1), of b] assms(3) by (simp add: unlink_start_def)
  ultimately show ?thesis using queue_life(2) same_life_trans by blast
qed

definition life_kept :: "addr set \<Rightarrow> 'a items_scheme \<Rightarrow> 'a items_scheme \<Rightarrow> bool" where
  "life_kept A s s' \<longleftrightarrow> data_kept A s s' \<and> (\<forall>b \<in> A. same_life (heap s' b) (heap s b))"

lemma life_kept_refl [simp]: "life_kept A s s"
  by (simp add: life_kept_def)

lemma life_kept_trans:
  assumes "life_kept A s s'" "life_kept B s' s''" "C \<subseteq> A" "C \<subseteq> B"
  shows "life_kept C s s''"
proof -
  have "data_kept A s s'" "data_kept B s' s''" using assms(1,2) by (simp_all add: life_kept_def)
  then have "data_kept C s s''" by (rule data_kept_trans [OF _ _ assms(3,4)])
  moreover have "same_life (heap s'' b) (heap s b)" if "b \<in> C" for b
    by (rule same_life_trans [where y = "heap s' b"]) (use that assms in \<open>auto simp: life_kept_def\<close>)
  ultimately show ?thesis by (simp add: life_kept_def)
qed

lemma life_kept_mono: "life_kept A s s' \<Longrightarrow> C \<subseteq> A \<Longrightarrow> life_kept C s s'"
  by (auto simp: life_kept_def data_kept_def)

lemma life_expired:
  assumes "life_kept A s s'" "b \<in> A"
  shows "pull_expired (heap s' b) s' = pull_expired (heap s b) s"
  using assms by (auto simp: life_kept_def data_kept_def same_data_def same_life_def pull_expired_def item_is_flushed_def ITEM_get_cas_def Let_def)

lemma upd_stat_life: "life_kept A s s' \<Longrightarrow> life_kept A s (upd_stat i f s')"
  unfolding life_kept_def by (auto intro: upd_stat_kept) (simp add: upd_stat_def)

section \<open>Pulling a tail keeps the invariant\<close>

lemma reassign_fields:
  "slabs_reassign src dst s = (s', r) \<Longrightarrow> heap s' = heap s \<and> same_tables s s' \<and> curr_items s' = curr_items s \<and> curr_bytes s' = curr_bytes s \<and>
    current_time s' = current_time s \<and> settings s' = settings s \<and> power_largest s' = power_largest s"
  by (auto simp: slabs_reassign_def do_slabs_reassign_def slabs_reassign_pick_any_def upd_rebal_def same_tables_def Let_def
      split: if_splits prod.splits)

lemma same_tables_heap:
  assumes inv: "items_inv hash s m Q F H R"
    and e: "heap s' = heap s \<and> same_tables s s' \<and> curr_items s' = curr_items s \<and> curr_bytes s' = curr_bytes s \<and> current_time s' = current_time s \<and>
      settings s' = settings s \<and> power_largest s' = power_largest s"
  shows "items_inv hash s' m Q F H R" "life_kept A s s'"
  using e items_invD(6) [OF inv] by (auto intro: items_inv_tweak [OF inv] simp: item_ok_def life_kept_def data_kept_def)

lemma drop_ref:
  assumes inv: "items_inv hash s m Q F H (R(a := R a + 1))" and a: "a \<in> ran m"
  shows "\<exists>s'. do_item_remove a s = Some s' \<and> (\<exists>F'. items_inv hash s' m Q F' H R) \<and> life_kept (live m R) s s'"
proof -
  let ?R = "R(a := R a + 1)"
  have e: "?R(a := ?R a - 1) = R" by simp
  have ra: "0 < ?R a" "a \<in> live m ?R" using a by (auto simp: live_def)
  from do_item_remove_inv [OF inv ra(1)] a obtain s' F' where r: "do_item_remove a s = Some s'" "data_kept (live m R) s s'" "items_inv hash s' m Q F' H R"
    unfolding e by auto
  have ok: "item_ok m H (power_largest s) ?R a (heap s a)" by (rule items_invD(6) [OF inv ra(2)])
  then have nc: "\<not> has_flag ITEM_CHUNKED (heap s a)" by (simp add: item_ok_def)
  have "unat (refcount (heap s a)) \<noteq> 1" using ok a by (simp add: item_ok_def)
  then have r1: "refcount (heap s a) \<noteq> 1" by auto
  have "same_life (heap s' b) (heap s b)" for b by (rule remove_life [OF r(1) nc]) (use r1 in simp)
  with r show ?thesis by (auto simp: life_kept_def)
qed

text \<open>The same for an item that has been unlinked: its memory may go back to the allocator.\<close>

lemma drop_unlinked:
  assumes inv: "items_inv hash s m Q F H (R(a := R a + 1))" and a: "a \<notin> ran m"
  shows "\<exists>s'. do_item_remove a s = Some s' \<and> (\<exists>F' H'. items_inv hash s' m Q F' H' R) \<and> life_kept (live m R) s s'"
proof -
  let ?R = "R(a := R a + 1)"
  have e: "?R(a := ?R a - 1) = R" by simp
  have ra: "0 < ?R a" "a \<in> live m ?R" by (auto simp: live_def)
  from do_item_remove_inv [OF inv ra(1)] obtain s' F' H' where r: "do_item_remove a s = Some s'" "data_kept (live m R) s s'" "items_inv hash s' m Q F' H' R"
    unfolding e by blast
  have ok: "item_ok m H (power_largest s) ?R a (heap s a)" by (rule items_invD(6) [OF inv ra(2)])
  then have nc: "\<not> has_flag ITEM_CHUNKED (heap s a)" by (simp add: item_ok_def)
  have "b \<noteq> a \<or> refcount (heap s a) \<noteq> 1" if "b \<in> live m R" for b
  proof (rule disjCI)
    assume "\<not> refcount (heap s a) \<noteq> 1"
    then have "R a = 0" using ok a by (auto simp: item_ok_def)
    with that a show "b \<noteq> a" by (auto simp: live_def)
  qed
  then have "same_life (heap s' b) (heap s b)" if "b \<in> live m R" for b using remove_life [OF r(1) nc] that by blast
  with r show ?thesis by (auto simp: life_kept_def)
qed

lemma clear_active_inv:
  assumes inv: "items_inv hash s m Q F H R" and a: "a \<in> live m R"
  shows "items_inv hash (clear_active a s) m Q F H R" "life_kept A s (clear_active a s)"
proof -
  show "items_inv hash (clear_active a s) m Q F H R" unfolding clear_active_def
    by (rule mark_inv [OF inv a]) (simp add: same_core_def and.assoc)
  have "data_kept A s (clear_active a s)" unfolding clear_active_def by (rule mark_kept) (simp add: same_data_def)
  moreover have "same_life (heap (clear_active a s) b) (heap s b)" for b
    by (simp add: clear_active_def same_life_def has_flag_def and.assoc)
  ultimately show "life_kept A s (clear_active a s)" by (simp add: life_kept_def)
qed

text \<open>The item leaves its queue, gets the number of a queue (the old one or a new one) and is entered at its head.\<close>

lemma move_inv:
  assumes inv: "items_inv hash s m Q F H R" and a: "a \<in> ran m" and g: "g = set_lru WARM_LRU \<or> g = set_lru COLD_LRU \<or> g = (\<lambda>x. x)"
  shows "\<exists>Q'. items_inv hash (do_item_link_q a (upd_item a g (do_item_unlink_q a s))) m Q' F H R"
    "life_kept A s (do_item_link_q a (upd_item a g (do_item_unlink_q a s)))"
proof -
  have w: "h_next (g x) = h_next x \<and> nkey (g x) = nkey x \<and> ikey (g x) = ikey x \<and> nbytes (g x) = nbytes x \<and>
      refcount (g x) = refcount x \<and> it_flags (g x) AND 487 = it_flags x AND 487 \<and> ITEM_clsid (g x) = ITEM_clsid x" for x
    using g clsid_set_lru [of WARM_LRU x] clsid_set_lru [of COLD_LRU x] by (auto simp: set_lru_def)
  have wd: "same_data (g x) x" "same_life (g x) x" for x using g by (auto simp: same_data_def same_life_def set_lru_def has_flag_def)
  show "\<exists>Q'. items_inv hash (do_item_link_q a (upd_item a g (do_item_unlink_q a s))) m Q' F H R" by (rule requeue_inv(1) [OF inv a w])
  let ?s1 = "do_item_unlink_q a s" and ?s = "do_item_link_q a (upd_item a g (do_item_unlink_q a s))"
  have "same_life (heap ?s b) (heap s b)" for b
  proof -
    have "same_life (heap (upd_item a g ?s1) b) (heap ?s1 b)" using wd(2) by simp
    with queue_life same_life_trans show ?thesis by metis
  qed
  with requeue_kept [OF inv a w wd(1)] show "life_kept A s ?s" by (simp add: life_kept_def)
qed

text \<open>What an operation keeps: the data of the live items, and the age of the linked ones.\<close>

definition kept :: "(bytes \<rightharpoonup> addr) \<Rightarrow> (addr \<Rightarrow> nat) \<Rightarrow> 'a items_scheme \<Rightarrow> 'a items_scheme \<Rightarrow> bool" where
  "kept m R s s' \<longleftrightarrow> data_kept (live m R) s s' \<and> life_kept (ran m) s s'"

lemma kept_life: "life_kept (live m R) s s' \<Longrightarrow> kept m R s s'"
  unfolding kept_def using life_kept_mono [of "live m R" s s' "ran m"] by (auto simp: live_def life_kept_def)

lemma kept_refl [simp]: "kept m R s s"
  by (simp add: kept_def)

lemma kept_trans:
  assumes "kept m R s s'" "kept m' R' s' s''" "ran m' \<subseteq> ran m" "live m' R' \<subseteq> live m R"
  shows "kept m' R' s s''"
proof -
  have "data_kept (live m' R') s s''" by (rule data_kept_trans [of "live m R" _ s' "live m' R'"]) (use assms in \<open>auto simp: kept_def\<close>)
  moreover have "life_kept (ran m') s s''" by (rule life_kept_trans [of "ran m" _ s' "ran m'"]) (use assms in \<open>auto simp: kept_def\<close>)
  ultimately show ?thesis by (simp add: kept_def)
qed

lemma finish_move:
  assumes inv: "items_inv hash s m Q F H (R(a := R a + 1))" and a: "a \<in> ran m" and mv: "mv = WARM_LRU \<or> mv = COLD_LRU"
    and fl: "flags AND LRU_PULL_RETURN_ITEM = 0"
  shows "\<exists>s' Q' F'. (\<forall>n. pull_finish flags (do_item_unlink_q a s, a, mv, n, None) = Some (s', n, None)) \<and>
    items_inv hash s' m Q' F' H R \<and> kept m R s s'"
proof -
  let ?s1 = "do_item_link_q a (upd_item a (set_lru mv) (do_item_unlink_q a s))"
  have g: "set_lru mv = set_lru WARM_LRU \<or> set_lru mv = set_lru COLD_LRU \<or> set_lru mv = (\<lambda>x. x)" using mv by auto
  note M = move_inv [OF inv a g]
  from M(1) obtain Q' where q: "items_inv hash ?s1 m Q' F H (R(a := R a + 1))" by blast
  from drop_ref [OF q a] obtain s' F' where r: "do_item_remove a ?s1 = Some s'" "items_inv hash s' m Q' F' H R" "life_kept (live m R) ?s1 s'" by blast
  have nz: "a \<noteq> NULL" "mv \<noteq> 0" using live_held(2) [OF inv, of a] a mv by (auto simp: live_def)
  have "pull_finish flags (do_item_unlink_q a s, a, mv, n, None) = Some (s', n, None)" for n
    using nz fl r(1) by (simp add: pull_finish_def Let_def del: upd_item_def)
  moreover have "kept m R s s'" by (rule kept_life [OF life_kept_trans [OF M(2) r(3)]]) auto
  ultimately show ?thesis using r(2) by blast
qed

lemma finish_stay:
  assumes inv: "items_inv hash s m Q F H (R(a := R a + 1))" and a: "a \<in> ran m" and fl: "flags AND LRU_PULL_RETURN_ITEM = 0"
  shows "\<exists>s' F'. (\<forall>n. pull_finish flags (s, a, 0, n, None) = Some (s', n, None)) \<and> items_inv hash s' m Q F' H R \<and> kept m R s s'"
proof -
  have nz: "a \<noteq> NULL" using live_held(2) [OF inv, of a] a by (auto simp: live_def)
  from drop_ref [OF inv a] obtain s' F' where r: "do_item_remove a s = Some s'" "items_inv hash s' m Q F' H R" "life_kept (live m R) s s'" by blast
  have "pull_finish flags (s, a, 0, n, None) = Some (s', n, None)" for n using nz fl r(1) by (simp add: pull_finish_def)
  with r(2) kept_life [OF r(3)] show ?thesis by blast
qed

text \<open>Unlinking an item on which the walk holds a reference, and giving the reference up.\<close>

lemma unlink_kept:
  assumes inv: "items_inv hash s m Q F H (R(a := R a + 1))" and k: "m k = Some a"
  shows "\<exists>s' Q' F'. do_item_unlink a (hash k) s = Some s' \<and> items_inv hash s' (m(k := None)) Q' F' H (R(a := R a + 1)) \<and> kept (m(k := None)) R s s'"
proof -
  let ?R = "R(a := R a + 1)" and ?m = "m(k := None)"
  have ar: "a \<in> ran m" using k by (auto simp: ran_def)
  then have al: "a \<in> live m ?R" by (simp add: live_def)
  have nc: "\<not> has_flag ITEM_CHUNKED (heap s a)" using items_invD(6) [OF inv al] by (simp add: item_ok_def)
  from do_item_unlink_inv [OF inv k] obtain s' Q' F' where u: "do_item_unlink a (hash k) s = Some s'" "data_kept (live ?m ?R) s s'"
    "items_inv hash s' ?m Q' F' H ?R" by auto
  have sub: "live ?m R \<subseteq> live ?m ?R" by (auto simp: live_def)
  have "same_life (heap s' b) (heap s b)" if "b \<in> ran ?m" for b
    by (rule unlink_life [OF u(1) nc]) (use that assoc_ran_delete [OF items_invD(1) [OF inv] k] in auto)
  then have "kept ?m R s s'" using u(2) sub by (auto simp: kept_def data_kept_def life_kept_def live_def)
  with u(1,3) show ?thesis by blast
qed

lemma evict_inv:
  assumes inv: "items_inv hash s m Q F H (R(a := R a + 1))" and k: "m k = Some a"
    and e: "\<And>t. items_inv hash t m Q F H (R(a := R a + 1)) \<Longrightarrow> items_inv hash (f t) m Q F H (R(a := R a + 1))" "kept m R s (f s)"
    and g: "\<And>t m Q F. items_inv hash t m Q F H (R(a := R a + 1)) \<Longrightarrow> items_inv hash (g t) m Q F H (R(a := R a + 1))" "\<And>t m. kept m R t (g t)"
  shows "\<exists>s1 s2. do_item_unlink a (hash k) (f s) = Some s1 \<and> do_item_remove a (g s1) = Some s2 \<and>
    (\<exists>Q' F' H'. items_inv hash s2 (m(k := None)) Q' F' H' R) \<and> kept (m(k := None)) R s s2"
proof -
  let ?m = "m(k := None)"
  from unlink_kept [OF e(1) [OF inv] k] obtain s1 Q1 F1 where u: "do_item_unlink a (hash k) (f s) = Some s1"
    "items_inv hash s1 ?m Q1 F1 H (R(a := R a + 1))" "kept ?m R (f s) s1" by blast
  have an: "a \<notin> ran ?m" using assoc_ran_delete [OF items_invD(1) [OF inv] k] by simp
  from drop_unlinked [OF g(1) [OF u(2)] an] obtain s2 F2 H2 where r: "do_item_remove a (g s1) = Some s2" "items_inv hash s2 ?m Q1 F2 H2 R"
    "life_kept (live ?m R) (g s1) s2" by blast
  have sub: "ran ?m \<subseteq> ran m" "live ?m R \<subseteq> live m R" by (auto simp: ran_def live_def split: if_splits)
  have "kept ?m R s s1" by (rule kept_trans [OF e(2) u(3) sub])
  then have "kept ?m R s (g s1)" by (rule kept_trans [OF _ g(2)]) auto
  then have "kept ?m R s s2" by (rule kept_trans [OF _ kept_life [OF r(3)]]) auto
  with u(1) r(1,2) show ?thesis by blast
qed

definition ret_refs :: "(addr \<times> uint32) option \<Rightarrow> (addr \<Rightarrow> nat) \<Rightarrow> addr \<Rightarrow> nat" where
  "ret_refs ret R = (case ret of None \<Rightarrow> R | Some (a, _) \<Rightarrow> R(a := R a + 1))"

lemma ret_refs_None [simp]: "ret_refs None R = R"
  by (simp add: ret_refs_def)

text \<open>How a visit of the item \<open>a\<close> ends: the walk goes on without it, or is over, with the item evicted or not.\<close>

definition switch_ok :: "(bytes \<Rightarrow> uint32) \<Rightarrow> (bytes \<rightharpoonup> addr) \<Rightarrow> (addr \<Rightarrow> nat) \<Rightarrow> bytes \<Rightarrow> addr \<Rightarrow> byte \<Rightarrow> byte \<Rightarrow> 'a lru_scheme \<Rightarrow> 'a lru_scheme \<times> pull \<Rightarrow> bool" where
  "switch_ok hash m R k a c flags s = (\<lambda>(s4, it, mv, n, ret).
    if it = NULL then (\<exists>Q' F' H'. items_inv hash s4 m Q' F' H' R) \<and> kept m R s s4
    else \<exists>s' m'. (\<forall>r. pull_finish flags (s4, it, mv, r, ret) = Some (s', r, ret)) \<and>
      (\<exists>Q' F' H'. items_inv hash s' m' Q' F' H' (ret_refs ret R)) \<and> kept m' R s s' \<and> (ret = None \<or> ret = Some (a, hash k) \<and> m' = m \<and> flags AND LRU_PULL_RETURN_ITEM \<noteq> 0) \<and>
      (m' = m \<or> c = COLD_LRU \<and> flags AND LRU_PULL_EVICT \<noteq> 0 \<and> m' = m(k := None)))"

lemma switch_okI:
  "\<lbrakk>it \<noteq> NULL; \<And>r. pull_finish flags (s4, it, mv, r, ret) = Some (s', r, ret); items_inv hash s' m' Q' F' H' (ret_refs ret R); kept m' R s s';
    ret = None \<or> ret = Some (a, hash k) \<and> m' = m \<and> flags AND LRU_PULL_RETURN_ITEM \<noteq> 0; m' = m \<or> c = COLD_LRU \<and> flags AND LRU_PULL_EVICT \<noteq> 0 \<and> m' = m(k := None)\<rbrakk>
   \<Longrightarrow> switch_ok hash m R k a c flags s (s4, it, mv, n, ret)"
  unfolding switch_ok_def by auto


lemma walk_item:
  assumes inv: "items_inv hash s m Q F H (R(a := R a + 1))" and k: "m k = Some a"
  shows "a \<in> ran m" "a \<in> live m (R(a := R a + 1))" "a \<noteq> NULL"
proof -
  show r: "a \<in> ran m" using k by (auto simp: ran_def)
  then show l: "a \<in> live m (R(a := R a + 1))" by (simp add: live_def)
  show "a \<noteq> NULL" by (rule live_held(2) [OF inv l])
qed

lemma counted_inv:
  assumes inv: "items_inv hash s m Q F H (R(a := R a + 1))" and k: "m k = Some a"
  shows "items_inv hash (upd_stat i f s) m Q F H (R(a := R a + 1))" "kept m R s (upd_stat i f s)"
  "items_inv hash (upd_stat i f (clear_active a s)) m Q F H (R(a := R a + 1))" "kept m R s (upd_stat i f (clear_active a s))"
  "items_inv hash (clear_active a (upd_stat i f s)) m Q F H (R(a := R a + 1))" "kept m R s (clear_active a (upd_stat i f s))"
proof -
  show u: "items_inv hash (upd_stat i f s) m Q F H (R(a := R a + 1))" using inv by (simp add: upd_stat_inv)
  show ku: "kept m R s (upd_stat i f s)" by (rule kept_life [OF upd_stat_life]) simp
  note ca = clear_active_inv [OF inv walk_item(2) [OF inv k]]
  show "items_inv hash (upd_stat i f (clear_active a s)) m Q F H (R(a := R a + 1))" using ca(1) by (simp add: upd_stat_inv)
  show "kept m R s (upd_stat i f (clear_active a s))" by (rule kept_life [OF upd_stat_life [OF ca(2)]])
  note cb = clear_active_inv [OF u walk_item(2) [OF inv k]]
  show "items_inv hash (clear_active a (upd_stat i f s)) m Q F H (R(a := R a + 1))" by (rule cb(1))
  show "kept m R s (clear_active a (upd_stat i f s))" by (rule kept_trans [OF ku kept_life [OF cb(2)]]) auto
qed

lemma switch_move:
  assumes inv: "items_inv hash s m Q F H (R(a := R a + 1))" and k: "m k = Some a"
    and t: "items_inv hash t m Q F H (R(a := R a + 1))" "kept m R s t" and mv: "mv = WARM_LRU \<or> mv = COLD_LRU" and fl: "flags AND LRU_PULL_RETURN_ITEM = 0"
  shows "switch_ok hash m R k a c flags s (do_item_unlink_q a t, a, mv, n, None)"
proof -
  from finish_move [OF t(1) walk_item(1) [OF inv k] mv fl] obtain s' Q' F' where r: "\<And>n. pull_finish flags (do_item_unlink_q a t, a, mv, n, None) = Some (s', n, None)"
    "items_inv hash s' m Q' F' H R" "kept m R t s'" by blast
  have "kept m R s s'" by (rule kept_trans [OF t(2) r(3)]) auto
  with r show ?thesis by (intro switch_okI [OF walk_item(3) [OF inv k]]) auto
qed

lemma switch_stay:
  assumes inv: "items_inv hash s m Q F H (R(a := R a + 1))" and k: "m k = Some a"
    and fl: "flags AND LRU_PULL_RETURN_ITEM = 0"
  shows "switch_ok hash m R k a c flags s (s, a, 0, n, None)"
proof -
  from finish_stay [OF inv walk_item(1) [OF inv k] fl] obtain s' F' where "\<And>n. pull_finish flags (s, a, 0, n, None) = Some (s', n, None)"
    "items_inv hash s' m Q F' H R" "kept m R s s'" by blast
  then show ?thesis by (intro switch_okI [OF walk_item(3) [OF inv k]]) auto
qed

lemma switch_return:
  assumes inv: "items_inv hash s m Q F H (R(a := R a + 1))" and k: "m k = Some a"
    and fl: "flags AND LRU_PULL_RETURN_ITEM \<noteq> 0"
  shows "switch_ok hash m R k a c flags s (s, a, 0, n, Some (a, hash k))"
  by (intro switch_okI [OF walk_item(3) [OF inv k]]) (use fl inv walk_item(3) [OF inv k] in \<open>auto simp: pull_finish_def ret_refs_def\<close>)

lemma switch_within:
  assumes inv: "items_inv hash s m Q F H (R(a := R a + 1))" and k: "m k = Some a"
  shows "\<exists>t. do_item_remove a (do_item_link_q a (do_item_unlink_q a (upd_stat i f (clear_active a s)))) = Some t \<and>
    switch_ok hash m R k a c flags s (t, NULL, 0, n, None)"
proof -
  note M = move_inv [OF counted_inv(3) [OF inv k] walk_item(1) [OF inv k], of "\<lambda>x. x", simplified]
  from M(1) obtain Q' where q: "items_inv hash (do_item_link_q a (do_item_unlink_q a (upd_stat i f (clear_active a s)))) m Q' F H (R(a := R a + 1))" by auto
  from drop_ref [OF q walk_item(1) [OF inv k]] obtain t F' where r: "do_item_remove a (do_item_link_q a (do_item_unlink_q a (upd_stat i f (clear_active a s)))) = Some t"
    "items_inv hash t m Q' F' H R" "life_kept (live m R) (do_item_link_q a (do_item_unlink_q a (upd_stat i f (clear_active a s)))) t" by blast
  have "life_kept (live m R) (upd_stat i f (clear_active a s)) t" by (rule life_kept_trans [OF M(2) r(3)]) auto
  then have "kept m R s t" by (intro kept_trans [OF counted_inv(4) [OF inv k] kept_life]) auto
  with r(1,2) show ?thesis by (auto simp: switch_ok_def)
qed

lemma switch_evict:
  assumes inv: "items_inv hash s m Q F H (R(a := R a + 1))" and k: "m k = Some a"
    and fl: "c = COLD_LRU" "flags AND LRU_PULL_EVICT \<noteq> 0" "flags AND LRU_PULL_RETURN_ITEM = 0"
  shows "\<exists>t. do_item_unlink a (hash k) (STORAGE_delete a (evict_stats i x s)) = Some t \<and>
    switch_ok hash m R k a c flags s (if slab_automove (settings t) = 2 then fst (slabs_reassign (- 1) dst t) else t, a, 0, n, None)"
proof -
  define f where "f = (\<lambda>s :: 'a lru_scheme. STORAGE_delete a (evict_stats i x s))"
  define g where "g = (\<lambda>t :: 'a lru_scheme. if slab_automove (settings t) = 2 then fst (slabs_reassign (- 1) dst t) else t)"
  have ff: "heap (g t) = heap t \<and> same_tables t (g t) \<and> curr_items (g t) = curr_items t \<and> curr_bytes (g t) = curr_bytes t \<and> current_time (g t) = current_time t \<and>
      settings (g t) = settings t \<and> power_largest (g t) = power_largest t" for t
    using reassign_fields [of "- 1" dst t] by (cases "slabs_reassign (- 1) dst t") (auto simp: g_def same_tables_def)
  have gi: "items_inv hash (g t) m' Q' F' H (R(a := R a + 1))" if "items_inv hash t m' Q' F' H (R(a := R a + 1))" for t m' Q' F'
    by (rule same_tables_heap(1) [OF that ff])
  have gk: "kept m' R t (g t)" for t m' using ff [of t] by (simp add: kept_def life_kept_def data_kept_def)
  have fi: "items_inv hash (f t) m Q F H (R(a := R a + 1))" if "items_inv hash t m Q F H (R(a := R a + 1))" for t
    using that by (simp add: f_def evict_stats_def STORAGE_delete_inv(1) upd_stat_inv)
  have "life_kept UNIV (evict_stats i x s) (f s)" by (simp add: life_kept_def f_def STORAGE_delete_inv(2,3))
  moreover have "life_kept UNIV s (evict_stats i x s)" unfolding evict_stats_def by (rule upd_stat_life) simp
  ultimately have "life_kept UNIV s (f s)" using life_kept_trans by blast
  then have fk: "kept m R s (f s)" by (intro kept_life) (rule life_kept_mono, auto)
  from evict_inv [where f = f and g = g, OF inv k fi fk gi gk] obtain s1 s2 Q' F' H' where r: "do_item_unlink a (hash k) (f s) = Some s1" "do_item_remove a (g s1) = Some s2"
    "items_inv hash s2 (m(k := None)) Q' F' H' R" "kept (m(k := None)) R s s2" by blast
  have "switch_ok hash m R k a c flags s (g s1, a, 0, n, None)"
    by (rule switch_okI [OF walk_item(3) [OF inv k] _ _ r(4)]) (use r fl walk_item(3) [OF inv k] in \<open>auto simp: pull_finish_def\<close>)
  with r(1) show ?thesis by (auto simp: f_def g_def)
qed

lemma pull_switch_inv:
  assumes inv: "items_inv hash s m Q F H (R(a := R a + 1))" and k: "m k = Some a"
    and c: "c \<in> {HOT_LRU, WARM_LRU, COLD_LRU, TEMP_LRU}" and fl: "flags AND LRU_PULL_RETURN_ITEM = 0 \<or> c = COLD_LRU \<and> flags AND LRU_PULL_EVICT = 0"
  shows "\<exists>res. pull_switch orig_id c tb flags age a (hash k) s = Some res \<and> switch_ok hash m R k a c flags s res"
proof -
  note C = counted_inv [OF inv k] and mv = switch_move [OF inv k]
  consider "c = WARM_LRU" | "c = HOT_LRU" | "c = COLD_LRU" | "c = TEMP_LRU" using c by blast
  then show ?thesis
  proof cases
    case 1
    then have r: "flags AND LRU_PULL_RETURN_ITEM = 0" using fl by auto
    show ?thesis
    proof (cases "has_flag ITEM_ACTIVE (heap s a)")
      case True
      obtain t where t: "do_item_remove a (do_item_link_q a (do_item_unlink_q a (upd_stat (orig_id OR unat WARM_LRU)
          (\<lambda>t. t\<lparr>moves_within_lru := moves_within_lru t + 1\<rparr>) (clear_active a s)))) = Some t"
        "switch_ok hash m R k a c flags s (t, NULL, 0, 1, None)" using switch_within [OF inv k] by blast
      then show ?thesis using 1 True by (simp add: pull_switch_def)
    next
      case False
      with 1 show ?thesis
        by (simp add: pull_switch_def Let_def) (intro conjI impI switch_stay [OF inv k r] mv [OF C(1,2)] r disjI2 refl)
    qed
  next
    case 2
    then have r: "flags AND LRU_PULL_RETURN_ITEM = 0" using fl by auto
    from 2 show ?thesis
      by (simp add: pull_switch_def Let_def)
        (intro conjI impI switch_stay [OF inv k r] mv [OF C(3,4)] mv [OF C(1,2)] r disjI1 [OF refl] disjI2 [OF refl])
  next
    case 3
    show ?thesis
    proof (cases "flags AND LRU_PULL_EVICT = 0")
      case False
      then have r: "flags AND LRU_PULL_RETURN_ITEM = 0" using fl by auto
      obtain t where t: "do_item_unlink a (hash k) (STORAGE_delete a (evict_stats (orig_id OR unat COLD_LRU) (heap s a) s)) = Some t"
        "switch_ok hash m R k a c flags s (if slab_automove (settings t) = 2 then fst (slabs_reassign (- 1) (int orig_id) t) else t, a, 0, 1, None)"
        using switch_evict [OF inv k 3 False r] by blast
      then show ?thesis using 3 False switch_stay [OF inv k r] by (simp add: pull_switch_def Let_def do_item_unlink_nolock_eq)
    next
      case True
      show ?thesis
      proof (cases "flags AND LRU_PULL_RETURN_ITEM = 0")
        case r: True
        from 3 True r show ?thesis
          by (simp add: pull_switch_def Let_def) (intro conjI impI switch_stay [OF inv k r] mv [OF C(5,6)] r disjI1 [OF refl])
      next
        case False
        with 3 True switch_return [OF inv k False] show ?thesis by (simp add: pull_switch_def Let_def)
      qed
    qed
  next
    case 4
    then have r: "flags AND LRU_PULL_RETURN_ITEM = 0" using fl by auto
    with 4 switch_stay [OF inv k r] show ?thesis by (simp add: pull_switch_def Let_def)
  qed
qed

lemma prev_item:
  assumes inv: "items_inv hash s m Q F H R" and a: "a \<in> ran m"
  shows "it_prev (heap s a) \<noteq> a" "it_prev (heap s a) = NULL \<or> it_prev (heap s a) \<in> ran m"
proof -
  note I = items_invD [OF inv]
  obtain i xs ys where Q: "i < LARGEST_ID" "Q i = xs @ a # ys" using item_queue [OF inv a] by blast
  have "lru_list s i (xs @ a # ys)" using I(2) Q by (auto simp: lru_ok_def)
  then have dl: "dll (it_next \<circ> heap s) (it_prev \<circ> heap s) (heads s ! i) (xs @ a # ys) (tails s ! i)" by (simp add: lru_list_def)
  note sp = dll_split [OF dl, unfolded o_def] and di = dll_distinct [OF dl]
  have q: "b \<in> ran m" if "b \<in> set xs" for b using that queuedI [of b Q i] Q I(3) by auto
  have "it_prev (heap s a) = NULL \<or> it_prev (heap s a) \<in> set xs" using sp(1-3) by (auto split: if_splits)
  then show "it_prev (heap s a) \<noteq> a" "it_prev (heap s a) = NULL \<or> it_prev (heap s a) \<in> ran m"
    using di q live_held(2) [OF inv, of a] a by (auto simp: live_def)
qed

text \<open>
  What a pull may lose: expired or flushed items, and, when it was told to evict from a cold queue, one
  item more.
\<close>

definition pull_lost :: "byte \<Rightarrow> byte \<Rightarrow> 'a lru_scheme \<Rightarrow> (bytes \<rightharpoonup> addr) \<Rightarrow> (bytes \<rightharpoonup> addr) \<Rightarrow> bool" where
  "pull_lost c flags s m m' \<longleftrightarrow> m' \<subseteq>\<^sub>m m \<and>
    (\<exists>E. (E = {} \<or> c = COLD_LRU \<and> flags AND LRU_PULL_EVICT \<noteq> 0 \<and> (\<exists>k. E = {k})) \<and>
      (\<forall>k a. m k = Some a \<and> m' k = None \<longrightarrow> k \<in> E \<or> pull_expired (heap s a) s))"

lemma pull_lost_refl [simp]: "pull_lost c flags s m m"
  unfolding pull_lost_def by (intro conjI exI [of _ "{}"] allI impI) (simp_all, metis option.distinct(1))

lemma pull_lost_evict: "\<lbrakk>c = COLD_LRU; flags AND LRU_PULL_EVICT \<noteq> 0\<rbrakk> \<Longrightarrow> pull_lost c flags s m (m(k := None))"
  unfolding pull_lost_def by (auto simp: map_le_def intro!: exI [of _ "{k}"] split: if_splits)

lemma pull_lost_trans:
  assumes lk: "life_kept (ran m1) s s1" and m1: "m1 \<subseteq>\<^sub>m m" "\<And>k a. m k = Some a \<Longrightarrow> m1 k = None \<Longrightarrow> pull_expired (heap s a) s"
    and l: "pull_lost c flags s1 m1 m'"
  shows "pull_lost c flags s m m'"
proof -
  from l obtain E where E: "E = {} \<or> c = COLD_LRU \<and> flags AND LRU_PULL_EVICT \<noteq> 0 \<and> (\<exists>k. E = {k})"
    "\<And>k a. m1 k = Some a \<Longrightarrow> m' k = None \<Longrightarrow> k \<in> E \<or> pull_expired (heap s1 a) s1" and le: "m' \<subseteq>\<^sub>m m1"
    by (auto simp: pull_lost_def)
  have "k \<in> E \<or> pull_expired (heap s a) s" if k: "m k = Some a" "m' k = None" for k a
  proof (cases "m1 k")
    case None then show ?thesis using m1(2) k(1) by blast
  next
    case (Some b)
    then have "b = a" using m1(1) k(1) by (force simp: map_le_def)
    have "a \<in> ran m1" using Some \<open>b = a\<close> by (auto simp: ran_def)
    from life_expired [OF lk this] E(2) [OF Some k(2)] \<open>b = a\<close> show ?thesis by simp
  qed
  with E(1) map_le_trans [OF le m1(1)] show ?thesis by (auto simp: pull_lost_def)
qed

lemma trylock_inv:
  assumes inv: "items_inv hash s m Q F H R" and t: "item_trylock s = (s', got)"
  shows "items_inv hash s' m Q F H R" "life_kept A s s'" "heap s' = heap s" "settings s' = settings s" "current_time s' = current_time s"
proof -
  have e: "heap s' = heap s \<and> same_tables s s' \<and> curr_items s' = curr_items s \<and> curr_bytes s' = curr_bytes s \<and> current_time s' = current_time s \<and>
      settings s' = settings s \<and> power_largest s' = power_largest s"
    using t by (auto simp: item_trylock_def same_tables_def split: list.splits)
  then show "heap s' = heap s" "settings s' = settings s" "current_time s' = current_time s" by auto
  show "items_inv hash s' m Q F H R" "life_kept A s s'" by (rule same_tables_heap [OF inv e])+
qed

text \<open>The hypotheses of a walk: no tail repair, no crawler in the queues, and room in the reference counts.\<close>

definition pull_pre :: "'a lru_scheme \<Rightarrow> (bytes \<rightharpoonup> addr) \<Rightarrow> (addr \<Rightarrow> nat) \<Rightarrow> bool" where
  "pull_pre s m R \<longleftrightarrow> tail_repair_time (settings s) = 0 \<and> (\<forall>a \<in> ran m. nkey (heap s a) \<noteq> 0 \<and> R a + 2 < 2 ^ 16)"

lemma pull_pre_kept: "\<lbrakk>pull_pre s m R; kept m' R s s'; ran m' \<subseteq> ran m\<rbrakk> \<Longrightarrow> pull_pre s' m' R"
  by (auto simp: pull_pre_def kept_def data_kept_def same_data_def live_def)

lemma pull_loop_inv:
  fixes s :: "'a lru_scheme"
  assumes "items_inv hash s m Q F H R" "search = NULL \<or> search \<in> ran m" "pull_pre s m R"
    and c: "c \<in> {HOT_LRU, WARM_LRU, COLD_LRU, TEMP_LRU}" and fl: "flags AND LRU_PULL_RETURN_ITEM = 0 \<or> c = COLD_LRU \<and> flags AND LRU_PULL_EVICT = 0"
  shows "\<exists>res s' n ret m' Q' F' H'. pull_loop hash orig_id c tb flags age tries search removed s = Some res \<and>
    pull_finish flags res = Some (s', n, ret) \<and> items_inv hash s' m' Q' F' H' (ret_refs ret R) \<and> kept m' R s s' \<and>
    pull_lost c flags s m m' \<and> (ret = None \<or> flags AND LRU_PULL_RETURN_ITEM \<noteq> 0 \<and> (\<exists>k a. ret = Some (a, hash k) \<and> m' k = Some a))"
  using assms(1-3)
proof (induction tries arbitrary: s m Q F H search removed)
  case 0
  have "pull_finish flags (s, NULL, 0, removed, None) = Some (s, removed, None)" by (simp add: pull_finish_def)
  with 0(1) show ?case by (subst pull_loop.simps) (simp, metis kept_refl pull_lost_refl ret_refs_None)
next
  case (Suc tries)
  note inv = Suc.prems(1)
  show ?case
  proof (cases "search = NULL")
    case True
    have "pull_finish flags (s, NULL, 0, removed, None) = Some (s, removed, None)" by (simp add: pull_finish_def)
    with inv True show ?thesis by (subst pull_loop.simps) (simp, metis kept_refl pull_lost_refl ret_refs_None)
  next
    case nn: False
    then have ar: "search \<in> ran m" using Suc.prems(2) by simp
    then obtain k where k: "m k = Some search" by (auto simp: ran_def)
    have al: "search \<in> live m R" using ar by (simp add: live_def)
    have kk: "key_of (heap s search) = k" by (rule assoc_key [OF items_invD(1) [OF inv] k])
    have pre: "tail_repair_time (settings s) = 0" "nkey (heap s search) \<noteq> 0" "R search + 2 < 2 ^ 16"
      using Suc.prems(3) ar by (auto simp: pull_pre_def)
    have nc: "\<not> is_crawler (heap s search)" using pre by (simp add: is_crawler_def)
    let ?nx = "it_prev (heap s search)" and ?m1 = "m(k := None)"
    note nx = prev_item [OF inv ar]
    have rm1: "ran ?m1 = ran m - {search}" by (rule assoc_ran_delete [OF items_invD(1) [OF inv] k])
    obtain s1 got where t: "item_trylock s = (s1, got)" by fastforce
    note T = trylock_inv [OF inv t]
        have go: ?thesis if e: "pull_loop hash orig_id c tb flags age (Suc tries) search removed s =
        pull_loop hash orig_id c tb flags age tries ?nx removed2 s2"
      and i2: "items_inv hash s2 m2 Q2 F2 H2 R" and k2: "kept m2 R s s2" and m2: "m2 = m \<or> m2 = ?m1 \<and> pull_expired (heap s search) s"
      for removed2 s2 m2 Q2 F2 H2
    proof -
      have "ran ?m1 \<subseteq> ran m" "?m1 \<subseteq>\<^sub>m m" "?nx = NULL \<or> ?nx \<in> ran ?m1" using rm1 nx by (auto simp: map_le_def)
      with m2 nx(2) have sub: "ran m2 \<subseteq> ran m" "m2 \<subseteq>\<^sub>m m" and nx2: "?nx = NULL \<or> ?nx \<in> ran m2" by (metis map_le_refl order_refl)+
      have lost: "pull_expired (heap s a) s" if "m k' = Some a" "m2 k' = None" for k' a using m2 that k by (auto split: if_splits)
      from Suc.IH [OF i2 nx2 pull_pre_kept [OF Suc.prems(3) k2 sub(1)], of removed2] obtain res s' n ret m' Q' F' H' where r:
        "pull_loop hash orig_id c tb flags age tries ?nx removed2 s2 = Some res" "pull_finish flags res = Some (s', n, ret)"
        "items_inv hash s' m' Q' F' H' (ret_refs ret R)" "kept m' R s2 s'" "pull_lost c flags s2 m2 m'"
        "ret = None \<or> flags AND LRU_PULL_RETURN_ITEM \<noteq> 0 \<and> (\<exists>k a. ret = Some (a, hash k) \<and> m' k = Some a)" by blast
      have le: "m' \<subseteq>\<^sub>m m2" using r(5) by (simp add: pull_lost_def)
      have ran': "ran m' \<subseteq> ran m2"
      proof
        fix a assume "a \<in> ran m'"
        then obtain k where "m' k = Some a" by (auto simp: ran_def)
        with le show "a \<in> ran m2" by (force simp: map_le_def ran_def)
      qed
      have "kept m' R s s'" by (rule kept_trans [OF k2 r(4) ran']) (use ran' in \<open>auto simp: live_def\<close>)
      moreover have "pull_lost c flags s m m'"
        by (rule pull_lost_trans [OF _ sub(2) _ r(5)]) (use k2 lost in \<open>auto simp: kept_def\<close>)
      ultimately show ?thesis using e r(1-3,6) by (intro exI conjI) simp_all
    qed
    show ?thesis
    proof (cases got)
      case False
      have "pull_loop hash orig_id c tb flags age (Suc tries) search removed s = pull_loop hash orig_id c tb flags age tries ?nx removed s1"
        using nn nc t False by (subst pull_loop.simps, unfold diff_Suc_1) (simp add: Let_def)
      then show ?thesis by (rule go [OF _ T(1) kept_life [OF T(2)]]) simp
    next
      case True
      let ?s2 = "refcount_incr search s1"
      let ?s3 = "if refcount (heap ?s2 search) \<noteq> 2 then upd_stat (orig_id OR unat c) (\<lambda>t. t\<lparr>lrutail_reflocked := lrutail_reflocked t + 1\<rparr>) ?s2 else ?s2"
      define s3 where "s3 = ?s3"
      note i2 = refcount_incr_inv [OF T(1) al pre(3)]
      have i3: "items_inv hash s3 m Q F H (R(search := R search + 1))" using i2(1) by (simp add: s3_def upd_stat_inv)
      have "same_life (heap ?s2 b) (heap s1 b)" for b by (simp add: refcount_incr_def same_life_def has_flag_def)
      then have "life_kept UNIV s1 ?s2" using i2(2) by (simp add: life_kept_def)
      then have l2: "life_kept UNIV s ?s2" by (rule life_kept_trans [OF T(2)]) auto
      then have l3: "life_kept UNIV s s3" by (auto simp: s3_def intro: upd_stat_life)
      then have k3: "kept m R s s3" by (intro kept_life) (rule life_kept_mono, auto)
      have ex: "pull_expired (heap s3 search) s3 = pull_expired (heap s search) s" by (rule life_expired [OF l3]) simp
      have st: "tail_repair_time (settings s3) = 0" using l3 pre(1) by (simp add: life_kept_def data_kept_def)
      have eq: "pull_loop hash orig_id c tb flags age (Suc tries) search removed s =
        (if pull_expired (heap s search) s then do {
            s4 \<leftarrow> do_item_unlink search (hash k) (reclaim_stats (orig_id OR unat c) (heap s3 search) s3);
            s5 \<leftarrow> do_item_remove search (STORAGE_delete search s4);
            pull_loop hash orig_id c tb flags age tries ?nx (removed + 1) s5
          } else do {
            (s4, it, move_to_lru, n, ret_it) \<leftarrow> pull_switch orig_id c tb flags age search (hash k) s3;
            if it \<noteq> NULL then Some (s4, it, move_to_lru, removed + n, ret_it)
            else pull_loop hash orig_id c tb flags age tries ?nx (removed + n) s4 })"
        using nn nc t True st unfolding ex [symmetric] s3_def
        by (subst pull_loop.simps, unfold diff_Suc_1) (simp add: Let_def kk do_item_unlink_nolock_eq)
      show ?thesis
      proof (cases "pull_expired (heap s search) s")
        case True
        define f where "f = (reclaim_stats (orig_id OR unat c) (heap s3 search) :: 'a lru_scheme \<Rightarrow> 'a lru_scheme)"
        define g where "g = (STORAGE_delete search :: 'a lru_scheme \<Rightarrow> 'a lru_scheme)"
        have fi: "items_inv hash (f t) m Q F H (R(search := R search + 1))" if "items_inv hash t m Q F H (R(search := R search + 1))" for t :: "'a lru_scheme"
          using that by (simp add: f_def reclaim_stats_def upd_stat_inv)
        have fk: "kept m R s3 (f s3)" unfolding f_def reclaim_stats_def by (rule kept_life [OF upd_stat_life]) simp
        have gi: "items_inv hash (g t) m' Q' F' H (R(search := R search + 1))" if "items_inv hash t m' Q' F' H (R(search := R search + 1))" for t m' Q' F'
          using that by (simp add: g_def STORAGE_delete_inv(1))
        have gk: "kept m' R t (g t)" for t m' by (rule kept_life) (simp add: life_kept_def g_def STORAGE_delete_inv(2,3))
        from evict_inv [where f = f and g = g, OF i3 k fi fk gi gk] obtain s4 s5 Q' F' H' where r: "do_item_unlink search (hash k) (f s3) = Some s4"
          "do_item_remove search (g s4) = Some s5" "items_inv hash s5 ?m1 Q' F' H' R" "kept ?m1 R s3 s5" by blast
        have k5: "kept ?m1 R s s5" by (rule kept_trans [OF k3 r(4)]) (use rm1 in \<open>auto simp: live_def\<close>)
        show ?thesis by (rule go [OF _ r(3) k5]) (use eq True r(1,2) in \<open>simp_all add: f_def g_def\<close>)
      next
        case False
        from pull_switch_inv [OF i3 k c fl] obtain s4 it mv n ret where w:
          "pull_switch orig_id c tb flags age search (hash k) s3 = Some (s4, it, mv, n, ret)"
          "switch_ok hash m R k search c flags s3 (s4, it, mv, n, ret)" by (metis prod_cases5)
        show ?thesis
        proof (cases "it = NULL")
          case True
          with w(2) obtain Q4 F4 H4 where i4: "items_inv hash s4 m Q4 F4 H4 R" "kept m R s3 s4" by (auto simp: switch_ok_def)
          have k4: "kept m R s s4" by (rule kept_trans [OF k3 i4(2)]) auto
          show ?thesis by (rule go [OF _ i4(1) k4]) (use eq False w(1) True in auto)
        next
          case it: False
          with w(2) obtain s' m' Q' F' H' where f: "\<And>r. pull_finish flags (s4, it, mv, r, ret) = Some (s', r, ret)"
            "items_inv hash s' m' Q' F' H' (ret_refs ret R)" "kept m' R s3 s'" "ret = None \<or> ret = Some (search, hash k) \<and> m' = m \<and> flags AND LRU_PULL_RETURN_ITEM \<noteq> 0"
            "m' = m \<or> c = COLD_LRU \<and> flags AND LRU_PULL_EVICT \<noteq> 0 \<and> m' = ?m1" by (auto simp: switch_ok_def)
          have "kept m' R s s'" by (rule kept_trans [OF k3 f(3)]) (use f(5) rm1 in \<open>auto simp: live_def\<close>)
          moreover have "pull_lost c flags s m m'" using f(5) pull_lost_evict by auto
          moreover have "pull_loop hash orig_id c tb flags age (Suc tries) search removed s = Some (s4, it, mv, removed + n, ret)"
            using eq False w(1) it by simp
          moreover have "ret = None \<or> flags AND LRU_PULL_RETURN_ITEM \<noteq> 0 \<and> (\<exists>k a. ret = Some (a, hash k) \<and> m' k = Some a)" using f(4) k by auto
          ultimately show ?thesis using f(1,2) by (intro exI conjI) auto
        qed
      qed
    qed
  qed
qed

lemma or_less_256: "\<lbrakk>x < 64; c \<in> {HOT_LRU, WARM_LRU, COLD_LRU, TEMP_LRU}\<rbrakk> \<Longrightarrow> x OR unat c < LARGEST_ID" for x :: nat
proof -
  assume a: "x < 64" "c \<in> {HOT_LRU, WARM_LRU, COLD_LRU, TEMP_LRU}"
  have "int (x OR unat c) < 2 ^ 8" unfolding of_nat_or_eq using a by (intro OR_upper) auto
  then show ?thesis by simp
qed

lemma tail_item:
  assumes inv: "items_inv hash s m Q F H R" and i: "i < LARGEST_ID"
  shows "tails s ! i = NULL \<or> tails s ! i \<in> ran m"
proof -
  have "lru_list s i (Q i)" using items_invD(2) [OF inv] i by (simp add: lru_ok_def)
  then have dl: "dll (it_next \<circ> heap s) (it_prev \<circ> heap s) (heads s ! i) (Q i) (tails s ! i)" by (simp add: lru_list_def)
  have "tails s ! i = NULL \<or> tails s ! i \<in> set (Q i)" using dseg_last [OF dl] by auto
  then show ?thesis using queuedI [of _ Q i] i items_invD(3) [OF inv] by auto
qed

lemma lru_pull_tail_inv:
  assumes inv: "items_inv hash s m Q F H R" and pre: "pull_pre s m R" and id: "orig_id < 64"
    and c: "c \<in> {HOT_LRU, WARM_LRU, COLD_LRU, TEMP_LRU}" and fl: "flags AND LRU_PULL_RETURN_ITEM = 0 \<or> c = COLD_LRU \<and> flags AND LRU_PULL_EVICT = 0"
  shows "\<exists>s' n ret m' Q' F' H'. lru_pull_tail hash orig_id c tb flags age s = Some (s', n, ret) \<and> items_inv hash s' m' Q' F' H' (ret_refs ret R) \<and>
    kept m' R s s' \<and> pull_lost c flags s m m' \<and> (ret = None \<or> flags AND LRU_PULL_RETURN_ITEM \<noteq> 0 \<and> (\<exists>k a. ret = Some (a, hash k) \<and> m' k = Some a))"
proof (cases "orig_id = 0")
  case True
  with inv show ?thesis by (simp add: lru_pull_tail_def) (metis kept_refl pull_lost_refl ret_refs_None)
next
  case False
  let ?t = "tails s ! (orig_id OR unat c)"
  from pull_loop_inv [OF inv tail_item [OF inv or_less_256 [OF id c]] pre c fl, of orig_id tb age 5 0] obtain res s' n ret m' Q' F' H' where
    "pull_loop hash orig_id c tb flags age 5 ?t 0 s = Some res" "pull_finish flags res = Some (s', n, ret)"
    "items_inv hash s' m' Q' F' H' (ret_refs ret R)" "kept m' R s s'" "pull_lost c flags s m m'"
    "ret = None \<or> flags AND LRU_PULL_RETURN_ITEM \<noteq> 0 \<and> (\<exists>k a. ret = Some (a, hash k) \<and> m' k = Some a)" by blast
  moreover from this(1,2) have "lru_pull_tail hash orig_id c tb flags age s = Some (s', n, ret)" using False by (simp add: lru_pull_tail_def)
  ultimately show ?thesis by blast
qed

section \<open>What an operation leaves of the slab classes\<close>

text \<open>No free list that holds a chunk runs empty.\<close>

definition slots_kept :: "'a slabs_scheme \<Rightarrow> 'a slabs_scheme \<Rightarrow> bool" where
  "slots_kept s s' \<longleftrightarrow> (\<forall>d. sc_slots (cls s d) \<noteq> NULL \<longrightarrow> sc_slots (cls s' d) \<noteq> NULL)"

lemma slots_kept_trans: "slots_kept s s' \<Longrightarrow> slots_kept s' s'' \<Longrightarrow> slots_kept s s''"
  by (simp add: slots_kept_def)

lemma slots_kept_same: "slabclass s' = slabclass s \<Longrightarrow> slots_kept s s'"
  by (simp add: slots_kept_def)

lemma slots_kept_push: "a \<noteq> NULL \<Longrightarrow> slots_kept s (freelist_push c a s)"
proof -
  assume a: "a \<noteq> NULL"
  have "sc_slots ((l[c := x\<lparr>sc_slots := a, sl_curr := n\<rparr>]) ! d) \<noteq> NULL" if "sc_slots (l ! d) \<noteq> NULL" for l x n d
    using that a by (cases "c < length l"; cases "c = d") (simp_all add: list_update_beyond)
  then show ?thesis by (auto simp: slots_kept_def freelist_push_def upd_cls_def Let_def)
qed

definition geo_kept :: "'a slabs_scheme \<Rightarrow> 'a slabs_scheme \<Rightarrow> bool" where
  "geo_kept s s' \<longleftrightarrow> map geo (slabclass s') = map geo (slabclass s) \<and> mem_base s' = mem_base s \<and> power_largest s' = power_largest s \<and>
    settings s' = settings s \<and> slots_kept s s'"

lemma geo_kept_refl [simp]: "geo_kept s s"
  by (simp add: geo_kept_def slots_kept_same)

lemma geo_kept_trans: "geo_kept s s' \<Longrightarrow> geo_kept s' s'' \<Longrightarrow> geo_kept s s''"
  using slots_kept_trans by (auto simp: geo_kept_def)

lemma free_chunks_lists_only:
  assumes "free_chunks_loop p s = Some s'"
  shows "lists_only s s'"
proof (rule free_chunks_loop.raw_induct [OF _ assms])
  fix rec :: "addr \<Rightarrow> 'a slabs_scheme \<Rightarrow> 'a slabs_scheme option" and chunk s s'
  assume ih: "\<And>c s r. rec c s = Some r \<Longrightarrow> lists_only s r"
    and e: "(if chunk = NULL then Some s else let s1 = upd_item chunk (it_flags_update (\<lambda>_. ITEM_SLABBED)) s;
       cid = unat (slabs_clsid (heap s1 chunk)); next_chunk = it_next (heap s1 chunk) in rec next_chunk (freelist_push cid chunk s1)) = Some s'"
  show "lists_only s s'"
  proof (cases "chunk = NULL")
    case True
    with e show ?thesis by simp
  next
    case False
    let ?s1 = "upd_item chunk (it_flags_update (\<lambda>_. ITEM_SLABBED)) s"
    have "rec (it_next (heap ?s1 chunk)) (freelist_push (unat (slabs_clsid (heap ?s1 chunk))) chunk ?s1) = Some s'"
      using e False by (simp add: Let_def)
    from lists_only_trans [OF lists_only_trans [OF lists_only_upd_item lists_only_push] ih [OF this]] show ?thesis .
  qed
qed

lemma free_chunks_slots:
  assumes "free_chunks_loop p s = Some s'"
  shows "slots_kept s s'"
proof (rule free_chunks_loop.raw_induct [OF _ assms])
  fix rec :: "addr \<Rightarrow> 'a slabs_scheme \<Rightarrow> 'a slabs_scheme option" and chunk s s'
  assume ih: "\<And>c s r. rec c s = Some r \<Longrightarrow> slots_kept s r"
    and e: "(if chunk = NULL then Some s else let s1 = upd_item chunk (it_flags_update (\<lambda>_. ITEM_SLABBED)) s;
       cid = unat (slabs_clsid (heap s1 chunk)); next_chunk = it_next (heap s1 chunk) in rec next_chunk (freelist_push cid chunk s1)) = Some s'"
  show "slots_kept s s'"
  proof (cases "chunk = NULL")
    case True
    with e show ?thesis by (simp add: slots_kept_same)
  next
    case False
    let ?s1 = "upd_item chunk (it_flags_update (\<lambda>_. ITEM_SLABBED)) s"
    have "rec (it_next (heap ?s1 chunk)) (freelist_push (unat (slabs_clsid (heap ?s1 chunk))) chunk ?s1) = Some s'"
      using e False by (simp add: Let_def)
    from slots_kept_trans [OF slots_kept_trans [OF slots_kept_same slots_kept_push [OF False]] ih [OF this]] show ?thesis by simp
  qed
qed

lemma slabs_free_slots:
  assumes "do_slabs_free a c s = Some s'" "a \<noteq> NULL"
  shows "slots_kept s s'"
proof -
  consider "s' = s" | f where "s' = freelist_push c a (upd_item a f s)" | "do_slabs_free_chunked a s = Some s'"
    using assms(1) unfolding do_slabs_free_def by (metis option.inject)
  then show ?thesis
  proof cases
    case 2
    show ?thesis unfolding 2 by (rule slots_kept_trans [OF slots_kept_same slots_kept_push]) (use assms(2) in simp_all)
  next
    case 3
    let ?ch = "ITEM_schunk a (heap s a)"
    define s1 where "s1 = upd_item a (\<lambda>i. i\<lparr>it_flags := ITEM_SLABBED, it_prev := NULL\<rparr>) s"
    define s2 where "s2 = upd_item a (slabs_clsid_update (\<lambda>_. nkey (heap s1 ?ch))) s1"
    define nx where "nx = it_next (heap s2 ?ch)"
    define t where "t = (if nx \<noteq> NULL then upd_item nx (it_prev_update (\<lambda>_. NULL)) s2 else s2)"
    have t: "slabclass t = slabclass s" "free_chunks_loop nx (freelist_push (unat (nkey (heap s1 ?ch))) a t) = Some s'"
      using 3 unfolding do_slabs_free_chunked_def Let_def s1_def [symmetric] s2_def [symmetric] nx_def [symmetric] t_def [symmetric]
      by (simp_all add: t_def s2_def s1_def)
    show ?thesis by (rule slots_kept_trans [OF slots_kept_trans [OF slots_kept_same slots_kept_push] free_chunks_slots [OF t(2)]])
      (use t(1) assms(2) in simp_all)
  qed (simp add: slots_kept_same)
qed

lemma slabs_free_lists_only: "do_slabs_free a c s = Some s' \<Longrightarrow> lists_only s s'"
proof -
  assume a: "do_slabs_free a c s = Some s'"
  consider "s' = s" | f where "s' = freelist_push c a (upd_item a f s)" | "do_slabs_free_chunked a s = Some s'"
    using a unfolding do_slabs_free_def by (metis option.inject)
  then show ?thesis
  proof cases
    case 2
    show ?thesis unfolding 2 by (rule lists_only_trans [OF lists_only_upd_item lists_only_push])
  next
    case 3
    let ?ch = "ITEM_schunk a (heap s a)"
    define s1 where "s1 = upd_item a (\<lambda>i. i\<lparr>it_flags := ITEM_SLABBED, it_prev := NULL\<rparr>) s"
    define s2 where "s2 = upd_item a (slabs_clsid_update (\<lambda>_. nkey (heap s1 ?ch))) s1"
    define nx where "nx = it_next (heap s2 ?ch)"
    define s3 where "s3 = (if nx \<noteq> NULL then upd_item nx (it_prev_update (\<lambda>_. NULL)) s2 else s2)"
    have "free_chunks_loop nx (freelist_push (unat (nkey (heap s1 ?ch))) a s3) = Some s'"
      using 3 unfolding do_slabs_free_chunked_def Let_def s1_def [symmetric] s2_def [symmetric] nx_def [symmetric] s3_def [symmetric] .
    from free_chunks_lists_only [OF this] have "lists_only (freelist_push (unat (nkey (heap s1 ?ch))) a s3) s'" .
    moreover have "lists_only s s3" by (simp add: lists_only_def s3_def s2_def s1_def)
    ultimately show ?thesis using lists_only_trans [OF lists_only_trans [OF _ lists_only_push]] by blast
  qed simp
qed

lemma lists_only_geo:
  assumes "lists_only s s'" "slots_kept s s'"
  shows "geo_kept s s'"
  using lists_onlyD(1,3,6) [OF assms(1)] assms(2) assms(1) [unfolded lists_only_def] by (simp add: geo_kept_def)

lemma remove_geo:
  assumes "do_item_remove a s = Some s'" "a \<noteq> NULL"
  shows "geo_kept s s'"
proof -
  have r: "geo_kept s (refcount_decr a s)" by (simp add: geo_kept_def refcount_decr_def slots_kept_same)
  show ?thesis
  proof (cases "refcount (heap (refcount_decr a s) a) = 0")
    case True
    then have "slabs_free a (unat (ITEM_clsid (heap (refcount_decr a s) a))) (refcount_decr a s) = Some s'"
      using assms by (simp add: do_item_remove_def item_free_def Let_def)
    from geo_kept_trans [OF r lists_only_geo [OF slabs_free_lists_only [OF this] slabs_free_slots [OF this assms(2)]]] show ?thesis .
  next
    case False
    then show ?thesis using assms r by (simp add: do_item_remove_def Let_def)
  qed
qed

lemma set_pos_geo: "geo_kept s (set_pos p v s)"
  by (cases p) (simp_all add: set_pos_def geo_kept_def slots_kept_same)

lemma delete_geo:
  assumes "assoc_delete k hv s = Some s'"
  shows "geo_kept s s'"
proof -
  have "geo_kept s (set_pos p v (upd_item a f s))" for p v a f
    by (rule geo_kept_trans [OF _ set_pos_geo]) (simp add: geo_kept_def slots_kept_same)
  then show ?thesis using assms unfolding assoc_delete_def Let_def by (auto simp del: upd_item_def split: option.splits if_splits)
qed

lemma step_geo:
  "geo_kept s (upd_stat i f s)" "geo_kept s (do_item_link_q a s)" "geo_kept s (do_item_unlink_q a s)" "geo_kept s (upd_item a g s)"
  "geo_kept s (STORAGE_delete a s)" "geo_kept s (refcount_incr a s)" "geo_kept s (unlink_start a s)"
  by (simp_all add: geo_kept_def upd_stat_def do_item_link_q_def do_item_unlink_q_def STORAGE_delete_def refcount_incr_def unlink_start_def Let_def slots_kept_same)

lemma unlink_geo:
  assumes "do_item_unlink a hv s = Some s'" "a \<noteq> NULL"
  shows "geo_kept s s'"
proof (cases "has_flag ITEM_LINKED (heap s a)")
  case False
  then show ?thesis using assms by (simp add: do_item_unlink_def)
next
  case True
  from do_item_unlink_eq [OF this] obtain h where "do_item_unlink a hv s = Option.bind (assoc_delete (key_of (heap s a)) hv ((unlink_start a s)\<lparr>stats_sizes_hist := h\<rparr>))
    (\<lambda>s4. do_item_remove a (do_item_unlink_q a s4))" by blast
  with assms obtain s4 where s4: "assoc_delete (key_of (heap s a)) hv ((unlink_start a s)\<lparr>stats_sizes_hist := h\<rparr>) = Some s4"
    "do_item_remove a (do_item_unlink_q a s4) = Some s'" by (auto split: bind_splits)
  have "geo_kept s ((unlink_start a s)\<lparr>stats_sizes_hist := h\<rparr>)" by (simp add: geo_kept_def unlink_start_def slots_kept_same)
  from geo_kept_trans [OF geo_kept_trans [OF this delete_geo [OF s4(1)]] geo_kept_trans [OF step_geo(3) remove_geo [OF s4(2) assms(2)]]] show ?thesis .
qed

lemma reassign_geo: "geo_kept s (fst (slabs_reassign src dst s))"
  by (auto simp: slabs_reassign_def do_slabs_reassign_def slabs_reassign_pick_any_def upd_rebal_def geo_kept_def slots_kept_same Let_def split: prod.splits)

lemma clear_active_geo: "geo_kept s (clear_active a s)"
  unfolding clear_active_def by (rule step_geo)

lemma trylock_geo: "item_trylock s = (s', got) \<Longrightarrow> geo_kept s s'"
  by (auto simp: item_trylock_def geo_kept_def slots_kept_same split: list.splits)

lemma bind_SomeE: "(x \<bind> f) = Some y \<Longrightarrow> (\<And>a. x = Some a \<Longrightarrow> f a = Some y \<Longrightarrow> P) \<Longrightarrow> P"
  by (cases x) auto

lemmas geo_chain = geo_kept_trans [OF geo_kept_trans]

lemma pull_switch_geo:
  assumes "pull_switch orig_id c tb flags age a hv s = Some (s', res)" "a \<noteq> NULL"
  shows "geo_kept s s'"
proof -
  have act: "geo_kept s (upd_stat i f (clear_active a s))" "geo_kept s (clear_active a (upd_stat i f s))" for i f
    using geo_kept_trans [OF clear_active_geo step_geo(1)] geo_kept_trans [OF step_geo(1) clear_active_geo] by blast+
  have unl: "geo_kept s (do_item_unlink_q a t)" if "geo_kept s t" for t by (rule geo_kept_trans [OF that step_geo(3)])
  have wi: "geo_kept s t" if "do_item_remove a (do_item_link_q a (do_item_unlink_q a (upd_stat i f (clear_active a s)))) = Some t" for t i f
    by (rule geo_kept_trans [OF geo_kept_trans [OF unl [OF act(1)] step_geo(2)] remove_geo [OF that assms(2)]])
  have ev: "geo_kept s (if slab_automove (settings t) = 2 then fst (slabs_reassign (- 1) dst t) else t)"
    if "do_item_unlink_nolock a hv (STORAGE_delete a (evict_stats i x s)) = Some t" for t i x dst
  proof -
    have "geo_kept s (evict_stats i x s)" unfolding evict_stats_def by (rule step_geo)
    from geo_kept_trans [OF geo_kept_trans [OF this step_geo(5)] unlink_geo [OF that [unfolded do_item_unlink_nolock_eq] assms(2)]]
    have "geo_kept s t" .
    with geo_kept_trans [OF this reassign_geo] show ?thesis by simp
  qed
  show ?thesis
    using assms(1) unl [OF act(1)] unl [OF act(2)] unl [OF step_geo(1)]
    unfolding pull_switch_def Let_def
    by (auto split: if_split_asm elim!: bind_SomeE dest!: wi dest: ev)
qed

lemma pull_finish_geo:
  assumes "pull_finish flags res = Some (s', out)"
  shows "geo_kept (fst res) s'"
proof -
  obtain s it mv n ret where res: "res = (s, it, mv, n, ret)" by (metis prod_cases5)
  have "geo_kept s (item_link_q it (upd_item it (set_lru mv) s))" by (rule geo_kept_trans [OF step_geo(4) step_geo(2)])
  then have m: "geo_kept s (if mv \<noteq> 0 then item_link_q it (upd_item it (set_lru mv) s) else s)" by simp
  then show ?thesis using assms geo_kept_trans [OF m remove_geo]
    by (auto simp: pull_finish_def res Let_def simp del: upd_item_def split: if_split_asm elim!: bind_SomeE)
qed

lemma pull_loop_geo:
  assumes "pull_loop hash orig_id c tb flags age tries search removed s = Some res"
  shows "geo_kept s (fst res)"
proof (rule pull_loop.raw_induct [OF _ assms, where P = "\<lambda>_ _ _ _ _ _ _ _ _ s res. geo_kept s (fst res)"])
  fix rec :: "(bytes \<Rightarrow> uint32) \<Rightarrow> nat \<Rightarrow> byte \<Rightarrow> uint64 \<Rightarrow> byte \<Rightarrow> uint32 \<Rightarrow> nat \<Rightarrow> addr \<Rightarrow> int \<Rightarrow> 'a lru_scheme \<Rightarrow> ('a lru_scheme \<times> pull) option"
    and hash :: "bytes \<Rightarrow> uint32" and orig_id :: nat and c :: byte and tb :: uint64 and flags :: byte and age :: uint32 and tries :: nat
    and search :: addr and removed :: int and s :: "'a lru_scheme" and res :: "'a lru_scheme \<times> pull"
  assume ih: "\<And>hash orig_id c tb flags age tries search removed s res. rec hash orig_id c tb flags age tries search removed s = Some res \<Longrightarrow> geo_kept s (fst res)"
  define x nx i hv where "x = heap s search" and "nx = it_prev x" and "i = orig_id OR unat c" and "hv = hash (key_of x)"
  obtain s1 got where t: "item_trylock s = (s1, got)" by fastforce
  define s2 where "s2 = refcount_incr search s1"
  define s3 where "s3 = (if refcount (heap s2 search) \<noteq> 2 then upd_stat i (\<lambda>t. t\<lparr>lrutail_reflocked := lrutail_reflocked t + 1\<rparr>) s2 else s2)"
  have g3: "geo_kept s s3" unfolding s3_def s2_def
    using geo_kept_trans [OF trylock_geo [OF t] step_geo(6)] geo_kept_trans [OF geo_kept_trans [OF trylock_geo [OF t] step_geo(6)] step_geo(1)] by simp
  have rep: "geo_kept s (fst res)" if "do_item_unlink_nolock search hv (STORAGE_delete search (upd_item search f (upd_stat i g s3))) = Some s4"
    "rec hash orig_id c tb flags age n nx removed s4 = Some res" "search \<noteq> NULL" for f g s4 n
    using geo_kept_trans [OF geo_kept_trans [OF geo_kept_trans [OF geo_kept_trans [OF g3 step_geo(1)] step_geo(4)] step_geo(5)]
      geo_kept_trans [OF unlink_geo [OF that(1) [unfolded do_item_unlink_nolock_eq] that(3)] ih [OF that(2)]]] .
  have exp: "geo_kept s (fst res)" if "do_item_unlink_nolock search hv (reclaim_stats i y s3) = Some s4" "do_item_remove search (STORAGE_delete search s4) = Some s5"
    "rec hash orig_id c tb flags age n nx r s5 = Some res" "search \<noteq> NULL" for y s4 s5 n r
  proof -
    have "geo_kept s (reclaim_stats i y s3)" unfolding reclaim_stats_def by (rule geo_kept_trans [OF g3 step_geo(1)])
    from geo_kept_trans [OF geo_kept_trans [OF this unlink_geo [OF that(1) [unfolded do_item_unlink_nolock_eq] that(4)]]
      geo_kept_trans [OF geo_kept_trans [OF step_geo(5) remove_geo [OF that(2,4)]] ih [OF that(3)]]] show ?thesis .
  qed
  have sw: "geo_kept s (fst res)" if "pull_switch orig_id c tb flags age search hv s3 = Some (s4, it, mv, n, ret)"
    "(if it \<noteq> NULL then Some (s4, it, mv, removed + n, ret) else rec hash orig_id c tb flags age t2 nx (removed + n) s4) = Some res" "search \<noteq> NULL" for s4 it mv n ret t2
    using geo_kept_trans [OF g3 pull_switch_geo [OF that(1,3)]] geo_kept_trans [OF geo_kept_trans [OF g3 pull_switch_geo [OF that(1,3)]] ih] that(2)
    by (auto split: if_split_asm)
  have lk: "geo_kept s (fst res)" if "rec hash orig_id c tb flags age n nx removed s1 = Some res" for n
    using geo_kept_trans [OF trylock_geo [OF t] ih [OF that]] .
  assume "(if tries = 0 \<or> search = NULL then Some (s, NULL, 0, removed, None)
     else let x = heap s search; next_it = it_prev x; i = orig_id OR unat c in
     if is_crawler x
     then if flags AND LRU_PULL_CRAWL_BLOCKS \<noteq> 0 then Some (s, NULL, 0, 0, None)
          else rec hash orig_id c tb flags age tries next_it removed s
     else let hv = hash (key_of x); (s1, got) = item_trylock s in
     if \<not> got then rec hash orig_id c tb flags age (tries - 1) next_it removed s1
     else let s2 = refcount_incr search s1;
              reflocked = refcount (heap s2 search) \<noteq> 2;
              s3 = (if reflocked then upd_stat i (\<lambda>t. t\<lparr>lrutail_reflocked := lrutail_reflocked t + 1\<rparr>) s2 else s2)
     in if reflocked \<and> tail_repair_time (settings s3) \<noteq> 0 \<and>
           it_time x + word_of_int (tail_repair_time (settings s3)) < current_time s3
     then do {
       s4 \<leftarrow> do_item_unlink_nolock search hv (STORAGE_delete search (upd_item search (refcount_update (\<lambda>_. 1))
               (upd_stat i (\<lambda>t. t\<lparr>tailrepairs := tailrepairs t + 1\<rparr>) s3)));
       rec hash orig_id c tb flags age (tries - 1) next_it removed s4
     }
     else if pull_expired (heap s3 search) s3
     then do {
       s4 \<leftarrow> do_item_unlink_nolock search hv (reclaim_stats i (heap s3 search) s3);
       s5 \<leftarrow> do_item_remove search (STORAGE_delete search s4);
       rec hash orig_id c tb flags age (tries - 1) next_it (removed + 1) s5
     }
     else do {
       (s4, it, move_to_lru, n, ret_it) \<leftarrow> pull_switch orig_id c tb flags age search hv s3;
       if it \<noteq> NULL then Some (s4, it, move_to_lru, removed + n, ret_it)
       else rec hash orig_id c tb flags age (tries - 1) next_it (removed + n) s4
     }) = Some res"
  then show "geo_kept s (fst res)"
    unfolding Let_def x_def [symmetric] nx_def [symmetric] i_def [symmetric] hv_def [symmetric] t prod.case s2_def [symmetric] s3_def [symmetric]
    by (auto simp del: upd_item_def split: if_split_asm elim!: bind_SomeE intro: exp rep sw lk ih)
qed

lemma lru_pull_tail_geo:
  assumes "lru_pull_tail hash orig_id c tb flags age s = Some (s', out)"
  shows "geo_kept s s'"
proof (cases "orig_id = 0")
  case False
  then obtain res where r: "pull_loop hash orig_id c tb flags age 5 (tails s ! (orig_id OR unat c)) 0 s = Some res" "pull_finish flags res = Some (s', out)"
    using assms by (auto simp: lru_pull_tail_def elim!: bind_SomeE)
  show ?thesis by (rule geo_kept_trans [OF pull_loop_geo [OF r(1)] pull_finish_geo [OF r(2)]])
qed (use assms in \<open>simp add: lru_pull_tail_def\<close>)

section \<open>Allocation keeps the invariant\<close>

text \<open>What an allocation in class \<open>c\<close> changes besides the heap: the classes and the memory counters, with at most \<open>n\<close> pages more.\<close>

definition alloc_only :: "nat \<Rightarrow> nat \<Rightarrow> 'a items_scheme \<Rightarrow> 'a items_scheme \<Rightarrow> bool" where
  "alloc_only n c s s' \<longleftrightarrow> same_tables (s\<lparr>slabclass := slabclass s', malloc_supply := malloc_supply s'\<rparr>) s' \<and>
    curr_items s' = curr_items s \<and> curr_bytes s' = curr_bytes s \<and> current_time s' = current_time s \<and> mem_base s' = mem_base s \<and>
    length (slabclass s') = length (slabclass s) \<and> (\<forall>d < length (slabclass s). perslab (cls s' d) = perslab (cls s d) \<and> sc_size (cls s' d) = sc_size (cls s d) \<and>
      unat (slabs_n (cls s' d)) \<le> unat (slabs_n (cls s d)) + (if d = c then n else 0))"

lemma alloc_only_refl [simp]: "alloc_only n c s s"
  by (simp add: alloc_only_def same_tables_def)

lemma alloc_only_trans:
  assumes "alloc_only n c s s'" "alloc_only k c s' s''"
  shows "alloc_only (n + k) c s s''"
proof -
  have "unat (slabs_n (cls s'' d)) \<le> unat (slabs_n (cls s d)) + (if d = c then n + k else 0)" if "d < length (slabclass s)" for d
  proof -
    have "unat (slabs_n (cls s'' d)) \<le> unat (slabs_n (cls s' d)) + (if d = c then k else 0)"
      "unat (slabs_n (cls s' d)) \<le> unat (slabs_n (cls s d)) + (if d = c then n else 0)" using assms that by (simp_all add: alloc_only_def)
    then show ?thesis by (auto split: if_splits)
  qed
  with assms show ?thesis by (simp add: alloc_only_def same_tables_def)
qed

lemma unat_suc_le: "unat (w + 1 :: 'a::len word) \<le> unat w + 1"
  by (metis One_nat_def Suc_eq_plus1 le_eq_less_or_eq lessI unatSuc unat_0 zero_le add.commute)

lemma upd_cls_only:
  assumes "\<And>p. perslab (f p) = perslab p \<and> sc_size (f p) = sc_size p \<and> unat (slabs_n (f p)) \<le> unat (slabs_n p) + (if d = c then n else 0)"
  shows "alloc_only n c s (upd_cls d f s)"
  using assms by (auto simp: alloc_only_def same_tables_def upd_cls_def nth_update_if)

lemma memory_only:
  "malloc s = (s', p) \<Longrightarrow> alloc_only 0 c s s'" "realloc s = (s', b) \<Longrightarrow> alloc_only 0 c s s'" "memory_allocate sz s = (s', p) \<Longrightarrow> alloc_only 0 c s s'"
  by (auto simp: malloc_def realloc_def memory_allocate_def alloc_only_def same_tables_def Let_def split: list.splits if_splits prod.splits)

lemma wipe_only: "alloc_only 0 c s (wipe p n s)"
  by (simp add: wipe_def alloc_only_def same_tables_def)

lemma grow_only:
  assumes "grow_slab_list d s = (s', ok)"
  shows "alloc_only 0 c s s'"
proof (cases "slabs_n (cls s d) = list_size (cls s d)")
  case False
  with assms show ?thesis by (simp add: grow_slab_list_def Let_def)
next
  case True
  obtain s1 ok1 where r: "realloc s = (s1, ok1)" by fastforce
  have u: "alloc_only 0 c s1 (upd_cls d f s1)" if "\<And>p. perslab (f p) = perslab p \<and> sc_size (f p) = sc_size p \<and> slabs_n (f p) = slabs_n p" for f
    by (rule upd_cls_only) (use that in simp)
  from alloc_only_trans [OF memory_only(2) [OF r] u] memory_only(2) [OF r] True assms r show ?thesis
    by (auto simp: grow_slab_list_def Let_def split: if_splits)
qed

lemma get_page_only:
  assumes "get_page_from_global_pool s = (s', p)"
  shows "alloc_only 0 c s s'"
proof -
  have "unat (w - 1) \<le> unat w" if "\<not> w < 1" for w :: uint32
    using that by (metis diff_le_self linorder_not_less unat_1 unat_sub)
  then show ?thesis using assms
    by (auto simp: get_page_from_global_pool_def alloc_only_def same_tables_def upd_cls_def nth_update_if Let_def split: if_splits)
qed

lemma lists_only_alloc:
  assumes "lists_only s s'"
  shows "alloc_only 0 c s s'"
proof -
  have g: "map geo (slabclass s') = map geo (slabclass s)" using assms by (simp add: lists_only_def)
  have len: "length (slabclass s') = length (slabclass s)" using map_eq_imp_length_eq [OF g] .
  have "perslab (cls s' d) = perslab (cls s d) \<and> sc_size (cls s' d) = sc_size (cls s d) \<and> slabs_n (cls s' d) = slabs_n (cls s d)"
    if d: "d < length (slabclass s)" for d
  proof -
    have "geo (cls s' d) = geo (cls s d)" using arg_cong [OF g, of "\<lambda>l. l ! d"] d len by simp
    from geo_fields(1-3) [OF this] show ?thesis by simp
  qed
  then show ?thesis using lists_only_items [OF assms] lists_onlyD(6,7) [OF assms] len by (simp add: alloc_only_def same_tables_def)
qed

lemma split_lists_only: "split_loop n p cid s = Some s' \<Longrightarrow> lists_only s s'"
proof (induction n arbitrary: p s)
  case (Suc n)
  then obtain s1 where s1: "do_slabs_free p cid s = Some s1" "split_loop n (p + unat (sc_size (cls s1 cid))) cid s1 = Some s'"
    by (auto split: option.splits)
  show ?case by (rule lists_only_trans [OF slabs_free_lists_only [OF s1(1)] Suc.IH [OF s1(2)]])
qed simp

lemma newslab_only:
  assumes "do_slabs_newslab c s = Some (s', ok)"
  shows "alloc_only 1 c s s'"
proof (cases "mem_limit s \<noteq> 0 \<and> mem_malloced s + word_of_int (page_len s c) > mem_limit s \<and> slabs_n (cls s c) > 0 \<and>
        slabs_n (cls s SLAB_GLOBAL_PAGE_POOL) = 0")
  case True
  with assms show ?thesis by (auto simp: do_slabs_newslab_def alloc_only_def same_tables_def)
next
  case lim: False
  let ?len = "word_of_int (page_len s c) :: uint64"
  obtain s1 ok1 where g1: "grow_slab_list c s = (s1, ok1)" by fastforce
  obtain s2 p0 where g2: "get_page_from_global_pool s1 = (s2, p0)" by fastforce
  obtain s3 p where g3: "(if p0 = NULL then memory_allocate ?len s2 else (s2, p0)) = (s3, p)" by fastforce
  have nw: "do_slabs_newslab c s = (if \<not> ok1 then Some (s1, False) else if p = NULL then Some (s3, False)
      else (case split_slab_page_into_freelist p c (wipe p (unat ?len) s3) of None \<Rightarrow> None | Some s5 \<Rightarrow> Some (add_page c p s5, True)))"
    unfolding do_slabs_newslab_def Let_def if_not_P [OF lim] g1 g2 prod.case g3 ..
  have a3: "alloc_only 0 c s2 s3" using g3 memory_only(3) by (auto split: if_splits)
  note a1 = grow_only [OF g1, of c]
  have b3: "alloc_only 0 c s s3" using alloc_only_trans [OF alloc_only_trans [OF a1 get_page_only [OF g2]] a3] by simp
  have up: "alloc_only 1 c s t" if "alloc_only 0 c s t" for t using alloc_only_trans [OF that alloc_only_refl [of 1]] by simp
  have ap: "alloc_only 1 c t (add_page c p t)" for t unfolding add_page_def
    by (rule upd_cls_only) (use unat_suc_le in auto)
  have sp: "alloc_only 1 c s (add_page c p s5)" if "split_slab_page_into_freelist p c (wipe p (unat ?len) s3) = Some s5" for s5
    using alloc_only_trans [OF alloc_only_trans [OF alloc_only_trans [OF b3 wipe_only] lists_only_alloc
      [OF split_lists_only [OF that [unfolded split_slab_page_into_freelist_def]]]] ap] by simp
  show ?thesis using assms up [OF a1] up [OF b3] sp unfolding nw by (auto split: if_split_asm option.splits)
qed

lemma slabs_alloc_only:
  assumes "slabs_alloc sz c fl s = Some (s', p)"
  shows "alloc_only 1 c s s'"
proof -
  have pop: "lists_only t (freelist_pop c t)" for t :: "'a items_scheme"
    by (simp add: lists_only_def freelist_pop_def upd_cls_def Let_def map_geo_update geo_def)
  have pa: "alloc_only 1 c s (freelist_pop c t)" if "alloc_only 1 c s t" for t
    using alloc_only_trans [OF that lists_only_alloc [OF pop]] by simp
  show ?thesis
  proof (cases "c < POWER_SMALLEST \<or> c > power_largest s")
    case True
    with assms show ?thesis by (auto simp: do_slabs_alloc_def)
  next
    case False
    then obtain s1 ok where n: "(if sl_curr (cls s c) = 0 \<and> fl \<noteq> SLABS_ALLOC_NO_NEWPAGE then do_slabs_newslab c s else Some (s, True)) = Some (s1, ok)"
      "(if sl_curr (cls s1 c) \<noteq> 0 then (freelist_pop c s1, sc_slots (cls s1 c)) else (s1, NULL)) = (s', p)"
      using assms by (auto simp: do_slabs_alloc_def split: option.splits if_split_asm)
    have "alloc_only 1 c s s1" using n(1) newslab_only by (auto split: if_split_asm)
    with n(2) pa show ?thesis by (auto split: if_split_asm)
  qed
qed

text \<open>Class \<open>c\<close> can get \<open>n\<close> more pages without an overflow of its counters.\<close>

definition class_rooms :: "nat \<Rightarrow> nat \<Rightarrow> 'a slabs_scheme \<Rightarrow> bool" where
  "class_rooms n c s \<longleftrightarrow> unat (slabs_n (cls s c)) + n \<le> 2 ^ 31 \<and> (unat (slabs_n (cls s c)) + n) * unat (perslab (cls s c)) < 2 ^ 32"

lemma times_less: "x * p < C \<Longrightarrow> y \<le> x \<Longrightarrow> y * p < C" for x y p C :: nat
  by (rule le_less_trans [OF mult_right_mono]) simp_all

lemma class_rooms_room: "class_rooms (Suc n) c s \<Longrightarrow> class_room s c"
  unfolding class_rooms_def class_room_def by (elim conjE, intro conjI, linarith, erule times_less) simp

lemma class_rooms_alloc:
  assumes a: "class_rooms (k + n) c s" "alloc_only k c s s'" "c < length (slabclass s)"
  shows "class_rooms n c s'"
proof -
  have l: "unat (slabs_n (cls s' c)) + n \<le> unat (slabs_n (cls s c)) + (k + n)" and p: "perslab (cls s' c) = perslab (cls s c)"
    using a(2,3) by (auto simp: alloc_only_def)
  have r: "unat (slabs_n (cls s c)) + (k + n) \<le> 2 ^ 31" "(unat (slabs_n (cls s c)) + (k + n)) * unat (perslab (cls s c)) < 2 ^ 32"
    using a(1) unfolding class_rooms_def by blast+
  show ?thesis unfolding class_rooms_def p by (rule conjI [OF le_trans [OF l r(1)] times_less [OF r(2) l]])
qed

lemma class_rooms_geo:
  assumes "class_rooms n c s" "geo_kept s s'" "c < length (slabclass s)"
  shows "class_rooms n c s'"
proof -
  have g: "map geo (slabclass s') = map geo (slabclass s)" using assms(2) by (simp add: geo_kept_def)
  have "length (slabclass s') = length (slabclass s)" using map_eq_imp_length_eq [OF g] .
  then have "geo (cls s' c) = geo (cls s c)" using arg_cong [OF g, of "\<lambda>l. l ! c"] assms(3) by simp
  from geo_fields(2,3) [OF this] assms(1) show ?thesis by (simp add: class_rooms_def)
qed

lemma items_alloc:
  assumes inv: "items_inv hash s m Q F H R" and c: "c \<in> {1..power_largest s}" and mb: "mem_base s = NULL" and room: "class_room s c"
  shows "\<exists>s' p F' H'. slabs_alloc sz c fl s = Some (s', p) \<and> alloc_only 1 c s s' \<and> life_kept (live m R) s s' \<and> items_inv hash s' m Q F' H' R \<and>
    (p \<noteq> NULL \<longrightarrow> p \<notin> live m R \<and> p \<in> H' c \<and> it_flags (heap s' p) = 0 \<and> refcount (heap s' p) = 1)"
proof -
  note I = items_invD [OF inv]
  from alloc_inv [OF I(4) c mb room, of sz fl] obtain s' p F' where a: "slabs_alloc sz c fl s = Some (s', p)" "slab_frame s F s'"
    "if p = NULL then slab_inv s' F' H \<and> sl_curr (cls s c) = 0
     else p \<notin> H c \<and> slab_inv s' F' (H(c := insert p (H c))) \<and> it_flags (heap s' p) = 0 \<and> refcount (heap s' p) = 1" by blast
  define H' where "H' = (if p = NULL then H else H(c := insert p (H c)))"
  have si: "slab_inv s' F' H'" using a(3) by (simp add: H'_def)
  have HH: "H d \<subseteq> H' d" for d by (auto simp: H'_def)
  have pl: "power_largest s' = power_largest s" "settings s' = settings s" using a(2) by (simp_all add: slab_frame_def)
  have hp: "heap s' b = heap s b" if b: "b \<in> live m R" for b
    using a(2) held_not_free(2) [OF I(4) live_held(3,4) [OF inv b]] live_held(1) [OF inv b] by (auto simp: slab_frame_def)
  note ao = slabs_alloc_only [OF a(1)]
  have t: "hashpower s' = hashpower s" "primary_hashtable s' = primary_hashtable s" "old_hashtable s' = old_hashtable s"
    "expanding s' = expanding s" "expand_bucket s' = expand_bucket s" "heads s' = heads s" "tails s' = tails s" "lru_sizes s' = lru_sizes s"
    "sizes_bytes s' = sizes_bytes s" "curr_items s' = curr_items s" "curr_bytes s' = curr_bytes s" "current_time s' = current_time s"
    using ao by (simp_all add: alloc_only_def same_tables_def)
  have lm: "b \<in> live m R" if "b \<in> ran m" for b using that by (simp add: live_def)
  have len: "d < length (slabclass s)" if "d \<in> {1..power_largest s}" for d
    using I(4) that by (auto simp: slab_inv_def free_ok_def class_ok_def)
  have "assoc_abs hash s' m" by (rule assoc_abs_frame [OF I(1)]) (use t hp lm in auto)
  moreover have "lru_ok s' Q" by (rule lru_ok_frame [OF I(2)]) (use t hp lm I(3) in auto)
  moreover have "no_overflow s'" unfolding no_overflow_def pl
  proof
    fix d assume d: "d \<in> {1..power_largest s}"
    have n: "perslab (cls s' d) = perslab (cls s d)" "unat (slabs_n (cls s' d)) \<le> unat (slabs_n (cls s d)) + (if d = c then 1 else 0)"
      using ao len [OF d] by (auto simp: alloc_only_def)
    have "(unat (slabs_n (cls s d)) + (if d = c then 1 else 0)) * unat (perslab (cls s d)) < 2 ^ 32"
      using room I(5) d by (auto simp: class_room_def no_overflow_def)
    from times_less [OF this n(2)] show "unat (slabs_n (cls s' d)) * unat (perslab (cls s' d)) < 2 ^ 32" unfolding n(1) .
  qed
  moreover have "item_ok m H' (power_largest s') R b (heap s' b)" if b: "b \<in> live m R" for b
    using I(6) [OF b] hp [OF b] HH by (auto simp: item_ok_def pl)
  moreover have "(\<Sum>b \<in> ran m. ITEM_ntotal (heap s' b)) = (\<Sum>b \<in> ran m. ITEM_ntotal (heap s b))" by (rule sum.cong) (use hp lm in auto)
  ultimately have inv': "items_inv hash s' m Q F' H' R" using si I(3,7,8) t by (simp add: items_inv_def)
  have "p \<notin> live m R" if p: "p \<noteq> NULL"
  proof
    assume l: "p \<in> live m R"
    let ?d = "unat (ITEM_clsid (heap s p))"
    have d: "?d \<in> {1..power_largest s}" "p \<in> H ?d" using live_held(3,4) [OF inv l] by simp_all
    then have pd: "p \<in> H' ?d" "?d \<in> {1..power_largest s'}" using HH pl by auto
    have pc: "p \<in> H' c" "c \<in> {1..power_largest s'}" using p c pl by (auto simp: H'_def)
    have "?d = c" by (rule held_not_free(4) [OF si pc(2,1) pd(2,1)])
    with d(2) p a(3) show False by simp
  qed
  moreover have "life_kept (live m R) s s'" using hp pl t by (simp add: life_kept_def data_kept_def)
  moreover have "p \<noteq> NULL \<longrightarrow> p \<in> H' c \<and> it_flags (heap s' p) = 0 \<and> refcount (heap s' p) = 1" using a(3) by (simp add: H'_def)
  ultimately show ?thesis using a(1) ao inv' by blast
qed

text \<open>At most \<open>n\<close> items are lost that are not expired or flushed.\<close>

definition lost_upto :: "nat \<Rightarrow> 'a lru_scheme \<Rightarrow> (bytes \<rightharpoonup> addr) \<Rightarrow> (bytes \<rightharpoonup> addr) \<Rightarrow> bool" where
  "lost_upto n s m m' \<longleftrightarrow> m' \<subseteq>\<^sub>m m \<and> (\<exists>E. finite E \<and> card E \<le> n \<and> (\<forall>k a. m k = Some a \<and> m' k = None \<longrightarrow> k \<in> E \<or> pull_expired (heap s a) s))"

lemma lost_upto_refl [simp]: "lost_upto n s m m"
  unfolding lost_upto_def by (intro conjI exI [of _ "{}"] allI impI) (simp_all, metis option.distinct(1))

lemma map_le_ran: "m' \<subseteq>\<^sub>m m \<Longrightarrow> ran m' \<subseteq> ran m"
  by (force simp: map_le_def ran_def)

lemma map_le_live: "m' \<subseteq>\<^sub>m m \<Longrightarrow> live m' R \<subseteq> live m R"
  using map_le_ran by (fastforce simp: live_def)

lemma lost_pull: "pull_lost c flags s m m' \<Longrightarrow> lost_upto (if c = COLD_LRU \<and> flags AND LRU_PULL_EVICT \<noteq> 0 then 1 else 0) s m m'"
proof -
  assume "pull_lost c flags s m m'"
  then obtain E where E: "E = {} \<or> c = COLD_LRU \<and> flags AND LRU_PULL_EVICT \<noteq> 0 \<and> (\<exists>k. E = {k})" "m' \<subseteq>\<^sub>m m"
    "\<forall>k a. m k = Some a \<and> m' k = None \<longrightarrow> k \<in> E \<or> pull_expired (heap s a) s" unfolding pull_lost_def by blast
  have "finite E" "card E \<le> (if c = COLD_LRU \<and> flags AND LRU_PULL_EVICT \<noteq> 0 then 1 else 0)" using E(1) by auto
  with E(2,3) show ?thesis unfolding lost_upto_def by blast
qed

lemma lost_trans:
  assumes l1: "lost_upto i s m m1" and lk: "life_kept (ran m1) s s1" and l2: "lost_upto j s1 m1 m'"
  shows "lost_upto (i + j) s m m'"
proof -
  from l1 obtain E1 where E1: "finite E1" "card E1 \<le> i" "\<And>k a. m k = Some a \<Longrightarrow> m1 k = None \<Longrightarrow> k \<in> E1 \<or> pull_expired (heap s a) s" "m1 \<subseteq>\<^sub>m m"
    by (auto simp: lost_upto_def)
  from l2 obtain E2 where E2: "finite E2" "card E2 \<le> j" "\<And>k a. m1 k = Some a \<Longrightarrow> m' k = None \<Longrightarrow> k \<in> E2 \<or> pull_expired (heap s1 a) s1" "m' \<subseteq>\<^sub>m m1"
    by (auto simp: lost_upto_def)
  have "k \<in> E1 \<union> E2 \<or> pull_expired (heap s a) s" if k: "m k = Some a" "m' k = None" for k a
  proof (cases "m1 k")
    case None then show ?thesis using E1(3) k(1) by blast
  next
    case (Some b)
    then have "b = a" using E1(4) k(1) by (force simp: map_le_def)
    have "a \<in> ran m1" using Some \<open>b = a\<close> by (auto simp: ran_def)
    from life_expired [OF lk this] E2(3) [OF Some k(2)] \<open>b = a\<close> show ?thesis by auto
  qed
  moreover have "finite (E1 \<union> E2)" "card (E1 \<union> E2) \<le> i + j" using E1(1,2) E2(1,2) card_Un_le [of E1 E2] by auto
  ultimately show ?thesis using map_le_trans [OF E2(4) E1(4)] unfolding lost_upto_def by blast
qed

text \<open>A step that keeps the invariant, keeps what is left, and loses at most \<open>n\<close> items.\<close>

definition mem_step :: "(bytes \<Rightarrow> uint32) \<Rightarrow> (addr \<Rightarrow> nat) \<Rightarrow> nat \<Rightarrow> 'a lru_scheme \<Rightarrow> (bytes \<rightharpoonup> addr) \<Rightarrow> 'a lru_scheme \<Rightarrow> (bytes \<rightharpoonup> addr) \<Rightarrow> bool" where
  "mem_step hash R n s m s' m' \<longleftrightarrow> (\<exists>Q F H. items_inv hash s' m' Q F H R) \<and> kept m' R s s' \<and> lost_upto n s m m'"

lemma mem_step_trans:
  assumes "mem_step hash R i s m s1 m1" "mem_step hash R j s1 m1 s2 m2"
  shows "mem_step hash R (i + j) s m s2 m2"
proof -
  have le: "m2 \<subseteq>\<^sub>m m1" using assms(2) by (simp add: mem_step_def lost_upto_def)
  have k: "kept m1 R s s1" "kept m2 R s1 s2" using assms by (simp_all add: mem_step_def)
  have "kept m2 R s s2" by (rule kept_trans [OF k map_le_ran [OF le] map_le_live [OF le]])
  moreover have "lost_upto (i + j) s m m2" by (rule lost_trans) (use assms k in \<open>auto simp: mem_step_def kept_def\<close>)
  ultimately show ?thesis using assms(2) by (simp add: mem_step_def)
qed

lemma mem_step_pre:
  assumes "mem_step hash R n s m s' m'" "pull_pre s m R"
  shows "pull_pre s' m' R"
proof -
  have k: "kept m' R s s'" "m' \<subseteq>\<^sub>m m" using assms(1) by (simp_all add: mem_step_def lost_upto_def)
  show ?thesis by (rule pull_pre_kept [OF assms(2) k(1) map_le_ran [OF k(2)]])
qed

lemma pull_step:
  assumes inv: "items_inv hash s m Q F H R" and pre: "pull_pre s m R" and id: "orig_id < 64"
    and c: "c \<in> {HOT_LRU, WARM_LRU, COLD_LRU, TEMP_LRU}" and fl: "flags AND LRU_PULL_RETURN_ITEM = 0"
  shows "\<exists>s' n m'. lru_pull_tail hash orig_id c tb flags age s = Some (s', n, None) \<and>
    mem_step hash R (if c = COLD_LRU \<and> flags AND LRU_PULL_EVICT \<noteq> 0 then 1 else 0) s m s' m' \<and> geo_kept s s'"
proof -
  have fl': "flags AND LRU_PULL_RETURN_ITEM = 0 \<or> c = COLD_LRU \<and> flags AND LRU_PULL_EVICT = 0" using fl by simp
  from lru_pull_tail_inv [OF inv pre id c fl', of tb age] fl obtain s' n m' Q' F' H' where r: "lru_pull_tail hash orig_id c tb flags age s = Some (s', n, None)"
    "items_inv hash s' m' Q' F' H' R" "kept m' R s s'" "pull_lost c flags s m m'" by auto
  with lost_pull [OF r(4)] lru_pull_tail_geo [OF r(1)] show ?thesis unfolding mem_step_def by blast
qed

text \<open>The class is one of the allocator's, memory comes from \<^verbatim>\<open>malloc\<close>, and the class has room for \<open>n\<close> more pages.\<close>

definition alloc_pre :: "nat \<Rightarrow> nat \<Rightarrow> 'a slabs_scheme \<Rightarrow> bool" where
  "alloc_pre n c s \<longleftrightarrow> c \<in> {1..power_largest s} \<and> c < 64 \<and> mem_base s = NULL \<and> class_rooms n c s \<and> c < length (slabclass s)"

lemma alloc_pre_geo: "alloc_pre n c s \<Longrightarrow> geo_kept s s' \<Longrightarrow> alloc_pre n c s'"
  using class_rooms_geo map_eq_imp_length_eq by (fastforce simp: alloc_pre_def geo_kept_def)

lemma alloc_pre_alloc:
  assumes "alloc_pre (Suc n) c s" "alloc_only 1 c s s'"
  shows "alloc_pre n c s'"
proof -
  have "class_rooms n c s'" by (rule class_rooms_alloc [of 1]) (use assms in \<open>auto simp: alloc_pre_def\<close>)
  with assms show ?thesis by (simp add: alloc_pre_def alloc_only_def same_tables_def)
qed

lemma mem_step_mono: "mem_step hash R i s m s' m' \<Longrightarrow> i \<le> j \<Longrightarrow> mem_step hash R j s m s' m'"
  unfolding mem_step_def lost_upto_def using le_trans by blast

lemma mem_step_refl: "items_inv hash s m Q F H R \<Longrightarrow> mem_step hash R n s m s m"
  unfolding mem_step_def by auto

text \<open>What the holder of the result of an allocation knows.\<close>

definition new_chunk :: "(bytes \<Rightarrow> uint32) \<Rightarrow> (addr \<Rightarrow> nat) \<Rightarrow> nat \<Rightarrow> addr \<Rightarrow> 'a lru_scheme \<Rightarrow> (bytes \<rightharpoonup> addr) \<Rightarrow> bool" where
  "new_chunk hash R c it s m \<longleftrightarrow> it \<noteq> NULL \<longrightarrow> it \<notin> live m R \<and> (\<exists>Q F H. items_inv hash s m Q F H R \<and> it \<in> H c) \<and>
    it_flags (heap s it) = 0 \<and> refcount (heap s it) = 1"

lemma alloc_step:
  assumes inv: "items_inv hash s m Q F H R" and ap: "alloc_pre (Suc n) c s"
  shows "\<exists>s' p. slabs_alloc sz c fl s = Some (s', p) \<and> mem_step hash R 0 s m s' m \<and> alloc_pre n c s' \<and> new_chunk hash R c p s' m"
proof -
  have c: "c \<in> {1..power_largest s}" "mem_base s = NULL" "class_room s c" using ap class_rooms_room by (auto simp: alloc_pre_def)
  from items_alloc [OF inv c, of sz fl] obtain s' p F' H' where a: "slabs_alloc sz c fl s = Some (s', p)" "alloc_only 1 c s s'"
    "life_kept (live m R) s s'" "items_inv hash s' m Q F' H' R" "p \<noteq> NULL \<longrightarrow> p \<notin> live m R \<and> p \<in> H' c \<and> it_flags (heap s' p) = 0 \<and> refcount (heap s' p) = 1" by blast
  have "mem_step hash R 0 s m s' m" using a(4) kept_life [OF a(3)] unfolding mem_step_def by auto
  moreover have "new_chunk hash R c p s' m" using a(4,5) unfolding new_chunk_def by blast
  ultimately show ?thesis using a(1) alloc_pre_alloc [OF ap a(2)] by blast
qed

lemma mem_step_inv: "mem_step hash R n s m s' m' \<Longrightarrow> \<exists>Q F H. items_inv hash s' m' Q F H R"
  by (simp add: mem_step_def)

lemma alloc_pull_loop_inv:
  assumes "items_inv hash s m Q F H R" "pull_pre s m R" "alloc_pre n c s"
  shows "\<exists>s' it i m'. alloc_pull_loop hash nt c n s = Some (s', it, i) \<and> mem_step hash R n s m s' m' \<and> new_chunk hash R c it s' m'"
  using assms
proof (induction n arbitrary: s m Q F H)
  case 0
  then show ?case using mem_step_refl by (fastforce simp: new_chunk_def)
next
  case (Suc n)
  note inv = Suc.prems(1) and pre = Suc.prems(2) and ap = Suc.prems(3)
  have id: "c < 64" using ap by (simp add: alloc_pre_def)
  obtain s1 m1 where s1: "(if \<not> lru_segmented (settings s) then map_option fst (lru_pull_tail hash c COLD_LRU 0 0 0 s) else Some s) = Some s1"
    "mem_step hash R 0 s m s1 m1" "geo_kept s s1"
  proof (cases "lru_segmented (settings s)")
    case True
    with mem_step_refl [OF inv] that show thesis by fastforce
  next
    case False
    from pull_step [OF inv pre id, of COLD_LRU 0 0 0] obtain t r m1 where "lru_pull_tail hash c COLD_LRU 0 0 0 s = Some (t, r, None)"
      "mem_step hash R 0 s m t m1" "geo_kept s t" by auto
    with False that show thesis by simp
  qed
  obtain Q1 F1 H1 where i1: "items_inv hash s1 m1 Q1 F1 H1 R" using mem_step_inv [OF s1(2)] by blast
  from alloc_step [OF i1 alloc_pre_geo [OF ap s1(3)], of nt 0] obtain s2 it where s2: "slabs_alloc nt c 0 s1 = Some (s2, it)"
    "mem_step hash R 0 s1 m1 s2 m1" "alloc_pre n c s2" "new_chunk hash R c it s2 m1" by blast
  note st2 = mem_step_trans [OF s1(2) s2(2)]
  show ?case
  proof (cases "it = NULL")
    case False
    then have "alloc_pull_loop hash nt c (Suc n) s = Some (s2, it, 10 - Suc n)" using s1(1) s2(1) by simp
    moreover have "mem_step hash R (Suc n) s m s2 m1" by (rule mem_step_mono [OF st2]) simp
    ultimately show ?thesis using s2(4) by blast
  next
    case True
    obtain Q2 F2 H2 where i2: "items_inv hash s2 m1 Q2 F2 H2 R" using mem_step_inv [OF s2(2)] by blast
    have ev: "LRU_PULL_EVICT AND LRU_PULL_RETURN_ITEM = 0" "LRU_PULL_EVICT AND LRU_PULL_EVICT \<noteq> 0" by simp_all
    from pull_step [OF i2 mem_step_pre [OF st2 pre] id _ ev(1), of COLD_LRU 0 0] obtain s3 r m3 where s3:
      "lru_pull_tail hash c COLD_LRU 0 LRU_PULL_EVICT 0 s2 = Some (s3, r, None)" "mem_step hash R 1 s2 m1 s3 m3" "geo_kept s2 s3" by auto
    note st3 = mem_step_trans [OF st2 s3(2)]
    obtain Q3 F3 H3 where i3: "items_inv hash s3 m3 Q3 F3 H3 R" using mem_step_inv [OF s3(2)] by blast
    note pre3 = mem_step_pre [OF st3 pre] and ap3 = alloc_pre_geo [OF s2(3) s3(3)]
    have eq: "alloc_pull_loop hash nt c (Suc n) s = (if r > 0 then alloc_pull_loop hash nt c n s3
        else if lru_segmented (settings s3) then do { (s4, _) \<leftarrow> lru_pull_tail hash c HOT_LRU 0 0 0 s3; alloc_pull_loop hash nt c n s4 }
        else Some (s3, NULL, 10 - Suc n))" using s1(1) s2(1) s3(1) True by simp
    consider "r > 0" | "\<not> r > 0" "lru_segmented (settings s3)" | "\<not> r > 0" "\<not> lru_segmented (settings s3)" by blast
    then show ?thesis
    proof cases
      case 1
      from Suc.IH [OF i3 pre3 ap3] obtain s' it' i m' where "alloc_pull_loop hash nt c n s3 = Some (s', it', i)"
        "mem_step hash R n s3 m3 s' m'" "new_chunk hash R c it' s' m'" by blast
      with 1 eq mem_step_trans [OF st3 this(2)] show ?thesis by auto
    next
      case 2
      from pull_step [OF i3 pre3 id, of HOT_LRU 0 0 0] obtain s4 r4 m4 where s4: "lru_pull_tail hash c HOT_LRU 0 0 0 s3 = Some (s4, r4, None)"
        "mem_step hash R 0 s3 m3 s4 m4" "geo_kept s3 s4" by auto
      note st4 = mem_step_trans [OF st3 s4(2)]
      obtain Q4 F4 H4 where i4: "items_inv hash s4 m4 Q4 F4 H4 R" using mem_step_inv [OF s4(2)] by blast
      from Suc.IH [OF i4 mem_step_pre [OF st4 pre] alloc_pre_geo [OF ap3 s4(3)]] obtain s' it' i m' where "alloc_pull_loop hash nt c n s4 = Some (s', it', i)"
        "mem_step hash R n s4 m4 s' m'" "new_chunk hash R c it' s' m'" by blast
      with 2 eq s4(1) mem_step_trans [OF st4 this(2)] show ?thesis by auto
    next
      case 3
      have "new_chunk hash R c NULL s3 m3" by (simp add: new_chunk_def)
      with 3 eq mem_step_mono [OF st3] show ?thesis by auto
    qed
  qed
qed

text \<open>The class has nothing to give: no free chunk and, where the tail of the queue is not looked at first, no new page.\<close>

definition no_memory :: "uint64 \<Rightarrow> nat \<Rightarrow> 'a slabs_scheme \<Rightarrow> bool" where
  "no_memory nt c s \<longleftrightarrow> sl_curr (cls s c) = 0 \<and> (lru_segmented (settings s) \<longrightarrow> (\<exists>t. slabs_alloc nt c 0 s = Some (t, NULL)))"

lemma free_slots:
  assumes "slab_inv s F H" "c \<in> {1..power_largest s}"
  shows "sl_curr (cls s c) = 0 \<longleftrightarrow> sc_slots (cls s c) = NULL"
proof -
  have f: "free_list s c (F c)" using assms by (simp add: slab_inv_def free_ok_def)
  have "unat (sl_curr (cls s c)) = length (F c)" using f by (simp add: free_list_def)
  moreover have "hd (F c) \<noteq> NULL" if "F c \<noteq> []" using free_listD(2) [OF f] that hd_in_set by metis
  ultimately show ?thesis using free_listD(3) [OF f] by (auto simp: unat_eq_0 [symmetric])
qed

lemma alloc_pull_first:
  assumes inv: "items_inv hash s m Q F H R" and pre: "pull_pre s m R" and ap: "alloc_pre (Suc n) c s"
    and e: "alloc_pull_loop hash nt c (Suc n) s = Some (s', NULL, i)"
  shows "no_memory nt c s"
proof -
  have id: "c < 64" "c \<in> {1..power_largest s}" using ap by (simp_all add: alloc_pre_def)
  obtain s1 m1 where s1: "(if \<not> lru_segmented (settings s) then map_option fst (lru_pull_tail hash c COLD_LRU 0 0 0 s) else Some s) = Some s1"
    "\<exists>Q F H. items_inv hash s1 m1 Q F H R" "geo_kept s s1" "lru_segmented (settings s) \<longrightarrow> s1 = s"
  proof (cases "lru_segmented (settings s)")
    case True
    with inv that show thesis by fastforce
  next
    case False
    from pull_step [OF inv pre id(1), of COLD_LRU 0 0 0] obtain t r m1 where "lru_pull_tail hash c COLD_LRU 0 0 0 s = Some (t, r, None)"
      "mem_step hash R 0 s m t m1" "geo_kept s t" by auto
    with False that mem_step_inv [of hash R 0 s m t m1] show thesis by simp
  qed
  obtain Q1 F1 H1 where i1: "items_inv hash s1 m1 Q1 F1 H1 R" using s1(2) by blast
  have ap1: "alloc_pre (Suc n) c s1" by (rule alloc_pre_geo [OF ap s1(3)])
  have c1: "c \<in> {1..power_largest s1}" "mem_base s1 = NULL" "class_room s1 c" using ap1 class_rooms_room by (auto simp: alloc_pre_def)
  from alloc_inv [OF items_invD(4) [OF i1] c1, of nt 0] obtain s2 p where a: "slabs_alloc nt c 0 s1 = Some (s2, p)" "p = NULL \<Longrightarrow> sl_curr (cls s1 c) = 0" by metis
  have p: "p = NULL" using e s1(1) a(1) by (auto split: if_split_asm)
  have "sc_slots (cls s1 c) = NULL" using free_slots [OF items_invD(4) [OF i1] c1(1)] a(2) p by simp
  then have "sc_slots (cls s c) = NULL" using s1(3) by (auto simp: geo_kept_def slots_kept_def)
  then have "sl_curr (cls s c) = 0" using free_slots [OF items_invD(4) [OF inv] id(2)] by simp
  then show ?thesis using s1(4) a(1) p by (auto simp: no_memory_def)
qed

lemma do_item_alloc_pull_inv:
  assumes "items_inv hash s m Q F H R" "pull_pre s m R" "alloc_pre 10 c s"
  shows "\<exists>s' it m'. do_item_alloc_pull hash nt c s = Some (s', it) \<and> mem_step hash R 10 s m s' m' \<and> new_chunk hash R c it s' m' \<and>
    (it = NULL \<longrightarrow> no_memory nt c s)"
proof -
  from alloc_pull_loop_inv [OF assms] obtain s' it i m' where a: "alloc_pull_loop hash nt c 10 s = Some (s', it, i)"
    "mem_step hash R 10 s m s' m'" "new_chunk hash R c it s' m'" by blast
  have e: "Suc 9 = 10" by simp
  have "it = NULL \<longrightarrow> no_memory nt c s" using alloc_pull_first [OF assms(1,2), of 9 c nt s' i, unfolded e, OF assms(3)] a(1) by simp
  moreover define f where "f = (\<lambda>t :: itemstats_t. t\<lparr>direct_reclaims := direct_reclaims t + of_nat i\<rparr>)"
  have h: "heap (upd_stat c f s') = heap s'" by (simp add: upd_stat_def)
  have "mem_step hash R 10 s m (upd_stat c f s') m'"
    using a(2) upd_stat_life [of "ran m'" s s'] upd_stat_kept [of "live m' R" s s'] by (simp add: mem_step_def upd_stat_inv kept_def)
  moreover have "new_chunk hash R c it (upd_stat c f s') m'" using a(3) by (simp add: new_chunk_def upd_stat_inv h)
  ultimately show ?thesis using a unfolding do_item_alloc_pull_def f_def by (cases "i > 0") auto
qed

section \<open>A new item\<close>

lemma of_nat_low6:
  assumes "c < 64"
  shows "(of_nat c :: byte) AND 63 = of_nat c"
proof -
  have u: "unat (of_nat c :: byte) = c" using assms by (simp add: unat_of_nat)
  have "unat (take_bit 6 (of_nat c :: byte)) = take_bit 6 c" by (metis u unsigned_take_bit_eq)
  then have "take_bit 6 (of_nat c :: byte) = of_nat c" using assms u by (simp add: word_unat_eq_iff take_bit_nat_eq_self)
  then show ?thesis by (simp add: take_bit_eq_mask mask_eq_exp_minus_1)
qed

lemma clsid_or_lru:
  assumes "c < 64" "lru = WARM_LRU \<or> lru = COLD_LRU \<or> lru = HOT_LRU \<or> lru = TEMP_LRU"
  shows "(of_nat c OR lru :: byte) AND NOT (push_bit 6 3) = of_nat c" "(of_nat c OR lru :: byte) AND push_bit 6 3 = lru"
proof -
  have m: "NOT 192 = (63 :: byte)" "push_bit 6 3 = (192 :: byte)" by simp_all
  have l: "lru AND 63 = 0" "lru AND 192 = lru" using assms(2) by auto
  show "(of_nat c OR lru :: byte) AND NOT (push_bit 6 3) = of_nat c"
    unfolding m bit.conj_disj_distrib2 l of_nat_low6 [OF assms(1)] by simp
  have "(of_nat c :: byte) AND 192 = (of_nat c AND 63) AND 192" unfolding of_nat_low6 [OF assms(1)] ..
  then have "(of_nat c :: byte) AND 192 = 0" by (simp add: and.assoc)
  then show "(of_nat c OR lru :: byte) AND push_bit 6 3 = lru" unfolding m bit.conj_disj_distrib2 l by simp
qed

lemma small_ucast: "n < 256 \<Longrightarrow> ucast (of_nat n :: byte) = (of_nat n :: uint64)" "n < 256 \<Longrightarrow> ucast (of_nat n :: uint64) = (of_nat n :: byte)"
  by (simp_all add: word_unat_eq_iff unat_of_nat unat_ucast)

text \<open>
  An item of this size fits a chunk: it is within \<^verbatim>\<open>slab_chunk_size_max\<close>, and so are the chunks of the largest class, which is how
  \<^verbatim>\<open>slabs_init\<close> makes that class. Memory comes from \<^verbatim>\<open>malloc\<close>, and the page list of the class can take ten more pages.
\<close>

definition fit_pre :: "uint64 \<Rightarrow> 'a slabs_scheme \<Rightarrow> bool" where
  "fit_pre nt s \<longleftrightarrow> nt \<le> word_of_int (slab_chunk_size_max (settings s)) \<and> nt \<le> ucast (sc_size (cls s (power_largest s))) \<and>
    mem_base s = NULL \<and> class_rooms 10 (slabs_clsid_of s nt) s"

lemma fit_class:
  assumes "slab_inv s F H" "slabs_clsid_of s nt = c" "c \<noteq> 0" "fit_pre nt s"
  shows "alloc_pre 10 c s" "nt \<le> ucast (sc_size (cls s c))" "\<forall>d \<in> {1..<c}. ucast (sc_size (cls s d)) < nt"
proof -
  have p: "1 \<le> power_largest s" "power_largest s < 64" "length (slabclass s) = 64" using assms(1) by (simp_all add: slab_inv_def free_ok_def class_ok_def)
  note l = slabs_clsid_least [OF p(1), of nt, unfolded assms(2) slabs_size_def] and f = assms(4) [unfolded fit_pre_def assms(2)]
  have c: "c \<in> {1..power_largest s}" "\<forall>d. 1 \<le> d \<and> d < c \<longrightarrow> ucast (sc_size (cls s d)) < nt" "c < power_largest s \<longrightarrow> nt \<le> ucast (sc_size (cls s c))"
    using l assms(3) by blast+
  show "alloc_pre 10 c s" using f p c(1) by (simp add: alloc_pre_def)
  show "\<forall>d \<in> {1..<c}. ucast (sc_size (cls s d)) < nt" using c(2) by simp
  show "nt \<le> ucast (sc_size (cls s c))" using c(1,3) f by (cases "c = power_largest s") auto
qed

text \<open>The header written by \<^verbatim>\<open>do_item_alloc\<close> to a chunk with a cleared flag word.\<close>

lemma item_header_fields:
  assumes n: "length key \<le> 250" and x: "it_flags x = 0" and c: "c < 64"
    and nt: "item_ntotal_of (of_nat (length key)) flags nb s = (ntotal, nsuffix)"
    and y: "y = (item_header key flags et nb nsuffix c s x)\<lparr>h_next := NULL\<rparr>"
  shows "key_of y = key" "key_wf y" "nbytes y = nb" "exptime y = et" "FLAGS_CONV y = flags" "ITEM_ntotal y = ntotal" "ITEM_clsid y = of_nat c"
    "\<not> has_flag ITEM_CHUNKED y" "\<not> has_flag ITEM_LINKED y" "refcount y = refcount x" "it_flags y = it_flags (item_header key flags et nb nsuffix c s x)"
    "has_flag ITEM_CAS y = use_cas (settings s)" "ITEM_lruid y = new_lru et s" "idata y = idata x" "it_flags y AND (ITEM_SLABBED OR ITEM_CHUNK) = 0"
proof -
  have ns: "nsuffix = (if flags = 0 then 0 else 4)" using nt by (auto simp: item_ntotal_of_def item_make_header_def Let_def)
  have fl: "it_flags y = (if use_cas (settings s) then 2 else 0) OR (if flags = 0 then 0 else 256)" using x ns by (simp add: y item_header_def)
  have u: "unat (of_nat (length key) :: byte) = length key" using n by (simp add: unat_of_nat)
  show "key_of y = key" "key_wf y" "nbytes y = nb" "exptime y = et" "refcount y = refcount x" "idata y = idata x"
    "it_flags y = it_flags (item_header key flags et nb nsuffix c s x)"
    using u by (simp_all add: y item_header_def key_of_def key_wf_def)
  have f: "has_flag ITEM_CFLAGS y = (flags \<noteq> 0)" "has_flag ITEM_CAS y = use_cas (settings s)" "\<not> has_flag ITEM_CHUNKED y" "\<not> has_flag ITEM_LINKED y"
    by (simp_all add: has_flag_def fl)
  show "it_flags y AND (ITEM_SLABBED OR ITEM_CHUNK) = 0" by (simp add: fl)
  from f show "has_flag ITEM_CAS y = use_cas (settings s)" "\<not> has_flag ITEM_CHUNKED y" "\<not> has_flag ITEM_LINKED y" by simp_all
  show "FLAGS_CONV y = flags" using f ns by (auto simp: FLAGS_CONV_def y item_header_def)
  have e: "of_nat (length key) + 1 = (of_nat (length key + 1) :: uint64)" by simp
  have n1: "length key < 256" "length key + 1 < 256" using n by simp_all
  have "ucast (ucast (of_nat (length key) + 1 :: uint64) :: byte) = (of_nat (length key) + 1 :: uint64)"
    unfolding e small_ucast(2) [OF n1(2)] small_ucast(1) [OF n1(2)] ..
  moreover have "ntotal = 48 + ucast (ucast (of_nat (length key) + 1 :: uint64) :: byte) + ucast nsuffix + word_of_int nb + (if use_cas (settings s) then 8 else 0)"
    using nt by (auto simp: item_ntotal_of_def item_make_header_def Let_def split: if_splits)
  moreover have "ITEM_ntotal y = 48 + ucast (nkey y) + 1 + word_of_int (nbytes y) + (if flags \<noteq> 0 then 4 else 0) + (if use_cas (settings s) then 8 else 0)"
    by (simp add: ITEM_ntotal_def f)
  moreover have "ucast (nkey y) = (of_nat (length key) :: uint64)" "nbytes y = nb" using small_ucast(1) [OF n1(1)] by (simp_all add: y item_header_def)
  moreover have "ucast nsuffix = (if flags \<noteq> 0 then 4 else 0 :: uint64)" using ns by simp
  ultimately show "ITEM_ntotal y = ntotal" by (simp add: algebra_simps)
  have l: "new_lru et s = WARM_LRU \<or> new_lru et s = COLD_LRU \<or> new_lru et s = HOT_LRU \<or> new_lru et s = TEMP_LRU" by (simp add: new_lru_def)
  have sc: "slabs_clsid y = of_nat c OR new_lru et s" by (simp add: y item_header_def)
  show "ITEM_clsid y = of_nat c" "ITEM_lruid y = new_lru et s" unfolding ITEM_clsid_def ITEM_lruid_def sc by (rule clsid_or_lru [OF c l])+
qed

lemma do_item_alloc_inv:
  assumes inv: "items_inv hash s m Q F H R" and pre: "pull_pre s m R" and key: "length key \<le> 250"
    and size: "item_ntotal_of (of_nat (length key)) flags nb s = (ntotal, nsuffix)"
    and fit: "item_size_ok (of_nat (length key)) flags nb s \<longrightarrow> fit_pre ntotal s" and c: "c = slabs_clsid_of s ntotal"
  shows "if \<not> item_size_ok (of_nat (length key)) flags nb s then do_item_alloc hash key flags et nb s = Some (s, NULL)
    else \<exists>s' it m'. do_item_alloc hash key flags et nb s = Some (s', it) \<and> data_kept (live m' R) s s' \<and> lost_upto 10 s m m' \<and>
      (if it = NULL then no_memory ntotal c s \<and> (\<exists>Q F H. items_inv hash s' m' Q F H R)
       else (\<exists>Q F H. items_inv hash s' m' Q F H (R(it := 1))) \<and> it \<notin> ran m' \<and> R it = 0 \<and>
         key_of (heap s' it) = key \<and> nbytes (heap s' it) = nb \<and> exptime (heap s' it) = et \<and> FLAGS_CONV (heap s' it) = flags \<and>
         ITEM_ntotal (heap s' it) = ntotal \<and> unat (ITEM_clsid (heap s' it)) = c \<and> ntotal \<le> ucast (sc_size (cls s c)) \<and>
         (\<forall>d \<in> {1..<c}. ucast (sc_size (cls s d)) < ntotal))"
proof (cases "item_size_ok (of_nat (length key)) flags nb s")
  case False
  then have "do_item_alloc hash key flags et nb s = Some (s, NULL)" using size by (auto simp: item_size_ok_def do_item_alloc_def split: if_splits)
  with False show ?thesis by simp
next
  case True
  then have nb: "\<not> nb < 2" "c \<noteq> 0" using size c by (auto simp: item_size_ok_def split: if_splits)
  have fp: "fit_pre ntotal s" using True fit by simp
  note c' = c fit_class [OF items_invD(4) [OF inv] c [symmetric] nb(2) fp]
  from do_item_alloc_pull_inv [OF inv pre c'(2), of ntotal] obtain s1 it m' where a: "do_item_alloc_pull hash ntotal c s = Some (s1, it)"
    "mem_step hash R 10 s m s1 m'" "new_chunk hash R c it s1 m'" "it = NULL \<longrightarrow> no_memory ntotal c s" by blast
  have k1: "kept m' R s s1" and l1: "lost_upto 10 s m m'" using a(2) by (simp_all add: mem_step_def)
  have large: "\<not> ntotal > word_of_int (slab_chunk_size_max (settings s))" using fp by (simp add: fit_pre_def not_less)
  have st: "settings s1 = settings s" "current_time s1 = current_time s" "power_largest s1 = power_largest s" using k1 by (simp_all add: kept_def data_kept_def)
  show ?thesis
  proof (cases "it = NULL")
    case it: True
    let ?s = "upd_stat c (\<lambda>t. t\<lparr>outofmemory := outofmemory t + 1\<rparr>) s1"
    have "do_item_alloc hash key flags et nb s = Some (?s, NULL)" using nb large a(1) it c'(1) size by (simp add: do_item_alloc_def Let_def)
    moreover have "data_kept (live m' R) s ?s" using k1 by (auto simp: kept_def intro: upd_stat_kept)
    moreover obtain Q1 F1 H1 where "items_inv hash s1 m' Q1 F1 H1 R" using a(2) by (auto simp: mem_step_def)
    then have "items_inv hash ?s m' Q1 F1 H1 R" by (simp add: upd_stat_inv)
    ultimately have "\<exists>s'. do_item_alloc hash key flags et nb s = Some (s', NULL) \<and> data_kept (live m' R) s s' \<and> (\<exists>Q F H. items_inv hash s' m' Q F H R)"
      by blast
    with l1 True a(4) it show ?thesis by (metis (no_types, lifting))
  next
    case it: False
    from a(3) it obtain Q1 F1 H1 where n: "it \<notin> live m' R" "items_inv hash s1 m' Q1 F1 H1 R" "it \<in> H1 c" "it_flags (heap s1 it) = 0" "refcount (heap s1 it) = 1"
      unfolding new_chunk_def by blast
    let ?x = "heap s1 it"
    define y where "y = (item_header key flags et nb nsuffix c s1 ?x)\<lparr>h_next := NULL\<rparr>"
    have cl: "c < 64" "c \<in> {1..power_largest s1}" using c'(2) st by (auto simp: alloc_pre_def)
    have sz1: "item_ntotal_of (of_nat (length key)) flags nb s1 = (ntotal, nsuffix)" using size st by (simp add: item_ntotal_of_def)
    note Y = item_header_fields [OF key n(4) cl(1) sz1 y_def]
    let ?s = "upd_item it (h_next_update (\<lambda>_. NULL)) (upd_item it (item_header key flags et nb nsuffix c s1) s1)"
    have hs: "heap ?s = (heap s1)(it := y)" by (simp add: y_def)
    have nc: "\<not> has_flag ITEM_CHUNKED (item_header key flags et nb nsuffix c s1 ?x)" using Y(8) by (simp add: y_def has_flag_def)
    have al: "do_item_alloc hash key flags et nb s = Some (?s, it)" using nb large a(1) it c'(1) size nc by (simp add: do_item_alloc_def Let_def)
    have cc: "unat (ITEM_clsid y) = c" using Y(7) cl(1) by (simp add: unat_of_nat)
    have ok: "item_ok m' H1 (power_largest s1) (R(it := 1)) it y"
      using Y(2,8,9,10,15) n(1,3,5) cl(2) cc by (simp add: item_ok_def live_def)
    have i: "items_inv hash ?s m' Q1 F1 H1 (R(it := 1))"
      by (rule adopt_inv [OF n(2,1,3) cl(2) ok hs]) (simp_all add: same_tables_def)
    have "data_kept (live m' R) s1 ?s" by (rule data_keptI) (use n(1) in auto)
    then have dk: "data_kept (live m' R) s ?s" using k1 unfolding kept_def by (blast intro: data_kept_tr)
    have y: "heap ?s it = y" unfolding hs by simp
    have "(\<exists>Q F H. items_inv hash ?s m' Q F H (R(it := 1))) \<and> it \<notin> ran m' \<and> R it = 0 \<and>
         key_of (heap ?s it) = key \<and> nbytes (heap ?s it) = nb \<and> exptime (heap ?s it) = et \<and> FLAGS_CONV (heap ?s it) = flags \<and>
         ITEM_ntotal (heap ?s it) = ntotal \<and> unat (ITEM_clsid (heap ?s it)) = c \<and> ntotal \<le> ucast (sc_size (cls s c)) \<and>
         (\<forall>d \<in> {1..<c}. ucast (sc_size (cls s d)) < ntotal)"
      unfolding y cc Y(6) using i n(1) Y(1,3,4,5) c'(3,4) by (auto simp: live_def simp del: upd_item_def)
    with al dk l1 it True show ?thesis by (metis (no_types, lifting))
  qed
qed

section \<open>Properties\<close>

text \<open>
  C15. Memory pressure. A pull of the tail of a queue always returns. It keeps the whole invariant and
  the data of every item that stays or is held by a thread. What it removes from the cache is
  expired or flushed, except for at most one item, and that only when it was told to evict from the
  cold queue; no item in the hands of a thread loses its memory.
\<close>

theorem lru_pull_tail_spec:
  assumes "items_inv hash s m Q F H R" "pull_pre s m R" "orig_id < 64" "c \<in> {HOT_LRU, WARM_LRU, COLD_LRU, TEMP_LRU}"
    "flags AND LRU_PULL_RETURN_ITEM = 0 \<or> c = COLD_LRU \<and> flags AND LRU_PULL_EVICT = 0"
  shows "\<exists>s' n ret m' Q' F' H'. lru_pull_tail hash orig_id c tb flags age s = Some (s', n, ret) \<and>
    items_inv hash s' m' Q' F' H' (case ret of None \<Rightarrow> R | Some (a, _) \<Rightarrow> R(a := R a + 1)) \<and>
    data_kept (live m' R) s s' \<and> m' \<subseteq>\<^sub>m m \<and>
    (\<exists>E. finite E \<and> card E \<le> 1 \<and> (E \<noteq> {} \<longrightarrow> c = COLD_LRU \<and> flags AND LRU_PULL_EVICT \<noteq> 0) \<and>
      (\<forall>k a. m k = Some a \<and> m' k = None \<longrightarrow> k \<in> E \<or> exptime (heap s a) \<noteq> 0 \<and> exptime (heap s a) < current_time s \<or> item_is_flushed (heap s a) s))"
proof -
  from lru_pull_tail_inv [OF assms, of tb age] obtain s' n ret m' Q' F' H' where r: "lru_pull_tail hash orig_id c tb flags age s = Some (s', n, ret)"
    "items_inv hash s' m' Q' F' H' (ret_refs ret R)" "kept m' R s s'" "pull_lost c flags s m m'" by blast
  from r(4) obtain E where E: "E = {} \<or> c = COLD_LRU \<and> flags AND LRU_PULL_EVICT \<noteq> 0 \<and> (\<exists>k. E = {k})" "m' \<subseteq>\<^sub>m m"
    "\<forall>k a. m k = Some a \<and> m' k = None \<longrightarrow> k \<in> E \<or> pull_expired (heap s a) s" unfolding pull_lost_def by blast
  have "finite E" "card E \<le> 1" "E \<noteq> {} \<longrightarrow> c = COLD_LRU \<and> flags AND LRU_PULL_EVICT \<noteq> 0" using E(1) by auto
  moreover note E(3) [unfolded pull_expired_def]
  moreover have "data_kept (live m' R) s s'" using r(3) by (simp add: kept_def)
  ultimately show ?thesis using r(1) r(2) [unfolded ret_refs_def] E(2) by blast
qed

definition demo_lru :: lru where
  "demo_lru = demo_items \<lparr>trylock_supply = replicate 20 True\<rparr>"

lemmas demo_lru_inv = demo_items_inv [of "\<lparr>trylock_supply = replicate 20 True\<rparr>", folded demo_lru_def]

lemma link_geo: "geo_kept s (do_item_link a hv s)"
proof -
  obtain h where e: "do_item_link a hv s = (refcount_incr a (do_item_link_q a (assoc_insert a hv (link_start a s))))\<lparr>stats_sizes_hist := h\<rparr>"
    using do_item_link_eq by blast
  have ls: "geo_kept s (link_start a s)" by (simp add: geo_kept_def link_start_def slots_kept_same Let_def)
  have ai: "geo_kept t (assoc_insert a hv t)" for t :: "'a items_scheme" 
    by (simp add: geo_kept_def assoc_insert_def set_pos_def slots_kept_same Let_def split: hpos.splits)
  from geo_kept_trans [OF geo_kept_trans [OF ls ai] geo_kept_trans [OF step_geo(2) step_geo(6)]]
  have "geo_kept s (refcount_incr a (do_item_link_q a (assoc_insert a hv (link_start a s))))" .
  then show ?thesis unfolding e geo_kept_def by (simp add: slots_kept_def)
qed

lemma demo_lru_fields:
  "settings demo_lru = demo_settings" "power_largest demo_lru = 1" "mem_base demo_lru = NULL" "map geo (slabclass demo_lru) = map geo (slabclass demo_large)"
proof -
  let ?z = "\<lparr>trylock_supply = replicate 20 True\<rparr>"
  have g: "geo_kept (demo_items0 ?z) demo_lru" unfolding demo_lru_def demo_items_def by (rule link_geo)
  have "settings (demo_items0 ?z) = demo_settings" "power_largest (demo_items0 ?z) = 1" "mem_base (demo_items0 ?z) = NULL"
    "slabclass (demo_items0 ?z) = slabclass demo_large"
    by (simp_all add: demo_items0_def demo_large_def demo_slabs_def assoc.extend_def slabs.extend_def rebal.extend_def)
  with g show "settings demo_lru = demo_settings" "power_largest demo_lru = 1" "mem_base demo_lru = NULL"
    "map geo (slabclass demo_lru) = map geo (slabclass demo_large)" by (simp_all add: geo_kept_def)
qed

lemma demo_lru_pre: "pull_pre demo_lru [[65] \<mapsto> 4096] demo_R"
proof -
  have "key_of (heap demo_lru 4096) = [65]" by (rule assoc_key [OF items_invD(1) [OF demo_lru_inv]]) simp
  then have "nkey (heap demo_lru 4096) \<noteq> 0" by (auto simp: key_of_def)
  then show ?thesis by (simp add: pull_pre_def demo_lru_fields demo_settings_def)
qed

theorem lru_pull_tail_spec_witness:
  "\<exists>s' n ret m'. lru_pull_tail demo_hash 1 COLD_LRU 0 LRU_PULL_EVICT 0 demo_lru = Some (s', n, ret) \<and> m' \<subseteq>\<^sub>m [[65] \<mapsto> 4096] \<and>
    data_kept (live m' demo_R) demo_lru s'"
  using lru_pull_tail_spec [OF demo_lru_inv demo_lru_pre, of 1 COLD_LRU LRU_PULL_EVICT 0 0]
  by simp blast

text \<open>
  C16. Allocating an item of at most a chunk. The call always returns: nothing when the size is not
  acceptable; otherwise a chunk that no one holds, with the key, client flags,
  expiration time and length asked for, one reference, and the smallest class whose chunks are as large as
  the item. Without memory it returns nothing, but only when the class had no free chunk and, under the
  segmented queues, no new page could be had for it. To make room it evicts at most ten items that are not expired or flushed.
\<close>

theorem item_alloc_spec:
  assumes inv: "items_inv hash s m Q F H R" and pre: "pull_pre s m R" and key: "length key \<le> 250"
    and size: "item_ntotal_of (of_nat (length key)) flags nb s = (ntotal, nsuffix)"
    and fit: "item_size_ok (of_nat (length key)) flags nb s \<longrightarrow> fit_pre ntotal s" and c: "c = slabs_clsid_of s ntotal"
  shows "if \<not> item_size_ok (of_nat (length key)) flags nb s then do_item_alloc hash key flags et nb s = Some (s, NULL)
    else \<exists>s' it m'. do_item_alloc hash key flags et nb s = Some (s', it) \<and> data_kept (live m' R) s s' \<and> lost_upto 10 s m m' \<and>
      (if it = NULL then no_memory ntotal c s \<and> (\<exists>Q F H. items_inv hash s' m' Q F H R)
       else (\<exists>Q F H. items_inv hash s' m' Q F H (R(it := 1))) \<and> it \<notin> ran m' \<and> R it = 0 \<and>
         key_of (heap s' it) = key \<and> nbytes (heap s' it) = nb \<and> exptime (heap s' it) = et \<and> FLAGS_CONV (heap s' it) = flags \<and>
         ITEM_ntotal (heap s' it) = ntotal \<and> unat (ITEM_clsid (heap s' it)) = c \<and> ntotal \<le> ucast (sc_size (cls s c)) \<and>
         (\<forall>d \<in> {1..<c}. ucast (sc_size (cls s d)) < ntotal))"
  by (rule do_item_alloc_inv [OF assms])

text \<open>A second page for the class of the example: one of its chunks is free, the other is held by nobody we name.\<close>

definition widen :: "'a items_scheme \<Rightarrow> 'a items_scheme" where
  "widen s = s\<lparr>heap := (heap s)(8192 := item0\<lparr>it_flags := ITEM_SLABBED, slabs_clsid := 1\<rparr>),
     slabclass := (slabclass s)[1 := slabclass0\<lparr>sc_size := 512, perslab := 2, slabs_n := 2, slab_list := [4096, 8192], list_size := 2,
       sc_slots := 8192, sl_curr := 1\<rparr>]\<rparr>"

lemma demo_class: "length (slabclass demo_large) = 64" "cls demo_large 0 = slabclass0"
  by (simp_all add: demo_large_def demo_slabs_def assoc.extend_def)

lemma widen_inv:
  assumes inv: "items_inv hash s m Q (\<lambda>_. []) demo_H R"
    and f: "slabclass s = slabclass demo_large" "power_largest s = 1" "settings s = demo_settings" "malloc_supply s = []"
  shows "items_inv hash (widen s) m Q ((\<lambda>_. [])(1 := [8192])) ((\<lambda>_. {})(1 := {4096, 4608, 8704})) R"
proof -
  let ?s = "widen s" and ?H = "(\<lambda>_. {})(1 := {4096, 4608, 8704}) :: nat \<Rightarrow> addr set"
  note I = items_invD [OF inv]
  have g: "power_largest ?s = 1" "length (slabclass ?s) = 64" "settings ?s = demo_settings" "malloc_supply ?s = []"
    and c1: "cls ?s 1 = slabclass0\<lparr>sc_size := 512, perslab := 2, slabs_n := 2, slab_list := [4096, 8192], list_size := 2, sc_slots := 8192, sl_curr := 1\<rparr>"
    and c0: "cls ?s 0 = slabclass0"
    using demo_class by (simp_all add: widen_def f)
  have h: "heap ?s 8192 = item0\<lparr>it_flags := ITEM_SLABBED, slabs_clsid := 1\<rparr>" by (simp add: widen_def)
  have ow: "owners ?s = {0, 1, 64}" by (auto simp: owners_def g)
  have pg: "pages ?s 0 = []" "pages ?s 1 = [4096, 8192]" "pages ?s 64 = []" using c0 c1 by (simp_all add: pages_def g slabclass0_def)
  have ex: "extent ?s 0 = 1024" "extent ?s 1 = 1024" "extent ?s 64 = 1024" using c1 by (simp_all add: extent_def g demo_settings_def)
  have "free_list ?s 1 [8192]" using c1 h by (simp add: free_list_def slabclass0_def item0_def)
  then have "free_ok ?s ((\<lambda>_. [])(1 := [8192]))" by (simp add: free_ok_def class_ok_def g)
  moreover have "disj_pages (owners ?s) (pages ?s) (extent ?s)"
    unfolding ow by (auto simp: disj_pages_def pg [unfolded One_nat_def] ex [unfolded One_nat_def] region_def)
  moreover have "{..<2::nat} = {0, 1}" by auto
  then have "chunks ?s 1 = {4096, 4608, 8192, 8704}" using pg(2) c1 by (auto simp: chunks_def chunk_at_def)
  moreover have "list_wf (cls ?s 0)" "list_wf (cls ?s 1)" using c0 c1 by (simp_all add: list_wf_def slabclass0_def)
  moreover have "{0..1 :: nat} = {0, 1}" by auto
  ultimately have si: "slab_inv ?s ((\<lambda>_. [])(1 := [8192])) ?H"
    using ex pg unfolding slab_inv_def page_ok_def ow by (auto simp: g demo_settings_def)
  have l: "a \<noteq> 8192" if "a \<in> live m R" for a
    using live_held(3,4) [OF inv that] f(2) by auto
  have hp: "heap ?s a = heap s a" if "a \<in> live m R" for a using l [OF that] by (simp add: widen_def)
  have lm: "a \<in> live m R" if "a \<in> ran m" for a using that by (simp add: live_def)
  have t: "hashpower ?s = hashpower s" "primary_hashtable ?s = primary_hashtable s" "old_hashtable ?s = old_hashtable s"
    "expanding ?s = expanding s" "expand_bucket ?s = expand_bucket s" "heads ?s = heads s" "tails ?s = tails s" "lru_sizes ?s = lru_sizes s"
    "sizes_bytes ?s = sizes_bytes s" "curr_items ?s = curr_items s" "curr_bytes ?s = curr_bytes s"
    by (simp_all add: widen_def)
  have "assoc_abs hash ?s m" by (rule assoc_abs_frame [OF I(1)]) (use t hp lm in auto)
  moreover have "lru_ok ?s Q" by (rule lru_ok_frame [OF I(2)]) (use t hp lm I(3) in auto)
  moreover have "no_overflow ?s" using c1 by (simp add: no_overflow_def g slabclass0_def)
  moreover have "item_ok m ?H (power_largest ?s) R a (heap ?s a)" if a: "a \<in> live m R" for a
    using I(6) [OF a] hp [OF a] by (auto simp: item_ok_def g f split: if_splits)
  moreover have "(\<Sum>a \<in> ran m. ITEM_ntotal (heap ?s a)) = (\<Sum>a \<in> ran m. ITEM_ntotal (heap s a))" by (rule sum.cong) (use hp lm in auto)
  ultimately show ?thesis using si I(3,7,8) t by (simp add: items_inv_def)
qed

lemma widen_fields:
  assumes f: "slabclass s = slabclass demo_large" "power_largest s = 1" "settings s = demo_settings" "mem_base s = NULL"
    and n: "n \<le> 512" "n \<noteq> 0"
  shows "slabs_clsid_of (widen s) n = 1" "fit_pre n (widen s)" "\<not> no_memory n 1 (widen s)"
proof -
  have g: "power_largest (widen s) = 1" "settings (widen s) = demo_settings" "mem_base (widen s) = NULL"
    and c1: "cls (widen s) 1 = slabclass0\<lparr>sc_size := 512, perslab := 2, slabs_n := 2, slab_list := [4096, 8192], list_size := 2, sc_slots := 8192, sl_curr := 1\<rparr>"
    using demo_class by (simp_all add: widen_def f)
  have le: "\<not> 1024 < n" "\<not> 512 < n" using n(1) order_trans [OF n(1), of 1024] by (auto simp: not_less)
  show cl: "slabs_clsid_of (widen s) n = 1"
    using le n c1 by (simp add: slabs_clsid_of_def g demo_settings_def) (subst clsid_loop.simps, simp add: slabclass0_def)
  show "fit_pre n (widen s)" unfolding fit_pre_def cl class_rooms_def g(1) c1 using n(1) by (simp add: g demo_settings_def slabclass0_def)
  show "\<not> no_memory n 1 (widen s)" unfolding no_memory_def c1 by (simp add: slabclass0_def)
qed

lemma demo_lru_classes: "slabclass demo_lru = slabclass demo_large" "malloc_supply demo_lru = []"
  unfolding demo_lru_def demo_items_def do_item_link_tables
  by (simp_all add: demo_items0_def demo_large_def demo_slabs_def assoc.extend_def slabs.extend_def rebal.extend_def)

theorem item_alloc_spec_witness:
  "\<exists>s' it m'. do_item_alloc demo_hash [66] 7 0 2 (widen demo_lru) = Some (s', it) \<and> lost_upto 10 (widen demo_lru) [[65] \<mapsto> 4096] m' \<and>
    it \<noteq> NULL \<and> key_of (heap s' it) = [66] \<and> FLAGS_CONV (heap s' it) = 7 \<and> unat (ITEM_clsid (heap s' it)) = 1"
proof -
  let ?s = "widen demo_lru"
  note w = widen_fields [OF demo_lru_classes(1) demo_lru_fields(2,1,3), of 64, simplified]
  have st: "settings ?s = demo_settings" by (simp add: widen_def demo_lru_fields)
  have p: "pull_pre ?s [[65] \<mapsto> 4096] demo_R" using demo_lru_pre by (simp add: pull_pre_def widen_def)
  have sz: "item_ntotal_of (of_nat (length [66 :: byte])) 7 2 ?s = (64, 4)" "length [66 :: byte] \<le> 250"
    by (simp_all add: item_ntotal_of_def item_make_header_def st demo_settings_def)
  have ok: "item_size_ok (of_nat (length [66 :: byte])) 7 2 ?s" unfolding item_size_ok_def sz fst_conv w(1) by simp
  note i = widen_inv [OF demo_lru_inv demo_lru_classes(1) demo_lru_fields(2,1) demo_lru_classes(2)]
  from item_alloc_spec [OF i p sz(2,1) _ w(1) [symmetric], of 0] w(2,3) ok obtain s' it m' where
    a: "do_item_alloc demo_hash [66] 7 0 2 ?s = Some (s', it)" "lost_upto 10 ?s [[65] \<mapsto> 4096] m'" "it \<noteq> NULL"
      "key_of (heap s' it) = [66]" "FLAGS_CONV (heap s' it) = 7" "unat (ITEM_clsid (heap s' it)) = 1" by (auto split: if_split_asm)
  then show ?thesis by blast
qed

end
