(* ===== verification/Store_Ops.thy ===== *)
theory Store_Ops
  imports Items_Lru Util_C
begin

text \<open>
  The commands that change a value: \<^verbatim>\<open>do_store_item\<close> and \<^verbatim>\<open>do_add_delta\<close> of \<^verbatim>\<open>memcached.c\<close> with the helpers that
  copy data between items, the limits on fetches, and the item functions of \<^verbatim>\<open>thread.c\<close> that take the
  item lock around them. They compose the hash table, the LRU, the allocator and the number helpers.
  Counters of the worker thread are kept per slab class; log records are not modelled.
\<close>

section \<open>State\<close>

text \<open>What the code reads and writes of the connection and of the counters of its thread.\<close>

record store = lru +
  set_stale :: bool
  conn_cas :: uint64
  cas_hits :: "byte \<Rightarrow> uint64"
  cas_badval :: "byte \<Rightarrow> uint64"
  incr_hits :: "byte \<Rightarrow> uint64"
  decr_hits :: "byte \<Rightarrow> uint64"
  cas_misses :: uint64

datatype nread = NREAD_ADD | NREAD_SET | NREAD_REPLACE | NREAD_APPEND | NREAD_PREPEND | NREAD_CAS

datatype store_item_type = NOT_STORED | STORED | EXISTS | NOT_FOUND | TOO_LARGE | NO_MEMORY

datatype delta_result_type = OK | NON_NUMERIC | EOM | DELTA_ITEM_NOT_FOUND | DELTA_ITEM_CAS_MISMATCH

datatype cas_result = CAS_NONE | CAS_MATCH | CAS_BADVAL | CAS_STALE | CAS_MISS

abbreviation (input) ITEM_TOKEN_SENT :: "16 word" where "ITEM_TOKEN_SENT \<equiv> 512"
abbreviation (input) ITEM_STALE :: "16 word" where "ITEM_STALE \<equiv> 2048"
abbreviation (input) REALTIME_MAXDELTA :: int where "REALTIME_MAXDELTA \<equiv> 60 * 60 * 24 * 30"
abbreviation (input) IT_REFCOUNT_LIMIT :: "16 word" where "IT_REFCOUNT_LIMIT \<equiv> 60000"

text \<open>\<^verbatim>\<open>time_t\<close> is a signed 64-bit integer; the arguments are the start of the process and the current time.\<close>

definition realtime :: "int \<Rightarrow> uint32 \<Rightarrow> int \<Rightarrow> uint32" where
  "realtime process_started now et =
    (if et = 0 then 0
     else if et > REALTIME_MAXDELTA
     then if et \<le> process_started then 1 else word_of_int (et - process_started)
     else word_of_int (et + uint now))"

definition EXPTIME_TO_POSITIVE_TIME :: "int \<Rightarrow> int" where
  "EXPTIME_TO_POSITIVE_TIME et = (if et < 0 then REALTIME_MAXDELTA + 1 else et)"

section \<open>Copying data between items\<close>

text \<open>The fields of a chunk of a large item lie where an item has other fields (\<^verbatim>\<open>Item_Mem\<close>).\<close>

definition ch_size :: "item \<Rightarrow> int" where "ch_size c = sint (it_time c)"
definition ch_used :: "item \<Rightarrow> int" where "ch_used c = sint (exptime c)"

text \<open>The first chunk with space left, or the last one.\<close>

partial_function (option) free_chunk :: "addr \<Rightarrow> 'a mem_scheme \<Rightarrow> addr option" where
  "free_chunk dch s =
    (if ch_size (heap s dch) = ch_used (heap s dch) \<and> it_next (heap s dch) \<noteq> NULL
     then free_chunk (it_next (heap s dch)) s else Some dch)"

definition fill_chunk :: "addr \<Rightarrow> bytes \<Rightarrow> 'a mem_scheme \<Rightarrow> 'a mem_scheme" where
  "fill_chunk dch bs = upd_item dch (\<lambda>d. d\<lparr>idata := copy_at (idata d) (nat (ch_used d)) bs,
     exptime := word_of_int (ch_used d + int (length bs))\<rparr>)"

text \<open>A full chunk is followed by a new one; \<open>False\<close> when there is no memory for it.\<close>

definition next_chunk :: "(bytes \<Rightarrow> uint32) \<Rightarrow> addr \<Rightarrow> int \<Rightarrow> 'a lru_scheme \<Rightarrow> ('a lru_scheme \<times> addr \<times> bool) option" where
  "next_chunk hash dch remain s =
    (if ch_size (heap s dch) = ch_used (heap s dch)
     then do { (s1, tch) \<leftarrow> do_item_alloc_chunk hash dch (word_of_int remain) s; Some (s1, tch, tch \<noteq> NULL) }
     else Some (s, dch, True))"

partial_function (option) copy_chunked :: "(bytes \<Rightarrow> uint32) \<Rightarrow> addr \<Rightarrow> addr \<Rightarrow> int \<Rightarrow> int \<Rightarrow> 'a lru_scheme \<Rightarrow> ('a lru_scheme \<times> int) option" where
  "copy_chunked hash sch dch copied remain s =
    (if sch \<noteq> NULL \<and> dch \<noteq> NULL \<and> remain \<noteq> 0
     then let room = ch_size (heap s dch) - ch_used (heap s dch);
              left = ch_used (heap s sch) - copied;
              todo0 = (if room < left then room else left);
              todo = (if remain < todo0 then remain else todo0);
              s1 = fill_chunk dch (take (nat todo) (drop (nat copied) (idata (heap s sch)))) s;
              copied1 = copied + todo; remain1 = remain - todo
          in do {
            (s2, dch1, ok) \<leftarrow> next_chunk hash dch remain1 s1;
            if \<not> ok then Some (s2, - 1)
            else if copied1 = ch_used (heap s2 sch) then copy_chunked hash (it_next (heap s2 sch)) dch1 0 remain1 s2
            else copy_chunked hash sch dch1 copied1 remain1 s2
          }
     else Some (s, 0))"

partial_function (option) copy_plain :: "(bytes \<Rightarrow> uint32) \<Rightarrow> addr \<Rightarrow> addr \<Rightarrow> int \<Rightarrow> int \<Rightarrow> 'a lru_scheme \<Rightarrow> ('a lru_scheme \<times> int) option" where
  "copy_plain hash s_it dch len done1 s =
    (if len > done1 \<and> dch \<noteq> NULL
     then let room = ch_size (heap s dch) - ch_used (heap s dch);
              todo = (if room < len - done1 then room else len - done1);
              s1 = fill_chunk dch (take (nat todo) (drop (nat done1) (idata (heap s s_it)))) s
          in do {
            (s2, dch1, ok) \<leftarrow> next_chunk hash dch (len - (done1 + todo)) s1;
            if \<not> ok then Some (s2, - 1) else copy_plain hash s_it dch1 len (done1 + todo) s2
          }
     else Some (s, 0))"

definition store_item_copy_chunks :: "(bytes \<Rightarrow> uint32) \<Rightarrow> addr \<Rightarrow> addr \<Rightarrow> int \<Rightarrow> 'a lru_scheme \<Rightarrow> ('a lru_scheme \<times> int) option" where
  "store_item_copy_chunks hash d_it s_it len s = do {
    dch \<leftarrow> free_chunk (ITEM_schunk d_it (heap s d_it)) s;
    if has_flag ITEM_CHUNKED (heap s s_it) then copy_chunked hash (ITEM_schunk s_it (heap s s_it)) dch 0 len s
    else copy_plain hash s_it dch len 0 s
  }"

text \<open>The bytes of an item that is not in chunks, and writing some.\<close>

definition data_bytes :: "addr \<Rightarrow> 'a mem_scheme \<Rightarrow> bytes" where
  "data_bytes a s = take (nat (nbytes (heap s a))) (idata (heap s a))"

definition put_data :: "addr \<Rightarrow> int \<Rightarrow> bytes \<Rightarrow> 'a mem_scheme \<Rightarrow> 'a mem_scheme" where
  "put_data a off bs = upd_item a (\<lambda>i. i\<lparr>idata := copy_at (idata i) (nat off) bs\<rparr>)"

definition store_item_copy_data :: "(bytes \<Rightarrow> uint32) \<Rightarrow> nread \<Rightarrow> addr \<Rightarrow> addr \<Rightarrow> addr \<Rightarrow> 'a lru_scheme \<Rightarrow> ('a lru_scheme \<times> int) option" where
  "store_item_copy_data hash comm old_it new_it add_it s =
    (if comm = NREAD_APPEND
     then if has_flag ITEM_CHUNKED (heap s new_it)
          then do {
            (s1, r) \<leftarrow> store_item_copy_chunks hash new_it old_it (nbytes (heap s old_it) - 2) s;
            if r = - 1 then Some (s1, - 1) else store_item_copy_chunks hash new_it add_it (nbytes (heap s1 add_it)) s1
          }
          else let s1 = put_data new_it 0 (data_bytes old_it s) s
               in Some (put_data new_it (nbytes (heap s1 old_it) - 2) (data_bytes add_it s1) s1, 0)
     else if has_flag ITEM_CHUNKED (heap s new_it)
          then do {
            (s1, r) \<leftarrow> store_item_copy_chunks hash new_it add_it (nbytes (heap s add_it) - 2) s;
            if r = - 1 then Some (s1, - 1) else store_item_copy_chunks hash new_it old_it (nbytes (heap s1 old_it)) s1
          }
          else let s1 = put_data new_it 0 (data_bytes add_it s) s
               in Some (put_data new_it (nbytes (heap s1 add_it) - 2) (data_bytes old_it s1) s1, 0))"

section \<open>Storing\<close>

definition cas_test :: "bool \<Rightarrow> uint64 \<Rightarrow> uint64 \<Rightarrow> cas_result" where
  "cas_test stale it_cas old_cas =
    (if it_cas = 0 then CAS_NONE else if it_cas = old_cas then CAS_MATCH
     else if stale \<and> it_cas < old_cas then CAS_STALE else CAS_BADVAL)"

text \<open>
  The branch of the command for a key that is stored. The result names the item to store (a new one for
  append and prepend), the new item or NULL, whether to store, and the answer otherwise.
\<close>

definition cas_stale_item :: "addr \<Rightarrow> addr \<Rightarrow> 'a mem_scheme \<Rightarrow> 'a mem_scheme" where
  "cas_stale_item old_it it s =
    (let old = heap s old_it
     in upd_item it (\<lambda>i. i\<lparr>exptime := exptime old,
          it_flags := it_flags i OR ITEM_STALE OR (if has_flag ITEM_TOKEN_SENT old then ITEM_TOKEN_SENT else 0)\<rparr>) s)"

definition store_old :: "(bytes \<Rightarrow> uint32) \<Rightarrow> nread \<Rightarrow> cas_result \<Rightarrow> addr \<Rightarrow> addr \<Rightarrow> 'a store_scheme \<Rightarrow>
    ('a store_scheme \<times> addr \<times> addr \<times> bool \<times> store_item_type) option" where
  "store_old hash comm cas_res old_it it s =
    (let cl = ITEM_clsid (heap s old_it) in
     case comm of
       NREAD_ADD \<Rightarrow> Some (do_item_update old_it s, it, NULL, False, NOT_STORED)
     | NREAD_CAS \<Rightarrow>
         Some (if cas_res = CAS_MATCH
               then (s\<lparr>cas_hits := (cas_hits s)(cl := cas_hits s cl + 1)\<rparr>, it, NULL, True, NOT_STORED)
               else if cas_res = CAS_STALE
               then ((cas_stale_item old_it it s)\<lparr>cas_hits := (cas_hits s)(cl := cas_hits s cl + 1)\<rparr>, it, NULL, True, NOT_STORED)
               else (s\<lparr>cas_badval := (cas_badval s)(cl := cas_badval s cl + 1)\<rparr>, it, NULL, False, EXISTS))
     | NREAD_REPLACE \<Rightarrow> Some (s, it, NULL, True, NOT_STORED)
     | NREAD_SET \<Rightarrow> Some (s, it, NULL, True, NOT_STORED)
     | _ \<Rightarrow>
         if cas_res \<noteq> CAS_NONE \<and> cas_res \<noteq> CAS_MATCH then Some (s, it, NULL, False, EXISTS)
         else if has_flag ITEM_HDR (heap s old_it) then Some (s, it, NULL, False, NOT_STORED)
         else do {
           (s1, new_it) \<leftarrow> do_item_alloc hash (key_of (heap s it)) (FLAGS_CONV (heap s old_it)) (exptime (heap s old_it))
                             (nbytes (heap s it) + nbytes (heap s old_it) - 2) s;
           if new_it = NULL then Some (s1, it, NULL, False, NOT_STORED)
           else do {
             (s2, r) \<leftarrow> store_item_copy_data hash comm old_it new_it it s1;
             Some (if r = - 1 then (s2, it, new_it, False, NOT_STORED) else (s2, new_it, new_it, True, NOT_STORED))
           }
         })"

definition do_store_item :: "(bytes \<Rightarrow> uint32) \<Rightarrow> addr \<Rightarrow> nread \<Rightarrow> nat \<Rightarrow> uint32 \<Rightarrow> 'a store_scheme \<Rightarrow> ('a store_scheme \<times> store_item_type) option" where
  "do_store_item hash it comm th hv s = do {
    (s1, old_it) \<leftarrow> do_item_get (key_of (heap s it)) hv th False s;
    (s2, it2, stored) \<leftarrow>
      (if old_it \<noteq> NULL
       then do {
         (s2, it2, new_it, do_store, stored) \<leftarrow>
           store_old hash comm (cas_test (set_stale s1) (ITEM_get_cas (heap s1 it)) (ITEM_get_cas (heap s1 old_it))) old_it it s1;
         s3 \<leftarrow> (if do_store then do_item_replace old_it it2 hv (STORAGE_delete old_it s2) else Some s2);
         s4 \<leftarrow> do_item_remove old_it s3;
         s5 \<leftarrow> (if new_it \<noteq> NULL then do_item_remove new_it s4 else Some s4);
         Some (s5, it2, if do_store then STORED else stored)
       }
       else case comm of
           NREAD_ADD \<Rightarrow> Some (do_item_link it hv s1, it, STORED)
         | NREAD_SET \<Rightarrow> Some (do_item_link it hv s1, it, STORED)
         | NREAD_CAS \<Rightarrow> Some (s1\<lparr>cas_misses := cas_misses s1 + 1\<rparr>, it, NOT_FOUND)
         | _ \<Rightarrow> Some (s1, it, NOT_STORED));
    Some (if stored = STORED then s2\<lparr>conn_cas := ITEM_get_cas (heap s2 it2)\<rparr> else s2, stored)
  }"

section \<open>Arithmetic on values\<close>

text \<open>\<^verbatim>\<open>ITEM_data\<close> read as a C string, which ends at the first NUL, be it inside the item or behind it.\<close>

definition data_cstr :: "item \<Rightarrow> bytes" where
  "data_cstr x = takeWhile (\<lambda>c. c \<noteq> 0) (idata x)"

definition delta_value :: "bool \<Rightarrow> uint64 \<Rightarrow> uint64 \<Rightarrow> uint64" where
  "delta_value incr delta value = (if incr then value + delta else if delta > value then 0 else value - delta)"

text \<open>The counters of the thread.\<close>

definition delta_count :: "bool \<Rightarrow> addr \<Rightarrow> 'a store_scheme \<Rightarrow> 'a store_scheme" where
  "delta_count incr a s1 =
    (let cl = ITEM_clsid (heap s1 a)
     in if incr then s1\<lparr>incr_hits := (incr_hits s1)(cl := incr_hits s1 cl + 1)\<rparr>
        else s1\<lparr>decr_hits := (decr_hits s1)(cl := decr_hits s1 cl + 1)\<rparr>)"

text \<open>The value changed in place: a new CAS value, the text, and blanks up to the end of the line.\<close>

definition delta_put :: "addr \<Rightarrow> bytes \<Rightarrow> 'a items_scheme \<Rightarrow> 'a items_scheme" where
  "delta_put a t s =
    (let x = heap s a; t1 = item_stats_sizes_remove x s;
         (t2, c) = (if has_flag ITEM_CAS x \<and> use_cas (settings t1) then get_cas_id t1 else (t1, 0));
         t3 = upd_item a (ITEM_set_cas c) t2;
         t4 = item_stats_sizes_add (heap t3 a) t3;
         t5 = put_data a 0 t t4
     in put_data a (int (length t)) (replicate (nat (nbytes x - int (length t) - 2)) 32) t5)"

text \<open>The other case: a new item with the new text takes the place of the old one.\<close>

definition delta_new :: "(bytes \<Rightarrow> uint32) \<Rightarrow> addr \<Rightarrow> bytes \<Rightarrow> uint32 \<Rightarrow> 'a lru_scheme \<Rightarrow> ('a lru_scheme \<times> delta_result_type) option" where
  "delta_new hash it buf hv s =
    (let x = heap s it; res = int (length buf)
     in do {
       (t1, new_it) \<leftarrow> do_item_alloc hash (key_of x) (FLAGS_CONV x) (exptime x) (res + 2) s;
       if new_it = NULL then do { t2 \<leftarrow> do_item_remove it t1; Some (t2, EOM) }
       else do {
         let t2 = put_data new_it res [13, 10] (put_data new_it 0 buf t1);
         t3 \<leftarrow> do_item_replace it new_it hv t2;
         let t4 = upd_item it (ITEM_set_cas (if use_cas (settings t3) then ITEM_get_cas (heap t3 new_it) else 0)) t3;
         t5 \<leftarrow> do_item_remove new_it t4;
         Some (t5, OK)
       }
     })"

text \<open>
  \<open>cas\<close> is the pointer to the CAS value of the request (\<open>None\<close> for a null pointer), \<open>keep\<close> says whether
  \<open>it_ret\<close> was given. The result holds the answer, the response text, the CAS value and the item handed out.
\<close>

definition do_add_delta :: "(bytes \<Rightarrow> uint32) \<Rightarrow> nat \<Rightarrow> bytes \<Rightarrow> bool \<Rightarrow> uint64 \<Rightarrow> uint64 option \<Rightarrow> uint32 \<Rightarrow> bool \<Rightarrow> 'a store_scheme \<Rightarrow>
    ('a store_scheme \<times> delta_result_type \<times> bytes \<times> uint64 option \<times> addr) option" where
  "do_add_delta hash th key incr delta cas hv keep s = do {
    (s1, it) \<leftarrow> do_item_get key hv th False s;
    let x = heap s1 it;
    if it = NULL then Some (s1, DELTA_ITEM_NOT_FOUND, [], cas, NULL)
    else if nbytes x \<le> 2 \<or> it_flags x AND (ITEM_CHUNKED OR ITEM_HDR) \<noteq> 0
    then do { s2 \<leftarrow> do_item_remove it s1; Some (s2, NON_NUMERIC, [], cas, NULL) }
    else if cas \<noteq> None \<and> cas \<noteq> Some 0 \<and> Some (ITEM_get_cas x) \<noteq> cas
    then do { s2 \<leftarrow> do_item_remove it s1; Some (s2, DELTA_ITEM_CAS_MISMATCH, [], cas, NULL) }
    else case safe_strtoull (data_cstr x) of (ok, value0) \<Rightarrow>
      if \<not> ok then do { s2 \<leftarrow> do_item_remove it s1; Some (s2, NON_NUMERIC, [], cas, NULL) }
      else
        let value = delta_value incr delta value0;
            s2 = delta_count incr it s1;
            buf = itoa_u64 value [];
            res = int (length buf)
        in do {
          (s3, res1) \<leftarrow>
            (if res + 2 \<le> nbytes x \<and> refcount x = 2
             then Some (do_item_update it (delta_put it buf s2), OK)
             else if refcount x > 1 then delta_new hash it buf hv s2
             else do {
               t1 \<leftarrow> (if refcount x = 1 then do_item_remove it s2 else Some s2);
               Some (t1, DELTA_ITEM_NOT_FOUND)
             });
          if res1 \<noteq> OK then Some (s3, res1, buf, cas, NULL)
          else let cas1 = (if cas \<noteq> None then Some (ITEM_get_cas (heap s3 it)) else None)
               in if keep then Some (s3, OK, buf, cas1, it)
                  else do { s4 \<leftarrow> do_item_remove it s3; Some (s4, OK, buf, cas1, NULL) }
        }
  }"

section \<open>The functions of the worker threads\<close>

definition item_alloc :: "(bytes \<Rightarrow> uint32) \<Rightarrow> bytes \<Rightarrow> uint32 \<Rightarrow> uint32 \<Rightarrow> int \<Rightarrow> 'a lru_scheme \<Rightarrow> ('a lru_scheme \<times> addr) option" where
  "item_alloc hash key flags et nb s = do_item_alloc hash key flags et nb s"

definition item_get :: "(bytes \<Rightarrow> uint32) \<Rightarrow> bytes \<Rightarrow> nat \<Rightarrow> bool \<Rightarrow> 'a items_scheme \<Rightarrow> ('a items_scheme \<times> addr) option" where
  "item_get hash key th upd s = do_item_get key (hash key) th upd s"

definition item_get_locked :: "(bytes \<Rightarrow> uint32) \<Rightarrow> bytes \<Rightarrow> nat \<Rightarrow> bool \<Rightarrow> 'a items_scheme \<Rightarrow> ('a items_scheme \<times> addr \<times> uint32) option" where
  "item_get_locked hash key th upd s = do { (s1, it) \<leftarrow> do_item_get key (hash key) th upd s; Some (s1, it, hash key) }"

definition item_touch :: "(bytes \<Rightarrow> uint32) \<Rightarrow> bytes \<Rightarrow> uint32 \<Rightarrow> nat \<Rightarrow> 'a items_scheme \<Rightarrow> ('a items_scheme \<times> addr) option" where
  "item_touch hash key et th s = do_item_touch key et (hash key) th s"

definition item_link :: "(bytes \<Rightarrow> uint32) \<Rightarrow> addr \<Rightarrow> 'a items_scheme \<Rightarrow> 'a items_scheme" where
  "item_link hash it s = do_item_link it (hash (key_of (heap s it))) s"

definition item_remove :: "addr \<Rightarrow> 'a slabs_scheme \<Rightarrow> 'a slabs_scheme option" where
  "item_remove it s = do_item_remove it s"

definition item_replace :: "addr \<Rightarrow> addr \<Rightarrow> uint32 \<Rightarrow> 'a items_scheme \<Rightarrow> 'a items_scheme option" where
  "item_replace old_it new_it hv s = do_item_replace old_it new_it hv s"

definition item_unlink :: "(bytes \<Rightarrow> uint32) \<Rightarrow> addr \<Rightarrow> 'a items_scheme \<Rightarrow> 'a items_scheme option" where
  "item_unlink hash it s = do_item_unlink it (hash (key_of (heap s it))) s"

definition add_delta :: "(bytes \<Rightarrow> uint32) \<Rightarrow> nat \<Rightarrow> bytes \<Rightarrow> bool \<Rightarrow> uint64 \<Rightarrow> uint64 option \<Rightarrow> 'a store_scheme \<Rightarrow>
    ('a store_scheme \<times> delta_result_type \<times> bytes \<times> uint64 option) option" where
  "add_delta hash th key incr delta cas s = do {
    (s1, r, buf, cas1, _) \<leftarrow> do_add_delta hash th key incr delta cas (hash key) False s; Some (s1, r, buf, cas1) }"

definition store_item :: "(bytes \<Rightarrow> uint32) \<Rightarrow> addr \<Rightarrow> nread \<Rightarrow> nat \<Rightarrow> 'a store_scheme \<Rightarrow> ('a store_scheme \<times> store_item_type) option" where
  "store_item hash it comm th s = do_store_item hash it comm th (hash (key_of (heap s it))) s"

text \<open>Fetches that give up on an item with too many references; the flag says so.\<close>

definition limited_get :: "(bytes \<Rightarrow> uint32) \<Rightarrow> bytes \<Rightarrow> nat \<Rightarrow> uint32 \<Rightarrow> bool \<Rightarrow> bool \<Rightarrow> 'a items_scheme \<Rightarrow> ('a items_scheme \<times> addr \<times> bool) option" where
  "limited_get hash key th et should_touch do_update s = do {
    (s1, it) \<leftarrow> (if should_touch then item_touch hash key et th s else item_get hash key th do_update s);
    if it \<noteq> NULL \<and> refcount (heap s1 it) > IT_REFCOUNT_LIMIT
    then do { s2 \<leftarrow> item_remove it s1; Some (s2, NULL, True) }
    else Some (s1, it, False)
  }"

definition limited_get_locked :: "(bytes \<Rightarrow> uint32) \<Rightarrow> bytes \<Rightarrow> nat \<Rightarrow> bool \<Rightarrow> 'a items_scheme \<Rightarrow> ('a items_scheme \<times> addr \<times> uint32 \<times> bool) option" where
  "limited_get_locked hash key th do_update s = do {
    (s1, it, hv) \<leftarrow> item_get_locked hash key th do_update s;
    if it \<noteq> NULL \<and> refcount (heap s1 it) > IT_REFCOUNT_LIMIT
    then do { s2 \<leftarrow> do_item_remove it s1; Some (s2, NULL, hv, True) }
    else Some (s1, it, hv, False)
  }"

section \<open>Lemmas\<close>

lemma same_items_inv:
  assumes "items_inv hash s m Q F H R" "heap s' = heap s" "same_tables s s'" "curr_items s' = curr_items s" "curr_bytes s' = curr_bytes s"
  shows "items_inv hash s' m Q F H R"
proof (rule items_inv_tweak [OF assms(1,3,4,5)])
  fix b assume "b \<in> live m R"
  from items_invD(6) [OF assms(1) this] show "unat (refcount (heap s' b)) = R b + (if b \<in> ran m then 1 else 0)"
    by (simp add: assms(2) item_ok_def)
qed (simp_all add: assms(2))

lemma counters_inv:
  fixes s :: "'a store_scheme"
  assumes "items_inv hash s m Q F H R"
  shows "items_inv hash (s\<lparr>cas_hits := f\<rparr>) m Q F H R" "items_inv hash (s\<lparr>cas_badval := f\<rparr>) m Q F H R"
    "items_inv hash (s\<lparr>cas_misses := n\<rparr>) m Q F H R" "items_inv hash (s\<lparr>conn_cas := n\<rparr>) m Q F H R"
    "items_inv hash (s\<lparr>incr_hits := f\<rparr>) m Q F H R" "items_inv hash (s\<lparr>decr_hits := f\<rparr>) m Q F H R"
  by (rule same_items_inv [OF assms]; simp add: same_tables_def)+

text \<open>A fetch that does not bump gives an item that is not dead with one more reference, and nothing else.\<close>

lemma get_alive:
  assumes inv: "items_inv hash s m Q F H R" and k: "m k = Some a" and d: "\<not> item_dead (heap s a) s"
  shows "do_item_get k (hash k) th False s = Some (refcount_incr a s, a)"
proof -
  let ?s1 = "refcount_incr a s"
  have "a \<in> live m R" using k by (auto simp: live_def ran_def)
  then have n: "a \<noteq> NULL" by (rule live_held(2) [OF inv])
  have fd: "assoc_find k (hash k) s = Some a" using assoc_find_abs [OF items_invD(1) [OF inv], of k] k by simp
  have dead: "item_is_flushed (heap ?s1 a) ?s1 = item_is_flushed (heap s a) s" "exptime (heap ?s1 a) = exptime (heap s a)" "current_time ?s1 = current_time s"
    by (simp_all add: item_is_flushed_def refcount_incr_def ITEM_get_cas_def has_flag_def Let_def)
  show ?thesis using d by (auto simp: do_item_get_def Let_def fd n dead item_dead_def)
qed

text \<open>The item that is stored has the value of the item handed in.\<close>

definition same_value :: "item \<Rightarrow> item \<Rightarrow> bool" where
  "same_value x y \<longleftrightarrow> nkey x = nkey y \<and> ikey x = ikey y \<and> nbytes x = nbytes y \<and> idata x = idata y \<and> cflags x = cflags y \<and>
    it_flags x AND 418 = it_flags y AND 418"

lemma same_data_value: "same_data x y \<Longrightarrow> same_value x y \<and> exptime x = exptime y"
  by (simp add: same_data_def same_value_def)

lemma layout_flag:
  assumes "x AND 418 = y AND (418 :: 16 word)"
  shows "x AND 2 = y AND 2" "x AND 32 = y AND 32" "x AND 128 = y AND 128" "x AND 256 = y AND 256"
proof -
  have m: "w AND f = (w AND 418) AND f" if "418 AND f = f" for w f :: "16 word" using that by (simp add: and.assoc)
  show "x AND 2 = y AND 2" "x AND 32 = y AND 32" "x AND 128 = y AND 128" "x AND 256 = y AND 256"
    using m [of 2 x] m [of 2 y] m [of 32 x] m [of 32 y] m [of 128 x] m [of 128 y] m [of 256 x] m [of 256 y] assms by simp_all
qed

lemma same_value_flags:
  assumes "same_value x y"
  shows "FLAGS_CONV x = FLAGS_CONV y" "has_flag ITEM_HDR x = has_flag ITEM_HDR y" "has_flag ITEM_CHUNKED x = has_flag ITEM_CHUNKED y"
    "has_flag ITEM_CAS x = has_flag ITEM_CAS y" "key_of x = key_of y" "FLAGS_SIZE x = FLAGS_SIZE y"
  using assms layout_flag [of "it_flags x" "it_flags y"] by (simp_all add: same_value_def FLAGS_CONV_def FLAGS_SIZE_def has_flag_def key_of_def)

lemma same_value_trans: "same_value x y \<Longrightarrow> same_value y z \<Longrightarrow> same_value x z"
  by (simp add: same_value_def)

lemma link_value:
  assumes inv: "items_inv hash s m Q F H R" and a: "a \<notin> ran m" "0 < R a" "R a + 1 < 2 ^ 16"
    and k: "k = key_of (heap s a)" "m k = None"
  shows "same_value (heap (do_item_link a (hash k) s) a) (heap s a)" "exptime (heap (do_item_link a (hash k) s) a) = exptime (heap s a)"
  using ignore_links [OF do_item_link_state(5) [OF assms refl]] by (simp_all add: same_value_def linked_item_fields)

text \<open>Replacing an item in the hands of the caller, which may have been unlinked in the meantime.\<close>

lemma replace_inv:
  assumes inv: "items_inv hash s m Q F H R" and a: "0 < R a" and old: "m k = Some a \<or> m k = None \<and> a \<notin> ran m"
    and b: "b \<notin> ran m" "0 < R b" "R b + 1 < 2 ^ 16" "key_of (heap s b) = k"
  shows "\<exists>s' Q' F'. do_item_replace a b (hash k) s = Some s' \<and> items_inv hash s' (m(k \<mapsto> b)) Q' F' H R \<and>
    data_kept (live m R - {b}) s s' \<and> same_value (heap s' b) (heap s b) \<and> exptime (heap s' b) = exptime (heap s b)"
proof -
  let ?m = "m(k := None)"
  have sub: "live m R \<subseteq> live ?m R"
  proof
    fix c assume c: "c \<in> live m R"
    show "c \<in> live ?m R"
    proof (cases "0 < R c")
      case False
      then obtain j where j: "m j = Some c" using c by (auto simp: live_def ran_def)
      have "j \<noteq> k" using j old a False by auto
      then show ?thesis using j by (auto simp: live_def ran_def)
    qed (simp add: live_def)
  qed
  have "\<exists>s1 Q1 F1. do_item_unlink a (hash k) s = Some s1 \<and> items_inv hash s1 ?m Q1 F1 H R \<and> data_kept (live m R) s s1"
  proof (cases "m k")
    case None
    have al: "a \<in> live m R" using a by (simp add: live_def)
    have "a \<notin> ran m" using old None by auto
    then have "\<not> has_flag ITEM_LINKED (heap s a)" using items_invD(6) [OF inv al] by (simp add: item_ok_def)
    then have "do_item_unlink a (hash k) s = Some s" by (simp add: do_item_unlink_def)
    moreover have "?m = m" using None by auto
    ultimately show ?thesis using inv by auto
  next
    case (Some c)
    then have k: "m k = Some a" using old by auto
    from do_item_unlink_inv [OF inv k] a obtain s1 Q1 F1 where "do_item_unlink a (hash k) s = Some s1" "data_kept (live ?m R) s s1"
      "items_inv hash s1 ?m Q1 F1 H R" by auto
    moreover have "data_kept (live m R) s s1" by (rule data_kept_trans [OF data_kept_refl calculation(2) order_refl sub])
    ultimately show ?thesis by blast
  qed
  then obtain s1 Q1 F1 where u: "do_item_unlink a (hash k) s = Some s1" "items_inv hash s1 ?m Q1 F1 H R" "data_kept (live m R) s s1" by blast
  have bl: "b \<in> live m R" "b \<notin> ran ?m" "b \<in> live ?m R" using b(1,2) by (auto simp: live_def ran_def)
  have bd: "same_data (heap s1 b) (heap s b)" using u(3) bl(1) by (auto simp: data_kept_def)
  then have kb: "k = key_of (heap s1 b)" using b(4) by (simp add: same_data_def key_of_def)
  note L = do_item_link_inv [OF u(2) bl(2) b(2,3) kb _ refl] and V = link_value [OF u(2) bl(2) b(2,3) kb]
  let ?s = "do_item_link b (hash k) s1"
  have "data_kept (live m R - {b}) s ?s" by (rule data_kept_trans [OF u(3) L(2)]) (use sub in auto)
  moreover have "do_item_replace a b (hash k) s = Some ?s" using u(1) by (simp add: do_item_replace_def)
  moreover have "same_value (heap ?s b) (heap s b)" "exptime (heap ?s b) = exptime (heap s b)"
    using V same_data_value [OF bd] same_value_trans by auto
  moreover have "items_inv hash ?s (m(k \<mapsto> b)) (Q1(unat (slabs_clsid (heap s1 b)) := b # Q1 (unat (slabs_clsid (heap s1 b))))) F1 H R"
    using L(1) by simp
  ultimately show ?thesis by blast
qed

section \<open>The contract of storing\<close>

text \<open>What a client finds under a key: the item stored there, unless it is expired or flushed.\<close>

definition fresh :: "'a slabs_scheme \<Rightarrow> (bytes \<rightharpoonup> addr) \<Rightarrow> bytes \<Rightarrow> addr option" where
  "fresh s m k = (case m k of None \<Rightarrow> None | Some a \<Rightarrow> if item_dead (heap s a) s then None else Some a)"

fun store_verdict :: "nread \<Rightarrow> bool \<Rightarrow> uint64 \<Rightarrow> uint64 option \<Rightarrow> store_item_type" where
  "store_verdict NREAD_SET stale c old = STORED"
| "store_verdict NREAD_ADD stale c old = (if old = None then STORED else NOT_STORED)"
| "store_verdict NREAD_CAS stale c None = NOT_FOUND"
| "store_verdict NREAD_CAS stale c (Some old) = (if c \<noteq> 0 \<and> (c = old \<or> stale \<and> c < old) then STORED else EXISTS)"
| "store_verdict _ stale c old = (if old = None then NOT_STORED else STORED)"

lemma fresh_get:
  assumes inv: "items_inv hash s m Q F H R" and small: "\<forall>a \<in> ran m. R a + 3 < 2 ^ 16"
  shows "case fresh s m k of
      Some a \<Rightarrow> m k = Some a \<and> do_item_get k (hash k) th False s = Some (refcount_incr a s, a) \<and> a \<noteq> NULL
    | None \<Rightarrow> \<exists>s' Q' F' H'. do_item_get k (hash k) th False s = Some (s', NULL) \<and> items_inv hash s' (m(k := None)) Q' F' H' R \<and>
        data_kept (live (m(k := None)) R) s s'"
proof (cases "m k")
  case None
  then have "m(k := None) = m" by (simp add: fun_upd_idem)
  with None inv do_item_get_inv [OF inv small, of k th False] show ?thesis by (auto simp: fresh_def)
next
  case (Some a)
  have al: "a \<in> live m R" using Some by (auto simp: live_def ran_def)
  show ?thesis
  proof (cases "item_dead (heap s a) s")
    case True
    with Some do_item_get_inv [OF inv small, of k th False] show ?thesis by (simp add: fresh_def del: fun_upd_apply)
  next
    case False
    with Some get_alive [OF inv Some False, of th] live_held(2) [OF inv al] show ?thesis by (simp add: fresh_def)
  qed
qed

text \<open>The last part of a command that found an item: store, and give up the reference of the fetch.\<close>

lemma store_end:
  fixes s :: "'a store_scheme"
  assumes inv: "items_inv hash s m Q F H (R(a := R a + 1))" and k: "m k = Some a"
    and b: "b \<notin> ran m" "0 < R b" "R b + 1 < 2 ^ 16" "key_of (heap s b) = k"
  shows "\<exists>s3 s4. do_item_replace a b (hash k) (STORAGE_delete a s) = Some s3 \<and> do_item_remove a s3 = Some s4 \<and>
    (\<exists>Q F H. items_inv hash s4 (m(k \<mapsto> b)) Q F H R) \<and> data_kept (live (m(k \<mapsto> b)) R - {b}) s s4 \<and>
    same_value (heap s4 b) (heap s b) \<and> exptime (heap s4 b) = exptime (heap s b)"
proof -
  let ?R = "R(a := R a + 1)" and ?m = "m(k \<mapsto> b)"
  have ab: "a \<noteq> b" using k b(1) by (auto simp: ran_def)
  have si: "items_inv hash (STORAGE_delete a s) m Q F H ?R" using inv by (simp add: STORAGE_delete_inv(1))
  have hd: "heap (STORAGE_delete a s) = heap s" by (simp add: STORAGE_delete_def)
  from replace_inv [OF si _ _ b(1), of a k] k ab b(2-4) hd obtain s3 Q3 F3 where r: "do_item_replace a b (hash k) (STORAGE_delete a s) = Some s3"
    "items_inv hash s3 ?m Q3 F3 H ?R" "data_kept (live m ?R - {b}) (STORAGE_delete a s) s3"
    "same_value (heap s3 b) (heap s b)" "exptime (heap s3 b) = exptime (heap s b)" by auto
  have rr: "?R(a := ?R a - 1) = R" by simp
  from do_item_remove_inv [OF r(2), of a] obtain s4 F4 H4 where d: "do_item_remove a s3 = Some s4"
    "data_kept (live ?m R) s3 s4" "items_inv hash s4 ?m Q3 F4 H4 R" unfolding rr by force
  have bl: "b \<in> live ?m R" using b(2) by (simp add: live_def)
  then have bd: "same_data (heap s4 b) (heap s3 b)" using d(2) by (auto simp: data_kept_def)
  have k1: "data_kept (live m ?R - {b}) s s3"
    using r(3) STORAGE_delete_inv(2) [of "live m ?R - {b}" s a] data_kept_tr by blast
  have sub: "live ?m R - {b} \<subseteq> live m ?R - {b}" by (auto simp: live_def ran_def split: if_splits)
  have "data_kept (live ?m R - {b}) s s4" by (rule data_kept_trans [OF k1 d(2) sub]) auto
  moreover have "same_value (heap s4 b) (heap s b)" "exptime (heap s4 b) = exptime (heap s b)"
    using r(4,5) same_data_value [OF bd] same_value_trans by auto
  ultimately show ?thesis using r(1) d(1,3) by blast
qed

text \<open>The start of a command that found a live item: its own item is not the one found.\<close>

lemma store_start:
  fixes s :: "'a store_scheme"
  assumes inv: "items_inv hash s m Q F H R" and k: "m k = Some a" and small: "\<forall>a \<in> ran m. R a + 3 < 2 ^ 16" and it: "it \<notin> ran m"
  shows "items_inv hash (refcount_incr a s) m Q F H (R(a := R a + 1))" "data_kept A s (refcount_incr a s)" "a \<noteq> it"
    "heap (refcount_incr a s) it = heap s it" "set_stale (refcount_incr a s) = set_stale s"
    "ITEM_get_cas (heap (refcount_incr a s) b) = ITEM_get_cas (heap s b)"
proof -
  have ar: "a \<in> ran m" using k by (auto simp: ran_def)
  then have "a \<in> live m R" "R a + 2 < 2 ^ 16" using small by (auto simp: live_def)
  from refcount_incr_inv [OF inv this] show "items_inv hash (refcount_incr a s) m Q F H (R(a := R a + 1))" "data_kept A s (refcount_incr a s)" .
  show ai: "a \<noteq> it" using ar it by auto
  then show "heap (refcount_incr a s) it = heap s it" by (simp add: refcount_incr_def)
  show "ITEM_get_cas (heap (refcount_incr a s) b) = ITEM_get_cas (heap s b)"
    by (simp add: refcount_incr_def ITEM_get_cas_def has_flag_def)
qed (simp add: refcount_incr_def)

lemma stale_inv:
  assumes inv: "items_inv hash s m Q F H R" and it: "it \<in> live m R"
  shows "items_inv hash (cas_stale_item old it s) m Q F H R" "b \<noteq> it \<Longrightarrow> heap (cas_stale_item old it s) b = heap s b"
    "data_kept (A - {it}) s (cas_stale_item old it s)" "same_value (heap (cas_stale_item old it s) it) (heap s it)"
    "exptime (heap (cas_stale_item old it s) it) = exptime (heap s old)"
proof -
  let ?g = "\<lambda>i. i\<lparr>exptime := exptime (heap s old), it_flags := it_flags i OR 2048 OR (if has_flag ITEM_TOKEN_SENT (heap s old) then 512 else 0)\<rparr>"
  have e: "cas_stale_item old it s = upd_item it ?g s" by (simp add: cas_stale_item_def Let_def)
  have "same_core (?g x) x \<and> refcount (?g x) = refcount x" for x by (simp add: same_core_def flag_or bit.conj_disj_distrib2)
  then show "items_inv hash (cas_stale_item old it s) m Q F H R" unfolding e by (rule mark_inv [OF inv it])
qed (simp_all add: cas_stale_item_def Let_def data_kept_def same_value_def bit.conj_disj_distrib2)

text \<open>Not storing: the reference of the fetch is given up.\<close>

lemma store_drop:
  fixes s :: "'a store_scheme"
  assumes s2: "items_inv hash s2 m Q F H (R(a := R a + 1))" and it: "0 < R it" and v: "same_value (heap s2 it) (heap s it)" and dk: "data_kept (live m R) s s2"
  shows "\<exists>s4. do_item_remove a s2 = Some s4 \<and> (\<exists>Q F H. items_inv hash s4 m Q F H R) \<and> data_kept (live m R) s s4 \<and> same_value (heap s4 it) (heap s it)"
proof -
  have rr: "(R(a := R a + 1))(a := (R(a := R a + 1)) a - 1) = R" by simp
  from do_item_remove_inv [OF s2, of a] obtain s4 F4 H4 where d: "do_item_remove a s2 = Some s4" "data_kept (live m R) s2 s4"
    "items_inv hash s4 m Q F4 H4 R" unfolding rr by force
  have "it \<in> live m R" using it by (simp add: live_def)
  then have "same_data (heap s4 it) (heap s2 it)" using d(2) by (auto simp: data_kept_def)
  from same_data_value [OF this] have v4: "same_value (heap s4 it) (heap s it)" using v same_value_trans by blast
  have "data_kept (live m R) s s4" by (rule data_kept_tr [OF dk d(2)])
  with d(1,3) v4 show ?thesis by blast
qed

lemma store_item_inv:
  fixes s :: "'a store_scheme"
  assumes inv: "items_inv hash s m Q F H R" and small: "\<forall>a \<in> ran m. R a + 3 < 2 ^ 16"
    and it: "it \<notin> ran m" "0 < R it" "R it + 1 < 2 ^ 16" "key_of (heap s it) = k" and comm: "comm \<notin> {NREAD_APPEND, NREAD_PREPEND}"
    and v: "v = store_verdict comm (set_stale s) (ITEM_get_cas (heap s it)) (map_option (\<lambda>a. ITEM_get_cas (heap s a)) (fresh s m k))"
    and m': "m' = (if v = STORED then m(k \<mapsto> it) else if fresh s m k = None then m(k := None) else m)"
  shows "\<exists>s'. do_store_item hash it comm th (hash k) s = Some (s', v) \<and> (\<exists>Q F H. items_inv hash s' m' Q F H R) \<and>
    data_kept (live m' R - {it}) s s' \<and> same_value (heap s' it) (heap s it)"
proof (cases "fresh s m k")
  case None
  let ?m = "m(k := None)"
  from fresh_get [OF inv small, of k th] None obtain s1 Q1 F1 H1 where g: "do_item_get k (hash k) th False s = Some (s1, NULL)"
    "items_inv hash s1 ?m Q1 F1 H1 R" "data_kept (live ?m R) s s1" by auto
  have il: "it \<in> live ?m R" "it \<notin> ran ?m" using it(1,2) by (auto simp: live_def ran_def)
  have d1: "same_data (heap s1 it) (heap s it)" using g(3) il(1) by (auto simp: data_kept_def)
  then have k1: "k = key_of (heap s1 it)" using it(4) by (simp add: same_data_def key_of_def)
  note L = do_item_link_inv [OF g(2) il(2) it(2,3) k1 _ refl] and V = link_value [OF g(2) il(2) it(2,3) k1]
  let ?s = "do_item_link it (hash k) s1"
  have lk: "items_inv hash (?s\<lparr>conn_cas := c\<rparr>) (m(k \<mapsto> it)) (Q1(unat (slabs_clsid (heap s1 it)) := it # Q1 (unat (slabs_clsid (heap s1 it))))) F1 H1 R" for c
    using L(1) by (intro counters_inv(4)) simp
  have sub: "live (m(k \<mapsto> it)) R - {it} \<subseteq> live ?m R - {it}" by (auto simp: live_def ran_def split: if_splits)
  have dk: "data_kept (live (m(k \<mapsto> it)) R - {it}) s ?s" by (rule data_kept_trans [OF g(3) L(2)]) (use sub in auto)
  have val: "same_value (heap ?s it) (heap s it)" using V(1) same_data_value [OF d1] same_value_trans by auto
  have dk0: "data_kept (live ?m R - {it}) s s1" using g(3) by (auto simp: data_kept_def)
  have v0: "same_value (heap s1 it) (heap s it)" using same_data_value [OF d1] by simp
  note S = do_store_item_def it(4) g(1) None m' v
  consider "comm = NREAD_ADD \<or> comm = NREAD_SET" | "comm = NREAD_CAS" | "comm = NREAD_REPLACE" using comm by (cases comm) auto
  then show ?thesis
  proof cases
    case 1
    then have vs: "v = STORED" using v None by auto
    have "do_store_item hash it comm th (hash k) s = Some (?s\<lparr>conn_cas := ITEM_get_cas (heap ?s it)\<rparr>, STORED)"
      using 1 by (auto simp: do_store_item_def it(4) g(1))
    moreover have "data_kept (live m' R - {it}) s (?s\<lparr>conn_cas := ITEM_get_cas (heap ?s it)\<rparr>)" using dk vs by (simp add: m' data_kept_def)
    ultimately show ?thesis using lk val vs m' by auto
  next
    case 2
    then have vs: "v = NOT_FOUND" using v None by simp
    have "do_store_item hash it comm th (hash k) s = Some (s1\<lparr>cas_misses := cas_misses s1 + 1\<rparr>, NOT_FOUND)"
      using 2 by (auto simp: do_store_item_def it(4) g(1))
    moreover have "data_kept (live m' R - {it}) s (s1\<lparr>cas_misses := cas_misses s1 + 1\<rparr>)" using dk0 vs None by (simp add: m' data_kept_def)
    ultimately show ?thesis using counters_inv(3) [OF g(2)] v0 vs m' None by auto
  next
    case 3
    then have vs: "v = NOT_STORED" using v None by simp
    have "do_store_item hash it comm th (hash k) s = Some (s1, NOT_STORED)"
      using 3 by (auto simp: do_store_item_def it(4) g(1))
    with g(2) dk0 v0 vs m' None show ?thesis by auto
  qed
next
  case (Some a)
  from fresh_get [OF inv small, of k th] Some have k: "m k = Some a" and g: "do_item_get k (hash k) th False s = Some (refcount_incr a s, a)"
    and n: "a \<noteq> NULL" by auto
  let ?s1 = "refcount_incr a s" and ?R = "R(a := R a + 1)"
  note B = store_start [OF inv k small it(1)]
  have rr: "?R(a := ?R a - 1) = R" by simp
  have al: "a \<in> live m R" using k by (auto simp: live_def ran_def)
  have store: "\<exists>s3 s4. do_item_replace a it (hash k) (STORAGE_delete a s2) = Some s3 \<and> do_item_remove a s3 = Some s4 \<and>
      (\<exists>Q F H. items_inv hash (s4\<lparr>conn_cas := ITEM_get_cas (heap s4 it)\<rparr>) (m(k \<mapsto> it)) Q F H R) \<and>
      data_kept (live (m(k \<mapsto> it)) R - {it}) s (s4\<lparr>conn_cas := ITEM_get_cas (heap s4 it)\<rparr>) \<and> same_value (heap s4 it) (heap s it)"
    if s2: "items_inv hash s2 m Q2 F H ?R" "same_value (heap s2 it) (heap s it)" "data_kept (live m R - {it}) s s2" for s2 :: "'a store_scheme" and Q2
  proof -
    have kk: "key_of (heap s2 it) = k" using s2(2) it(4) by (simp add: same_value_def key_of_def)
    from store_end [OF s2(1) k it(1-3) kk] obtain s3 s4 Q' F' H' where e: "do_item_replace a it (hash k) (STORAGE_delete a s2) = Some s3"
      "do_item_remove a s3 = Some s4" "items_inv hash s4 (m(k \<mapsto> it)) Q' F' H' R" "data_kept (live (m(k \<mapsto> it)) R - {it}) s2 s4"
      "same_value (heap s4 it) (heap s2 it)" by blast
    have sub: "live (m(k \<mapsto> it)) R - {it} \<subseteq> live m R - {it}" by (auto simp: live_def ran_def split: if_splits)
    have "data_kept (live (m(k \<mapsto> it)) R - {it}) s s4" by (rule data_kept_trans [OF s2(3) e(4) sub order_refl])
    then have "data_kept (live (m(k \<mapsto> it)) R - {it}) s (s4\<lparr>conn_cas := ITEM_get_cas (heap s4 it)\<rparr>)" by (simp add: data_kept_def)
    with e counters_inv(4) [OF e(3)] s2(2) same_value_trans show ?thesis by blast
  qed
  note drop = store_drop [where R = R and a = a and it = it and H = H and F = F and m = m and hash = hash, OF _ it(2)]
  have sv1: "same_value (heap ?s1 it) (heap s it)" by (simp add: B(4) same_value_def)
  let ?res = "cas_test (set_stale s) (ITEM_get_cas (heap s it)) (ITEM_get_cas (heap s a))" and ?cl = "ITEM_clsid (heap ?s1 a)"
  have go: "do_store_item hash it comm th (hash k) s = (do {
      (s2, it2, new_it, do_store, stored) \<leftarrow> store_old hash comm ?res a it ?s1;
      s3 \<leftarrow> (if do_store then do_item_replace a it2 (hash k) (STORAGE_delete a s2) else Some s2);
      s4 \<leftarrow> do_item_remove a s3;
      s5 \<leftarrow> (if new_it \<noteq> NULL then do_item_remove new_it s4 else Some s4);
      let st = (if do_store then STORED else stored);
      Some (if st = STORED then s5\<lparr>conn_cas := ITEM_get_cas (heap s5 it2)\<rparr> else s5, st) })"
    using n by (auto simp add: do_store_item_def it(4) g B(4,5,6) Let_def intro!: Option.bind_cong [OF refl])
  have fr: "fresh s m k = Some a" by (rule Some)
  have m0: "m' = (if v = STORED then m(k \<mapsto> it) else m)" using m' fr by simp
  have hits: "items_inv hash (?s1\<lparr>cas_hits := f\<rparr>) m Q F H ?R" "items_inv hash (?s1\<lparr>cas_badval := f\<rparr>) m Q F H ?R" for f
    by (rule counters_inv [OF B(1)])+
  have dk1: "data_kept (live m R - {it}) s ?s1" by (rule B(2))
  consider (add) "comm = NREAD_ADD" | (set) "comm = NREAD_SET \<or> comm = NREAD_REPLACE" | (cas) "comm = NREAD_CAS" using comm by (cases comm) auto
  then show ?thesis
  proof cases
    case add
    then have vs: "v = NOT_STORED" using v fr by simp
    have al': "a \<in> live m ?R" by (simp add: live_def)
    have iu: "it \<in> live m R" using it(2) by (simp add: live_def)
    from do_item_update_inv(1) [OF B(1) al'] obtain Q2 where u: "items_inv hash (do_item_update a ?s1) m Q2 F H ?R" by blast
    have uk: "data_kept (live m R) ?s1 (do_item_update a ?s1)" by (rule do_item_update_inv(2) [OF B(1) al'])
    have dk: "data_kept (live m R) s (do_item_update a ?s1)" by (rule data_kept_tr [OF B(2) uk])
    have "same_data (heap (do_item_update a ?s1) it) (heap s it)" using dk iu by (auto simp: data_kept_def)
    from same_data_value [OF this] have "same_value (heap (do_item_update a ?s1) it) (heap s it)" by simp
    from drop [OF u this dk] obtain s4 where d: "do_item_remove a (do_item_update a ?s1) = Some s4" "\<exists>Q F H. items_inv hash s4 m Q F H R"
      "data_kept (live m R) s s4" "same_value (heap s4 it) (heap s it)" by blast
    then have "data_kept (live m R - {it}) s s4" by (simp add: data_kept_def)
    moreover have "do_store_item hash it comm th (hash k) s = Some (s4, NOT_STORED)" unfolding go store_old_def Let_def using add d(1) by simp
    ultimately show ?thesis using d(2,4) vs m0 by auto
  next
    case set
    then have vs: "v = STORED" using v fr by auto
    from store [OF B(1) sv1 dk1] obtain s3 s4 where e: "do_item_replace a it (hash k) (STORAGE_delete a ?s1) = Some s3" "do_item_remove a s3 = Some s4"
      "\<exists>Q F H. items_inv hash (s4\<lparr>conn_cas := ITEM_get_cas (heap s4 it)\<rparr>) (m(k \<mapsto> it)) Q F H R"
      "data_kept (live (m(k \<mapsto> it)) R - {it}) s (s4\<lparr>conn_cas := ITEM_get_cas (heap s4 it)\<rparr>)" "same_value (heap s4 it) (heap s it)" by blast
    have "do_store_item hash it comm th (hash k) s = Some (s4\<lparr>conn_cas := ITEM_get_cas (heap s4 it)\<rparr>, STORED)"
      using set e(1,2) by (auto simp: go store_old_def)
    with e(3-5) vs m0 show ?thesis by auto
  next
    case cas
    consider (match) "?res = CAS_MATCH" | (stale) "?res = CAS_STALE" | (bad) "?res \<noteq> CAS_MATCH" "?res \<noteq> CAS_STALE" by blast
    then show ?thesis
    proof cases
      case match
      then have vs: "v = STORED" using v fr cas by (auto simp: cas_test_def split: if_splits)
      let ?s2 = "?s1\<lparr>cas_hits := (cas_hits ?s1)(?cl := cas_hits ?s1 ?cl + 1)\<rparr>"
      have "same_value (heap ?s2 it) (heap s it)" "data_kept (live m R - {it}) s ?s2" using sv1 dk1 by (simp_all add: data_kept_def)
      from store [OF hits(1) this] obtain s3 s4 where e: "do_item_replace a it (hash k) (STORAGE_delete a ?s2) = Some s3" "do_item_remove a s3 = Some s4"
        "\<exists>Q F H. items_inv hash (s4\<lparr>conn_cas := ITEM_get_cas (heap s4 it)\<rparr>) (m(k \<mapsto> it)) Q F H R"
        "data_kept (live (m(k \<mapsto> it)) R - {it}) s (s4\<lparr>conn_cas := ITEM_get_cas (heap s4 it)\<rparr>)" "same_value (heap s4 it) (heap s it)" by blast
      have "do_store_item hash it comm th (hash k) s = Some (s4\<lparr>conn_cas := ITEM_get_cas (heap s4 it)\<rparr>, STORED)"
        unfolding go store_old_def Let_def using cas e(1,2) match by simp
      with e(3-5) vs m0 show ?thesis by auto
    next
      case stale
      then have vs: "v = STORED" using v fr cas by (auto simp: cas_test_def split: if_splits)
      let ?t = "cas_stale_item a it ?s1"
      let ?s2 = "?t\<lparr>cas_hits := (cas_hits ?s1)(?cl := cas_hits ?s1 ?cl + 1)\<rparr>"
      have il: "it \<in> live m ?R" using it(2) by (simp add: live_def)
      note T = stale_inv [OF B(1) il]
      have tk: "data_kept (live m R - {it}) s ?t" by (rule data_kept_tr [OF dk1 T(3)])
      have tv: "same_value (heap ?t it) (heap s it)" using T(4) sv1 same_value_trans by blast
      have "same_value (heap ?s2 it) (heap s it)" "data_kept (live m R - {it}) s ?s2" using tv tk by (simp_all add: data_kept_def)
      from store [OF counters_inv(1) [OF T(1)] this] obtain s3 s4 where e: "do_item_replace a it (hash k) (STORAGE_delete a ?s2) = Some s3" "do_item_remove a s3 = Some s4"
        "\<exists>Q F H. items_inv hash (s4\<lparr>conn_cas := ITEM_get_cas (heap s4 it)\<rparr>) (m(k \<mapsto> it)) Q F H R"
        "data_kept (live (m(k \<mapsto> it)) R - {it}) s (s4\<lparr>conn_cas := ITEM_get_cas (heap s4 it)\<rparr>)" "same_value (heap s4 it) (heap s it)" by blast
      have "do_store_item hash it comm th (hash k) s = Some (s4\<lparr>conn_cas := ITEM_get_cas (heap s4 it)\<rparr>, STORED)"
        unfolding go store_old_def Let_def using cas e(1,2) stale by simp
      with e(3-5) vs m0 show ?thesis by auto
    next
      case bad
      then have vs: "v = EXISTS" using v fr cas by (auto simp: cas_test_def split: if_splits)
      let ?s2 = "?s1\<lparr>cas_badval := (cas_badval ?s1)(?cl := cas_badval ?s1 ?cl + 1)\<rparr>"
      have "same_value (heap ?s2 it) (heap s it)" "data_kept (live m R) s ?s2" using sv1 B(2) [where A = "live m R"] by (simp_all add: data_kept_def)
      from drop [OF hits(2) this] obtain s4 where d: "do_item_remove a ?s2 = Some s4" "\<exists>Q F H. items_inv hash s4 m Q F H R"
        "data_kept (live m R) s s4" "same_value (heap s4 it) (heap s it)" by blast
      then have "data_kept (live m R - {it}) s s4" by (simp add: data_kept_def)
      moreover have "do_store_item hash it comm th (hash k) s = Some (s4, EXISTS)" unfolding go store_old_def Let_def using cas d(1) bad by simp
      ultimately show ?thesis using d(2,4) vs m0 by auto
    qed
  qed
qed

text \<open>Joining two values: the CR LF at the end of the first gives way to the second.\<close>

lemma copy_join:
  assumes "length d1 = n" "2 \<le> n" "length d2 = l"
  shows "take (n + l - 2) (copy_at (copy_at x 0 d1) (n - 2) d2) = take (n - 2) d1 @ d2"
  using assms by (simp add: copy_at_def)

definition full_data :: "item \<Rightarrow> bool" where
  "full_data x \<longleftrightarrow> 2 \<le> nbytes x \<and> nbytes x \<le> int (length (idata x))"

lemma data_bytes_same: "same_value (heap s' a) (heap s b) \<Longrightarrow> data_bytes a s' = data_bytes b s"
  by (simp add: data_bytes_def same_value_def)

lemma copy_data_value:
  fixes s :: "'a lru_scheme"
  assumes c: "comm = NREAD_APPEND \<and> p = a \<and> q = b \<or> comm = NREAD_PREPEND \<and> p = b \<and> q = a"
    and new: "\<not> has_flag ITEM_CHUNKED (heap s n)" "n \<noteq> a" "n \<noteq> b" and f: "full_data (heap s a)" "full_data (heap s b)"
    and nb: "nbytes (heap s n) = nbytes (heap s a) + nbytes (heap s b) - 2"
  shows "\<exists>g. store_item_copy_data hash comm a n b s = Some (upd_item n (\<lambda>i. i\<lparr>idata := g (idata i)\<rparr>) s, 0) \<and>
    data_bytes n (upd_item n (\<lambda>i. i\<lparr>idata := g (idata i)\<rparr>) s) = take (nat (nbytes (heap s p)) - 2) (data_bytes p s) @ data_bytes q s"
proof -
  let ?g = "\<lambda>x. copy_at (copy_at x 0 (data_bytes p s)) (nat (nbytes (heap s p)) - 2) (data_bytes q s)"
  have pq: "p \<noteq> n" "q \<noteq> n" "full_data (heap s p)" "full_data (heap s q)" "nbytes (heap s n) = nbytes (heap s p) + nbytes (heap s q) - 2"
    using c new f nb by auto
  have l: "length (data_bytes p s) = nat (nbytes (heap s p))" "length (data_bytes q s) = nat (nbytes (heap s q))"
    using pq(3,4) by (auto simp: full_data_def data_bytes_def)
  have p2: "2 \<le> nat (nbytes (heap s p))" using pq(3) unfolding full_data_def by linarith
  have e: "nat (x - 2) = nat x - 2" for x :: int by simp
  have "store_item_copy_data hash comm a n b s = Some (upd_item n (\<lambda>i. i\<lparr>idata := ?g (idata i)\<rparr>) s, 0)"
    using c new by (auto simp: store_item_copy_data_def Let_def put_data_def data_bytes_def e comp_def)
  moreover have "nat (nbytes (heap s n)) = nat (nbytes (heap s p)) + nat (nbytes (heap s q)) - 2" using pq(3-5) by (simp add: full_data_def nat_diff_distrib nat_add_distrib)
  then have "data_bytes n (upd_item n (\<lambda>i. i\<lparr>idata := ?g (idata i)\<rparr>) s) = take (nat (nbytes (heap s p)) - 2) (data_bytes p s) @ data_bytes q s"
    using copy_join [OF l(1) p2 l(2), of "idata (heap s n)"] by (simp add: data_bytes_def)
  ultimately show ?thesis by (intro exI [of _ ?g] conjI)
qed

lemma idata_inv:
  assumes "items_inv hash s m Q F H R" "a \<in> live m R"
  shows "items_inv hash (upd_item a (\<lambda>i. i\<lparr>idata := g (idata i)\<rparr>) s) m Q F H R" "data_kept (A - {a}) s (upd_item a (\<lambda>i. i\<lparr>idata := g (idata i)\<rparr>) s)"
  by (rule mark_inv [OF assms]) (simp_all add: same_core_def data_kept_def)

text \<open>The item a command allocates fits a chunk, unless it is too large for the cache at all.\<close>

definition size_pre :: "bytes \<Rightarrow> uint32 \<Rightarrow> int \<Rightarrow> 'a slabs_scheme \<Rightarrow> bool" where
  "size_pre key flags nb s \<longleftrightarrow> length key \<le> 250 \<and>
    (item_size_ok (of_nat (length key)) flags nb s \<longrightarrow> fit_pre (fst (item_ntotal_of (of_nat (length key)) flags nb s)) s)"

text \<open>When its allocation may be refused: the item is too large for the cache, or its class has no free chunk.\<close>

definition may_fail :: "bytes \<Rightarrow> uint32 \<Rightarrow> int \<Rightarrow> 'a slabs_scheme \<Rightarrow> bool" where
  "may_fail key flags nb s \<longleftrightarrow> \<not> item_size_ok (of_nat (length key)) flags nb s \<or>
    sl_curr (cls s (slabs_clsid_of s (fst (item_ntotal_of (of_nat (length key)) flags nb s)))) = 0"

lemma alloc_inv':
  fixes s :: "'a lru_scheme"
  assumes inv: "items_inv hash s m Q F H R" and pre: "pull_pre s m R" and sz: "size_pre key flags nb s"
  shows "\<exists>s' it m'. do_item_alloc hash key flags et nb s = Some (s', it) \<and> data_kept (live m' R) s s' \<and> lost_upto 10 s m m' \<and>
      (if it = NULL then may_fail key flags nb s \<and> (\<exists>Q F H. items_inv hash s' m' Q F H R)
       else item_size_ok (of_nat (length key)) flags nb s \<and> (\<exists>Q F H. items_inv hash s' m' Q F H (R(it := 1))) \<and> it \<notin> ran m' \<and> R it = 0 \<and>
         key_of (heap s' it) = key \<and> nbytes (heap s' it) = nb \<and> exptime (heap s' it) = et \<and> FLAGS_CONV (heap s' it) = flags)"
proof -
  obtain ntotal nsuffix where n: "item_ntotal_of (of_nat (length key)) flags nb s = (ntotal, nsuffix)" by fastforce
  have p: "length key \<le> 250" "item_size_ok (of_nat (length key)) flags nb s \<longrightarrow> fit_pre ntotal s"
    using sz by (simp_all add: size_pre_def n)
  note A = do_item_alloc_inv [OF inv pre p(1) n p(2) refl, of et]
  show ?thesis
  proof (cases "item_size_ok (of_nat (length key)) flags nb s")
    case False
    then have "do_item_alloc hash key flags et nb s = Some (s, NULL)" using A by simp
    moreover have "lost_upto 10 s m m" by simp
    moreover have "may_fail key flags nb s" using False by (simp add: may_fail_def)
    ultimately show ?thesis using inv by (metis (full_types) data_kept_refl)
  next
    case True
    have mf: "no_memory ntotal (slabs_clsid_of s ntotal) s \<Longrightarrow> may_fail key flags nb s" by (simp add: no_memory_def may_fail_def n)
    then obtain s' it m' where "do_item_alloc hash key flags et nb s = Some (s', it)" "data_kept (live m' R) s s'" "lost_upto 10 s m m'"
      "if it = NULL then no_memory ntotal (slabs_clsid_of s ntotal) s \<and> (\<exists>Q F H. items_inv hash s' m' Q F H R)
       else (\<exists>Q F H. items_inv hash s' m' Q F H (R(it := 1))) \<and> it \<notin> ran m' \<and> R it = 0 \<and>
         key_of (heap s' it) = key \<and> nbytes (heap s' it) = nb \<and> exptime (heap s' it) = et \<and> FLAGS_CONV (heap s' it) = flags"
      using A unfolding if_not_P [OF not_not [THEN iffD2, OF True]] by (metis (no_types, lifting))
    then show ?thesis using mf True by (cases "it = NULL") (simp_all, blast+)
  qed
qed

lemma clsid_loop_cong:
  fixes s s' :: "'a slabs_scheme"
  assumes "slabclass s' = slabclass s" "power_largest s' = power_largest s"
  shows "clsid_loop s' sz r = clsid_loop s sz r"
proof (induction "power_largest s - r" arbitrary: r rule: less_induct)
  case less
  have "clsid_loop s' sz (r + 1) = clsid_loop s sz (r + 1)" if "r < power_largest s" by (rule less) (use that in simp)
  then show ?case unfolding clsid_loop.simps [of s' sz r] clsid_loop.simps [of s sz r] assms by simp
qed

lemma size_pre_cong:
  fixes s s' :: "'a slabs_scheme"
  assumes f: "slabclass s' = slabclass s" "power_largest s' = power_largest s" "settings s' = settings s" "mem_base s' = mem_base s"
  shows "size_pre key flags nb s' = size_pre key flags nb s" "may_fail key flags nb s' = may_fail key flags nb s"
proof -
  have "slabs_clsid_of s' sz = slabs_clsid_of s sz" for sz by (simp add: slabs_clsid_of_def f clsid_loop_cong [OF f(1,2)])
  then show "size_pre key flags nb s' = size_pre key flags nb s" "may_fail key flags nb s' = may_fail key flags nb s"
    by (simp_all add: size_pre_def may_fail_def item_ntotal_of_def item_size_ok_def fit_pre_def class_rooms_def f)
qed

lemma size_pre_refs: "size_pre key flags nb (refcount_incr a s) = size_pre key flags nb s"
  "may_fail key flags nb (refcount_incr a s) = may_fail key flags nb s"
  by (rule size_pre_cong; simp add: refcount_incr_def)+

lemma map_mono_cases:
  assumes inv: "items_inv hash s m Q F H R" and mono: "m1 \<subseteq>\<^sub>m m" and k: "m k = Some a"
  shows "m1 k = Some a \<or> m1 k = None \<and> a \<notin> ran m1"
proof (cases "m1 k")
  case None
  have "a \<notin> ran m1"
  proof
    assume "a \<in> ran m1"
    then obtain j where j: "m1 j = Some a" by (auto simp: ran_def)
    then have "m j = Some a" using mono by (metis map_le_def domI)
    then have "j = k" using assoc_key [OF items_invD(1) [OF inv]] k by metis
    with j None show False by simp
  qed
  with None show ?thesis by simp
next
  case (Some c)
  then have "m k = Some c" using mono by (metis map_le_def domI)
  with k Some show ?thesis by simp
qed

lemma store_append_inv:
  fixes s :: "'a store_scheme"
  assumes inv: "items_inv hash s m Q F H R" and small: "\<forall>a \<in> ran m. R a + 3 < 2 ^ 16" and pre: "pull_pre s m R"
    and it: "it \<notin> ran m" "0 < R it" "key_of (heap s it) = k"
    and c: "comm = NREAD_APPEND \<and> p = a \<and> q = it \<or> comm = NREAD_PREPEND \<and> p = it \<and> q = a"
    and old: "fresh s m k = Some a" "cas_test (set_stale s) (ITEM_get_cas (heap s it)) (ITEM_get_cas (heap s a)) \<in> {CAS_NONE, CAS_MATCH}"
      "\<not> has_flag ITEM_HDR (heap s a)"
    and f: "full_data (heap s a)" "full_data (heap s it)"
    and sz: "size_pre k (FLAGS_CONV (heap s a)) (nbytes (heap s it) + nbytes (heap s a) - 2) s"
  shows "\<exists>s' v m1. do_store_item hash it comm th (hash k) s = Some (s', v) \<and> lost_upto 10 s m m1 \<and>
    (v = NOT_STORED \<and> may_fail k (FLAGS_CONV (heap s a)) (nbytes (heap s it) + nbytes (heap s a) - 2) s \<and> data_kept (live m1 R) s s' \<and> (\<exists>Q F H. items_inv hash s' m1 Q F H R) \<or>
     v = STORED \<and> (\<exists>b. b \<notin> ran m1 \<and> R b = 0 \<and> data_kept (live (m1(k \<mapsto> b)) R - {b}) s s' \<and> (\<exists>Q F H. items_inv hash s' (m1(k \<mapsto> b)) Q F H R) \<and>
       data_bytes b s' = take (nat (nbytes (heap s p)) - 2) (data_bytes p s) @ data_bytes q s \<and> exptime (heap s' b) = exptime (heap s a)))"
proof -
  from fresh_get [OF inv small, of k th] old(1) have k: "m k = Some a" and g: "do_item_get k (hash k) th False s = Some (refcount_incr a s, a)"
    and n: "a \<noteq> NULL" by auto
  let ?s1 = "refcount_incr a s" and ?R = "R(a := R a + 1)" and ?nb = "nbytes (heap s it) + nbytes (heap s a) - 2"
  note B = store_start [OF inv k small it(1)]
  have ar: "a \<in> ran m" using k by (auto simp: ran_def)
  have h1: "heap ?s1 a = (heap s a)\<lparr>refcount := refcount (heap s a) + 1\<rparr>" by (simp add: refcount_incr_def)
  have p1: "pull_pre ?s1 m ?R" using pre small B(2) by (auto simp: pull_pre_def data_kept_def same_data_def refcount_incr_def)
  from alloc_inv' [OF B(1) p1 size_pre_refs(1) [THEN iffD2, OF sz], unfolded size_pre_refs(2), of "exptime (heap s a)"] obtain s2 b m1 where
    al: "do_item_alloc hash k (FLAGS_CONV (heap s a)) (exptime (heap s a)) ?nb ?s1 = Some (s2, b)" "data_kept (live m1 ?R) ?s1 s2" "lost_upto 10 ?s1 m m1"
    and new: "if b = NULL then may_fail k (FLAGS_CONV (heap s a)) ?nb s \<and> (\<exists>Q F H. items_inv hash s2 m1 Q F H ?R)
       else item_size_ok (of_nat (length k)) (FLAGS_CONV (heap s a)) ?nb ?s1 \<and> (\<exists>Q F H. items_inv hash s2 m1 Q F H (?R(b := 1))) \<and> b \<notin> ran m1 \<and> ?R b = 0 \<and>
         key_of (heap s2 b) = k \<and> nbytes (heap s2 b) = ?nb \<and> exptime (heap s2 b) = exptime (heap s a) \<and> FLAGS_CONV (heap s2 b) = FLAGS_CONV (heap s a)" by blast
  have lk: "life_kept (ran m) s ?s1" using B(2) by (simp add: life_kept_def same_life_def refcount_incr_def has_flag_def)
  have lost: "lost_upto 10 s m m1" using lost_trans [OF lost_upto_refl [of 0] lk al(3)] by simp
  have sub1: "live m1 R \<subseteq> live m1 ?R" by (auto simp: live_def)
  have d2: "data_kept (live m1 R) s s2" by (rule data_kept_trans [OF B(2) al(2) order_refl sub1])
  have ai: "a \<in> live m1 ?R" "it \<in> live m1 R" using it(2) by (simp_all add: live_def)
  have va: "same_data (heap s2 a) (heap ?s1 a)" "same_data (heap s2 it) (heap s it)" using al(2) d2 ai by (auto simp: data_kept_def)
  then have va: "same_data (heap s2 a) (heap s a)" "same_data (heap s2 it) (heap s it)" by (simp_all add: h1 same_data_def)
  have mono: "m1 \<subseteq>\<^sub>m m" using lost by (simp add: lost_upto_def)
  note m1 = map_mono_cases [OF inv mono k]
  have cr: "comm = NREAD_APPEND \<or> comm = NREAD_PREPEND" using c by auto
  have res: "cas_test (set_stale ?s1) (ITEM_get_cas (heap ?s1 it)) (ITEM_get_cas (heap ?s1 a)) \<in> {CAS_NONE, CAS_MATCH}"
    using old(2) unfolding B(5,6) .
  have so: "store_old hash comm cr1 a it ?s1 =
    (if b = NULL then Some (s2, it, NULL, False, NOT_STORED)
     else do { (s3, r) \<leftarrow> store_item_copy_data hash comm a b it s2; Some (if r = - 1 then (s3, it, b, False, NOT_STORED) else (s3, b, b, True, NOT_STORED)) })"
    if "cr1 \<in> {CAS_NONE, CAS_MATCH}" for cr1
  proof -
    have "key_of (heap ?s1 it) = k" "nbytes (heap ?s1 it) = nbytes (heap s it)" using B(4) it(3) by simp_all
    moreover have "FLAGS_CONV (heap ?s1 a) = FLAGS_CONV (heap s a)" "exptime (heap ?s1 a) = exptime (heap s a)" "nbytes (heap ?s1 a) = nbytes (heap s a)"
      "\<not> has_flag ITEM_HDR (heap ?s1 a)" using old(3) by (simp_all add: h1 FLAGS_CONV_def has_flag_def)
    ultimately show ?thesis using that cr al(1) by (auto simp: store_old_def Let_def)
  qed
  show ?thesis
  proof (cases "b = NULL")
    case True
    then obtain Q2 F2 H2 where i2: "items_inv hash s2 m1 Q2 F2 H2 ?R" and mf: "may_fail k (FLAGS_CONV (heap s a)) ?nb s" using new by auto
    from store_drop [OF i2 it(2) same_data_value [OF va(2), THEN conjunct1] d2] obtain s4 where
      d: "do_item_remove a s2 = Some s4" "\<exists>Q F H. items_inv hash s4 m1 Q F H R" "data_kept (live m1 R) s s4" by blast
    have "do_store_item hash it comm th (hash k) s = Some (s4, NOT_STORED)"
      using n so [OF res] True d(1) by (simp add: do_store_item_def it(3) g)
    with d(2,3) lost mf show ?thesis by blast
  next
    case False
    then obtain Q2 F2 H2 where i2: "items_inv hash s2 m1 Q2 F2 H2 (?R(b := 1))" and nb: "b \<notin> ran m1" "?R b = 0" "key_of (heap s2 b) = k"
      "nbytes (heap s2 b) = ?nb" "exptime (heap s2 b) = exptime (heap s a)" using new by auto
    have ba: "b \<noteq> a" "b \<noteq> it" "R b = 0" using nb(2) it(2) by (auto split: if_splits)
    let ?R2 = "?R(b := 1)"
    have bl: "b \<in> live m1 ?R2" by (simp add: live_def)
    have nch: "\<not> has_flag ITEM_CHUNKED (heap s2 b)" using items_invD(6) [OF i2 bl] by (simp add: item_ok_def)
    have f2: "full_data (heap s2 a)" "full_data (heap s2 it)" "nbytes (heap s2 b) = nbytes (heap s2 a) + nbytes (heap s2 it) - 2"
      using f va nb(4) by (simp_all add: full_data_def same_data_def)
    from copy_data_value [OF c nch ba(1,2) f2, of hash] obtain g where cp: "store_item_copy_data hash comm a b it s2 = Some (upd_item b (\<lambda>i. i\<lparr>idata := g (idata i)\<rparr>) s2, 0)"
      "data_bytes b (upd_item b (\<lambda>i. i\<lparr>idata := g (idata i)\<rparr>) s2) = take (nat (nbytes (heap s2 p)) - 2) (data_bytes p s2) @ data_bytes q s2" by blast
    have vpq: "data_bytes p s2 = data_bytes p s" "data_bytes q s2 = data_bytes q s" "nbytes (heap s2 p) = nbytes (heap s p)"
      using c va by (auto simp: data_bytes_def same_data_def)
    define s3 where "s3 = upd_item b (\<lambda>i. i\<lparr>idata := g (idata i)\<rparr>) s2"
    note i3 = idata_inv [where g = g, OF i2 bl, folded s3_def]
    note cp = cp [folded s3_def, unfolded vpq]
    let ?s3 = "STORAGE_delete a s3"
    have si: "items_inv hash ?s3 m1 Q2 F2 H2 ?R2" using i3(1) by (simp add: STORAGE_delete_inv(1))
    have kb: "key_of (heap ?s3 b) = k" "exptime (heap ?s3 b) = exptime (heap s a)" using nb(3,5) by (simp_all add: STORAGE_delete_inv(3) s3_def key_of_def)
    have "0 < ?R2 a" "0 < ?R2 b" "?R2 b + 1 < 2 ^ 16" using ba(1) by simp_all
    from replace_inv [OF si this(1) m1 nb(1) this(2,3) kb(1)] obtain s4 Q4 F4 where r: "do_item_replace a b (hash k) ?s3 = Some s4"
      "items_inv hash s4 (m1(k \<mapsto> b)) Q4 F4 H2 ?R2" "data_kept (live m1 ?R2 - {b}) ?s3 s4" "same_value (heap s4 b) (heap ?s3 b)"
      "exptime (heap s4 b) = exptime (heap s a)" unfolding kb(2) by blast
    have rr: "?R2(a := ?R2 a - 1) = R(b := 1)" "(R(b := 1))(b := (R(b := 1)) b - 1) = R" using ba by (auto simp: fun_eq_iff)
    from do_item_remove_inv [OF r(2) \<open>0 < ?R2 a\<close>] obtain s5 F5 H5 where d5: "do_item_remove a s4 = Some s5" "data_kept (live (m1(k \<mapsto> b)) (R(b := 1))) s4 s5"
      "items_inv hash s5 (m1(k \<mapsto> b)) Q4 F5 H5 (R(b := 1))" unfolding rr(1) by blast
    from do_item_remove_inv [OF d5(3), of b] obtain s6 F6 H6 where d6: "do_item_remove b s5 = Some s6" "data_kept (live (m1(k \<mapsto> b)) R) s5 s6"
      "items_inv hash s6 (m1(k \<mapsto> b)) Q4 F6 H6 R" unfolding rr(2) by force
    let ?s = "s6\<lparr>conn_cas := ITEM_get_cas (heap s6 b)\<rparr>"
    have run: "do_store_item hash it comm th (hash k) s = Some (?s, STORED)"
      using n False so [OF res] cp(1) r(1) d5(1) d6(1) by (simp add: do_store_item_def it(3) g)
    have inv6: "items_inv hash ?s (m1(k \<mapsto> b)) Q4 F6 H6 R" by (rule counters_inv(4) [OF d6(3)])
    have bm: "b \<in> live (m1(k \<mapsto> b)) R" "b \<in> live (m1(k \<mapsto> b)) (R(b := 1))" by (auto simp: live_def intro: ranI [of _ k])
    have vb: "same_data (heap s5 b) (heap s4 b)" "same_data (heap s6 b) (heap s5 b)" using d5(2) d6(2) bm by (auto simp: data_kept_def)
    have v6: "same_value (heap ?s b) (heap s3 b)" "exptime (heap ?s b) = exptime (heap s a)"
      using same_data_value [OF vb(1)] same_data_value [OF vb(2)] r(4,5) STORAGE_delete_inv(3) [of a s3] by (auto simp: same_value_def)
    have dv: "data_bytes b ?s = take (nat (nbytes (heap s p)) - 2) (data_bytes p s) @ data_bytes q s"
      using data_bytes_same [OF v6(1)] cp(2) by simp
    let ?L = "live (m1(k \<mapsto> b)) R - {b}"
    have sub: "?L \<subseteq> live m1 R" "?L \<subseteq> live m1 ?R2 - {b}" "?L \<subseteq> live (m1(k \<mapsto> b)) (R(b := 1))" by (auto simp: live_def ran_def split: if_splits)
    have e3: "data_kept (live m1 ?R2 - {b}) s2 ?s3" using i3(2) [where A = "live m1 ?R2"] STORAGE_delete_inv(2) data_kept_tr by blast
    have "data_kept ?L s ?s3" by (rule data_kept_trans [OF d2 e3 sub(1,2)])
    from data_kept_trans [OF this r(3) order_refl sub(2)] have "data_kept ?L s s4" .
    from data_kept_trans [OF this d5(2) order_refl sub(3)] have "data_kept ?L s s5" .
    from data_kept_trans [OF this d6(2) order_refl] have "data_kept ?L s ?s" by (auto simp: data_kept_def)
    with run lost inv6 dv v6(2) nb(1) ba(3) show ?thesis by blast
  qed
qed

section \<open>The contract of arithmetic\<close>

text \<open>Why a command may refuse an item.\<close>

definition delta_error :: "uint64 option \<Rightarrow> item \<Rightarrow> delta_result_type option" where
  "delta_error cas x =
    (if nbytes x \<le> 2 \<or> it_flags x AND (ITEM_CHUNKED OR ITEM_HDR) \<noteq> 0 then Some NON_NUMERIC
     else if cas \<noteq> None \<and> cas \<noteq> Some 0 \<and> Some (ITEM_get_cas x) \<noteq> cas then Some DELTA_ITEM_CAS_MISMATCH
     else if \<not> fst (safe_strtoull (data_cstr x)) then Some NON_NUMERIC else None)"

text \<open>The text of the new value.\<close>

definition delta_text :: "bool \<Rightarrow> uint64 \<Rightarrow> item \<Rightarrow> bytes" where
  "delta_text incr delta x = itoa_u64 (delta_value incr delta (snd (safe_strtoull (data_cstr x)))) []"

lemma delta_refs:
  "delta_error cas (x\<lparr>refcount := r\<rparr>) = delta_error cas x" "delta_text incr delta (x\<lparr>refcount := r\<rparr>) = delta_text incr delta x"
  by (simp_all add: delta_error_def delta_text_def data_cstr_def ITEM_get_cas_def has_flag_def)

lemma add_delta_missing:
  fixes s :: "'a store_scheme"
  assumes inv: "items_inv hash s m Q F H R" and small: "\<forall>a \<in> ran m. R a + 3 < 2 ^ 16" and k: "fresh s m k = None"
  shows "\<exists>s'. add_delta hash th k incr delta cas s = Some (s', DELTA_ITEM_NOT_FOUND, [], cas) \<and> (\<exists>Q F H. items_inv hash s' (m(k := None)) Q F H R) \<and>
    data_kept (live (m(k := None)) R) s s'"
proof -
  from fresh_get [OF inv small, of k th] k obtain s1 Q1 F1 H1 where g: "do_item_get k (hash k) th False s = Some (s1, NULL)"
    "items_inv hash s1 (m(k := None)) Q1 F1 H1 R" "data_kept (live (m(k := None)) R) s s1" by auto
  have "add_delta hash th k incr delta cas s = Some (s1, DELTA_ITEM_NOT_FOUND, [], cas)" by (simp add: add_delta_def do_add_delta_def g(1))
  with g(2,3) show ?thesis by blast
qed

lemma add_delta_refused:
  fixes s :: "'a store_scheme"
  assumes inv: "items_inv hash s m Q F H R" and small: "\<forall>a \<in> ran m. R a + 3 < 2 ^ 16" and k: "fresh s m k = Some a"
    and e: "delta_error cas (heap s a) = Some e"
  shows "\<exists>s'. add_delta hash th k incr delta cas s = Some (s', e, [], cas) \<and> (\<exists>Q F H. items_inv hash s' m Q F H R) \<and> data_kept (live m R) s s'"
proof -
  from fresh_get [OF inv small, of k th] k have mk: "m k = Some a" and g: "do_item_get k (hash k) th False s = Some (refcount_incr a s, a)"
    and n: "a \<noteq> NULL" by auto
  have "a \<in> ran m" using mk by (rule ranI)
  then have "a \<in> live m R" "R a + 2 < 2 ^ 16" using small by (auto simp: live_def)
  note B = refcount_incr_inv [OF inv this]
  have rr: "(R(a := R a + 1))(a := (R(a := R a + 1)) a - 1) = R" by simp
  from do_item_remove_inv [OF B(1), of a] obtain s4 F4 H4 where d: "do_item_remove a (refcount_incr a s) = Some s4" "data_kept (live m R) (refcount_incr a s) s4"
    "items_inv hash s4 m Q F4 H4 R" unfolding rr by force
  have "heap (refcount_incr a s) a = (heap s a)\<lparr>refcount := refcount (heap s a) + 1\<rparr>" by (simp add: refcount_incr_def)
  then have e1: "delta_error cas (heap (refcount_incr a s) a) = Some e" using e by (simp add: delta_refs)
  let ?x = "heap (refcount_incr a s) a"
  obtain ok v0 where p: "safe_strtoull (data_cstr ?x) = (ok, v0)" by fastforce
  consider (small) "nbytes ?x \<le> 2 \<or> it_flags ?x AND (ITEM_CHUNKED OR ITEM_HDR) \<noteq> 0" "e = NON_NUMERIC"
    | (mismatch) "\<not> (nbytes ?x \<le> 2 \<or> it_flags ?x AND (ITEM_CHUNKED OR ITEM_HDR) \<noteq> 0)"
        "cas \<noteq> None \<and> cas \<noteq> Some 0 \<and> Some (ITEM_get_cas ?x) \<noteq> cas" "e = DELTA_ITEM_CAS_MISMATCH"
    | (notext) "\<not> (nbytes ?x \<le> 2 \<or> it_flags ?x AND (ITEM_CHUNKED OR ITEM_HDR) \<noteq> 0)"
        "\<not> (cas \<noteq> None \<and> cas \<noteq> Some 0 \<and> Some (ITEM_get_cas ?x) \<noteq> cas)" "\<not> ok" "e = NON_NUMERIC"
    using e1 p unfolding delta_error_def by (metis fst_conv option.distinct(1) option.inject)
  then have "do_add_delta hash th k incr delta cas (hash k) False s = Some (s4, e, [], cas, NULL)"
  proof cases
    case small
    show ?thesis unfolding do_add_delta_def g Option.bind.bind_lunit prod.case Let_def if_not_P [OF n] if_P [OF small(1)] d(1) small(2) ..
  next
    case mismatch
    show ?thesis unfolding do_add_delta_def g Option.bind.bind_lunit prod.case Let_def if_not_P [OF n] if_not_P [OF mismatch(1)] if_P [OF mismatch(2)] d(1) mismatch(3) ..
  next
    case notext
    show ?thesis unfolding do_add_delta_def g Option.bind.bind_lunit prod.case Let_def if_not_P [OF n] if_not_P [OF notext(1)] if_not_P [OF notext(2)] p if_P [OF notext(3)] d(1) notext(4) ..
  qed
  then have "add_delta hash th k incr delta cas s = Some (s4, e, [], cas)" by (simp add: add_delta_def)
  with d(3) data_kept_tr [OF B(2) d(2)] show ?thesis by blast
qed

text \<open>The value of an item changed in place.\<close>

lemma pad_join:
  assumes "n \<le> length x" "length t + 2 \<le> n"
  shows "take n (copy_at (copy_at x 0 t) (length t) (replicate (n - length t - 2) c)) = t @ replicate (n - length t - 2) c @ drop (n - 2) (take n x)"
  using assms by (simp add: copy_at_def drop_take)

lemma delta_put_heap:
  "\<exists>c. heap (delta_put a t s) = (heap s)(a := (ITEM_set_cas c (heap s a))\<lparr>idata :=
     copy_at (copy_at (idata (heap s a)) 0 t) (length t) (replicate (nat (nbytes (heap s a) - int (length t) - 2)) 32)\<rparr>)"
  "same_tables s (delta_put a t s)" "curr_items (delta_put a t s) = curr_items s" "curr_bytes (delta_put a t s) = curr_bytes s"
  "current_time (delta_put a t s) = current_time s"
proof -
  obtain h where h: "item_stats_sizes_remove (heap s a) s = s\<lparr>stats_sizes_hist := h\<rparr>" using sizes_remove_eq by blast
  define c where "c = (if has_flag ITEM_CAS (heap s a) \<and> use_cas (settings s) then cas_id s + 1 else 0)"
  define t2 where "t2 = (if has_flag ITEM_CAS (heap s a) \<and> use_cas (settings s) then s\<lparr>stats_sizes_hist := h, cas_id := cas_id s + 1\<rparr> else s\<lparr>stats_sizes_hist := h\<rparr>)"
  have g: "(if has_flag ITEM_CAS (heap s a) \<and> use_cas (settings (s\<lparr>stats_sizes_hist := h\<rparr>)) then get_cas_id (s\<lparr>stats_sizes_hist := h\<rparr>) else (s\<lparr>stats_sizes_hist := h\<rparr>, 0)) = (t2, c)"
    by (simp add: get_cas_id_def c_def t2_def Let_def)
  define t3 where "t3 = upd_item a (ITEM_set_cas c) t2"
  obtain h' where h': "item_stats_sizes_add (heap t3 a) t3 = t3\<lparr>stats_sizes_hist := h'\<rparr>" using sizes_add_eq by blast
  have e: "delta_put a t s = put_data a (int (length t)) (replicate (nat (nbytes (heap s a) - int (length t) - 2)) 32) (put_data a 0 t (t3\<lparr>stats_sizes_hist := h'\<rparr>))"
    unfolding delta_put_def Let_def h g prod.case t3_def [symmetric] h' ..
  have t2: "heap t2 = heap s" "same_tables s t2" "curr_items t2 = curr_items s" "curr_bytes t2 = curr_bytes s" "current_time t2 = current_time s"
    by (simp_all add: t2_def same_tables_def)
  have "idata (ITEM_set_cas c x) = idata x" for c x by (simp add: ITEM_set_cas_def)
  then show "\<exists>c. heap (delta_put a t s) = (heap s)(a := (ITEM_set_cas c (heap s a))\<lparr>idata :=
     copy_at (copy_at (idata (heap s a)) 0 t) (length t) (replicate (nat (nbytes (heap s a) - int (length t) - 2)) 32)\<rparr>)"
    by (intro exI [of _ c]) (simp add: e put_data_def t3_def t2(1))
  show "same_tables s (delta_put a t s)" "curr_items (delta_put a t s) = curr_items s" "curr_bytes (delta_put a t s) = curr_bytes s"
    "current_time (delta_put a t s) = current_time s"
    using t2 by (simp_all add: e put_data_def t3_def same_tables_def)
qed

text \<open>The run of the command once the value is accepted.\<close>

lemma delta_count_inv:
  "items_inv hash s m Q F H R \<Longrightarrow> items_inv hash (delta_count incr a s) m Q F H R" "heap (delta_count incr a s) = heap s"
  "data_kept A s (delta_count incr a s)" "same_tables s (delta_count incr a s)" "mem_base (delta_count incr a s) = mem_base s"
  "current_time (delta_count incr a s) = current_time s"
  by (simp_all add: delta_count_def Let_def counters_inv(5,6) data_kept_def same_tables_def)

lemma add_delta_run:
  assumes g: "do_item_get k hv th False s = Some (s1, a)" "a \<noteq> NULL" and e: "delta_error cas (heap s1 a) = None"
    and t: "t = delta_text incr delta (heap s1 a)" and r: "refcount (heap s1 a) > 1"
    and b: "(if int (length t) + 2 \<le> nbytes (heap s1 a) \<and> refcount (heap s1 a) = 2 then Some (do_item_update a (delta_put a t (delta_count incr a s1)), OK)
      else delta_new hash a t hv (delta_count incr a s1)) = Some (s3, v)"
  shows "do_add_delta hash th k incr delta cas hv False s =
    (if v \<noteq> OK then Some (s3, v, t, cas, NULL)
     else do { s4 \<leftarrow> do_item_remove a s3; Some (s4, OK, t, if cas \<noteq> None then Some (ITEM_get_cas (heap s3 a)) else None, NULL) })"
proof -
  let ?x = "heap s1 a"
  obtain ok v0 where p: "safe_strtoull (data_cstr ?x) = (ok, v0)" by fastforce
  have c: "\<not> (nbytes ?x \<le> 2 \<or> it_flags ?x AND (ITEM_CHUNKED OR ITEM_HDR) \<noteq> 0)"
    "\<not> (cas \<noteq> None \<and> cas \<noteq> Some 0 \<and> Some (ITEM_get_cas ?x) \<noteq> cas)" "ok"
    using e p unfolding delta_error_def by (metis fst_conv option.distinct(1))+
  have t': "itoa_u64 (delta_value incr delta v0) [] = t" by (simp add: t delta_text_def p)
  show ?thesis
    unfolding do_add_delta_def g(1) Option.bind.bind_lunit prod.case Let_def if_not_P [OF g(2)] if_not_P [OF c(1)] if_not_P [OF c(2)] p t' if_P [OF r] b
    using c(3) by simp
qed

text \<open>What the command leaves under the key: the text, blanks, and the end of line.\<close>

lemma delta_put_inv:
  fixes s :: "'a store_scheme"
  assumes inv: "items_inv hash s m Q F H R" and a: "a \<in> live m R" and f: "full_data (heap s a)" and l: "int (length t) + 2 \<le> nbytes (heap s a)"
  shows "\<exists>Q. items_inv hash (do_item_update a (delta_put a t s)) m Q F H R"
    "data_kept (A - {a}) s (do_item_update a (delta_put a t s))"
    "data_bytes a (do_item_update a (delta_put a t s)) =
       t @ replicate (nat (nbytes (heap s a)) - length t - 2) 32 @ drop (nat (nbytes (heap s a)) - 2) (data_bytes a s)"
    "exptime (heap (do_item_update a (delta_put a t s)) a) = exptime (heap s a)"
proof -
  let ?x = "heap s a" and ?s = "delta_put a t s"
  note P = delta_put_heap [where a = a and t = t and s = s]
  from P(1) obtain c where h: "heap ?s = (heap s)(a := (ITEM_set_cas c ?x)\<lparr>idata :=
     copy_at (copy_at (idata ?x) 0 t) (length t) (replicate (nat (nbytes ?x - int (length t) - 2)) 32)\<rparr>)" by blast
  have i1: "items_inv hash ?s m Q F H R"
  proof (rule items_inv_tweak [OF inv P(2,3,4)])
    show "same_core (heap ?s b) (heap s b)" for b by (simp add: h same_core_def ITEM_set_cas_def)
    show "heap ?s b = heap s b" if "b \<notin> live m R" for b using that a by (auto simp: h)
    show "unat (refcount (heap ?s b)) = R b + (if b \<in> ran m then 1 else 0)" if "b \<in> live m R" for b
      using items_invD(6) [OF inv that] by (auto simp: h item_ok_def ITEM_set_cas_def)
  qed
  from do_item_update_inv(1) [OF i1 a] show "\<exists>Q. items_inv hash (do_item_update a ?s) m Q F H R" .
  have dk: "data_kept B ?s (do_item_update a ?s)" for B by (rule do_item_update_inv(2) [OF i1 a])
  have dp: "data_kept (B - {a}) s ?s" for B using P(2,5) by (simp add: data_kept_def h same_tables_def)
  show "data_kept (A - {a}) s (do_item_update a ?s)" by (rule data_kept_tr [OF dp dk])
  have sd: "same_data (heap (do_item_update a ?s) a) (heap ?s a)" using dk [of "{a}"] by (simp add: data_kept_def)
  have ex: "exptime (heap ?s a) = exptime ?x" "nbytes (heap ?s a) = nbytes ?x" by (simp_all add: h ITEM_set_cas_def)
  then show "exptime (heap (do_item_update a ?s) a) = exptime ?x" using sd by (simp add: same_data_def)
  have n: "nat (nbytes ?x - int (length t) - 2) = nat (nbytes ?x) - length t - 2" "nat (nbytes ?x) \<le> length (idata ?x)" "length t + 2 \<le> nat (nbytes ?x)"
    using f l unfolding full_data_def by linarith+
  have "data_bytes a (do_item_update a ?s) = data_bytes a ?s" using same_data_value [OF sd] by (intro data_bytes_same) simp
  also have "\<dots> = take (nat (nbytes ?x)) (copy_at (copy_at (idata ?x) 0 t) (length t) (replicate (nat (nbytes ?x) - length t - 2) 32))"
    unfolding data_bytes_def ex by (simp add: h n(1))
  also have "\<dots> = t @ replicate (nat (nbytes ?x) - length t - 2) 32 @ drop (nat (nbytes ?x) - 2) (data_bytes a s)"
    unfolding data_bytes_def by (rule pad_join [OF n(2,3)])
  finally show "data_bytes a (do_item_update a ?s) = t @ replicate (nat (nbytes ?x) - length t - 2) 32 @ drop (nat (nbytes ?x) - 2) (data_bytes a s)" .
qed

lemma put_two:
  "data_bytes b (put_data b (int (length t)) [13, 10] (put_data b 0 t s)) = t @ [13, 10]" if "nbytes (heap s b) = int (length t) + 2"
  using that by (simp add: data_bytes_def put_data_def copy_at_def nat_add_distrib)

lemma delta_new_inv:
  fixes s :: "'a store_scheme"
  assumes inv: "items_inv hash s m Q F H R" and a: "0 < R a" "m k = Some a" and pre: "pull_pre s m R"
    and key: "key_of (heap s a) = k" and sz: "size_pre k (FLAGS_CONV (heap s a)) (int (length t) + 2) s"
  shows "\<exists>s' v m1. delta_new hash a t (hash k) s = Some (s', v) \<and> lost_upto 10 s m m1 \<and>
    (v = EOM \<and> may_fail k (FLAGS_CONV (heap s a)) (int (length t) + 2) s \<and> (\<exists>Q F H. items_inv hash s' m1 Q F H (R(a := R a - 1))) \<and> data_kept (live m1 (R(a := R a - 1))) s s' \<or>
     v = OK \<and> (\<exists>b. b \<notin> ran m1 \<and> R b = 0 \<and> (\<exists>Q F H. items_inv hash s' (m1(k \<mapsto> b)) Q F H R) \<and>
       data_kept (live (m1(k \<mapsto> b)) R - {a, b}) s s' \<and> data_bytes b s' = t @ [13, 10] \<and> exptime (heap s' b) = exptime (heap s a)))"
proof -
  let ?x = "heap s a"
  from alloc_inv' [OF inv pre sz, of "exptime ?x"] obtain s2 b m1 where
    al: "do_item_alloc hash k (FLAGS_CONV ?x) (exptime ?x) (int (length t) + 2) s = Some (s2, b)" "data_kept (live m1 R) s s2" "lost_upto 10 s m m1"
    and new: "if b = NULL then may_fail k (FLAGS_CONV ?x) (int (length t) + 2) s \<and> (\<exists>Q F H. items_inv hash s2 m1 Q F H R)
       else item_size_ok (of_nat (length k)) (FLAGS_CONV ?x) (int (length t) + 2) s \<and> (\<exists>Q F H. items_inv hash s2 m1 Q F H (R(b := 1))) \<and> b \<notin> ran m1 \<and> R b = 0 \<and>
         key_of (heap s2 b) = k \<and> nbytes (heap s2 b) = int (length t) + 2 \<and> exptime (heap s2 b) = exptime ?x \<and> FLAGS_CONV (heap s2 b) = FLAGS_CONV ?x" by blast
  note m1 = map_mono_cases [OF inv _ a(2), of m1]
  show ?thesis
  proof (cases "b = NULL")
    case True
    then obtain Q2 F2 H2 where i2: "items_inv hash s2 m1 Q2 F2 H2 R" and mf: "may_fail k (FLAGS_CONV ?x) (int (length t) + 2) s" using new by auto
    from do_item_remove_inv [OF i2 a(1)] obtain s4 F4 H4 where d: "do_item_remove a s2 = Some s4" "data_kept (live m1 (R(a := R a - 1))) s2 s4"
      "items_inv hash s4 m1 Q2 F4 H4 (R(a := R a - 1))" by blast
    have "data_kept (live m1 (R(a := R a - 1))) s s4" by (rule data_kept_trans [OF al(2) d(2)]) (auto simp: live_def split: if_splits)
    moreover have "delta_new hash a t (hash k) s = Some (s4, EOM)" using al(1) True d(1) by (simp add: delta_new_def key Let_def)
    ultimately show ?thesis using al(3) d(3) mf by blast
  next
    case False
    then obtain Q2 F2 H2 where i2: "items_inv hash s2 m1 Q2 F2 H2 (R(b := 1))" and nb: "b \<notin> ran m1" "R b = 0" "key_of (heap s2 b) = k"
      "nbytes (heap s2 b) = int (length t) + 2" "exptime (heap s2 b) = exptime ?x" using new by auto
    let ?R2 = "R(b := 1)"
    have ba: "b \<noteq> a" using nb(2) a(1) by auto
    have bl: "b \<in> live m1 ?R2" by (simp add: live_def)
    define g where "g = (\<lambda>x :: bytes. copy_at (copy_at x 0 t) (length t) [13, 10])"
    define s3 where "s3 = upd_item b (\<lambda>i. i\<lparr>idata := g (idata i)\<rparr>) s2"
    have p: "put_data b (int (length t)) [13, 10] (put_data b 0 t s2) = s3" by (simp add: put_data_def s3_def g_def)
    note i3 = idata_inv [where g = g, OF i2 bl, folded s3_def]
    have tb: "data_bytes b s3 = t @ [13, 10]" using put_two [OF nb(4)] unfolding p .
    have kb: "key_of (heap s3 b) = k" "exptime (heap s3 b) = exptime ?x" using nb(3,5) by (simp_all add: s3_def key_of_def)
    have "0 < ?R2 a" "0 < ?R2 b" "?R2 b + 1 < 2 ^ 16" using ba a(1) by simp_all
    from replace_inv [OF i3(1) this(1) m1 nb(1) this(2,3) kb(1)] al(3) obtain s4 Q4 F4 where r: "do_item_replace a b (hash k) s3 = Some s4"
      "items_inv hash s4 (m1(k \<mapsto> b)) Q4 F4 H2 ?R2" "data_kept (live m1 ?R2 - {b}) s3 s4" "same_value (heap s4 b) (heap s3 b)"
      "exptime (heap s4 b) = exptime ?x" unfolding kb(2) lost_upto_def by blast
    define s5 where "s5 = upd_item a (ITEM_set_cas (if use_cas (settings s4) then ITEM_get_cas (heap s4 b) else 0)) s4"
    have al5: "a \<in> live (m1(k \<mapsto> b)) ?R2" using a(1) ba by (simp add: live_def)
    have i5: "items_inv hash s5 (m1(k \<mapsto> b)) Q4 F4 H2 ?R2" unfolding s5_def
      by (rule mark_inv [OF r(2) al5]) (simp add: same_core_def ITEM_set_cas_def)
    have d5: "data_kept (A - {a}) s4 s5" "heap s5 b = heap s4 b" for A using ba by (simp_all add: s5_def data_kept_def)
    have rr: "?R2(b := ?R2 b - 1) = R" using nb(2) by (auto simp: fun_eq_iff)
    from do_item_remove_inv [OF i5, of b] obtain s6 F6 H6 where d6: "do_item_remove b s5 = Some s6" "data_kept (live (m1(k \<mapsto> b)) R) s5 s6"
      "items_inv hash s6 (m1(k \<mapsto> b)) Q4 F6 H6 R" unfolding rr by force
    have run: "delta_new hash a t (hash k) s = Some (s6, OK)"
      using al(1) False r(1) d6(1) by (simp add: delta_new_def key Let_def p flip: s5_def del: upd_item_def)
    have "b \<in> live (m1(k \<mapsto> b)) R" by (auto simp: live_def intro: ranI [of _ k])
    then have vb: "same_data (heap s6 b) (heap s5 b)" using d6(2) by (auto simp: data_kept_def)
    have v6: "same_value (heap s6 b) (heap s3 b)" "exptime (heap s6 b) = exptime ?x"
      using same_data_value [OF vb] r(4,5) d5(2) by (auto simp: same_value_def)
    let ?L = "live (m1(k \<mapsto> b)) R - {a, b}"
    have sub: "?L \<subseteq> live m1 R" "?L \<subseteq> live m1 ?R2 - {b}" "?L \<subseteq> live (m1(k \<mapsto> b)) R" "?L \<subseteq> live m1 ?R2 - {a}" by (auto simp: live_def ran_def split: if_splits)
    have "data_kept ?L s s3" by (rule data_kept_trans [OF al(2) i3(2) sub(1,2)])
    from data_kept_trans [OF this r(3) order_refl sub(2)] have "data_kept ?L s s4" .
    from data_kept_trans [OF this d5(1) order_refl sub(4)] have "data_kept ?L s s5" .
    from data_kept_trans [OF this d6(2) order_refl sub(3)] have "data_kept ?L s s6" .
    with run al(3) d6(3) data_bytes_same [OF v6(1)] tb v6(2) nb(1,2) show ?thesis by metis
  qed
qed

lemma add_delta_accepted:
  fixes s :: "'a store_scheme"
  assumes inv: "items_inv hash s m Q F H R" and small: "\<forall>a \<in> ran m. R a + 3 < 2 ^ 16" and pre: "pull_pre s m R"
    and k: "fresh s m k = Some a" and e: "delta_error cas (heap s a) = None" and f: "full_data (heap s a)"
    and t: "t = delta_text incr delta (heap s a)" and sz: "size_pre k (FLAGS_CONV (heap s a)) (int (length t) + 2) s"
  shows "\<exists>s' v cas' m1. add_delta hash th k incr delta cas s = Some (s', v, t, cas') \<and> lost_upto 10 s m m1 \<and>
    (v = EOM \<and> may_fail k (FLAGS_CONV (heap s a)) (int (length t) + 2) s \<and> (\<exists>Q F H. items_inv hash s' m1 Q F H R) \<and> data_kept (live m1 R) s s' \<or>
     v = OK \<and> (\<exists>b. (\<exists>Q F H. items_inv hash s' (m1(k \<mapsto> b)) Q F H R) \<and> data_kept (live (m1(k \<mapsto> b)) R - {a, b}) s s' \<and>
       data_bytes b s' = (if R a = 0 \<and> length t + 2 \<le> nat (nbytes (heap s a))
         then t @ replicate (nat (nbytes (heap s a)) - length t - 2) 32 @ drop (nat (nbytes (heap s a)) - 2) (data_bytes a s) else t @ [13, 10]) \<and>
       exptime (heap s' b) = exptime (heap s a)))"
proof -
  from fresh_get [OF inv small, of k th] k have mk: "m k = Some a" and g: "do_item_get k (hash k) th False s = Some (refcount_incr a s, a)"
    and n: "a \<noteq> NULL" by auto
  have ar: "a \<in> ran m" using mk by (rule ranI)
  then have al: "a \<in> live m R" "R a + 2 < 2 ^ 16" using small by (auto simp: live_def)
  let ?s1 = "refcount_incr a s" and ?R = "R(a := R a + 1)"
  let ?s2 = "delta_count incr a ?s1"
  note B = refcount_incr_inv [OF inv al]
  have h1: "heap ?s1 a = (heap s a)\<lparr>refcount := refcount (heap s a) + 1\<rparr>" by (simp add: refcount_incr_def)
  have e1: "delta_error cas (heap ?s1 a) = None" and t1: "t = delta_text incr delta (heap ?s1 a)" using e t by (simp_all add: h1 delta_refs)
  have nb1: "nbytes (heap ?s1 a) = nbytes (heap s a)" "exptime (heap ?s1 a) = exptime (heap s a)" "full_data (heap ?s1 a)"
    "FLAGS_CONV (heap ?s1 a) = FLAGS_CONV (heap s a)" "data_bytes a ?s1 = data_bytes a s"
    using f by (simp_all add: h1 full_data_def FLAGS_CONV_def has_flag_def data_bytes_def)
  have al1: "a \<in> live m ?R" by (simp add: live_def)
  have "unat (refcount (heap ?s1 a)) = R a + 2" using items_invD(6) [OF B(1) al1] ar by (simp add: item_ok_def)
  then have rc: "refcount (heap ?s1 a) > 1" "refcount (heap ?s1 a) = 2 \<longleftrightarrow> R a = 0"
    by (simp_all add: word_less_nat_alt word_unat_eq_iff)
  note C = delta_count_inv [where a = a and incr = incr and s = ?s1]
  have i2: "items_inv hash ?s2 m Q F H ?R" by (rule C(1) [OF B(1)])
  have rr: "?R(a := ?R a - 1) = R" by simp
  have dk2: "data_kept A s ?s2" for A by (rule data_kept_tr [OF B(2) C(3)])
  note run = add_delta_run [OF g n e1 t1 rc(1)]
  show ?thesis
  proof (cases "int (length t) + 2 \<le> nbytes (heap s a) \<and> R a = 0")
    case True
    let ?s3 = "do_item_update a (delta_put a t ?s2)"
    note D = delta_put_inv [OF i2 al1, unfolded C(2), OF nb1(3), of t]
    have l: "int (length t) + 2 \<le> nbytes (heap ?s1 a)" using True nb1(1) by simp
    from D(1) [OF l] obtain Q3 where i3: "items_inv hash ?s3 m Q3 F H ?R" by blast
    from do_item_remove_inv [OF i3, of a] obtain s4 F4 H4 where d: "do_item_remove a ?s3 = Some s4" "data_kept (live m R) ?s3 s4"
      "items_inv hash s4 m Q3 F4 H4 R" unfolding rr by force
    have ev: "(if int (length t) + 2 \<le> nbytes (heap ?s1 a) \<and> refcount (heap ?s1 a) = 2 then Some (?s3, OK) else delta_new hash a t (hash k) ?s2) = Some (?s3, OK)"
      using True rc(2) l by simp
    have r: "add_delta hash th k incr delta cas s = Some (s4, OK, t, if cas \<noteq> None then Some (ITEM_get_cas (heap ?s3 a)) else None)"
      using run [OF ev] d(1) by (simp add: add_delta_def)
    have m: "m(k \<mapsto> a) = m" using mk by auto
    have dk: "data_kept (live m R - {a, a}) s s4"
      by (rule data_kept_trans [OF data_kept_tr [OF dk2 D(2) [OF l, where A = "live m R"]] d(2)]) auto
    have vb: "same_data (heap s4 a) (heap ?s3 a)" using d(2) al(1) by (auto simp: data_kept_def)
    have v4: "data_bytes a s4 = t @ replicate (nat (nbytes (heap s a)) - length t - 2) 32 @ drop (nat (nbytes (heap s a)) - 2) (data_bytes a s)"
      using data_bytes_same [OF same_data_value [OF vb, THEN conjunct1]] D(3) [OF l] nb1(1,5) C(2) by (simp add: data_bytes_def)
    have ex: "exptime (heap s4 a) = exptime (heap s a)" using vb D(4) [OF l] nb1(2) by (simp add: same_data_def)
    have c: "R a = 0 \<and> length t + 2 \<le> nat (nbytes (heap s a))" using True by linarith
    have lo: "lost_upto 10 s m m" by simp
    from r lo d(3) dk v4 ex show ?thesis unfolding if_P [OF c]
      by (intro exI [of _ s4] exI [of _ OK] exI [of _ "if cas \<noteq> None then Some (ITEM_get_cas (heap ?s3 a)) else None"] exI [of _ m] conjI disjI2 exI [of _ a] refl)
        (simp_all add: m, blast)
  next
    case False
    have p1: "pull_pre ?s2 m ?R" using pre small dk2 [of "ran m"] C(4) by (auto simp: pull_pre_def data_kept_def same_data_def)
    have k2: "key_of (heap ?s2 a) = k" using assoc_key [OF items_invD(1) [OF inv] mk] unfolding C(2) h1 by (simp add: key_of_def)
    have sz1: "size_pre k (FLAGS_CONV (heap ?s2 a)) (int (length t) + 2) ?s1" using size_pre_refs(1) sz unfolding C(2) nb1(4) by blast
    have sz2: "size_pre k (FLAGS_CONV (heap ?s2 a)) (int (length t) + 2) ?s2"
      using sz1 C(4,5) size_pre_cong(1) [of ?s2 ?s1] by (simp add: same_tables_def)
    have mf2: "may_fail k (FLAGS_CONV (heap ?s2 a)) (int (length t) + 2) ?s2 = may_fail k (FLAGS_CONV (heap s a)) (int (length t) + 2) s"
      using size_pre_refs(2) [of k "FLAGS_CONV (heap s a)" "int (length t) + 2" a s] C(4,5) size_pre_cong(2) [of ?s2 ?s1] unfolding C(2) nb1(4)
      by (simp add: same_tables_def)
    have pos: "0 < ?R a" by simp
    from delta_new_inv [OF i2 pos mk p1 k2 sz2, unfolded rr mf2] obtain s3 v m1 where w: "delta_new hash a t (hash k) ?s2 = Some (s3, v)" "lost_upto 10 ?s2 m m1"
      "v = EOM \<and> may_fail k (FLAGS_CONV (heap s a)) (int (length t) + 2) s \<and> (\<exists>Q F H. items_inv hash s3 m1 Q F H R) \<and> data_kept (live m1 R) ?s2 s3 \<or>
       v = OK \<and> (\<exists>b. b \<notin> ran m1 \<and> ?R b = 0 \<and> (\<exists>Q F H. items_inv hash s3 (m1(k \<mapsto> b)) Q F H ?R) \<and>
         data_kept (live (m1(k \<mapsto> b)) ?R - {a, b}) ?s2 s3 \<and> data_bytes b s3 = t @ [13, 10] \<and> exptime (heap s3 b) = exptime (heap ?s2 a))" by blast
    have h0: "heap ?s1 b = (heap s b)\<lparr>refcount := (if b = a then refcount (heap s a) + 1 else refcount (heap s b))\<rparr>" for b by (simp add: refcount_incr_def)
    have lk: "life_kept (ran m) s ?s2" using dk2 [of "ran m"] by (simp add: life_kept_def same_life_def C(2) h0 has_flag_def)
    have lost: "lost_upto 10 s m m1" using lost_trans [OF lost_upto_refl [of 0] lk w(2)] by simp
    have ev: "(if int (length t) + 2 \<le> nbytes (heap ?s1 a) \<and> refcount (heap ?s1 a) = 2 then Some (do_item_update a (delta_put a t ?s2), OK)
      else delta_new hash a t (hash k) ?s2) = Some (s3, v)" using False rc(2) nb1(1) w(1) by auto
    have c: "\<not> (R a = 0 \<and> length t + 2 \<le> nat (nbytes (heap s a)))" using False f unfolding full_data_def by linarith
    note r = run [OF ev]
    from w(3) show ?thesis
    proof
      assume o: "v = EOM \<and> may_fail k (FLAGS_CONV (heap s a)) (int (length t) + 2) s \<and> (\<exists>Q F H. items_inv hash s3 m1 Q F H R) \<and> data_kept (live m1 R) ?s2 s3"
      then have "add_delta hash th k incr delta cas s = Some (s3, EOM, t, cas)" using r by (simp add: add_delta_def)
      moreover have "data_kept (live m1 R) s s3" using o data_kept_tr [OF dk2] by blast
      ultimately show ?thesis using o lost by blast
    next
      assume "v = OK \<and> (\<exists>b. b \<notin> ran m1 \<and> ?R b = 0 \<and> (\<exists>Q F H. items_inv hash s3 (m1(k \<mapsto> b)) Q F H ?R) \<and>
         data_kept (live (m1(k \<mapsto> b)) ?R - {a, b}) ?s2 s3 \<and> data_bytes b s3 = t @ [13, 10] \<and> exptime (heap s3 b) = exptime (heap ?s2 a))"
      then obtain b Q3 F3 H3 where o: "v = OK" "b \<notin> ran m1" "?R b = 0" "items_inv hash s3 (m1(k \<mapsto> b)) Q3 F3 H3 ?R"
        "data_kept (live (m1(k \<mapsto> b)) ?R - {a, b}) ?s2 s3" "data_bytes b s3 = t @ [13, 10]" "exptime (heap s3 b) = exptime (heap ?s2 a)" by blast
      from do_item_remove_inv [OF o(4), of a] obtain s4 F4 H4 where d: "do_item_remove a s3 = Some s4" "data_kept (live (m1(k \<mapsto> b)) R) s3 s4"
        "items_inv hash s4 (m1(k \<mapsto> b)) Q3 F4 H4 R" unfolding rr by force
      have r4: "add_delta hash th k incr delta cas s = Some (s4, OK, t, if cas \<noteq> None then Some (ITEM_get_cas (heap s3 a)) else None)"
        using r d(1) o(1) by (simp add: add_delta_def)
      have "b \<in> live (m1(k \<mapsto> b)) R" by (auto simp: live_def intro: ranI [of _ k])
      then have vb: "same_data (heap s4 b) (heap s3 b)" using d(2) by (auto simp: data_kept_def)
      have v4: "data_bytes b s4 = t @ [13, 10]" using data_bytes_same [OF same_data_value [OF vb, THEN conjunct1]] o(6) by simp
      have ex: "exptime (heap s4 b) = exptime (heap s a)" using vb o(7) nb1(2) by (simp add: same_data_def C(2))
      have dk: "data_kept (live (m1(k \<mapsto> b)) R - {a, b}) s s4"
        by (rule data_kept_trans [OF data_kept_tr [OF dk2 o(5)] d(2)]) (auto simp: live_def)
      show ?thesis unfolding if_not_P [OF c] using r4 lost d(3) dk v4 ex by blast
    qed
  qed
qed

section \<open>Fetching with a limit\<close>

lemma touch_inv:
  assumes "items_inv hash s m Q F H R" "a \<in> live m R"
  shows "items_inv hash (upd_item a (exptime_update (\<lambda>_. et)) s) m Q F H R"
  by (rule mark_inv [OF assms]) (simp add: same_core_def)

text \<open>What a fetch with a bump gives, in terms of the items that are not dead.\<close>

lemma fresh_fetch:
  assumes inv: "items_inv hash s m Q F H R" and small: "\<forall>a \<in> ran m. R a + 3 < 2 ^ 16"
  shows "\<exists>s' it Q' F' H' R'. do_item_get k (hash k) th upd s = Some (s', it) \<and>
    items_inv hash s' (if fresh s m k = None then m(k := None) else m) Q' F' H' R' \<and>
    (case fresh s m k of None \<Rightarrow> it = NULL \<and> R' = R | Some a \<Rightarrow> it = a \<and> a \<noteq> NULL \<and> m k = Some a \<and> (R' = R(a := R a + 1) \<or> R' = R(a := R a + 2)))"
proof (cases "m k")
  case None
  then have "m(k := None) = m" by (simp add: fun_upd_idem)
  with None inv do_item_get_inv [OF inv small, of k th upd] show ?thesis by (auto simp: fresh_def)
next
  case (Some a)
  have n: "a \<noteq> NULL" using Some live_held(2) [OF inv, of a] by (auto simp: live_def intro: ranI)
  note G = do_item_get_inv [OF inv small, of k th upd, unfolded Some option.case]
  show ?thesis
  proof (cases "item_dead (heap s a) s")
    case True
    then have f: "fresh s m k = None" by (simp add: fresh_def Some)
    from G True show ?thesis unfolding f option.case by (simp del: fun_upd_apply) blast
  next
    case False
    then have f: "fresh s m k = Some a" by (simp add: fresh_def Some)
    from G False n show ?thesis unfolding f option.case by (simp add: Some del: fun_upd_apply) blast
  qed
qed

lemma limited_get_inv:
  assumes inv: "items_inv hash s m Q F H R" and small: "\<forall>a \<in> ran m. R a + 3 < 2 ^ 16"
  shows "\<exists>s' it ov Q' F' H' R'. limited_get hash k th et touch upd s = Some (s', it, ov) \<and>
    items_inv hash s' (if fresh s m k = None then m(k := None) else m) Q' F' H' R' \<and>
    (case fresh s m k of None \<Rightarrow> it = NULL \<and> \<not> ov \<and> R' = R
      | Some a \<Rightarrow> if ov then it = NULL \<and> (R' = R \<or> R' = R(a := R a + 1))
          else it = a \<and> R' a \<le> 59999 \<and> (R' = R(a := R a + 1) \<or> R' = R(a := R a + 2)))"
proof -
  let ?m = "if fresh s m k = None then m(k := None) else m"
  have "\<exists>s1 it Q1 F1 H1 R1. (if touch then item_touch hash k et th s else item_get hash k th upd s) = Some (s1, it) \<and> items_inv hash s1 ?m Q1 F1 H1 R1 \<and>
    (case fresh s m k of None \<Rightarrow> it = NULL \<and> R1 = R | Some a \<Rightarrow> it = a \<and> a \<noteq> NULL \<and> m k = Some a \<and> (R1 = R(a := R a + 1) \<or> R1 = R(a := R a + 2)))"
  proof (cases touch)
    case False
    with fresh_fetch [OF inv small, of k th upd] show ?thesis by (simp add: item_get_def)
  next
    case True
    from fresh_fetch [OF inv small, of k th True] obtain s1 it Q1 F1 H1 R1 where f: "do_item_get k (hash k) th True s = Some (s1, it)"
      "items_inv hash s1 ?m Q1 F1 H1 R1"
      "case fresh s m k of None \<Rightarrow> it = NULL \<and> R1 = R | Some a \<Rightarrow> it = a \<and> a \<noteq> NULL \<and> m k = Some a \<and> (R1 = R(a := R a + 1) \<or> R1 = R(a := R a + 2))" by blast
    let ?s = "if it \<noteq> NULL then upd_item it (exptime_update (\<lambda>_. et)) s1 else s1"
    have "items_inv hash ?s ?m Q1 F1 H1 R1"
    proof (cases "it = NULL")
      case False
      then have "it \<in> live ?m R1" using f(3) by (auto simp: live_def split: option.splits)
      from touch_inv [OF f(2) this] False show ?thesis by simp
    qed (use f(2) in simp)
    moreover have "item_touch hash k et th s = Some (?s, it)" using f(1) by (simp add: item_touch_def do_item_touch_def)
    ultimately show ?thesis using f(3) True by (metis (no_types, lifting))
  qed
  then obtain s1 it Q1 F1 H1 R1 where g: "(if touch then item_touch hash k et th s else item_get hash k th upd s) = Some (s1, it)"
    "items_inv hash s1 ?m Q1 F1 H1 R1"
    "case fresh s m k of None \<Rightarrow> it = NULL \<and> R1 = R | Some a \<Rightarrow> it = a \<and> a \<noteq> NULL \<and> m k = Some a \<and> (R1 = R(a := R a + 1) \<or> R1 = R(a := R a + 2))" by blast
  show ?thesis
  proof (cases "fresh s m k")
    case None
    then have "limited_get hash k th et touch upd s = Some (s1, it, False)" using g(1,3) by (simp add: limited_get_def)
    with g(2,3) None show ?thesis by fastforce
  next
    case (Some a)
    then have a: "it = a" "a \<noteq> NULL" "m k = Some a" "R1 = R(a := R a + 1) \<or> R1 = R(a := R a + 2)" using g(3) by simp_all
    have i1: "items_inv hash s1 m Q1 F1 H1 R1" using g(2) Some by simp
    have pos: "0 < R1 a" using a(4) by auto
    have "a \<in> live m R1" "a \<in> ran m" using a(3) by (auto simp: live_def intro: ranI)
    then have rc: "unat (refcount (heap s1 a)) = R1 a + 1" using items_invD(6) [OF i1] by (simp add: item_ok_def)
    show ?thesis
    proof (cases "refcount (heap s1 a) > IT_REFCOUNT_LIMIT")
      case True
      from do_item_remove_inv [OF i1 pos] obtain s2 F2 H2 where d: "do_item_remove a s1 = Some s2"
        "items_inv hash s2 m Q1 F2 H2 (R1(a := R1 a - 1))" by blast
      have r: "limited_get hash k th et touch upd s = Some (s2, NULL, True)" using g(1) a True d(1) by (simp add: limited_get_def item_remove_def)
      have "R1(a := R1 a - 1) = R \<or> R1(a := R1 a - 1) = R(a := R a + 1)" using a(4) by auto
      with r d(2) Some show ?thesis
        by (intro exI [of _ s2] exI [of _ NULL] exI [of _ True] exI [of _ Q1] exI [of _ F2] exI [of _ H2] exI [of _ "R1(a := R1 a - 1)"]) simp
    next
      case False
      then have "R1 a \<le> 59999" using rc by (simp add: word_less_nat_alt)
      moreover have "limited_get hash k th et touch upd s = Some (s1, a, False)" using g(1) a False by (simp add: limited_get_def)
      ultimately show ?thesis using i1 Some a(4)
        by (intro exI [of _ s1] exI [of _ a] exI [of _ False] exI [of _ Q1] exI [of _ F1] exI [of _ H1] exI [of _ R1]) simp
    qed
  qed
qed

section \<open>An example\<close>

text \<open>The key A is stored with the number 5; another item for A is in the hands of a client.\<close>

definition demo_num :: item where
  "demo_num = demo_item\<lparr>nbytes := 3, idata := [53, 13, 10]\<rparr>"

definition demo_store0 :: store where
  "demo_store0 = upd_item 4608 (\<lambda>_. demo_num) (demo_items0
     \<lparr>trylock_supply = replicate 20 True, set_stale = False, conn_cas = 0, cas_hits = (\<lambda>_. 0), cas_badval = (\<lambda>_. 0),
      incr_hits = (\<lambda>_. 0), decr_hits = (\<lambda>_. 0), cas_misses = 0\<rparr>)"

definition demo_store :: store where
  "demo_store = do_item_link 4608 (demo_hash [65]) demo_store0"

abbreviation demo_SR :: "addr \<Rightarrow> nat" where "demo_SR \<equiv> demo_R(4608 := 1)"

lemma demo_store0_heap: "heap demo_store0 = (\<lambda>_. item0)(4096 := demo_item, 4608 := demo_num)"
  by (simp add: demo_store0_def demo_items0_def slabs.extend_def rebal.extend_def)

lemma demo_store0_settings: "settings demo_store0 = demo_settings" "power_largest demo_store0 = 1" "mem_base demo_store0 = NULL"
  "slabclass demo_store0 = slabclass demo_large" "current_time demo_store0 = 100" "cas_id demo_store0 = 0"
  by (simp_all add: demo_store0_def demo_items0_def demo_large_def demo_slabs_def assoc.extend_def slabs.extend_def rebal.extend_def)

lemma demo_store0_inv: "items_inv demo_hash demo_store0 Map.empty (\<lambda>_. []) (\<lambda>_. []) demo_H demo_SR"
proof -
  let ?z = "\<lparr>trylock_supply = replicate 20 True, set_stale = False, conn_cas = 0, cas_hits = (\<lambda>_. 0), cas_badval = (\<lambda>_. 0),
      incr_hits = (\<lambda>_. 0), decr_hits = (\<lambda>_. 0), cas_misses = 0\<rparr>"
  have nl: "4608 \<notin> live Map.empty demo_R" by (simp add: live_def)
  have c: "unat (ITEM_clsid demo_num) = 1" by (simp add: ITEM_clsid_def demo_num_def demo_item_def push_bit_eq_mult)
  have pl: "power_largest (demo_items0 ?z) = 1"
    by (simp add: demo_items0_def demo_large_def demo_slabs_def assoc.extend_def slabs.extend_def rebal.extend_def)
  have ok: "item_ok Map.empty demo_H (power_largest (demo_items0 ?z)) demo_SR 4608 demo_num"
    using c by (simp add: item_ok_def pl) (simp add: demo_num_def demo_item_def item0_def key_wf_def has_flag_def)
  show ?thesis
    by (rule adopt_inv [OF demo_items0_inv nl _ _ ok, of 1]) (auto simp: pl demo_store0_def same_tables_def)
qed

lemma demo_store_inv: "items_inv demo_hash demo_store [[65] \<mapsto> 4608] ((\<lambda>_. [])(129 := [4608])) (\<lambda>_. []) demo_H demo_SR"
  "same_value (heap demo_store 4608) demo_num" "exptime (heap demo_store 4608) = 0" "it_flags (heap demo_store 4608) = 3"
  "heap demo_store 4096 = demo_item"
proof -
  have h: "heap demo_store0 4608 = demo_num" "heap demo_store0 4096 = demo_item" by (simp_all add: demo_store0_heap)
  have k: "[65] = key_of (heap demo_store0 4608)" "(129 :: nat) = unat (slabs_clsid (heap demo_store0 4608))"
    by (simp_all add: h demo_num_def demo_item_def key_of_def)
  have r: "(4608 :: addr) \<notin> ran (Map.empty :: bytes \<rightharpoonup> addr)" "0 < demo_SR 4608" "demo_SR 4608 + 1 < 2 ^ 16" "(Map.empty :: bytes \<rightharpoonup> addr) [65] = None" by simp_all
  show "items_inv demo_hash demo_store [[65] \<mapsto> 4608] ((\<lambda>_. [])(129 := [4608])) (\<lambda>_. []) demo_H demo_SR"
    unfolding demo_store_def by (rule do_item_link_inv(1) [OF demo_store0_inv r(1-3) k(1) r(4) k(2)])
  note S = do_item_link_state [OF demo_store0_inv r(1-3) k(1) r(4) k(2), folded demo_store_def]
  show "same_value (heap demo_store 4608) demo_num" "exptime (heap demo_store 4608) = 0" "it_flags (heap demo_store 4608) = 3"
    using ignore_links [OF S(5)] by (simp_all add: same_value_def linked_item_fields h) (simp_all add: demo_num_def demo_item_def item0_def)
  show "heap demo_store 4096 = demo_item" using S(3) [of 4096] h(2) by simp
qed

lemma link_stale: "set_stale (do_item_link a hv s) = set_stale s"
proof -
  obtain h where e: "do_item_link a hv s = (refcount_incr a (do_item_link_q a (assoc_insert a hv (link_start a s))))\<lparr>stats_sizes_hist := h\<rparr>"
    using do_item_link_eq by blast
  have q: "set_stale (do_item_link_q a t) = set_stale t" "set_stale (refcount_incr a t) = set_stale t" "set_stale (link_start a t) = set_stale t" for t :: "'a store_scheme"
    by (simp_all add: do_item_link_q_def refcount_incr_def link_start_def Let_def)
  have p: "set_stale (set_pos p v t) = set_stale t" for p v and t :: "'a store_scheme" by (simp add: set_pos_def split: hpos.splits)
  have "set_stale (assoc_insert a hv t) = set_stale t" for t :: "'a store_scheme" by (simp add: assoc_insert_def Let_def p)
  then show ?thesis using q by (simp add: e)
qed

lemma demo_store_tables:
  "settings demo_store = demo_settings" "power_largest demo_store = 1" "current_time demo_store = 100" "mem_base demo_store = NULL"
  "slabclass demo_store = slabclass demo_large" "set_stale demo_store = False"
proof -
  show "settings demo_store = demo_settings" "power_largest demo_store = 1" "current_time demo_store = 100" "slabclass demo_store = slabclass demo_large"
    by (simp_all add: demo_store_def do_item_link_tables demo_store0_settings)
  show "mem_base demo_store = NULL" using link_geo [of demo_store0 4608 "demo_hash [65]"] by (simp add: demo_store_def geo_kept_def demo_store0_settings)
  show "set_stale demo_store = False" unfolding demo_store_def link_stale
    by (simp add: demo_store0_def demo_items0_def rebal.extend_def slabs.extend_def)
qed

lemma demo_store_fresh: "fresh demo_store [[65] \<mapsto> 4608] [65] = Some 4608"
  by (simp add: fresh_def item_dead_def item_is_flushed_def demo_store_inv(3) demo_store_tables demo_settings_def)

lemma demo_small: "\<forall>a \<in> ran [[65] \<mapsto> 4608 :: addr]. demo_SR a + 3 < 2 ^ 16"
  by simp

section \<open>Properties\<close>

text \<open>
  C4. Storing. For \<^verbatim>\<open>set\<close>, \<^verbatim>\<open>add\<close>, \<^verbatim>\<open>replace\<close> and \<^verbatim>\<open>cas\<close> the answer depends only on what is found under the
  key (an expired or flushed item counts as nothing) and on the CAS values, as in the table
  \<open>store_verdict\<close>. If the answer is \<open>STORED\<close>, and only then, the item handed in is the value of its key
  afterwards, with its data unchanged; every other key keeps its item, every item in the hands of a
  thread its data, and all reference counts, queues, counters and free lists are as they must be.
\<close>

theorem store_item_spec:
  fixes s :: "'a store_scheme"
  assumes "items_inv hash s m Q F H R" "\<forall>a \<in> ran m. R a + 3 < 2 ^ 16"
    and "it \<notin> ran m" "0 < R it" "R it + 1 < 2 ^ 16" "key_of (heap s it) = k" and "comm \<notin> {NREAD_APPEND, NREAD_PREPEND}"
    and "v = store_verdict comm (set_stale s) (ITEM_get_cas (heap s it)) (map_option (\<lambda>a. ITEM_get_cas (heap s a)) (fresh s m k))"
    and "m' = (if v = STORED then m(k \<mapsto> it) else if fresh s m k = None then m(k := None) else m)"
  shows "\<exists>s'. store_item hash it comm th s = Some (s', v) \<and> (\<exists>Q F H. items_inv hash s' m' Q F H R) \<and>
    data_kept (live m' R - {it}) s s' \<and> same_value (heap s' it) (heap s it)"
  using store_item_inv [OF assms, of th] by (simp add: store_item_def assms(6))

theorem store_item_spec_witness:
  "\<exists>s' Q F H. store_item demo_hash 4096 NREAD_REPLACE 0 demo_store = Some (s', STORED) \<and>
    items_inv demo_hash s' [[65] \<mapsto> 4096] Q F H demo_SR"
proof -
  have k: "key_of (heap demo_store 4096) = [65]" by (simp add: demo_store_inv(5) demo_item_def key_of_def)
  have r: "(4096 :: addr) \<notin> ran [[65] \<mapsto> 4608]" "0 < demo_SR 4096" "demo_SR 4096 + 1 < 2 ^ 16" "NREAD_REPLACE \<notin> {NREAD_APPEND, NREAD_PREPEND}" by simp_all
  have m: "[[65] \<mapsto> 4608 :: addr]([65] \<mapsto> 4096) = [[65] \<mapsto> 4096]" by simp
  from store_item_spec [OF demo_store_inv(1) demo_small r(1-3) k r(4) refl refl, of 0]
  show ?thesis unfolding demo_store_fresh by (simp add: m del: fun_upd_apply) blast
qed

text \<open>
  C6. \<^verbatim>\<open>append\<close> and \<^verbatim>\<open>prepend\<close> (of values whose sum fits a chunk, if it fits the cache at all). The command returns. Nothing is stored
  only when the new item is too large for the cache or its class has no free chunk. Else a new item that nobody else holds is the value of the key: its data is
  that of the first value without its end of line followed by the second, and it expires as the old
  item did. At most ten items that are not expired or flushed are evicted on the way.
\<close>

theorem store_append_spec:
  fixes s :: "'a store_scheme"
  assumes "items_inv hash s m Q F H R" "\<forall>a \<in> ran m. R a + 3 < 2 ^ 16" "pull_pre s m R"
    and "it \<notin> ran m" "0 < R it" "key_of (heap s it) = k"
    and "comm = NREAD_APPEND \<and> p = a \<and> q = it \<or> comm = NREAD_PREPEND \<and> p = it \<and> q = a"
    and "fresh s m k = Some a" "cas_test (set_stale s) (ITEM_get_cas (heap s it)) (ITEM_get_cas (heap s a)) \<in> {CAS_NONE, CAS_MATCH}"
      "\<not> has_flag ITEM_HDR (heap s a)"
    and "full_data (heap s a)" "full_data (heap s it)"
    and "size_pre k (FLAGS_CONV (heap s a)) (nbytes (heap s it) + nbytes (heap s a) - 2) s"
  shows "\<exists>s' v m1. store_item hash it comm th s = Some (s', v) \<and> lost_upto 10 s m m1 \<and>
    (v = NOT_STORED \<and> may_fail k (FLAGS_CONV (heap s a)) (nbytes (heap s it) + nbytes (heap s a) - 2) s \<and> data_kept (live m1 R) s s' \<and> (\<exists>Q F H. items_inv hash s' m1 Q F H R) \<or>
     v = STORED \<and> (\<exists>b. b \<notin> ran m1 \<and> R b = 0 \<and> data_kept (live (m1(k \<mapsto> b)) R - {b}) s s' \<and> (\<exists>Q F H. items_inv hash s' (m1(k \<mapsto> b)) Q F H R) \<and>
       data_bytes b s' = take (nat (nbytes (heap s p)) - 2) (data_bytes p s) @ data_bytes q s \<and> exptime (heap s' b) = exptime (heap s a)))"
  unfolding store_item_def assms(6) by (rule store_append_inv [OF assms])

lemma demo_store_alloc:
  assumes "n \<in> {2, 3, 4}"
  shows "size_pre [65] 0 n demo_store"
proof -
  have c1: "sc_size (cls demo_store 1) = 512" "perslab (cls demo_store 1) = 2" "slabs_n (cls demo_store 1) = 1" "length (slabclass demo_store) = 64"
    by (simp_all add: demo_store_tables demo_large_def demo_slabs_def assoc.extend_def slabclass0_def)
  have sz: "item_ntotal_of (of_nat (length [65 :: byte])) 0 n demo_store = (58 + word_of_int n, 0)"
    by (simp add: item_ntotal_of_def item_make_header_def demo_store_tables demo_settings_def)
  have le: "58 + word_of_int n \<le> (512 :: uint64)" "58 + word_of_int n \<noteq> (0 :: uint64)" "58 + word_of_int n \<le> (1024 :: uint64)" using assms by auto
  have cl: "slabs_clsid_of demo_store (58 + word_of_int n) = 1"
    using le by (simp add: slabs_clsid_of_def demo_store_tables demo_settings_def)
      (subst clsid_loop.simps, simp add: demo_store_tables demo_large_def demo_slabs_def assoc.extend_def slabclass0_def)
  have "fit_pre (58 + word_of_int n) demo_store"
    unfolding fit_pre_def cl class_rooms_def demo_store_tables(1,2,4) c1 using le(1) by (simp add: demo_settings_def)
  then show ?thesis unfolding size_pre_def sz fst_conv by simp
qed

lemma demo_store_pre: "pull_pre demo_store [[65] \<mapsto> 4608] demo_SR"
  using demo_store_inv(2) by (simp add: pull_pre_def demo_store_tables demo_settings_def same_value_def demo_num_def demo_item_def)

lemma demo_store_num: "full_data (heap demo_store 4608)" "data_bytes 4608 demo_store = [53, 13, 10]" "FLAGS_CONV (heap demo_store 4608) = 0"
  "nbytes (heap demo_store 4608) = 3" "idata (heap demo_store 4608) = [53, 13, 10]"
  using demo_store_inv(2,4) by (simp_all add: full_data_def same_value_def demo_num_def data_bytes_def FLAGS_CONV_def has_flag_def)

lemma demo_store_malloc: "malloc_supply demo_store = []"
  unfolding demo_store_def do_item_link_tables
  by (simp add: demo_store0_def demo_items0_def demo_large_def demo_slabs_def assoc.extend_def slabs.extend_def rebal.extend_def)

text \<open>The example with a free chunk.\<close>

lemma demo_wide:
  "items_inv demo_hash (widen demo_store) [[65] \<mapsto> 4608] ((\<lambda>_. [])(129 := [4608])) ((\<lambda>_. [])(1 := [8192])) ((\<lambda>_. {})(1 := {4096, 4608, 8704})) demo_SR"
  "pull_pre (widen demo_store) [[65] \<mapsto> 4608] demo_SR" "fresh (widen demo_store) [[65] \<mapsto> 4608] [65] = Some 4608"
  "heap (widen demo_store) 4096 = heap demo_store 4096" "heap (widen demo_store) 4608 = heap demo_store 4608"
  "settings (widen demo_store) = demo_settings" "set_stale (widen demo_store) = set_stale demo_store"
  "data_bytes 4096 (widen demo_store) = data_bytes 4096 demo_store" "data_bytes 4608 (widen demo_store) = data_bytes 4608 demo_store"
proof -
  show "items_inv demo_hash (widen demo_store) [[65] \<mapsto> 4608] ((\<lambda>_. [])(129 := [4608])) ((\<lambda>_. [])(1 := [8192])) ((\<lambda>_. {})(1 := {4096, 4608, 8704})) demo_SR"
    by (rule widen_inv [OF demo_store_inv(1) demo_store_tables(5,2,1) demo_store_malloc])
  show "pull_pre (widen demo_store) [[65] \<mapsto> 4608] demo_SR" using demo_store_pre by (simp add: pull_pre_def widen_def)
  show "fresh (widen demo_store) [[65] \<mapsto> 4608] [65] = Some 4608"
    using demo_store_fresh by (simp add: fresh_def item_dead_def item_is_flushed_def widen_def)
qed (simp_all add: widen_def demo_store_tables data_bytes_def)

lemma demo_wide_alloc:
  assumes "n \<in> {2, 3, 4}"
  shows "size_pre [65] 0 n (widen demo_store)" "\<not> may_fail [65] 0 n (widen demo_store)"
proof -
  have sz: "item_ntotal_of (of_nat (length [65 :: byte])) 0 n (widen demo_store) = (58 + word_of_int n, 0)"
    by (simp add: item_ntotal_of_def item_make_header_def demo_wide(6) demo_settings_def)
  have le: "58 + word_of_int n \<le> (512 :: uint64)" "58 + word_of_int n \<noteq> (0 :: uint64)" "\<not> n < 2" using assms by auto
  note w = widen_fields [OF demo_store_tables(5,2,1,4) le(1,2)]
  show "size_pre [65] 0 n (widen demo_store)" unfolding size_pre_def sz fst_conv using w(2) by simp
  have "item_size_ok (of_nat (length [65 :: byte])) 0 n (widen demo_store)" unfolding item_size_ok_def sz fst_conv w(1) using le(3) by simp
  moreover have "cls (widen demo_store) 1 = slabclass0\<lparr>sc_size := 512, perslab := 2, slabs_n := 2, slab_list := [4096, 8192], list_size := 2, sc_slots := 8192, sl_curr := 1\<rparr>"
    using demo_class by (simp add: widen_def demo_store_tables)
  ultimately show "\<not> may_fail [65] 0 n (widen demo_store)" unfolding may_fail_def sz fst_conv w(1) by (simp add: slabclass0_def)
qed

theorem store_append_spec_witness:
  "\<exists>s' b. store_item demo_hash 4096 NREAD_APPEND 0 (widen demo_store) = Some (s', STORED) \<and> data_bytes b s' = [53, 13, 10]"
proof -
  let ?s = "widen demo_store"
  have k: "key_of (heap ?s 4096) = [65]" by (simp add: demo_wide demo_store_inv(5) demo_item_def key_of_def)
  have r: "(4096 :: addr) \<notin> ran [[65] \<mapsto> 4608]" "0 < demo_SR 4096"
    "NREAD_APPEND = NREAD_APPEND \<and> (4608 :: addr) = 4608 \<and> (4096 :: addr) = 4096 \<or> NREAD_APPEND = NREAD_PREPEND \<and> (4608 :: addr) = 4096 \<and> (4096 :: addr) = 4608" by simp_all
  have c: "cas_test (set_stale ?s) (ITEM_get_cas (heap ?s 4096)) (ITEM_get_cas (heap ?s 4608)) \<in> {CAS_NONE, CAS_MATCH}"
    by (simp add: demo_wide demo_store_inv(5) ITEM_get_cas_def demo_item_def item0_def cas_test_def has_flag_def)
  have h: "\<not> has_flag ITEM_HDR (heap ?s 4608)" by (simp add: has_flag_def demo_wide demo_store_inv(4))
  have f: "full_data (heap ?s 4608)" "full_data (heap ?s 4096)" using demo_store_num(1) by (simp_all add: demo_wide demo_store_inv(5) full_data_def demo_item_def)
  have n: "FLAGS_CONV (heap ?s 4608) = 0" "nbytes (heap ?s 4096) + nbytes (heap ?s 4608) - 2 = 3"
    using demo_store_num(3,4) by (simp_all add: demo_wide demo_store_inv(5) demo_item_def)
  have a: "size_pre [65] (FLAGS_CONV (heap ?s 4608)) (nbytes (heap ?s 4096) + nbytes (heap ?s 4608) - 2) ?s"
    "\<not> may_fail [65] (FLAGS_CONV (heap ?s 4608)) (nbytes (heap ?s 4096) + nbytes (heap ?s 4608) - 2) ?s"
    unfolding n using demo_wide_alloc [of 3] by simp_all
  have d: "take (nat (nbytes (heap ?s 4608)) - 2) (data_bytes 4608 ?s) @ data_bytes 4096 ?s = [53, 13, 10]"
    using demo_store_num by (simp add: demo_wide demo_store_inv(5)) (simp add: data_bytes_def demo_store_inv(5) demo_item_def)
  from store_append_spec [OF demo_wide(1) demo_small demo_wide(2) r(1,2) k r(3) demo_wide(3) c h f a(1), of 0, unfolded d] a(2)
  show ?thesis by blast
qed

text \<open>
  C5. \<^verbatim>\<open>incr\<close> and \<^verbatim>\<open>decr\<close>. A key with no live item gives \<open>DELTA_ITEM_NOT_FOUND\<close>; an item that is too short,
  of another CAS value or not a number is refused and nothing changes. Otherwise the answer carries the
  decimal text of the new value, which wraps at 2^64 for \<^verbatim>\<open>incr\<close> and stops at 0 for \<^verbatim>\<open>decr\<close>. The text stands
  in the item itself, padded with blanks, when nobody else holds the item and the text fits; if not,
  it is the data of a new item that takes the place of the old one, unless memory is out: the new item is too large
  for the cache, or its class has no free chunk.
\<close>

theorem add_delta_spec:
  fixes s :: "'a store_scheme"
  assumes inv: "items_inv hash s m Q F H R" and small: "\<forall>a \<in> ran m. R a + 3 < 2 ^ 16" and pre: "pull_pre s m R"
    and ok: "\<forall>a. fresh s m k = Some a \<and> delta_error cas (heap s a) = None \<longrightarrow> full_data (heap s a) \<and>
      size_pre k (FLAGS_CONV (heap s a)) (int (length (delta_text incr delta (heap s a))) + 2) s"
  shows "case fresh s m k of
      None \<Rightarrow> \<exists>s'. add_delta hash th k incr delta cas s = Some (s', DELTA_ITEM_NOT_FOUND, [], cas) \<and>
        (\<exists>Q F H. items_inv hash s' (m(k := None)) Q F H R) \<and> data_kept (live (m(k := None)) R) s s'
    | Some a \<Rightarrow> (case delta_error cas (heap s a) of
        Some e \<Rightarrow> \<exists>s'. add_delta hash th k incr delta cas s = Some (s', e, [], cas) \<and> (\<exists>Q F H. items_inv hash s' m Q F H R) \<and> data_kept (live m R) s s'
      | None \<Rightarrow> let t = delta_text incr delta (heap s a); n = nat (nbytes (heap s a)) in
          \<exists>s' v cas' m1. add_delta hash th k incr delta cas s = Some (s', v, t, cas') \<and> lost_upto 10 s m m1 \<and>
            (v = EOM \<and> may_fail k (FLAGS_CONV (heap s a)) (int (length t) + 2) s \<and> (\<exists>Q F H. items_inv hash s' m1 Q F H R) \<and> data_kept (live m1 R) s s' \<or>
             v = OK \<and> (\<exists>b. (\<exists>Q F H. items_inv hash s' (m1(k \<mapsto> b)) Q F H R) \<and> data_kept (live (m1(k \<mapsto> b)) R - {a, b}) s s' \<and>
               data_bytes b s' = (if R a = 0 \<and> length t + 2 \<le> n then t @ replicate (n - length t - 2) 32 @ drop (n - 2) (data_bytes a s) else t @ [13, 10]) \<and>
               exptime (heap s' b) = exptime (heap s a))))"
proof (cases "fresh s m k")
  case None
  show ?thesis unfolding None option.case by (rule add_delta_missing [OF inv small None])
next
  case (Some a)
  show ?thesis
  proof (cases "delta_error cas (heap s a)")
    case None
    have f: "full_data (heap s a)" "size_pre k (FLAGS_CONV (heap s a)) (int (length (delta_text incr delta (heap s a))) + 2) s"
      using ok Some None by blast+
    show ?thesis unfolding Some None option.case Let_def by (rule add_delta_accepted [OF inv small pre Some None f(1) refl f(2)])
  next
    case e: (Some e)
    show ?thesis unfolding Some e option.case by (rule add_delta_refused [OF inv small Some e])
  qed
qed

lemma demo_delta: "delta_error None (heap demo_store 4608) = None" "delta_text True 37 (heap demo_store 4608) = [52, 50]"
proof -
  have c: "data_cstr (heap demo_store 4608) = itoa_u64 5 [] @ [13, 10]" and d: "data_cstr (heap demo_store 4608) = [] @ [53] @ [13, 10]"
    by (simp_all add: data_cstr_def demo_store_num itoa_u64_dec dec_small)
  have p: "safe_strtoull (data_cstr (heap demo_store 4608)) = (True, 5)"
    unfolding d by (subst safe_strtoull_dec) (simp_all add: isspace_def dval_def)
  then show "delta_error None (heap demo_store 4608) = None" by (simp add: delta_error_def demo_store_num demo_store_inv(4))
  show "delta_text True 37 (heap demo_store 4608) = [52, 50]"
    by (simp add: delta_text_def p delta_value_def itoa_u64_dec dec.simps [of 42] dec_small)
qed

theorem add_delta_spec_witness:
  "\<exists>s' v cas' m1. add_delta demo_hash 0 [65] True 37 None demo_store = Some (s', v, [52, 50], cas') \<and> lost_upto 10 demo_store [[65] \<mapsto> 4608] m1 \<and>
    (v = OK \<longrightarrow> (\<exists>b. data_bytes b s' = [52, 50, 13, 10]))"
proof -
  have "\<forall>a. fresh demo_store [[65] \<mapsto> 4608] [65] = Some a \<and> delta_error None (heap demo_store a) = None \<longrightarrow> full_data (heap demo_store a) \<and>
      size_pre [65] (FLAGS_CONV (heap demo_store a)) (int (length (delta_text True 37 (heap demo_store a))) + 2) demo_store"
    using demo_store_alloc [of 4] by (simp add: demo_store_fresh demo_delta demo_store_num)
  note A = add_delta_spec [OF demo_store_inv(1) demo_small demo_store_pre this, of 0, unfolded demo_store_fresh option.case demo_delta Let_def]
  have c: "\<not> (demo_SR 4608 = 0 \<and> length [52, 50 :: byte] + 2 \<le> nat (nbytes (heap demo_store 4608)))" by simp
  have t: "[52, 50] @ [13, 10] = [52, 50, 13, 10 :: byte]" by simp
  from A [unfolded if_not_P [OF c] t] show ?thesis using delta_result_type.distinct by blast
qed

text \<open>
  C29. The reference count of an item never overflows through fetches: a fetch that counts more than
  60000 references gives its reference back and says so; otherwise at most 59999 remain in the hands
  of threads, each within the 16 bits of the counter. The map of live keys is the same in both cases.
\<close>

theorem limited_get_spec:
  assumes "items_inv hash s m Q F H R" "\<forall>a \<in> ran m. R a + 3 < 2 ^ 16"
  shows "\<exists>s' it ov Q' F' H' R'. limited_get hash k th et touch upd s = Some (s', it, ov) \<and>
    items_inv hash s' (if fresh s m k = None then m(k := None) else m) Q' F' H' R' \<and>
    (case fresh s m k of None \<Rightarrow> it = NULL \<and> \<not> ov \<and> R' = R
      | Some a \<Rightarrow> if ov then it = NULL \<and> (R' = R \<or> R' = R(a := R a + 1))
          else it = a \<and> R' a \<le> 59999 \<and> (R' = R(a := R a + 1) \<or> R' = R(a := R a + 2)))"
  by (rule limited_get_inv [OF assms])

theorem limited_get_spec_witness:
  "\<exists>s' it ov. limited_get demo_hash [65] 0 0 False True demo_store = Some (s', it, ov) \<and> (ov \<or> it = 4608)"
  using limited_get_spec [OF demo_store_inv(1) demo_small, of "[65]" 0 0 False True] unfolding demo_store_fresh
  by (simp del: fun_upd_apply) (metis (full_types))

text \<open>
  C30. Expiration times. A time given by a client counts from now when it is at most thirty days, and is a
  point in Unix time when it is more; 0 means never. The item that gets the converted time is dead
  at once exactly when the time given was negative or is a point that has passed, and no other time
  is turned into \<open>never\<close>.
\<close>

theorem realtime_spec:
  assumes "REALTIME_MAXDELTA < process_started" "2 \<le> uint now" "uint now + REALTIME_MAXDELTA < 2 ^ 32" "e < process_started + 2 ^ 32"
    and "exptime x = realtime process_started now (EXPTIME_TO_POSITIVE_TIME e)" "current_time s = now" "\<not> item_is_flushed x s"
  shows "(item_dead x s \<longleftrightarrow> e < 0 \<or> REALTIME_MAXDELTA < e \<and> e \<le> process_started + uint now) \<and> (exptime x = 0 \<longleftrightarrow> e = 0) \<and>
    (0 \<le> e \<and> e \<le> REALTIME_MAXDELTA \<longrightarrow> e = 0 \<or> uint (exptime x) = uint now + e)"
proof -
  let ?M = "REALTIME_MAXDELTA"
  have d: "item_dead x s \<longleftrightarrow> uint (exptime x) \<noteq> 0 \<and> uint (exptime x) \<le> uint now"
    using assms(6,7) by (simp add: item_dead_def word_le_def) (metis uint_0_iff)
  have z: "exptime x = 0 \<longleftrightarrow> uint (exptime x) = 0" by (simp add: uint_0_iff)
  consider "e = 0" | "e < 0" | "0 < e" "e \<le> ?M" | "?M < e" "e \<le> process_started" | "process_started < e" using assms(1) by linarith
  then show ?thesis
  proof cases
    case 1
    then have "uint (exptime x) = 0" using assms(5) by (simp add: realtime_def EXPTIME_TO_POSITIVE_TIME_def)
    then show ?thesis unfolding d z using 1 by simp
  next
    case 2
    then have "uint (exptime x) = 1" using assms(1,5) by (simp add: realtime_def EXPTIME_TO_POSITIVE_TIME_def)
    then show ?thesis unfolding d z using 2 assms(2) by simp
  next
    case 3
    then have "exptime x = word_of_int (e + uint now)" using assms(5) by (simp add: realtime_def EXPTIME_TO_POSITIVE_TIME_def)
    then have "uint (exptime x) = (e + uint now) mod 2 ^ 32" using uint_word_of_int [of "e + uint now", where 'a = 32] by simp
    then have "uint (exptime x) = e + uint now" using 3 assms(2,3) by simp
    then show ?thesis unfolding d z using 3 assms(2) by auto
  next
    case 4
    then have "uint (exptime x) = 1" using assms(1,5) by (simp add: realtime_def EXPTIME_TO_POSITIVE_TIME_def)
    then show ?thesis unfolding d z using 4 assms(2) by auto
  next
    case 5
    then have "exptime x = word_of_int (e - process_started)" using assms(1,5) by (simp add: realtime_def EXPTIME_TO_POSITIVE_TIME_def)
    then have "uint (exptime x) = (e - process_started) mod 2 ^ 32" using uint_word_of_int [of "e - process_started", where 'a = 32] by simp
    then have "uint (exptime x) = e - process_started" using 5 assms(1,4) by simp
    then show ?thesis unfolding d z using 5 assms(1) by auto
  qed
qed

theorem realtime_spec_witness:
  "item_dead (demo_item\<lparr>exptime := realtime 1600000000 100 (EXPTIME_TO_POSITIVE_TIME (- 1))\<rparr>) demo_store"
  using realtime_spec [of 1600000000 100 "- 1" "demo_item\<lparr>exptime := realtime 1600000000 100 (EXPTIME_TO_POSITIVE_TIME (- 1))\<rparr>" demo_store]
  by (simp add: demo_store_tables item_is_flushed_def demo_settings_def)

lemma delta_error_past_item:
  assumes "2 ^ 63 \<le> unat v" "idata x = itoa_u64 v [] @ [13, 10] @ rest" "nbytes x = int (length (itoa_u64 v [])) + 2"
    and "it_flags x AND (ITEM_CHUNKED OR ITEM_HDR) = 0"
  shows "delta_error None x = (if 45 \<in> set (takeWhile (\<lambda>c. c \<noteq> 0) rest) then Some NON_NUMERIC else None)"
    "45 \<notin> set (takeWhile (\<lambda>c. c \<noteq> 0) rest) \<Longrightarrow> delta_text incr delta x = itoa_u64 (delta_value incr delta v) []"
proof -
  let ?r = "takeWhile (\<lambda>c. c \<noteq> 0) rest" and ?d = "dec (unat v)"
  have dg: "is_dec_digit c" if "c \<in> set ?d" for c using dec_digits that by blast
  have nz: "c \<noteq> 0" "c \<noteq> 45" if "c \<in> set ?d" for c using dg [OF that] by (auto simp: word_le_nat_alt)
  have c: "data_cstr x = [] @ ?d @ (13 # 10 # ?r)"
    using assms(2) nz(1) by (simp add: data_cstr_def itoa_u64_dec takeWhile_append)
  have sc: "strto_scan 10 (data_cstr x) = (False, unat v, length ?d)" "ends_number (data_cstr x) (length ?d)"
    using strto_scan_dec [of "[]" ?d "13 # 10 # ?r"] dec_not_Nil [of "unat v"] dg unfolding c by (simp_all add: isspace_def dval_dec)
  have "int (2 ^ 63) \<le> int (unat v)" using assms(1) by (simp only: of_nat_le_iff)
  then have "9223372036854775808 \<le> uint v" by simp
  then have "uint v div 9223372036854775808 = 1"
    using uint_lt2p [of v] by (intro int_div_pos_eq [where r = "uint v - 9223372036854775808"]) simp_all
  then have sg: "sint v < 0" by (simp add: sint_uint signed_take_bit_negative_iff bit_iff_odd)
  have mn: "45 \<in> set (data_cstr x) \<longleftrightarrow> 45 \<in> set ?r" unfolding c using nz(2) by auto
  have ln: "length ?d \<noteq> 0" using dec_not_Nil by simp
  have p: "safe_strtoull (data_cstr x) = (if 45 \<in> set ?r then (False, 0) else (True, v))"
    using sc sg mn ln unat_bound [of v] by (simp add: safe_strtoull_def strtoull_def)
  moreover have "\<not> nbytes x \<le> 2" using assms(3) dec_not_Nil [of "unat v"] by (simp add: itoa_u64_dec)
  ultimately show "delta_error None x = (if 45 \<in> set ?r then Some NON_NUMERIC else None)" using assms(4) by (simp add: delta_error_def)
  show "delta_text incr delta x = itoa_u64 (delta_value incr delta v) []" if "45 \<notin> set ?r" using p that by (simp add: delta_text_def)
qed

text \<open>
  C31. Reading a number from an item reads past the item. The data of an item is not a C string: the search
  of \<^verbatim>\<open>safe_strtoull\<close> for a minus sign goes on behind the item up to the next NUL. On a stored counter
  of at least 2^63, \<^verbatim>\<open>incr\<close> and \<^verbatim>\<open>decr\<close> answer that it is not a number, and leave it, exactly when a minus sign lies there; without one they
  compute the new value and store it, unless memory is out.
\<close>

theorem delta_reads_past_item:
  fixes s :: "'a store_scheme"
  assumes inv: "items_inv hash s m Q F H R" and small: "\<forall>a \<in> ran m. R a + 3 < 2 ^ 16" and pre: "pull_pre s m R" and k: "fresh s m k = Some a"
    and num: "2 ^ 63 \<le> unat v" "idata (heap s a) = itoa_u64 v [] @ [13, 10] @ behind" "nbytes (heap s a) = int (length (itoa_u64 v [])) + 2"
      "\<not> has_flag ITEM_HDR (heap s a)"
    and size: "size_pre k (FLAGS_CONV (heap s a)) (int (length (itoa_u64 (delta_value incr delta v) [])) + 2) s"
  shows "\<exists>s' r t cas' m1. add_delta hash th k incr delta None s = Some (s', r, t, cas') \<and> (\<exists>Q F H. items_inv hash s' m1 Q F H R) \<and>
    (if 45 \<in> set (takeWhile (\<lambda>c. c \<noteq> 0) behind) then r = NON_NUMERIC \<and> t = [] \<and> m1 = m \<and> data_kept (live m R) s s'
     else t = itoa_u64 (delta_value incr delta v) [] \<and> (\<exists>m2. lost_upto 10 s m m2 \<and>
       (r = OK \<and> (\<exists>b. m1 = m2(k \<mapsto> b) \<and> take (length t) (data_bytes b s') = t) \<or>
        r = EOM \<and> m1 = m2 \<and> may_fail k (FLAGS_CONV (heap s a)) (int (length t) + 2) s)))"
proof -
  have "m k = Some a" using k by (auto simp: fresh_def split: option.splits if_splits)
  then have "a \<in> live m R" by (auto simp: live_def intro: ranI)
  then have "\<not> has_flag ITEM_CHUNKED (heap s a)" using items_invD(6) [OF inv] by (simp add: item_ok_def)
  then have fl: "it_flags (heap s a) AND (ITEM_CHUNKED OR ITEM_HDR) = 0" using num(4) unfolding has_flag_def bit.conj_disj_distrib by simp
  note E = delta_error_past_item [OF num(1-3) fl]
  show ?thesis
  proof (cases "45 \<in> set (takeWhile (\<lambda>c. c \<noteq> 0) behind)")
    case True
    with E(1) have e: "delta_error None (heap s a) = Some NON_NUMERIC" by simp
    from add_delta_refused [OF inv small k e, of th incr delta] True show ?thesis by (simp only: if_True) blast
  next
    case False
    with E(1) have e: "delta_error None (heap s a) = None" by simp
    have f: "full_data (heap s a)" using num(2,3) by (simp add: full_data_def)
    let ?t = "itoa_u64 (delta_value incr delta v) []"
    from add_delta_accepted [OF inv small pre k e f E(2) [OF False, symmetric] size, of th] obtain s' r cas' m2 where
      d: "add_delta hash th k incr delta None s = Some (s', r, ?t, cas')" "lost_upto 10 s m m2" and
      "r = EOM \<and> may_fail k (FLAGS_CONV (heap s a)) (int (length ?t) + 2) s \<and> (\<exists>Q F H. items_inv hash s' m2 Q F H R) \<or>
       r = OK \<and> (\<exists>b. (\<exists>Q F H. items_inv hash s' (m2(k \<mapsto> b)) Q F H R) \<and> (\<exists>rest. data_bytes b s' = ?t @ rest))"
      by (metis (no_types, lifting))
    from this(3) show ?thesis
    proof (elim disjE conjE exE)
      fix Q F H
      assume "r = EOM" "may_fail k (FLAGS_CONV (heap s a)) (int (length ?t) + 2) s" "items_inv hash s' m2 Q F H R"
      with d False show ?thesis by (intro exI [of _ s'] exI [of _ r] exI [of _ ?t] exI [of _ cas'] exI [of _ m2]) auto
    next
      fix b rest Q F H
      assume "r = OK" "data_bytes b s' = ?t @ rest" "items_inv hash s' (m2(k \<mapsto> b)) Q F H R"
      moreover from this(2) have "\<exists>b'. m2(k \<mapsto> b) = m2(k \<mapsto> b') \<and> take (length ?t) (data_bytes b' s') = ?t" by (intro exI [of _ b]) simp
      ultimately show ?thesis using d False
        by (intro exI [of _ s'] exI [of _ r] exI [of _ ?t] exI [of _ cas'] exI [of _ "m2(k \<mapsto> b)"]) (simp only: if_False, blast)
    qed
  qed
qed

text \<open>The example with another number stored under the key.\<close>

lemma demo_linked:
  fixes z :: "'b"
  assumes y: "y = demo_item\<lparr>nbytes := n, idata := d\<rparr>" and s0: "s0 = upd_item 4608 (\<lambda>_. y) (demo_items0 z)" and s: "s = do_item_link 4608 (demo_hash [65]) s0"
  shows "items_inv demo_hash s [[65] \<mapsto> 4608] ((\<lambda>_. [])(129 := [4608])) (\<lambda>_. []) demo_H demo_SR"
    "same_value (heap s 4608) y" "exptime (heap s 4608) = 0" "it_flags (heap s 4608) = 3"
    "settings s = demo_settings" "power_largest s = 1" "slabclass s = slabclass demo_large" "mem_base s = NULL"
proof -
  have nl: "4608 \<notin> live Map.empty demo_R" by (simp add: live_def)
  have c: "unat (ITEM_clsid y) = 1" by (simp add: ITEM_clsid_def y demo_item_def push_bit_eq_mult)
  have t: "power_largest (demo_items0 z) = 1" "settings (demo_items0 z) = demo_settings" "slabclass (demo_items0 z) = slabclass demo_large" "mem_base (demo_items0 z) = NULL"
    by (simp_all add: demo_items0_def demo_large_def demo_slabs_def assoc.extend_def slabs.extend_def rebal.extend_def)
  have ok: "item_ok Map.empty demo_H (power_largest (demo_items0 z)) demo_SR 4608 y"
    using c by (simp add: item_ok_def t) (simp add: y demo_item_def item0_def key_wf_def has_flag_def)
  have i0: "items_inv demo_hash s0 Map.empty (\<lambda>_. []) (\<lambda>_. []) demo_H demo_SR"
    by (rule adopt_inv [OF demo_items0_inv nl _ _ ok, of 1]) (auto simp: t s0 same_tables_def)
  have h: "heap s0 4608 = y" by (simp add: s0)
  have k: "[65] = key_of (heap s0 4608)" "(129 :: nat) = unat (slabs_clsid (heap s0 4608))" by (simp_all add: h y demo_item_def key_of_def)
  have r: "(4608 :: addr) \<notin> ran (Map.empty :: bytes \<rightharpoonup> addr)" "0 < demo_SR 4608" "demo_SR 4608 + 1 < 2 ^ 16" "(Map.empty :: bytes \<rightharpoonup> addr) [65] = None" by simp_all
  show "items_inv demo_hash s [[65] \<mapsto> 4608] ((\<lambda>_. [])(129 := [4608])) (\<lambda>_. []) demo_H demo_SR"
    unfolding s by (rule do_item_link_inv(1) [OF i0 r(1-3) k(1) r(4) k(2)])
  note S = do_item_link_state [OF i0 r(1-3) k(1) r(4) k(2), folded s]
  show "same_value (heap s 4608) y" "exptime (heap s 4608) = 0" "it_flags (heap s 4608) = 3"
    using ignore_links [OF S(5)] by (simp_all add: same_value_def linked_item_fields h) (simp_all add: y demo_item_def item0_def)
  show "settings s = demo_settings" "power_largest s = 1" "slabclass s = slabclass demo_large"
    unfolding s do_item_link_tables by (simp_all add: s0 t)
  show "mem_base s = NULL" using link_geo [of s0 4608 "demo_hash [65]"] by (simp add: s geo_kept_def s0 t)
qed

definition demo_big :: store where
  "demo_big = do_item_link 4608 (demo_hash [65]) (upd_item 4608 (\<lambda>_. demo_item\<lparr>nbytes := int (length (itoa_u64 9223372036854775808 [])) + 2,
       idata := itoa_u64 9223372036854775808 [] @ [13, 10] @ [45]\<rparr>)
     (demo_items0 \<lparr>trylock_supply = [], set_stale = False, conn_cas = 0, cas_hits = (\<lambda>_. 0), cas_badval = (\<lambda>_. 0),
       incr_hits = (\<lambda>_. 0), decr_hits = (\<lambda>_. 0), cas_misses = 0\<rparr>))"

theorem delta_reads_past_item_witness:
  "\<exists>s' cas'. add_delta demo_hash 0 [65] False 9223372036854775808 None demo_big = Some (s', NON_NUMERIC, [], cas')"
proof -
  note D = demo_linked [OF refl refl demo_big_def]
  have x: "nbytes (heap demo_big 4608) = int (length (itoa_u64 9223372036854775808 [])) + 2"
    "idata (heap demo_big 4608) = itoa_u64 9223372036854775808 [] @ [13, 10] @ [45]" "nkey (heap demo_big 4608) \<noteq> 0" "FLAGS_CONV (heap demo_big 4608) = 0"
    "\<not> has_flag ITEM_HDR (heap demo_big 4608)"
    using D(2,4) by (simp_all add: same_value_def FLAGS_CONV_def has_flag_def demo_item_def)
  have p: "pull_pre demo_big [[65] \<mapsto> 4608] demo_SR" using x(3) by (simp add: pull_pre_def D(5) demo_settings_def)
  have fr: "fresh demo_big [[65] \<mapsto> 4608] [65] = Some 4608" by (simp add: fresh_def item_dead_def item_is_flushed_def D(3,5) demo_settings_def)
  have t: "itoa_u64 (delta_value False 9223372036854775808 9223372036854775808) [] = [48]" by (simp add: delta_value_def itoa_u64_dec dec_small)
  have "size_pre [65] 0 3 demo_big = size_pre [65] 0 3 demo_store" by (rule size_pre_cong) (simp_all add: D demo_store_tables)
  then have z: "size_pre [65] (FLAGS_CONV (heap demo_big 4608)) (int (length (itoa_u64 (delta_value False 9223372036854775808 9223372036854775808) [])) + 2) demo_big"
    using demo_store_alloc [of 3] by (simp add: x(4) t)
  have b: "45 \<in> set (takeWhile (\<lambda>c. c \<noteq> 0) [45 :: byte])" "2 ^ 63 \<le> unat (9223372036854775808 :: uint64)" by simp_all
  from delta_reads_past_item [OF D(1) demo_small p fr b(2) x(2,1,5) z, of 0] show ?thesis unfolding if_P [OF b(1)] by blast
qed

end
