(* ===== verification/Slab_Rebalance.thy ===== *)
theory Slab_Rebalance
  imports Store_Ops
begin

text \<open>
  The second half of the page mover of \<^verbatim>\<open>slabs.c\<close>: clearing a page chunk by chunk (free chunks are taken
  off the free list, linked items are copied to another page or evicted, busy ones visited again),
  handing the cleared page to its new class, and the rounds of the mover thread. A call of
  \<^verbatim>\<open>slab_rebalance_move\<close> is one step: the item it works on is locked, and what it does to the lists and
  queues happens under their locks.
\<close>

section \<open>State\<close>

record mover = store +
  slabs_moved :: uint64
  reassign_rescues :: uint64
  reassign_evictions_nomem :: uint64
  reassign_inline_reclaim :: uint64
  reassign_chunk_rescues :: uint64
  reassign_busy_deletes :: uint64
  reassign_busy_items :: uint64

datatype move_status = MOVE_PASS | MOVE_FROM_SLAB | MOVE_FROM_LRU | MOVE_BUSY | MOVE_LOCKED

abbreviation (input) SLAB_MOVE_MAX_LOOPS :: uint32 where "SLAB_MOVE_MAX_LOOPS \<equiv> 1000"

text \<open>The flags of a chunk that is cleared.\<close>

abbreviation (input) CLEARED :: "16 word" where "CLEARED \<equiv> 12"

definition mark_cleared :: "addr \<Rightarrow> 'a mem_scheme \<Rightarrow> 'a mem_scheme" where
  "mark_cleared a = upd_item a (\<lambda>i. i\<lparr>refcount := 0, it_flags := CLEARED\<rparr>)"

text \<open>The number of the chunk at the position of the mover.\<close>

definition move_offset :: "'a rebal_scheme \<Rightarrow> nat" where
  "move_offset s = (let r = slab_rebal s in (slab_pos r - slab_start r) div unat (sc_size (cls s (nat (s_clsid r)))))"

definition set_completed :: "nat \<Rightarrow> 'a rebal_scheme \<Rightarrow> 'a rebal_scheme" where
  "set_completed off = upd_rebal (\<lambda>r. r\<lparr>completed := (completed r)[off := 1]\<rparr>)"

definition count_busy :: "'a rebal_scheme \<Rightarrow> 'a rebal_scheme" where
  "count_busy = upd_rebal (\<lambda>r. r\<lparr>busy_items := busy_items r + 1\<rparr>)"

section \<open>What to do with a chunk\<close>

text \<open>
  The first half of the step: the state of the item decides. \<open>from_lru\<close> keeps the reference taken here.
  The comparison with the result of \<^verbatim>\<open>refcount_incr\<close> is on its 16 bits.
\<close>

definition look_at :: "(bytes \<Rightarrow> uint32) \<Rightarrow> nat \<Rightarrow> addr \<Rightarrow> 'a mover_scheme \<Rightarrow> ('a mover_scheme \<times> move_status) option" where
  "look_at hash cid it s =
    (let x = heap s it in
     if it_flags x = ITEM_SLABBED OR ITEM_FETCHED then Some (s, MOVE_PASS)
     else if has_flag ITEM_SLABBED x then Some (slab_rebalance_cut_free cid it s, MOVE_FROM_SLAB)
     else if has_flag ITEM_LINKED x
     then (case item_trylock s of (s1, got) \<Rightarrow>
       if \<not> got then Some (s1, MOVE_LOCKED)
       else let hv = hash (key_of x); is_linked = has_flag ITEM_LINKED (heap s1 it);
                s2 = refcount_incr it s1; rc = refcount (heap s2 it)
            in if rc = 2 \<and> is_linked then Some (s2, MOVE_FROM_LRU)
               else do {
                 s3 \<leftarrow> (if rc \<noteq> 2 \<and> rc > 2 \<and> is_linked \<and> busy_loops (slab_rebal s2) > SLAB_MOVE_MAX_LOOPS
                        then do_item_unlink it hv (STORAGE_delete it (upd_rebal (\<lambda>r. r\<lparr>busy_deletes := busy_deletes r + 1\<rparr>) s2))
                        else Some s2);
                 Some (refcount_decr it s3, MOVE_BUSY)
               })
     else Some (s, MOVE_BUSY))"

section \<open>Copying\<close>

text \<open>The bytes of the header and of the data of an item up to \<open>ntotal\<close>, to memory that held \<open>y\<close>.\<close>

definition copy_item :: "nat \<Rightarrow> item \<Rightarrow> item \<Rightarrow> item" where
  "copy_item ntotal x y = x\<lparr>idata := copy_at (idata y) 0 (take (ntotal - ITEM_data x) (idata x))\<rparr>"

partial_function (option) repoint_chunks :: "addr \<Rightarrow> addr \<Rightarrow> 'a mem_scheme \<Rightarrow> 'a mem_scheme option" where
  "repoint_chunks fch new_it s =
    (if fch \<noteq> NULL
     then let s1 = upd_item fch (h_next_update (\<lambda>_. new_it)) s in repoint_chunks (it_next (heap s1 fch)) new_it s1
     else Some s)"

text \<open>
  An item moves to \<open>new_it\<close> and its chunk is cleared. The code follows \<^verbatim>\<open>next\<close> of the first chunk of a large item without a test, so a large
  item without chunks has no result.
\<close>

definition rescue_item :: "uint32 \<Rightarrow> nat \<Rightarrow> addr \<Rightarrow> addr \<Rightarrow> 'a mover_scheme \<Rightarrow> 'a mover_scheme option" where
  "rescue_item hv ntotal it new_it s =
    (let s1 = upd_item new_it (\<lambda>y. (copy_item ntotal (heap s it) y)\<lparr>it_prev := NULL, it_next := NULL, h_next := NULL,
                it_flags := it_flags (heap s it) AND NOT ITEM_LINKED, refcount := 0\<rparr>) s;
         s1 = (if has_flag ITEM_CHUNKED (heap s it)
               then upd_item (ITEM_schunk new_it (heap s it)) (\<lambda>_. heap s (ITEM_schunk it (heap s it))) s1 else s1)
     in do {
       s2 \<leftarrow> do_item_replace it new_it hv s1;
       s3 \<leftarrow> (if has_flag ITEM_CHUNKED (heap s2 new_it)
              then let fch = ITEM_schunk new_it (heap s2 new_it)
                   in if it_next (heap s2 fch) = NULL then None
                   else repoint_chunks fch new_it (upd_item (it_next (heap s2 fch)) (it_prev_update (\<lambda>_. fch)) s2)
              else Some s2);
       Some (upd_rebal (\<lambda>r. r\<lparr>rescues := rescues r + 1\<rparr>) (mark_cleared it s3))
     })"

text \<open>A chunk \<open>ch\<close> of the large item \<open>it\<close> moves to \<open>nch\<close>.\<close>

definition rescue_chunk :: "addr \<Rightarrow> addr \<Rightarrow> addr \<Rightarrow> 'a mover_scheme \<Rightarrow> 'a mover_scheme" where
  "rescue_chunk it ch nch s =
    (let s1 = upd_item (it_prev (heap s ch)) (it_next_update (\<lambda>_. nch)) s;
         s2 = (if it_next (heap s1 ch) \<noteq> NULL then upd_item (it_next (heap s1 ch)) (it_prev_update (\<lambda>_. nch)) s1 else s1);
         c = heap s2 ch;
         s3 = upd_item nch (\<lambda>y. c\<lparr>idata := copy_at (idata y) 0 (take (nat (ch_used c)) (idata c))\<rparr>) s2
     in refcount_decr it (upd_rebal (\<lambda>r. r\<lparr>chunk_rescues := chunk_rescues r + 1\<rparr>) (mark_cleared ch s3)))"

text \<open>
  The second half for an item that is linked and not busy. \<open>None\<close> for \<open>ch\<close> is the case of an item, else the
  chunk of a large item \<open>it\<close>. The result says whether the chunk has to be visited again.
\<close>

definition move_from_lru :: "(bytes \<Rightarrow> uint32) \<Rightarrow> nat \<Rightarrow> nat \<Rightarrow> addr \<Rightarrow> addr option \<Rightarrow> 'a mover_scheme \<Rightarrow> ('a mover_scheme \<times> bool) option" where
  "move_from_lru hash cid off it ch s =
    (let x = heap s it; hv = hash (key_of x);
         size = unat (sc_size (cls s cid));
         ntotal0 = unat (ITEM_ntotal x);
         ntotal1 = (if has_flag ITEM_HDR x then unat (ITEM_ntotal x - word_of_int (nbytes x) + 12) else ntotal0);
         ntotal = (if ch = None \<and> has_flag ITEM_CHUNKED x then size else ntotal1)
     in do {
       (s1, new_it) \<leftarrow>
         (if (exptime x \<noteq> 0 \<and> exptime x < current_time s) \<or> item_is_flushed x s then Some (s, NULL)
          else do {
            (t, new_it) \<leftarrow> slab_rebalance_alloc (of_nat (if ch = None then ntotal else size)) cid s;
            Some (if new_it = NULL then upd_rebal (\<lambda>r. r\<lparr>evictions_nomem := evictions_nomem r + 1\<rparr>) t else t, new_it)
          });
       if new_it \<noteq> NULL
       then do {
         s2 \<leftarrow> (case ch of None \<Rightarrow> rescue_item hv ntotal it new_it s1 | Some c \<Rightarrow> Some (rescue_chunk it c new_it s1));
         Some (set_completed off s2, False)
       }
       else let s2 = STORAGE_delete it s1 in
         if ch = None \<and> \<not> has_flag ITEM_CHUNKED (heap s2 it)
         then do { s3 \<leftarrow> do_item_unlink it hv s2; Some (set_completed off (mark_cleared it s3), False) }
         else do {
           s3 \<leftarrow> do_item_unlink it hv s2;
           s4 \<leftarrow> slabs_free it cid s3;
           Some (count_busy s4, True)
         }
     })"

section \<open>A step of the mover\<close>

definition advance :: "'a mover_scheme \<Rightarrow> 'a mover_scheme" where
  "advance s =
    (let r = slab_rebal s; pos = slab_pos r + unat (sc_size (cls s (nat (s_clsid r))))
     in if pos \<ge> slab_end r
        then if busy_items r \<noteq> 0
             then (upd_rebal (\<lambda>r. r\<lparr>slab_pos := slab_start r, busy_items := 0, busy_loops := busy_loops r + 1\<rparr>) s)
                    \<lparr>reassign_busy_items := reassign_busy_items s + ucast (busy_items r)\<rparr>
             else upd_rebal (\<lambda>r. r\<lparr>slab_pos := pos, rb_done := rb_done r + 1\<rparr>) s
        else upd_rebal (\<lambda>r. r\<lparr>slab_pos := pos\<rparr>) s)"

definition slab_rebalance_move :: "(bytes \<Rightarrow> uint32) \<Rightarrow> 'a mover_scheme \<Rightarrow> ('a mover_scheme \<times> bool) option" where
  "slab_rebalance_move hash s =
    (let r = slab_rebal s; cid = nat (s_clsid r); off = move_offset s
     in do {
       (s1, was_busy) \<leftarrow>
         (if completed r ! off = 0
          then let pos = slab_pos r;
                   ch = (if has_flag ITEM_CHUNK (heap s pos) then Some pos else None);
                   it = (if has_flag ITEM_CHUNK (heap s pos) then h_next (heap s pos) else pos)
               in do {
                 (t, status) \<leftarrow> look_at hash cid it s;
                 (case status of
                    MOVE_FROM_LRU \<Rightarrow> move_from_lru hash cid off it ch t
                  | MOVE_FROM_SLAB \<Rightarrow> Some (mark_cleared it (set_completed off t), False)
                  | MOVE_BUSY \<Rightarrow> Some (count_busy t, True)
                  | MOVE_LOCKED \<Rightarrow> Some (count_busy t, True)
                  | MOVE_PASS \<Rightarrow> Some (t, False))
               }
          else Some (s, False));
       Some (advance s1, was_busy)
     })"

section \<open>The end of a move\<close>

text \<open>The oldest page of the source class goes to the end of the list of the destination.\<close>

definition hand_over :: "nat \<Rightarrow> nat \<Rightarrow> addr \<Rightarrow> 'a slabs_scheme \<Rightarrow> 'a slabs_scheme" where
  "hand_over src dst p s =
    (let n = unat (slabs_n (cls s src) - 1);
         s1 = upd_cls src (\<lambda>c. c\<lparr>slabs_n := slabs_n c - 1,
                slab_list := map (\<lambda>x. if x < n then slab_list c ! (x + 1) else slab_list c ! x) [0..<length (slab_list c)]\<rparr>) s
     in upd_cls dst (\<lambda>c. c\<lparr>slab_list := (slab_list c)[unat (slabs_n c) := p], slabs_n := slabs_n c + 1\<rparr>) s1)"

definition slab_rebalance_finish :: "'a mover_scheme \<Rightarrow> 'a mover_scheme option" where
  "slab_rebalance_finish s =
    (let r = slab_rebal s; src = nat (s_clsid r); dst = nat (d_clsid r); p = slab_start r;
         s1 = hand_over src dst p s
     in do {
       s2 \<leftarrow> (if d_clsid r > int SLAB_GLOBAL_PAGE_POOL
              then split_slab_page_into_freelist p dst (wipe p (nat (slab_page_size (settings s1))) s1)
              else if d_clsid r = int SLAB_GLOBAL_PAGE_POOL
              then Some (fst (memory_release ((upd_item p clear_header s1)\<lparr>mem_limit_reached := False\<rparr>)))
              else Some s1);
       Some ((upd_rebal (\<lambda>r. r\<lparr>busy_loops := 0, rb_done := 0, s_clsid := 0, d_clsid := 0, slab_start := NULL, slab_end := NULL,
                slab_pos := NULL, evictions_nomem := 0, inline_reclaim := 0, rescues := 0, chunk_rescues := 0, busy_deletes := 0,
                completed := []\<rparr>) s2)
              \<lparr>slab_rebalance_signal := 0, slabs_moved := slabs_moved s2 + 1,
               reassign_rescues := reassign_rescues s2 + ucast (rescues r),
               reassign_evictions_nomem := reassign_evictions_nomem s2 + ucast (evictions_nomem r),
               reassign_inline_reclaim := reassign_inline_reclaim s2 + ucast (inline_reclaim r),
               reassign_chunk_rescues := reassign_chunk_rescues s2 + ucast (chunk_rescues r),
               reassign_busy_deletes := reassign_busy_deletes s2 + ucast (busy_deletes r),
               slab_reassign_running := False\<rparr>)
     })"

section \<open>The mover thread\<close>

text \<open>
  A round of the loop of the thread, with \<open>was_busy\<close> and \<open>backoff_timer\<close> kept across rounds. The last
  component of the result is the time to sleep.
\<close>

definition rebalance_round :: "(bytes \<Rightarrow> uint32) \<Rightarrow> 'a mover_scheme \<Rightarrow> bool \<Rightarrow> int \<Rightarrow> ('a mover_scheme \<times> bool \<times> int \<times> int) option" where
  "rebalance_round hash s was_busy backoff_timer = do {
     (s1, busy1) \<leftarrow>
       (if slab_rebalance_signal s = 1
        then case slab_rebalance_start s of (t, r) \<Rightarrow>
               Some (if r < 0 then t\<lparr>slab_rebalance_signal := 0\<rparr> else t, False)
        else if slab_rebalance_signal s \<noteq> 0 \<and> slab_start (slab_rebal s) \<noteq> NULL
        then slab_rebalance_move hash s
        else Some (s, was_busy));
     if rb_done (slab_rebal s1) \<noteq> 0 then do { s2 \<leftarrow> slab_rebalance_finish s1; Some (s2, busy1, backoff_timer, 0) }
     else if busy1 then Some (s1, busy1, min (backoff_timer * 2) 1000, backoff_timer)
     else Some (s1, busy1, backoff_timer, 0)
   }"

section \<open>Chunks in the hands of the mover\<close>

text \<open>The free lists change, the live items do not.\<close>

lemma lists_inv:
  assumes inv: "items_inv hash s m Q F H R" and lo: "lists_only s s'" and sl: "slab_inv s' F' H'"
    and hp: "\<And>b. b \<in> live m R \<Longrightarrow> heap s' b = heap s b" and HH: "\<And>b c. b \<in> live m R \<Longrightarrow> b \<in> H c \<Longrightarrow> b \<in> H' c"
  shows "items_inv hash s' m Q F' H' R" "data_kept (live m R) s s'"
proof -
  note I = items_invD [OF inv]
  have lm: "b \<in> live m R" if "b \<in> ran m" for b using that by (simp add: live_def)
  note l = lists_only_items [OF lo, unfolded same_tables_def, simplified]
  have "assoc_abs hash s' m" by (rule assoc_abs_frame [OF I(1)]) (use l hp lm in auto)
  moreover have "lru_ok s' Q" by (rule lru_ok_frame [OF I(2)]) (use l hp lm I(3) in auto)
  moreover have "class_ok s" using I(4) by (simp add: slab_inv_def free_ok_def)
  then have "no_overflow s'" using no_overflow_lists [OF lo] I(5) by simp
  moreover have "item_ok m H' (power_largest s') R b (heap s' b)" if b: "b \<in> live m R" for b
    using I(6) [OF b] hp [OF b] HH [OF b] lists_onlyD(1) [OF lo] by (auto simp: item_ok_def)
  moreover have "(\<Sum>b \<in> ran m. ITEM_ntotal (heap s' b)) = (\<Sum>b \<in> ran m. ITEM_ntotal (heap s b))"
    by (rule sum.cong) (use hp lm in auto)
  ultimately show "items_inv hash s' m Q F' H' R" using I(3,7,8) sl l by (simp add: items_inv_def)
  show "data_kept (live m R) s s'" using hp l by (simp add: data_kept_def)
qed

text \<open>Writing to a chunk that is held and not live, or stops being live.\<close>

lemma forget_inv:
  assumes inv: "items_inv hash s m Q F H R" and a: "a \<notin> ran m" "a \<in> H c" "c \<in> {1..power_largest s}"
    and s': "heap s' = (heap s)(a := x)" "same_tables s s'" "curr_items s' = curr_items s" "curr_bytes s' = curr_bytes s"
  shows "items_inv hash s' m Q F H (R(a := 0))"
proof -
  note I = items_invD [OF inv]
  have t: "hashpower s' = hashpower s" "primary_hashtable s' = primary_hashtable s" "old_hashtable s' = old_hashtable s"
    "expanding s' = expanding s" "expand_bucket s' = expand_bucket s"
    "slabclass s' = slabclass s" "power_largest s' = power_largest s" "settings s' = settings s" "malloc_supply s' = malloc_supply s"
    "heads s' = heads s" "tails s' = tails s" "lru_sizes s' = lru_sizes s" "sizes_bytes s' = sizes_bytes s"
    using s'(2) by (simp_all add: same_tables_def)
  have h: "heap s' b = heap s b" if "b \<noteq> a" for b using that s'(1) by simp
  have hm: "heap s' b = heap s b" if "b \<in> ran m" for b using that a(1) h by metis
  have nf: "a \<notin> all_free s F" using held_not_free(1) [OF I(4) a(3,2)] .
  have "assoc_abs hash s' m" by (rule assoc_abs_frame [OF I(1)]) (use t hm in auto)
  moreover have "lru_ok s' Q" by (rule lru_ok_frame [OF I(2)]) (use t hm I(3) in auto)
  moreover have "slab_inv s' F H"
  proof (rule slab_inv_frame [OF I(4)])
    fix b assume "b \<in> all_free s F"
    with nf show "heap s' b = heap s b" using h by metis
  qed (use t in simp_all)
  moreover have "no_overflow s'" using I(5) t by (simp add: no_overflow_def)
  moreover have "item_ok m H (power_largest s') (R(a := 0)) b (heap s' b)" if b: "b \<in> live m (R(a := 0))" for b
  proof -
    have "b \<noteq> a" using b a(1) by (auto simp: live_def)
    moreover have "b \<in> live m R" using b \<open>b \<noteq> a\<close> by (auto simp: live_def)
    ultimately show ?thesis using I(6) [of b] h [of b] t(7) by (simp add: item_ok_def)
  qed
  moreover have "(\<Sum>b \<in> ran m. ITEM_ntotal (heap s' b)) = (\<Sum>b \<in> ran m. ITEM_ntotal (heap s b))"
    by (rule sum.cong) (use hm in auto)
  ultimately show ?thesis using I s' by (simp add: items_inv_def)
qed

lemma upd_rebal_inv: "items_inv hash (upd_rebal f s) m Q F H R \<longleftrightarrow> items_inv hash s m Q F H R"
proof -
  have e: "upd_rebal f s = s\<lparr>slab_rebal := f (slab_rebal s)\<rparr>" by (simp add: upd_rebal_def)
  have a: "items_inv hash (t\<lparr>slab_rebal := r\<rparr>) m Q F H R" if "items_inv hash t m Q F H R" for t :: "'a items_scheme" and r
    by (rule same_items_inv [OF that]) (simp_all add: same_tables_def)
  have "s = (s\<lparr>slab_rebal := f (slab_rebal s)\<rparr>)\<lparr>slab_rebal := slab_rebal s\<rparr>" by simp
  with a show ?thesis unfolding e by metis
qed

text \<open>Taking a chunk from a free list without adding a page.\<close>

lemma pop_inv:
  assumes inv: "items_inv hash s m Q F H R" and c: "c \<in> {1..power_largest s}"
  shows "case F c of
      [] \<Rightarrow> do_slabs_alloc sz c SLABS_ALLOC_NO_NEWPAGE s = Some (s, NULL)
    | a # as \<Rightarrow> \<exists>s'. do_slabs_alloc sz c SLABS_ALLOC_NO_NEWPAGE s = Some (s', a) \<and> items_inv hash s' m Q (F(c := as)) (H(c := insert a (H c))) R \<and>
        lists_only s s' \<and> a \<noteq> NULL \<and> a \<notin> H c \<and> a \<notin> live m R \<and> it_flags (heap s' a) = 0 \<and> refcount (heap s' a) = 1 \<and>
        (\<forall>b. b \<notin> set (F c) \<longrightarrow> heap s' b = heap s b)"
proof -
  note I = items_invD [OF inv]
  note fl = free_length(2) [OF I(4) c]
  have al: "do_slabs_alloc sz c SLABS_ALLOC_NO_NEWPAGE s = (if sl_curr (cls s c) \<noteq> 0 then Some (freelist_pop c s, sc_slots (cls s c)) else Some (s, NULL))"
    using c by (auto simp: do_slabs_alloc_def)
  show ?thesis
  proof (cases "F c")
    case Nil
    then have "sl_curr (cls s c) = 0" using fl by (simp add: unat_eq_zero)
    with al Nil show ?thesis by simp
  next
    case (Cons a as)
    then have nz: "sl_curr (cls s c) \<noteq> 0" using fl by auto
    have "free_ok s F" using I(4) by (simp add: slab_inv_def)
    note P = freelist_pop_free [OF this c Cons]
    let ?s = "freelist_pop c s"
    have lo: "lists_only s ?s" by (simp add: lists_only_def freelist_pop_def upd_cls_def Let_def map_geo_update geo_def)
    have di: "distinct (a # as)" "a \<noteq> NULL" using free_listD [OF inv_class(10) [OF I(4) c]] Cons by auto
    have aH: "a \<notin> H c" using inv_class(8) [OF I(4) c] Cons by auto
    have sl: "slab_inv ?s (F(c := as)) (H(c := insert a (H c)))"
    proof (rule slab_inv_lists [OF I(4) lo])
      fix d assume "d \<in> {1..power_largest s}"
      from inv_class(8,9) [OF I(4) this] di(1) Cons
      show "set ((F(c := as)) d) \<inter> (H(c := insert a (H c))) d = {} \<and> set ((F(c := as)) d) \<union> (H(c := insert a (H c))) d = chunks s d"
        by auto
    qed (use P in simp)
    have nl: "b \<notin> set (F c)" if "b \<in> live m R" for b using live_held(1) [OF inv that] c by (auto simp: all_free_def)
    have "items_inv hash ?s m Q (F(c := as)) (H(c := insert a (H c))) R"
      by (rule lists_inv [OF inv lo sl]) (use P nl in auto)
    moreover have "a \<notin> live m R" using nl [of a] Cons by auto
    ultimately show ?thesis using al nz P di(2) aH lo Cons by simp
  qed
qed

section \<open>What a step leaves alone\<close>

text \<open>The fields of an item apart from its links and times.\<close>

definition same_item :: "item \<Rightarrow> item \<Rightarrow> bool" where
  "same_item x y \<longleftrightarrow> same_data x y \<and> it_flags x = it_flags y \<and> refcount x = refcount y \<and> slabs_clsid x = slabs_clsid y"

lemma same_item_refl [simp]: "same_item x x"
  by (simp add: same_item_def)

lemma same_item_trans: "same_item x y \<Longrightarrow> same_item y z \<Longrightarrow> same_item x z"
  by (auto simp: same_item_def intro: same_data_trans)

text \<open>The fields of the state the mover reads besides the memory, and where it stands.\<close>

definition cursor :: "slab_rebalance \<Rightarrow> addr \<times> addr \<times> addr \<times> int \<times> int \<times> uint32 \<times> uint32 \<times> byte \<times> byte list" where
  "cursor r = (slab_start r, slab_end r, slab_pos r, s_clsid r, d_clsid r, busy_items r, busy_loops r, rb_done r, completed r)"

definition same_move :: "'a mover_scheme \<Rightarrow> 'a mover_scheme \<Rightarrow> bool" where
  "same_move s s' \<longleftrightarrow> map geo (slabclass s') = map geo (slabclass s) \<and> power_largest s' = power_largest s \<and> settings s' = settings s \<and>
    malloc_supply s' = malloc_supply s \<and> current_time s' = current_time s \<and> cursor (slab_rebal s') = cursor (slab_rebal s) \<and>
    slab_rebalance_signal s' = slab_rebalance_signal s"

lemma same_move_refl [simp]: "same_move s s"
  by (simp add: same_move_def)

lemma same_move_trans: "same_move s s' \<Longrightarrow> same_move s' s'' \<Longrightarrow> same_move s s''"
  by (simp add: same_move_def)

lemma lists_only_move:
  fixes s :: "'a mover_scheme"
  assumes lo: "lists_only s s'"
  shows "same_move s s'" "trylock_supply s' = trylock_supply s" "slab_rebal s' = slab_rebal s"
proof -
  have e: "s'\<lparr>heap := (\<lambda>_. item0), slabclass := []\<rparr> = s\<lparr>heap := (\<lambda>_. item0), slabclass := []\<rparr>" and
    g: "map geo (slabclass s') = map geo (slabclass s)" using lo by (simp_all add: lists_only_def)
  show "trylock_supply s' = trylock_supply s" "slab_rebal s' = slab_rebal s"
    using arg_cong [OF e, of trylock_supply] arg_cong [OF e, of slab_rebal] by simp_all
  then show "same_move s s'" using arg_cong [OF e, of current_time] arg_cong [OF e, of slab_rebalance_signal] lists_onlyD [OF lo] g
    by (simp add: same_move_def)
qed

lemma unlink_move:
  assumes "do_item_unlink a hv s = Some s'" "refcount (heap s a) \<noteq> 1"
  shows "same_move s s' \<and> trylock_supply s' = trylock_supply s \<and> slabclass s' = slabclass s \<and> slab_rebal s' = slab_rebal s"
proof (cases "has_flag ITEM_LINKED (heap s a)")
  case False
  then show ?thesis using assms(1) by (simp add: do_item_unlink_def)
next
  case True
  from do_item_unlink_eq [OF this] obtain h where "do_item_unlink a hv s = Option.bind (assoc_delete (key_of (heap s a)) hv ((unlink_start a s)\<lparr>stats_sizes_hist := h\<rparr>))
    (\<lambda>s4. do_item_remove a (do_item_unlink_q a s4))" by blast
  with assms(1) obtain s4 where s4: "assoc_delete (key_of (heap s a)) hv ((unlink_start a s)\<lparr>stats_sizes_hist := h\<rparr>) = Some s4"
    "do_item_remove a (do_item_unlink_q a s4) = Some s'" by (auto split: bind_splits)
  have d: "trylock_supply s4 = trylock_supply s \<and> slab_rebal s4 = slab_rebal s \<and> slab_rebalance_signal s4 = slab_rebalance_signal s \<and> refcount (heap s4 a) = refcount (heap s a)"
    using s4(1) by (auto simp: assoc_delete_def set_pos_def unlink_start_def Let_def split: option.splits if_splits hpos.splits)
  note af = assoc_delete_fields [OF s4(1)]
  let ?u = "do_item_unlink_q a s4"
  have u: "trylock_supply ?u = trylock_supply s4 \<and> slab_rebal ?u = slab_rebal s4 \<and> slab_rebalance_signal ?u = slab_rebalance_signal s4 \<and> refcount (heap ?u a) = refcount (heap s4 a)"
    by (simp add: do_item_unlink_q_def Let_def)
  have "refcount (heap ?u a) - 1 \<noteq> 0" using d u assms(2) by simp
  then have "s' = refcount_decr a ?u" using s4(2) by (auto simp: do_item_remove_def Let_def refcount_decr_def split: if_splits)
  then show ?thesis using d u af by (simp add: same_move_def refcount_decr_def unlink_start_def)
qed

text \<open>Giving back a reference that is not the last one, or not of an item that is about to be freed.\<close>

lemma refcount_decr_inv:
  assumes inv: "items_inv hash s m Q F H R" and a: "0 < R a"
  shows "items_inv hash (refcount_decr a s) m Q F H (R(a := R a - 1))"
proof (rule items_inv_tweak [OF inv])
  have al: "a \<in> live m R" using a by (simp add: live_def)
  have r: "unat (refcount (heap s a)) = R a + (if a \<in> ran m then 1 else 0)" using items_invD(6) [OF inv al] by (simp add: item_ok_def)
  then have r1: "unat (refcount (heap s a) - 1) = R a - 1 + (if a \<in> ran m then 1 else 0)" using a by (subst unat_minus_le) auto
  fix b assume b: "b \<in> live m (R(a := R a - 1))"
  then show lb: "b \<in> live m R" using al by (auto simp: live_def split: if_splits)
  show "unat (refcount (heap (refcount_decr a s) b)) = (R(a := R a - 1)) b + (if b \<in> ran m then 1 else 0)"
    using r1 items_invD(6) [OF inv lb] by (auto simp: refcount_decr_def item_ok_def)
qed (use a in \<open>auto simp: same_tables_def refcount_decr_def same_core_def live_def\<close>)

text \<open>Unlinking an item of which a reference is held.\<close>

lemma unlink_frame:
  assumes inv: "items_inv hash s m Q F H R" and k: "m k = Some a" and r: "0 < R a"
  shows "\<exists>s' Q'. do_item_unlink a (hash k) s = Some s' \<and> items_inv hash s' (m(k := None)) Q' F H R \<and>
    (\<forall>b. b \<noteq> a \<longrightarrow> same_item (heap s' b) (heap s b)) \<and> (\<forall>b. b \<notin> ran m \<longrightarrow> heap s' b = heap s b) \<and> refcount (heap s a) \<noteq> 1"
proof -
  have ar: "a \<in> ran m" using k by (auto simp: ran_def)
  then have al: "a \<in> live m R" by (simp add: live_def)
  have ok: "item_ok m H (power_largest s) R a (heap s a)" by (rule items_invD(6) [OF inv al])
  then have "unat (refcount (heap s a)) = R a + 1" using ar by (simp add: item_ok_def)
  then have n1: "refcount (heap s a) \<noteq> 1" using r by auto
  have lk: "has_flag ITEM_LINKED (heap s a)" using ok ar by (simp add: item_ok_def)
  have keyk: "key_of (heap s a) = k" by (rule assoc_key [OF items_invD(1) [OF inv] k])
  obtain h where e: "do_item_unlink a (hash k) s = Option.bind (assoc_delete k (hash k) ((unlink_start a s)\<lparr>stats_sizes_hist := h\<rparr>))
    (\<lambda>s4. do_item_remove a (do_item_unlink_q a s4))" using do_item_unlink_eq [OF lk] unfolding keyk by blast
  from unlink_mid_inv [OF inv k] obtain s5 i xs ys where s5: "do_item_unlink a (hash k) s = do_item_remove a s5" "i < LARGEST_ID" "Q i = xs @ a # ys"
    "items_inv hash s5 (m(k := None)) (Q(i := xs @ ys)) F H (R(a := R a + 1))" by blast
  have qi: "i = unat (slabs_clsid (heap s a))" using items_invD(2) [OF inv] s5(2,3) by (auto simp: lru_ok_def lru_list_def)
  from unlink_mid_state [OF inv k qi s5(3) refl] obtain s4 where s4: "assoc_delete k (hash k) ((unlink_start a s)\<lparr>stats_sizes_hist := h\<rparr>) = Some s4"
    "\<And>b. b \<notin> ran m \<Longrightarrow> heap (do_item_unlink_q a s4) b = heap s b"
    "\<And>b. b \<noteq> a \<Longrightarrow> it_flags (heap (do_item_unlink_q a s4) b) = it_flags (heap s b)"
    "\<And>b. same_data (heap (do_item_unlink_q a s4) b) (heap s b) \<and> slabs_clsid (heap (do_item_unlink_q a s4) b) = slabs_clsid (heap s b) \<and>
      refcount (heap (do_item_unlink_q a s4) b) = refcount (heap s b)" by blast
  let ?u = "do_item_unlink_q a s4"
  have "refcount (heap ?u a) - 1 \<noteq> 0" using s4(4) n1 by simp
  then have rm: "do_item_remove a ?u = Some (refcount_decr a ?u)" by (simp add: do_item_remove_def Let_def refcount_decr_def)
  have res: "do_item_unlink a (hash k) s = Some (refcount_decr a ?u)" using e s4(1) rm by simp
  have an: "a \<notin> ran (m(k := None))" using assoc_ran_delete [OF items_invD(1) [OF inv] k] by simp
  have "a \<in> live (m(k := None)) (R(a := R a + 1))" by (simp add: live_def)
  from items_invD(6) [OF s5(4) this] have "unat (refcount (heap s5 a)) = R a + 1" using an by (simp add: item_ok_def)
  then have "refcount (heap s5 a) - 1 \<noteq> 0" using r by auto
  then have "do_item_remove a s5 = Some (refcount_decr a s5)" by (simp add: do_item_remove_def Let_def refcount_decr_def)
  then have eq: "refcount_decr a ?u = refcount_decr a s5" using res s5(1) by simp
  have "items_inv hash (refcount_decr a s5) (m(k := None)) (Q(i := xs @ ys)) F H R"
    using refcount_decr_inv [OF s5(4), of a] by simp
  moreover have "same_item (heap (refcount_decr a ?u) b) (heap s b)" if "b \<noteq> a" for b
    using s4(3,4) [of b] that by (simp add: refcount_decr_def same_item_def)
  moreover have "heap (refcount_decr a ?u) b = heap s b" if "b \<notin> ran m" for b
    using s4(2) [OF that] that ar by (auto simp: refcount_decr_def)
  ultimately show ?thesis using res n1 eq by auto
qed

section \<open>Linking an item with no reference\<close>

lemma link_fields:
  "same_move s (do_item_link a hv s)" "trylock_supply (do_item_link a hv s) = trylock_supply s" "slab_rebal (do_item_link a hv s) = slab_rebal s"
  "slabclass (do_item_link a hv s) = slabclass s"
proof -
  obtain h where e: "do_item_link a hv s = (refcount_incr a (do_item_link_q a (assoc_insert a hv (link_start a s))))\<lparr>stats_sizes_hist := h\<rparr>"
    using do_item_link_eq by blast
  have ins: "trylock_supply (assoc_insert a hv t) = trylock_supply t" "slab_rebal (assoc_insert a hv t) = slab_rebal t"
    "current_time (assoc_insert a hv t) = current_time t" "slab_rebalance_signal (assoc_insert a hv t) = slab_rebalance_signal t" for t :: "'a mover_scheme"
    by (simp_all add: assoc_insert_def set_pos_def Let_def split: hpos.splits)
  have "slab_rebalance_signal (do_item_link a hv s) = slab_rebalance_signal s"
    unfolding e by (simp_all add: refcount_incr_def do_item_link_q_def Let_def ins) (simp_all add: link_start_def Let_def)
  moreover show "slab_rebal (do_item_link a hv s) = slab_rebal s" "trylock_supply (do_item_link a hv s) = trylock_supply s"
    unfolding e by (simp_all add: refcount_incr_def do_item_link_q_def Let_def ins) (simp_all add: link_start_def Let_def)
  ultimately show "same_move s (do_item_link a hv s)" using do_item_link_tables [of a hv s] by (simp add: same_move_def)
  show "slabclass (do_item_link a hv s) = slabclass s" by (rule do_item_link_tables)
qed

lemma incr_commute:
  "assoc_insert b hv (refcount_incr b s) = refcount_incr b (assoc_insert b hv s)"
  "do_item_link_q b (refcount_incr b s) = refcount_incr b (do_item_link_q b s)"
  "item_stats_sizes_add x (refcount_incr b s) = refcount_incr b (item_stats_sizes_add x s)"
  "sizes_bucket ((heap s b)\<lparr>refcount := n\<rparr>) = sizes_bucket (heap s b)"
  "link_start b (refcount_incr b s) = refcount_incr b (link_start b s)"
proof -
  have nt: "ITEM_ntotal (x\<lparr>refcount := n\<rparr>) = ITEM_ntotal x" for x n by (simp add: ITEM_ntotal_def has_flag_def)
  have li: "linked_item (s\<lparr>heap := h\<rparr>) (x\<lparr>refcount := n\<rparr>) = (linked_item s x)\<lparr>refcount := n\<rparr>" for x n h
    by (cases x) (simp add: linked_item_def ITEM_set_cas_def has_flag_def)
  show "assoc_insert b hv (refcount_incr b s) = refcount_incr b (assoc_insert b hv s)"
    by (auto simp: assoc_insert_def refcount_incr_def set_pos_def slot_of_def get_pos_def Let_def fun_eq_iff split: hpos.splits)
  show "do_item_link_q b (refcount_incr b s) = refcount_incr b (do_item_link_q b s)"
    by (auto simp: do_item_link_q_def refcount_incr_def Let_def fun_eq_iff lru_bytes_def ITEM_ntotal_def has_flag_def)
  show "item_stats_sizes_add x (refcount_incr b s) = refcount_incr b (item_stats_sizes_add x s)"
    by (cases "stats_sizes_hist s") (simp_all add: item_stats_sizes_add_def refcount_incr_def Let_def)
  show "sizes_bucket ((heap s b)\<lparr>refcount := n\<rparr>) = sizes_bucket (heap s b)"
    by (simp add: sizes_bucket_def ITEM_ntotal_def has_flag_def)
  show "link_start b (refcount_incr b s) = refcount_incr b (link_start b s)"
    by (simp add: link_start_def refcount_incr_def Let_def li nt linked_item_fields has_flag_def)
qed

lemma link_as: "do_item_link b hv s =
  (let t = refcount_incr b (do_item_link_q b (assoc_insert b hv (link_start b s))) in item_stats_sizes_add (heap t b) t)"
proof -
  have n: "ITEM_ntotal ((heap s b)\<lparr>it_flags := it_flags (heap s b) OR ITEM_LINKED, it_time := current_time s\<rparr>) = ITEM_ntotal (heap s b)"
    by (simp add: ITEM_ntotal_def has_flag_def flag_or)
  show ?thesis
    by (cases "use_cas (settings s)"; cases "has_flag ITEM_CAS (heap s b)")
      (simp_all add: do_item_link_def get_cas_id_def Let_def n link_start_def linked_item_def ITEM_set_cas_def cas_flag_linked)
qed

lemma link_incr_commute: "do_item_link b hv (refcount_incr b s) = refcount_incr b (do_item_link b hv s)"
proof -
  have st: "item_stats_sizes_add (x\<lparr>refcount := n\<rparr>) t = item_stats_sizes_add x t" for x n and t :: "'a items_scheme"
    by (cases "stats_sizes_hist t") (simp_all add: item_stats_sizes_add_def sizes_bucket_def ITEM_ntotal_def ITEM_get_cas_def has_flag_def)
  have h: "heap (refcount_incr b t) b = (heap t b)\<lparr>refcount := refcount (heap t b) + 1\<rparr>" for t :: "'a items_scheme"
    by (simp add: refcount_incr_def)
  show ?thesis unfolding link_as Let_def incr_commute(5,1,2) h st incr_commute(3) by (simp add: st)
qed

lemma decr_incr: "refcount_decr b (refcount_incr b s) = s"
  by (simp add: refcount_decr_def refcount_incr_def)

lemma relink_inv:
  assumes inv: "items_inv hash s m Q F H R" and b: "b \<notin> live m R" "b \<in> H c" "c \<in> {1..power_largest s}"
    and x: "key_wf (heap s b)" "\<not> has_flag ITEM_CHUNKED (heap s b)" "it_flags (heap s b) AND (ITEM_SLABBED OR ITEM_CHUNK) = 0"
      "\<not> has_flag ITEM_LINKED (heap s b)" "refcount (heap s b) = 0" "unat (ITEM_clsid (heap s b)) = c"
    and k: "k = key_of (heap s b)" "m k = None"
  shows "\<exists>Q'. items_inv hash (do_item_link b (hash k) s) (m(k \<mapsto> b)) Q' F H R"
    "\<And>a. a \<noteq> b \<Longrightarrow> same_item (heap (do_item_link b (hash k) s) a) (heap s a)"
    "\<And>a. a \<noteq> b \<Longrightarrow> a \<notin> ran m \<Longrightarrow> heap (do_item_link b (hash k) s) a = heap s a"
    "same_value (heap (do_item_link b (hash k) s) b) (heap s b)" "exptime (heap (do_item_link b (hash k) s) b) = exptime (heap s b)"
    "it_flags (heap (do_item_link b (hash k) s) b) = it_flags (heap s b) OR ITEM_LINKED"
    "slabs_clsid (heap (do_item_link b (hash k) s) b) = slabs_clsid (heap s b)"
proof -
  let ?t = "refcount_incr b s" and ?R = "R(b := 1)" and ?s = "do_item_link b (hash k) s"
  have nb: "b \<notin> ran m" "R b = 0" using b(1) by (auto simp: live_def)
  have ht: "heap ?t = (heap s)(b := (heap s b)\<lparr>refcount := 1\<rparr>)" using x(5) by (simp add: refcount_incr_def)
  have inv1: "items_inv hash ?t m Q F H ?R"
  proof (rule adopt_inv [OF inv b _ ht])
    show "item_ok m H (power_largest s) ?R b ((heap s b)\<lparr>refcount := 1\<rparr>)"
      using x b nb by (simp add: item_ok_def key_wf_def has_flag_def ITEM_clsid_def)
  qed (simp_all add: refcount_incr_def same_tables_def)
  have kt: "k = key_of (heap ?t b)" by (simp add: ht k(1) key_of_def)
  note L = do_item_link_inv [OF inv1 nb(1) _ _ kt k(2) refl, simplified] and S = do_item_link_state [OF inv1 nb(1) _ _ kt k(2) refl, simplified]
  have e: "do_item_link b (hash k) ?t = refcount_incr b ?s" by (rule link_incr_commute)
  have "items_inv hash (refcount_decr b (refcount_incr b ?s)) (m(k \<mapsto> b)) (Q(unat (slabs_clsid (heap ?t b)) := b # Q (unat (slabs_clsid (heap ?t b))))) F H (?R(b := ?R b - 1))"
    by (rule refcount_decr_inv) (use L(1) e in simp_all)
  moreover have "?R(b := ?R b - 1) = R" using nb(2) by auto
  ultimately show "\<exists>Q'. items_inv hash ?s (m(k \<mapsto> b)) Q' F H R" unfolding decr_incr by auto
  show "same_item (heap ?s a) (heap s a)" if "a \<noteq> b" for a
    using S(4) [OF that] that unfolding e by (simp add: same_item_def refcount_incr_def)
  show "heap ?s a = heap s a" if "a \<noteq> b" "a \<notin> ran m" for a
    using S(3) [OF that] that unfolding e by (simp add: refcount_incr_def)
  note V = link_value [OF inv1 nb(1) _ _ kt k(2), simplified]
  show "same_value (heap ?s b) (heap s b)" "exptime (heap ?s b) = exptime (heap s b)"
    using V unfolding e by (simp_all add: refcount_incr_def same_value_def)
  have "it_flags (heap (do_item_link b (hash k) ?t) b) = it_flags (heap s b) OR ITEM_LINKED"
    "slabs_clsid (heap (do_item_link b (hash k) ?t) b) = slabs_clsid (heap s b)"
    using arg_cong [OF S(5), of it_flags] arg_cong [OF S(5), of slabs_clsid] by (simp_all add: linked_item_fields refcount_incr_def)
  then show "it_flags (heap ?s b) = it_flags (heap s b) OR ITEM_LINKED" "slabs_clsid (heap ?s b) = slabs_clsid (heap s b)"
    unfolding e by (simp_all add: refcount_incr_def)
qed

section \<open>Memory for a moved item\<close>

definition move_page :: "'a rebal_scheme \<Rightarrow> addr set" where
  "move_page s = {slab_start (slab_rebal s)..<slab_end (slab_rebal s)}"

lemma same_move_page: "same_move s s' \<Longrightarrow> move_page s' = move_page s"
  by (simp add: same_move_def cursor_def move_page_def)

lemma same_move_class:
  assumes "same_move s s'" "c < length (slabclass s)"
  shows "sc_size (cls s' c) = sc_size (cls s c)" "perslab (cls s' c) = perslab (cls s c)" "slabs_n (cls s' c) = slabs_n (cls s c)"
    "slab_list (cls s' c) = slab_list (cls s c)" "length (slabclass s') = length (slabclass s)"
proof -
  have g: "map geo (slabclass s') = map geo (slabclass s)" using assms(1) by (simp add: same_move_def)
  then show l: "length (slabclass s') = length (slabclass s)" by (metis length_map)
  have "geo (cls s' c) = geo (cls s c)" using arg_cong [OF g, of "\<lambda>l. l ! c"] assms(2) l by simp
  from geo_fields [OF this] show "sc_size (cls s' c) = sc_size (cls s c)" "perslab (cls s' c) = perslab (cls s c)"
    "slabs_n (cls s' c) = slabs_n (cls s c)" "slab_list (cls s' c) = slab_list (cls s c)" by simp_all
qed

text \<open>A chunk of the page that comes off the free list is cleared at once.\<close>

lemma mark_cleared_inv:
  assumes inv: "items_inv hash s m Q F H R" and a: "a \<notin> ran m" "a \<in> H c" "c \<in> {1..power_largest s}"
  shows "items_inv hash (mark_cleared a s) m Q F H (R(a := 0))"
  by (rule forget_inv [OF inv a]) (simp_all add: mark_cleared_def same_tables_def)

lemma mark_cleared_fields:
  "same_move s (mark_cleared a s)" "trylock_supply (mark_cleared a s) = trylock_supply s" "slab_rebal (mark_cleared a s) = slab_rebal s"
  "heap (mark_cleared a s) b = (if b = a then (heap s a)\<lparr>refcount := 0, it_flags := CLEARED\<rparr> else heap s b)"
  by (simp_all add: mark_cleared_def same_move_def)

lemma upd_rebal_fields [simp]:
  "heap (upd_rebal f s) = heap s" "slab_rebal (upd_rebal f s) = f (slab_rebal s)" "slabclass (upd_rebal f s) = slabclass s"
  "power_largest (upd_rebal f s) = power_largest s" "settings (upd_rebal f s) = settings s" "malloc_supply (upd_rebal f s) = malloc_supply s"
  by (simp_all add: upd_rebal_def)

lemma upd_rebal_more [simp]: "trylock_supply (upd_rebal f s) = trylock_supply s" "current_time (upd_rebal f s) = current_time s"
  "slab_rebalance_signal (upd_rebal f s) = slab_rebalance_signal s"
  by (simp_all add: upd_rebal_def)

lemma upd_rebal_move: "cursor (f (slab_rebal s)) = cursor (slab_rebal s) \<Longrightarrow> same_move s (upd_rebal f s)"
  by (simp add: same_move_def)

lemma rebalance_alloc_mark:
  "rebalance_alloc_loop (Suc n) sz cid s =
    (case do_slabs_alloc sz cid SLABS_ALLOC_NO_NEWPAGE s of None \<Rightarrow> None
     | Some (s1, a) \<Rightarrow> if a = NULL then Some (s1, NULL)
        else if a \<in> move_page s1 then rebalance_alloc_loop n sz cid (upd_rebal (\<lambda>r. r\<lparr>inline_reclaim := inline_reclaim r + 1\<rparr>) (mark_cleared a s1))
        else Some (s1, a))"
  by (auto simp: mark_cleared_def move_page_def split: option.splits)

definition got_chunk :: "nat \<Rightarrow> (nat \<Rightarrow> addr list) \<Rightarrow> (nat \<Rightarrow> addr set) \<Rightarrow> (bytes \<Rightarrow> uint32) \<Rightarrow> (bytes \<rightharpoonup> addr) \<Rightarrow> (nat \<Rightarrow> addr list) \<Rightarrow> (addr \<Rightarrow> nat) \<Rightarrow>
    'a mover_scheme \<Rightarrow> 'a mover_scheme \<times> addr \<Rightarrow> bool" where
  "got_chunk c F H hash m Q R s = (\<lambda>(s', b). \<exists>pre ys.
    same_move s s' \<and> trylock_supply s' = trylock_supply s \<and> (\<forall>x. x \<notin> set (F c) \<longrightarrow> heap s' x = heap s x) \<and>
    (\<forall>x \<in> set pre. it_flags (heap s' x) = CLEARED) \<and> set pre \<subseteq> move_page s \<and>
    (if b = NULL then F c = pre \<and> ys = [] \<and> items_inv hash s' m Q (F(c := [])) (H(c := H c \<union> set pre)) R
     else F c = pre @ b # ys \<and> b \<notin> move_page s \<and> b \<notin> H c \<and> b \<notin> live m R \<and> it_flags (heap s' b) = 0 \<and>
       items_inv hash s' m Q (F(c := ys)) (H(c := insert b (H c \<union> set pre))) R))"

lemma rebalance_alloc_loop_inv:
  assumes "items_inv hash s m Q F H R" "c \<in> {1..power_largest s}" "card (set (F c) \<inter> move_page s) < n"
  shows "\<exists>r. rebalance_alloc_loop n sz c s = Some r \<and> got_chunk c F H hash m Q R s r"
  using assms
proof (induction n arbitrary: s F H)
  case (Suc n)
  note inv = Suc.prems(1) and c = Suc.prems(2)
  note P = pop_inv [OF inv c, where sz = sz]
  show ?case
  proof (cases "F c")
    case Nil
    with P have "rebalance_alloc_loop (Suc n) sz c s = Some (s, NULL)" by simp
    moreover have "F(c := []) = F" "H(c := H c) = H" using Nil by auto
    ultimately show ?thesis using inv Nil by (auto simp: got_chunk_def)
  next
    case (Cons a as)
    with P obtain s1 where s1: "do_slabs_alloc sz c SLABS_ALLOC_NO_NEWPAGE s = Some (s1, a)"
      "items_inv hash s1 m Q (F(c := as)) (H(c := insert a (H c))) R" "lists_only s s1" "a \<noteq> NULL" "a \<notin> H c" "a \<notin> live m R"
      "it_flags (heap s1 a) = 0" "\<forall>b. b \<notin> set (F c) \<longrightarrow> heap s1 b = heap s b" by auto
    have sm: "same_move s s1" by (rule lists_only_move(1) [OF s1(3)])
    have ts: "trylock_supply s1 = trylock_supply s" by (rule lists_only_move(2) [OF s1(3)])
    have mp: "move_page s1 = move_page s" by (rule same_move_page [OF sm])
    show ?thesis
    proof (cases "a \<in> move_page s")
      case False
      then have "rebalance_alloc_loop (Suc n) sz c s = Some (s1, a)" using s1(1,4) mp by (simp add: rebalance_alloc_mark del: rebalance_alloc_loop.simps)
      moreover have "got_chunk c F H hash m Q R s (s1, a)"
        unfolding got_chunk_def prod.case
        by (rule exI [of _ "[]"], rule exI [of _ as]) (use Cons False s1 sm ts in auto)
      ultimately show ?thesis by blast
    next
      case True
      let ?t = "upd_rebal (\<lambda>r. r\<lparr>inline_reclaim := inline_reclaim r + 1\<rparr>) (mark_cleared a s1)"
      have e: "rebalance_alloc_loop (Suc n) sz c s = rebalance_alloc_loop n sz c ?t" using s1(1,4) mp True by (simp add: rebalance_alloc_mark del: rebalance_alloc_loop.simps)
      have R: "R(a := 0) = R" using s1(6) by (auto simp: live_def)
      have "items_inv hash (mark_cleared a s1) m Q (F(c := as)) (H(c := insert a (H c))) (R(a := 0))"
        by (rule mark_cleared_inv [OF s1(2)]) (use s1(6) c lists_onlyD(1) [OF s1(3)] in \<open>auto simp: live_def\<close>)
      then have inv1: "items_inv hash ?t m Q (F(c := as)) (H(c := insert a (H c))) R" unfolding R by (simp add: upd_rebal_inv)
      have sm1: "same_move s ?t"
        by (rule same_move_trans [OF sm same_move_trans [OF mark_cleared_fields(1) upd_rebal_move]]) (simp add: cursor_def)
      have di: "a \<notin> set as" using inv_class(10) [OF items_invD(4) [OF inv] c] Cons free_listD(1) by fastforce
      have "set (F c) \<inter> move_page s = insert a (set as \<inter> move_page s)" using Cons True by auto
      then have "card (set ((F(c := as)) c) \<inter> move_page ?t) < n"
        using Suc.prems(3) di same_move_page [OF sm1] by simp
      moreover have "c \<in> {1..power_largest ?t}" using c sm1 by (simp add: same_move_def)
      ultimately obtain r where r: "rebalance_alloc_loop n sz c ?t = Some r" "got_chunk c (F(c := as)) (H(c := insert a (H c))) hash m Q R ?t r"
        using Suc.IH [OF inv1] by blast
      obtain s' b where rb: "r = (s', b)" by fastforce
      from r(2) [unfolded got_chunk_def rb prod.case fun_upd_same fun_upd_upd] obtain pre ys where g: "same_move ?t s'" "trylock_supply s' = trylock_supply ?t"
        "\<forall>x. x \<notin> set as \<longrightarrow> heap s' x = heap ?t x" "\<forall>x \<in> set pre. it_flags (heap s' x) = CLEARED" "set pre \<subseteq> move_page ?t"
        "if b = NULL then as = pre \<and> ys = [] \<and> items_inv hash s' m Q (F(c := [])) (H(c := insert a (H c) \<union> set pre)) R
         else as = pre @ b # ys \<and> b \<notin> move_page ?t \<and> b \<notin> insert a (H c) \<and> b \<notin> live m R \<and> it_flags (heap s' b) = 0 \<and>
           items_inv hash s' m Q (F(c := ys)) (H(c := insert b (insert a (H c) \<union> set pre))) R"
        by blast
      have "same_move s s'" by (rule same_move_trans [OF sm1 g(1)])
      moreover have "trylock_supply s' = trylock_supply s" using g(2) ts by (simp add: mark_cleared_fields)
      moreover have "heap s' x = heap s x" if "x \<notin> set (F c)" for x
        using that g(3) Cons s1(8) by (simp add: mark_cleared_fields)
      moreover have "it_flags (heap s' a) = CLEARED" using g(3) di by (simp add: mark_cleared_fields)
      moreover have "set (a # pre) \<subseteq> move_page s" using g(5) True same_move_page [OF sm1] by auto
      moreover have "insert a (H c) \<union> set pre = H c \<union> set (a # pre)" by auto
      ultimately have "got_chunk c F H hash m Q R s (s', b)"
        unfolding got_chunk_def prod.case
        by (intro exI [of _ "a # pre"] exI [of _ ys]) (use g(4,6) Cons same_move_page [OF sm1] in \<open>auto split: if_splits\<close>)
      with r(1) e rb show ?thesis by auto
    qed
  qed
qed simp

section \<open>Moving an item\<close>

text \<open>The data of an item; of one whose value is in external storage only the place of the value is kept here.\<close>

definition data_len :: "item \<Rightarrow> nat" where
  "data_len x = (if has_flag ITEM_HDR x then 12 else nat (nbytes x))"

definition data_ok :: "item \<Rightarrow> bool" where
  "data_ok x \<longleftrightarrow> 0 \<le> nbytes x \<and> nbytes x < 2 ^ 31 \<and> data_len x \<le> length (idata x)"

definition moved_item :: "item \<Rightarrow> item \<Rightarrow> bool" where
  "moved_item y x \<longleftrightarrow> nkey y = nkey x \<and> ikey y = ikey x \<and> nbytes y = nbytes x \<and> cflags y = cflags x \<and> exptime y = exptime x \<and>
    it_flags y = it_flags x \<and> slabs_clsid y = slabs_clsid x \<and> take (data_len x) (idata y) = take (data_len x) (idata x)"

lemma move_total:
  assumes "data_ok x"
  shows "(if has_flag ITEM_HDR x then unat (ITEM_ntotal x - word_of_int (nbytes x) + 12) else unat (ITEM_ntotal x)) = ITEM_data x + data_len x"
proof (cases "has_flag ITEM_HDR x")
  case False
  then show ?thesis using ITEM_layout(3) [of x] assms by (simp add: data_ok_def data_len_def)
next
  case True
  have "ITEM_ntotal x - word_of_int (nbytes x) + 12 = of_nat (ITEM_data x + 12)"
    by (simp add: ITEM_ntotal_def ITEM_data_def)
  moreover have "ITEM_data x + 12 < 2 ^ 64" using unat_bound [of "nkey x"] by (simp add: ITEM_data_def)
  ultimately have "unat (ITEM_ntotal x - word_of_int (nbytes x) + 12) = ITEM_data x + 12"
    using unat_of_nat [of "ITEM_data x + 12", where 'a = 64] by (simp del: of_nat_add)
  with True show ?thesis by (simp add: data_len_def)
qed

lemma relinked_flags: "w AND 1 \<noteq> 0 \<Longrightarrow> (w AND NOT 1) OR 1 = w" for w :: "16 word"
  by (rule bit_word_eqI) (auto simp: flag_bit bit_and_iff bit_or_iff bit_not_iff bit_1_iff)

lemma copied_data: "n \<le> length d \<Longrightarrow> take n (copy_at e 0 (take n d)) = take n d \<and> n \<le> length (copy_at e 0 (take n d))"
  by (simp add: copy_at_def)

lemma rescue_item_inv:
  assumes inv: "items_inv hash s m Q F H (R(a := 1))" and k: "m k = Some a" and r: "R a = 0"
    and b: "b \<in> H c" "b \<notin> live m R" "c \<in> {1..power_largest s}" "unat (ITEM_clsid (heap s a)) = c"
    and d: "data_ok (heap s a)" "n = ITEM_data (heap s a) + data_len (heap s a)"
  shows "\<exists>s' Q'. rescue_item (hash k) n a b s = Some s' \<and> items_inv hash s' (m(k \<mapsto> b)) Q' F H R \<and> same_move s s' \<and>
    trylock_supply s' = trylock_supply s \<and> (\<forall>y. y \<noteq> b \<longrightarrow> y \<notin> ran m \<longrightarrow> heap s' y = heap s y) \<and>
    (\<forall>y. y \<noteq> a \<longrightarrow> y \<noteq> b \<longrightarrow> same_item (heap s' y) (heap s y)) \<and> it_flags (heap s' a) = CLEARED \<and> moved_item (heap s' b) (heap s a) \<and>
    data_ok (heap s' b)"
proof -
  let ?x = "heap s a" and ?R = "R(a := 1)" and ?m = "m(k := None)"
  have ar: "a \<in> ran m" using k by (auto simp: ran_def)
  have nb: "b \<notin> ran m" "R b = 0" "b \<noteq> a" using b(2) ar by (auto simp: live_def)
  have ok: "item_ok m H (power_largest s) ?R a ?x" by (rule items_invD(6) [OF inv]) (simp add: live_def)
  have x: "key_wf ?x" "\<not> has_flag ITEM_CHUNKED ?x" "it_flags ?x AND (ITEM_SLABBED OR ITEM_CHUNK) = 0" "a \<in> H c" "has_flag ITEM_LINKED ?x"
    using ok b(4) ar by (simp_all add: item_ok_def)
  have kx: "key_of ?x = k" by (rule assoc_key [OF items_invD(1) [OF inv] k])
  define y where "y = (copy_item n ?x (heap s b))\<lparr>it_prev := NULL, it_next := NULL, h_next := NULL,
    it_flags := it_flags ?x AND NOT ITEM_LINKED, refcount := 0\<rparr>"
  define s1 where "s1 = s\<lparr>heap := (heap s)(b := y)\<rparr>"
  have cut: "take (n - ITEM_data ?x) (idata ?x) = take (data_len ?x) (idata ?x)" using d(2) by simp
  have yf: "nkey y = nkey ?x" "ikey y = ikey ?x" "nbytes y = nbytes ?x" "cflags y = cflags ?x" "exptime y = exptime ?x" "slabs_clsid y = slabs_clsid ?x"
    "it_flags y = it_flags ?x AND NOT ITEM_LINKED" "refcount y = 0" "idata y = copy_at (idata (heap s b)) 0 (take (data_len ?x) (idata ?x))"
    by (simp_all add: y_def copy_item_def cut)
  have "items_inv hash s1 m Q F H (?R(b := 0))"
    by (rule forget_inv [OF inv nb(1) b(1,3)]) (simp_all add: s1_def same_tables_def)
  moreover have "?R(b := 0) = ?R" using nb by auto
  ultimately have inv1: "items_inv hash s1 m Q F H ?R" by simp
  from unlink_frame [OF inv1 k] obtain s2 Q2 where u: "do_item_unlink a (hash k) s1 = Some s2" "items_inv hash s2 ?m Q2 F H ?R"
    "\<forall>z. z \<noteq> a \<longrightarrow> same_item (heap s2 z) (heap s1 z)" "\<forall>z. z \<notin> ran m \<longrightarrow> heap s2 z = heap s1 z" "refcount (heap s1 a) \<noteq> 1" by auto
  have um: "same_move s1 s2" "trylock_supply s2 = trylock_supply s1" using unlink_move [OF u(1,5)] by simp_all
  have yb: "heap s2 b = y" using u(4) nb(1) by (simp add: s1_def)
  have rm: "ran ?m = ran m - {a}" by (rule assoc_ran_delete [OF items_invD(1) [OF inv] k])
  have b2: "b \<notin> live ?m ?R" using nb rm by (auto simp: live_def)
  have ky: "k = key_of y" using kx yf by (simp add: key_of_def)
  have c2: "c \<in> {1..power_largest s2}" using b(3) um(1) by (simp add: same_move_def s1_def)
  have fy: "key_wf y" "\<not> has_flag ITEM_CHUNKED y" "it_flags y AND (ITEM_SLABBED OR ITEM_CHUNK) = 0" "\<not> has_flag ITEM_LINKED y" "unat (ITEM_clsid y) = c"
    using x b(4) yf by (simp_all add: key_wf_def has_flag_def ITEM_clsid_def and.assoc)
  let ?s3 = "do_item_link b (hash k) s2"
  have "\<exists>Q'. items_inv hash ?s3 (?m(k \<mapsto> b)) Q' F H ?R" and L: "\<And>z. z \<noteq> b \<Longrightarrow> same_item (heap ?s3 z) (heap s2 z)"
    "\<And>z. z \<noteq> b \<Longrightarrow> z \<notin> ran ?m \<Longrightarrow> heap ?s3 z = heap s2 z" "same_value (heap ?s3 b) y" "exptime (heap ?s3 b) = exptime y"
    "it_flags (heap ?s3 b) = it_flags y OR ITEM_LINKED" "slabs_clsid (heap ?s3 b) = slabs_clsid y"
    using relink_inv [OF u(2) b2 b(1) c2, of k] fy yf(8) ky unfolding yb by simp_all
  then obtain Q3 where i3: "items_inv hash ?s3 (m(k \<mapsto> b)) Q3 F H ?R" by auto
  note lf = link_fields [where s = s2 and a = b and hv = "hash k"]
  have fl3: "it_flags (heap ?s3 b) = it_flags ?x" using L(5) yf(7) relinked_flags [of "it_flags ?x"] x(5) by (simp add: has_flag_def)
  then have nc: "\<not> has_flag ITEM_CHUNKED (heap ?s3 b)" using x(2) by (simp add: has_flag_def)
  define s' where "s' = upd_rebal (\<lambda>r. r\<lparr>rescues := rescues r + 1\<rparr>) (mark_cleared a ?s3)"
  have res: "rescue_item (hash k) n a b s = Some s'"
    using x(2) u(1) nc by (simp add: rescue_item_def do_item_replace_def Let_def s'_def y_def s1_def)
  have "a \<notin> ran (m(k \<mapsto> b))" using rm nb(3) by (auto simp: ran_def split: if_splits)
  from mark_cleared_inv [OF i3 this x(4)] have "items_inv hash (mark_cleared a ?s3) (m(k \<mapsto> b)) Q3 F H (?R(a := 0))"
    using b(3) um(1) lf(1) by (simp add: same_move_def s1_def)
  moreover have "?R(a := 0) = R" using r by auto
  ultimately have inv': "items_inv hash s' (m(k \<mapsto> b)) Q3 F H R" by (simp add: s'_def upd_rebal_inv)
  have "same_move s s1" by (simp add: s1_def same_move_def)
  moreover have "same_move ?s3 s'"
    unfolding s'_def by (rule same_move_trans [OF mark_cleared_fields(1) upd_rebal_move]) (simp add: cursor_def)
  ultimately have sm: "same_move s s'" using um(1) lf(1) same_move_trans by blast
  have ts: "trylock_supply s' = trylock_supply s" using um(2) lf(2) by (simp add: s'_def mark_cleared_fields s1_def)
  have hb: "heap s' z = heap ?s3 z" if "z \<noteq> a" for z using that by (simp add: s'_def mark_cleared_fields)
  have f1: "heap s' z = heap s z" if "z \<noteq> b" "z \<notin> ran m" for z
  proof -
    have "z \<noteq> a" "z \<notin> ran ?m" using that ar rm by auto
    with hb L(2) that u(4) show ?thesis by (simp add: s1_def)
  qed
  have f2: "same_item (heap s' z) (heap s z)" if "z \<noteq> a" "z \<noteq> b" for z
  proof -
    have "same_item (heap s2 z) (heap s1 z)" "heap s1 z = heap s z" using u(3) [rule_format, OF that(1)] that(2) by (simp_all add: s1_def)
    then show ?thesis using same_item_trans [OF L(1) [OF that(2)]] hb [OF that(1)] by simp
  qed
  have mi: "moved_item (heap s' b) ?x" "data_ok (heap s' b)"
  proof -
    have dl: "data_len ?x \<le> length (idata ?x)" using d(1) by (simp add: data_ok_def)
    note v = L(3) [unfolded same_value_def] and cp = copied_data [OF dl, of "idata (heap s b)"]
    show "moved_item (heap s' b) ?x" unfolding moved_item_def hb [OF nb(3)]
      using v yf fl3 L(4,6) cp by simp
    have "data_len (heap s' b) = data_len ?x" using v yf fl3 hb [OF nb(3)] by (simp add: data_len_def has_flag_def)
    then show "data_ok (heap s' b)" using v yf cp d(1) hb [OF nb(3)] by (simp add: data_ok_def)
  qed
  have "it_flags (heap s' a) = CLEARED" by (simp add: s'_def mark_cleared_fields)
  with res inv' sm ts f1 f2 mi show ?thesis by blast
qed

section \<open>A linked item that is not busy\<close>

text \<open>
  What a step with the chunk \<open>a\<close> of a page of class \<open>c\<close> leaves: memory neither live nor free is
  untouched, the other live items are the same, and a free chunk of the page stays free or is cleared.
\<close>

definition step_frame :: "nat \<Rightarrow> addr \<Rightarrow> (bytes \<rightharpoonup> addr) \<Rightarrow> (addr \<Rightarrow> nat) \<Rightarrow> (nat \<Rightarrow> addr list) \<Rightarrow> (nat \<Rightarrow> addr list) \<Rightarrow>
    'a mover_scheme \<Rightarrow> 'a mover_scheme \<Rightarrow> bool" where
  "step_frame c a m R F F' s t \<longleftrightarrow>
    (\<forall>b. b \<notin> live m R \<longrightarrow> b \<notin> set (F c) \<longrightarrow> heap t b = heap s b) \<and>
    (\<forall>b. b \<noteq> a \<longrightarrow> b \<in> live m R \<longrightarrow> same_item (heap t b) (heap s b)) \<and>
    set (F' c) \<subseteq> set (F c) \<and> (\<forall>b \<in> set (F c) \<inter> move_page s. b \<in> set (F' c) \<or> it_flags (heap t b) = CLEARED)"

text \<open>
  The item of a key is dropped when it is dead, when no chunk outside the page is free, or when the
  page has been visited more than a thousand times and somebody still uses the item.
\<close>

definition may_drop :: "nat \<Rightarrow> addr \<Rightarrow> (addr \<Rightarrow> nat) \<Rightarrow> (nat \<Rightarrow> addr list) \<Rightarrow> 'a mover_scheme \<Rightarrow> bool" where
  "may_drop c a R F s \<longleftrightarrow> (exptime (heap s a) \<noteq> 0 \<and> exptime (heap s a) < current_time s) \<or> item_is_flushed (heap s a) s \<or>
    set (F c) \<subseteq> move_page s \<or> (0 < R a \<and> busy_loops (slab_rebal s) > SLAB_MOVE_MAX_LOOPS)"

definition step_contents :: "nat \<Rightarrow> addr \<Rightarrow> (bytes \<rightharpoonup> addr) \<Rightarrow> (bytes \<rightharpoonup> addr) \<Rightarrow> (addr \<Rightarrow> nat) \<Rightarrow> (nat \<Rightarrow> addr list) \<Rightarrow>
    'a mover_scheme \<Rightarrow> 'a mover_scheme \<Rightarrow> bool" where
  "step_contents c a m m' R F s t \<longleftrightarrow> (\<forall>k. m k \<noteq> Some a \<longrightarrow> m' k = m k) \<and>
    (\<forall>k. m k = Some a \<longrightarrow> (case m' k of None \<Rightarrow> may_drop c a R F s \<and> (0 < R a \<or> it_flags (heap t a) = CLEARED)
      | Some y \<Rightarrow> if y = a then same_item (heap t a) (heap s a)
          else moved_item (heap t y) (heap s a) \<and> data_ok (heap t y) \<and> R y = 0 \<and> y \<notin> move_page s \<and> it_flags (heap t a) = CLEARED))"

text \<open>The item is unlinked and its chunk cleared.\<close>

lemma drop_move_inv:
  assumes inv: "items_inv hash s m Q F H (R(a := 1))" and k: "m k = Some a" and r: "R a = 0" and a: "a \<in> H c" "c \<in> {1..power_largest s}"
  shows "\<exists>s' Q'. do_item_unlink a (hash k) (STORAGE_delete a s) = Some s' \<and> items_inv hash (mark_cleared a s') (m(k := None)) Q' F H R \<and>
    same_move s s' \<and> trylock_supply s' = trylock_supply s \<and> (\<forall>b. b \<noteq> a \<longrightarrow> b \<notin> ran m \<longrightarrow> heap s' b = heap s b) \<and>
    (\<forall>b. b \<noteq> a \<longrightarrow> same_item (heap s' b) (heap s b))"
proof -
  let ?s = "STORAGE_delete a s" and ?m = "m(k := None)"
  have s1: "items_inv hash ?s m Q F H (R(a := 1))" using inv by (simp add: STORAGE_delete_inv(1))
  have f1: "same_move s ?s" "trylock_supply ?s = trylock_supply s" "heap ?s = heap s" by (simp_all add: STORAGE_delete_def same_move_def)
  from unlink_frame [OF s1 k] obtain s2 Q2 where u: "do_item_unlink a (hash k) ?s = Some s2" "items_inv hash s2 ?m Q2 F H (R(a := 1))"
    "\<forall>b. b \<noteq> a \<longrightarrow> same_item (heap s2 b) (heap ?s b)" "\<forall>b. b \<notin> ran m \<longrightarrow> heap s2 b = heap ?s b" "refcount (heap ?s a) \<noteq> 1" by auto
  note um = unlink_move [OF u(1,5)]
  have "a \<notin> ran ?m" using assoc_ran_delete [OF items_invD(1) [OF inv] k] by simp
  moreover have "c \<in> {1..power_largest s2}" using a(2) um f1(1) by (simp add: same_move_def)
  ultimately have "items_inv hash (mark_cleared a s2) ?m Q2 F H ((R(a := 1))(a := 0))" using mark_cleared_inv [OF u(2)] a(1) by blast
  moreover have "(R(a := 1))(a := 0) = R" using r by auto
  ultimately have "items_inv hash (mark_cleared a s2) ?m Q2 F H R" by simp
  moreover have "same_move s s2" using um f1(1) same_move_trans by blast
  moreover have "trylock_supply s2 = trylock_supply s" using um f1(2) by simp
  moreover have "\<forall>b. b \<noteq> a \<longrightarrow> b \<notin> ran m \<longrightarrow> heap s2 b = heap s b" "\<forall>b. b \<noteq> a \<longrightarrow> same_item (heap s2 b) (heap s b)"
    using u(3,4) unfolding f1(3) by blast+
  ultimately show ?thesis using u(1) by blast
qed

lemma incr_frame:
  "same_move s (refcount_incr a s)" "trylock_supply (refcount_incr a s) = trylock_supply s" "slab_rebal (refcount_incr a s) = slab_rebal s"
  "heap (refcount_incr a s) b = (if b = a then (heap s a)\<lparr>refcount := refcount (heap s a) + 1\<rparr> else heap s b)"
  "settings (refcount_incr a s) = settings s" "current_time (refcount_incr a s) = current_time s" "slabclass (refcount_incr a s) = slabclass s"
  "power_largest (refcount_incr a s) = power_largest s" "item_is_flushed x (refcount_incr a s) = item_is_flushed x s"
  "move_page (refcount_incr a s) = move_page s"
  by (simp_all add: refcount_incr_def same_move_def item_is_flushed_def move_page_def)

definition moved_ok :: "(bytes \<Rightarrow> uint32) \<Rightarrow> nat \<Rightarrow> addr \<Rightarrow> (bytes \<rightharpoonup> addr) \<Rightarrow> (addr \<Rightarrow> nat) \<Rightarrow> (nat \<Rightarrow> addr list) \<Rightarrow> 'a mover_scheme \<Rightarrow> 'a mover_scheme \<Rightarrow> bool" where
  "moved_ok hash c a m R F s t \<longleftrightarrow> (\<exists>m' Q' F' H'. items_inv hash t m' Q' F' H' R \<and> step_frame c a m R F F' s t \<and> step_contents c a m m' R F s t)"

lemma moved_okI:
  "\<lbrakk>items_inv hash t m' Q' F' H' R; step_frame c a m R F F' s t; step_contents c a m m' R F s t\<rbrakk> \<Longrightarrow> moved_ok hash c a m R F s t"
  unfolding moved_ok_def by (intro exI conjI)

lemma move_dropped:
  assumes inv: "items_inv hash s m Q F H R" and k: "m k = Some a" and r: "R a = 0" and a: "a \<in> H c" "c \<in> {1..power_largest s}"
    and t: "same_move s t" "trylock_supply t = trylock_supply s" "items_inv hash t m Q' F' H' (R(a := 1))" "a \<in> H' c"
      "\<forall>x. x \<noteq> a \<longrightarrow> x \<notin> set (F c) \<longrightarrow> heap t x = heap s x"
      "set (F' c) \<subseteq> set (F c)" "\<forall>b \<in> set (F c). b \<in> set (F' c) \<or> it_flags (heap t b) = CLEARED"
    and drop: "may_drop c a R F s"
  shows "\<exists>u. do_item_unlink a (hash k) (STORAGE_delete a t) = Some u \<and> same_move s (mark_cleared a u) \<and>
    trylock_supply (mark_cleared a u) = trylock_supply s \<and> moved_ok hash c a m R F s (mark_cleared a u)"
proof -
  have ct: "c \<in> {1..power_largest t}" using a(2) t(1) by (simp add: same_move_def)
  have ar: "a \<in> ran m" using k by (auto simp: ran_def)
  from drop_move_inv [OF t(3) k r t(4) ct] obtain u Q2 where u: "do_item_unlink a (hash k) (STORAGE_delete a t) = Some u"
    "items_inv hash (mark_cleared a u) (m(k := None)) Q2 F' H' R" "same_move t u" "trylock_supply u = trylock_supply t"
    "\<forall>b. b \<noteq> a \<longrightarrow> b \<notin> ran m \<longrightarrow> heap u b = heap t b" "\<forall>b. b \<noteq> a \<longrightarrow> same_item (heap u b) (heap t b)" by blast
  have fl: "b \<notin> set (F c)" if "b \<in> live m R" for b using live_held(1) [OF inv that] a(2) by (auto simp: all_free_def)
  have sf: "step_frame c a m R F F' s (mark_cleared a u)"
    unfolding step_frame_def
  proof (intro conjI ballI allI impI)
    show "heap (mark_cleared a u) b = heap s b" if b: "b \<notin> live m R" "b \<notin> set (F c)" for b
    proof -
      have "b \<noteq> a" "b \<notin> ran m" using b(1) ar by (auto simp: live_def)
      then show ?thesis using b t(5) u(5) by (simp add: mark_cleared_fields)
    qed
    show "same_item (heap (mark_cleared a u) b) (heap s b)" if "b \<noteq> a" "b \<in> live m R" for b
      using that t(5) u(6) fl [OF that(2)] by (metis mark_cleared_fields(4))
    show "b \<in> set (F' c) \<or> it_flags (heap (mark_cleared a u) b) = CLEARED" if "b \<in> set (F c) \<inter> move_page s" for b
      using that t(7) u(6) by (auto simp: mark_cleared_fields same_item_def)
  qed (fact t(6))
  have inj: "j = k" if "m j = Some a" for j using assoc_key [OF items_invD(1) [OF inv]] that k by metis
  have "step_contents c a m (m(k := None)) R F s (mark_cleared a u)"
    unfolding step_contents_def
  proof (intro conjI allI impI)
    show "(m(k := None)) j = m j" if "m j \<noteq> Some a" for j using that k by auto
    show "case (m(k := None)) j of None \<Rightarrow> may_drop c a R F s \<and> (0 < R a \<or> it_flags (heap (mark_cleared a u) a) = CLEARED)
        | Some y \<Rightarrow> if y = a then same_item (heap (mark_cleared a u) a) (heap s a)
          else moved_item (heap (mark_cleared a u) y) (heap s a) \<and> data_ok (heap (mark_cleared a u) y) \<and> R y = 0 \<and> y \<notin> move_page s \<and>
            it_flags (heap (mark_cleared a u) a) = CLEARED"
      if "m j = Some a" for j using inj [OF that] drop by (simp add: mark_cleared_fields)
  qed
  with u(2) sf have "moved_ok hash c a m R F s (mark_cleared a u)" by (rule moved_okI)
  moreover have "same_move s (mark_cleared a u)" by (rule same_move_trans [OF t(1) same_move_trans [OF u(3) mark_cleared_fields(1)]])
  moreover have "trylock_supply (mark_cleared a u) = trylock_supply s" using u(4) t(2) by (simp add: mark_cleared_fields)
  ultimately show ?thesis using u(1) by blast
qed

text \<open>The branches for an item in one piece.\<close>

lemma move_from_lru_item:
  fixes s :: "'a mover_scheme"
  assumes x: "\<not> has_flag ITEM_CHUNKED (heap s a)" "data_ok (heap s a)" and n: "n = ITEM_data (heap s a) + data_len (heap s a)"
  shows "\<lbrakk>(exptime (heap s a) \<noteq> 0 \<and> exptime (heap s a) < current_time s) \<or> item_is_flushed (heap s a) s;
      do_item_unlink a (hash (key_of (heap s a))) (STORAGE_delete a s) = Some u\<rbrakk> \<Longrightarrow>
      move_from_lru hash c off a None s = Some (set_completed off (mark_cleared a u), False)"
    "\<lbrakk>\<not> ((exptime (heap s a) \<noteq> 0 \<and> exptime (heap s a) < current_time s) \<or> item_is_flushed (heap s a) s);
      slab_rebalance_alloc (of_nat n) c s = Some (t, NULL); \<not> has_flag ITEM_CHUNKED (heap t a);
      do_item_unlink a (hash (key_of (heap s a))) (STORAGE_delete a (upd_rebal (\<lambda>r. r\<lparr>evictions_nomem := evictions_nomem r + 1\<rparr>) t)) = Some u\<rbrakk> \<Longrightarrow>
      move_from_lru hash c off a None s = Some (set_completed off (mark_cleared a u), False)"
    "\<lbrakk>\<not> ((exptime (heap s a) \<noteq> 0 \<and> exptime (heap s a) < current_time s) \<or> item_is_flushed (heap s a) s);
      slab_rebalance_alloc (of_nat n) c s = Some (t, b); b \<noteq> NULL; rescue_item (hash (key_of (heap s a))) n a b t = Some u\<rbrakk> \<Longrightarrow>
      move_from_lru hash c off a None s = Some (set_completed off u, False)"
proof -
  let ?x = "heap s a"
  let ?dead = "(exptime ?x \<noteq> 0 \<and> exptime ?x < current_time s) \<or> item_is_flushed ?x s"
  have sd: "heap (STORAGE_delete a t) = heap t" for t :: "'a mover_scheme" by (simp add: STORAGE_delete_inv(3))
  have e: "move_from_lru hash c off a None s = do {
       (s1, new_it) \<leftarrow> (if ?dead then Some (s, NULL)
          else do { (t, new_it) \<leftarrow> slab_rebalance_alloc (of_nat n) c s;
            Some (if new_it = NULL then upd_rebal (\<lambda>r. r\<lparr>evictions_nomem := evictions_nomem r + 1\<rparr>) t else t, new_it) });
       if new_it \<noteq> NULL then do { s2 \<leftarrow> rescue_item (hash (key_of ?x)) n a new_it s1; Some (set_completed off s2, False) }
       else if \<not> has_flag ITEM_CHUNKED (heap s1 a)
         then do { s3 \<leftarrow> do_item_unlink a (hash (key_of ?x)) (STORAGE_delete a s1); Some (set_completed off (mark_cleared a s3), False) }
         else do { s3 \<leftarrow> do_item_unlink a (hash (key_of ?x)) (STORAGE_delete a s1); s4 \<leftarrow> slabs_free a c s3; Some (count_busy s4, True) } }"
    using x(1) move_total [OF x(2)] unfolding move_from_lru_def Let_def n by (simp add: sd cong: if_cong del: of_nat_add)
  show "move_from_lru hash c off a None s = Some (set_completed off (mark_cleared a u), False)" if ?dead
    "do_item_unlink a (hash (key_of ?x)) (STORAGE_delete a s) = Some u"
    unfolding e if_P [OF that(1)] using that(2) x(1) by simp
  show "move_from_lru hash c off a None s = Some (set_completed off (mark_cleared a u), False)" if "\<not> ?dead"
    "slab_rebalance_alloc (of_nat n) c s = Some (t, NULL)" "\<not> has_flag ITEM_CHUNKED (heap t a)"
    "do_item_unlink a (hash (key_of ?x)) (STORAGE_delete a (upd_rebal (\<lambda>r. r\<lparr>evictions_nomem := evictions_nomem r + 1\<rparr>) t)) = Some u"
    unfolding e if_not_P [OF that(1)] that(2) using that(3,4) by simp
  show "move_from_lru hash c off a None s = Some (set_completed off u, False)" if "\<not> ?dead"
    "slab_rebalance_alloc (of_nat n) c s = Some (t, b)" "b \<noteq> NULL" "rescue_item (hash (key_of ?x)) n a b t = Some u"
    unfolding e if_not_P [OF that(1)] that(2) using that(3,4) by simp
qed

lemma move_from_lru_inv:
  fixes s :: "'a mover_scheme"
  assumes inv: "items_inv hash s m Q F H R" and k: "m k = Some a" and r: "R a = 0" and c: "c \<in> {1..power_largest s}"
    and ca: "unat (ITEM_clsid (heap s a)) = c" and d: "data_ok (heap s a)"
    and room: "card (set (F c) \<inter> move_page s) < unat (perslab (cls s c))" "nat (s_clsid (slab_rebal s)) = c"
  shows "\<exists>t. move_from_lru hash c off a None (refcount_incr a s) = Some (set_completed off t, False) \<and> same_move s t \<and>
    trylock_supply t = trylock_supply s \<and> moved_ok hash c a m R F s t \<and> it_flags (heap t a) = CLEARED"
proof -
  let ?s = "refcount_incr a s" and ?x = "heap s a" and ?R = "R(a := 1)"
  let ?dead = "(exptime ?x \<noteq> 0 \<and> exptime ?x < current_time s) \<or> item_is_flushed ?x s"
  have ar: "a \<in> ran m" using k by (auto simp: ran_def)
  then have al: "a \<in> live m R" by (simp add: live_def)
  have ok: "item_ok m H (power_largest s) R a ?x" by (rule items_invD(6) [OF inv al])
  have x: "\<not> has_flag ITEM_CHUNKED ?x" "a \<in> H c" using ok ca by (simp_all add: item_ok_def)
  have kx: "key_of ?x = k" by (rule assoc_key [OF items_invD(1) [OF inv] k])
  have inv1: "items_inv hash ?s m Q F H ?R" using refcount_incr_inv(1) [OF inv al] r by simp
  define y where "y = heap ?s a"
  have y: "exptime y = exptime ?x" "item_is_flushed y s = item_is_flushed ?x s" "has_flag f y = has_flag f ?x" "key_of y = k" "data_ok y"
    "ITEM_data y = ITEM_data ?x" "data_len y = data_len ?x" "nbytes y = nbytes ?x" for f
    using kx d by (auto simp: y_def incr_frame(4) item_is_flushed_def has_flag_def key_of_def data_ok_def data_len_def ITEM_data_def ITEM_get_cas_def)
  let ?n = "ITEM_data ?x + data_len ?x"
  have z: "\<not> has_flag ITEM_CHUNKED (heap ?s a)" "data_ok (heap ?s a)" "?n = ITEM_data (heap ?s a) + data_len (heap ?s a)"
    using x(1) y unfolding y_def by simp_all
  have nfree: "a \<notin> set (F c)" using live_held(1) [OF inv al] c by (auto simp: all_free_def)
  have hs: "heap ?s z = heap s z" if "z \<noteq> a" for z using that by (simp add: incr_frame(4))
  note sm0 = incr_frame(1) [where s = s and a = a]
  have clr: "it_flags (heap (mark_cleared a u) a) = CLEARED" for u :: "'a mover_scheme" by (simp add: mark_cleared_fields)
  show ?thesis
  proof (cases ?dead)
    case True
    have "may_drop c a R F s" using True unfolding may_drop_def by blast
    from move_dropped [OF inv k r x(2) c sm0 incr_frame(2) inv1 x(2) _ order_refl _ this] hs obtain u where
      u: "do_item_unlink a (hash k) (STORAGE_delete a ?s) = Some u" "same_move s (mark_cleared a u)"
      "trylock_supply (mark_cleared a u) = trylock_supply s" "moved_ok hash c a m R F s (mark_cleared a u)" by auto
    have "move_from_lru hash c off a None ?s = Some (set_completed off (mark_cleared a u), False)"
      by (rule move_from_lru_item(1) [OF z]) (use True u(1) y(1,2,4) in \<open>simp_all add: y_def incr_frame(6,9)\<close>)
    with u(2-4) clr show ?thesis by blast
  next
    case False
    have "card (set (F c) \<inter> move_page ?s) < unat (perslab (cls s c))" "c \<in> {1..power_largest ?s}"
      using room c by (simp_all add: incr_frame(10,8))
    from rebalance_alloc_loop_inv [OF inv1 this(2,1)] obtain t b where
      al1: "rebalance_alloc_loop (unat (perslab (cls s c))) (of_nat ?n) c ?s = Some (t, b)" "got_chunk c F H hash m Q ?R ?s (t, b)" by (metis prod.exhaust)
    have al2: "slab_rebalance_alloc (of_nat ?n) c ?s = Some (t, b)"
      using al1(1) room(2) by (simp add: slab_rebalance_alloc_def incr_frame(3,7))
    from al1(2) [unfolded got_chunk_def prod.case] obtain pre ys where
      g: "same_move ?s t" "trylock_supply t = trylock_supply ?s" "\<forall>z. z \<notin> set (F c) \<longrightarrow> heap t z = heap ?s z"
      "\<forall>z \<in> set pre. it_flags (heap t z) = CLEARED" "set pre \<subseteq> move_page ?s" and
      gb: "if b = NULL then F c = pre \<and> ys = [] \<and> items_inv hash t m Q (F(c := [])) (H(c := H c \<union> set pre)) ?R
         else F c = pre @ b # ys \<and> b \<notin> move_page ?s \<and> b \<notin> H c \<and> b \<notin> live m ?R \<and> it_flags (heap t b) = 0 \<and>
           items_inv hash t m Q (F(c := ys)) (H(c := insert b (H c \<union> set pre))) ?R" by blast
    have smt: "same_move s t" "trylock_supply t = trylock_supply s" using same_move_trans [OF sm0 g(1)] g(2) incr_frame(2) by simp_all
    have ht: "heap t z = heap s z" if "z \<noteq> a" "z \<notin> set (F c)" for z using g(3) that hs by simp
    have hta: "heap t a = y" using g(3) nfree by (simp add: y_def)
    show ?thesis
    proof (cases "b = NULL")
      case True
      let ?t = "upd_rebal (\<lambda>r. r\<lparr>evictions_nomem := evictions_nomem r + 1\<rparr>) t"
      have "may_drop c a R F s" using True gb g(5) by (simp add: may_drop_def incr_frame(10))
      moreover have "same_move s ?t" by (rule same_move_trans [OF smt(1) upd_rebal_move]) (simp add: cursor_def)
      moreover have "items_inv hash ?t m Q (F(c := [])) (H(c := H c \<union> set pre)) ?R" using True gb by (simp add: upd_rebal_inv)
      ultimately obtain u where
        u: "do_item_unlink a (hash k) (STORAGE_delete a ?t) = Some u" "same_move s (mark_cleared a u)"
        "trylock_supply (mark_cleared a u) = trylock_supply s" "moved_ok hash c a m R F s (mark_cleared a u)"
        using move_dropped [OF inv k r x(2) c, of ?t Q "F(c := [])" "H(c := H c \<union> set pre)"] smt ht x(2) g(4) gb True by auto
      have "move_from_lru hash c off a None ?s = Some (set_completed off (mark_cleared a u), False)"
        by (rule move_from_lru_item(2) [OF z _ al2 [unfolded True]]) (use False x(1) u(1) y(1-4) hta in \<open>simp_all add: y_def incr_frame(6,9)\<close>)
      with u(2-4) clr show ?thesis by blast
    next
      case bn: False
      with gb have gb: "F c = pre @ b # ys" "b \<notin> move_page s" "b \<notin> live m R" "items_inv hash t m Q (F(c := ys)) (H(c := insert b (H c \<union> set pre))) ?R"
        by (auto simp: incr_frame(10) live_def split: if_splits)
      have bc: "b \<in> (H(c := insert b (H c \<union> set pre))) c" "c \<in> {1..power_largest t}" "unat (ITEM_clsid (heap t a)) = c" "data_ok (heap t a)"
        "?n = ITEM_data (heap t a) + data_len (heap t a)"
        using c smt(1) ca y by (simp_all add: same_move_def hta) (simp add: y_def incr_frame(4) ITEM_clsid_def)
      from rescue_item_inv [OF gb(4) k r bc(1) gb(3) bc(2-5)] obtain u Q' where
        u: "rescue_item (hash k) ?n a b t = Some u" "items_inv hash u (m(k \<mapsto> b)) Q' (F(c := ys)) (H(c := insert b (H c \<union> set pre))) R"
        "same_move t u" "trylock_supply u = trylock_supply t" "\<forall>z. z \<noteq> b \<longrightarrow> z \<notin> ran m \<longrightarrow> heap u z = heap t z"
        "\<forall>z. z \<noteq> a \<longrightarrow> z \<noteq> b \<longrightarrow> same_item (heap u z) (heap t z)" "it_flags (heap u a) = CLEARED" "moved_item (heap u b) y" "data_ok (heap u b)"
        unfolding hta by blast
      have ba: "b \<noteq> a" "R b = 0" using gb(3) al by (auto simp: live_def)
      have fl: "z \<notin> set (F c)" if "z \<in> live m R" for z using live_held(1) [OF inv that] c by (auto simp: all_free_def)
      have sf: "step_frame c a m R F (F(c := ys)) s u"
        unfolding step_frame_def
      proof (intro conjI ballI allI impI)
        show "heap u z = heap s z" if "z \<notin> live m R" "z \<notin> set (F c)" for z
        proof -
          have "z \<noteq> b" "z \<notin> ran m" "z \<noteq> a" using that gb(1) ar by (auto simp: live_def)
          with u(5) ht that show ?thesis by metis
        qed
        show "same_item (heap u z) (heap s z)" if "z \<noteq> a" "z \<in> live m R" for z
        proof -
          have "z \<noteq> b" using that gb(3) by auto
          with u(6) ht [OF that(1) fl [OF that(2)]] that(1) show ?thesis by metis
        qed
        show "z \<in> set ((F(c := ys)) c) \<or> it_flags (heap u z) = CLEARED" if z: "z \<in> set (F c) \<inter> move_page s" for z
        proof -
          have "z \<noteq> a" "z \<noteq> b" using z nfree gb(2) by auto
          with u(6) have "same_item (heap u z) (heap t z)" by blast
          then show ?thesis using z gb(1) g(4) \<open>z \<noteq> b\<close> by (auto simp: same_item_def)
        qed
      qed (use gb(1) in auto)
      have inj: "j = k" if "m j = Some a" for j using assoc_key [OF items_invD(1) [OF inv]] that k by metis
      have mv: "moved_item (heap u b) ?x" using u(8) unfolding moved_item_def y(7) by (simp add: y_def incr_frame(4))
      have "step_contents c a m (m(k \<mapsto> b)) R F s u"
        unfolding step_contents_def
      proof (intro conjI allI impI)
        show "(m(k \<mapsto> b)) j = m j" if "m j \<noteq> Some a" for j using that k by auto
        show "case (m(k \<mapsto> b)) j of None \<Rightarrow> may_drop c a R F s \<and> (0 < R a \<or> it_flags (heap u a) = CLEARED)
          | Some y \<Rightarrow> if y = a then same_item (heap u a) (heap s a)
            else moved_item (heap u y) (heap s a) \<and> data_ok (heap u y) \<and> R y = 0 \<and> y \<notin> move_page s \<and> it_flags (heap u a) = CLEARED"
          if "m j = Some a" for j using inj [OF that] mv ba u(7,9) gb(2) by simp
      qed
      with u(2) sf have mo: "moved_ok hash c a m R F s u" by (rule moved_okI)
      have "move_from_lru hash c off a None ?s = Some (set_completed off u, False)"
        by (rule move_from_lru_item(3) [OF z _ al2 bn]) (use False u(1) y(1,2,4) in \<open>simp_all add: y_def incr_frame(6,9)\<close>)
      with mo u(4,7) smt same_move_trans [OF smt(1) u(3)] show ?thesis by auto
    qed
  qed
qed

end
