(* ===== verification/Workers.thy ===== *)
theory Workers
  imports Prelude
begin

text \<open>
  Background work that comes to an end: a thread repeats a step until it has nothing left to do. The
  steps of the page mover and of the other maintenance threads are of this kind.
\<close>

text \<open>At most \<open>n\<close> steps; \<open>None\<close> when a step fails, or when the work is not done after them.\<close>

primrec run_for :: "('s \<Rightarrow> 's option) \<Rightarrow> ('s \<Rightarrow> bool) \<Rightarrow> nat \<Rightarrow> 's \<Rightarrow> 's option" where
  "run_for f fin 0 s = (if fin s then Some s else None)"
| "run_for f fin (Suc n) s = (if fin s then Some s else (case f s of None \<Rightarrow> None | Some t \<Rightarrow> run_for f fin n t))"

text \<open>
  The contract of a worker: from a good state that is not final a step leads to a good state with less
  to do. \<open>rel\<close> relates the states before and after, and can be chained.
\<close>

locale worker =
  fixes step :: "'s \<Rightarrow> 's option" and fin :: "'s \<Rightarrow> bool" and good :: "'s \<Rightarrow> bool" and todo :: "'s \<Rightarrow> nat" and rel :: "'s \<Rightarrow> 's \<Rightarrow> bool"
  assumes step_good: "\<lbrakk>good s; \<not> fin s\<rbrakk> \<Longrightarrow> \<exists>t. step s = Some t \<and> good t \<and> todo t < todo s \<and> rel s t"
    and rel_refl: "rel s s"
    and rel_trans: "\<lbrakk>rel s t; rel t u\<rbrakk> \<Longrightarrow> rel s u"
begin

lemma run_ends: "\<lbrakk>good s; todo s \<le> n\<rbrakk> \<Longrightarrow> \<exists>t. run_for step fin n s = Some t \<and> good t \<and> fin t \<and> rel s t"
proof (induction n arbitrary: s)
  case 0
  then have "fin s" using step_good by fastforce
  with 0 rel_refl show ?case by auto
next
  case (Suc n)
  show ?case
  proof (cases "fin s")
    case False
    from step_good [OF Suc.prems(1) False] obtain t where t: "step s = Some t" "good t" "todo t < todo s" "rel s t" by blast
    then have "todo t \<le> n" using Suc.prems(2) by simp
    from Suc.IH [OF t(2) this] t(1,4) False rel_trans show ?thesis by fastforce
  qed (use Suc.prems rel_refl in auto)
qed

end

end
