(* ===== verification/Page_Move.thy ===== *)
theory Page_Move
  imports Slab_Rebalance Workers
begin

text \<open>
  The correctness of the page mover: the invariant of a page that is being cleared, a step of the
  mover and what it does to the stored items, the end of the clearing, and the hand-over of the page.
\<close>

section \<open>The invariant of the mover\<close>

text \<open>The chunks of the page that is cleared, by number.\<close>

definition page_chunk :: "'a rebal_scheme \<Rightarrow> nat \<Rightarrow> addr" where
  "page_chunk s i = chunk_at (unat (sc_size (cls s (nat (s_clsid (slab_rebal s)))))) (slab_start (slab_rebal s)) i"

definition page_count :: "'a rebal_scheme \<Rightarrow> nat" where
  "page_count s = unat (perslab (cls s (nat (s_clsid (slab_rebal s)))))"

definition move_place :: "nat \<Rightarrow> 'a rebal_scheme \<Rightarrow> bool" where
  "move_place c s \<longleftrightarrow> c \<in> {1..power_largest s} \<and> s_clsid (slab_rebal s) = int c \<and> slab_start (slab_rebal s) \<in> set (pages s c) \<and> hd (pages s c) = slab_start (slab_rebal s) \<and>
    slab_end (slab_rebal s) = slab_start (slab_rebal s) + extent s c \<and> length (completed (slab_rebal s)) = page_count s"

text \<open>A chunk that is neither free nor an item: it is cleared, or its holder has not yet written a header.\<close>

definition unowned_ok :: "item \<Rightarrow> bool" where
  "unowned_ok x \<longleftrightarrow> it_flags x = CLEARED \<or> it_flags x AND (ITEM_SLABBED OR ITEM_LINKED OR ITEM_CHUNK) = 0"

definition mover_inv :: "(bytes \<Rightarrow> uint32) \<Rightarrow> 'a mover_scheme \<Rightarrow> (bytes \<rightharpoonup> addr) \<Rightarrow> (nat \<Rightarrow> addr list) \<Rightarrow> (nat \<Rightarrow> addr list) \<Rightarrow>
    (nat \<Rightarrow> addr set) \<Rightarrow> (addr \<Rightarrow> nat) \<Rightarrow> nat \<Rightarrow> bool" where
  "mover_inv hash s m Q F H R c \<longleftrightarrow> items_inv hash s m Q F H R \<and> move_place c s \<and>
    (\<forall>a \<in> ran m. R a + 3 < 2 ^ 16 \<and> data_ok (heap s a)) \<and>
    (\<forall>a \<in> move_page s. a \<in> H c \<longrightarrow> a \<notin> live m R \<longrightarrow> unowned_ok (heap s a)) \<and>
    (\<forall>i < page_count s. completed (slab_rebal s) ! i \<noteq> 0 \<longrightarrow> it_flags (heap s (page_chunk s i)) = CLEARED)"

text \<open>Where the mover stands: everything before it is cleared, or something was busy.\<close>

definition mover_at :: "'a rebal_scheme \<Rightarrow> nat \<Rightarrow> bool" where
  "mover_at s j \<longleftrightarrow> j < page_count s \<and> slab_pos (slab_rebal s) = page_chunk s j \<and> rb_done (slab_rebal s) = 0 \<and>
    unat (busy_items (slab_rebal s)) \<le> j \<and>
    (\<forall>i < j. busy_items (slab_rebal s) \<noteq> 0 \<or> it_flags (heap s (page_chunk s i)) = CLEARED)"

definition page_cleared :: "'a rebal_scheme \<Rightarrow> bool" where
  "page_cleared s \<longleftrightarrow> (\<forall>i < page_count s. it_flags (heap s (page_chunk s i)) = CLEARED)"

lemma move_placeD:
  assumes inv: "slab_inv s F H" and p: "move_place c s"
  shows "c \<in> {1..power_largest s}" "nat (s_clsid (slab_rebal s)) = c" "page_count s = unat (perslab (cls s c))"
    "page_chunk s i = chunk_at (unat (sc_size (cls s c))) (slab_start (slab_rebal s)) i"
    "move_page s = region (slab_start (slab_rebal s)) (extent s c)"
    "i < page_count s \<Longrightarrow> page_chunk s i \<in> move_page s" "i < page_count s \<Longrightarrow> page_chunk s i \<in> chunks s c"
    "move_page s \<inter> chunks s c = page_chunk s ` {..<page_count s}" "0 < unat (sc_size (cls s c))"
proof -
  show c: "c \<in> {1..power_largest s}" "nat (s_clsid (slab_rebal s)) = c" using p by (simp_all add: move_place_def)
  note k = inv_class [OF inv c(1)]
  show n: "page_count s = unat (perslab (cls s c))" and pc: "page_chunk s i = chunk_at (unat (sc_size (cls s c))) (slab_start (slab_rebal s)) i" for i
    using c(2) by (simp_all add: page_count_def page_chunk_def)
  show mp: "move_page s = region (slab_start (slab_rebal s)) (extent s c)" using p by (simp add: move_page_def region_def move_place_def)
  have sp: "slab_start (slab_rebal s) \<in> set (pages s c)" using p by (simp add: move_place_def)
  show r: "page_chunk s i \<in> move_page s" if "i < page_count s" for i
    using chunk_in_region [OF _ k(1), of i] that n k(3) unfolding mp pc by simp
  show ch: "page_chunk s i \<in> chunks s c" if "i < page_count s" for i
    using that sp n unfolding chunks_def pc by auto
  have dj: "disj_pages (owners s) (pages s) (extent s)" using inv by (simp add: slab_inv_def page_ok_def)
  have "a \<in> page_chunk s ` {..<page_count s}" if a: "a \<in> move_page s" "a \<in> chunks s c" for a
  proof -
    from a(2) obtain q i where q: "q \<in> set (pages s c)" "i < unat (perslab (cls s c))" "a = chunk_at (unat (sc_size (cls s c))) q i"
      by (auto simp: chunks_def)
    have "a \<in> region q (extent s c)" using chunk_in_region [OF q(2) k(1), of q] q(3) k(3) by simp
    then have "q = slab_start (slab_rebal s)" using disj_pagesD [OF dj k(7) k(7) q(1) sp] a(1) unfolding mp by blast
    then show ?thesis using q(2,3) n pc by auto
  qed
  with r ch show "move_page s \<inter> chunks s c = page_chunk s ` {..<page_count s}" by auto
  show "0 < unat (sc_size (cls s c))" by (rule k(1))
qed

lemma move_offset_chunk:
  assumes "slab_inv s F H" "move_place c s" "slab_pos (slab_rebal s) = page_chunk s j"
  shows "move_offset s = j"
  using move_placeD(2,4,9) [OF assms(1,2)] assms(3) by (simp add: move_offset_def Let_def chunk_at_def)

text \<open>The chunks of the page that are free are fewer than its chunks, when one of them is not free.\<close>

lemma free_in_page:
  assumes inv: "slab_inv s F H" and p: "move_place c s" and j: "j < page_count s" "page_chunk s j \<notin> set (F c)"
  shows "card (set (F c) \<inter> move_page s) < unat (perslab (cls s c))"
proof -
  note P = move_placeD [OF inv p]
  have "set (F c) \<inter> move_page s \<subseteq> page_chunk s ` {..<page_count s} - {page_chunk s j}"
    using inv_class(9) [OF inv P(1)] P(8) j(2) by auto
  then have "card (set (F c) \<inter> move_page s) \<le> card (page_chunk s ` {..<page_count s} - {page_chunk s j})"
    by (rule card_mono [rotated]) simp
  also have "\<dots> < card (page_chunk s ` {..<page_count s})" using j(1) by (intro card_Diff1_less) auto
  also have "\<dots> \<le> page_count s" using card_image_le [of "{..<page_count s}" "page_chunk s"] by simp
  finally show ?thesis using P(3) by simp
qed

text \<open>What a chunk of the page can be.\<close>

lemma page_chunk_cases:
  assumes inv: "mover_inv hash s m Q F H R c" and j: "j < page_count s"
  obtains "page_chunk s j \<in> set (F c)" "it_flags (heap s (page_chunk s j)) = ITEM_SLABBED" "page_chunk s j \<notin> live m R"
  | "page_chunk s j \<in> live m R" "page_chunk s j \<in> H c" "it_flags (heap s (page_chunk s j)) AND (ITEM_SLABBED OR ITEM_CHUNK) = 0"
    "page_chunk s j \<notin> set (F c)" "unat (ITEM_clsid (heap s (page_chunk s j))) = c"
  | "page_chunk s j \<notin> live m R" "page_chunk s j \<in> H c" "unowned_ok (heap s (page_chunk s j))" "page_chunk s j \<notin> set (F c)"
proof -
  let ?a = "page_chunk s j"
  have i: "items_inv hash s m Q F H R" and p: "move_place c s" using inv by (simp_all add: mover_inv_def)
  note si = items_invD(4) [OF i] note P = move_placeD [OF si p] note k = inv_class [OF si P(1)]
  have ac: "?a \<in> set (F c) \<union> H c" using P(7) [OF j] k(9) by simp
  consider "?a \<in> set (F c)" | "?a \<in> live m R" | "?a \<notin> live m R" "?a \<in> H c" "?a \<notin> set (F c)" using ac by blast
  then show thesis
  proof cases
    case 1
    then have "it_flags (heap s ?a) = ITEM_SLABBED" using k(10) by (simp add: free_list_def)
    moreover have "?a \<notin> live m R" using 1 live_held(1) [OF i, of ?a] P(1) by (auto simp: all_free_def)
    ultimately show ?thesis using 1 that(1) by blast
  next
    case 2
    note ok = items_invD(6) [OF i 2] and hl = live_held [OF i 2]
    have nf: "?a \<notin> set (F c)" using hl(1) P(1) by (auto simp: all_free_def)
    then have "?a \<in> H c" using ac by blast
    then have "unat (ITEM_clsid (heap s ?a)) = c" using held_not_free(4) [OF si P(1), of ?a] hl(3,4) by auto
    with 2 ok nf \<open>?a \<in> H c\<close> show ?thesis using that(2) by (simp add: item_ok_def)
  next
    case 3
    then show ?thesis using that(3) inv P(6) [OF j] by (auto simp: mover_inv_def)
  qed
qed

section \<open>The cases of a step\<close>

lemma moved_ok_refl: "items_inv hash s m Q F H R \<Longrightarrow> moved_ok hash c a m R F s s"
  by (rule moved_okI [of hash s m Q F H]) (simp_all add: step_frame_def step_contents_def split: option.splits)

text \<open>The step relation looks only at these parts of the state before.\<close>

lemma moved_ok_cong:
  assumes "heap s1 = heap s" "same_move s s1" "moved_ok hash c a m R F s1 t"
  shows "moved_ok hash c a m R F s t"
proof -
  have e: "settings s1 = settings s" "current_time s1 = current_time s" "busy_loops (slab_rebal s1) = busy_loops (slab_rebal s)"
    using assms(2) by (simp_all add: same_move_def cursor_def)
  note mp = same_move_page [OF assms(2)]
  have md: "may_drop c a R F s1 = may_drop c a R F s" by (simp add: may_drop_def item_is_flushed_def assms(1) e mp)
  show ?thesis using assms(3) unfolding moved_ok_def step_frame_def step_contents_def assms(1) mp md .
qed

lemma trylock_move:
  assumes "item_trylock s = (s1, got)"
  shows "same_move s s1" "heap s1 = heap s" "slab_rebal s1 = slab_rebal s" "slabclass s1 = slabclass s"
    "trylock_supply s = replicate n True \<Longrightarrow> 0 < n \<Longrightarrow> got \<and> trylock_supply s1 = replicate (n - 1) True"
  using assms by (cases n; auto simp: item_trylock_def same_move_def split: list.splits)+

lemma free_move_inv:
  assumes inv: "items_inv hash s m Q F H R" and c: "c \<in> {1..power_largest s}" and a: "a \<in> set (F c)"
  shows "same_move s (mark_cleared a (slab_rebalance_cut_free c a s))" "trylock_supply (mark_cleared a (slab_rebalance_cut_free c a s)) = trylock_supply s"
    "moved_ok hash c a m R F s (mark_cleared a (slab_rebalance_cut_free c a s))"
proof -
  let ?t = "slab_rebalance_cut_free c a s"
  from a obtain xs ys where F: "F c = xs @ a # ys" by (auto simp: in_set_conv_decomp)
  note si = items_invD(4) [OF inv] note C = cut_free_inv [OF si c F] note lm = lists_only_move [OF C(2)]
  have nl: "b \<notin> set (F c)" if "b \<in> live m R" for b using live_held(1) [OF inv that] c by (auto simp: all_free_def)
  have al: "a \<notin> live m R" "a \<notin> ran m" using nl [of a] a by (auto simp: live_def)
  have "items_inv hash ?t m Q (F(c := xs @ ys)) (H(c := insert a (H c))) R"
    by (rule lists_inv [OF inv C(2,1)]) (use C(3) nl F in auto)
  from mark_cleared_inv [OF this al(2), of c] have i: "items_inv hash (mark_cleared a ?t) m Q (F(c := xs @ ys)) (H(c := insert a (H c))) (R(a := 0))"
    using c lists_onlyD(1) [OF C(2)] by simp
  have R: "R(a := 0) = R" using al(1) by (auto simp: live_def)
  show "same_move s (mark_cleared a ?t)" by (rule same_move_trans [OF lm(1) mark_cleared_fields(1)])
  show "trylock_supply (mark_cleared a ?t) = trylock_supply s" using lm(2) by (simp add: mark_cleared_fields)
  have di: "a \<notin> set (xs @ ys)" using free_listD(1) [OF inv_class(10) [OF si c]] F by auto
  have fl: "it_flags (heap s b) = 4" if "b \<in> set (F c)" for b using inv_class(10) [OF si c] that by (simp add: free_list_def)
  show "moved_ok hash c a m R F s (mark_cleared a ?t)"
  proof (rule moved_okI [OF i [unfolded R]])
    show "step_frame c a m R F (F(c := xs @ ys)) s (mark_cleared a ?t)"
      unfolding step_frame_def
    proof (intro conjI ballI allI impI)
      show "heap (mark_cleared a ?t) b = heap s b" if "b \<notin> live m R" "b \<notin> set (F c)" for b
        using that C(3) F by (simp add: mark_cleared_fields)
      show "same_item (heap (mark_cleared a ?t) b) (heap s b)" if "b \<noteq> a" "b \<in> live m R" for b
        using that C(3) [of b] nl [OF that(2)] F by (simp add: mark_cleared_fields)
      show "b \<in> set ((F(c := xs @ ys)) c) \<or> it_flags (heap (mark_cleared a ?t) b) = CLEARED" if "b \<in> set (F c) \<inter> move_page s" for b
        using that F by (auto simp: mark_cleared_fields)
    qed (use F in auto)
    show "step_contents c a m m R F s (mark_cleared a ?t)" using al(2) by (auto simp: step_contents_def ran_def)
  qed
qed

text \<open>A busy item is left alone, or, after many rounds, unlinked.\<close>

lemma busy_move_inv:
  assumes inv: "items_inv hash s m Q F H R" and k: "m k = Some a" and r: "0 < R a" "R a + 3 < 2 ^ 16"
  shows "\<exists>u. (if busy_loops (slab_rebal s) > SLAB_MOVE_MAX_LOOPS
      then do_item_unlink a (hash k) (STORAGE_delete a (upd_rebal (\<lambda>r. r\<lparr>busy_deletes := busy_deletes r + 1\<rparr>) (refcount_incr a s)))
      else Some (refcount_incr a s)) = Some u \<and>
    same_move s (refcount_decr a u) \<and> trylock_supply (refcount_decr a u) = trylock_supply s \<and> moved_ok hash c a m R F s (refcount_decr a u)"
proof (cases "busy_loops (slab_rebal s) > SLAB_MOVE_MAX_LOOPS")
  case False
  then show ?thesis using moved_ok_refl [OF inv] by (simp add: decr_incr)
next
  case True
  let ?R = "R(a := R a + 1)" and ?m = "m(k := None)"
  let ?s = "STORAGE_delete a (upd_rebal (\<lambda>r. r\<lparr>busy_deletes := busy_deletes r + 1\<rparr>) (refcount_incr a s))"
  have ar: "a \<in> ran m" using k by (auto simp: ran_def)
  then have al: "a \<in> live m R" by (simp add: live_def)
  have i1: "items_inv hash ?s m Q F H ?R" using refcount_incr_inv(1) [OF inv al] r by (simp add: STORAGE_delete_inv(1) upd_rebal_inv)
  have f1: "same_move s ?s" "trylock_supply ?s = trylock_supply s" "heap ?s = heap (refcount_incr a s)"
    by (simp_all add: STORAGE_delete_def same_move_def refcount_incr_def cursor_def)
  from unlink_frame [OF i1 k] obtain u Q' where u: "do_item_unlink a (hash k) ?s = Some u" "items_inv hash u ?m Q' F H ?R"
    "\<forall>b. b \<noteq> a \<longrightarrow> same_item (heap u b) (heap ?s b)" "\<forall>b. b \<notin> ran m \<longrightarrow> heap u b = heap ?s b" "refcount (heap ?s a) \<noteq> 1" by auto
  note um = unlink_move [OF u(1,5)]
  have d: "same_move u (refcount_decr a u)" "trylock_supply (refcount_decr a u) = trylock_supply u" "\<And>b. b \<noteq> a \<Longrightarrow> heap (refcount_decr a u) b = heap u b"
    by (simp_all add: refcount_decr_def same_move_def)
  have i: "items_inv hash (refcount_decr a u) ?m Q' F H R" using refcount_decr_inv [OF u(2), of a] by simp
  have hs: "heap ?s b = heap s b" if "b \<noteq> a" for b using that by (simp add: f1(3) incr_frame(4))
  have inj: "j = k" if "m j = Some a" for j using assoc_key [OF items_invD(1) [OF inv]] that k by metis
  have "moved_ok hash c a m R F s (refcount_decr a u)"
  proof (rule moved_okI [OF i])
    show "step_frame c a m R F F s (refcount_decr a u)"
      unfolding step_frame_def
    proof (intro conjI ballI allI impI)
      show "heap (refcount_decr a u) b = heap s b" if b: "b \<notin> live m R" "b \<notin> set (F c)" for b
      proof -
        have "b \<noteq> a" "b \<notin> ran m" using b(1) ar by (auto simp: live_def)
        then show ?thesis using u(4) d(3) hs by simp
      qed
      show "same_item (heap (refcount_decr a u) b) (heap s b)" if "b \<noteq> a" "b \<in> live m R" for b
        using u(3) [rule_format, OF that(1)] d(3) [OF that(1)] hs [OF that(1)] by simp
    qed auto
    show "step_contents c a m ?m R F s (refcount_decr a u)"
      unfolding step_contents_def
    proof (intro conjI allI impI)
      show "?m j = m j" if "m j \<noteq> Some a" for j using that k by auto
      show "case ?m j of None \<Rightarrow> may_drop c a R F s \<and> (0 < R a \<or> it_flags (heap (refcount_decr a u) a) = CLEARED)
        | Some y \<Rightarrow> if y = a then same_item (heap (refcount_decr a u) a) (heap s a)
          else moved_item (heap (refcount_decr a u) y) (heap s a) \<and> data_ok (heap (refcount_decr a u) y) \<and> R y = 0 \<and> y \<notin> move_page s \<and>
            it_flags (heap (refcount_decr a u) a) = CLEARED"
        if "m j = Some a" for j using inj [OF that] True r(1) by (simp add: may_drop_def)
    qed
  qed
  moreover have "same_move s (refcount_decr a u)" using f1(1) um d(1) same_move_trans by blast
  moreover have "trylock_supply (refcount_decr a u) = trylock_supply s" using f1(2) um d(2) by simp
  ultimately show ?thesis using True u(1) by auto
qed

section \<open>A step\<close>

lemma and_sub: "\<lbrakk>w AND g = 0; g AND f = f\<rbrakk> \<Longrightarrow> w AND f = 0" for w :: "16 word"
  by (metis and.assoc zero_and_eq)

lemma move_skip:
  assumes "move_offset s = j" "completed (slab_rebal s) ! j \<noteq> 0"
  shows "slab_rebalance_move hash s = Some (advance s, False)"
  using assms by (simp add: slab_rebalance_move_def Let_def)

lemma move_look:
  assumes "move_offset s = j" "completed (slab_rebal s) ! j = 0" "slab_pos (slab_rebal s) = a" "it_flags (heap s a) AND ITEM_CHUNK = 0"
    and "nat (s_clsid (slab_rebal s)) = c" "look_at hash c a s = Some (t, st)"
  shows "slab_rebalance_move hash s = do {
    (s1, b) \<leftarrow> (case st of MOVE_FROM_LRU \<Rightarrow> move_from_lru hash c j a None t
       | MOVE_FROM_SLAB \<Rightarrow> Some (mark_cleared a (set_completed j t), False)
       | MOVE_BUSY \<Rightarrow> Some (count_busy t, True) | MOVE_LOCKED \<Rightarrow> Some (count_busy t, True) | MOVE_PASS \<Rightarrow> Some (t, False));
    Some (advance s1, b) }"
  using assms by (simp add: slab_rebalance_move_def Let_def has_flag_def)

lemma mark_completed: "mark_cleared a (set_completed j t) = set_completed j (mark_cleared a t)"
  by (simp add: mark_cleared_def set_completed_def upd_rebal_def)

definition move_result :: "(bytes \<Rightarrow> uint32) \<Rightarrow> nat \<Rightarrow> addr \<Rightarrow> nat \<Rightarrow> (bytes \<rightharpoonup> addr) \<Rightarrow> (addr \<Rightarrow> nat) \<Rightarrow> (nat \<Rightarrow> addr list) \<Rightarrow> 'a mover_scheme \<Rightarrow>
    'a mover_scheme \<Rightarrow> 'a mover_scheme \<Rightarrow> bool \<Rightarrow> bool" where
  "move_result hash c a j m R F s t t' busy \<longleftrightarrow> same_move s t \<and> moved_ok hash c a m R F s t \<and>
    (if busy then t' = count_busy t else t' \<in> {t, set_completed j t} \<and> it_flags (heap t a) = CLEARED) \<and>
    (\<forall>n. trylock_supply s = replicate n True \<longrightarrow> 0 < n \<longrightarrow> (\<exists>n' \<ge> n - 1. trylock_supply t = replicate n' True) \<and>
      (a \<in> set (F c) \<or> it_flags (heap s a) = CLEARED \<or> a \<in> ran m \<and> R a = 0 \<longrightarrow> \<not> busy))"

lemma move_result_plain:
  assumes "same_move s t" "moved_ok hash c a m R F s t" "trylock_supply t = trylock_supply s" "it_flags (heap t a) = CLEARED" "t' = t \<or> t' = set_completed j t"
  shows "move_result hash c a j m R F s t t' False"
  using assms by (auto simp: move_result_def)

lemma linked_look:
  assumes lk: "item_trylock s = (s1, got)" and x: "it_flags (heap s a) AND 68 = 0" "has_flag ITEM_LINKED (heap s a)"
    and r: "unat (refcount (heap s a)) = n + 1" "n + 3 < 2 ^ 16"
  shows "look_at hash c a s =
    (if \<not> got then Some (s1, MOVE_LOCKED)
     else if n = 0 then Some (refcount_incr a s1, MOVE_FROM_LRU)
     else do { s3 \<leftarrow> (if busy_loops (slab_rebal s1) > SLAB_MOVE_MAX_LOOPS
          then do_item_unlink a (hash (key_of (heap s a))) (STORAGE_delete a (upd_rebal (\<lambda>r. r\<lparr>busy_deletes := busy_deletes r + 1\<rparr>) (refcount_incr a s1)))
          else Some (refcount_incr a s1));
        Some (refcount_decr a s3, MOVE_BUSY) })"
proof -
  note t = trylock_move [OF lk]
  have f: "it_flags (heap s a) \<noteq> ITEM_SLABBED OR ITEM_FETCHED" "\<not> has_flag ITEM_SLABBED (heap s a)"
  proof -
    show "it_flags (heap s a) \<noteq> ITEM_SLABBED OR ITEM_FETCHED" using x(1) by auto
    have "it_flags (heap s a) AND 4 = (it_flags (heap s a) AND 68) AND 4" by (simp add: and.assoc)
    then show "\<not> has_flag ITEM_SLABBED (heap s a)" using x(1) by (simp add: has_flag_def)
  qed
  have rc: "unat (refcount (heap s a) + 1) = n + 2" using r by (subst unat_plus_small) auto
  have r2: "refcount (heap (refcount_incr a s1) a) = 2 \<longleftrightarrow> n = 0" "refcount (heap (refcount_incr a s1) a) > 2 \<longleftrightarrow> n \<noteq> 0"
    using rc t(2) by (auto simp: incr_frame(4) word_unat_eq_iff word_less_nat_alt)
  show ?thesis
    unfolding look_at_def Let_def lk prod.case if_not_P [OF f(1)] if_not_P [OF f(2)] if_P [OF x(2)] t(2) r2 incr_frame(3)
    using x(2) by (cases got; cases "n = 0") simp_all
qed

lemma slab_rebalance_move_step:
  assumes inv: "mover_inv hash s m Q F H R c" and pos: "slab_pos (slab_rebal s) = page_chunk s j" and j: "j < page_count s"
  shows "\<exists>t t' busy. slab_rebalance_move hash s = Some (advance t', busy) \<and> move_result hash c (page_chunk s j) j m R F s t t' busy"
proof -
  let ?a = "page_chunk s j"
  have ii: "items_inv hash s m Q F H R" and p: "move_place c s" using inv by (simp_all add: mover_inv_def)
  note si = items_invD(4) [OF ii] note P = move_placeD [OF si p]
  have off: "move_offset s = j" by (rule move_offset_chunk [OF si p pos])
  have self: "move_result hash c ?a j m R F s s s False" if "it_flags (heap s ?a) = CLEARED"
    using that by (intro move_result_plain moved_ok_refl [OF ii]) simp_all
  have busy: "move_result hash c ?a j m R F s t (count_busy t) True" if "same_move s t" "moved_ok hash c ?a m R F s t"
    "\<And>n. trylock_supply s = replicate n True \<Longrightarrow> 0 < n \<Longrightarrow> \<exists>n' \<ge> n - 1. trylock_supply t = replicate n' True"
    "\<And>n. trylock_supply s = replicate n True \<Longrightarrow> 0 < n \<Longrightarrow> \<not> (?a \<in> set (F c) \<or> it_flags (heap s ?a) = CLEARED \<or> ?a \<in> ran m \<and> R ?a = 0)" for t
    using that by (simp add: move_result_def)
  show ?thesis
  proof (cases "completed (slab_rebal s) ! j = 0")
    case False
    then have "it_flags (heap s ?a) = CLEARED" using inv j by (simp add: mover_inv_def)
    with move_skip [OF off False] self show ?thesis by blast
  next
    case True
    note look = move_look [OF off True pos _ P(2)]
    show ?thesis
    proof (rule page_chunk_cases [OF inv j])
      assume a: "?a \<in> set (F c)" "it_flags (heap s ?a) = ITEM_SLABBED"
      let ?t = "slab_rebalance_cut_free c ?a s"
      have "look_at hash c ?a s = Some (?t, MOVE_FROM_SLAB)" using a(2) by (simp add: look_at_def Let_def has_flag_def)
      then have "slab_rebalance_move hash s = Some (advance (set_completed j (mark_cleared ?a ?t)), False)"
        using look a(2) by (simp add: mark_completed)
      moreover have "move_result hash c ?a j m R F s (mark_cleared ?a ?t) (set_completed j (mark_cleared ?a ?t)) False"
        by (intro move_result_plain free_move_inv [OF ii P(1) a(1)]) (simp_all add: mark_cleared_fields)
      ultimately show ?thesis by blast
    next
      assume a: "?a \<notin> live m R" "unowned_ok (heap s ?a)" "?a \<notin> set (F c)"
      show ?thesis
      proof (cases "it_flags (heap s ?a) = CLEARED")
        case cl: True
        then have "look_at hash c ?a s = Some (s, MOVE_PASS)" by (simp add: look_at_def)
        with look cl have "slab_rebalance_move hash s = Some (advance s, False)" by simp
        with self [OF cl] show ?thesis by blast
      next
        case cl: False
        then have z: "it_flags (heap s ?a) AND 69 = 0" using a(2) by (simp add: unowned_ok_def)
        have "it_flags (heap s ?a) AND 4 = 0" "it_flags (heap s ?a) AND 1 = 0" "it_flags (heap s ?a) AND 64 = 0"
          using and_sub [OF z] by simp_all
        with cl have "look_at hash c ?a s = Some (s, MOVE_BUSY)" "it_flags (heap s ?a) AND 64 = 0"
          by (simp_all add: look_at_def Let_def has_flag_def)
        then have "slab_rebalance_move hash s = Some (advance (count_busy s), True)" using look by simp
        moreover have "move_result hash c ?a j m R F s s (count_busy s) True"
          using a cl moved_ok_refl [OF ii] by (intro busy) (auto simp: live_def)
        ultimately show ?thesis by blast
      qed
    next
      assume a: "?a \<in> live m R" "?a \<in> H c" "it_flags (heap s ?a) AND (ITEM_SLABBED OR ITEM_CHUNK) = 0" "?a \<notin> set (F c)"
        "unat (ITEM_clsid (heap s ?a)) = c"
      have ok: "item_ok m H (power_largest s) R ?a (heap s ?a)" by (rule items_invD(6) [OF ii a(1)])
      have z: "it_flags (heap s ?a) AND 4 = 0" "it_flags (heap s ?a) AND 64 = 0" using and_sub [OF a(3)] by simp_all
      have ncl: "it_flags (heap s ?a) \<noteq> CLEARED" using z(1) by auto
      show ?thesis
      proof (cases "?a \<in> ran m")
        case False
        then have "look_at hash c ?a s = Some (s, MOVE_BUSY)" using ok ncl z(1)
          by (simp add: look_at_def Let_def item_ok_def) (simp add: has_flag_def)
        then have "slab_rebalance_move hash s = Some (advance (count_busy s), True)" using look z(2) by simp
        moreover have "move_result hash c ?a j m R F s s (count_busy s) True"
          using a False ncl moved_ok_refl [OF ii] by (intro busy) auto
        ultimately show ?thesis by blast
      next
        case ar: True
        obtain k where k: "m k = Some ?a" using ar by (auto simp: ran_def)
        have kx: "key_of (heap s ?a) = k" by (rule assoc_key [OF items_invD(1) [OF ii] k])
        have r: "unat (refcount (heap s ?a)) = R ?a + 1" "R ?a + 3 < 2 ^ 16" "data_ok (heap s ?a)" and lk: "has_flag ITEM_LINKED (heap s ?a)"
          using ok ar inv by (simp_all add: item_ok_def mover_inv_def)
        obtain s1 got where t: "item_trylock s = (s1, got)" by fastforce
        note T = trylock_move [OF t]
        have i1: "items_inv hash s1 m Q F H R" by (rule trylock_inv(1) [OF ii t])
        have x68: "it_flags (heap s ?a) AND 68 = 0" using a(3) by simp
        note la = linked_look [OF t x68 lk r(1,2), where hash = hash, unfolded kx]
        consider "\<not> got" | "got" "R ?a = 0" | "got" "R ?a \<noteq> 0" by blast
        then show ?thesis
        proof cases
          case 1
          then have "slab_rebalance_move hash s = Some (advance (count_busy s1), True)" using look la z(2) by simp
          moreover have "move_result hash c ?a j m R F s s1 (count_busy s1) True"
            by (rule busy [OF T(1) moved_ok_cong [OF T(2,1) moved_ok_refl [OF i1]]]) (use T(5) 1 in blast)+
          ultimately show ?thesis by blast
        next
          case 2
          have room: "card (set (F c) \<inter> move_page s1) < unat (perslab (cls s1 c))" "nat (s_clsid (slab_rebal s1)) = c" "c \<in> {1..power_largest s1}"
            using free_in_page [OF si p j a(4)] same_move_page [OF T(1)] T(1,3,4) P(1,2) by (simp_all add: same_move_def)
          from move_from_lru_inv [OF i1 k 2(2) room(3) _ _ room(1,2), of j] a(5) r(3) T(2) obtain u where
            u: "move_from_lru hash c j ?a None (refcount_incr ?a s1) = Some (set_completed j u, False)" "same_move s1 u"
            "trylock_supply u = trylock_supply s1" "moved_ok hash c ?a m R F s1 u" "it_flags (heap u ?a) = CLEARED" by auto
          have "slab_rebalance_move hash s = Some (advance (set_completed j u), False)" using look la z(2) 2 u(1) by simp
          moreover have "move_result hash c ?a j m R F s u (set_completed j u) False"
            unfolding move_result_def using same_move_trans [OF T(1) u(2)] moved_ok_cong [OF T(2,1) u(4)] u(3,5) T(5) by auto
          ultimately show ?thesis by blast
        next
          case 3
          from busy_move_inv [OF i1 k _ r(2)] 3(2) obtain u where
            u: "(if busy_loops (slab_rebal s1) > SLAB_MOVE_MAX_LOOPS
              then do_item_unlink ?a (hash k) (STORAGE_delete ?a (upd_rebal (\<lambda>r. r\<lparr>busy_deletes := busy_deletes r + 1\<rparr>) (refcount_incr ?a s1)))
              else Some (refcount_incr ?a s1)) = Some u" "same_move s1 (refcount_decr ?a u)"
            "trylock_supply (refcount_decr ?a u) = trylock_supply s1" "moved_ok hash c ?a m R F s1 (refcount_decr ?a u)" by auto
          have "look_at hash c ?a s = Some (refcount_decr ?a u, MOVE_BUSY)" unfolding la u(1) using 3 by simp
          then have "slab_rebalance_move hash s = Some (advance (count_busy (refcount_decr ?a u)), True)" using look z(2) by simp
          moreover have "move_result hash c ?a j m R F s (refcount_decr ?a u) (count_busy (refcount_decr ?a u)) True"
            by (rule busy [OF same_move_trans [OF T(1) u(2)] moved_ok_cong [OF T(2,1) u(4)]]) (use T(5) 3 a(4) ncl u(3) in auto)
          ultimately show ?thesis by blast
        qed
      qed
    qed
  qed
qed

section \<open>Preservation\<close>

lemma same_move_pages:
  assumes inv: "slab_inv s F H" and sm: "same_move s t" and c: "c \<in> {1..power_largest s}"
  shows "pages t c = pages s c" "extent t c = extent s c" "sc_size (cls t c) = sc_size (cls s c)" "perslab (cls t c) = perslab (cls s c)"
    "power_largest t = power_largest s" "chunks t c = chunks s c"
proof -
  have "c < length (slabclass s)" using inv c by (auto simp: slab_inv_def free_ok_def class_ok_def)
  note g = same_move_class [OF sm this]
  show "sc_size (cls t c) = sc_size (cls s c)" "perslab (cls t c) = perslab (cls s c)" by (rule g)+
  have "c \<noteq> UNUSED_PAGES" using inv_class(6) [OF inv c] by simp
  then show "pages t c = pages s c" "extent t c = extent s c" using g sm c by (simp_all add: pages_def extent_def same_move_def)
  then show "chunks t c = chunks s c" by (simp add: chunks_def g)
  show "power_largest t = power_largest s" using sm by (simp add: same_move_def)
qed

lemma same_move_place:
  assumes "slab_inv s F H" "same_move s t" "move_place c s"
  shows "move_place c t" "page_chunk t i = page_chunk s i" "page_count t = page_count s" "move_page t = move_page s"
proof -
  have c: "c \<in> {1..power_largest s}" using assms(3) by (simp add: move_place_def)
  note g = same_move_pages [OF assms(1,2) c]
  have r: "slab_start (slab_rebal t) = slab_start (slab_rebal s)" "slab_end (slab_rebal t) = slab_end (slab_rebal s)"
    "s_clsid (slab_rebal t) = s_clsid (slab_rebal s)" "completed (slab_rebal t) = completed (slab_rebal s)"
    using assms(2) by (simp_all add: same_move_def cursor_def)
  have n: "nat (s_clsid (slab_rebal s)) = c" using assms(3) by (simp add: move_place_def)
  show "page_chunk t i = page_chunk s i" "page_count t = page_count s" by (simp_all add: page_chunk_def page_count_def r n g)
  then show "move_place c t" using assms(3) by (simp add: move_place_def r g)
  show "move_page t = move_page s" by (rule same_move_page [OF assms(2)])
qed

text \<open>The marks a step sets on the record of the mover.\<close>

lemma mark_fields:
  "heap (count_busy t) = heap t" "heap (set_completed j t) = heap t" "slabclass (count_busy t) = slabclass t" "slabclass (set_completed j t) = slabclass t"
  "power_largest (count_busy t) = power_largest t" "power_largest (set_completed j t) = power_largest t"
  "slab_rebal (count_busy t) = (slab_rebal t)\<lparr>busy_items := busy_items (slab_rebal t) + 1\<rparr>"
  "slab_rebal (set_completed j t) = (slab_rebal t)\<lparr>completed := (completed (slab_rebal t))[j := 1]\<rparr>"
  "settings (count_busy t) = settings t" "settings (set_completed j t) = settings t"
  "malloc_supply (count_busy t) = malloc_supply t" "malloc_supply (set_completed j t) = malloc_supply t"
  "slab_rebalance_signal (count_busy t) = slab_rebalance_signal t" "slab_rebalance_signal (set_completed j t) = slab_rebalance_signal t"
  by (simp_all add: count_busy_def set_completed_def) (simp_all add: upd_rebal_def)

lemma mark_place:
  assumes "move_place c t" "t' \<in> {t, set_completed j t, count_busy t}"
  shows "move_place c t'" "page_chunk t' i = page_chunk t i" "page_count t' = page_count t" "move_page t' = move_page t" "heap t' = heap t"
  using assms by (auto simp: move_place_def page_chunk_def page_count_def move_page_def mark_fields pages_def extent_def)

text \<open>A cleared chunk stays cleared.\<close>

lemma cleared_kept:
  assumes inv: "mover_inv hash s m Q F H R c" and i: "i < page_count s" and cl: "it_flags (heap s (page_chunk s i)) = CLEARED"
    and sf: "step_frame c a m R F F' s t"
  shows "it_flags (heap t (page_chunk s i)) = CLEARED"
proof (rule page_chunk_cases [OF inv i])
  assume "page_chunk s i \<notin> live m R" "page_chunk s i \<notin> set (F c)"
  with sf cl show ?thesis by (simp add: step_frame_def)
qed (use cl in simp_all)

text \<open>What a step does to the items, key by key; \<open>a\<close> is the chunk it looks at.\<close>

definition items_moved :: "nat \<Rightarrow> addr \<Rightarrow> (bytes \<rightharpoonup> addr) \<Rightarrow> (bytes \<rightharpoonup> addr) \<Rightarrow> (addr \<Rightarrow> nat) \<Rightarrow> (nat \<Rightarrow> addr list) \<Rightarrow>
    'a mover_scheme \<Rightarrow> 'a mover_scheme \<Rightarrow> bool" where
  "items_moved c a m m' R F s t \<longleftrightarrow> (\<forall>k. case m k of
      None \<Rightarrow> m' k = None
    | Some b \<Rightarrow> (case m' k of
        None \<Rightarrow> b = a \<and> may_drop c a R F s
      | Some y \<Rightarrow> if y = b then same_item (heap t b) (heap s b) else b = a \<and> moved_item (heap t y) (heap s a) \<and> y \<notin> move_page s))"

lemma contents_moved:
  assumes "step_frame c a m R F F' s t" "step_contents c a m m' R F s t"
  shows "items_moved c a m m' R F s t"
  unfolding items_moved_def
proof
  fix k
  show "case m k of None \<Rightarrow> m' k = None | Some b \<Rightarrow> (case m' k of None \<Rightarrow> b = a \<and> may_drop c a R F s
      | Some y \<Rightarrow> if y = b then same_item (heap t b) (heap s b) else b = a \<and> moved_item (heap t y) (heap s a) \<and> y \<notin> move_page s)"
  proof (cases "m k")
    case None
    then show ?thesis using assms(2) by (simp add: step_contents_def)
  next
    case (Some b)
    show ?thesis
    proof (cases "b = a")
      case True
      then have "case m' k of None \<Rightarrow> may_drop c a R F s \<and> (0 < R a \<or> it_flags (heap t a) = CLEARED)
        | Some y \<Rightarrow> if y = a then same_item (heap t a) (heap s a)
          else moved_item (heap t y) (heap s a) \<and> data_ok (heap t y) \<and> R y = 0 \<and> y \<notin> move_page s \<and> it_flags (heap t a) = CLEARED"
        using assms(2) Some unfolding step_contents_def by blast
      then show ?thesis using Some True by (auto split: option.splits if_splits)
    next
      case False
      have "b \<in> live m R" using Some by (auto simp: live_def ran_def)
      then have "same_item (heap t b) (heap s b)" using assms(1) False unfolding step_frame_def by blast
      moreover have "m' k = Some b" using assms(2) Some False unfolding step_contents_def by auto
      ultimately show ?thesis using Some by simp
    qed
  qed
qed

lemma live_after:
  assumes sc: "step_contents c a m m' R F s t" and b: "b \<noteq> a" "b \<in> live m R"
  shows "b \<in> live m' R"
proof (cases "0 < R b")
  case False
  then obtain k where k: "m k = Some b" using b(2) by (auto simp: live_def ran_def)
  then have "m' k = m k" using sc b(1) by (simp add: step_contents_def)
  with k show ?thesis by (auto simp: live_def ran_def)
qed (simp add: live_def)

lemma unowned_after:
  assumes inv: "mover_inv hash s m Q F H R c" and j: "j < page_count s"
    and t: "items_inv hash t m' Q' F' H' R" "same_move s t" and sf: "step_frame c (page_chunk s j) m R F F' s t"
    and sc: "step_contents c (page_chunk s j) m m' R F s t" and b: "b \<in> move_page s" "b \<in> H' c" "b \<notin> live m' R"
  shows "unowned_ok (heap t b)"
proof -
  let ?a = "page_chunk s j"
  have ii: "items_inv hash s m Q F H R" and p: "move_place c s" using inv by (simp_all add: mover_inv_def)
  note si = items_invD(4) [OF ii] and st = items_invD(4) [OF t(1)] note P = move_placeD [OF si p] note g = same_move_pages [OF si t(2) P(1)]
  have ct: "c \<in> {1..power_largest t}" using P(1) g(5) by simp
  note kt = inv_class(8,9) [OF st ct]
  have "b \<in> chunks s c" using kt(2) b(2) g(6) by auto
  then obtain i where i: "i < page_count s" "b = page_chunk s i" using P(8) b(1) by auto
  have cl: "unowned_ok x" if "it_flags x = CLEARED" for x using that by (simp add: unowned_ok_def)
  show ?thesis
  proof (rule page_chunk_cases [OF inv i(1)])
    assume "page_chunk s i \<in> set (F c)"
    then have "b \<in> set (F c) \<inter> move_page s" using i(2) b(1) by simp
    then have "b \<in> set (F' c) \<or> it_flags (heap t b) = CLEARED" using sf unfolding step_frame_def by blast
    then show ?thesis using kt(1) b(2) cl by blast
  next
    assume l: "page_chunk s i \<in> live m R"
    then have "b = ?a" using live_after [OF sc, of b] b(3) i(2) by auto
    then obtain k where k: "m k = Some ?a" "R ?a = 0" using l i(2) b(3) by (auto simp: live_def ran_def)
    show ?thesis
    proof (cases "m' k")
      case None
      then have "it_flags (heap t ?a) = CLEARED" using sc k by (auto simp: step_contents_def)
      with cl \<open>b = ?a\<close> show ?thesis by simp
    next
      case (Some y)
      then have "y \<noteq> ?a" using b(3) \<open>b = ?a\<close> by (auto simp: live_def ran_def)
      then have "it_flags (heap t ?a) = CLEARED" using sc k(1) Some unfolding step_contents_def by fastforce
      with cl \<open>b = ?a\<close> show ?thesis by simp
    qed
  next
    assume "page_chunk s i \<notin> live m R" "unowned_ok (heap s (page_chunk s i))" "page_chunk s i \<notin> set (F c)"
    then show ?thesis using sf i(2) by (simp add: step_frame_def)
  qed
qed

lemma items_after:
  assumes inv: "mover_inv hash s m Q F H R c" and sf: "step_frame c a m R F F' s t" and sc: "step_contents c a m m' R F s t" and b: "b \<in> ran m'"
  shows "R b + 3 < 2 ^ 16 \<and> data_ok (heap t b)"
proof -
  have old: "R b + 3 < 2 ^ 16 \<and> data_ok (heap t b)" if "b \<in> ran m" "same_item (heap t b) (heap s b)" for b
  proof -
    have "R b + 3 < 2 ^ 16 \<and> data_ok (heap s b)" using inv that(1) by (simp add: mover_inv_def)
    moreover have "data_len (heap t b) = data_len (heap s b)" "nbytes (heap t b) = nbytes (heap s b)" "idata (heap t b) = idata (heap s b)"
      using that(2) by (simp_all add: same_item_def same_data_def data_len_def has_flag_def)
    ultimately show ?thesis by (simp add: data_ok_def)
  qed
  obtain k where k: "m' k = Some b" using b by (auto simp: ran_def)
  show ?thesis
  proof (cases "m k = Some a")
    case True
    then have e: "if b = a then same_item (heap t a) (heap s a)
          else moved_item (heap t b) (heap s a) \<and> data_ok (heap t b) \<and> R b = 0 \<and> b \<notin> move_page s \<and> it_flags (heap t a) = CLEARED"
      using sc k unfolding step_contents_def by fastforce
    have "a \<in> ran m" using True by (auto simp: ran_def)
    with e old [of a] show ?thesis by (cases "b = a") simp_all
  next
    case False
    then have mk: "m k = Some b" using sc k by (simp add: step_contents_def)
    then have br: "b \<in> ran m" and ba: "b \<noteq> a" using False by (auto simp: ran_def)
    then have "same_item (heap t b) (heap s b)" using sf by (auto simp: step_frame_def live_def)
    with old br show ?thesis by blast
  qed
qed

lemma mover_inv_kept:
  assumes inv: "mover_inv hash s m Q F H R c" and j: "j < page_count s" and res: "move_result hash c (page_chunk s j) j m R F s t t' busy"
  shows "\<exists>m' Q' F' H'. mover_inv hash t' m' Q' F' H' R c \<and> step_frame c (page_chunk s j) m R F F' s t \<and> step_contents c (page_chunk s j) m m' R F s t"
proof -
  let ?a = "page_chunk s j"
  have ii: "items_inv hash s m Q F H R" and p: "move_place c s" using inv by (simp_all add: mover_inv_def)
  note si = items_invD(4) [OF ii]
  have sm: "same_move s t" using res by (simp add: move_result_def)
  obtain m' Q' F' H' where it: "items_inv hash t m' Q' F' H' R" and sf: "step_frame c ?a m R F F' s t" and sc: "step_contents c ?a m m' R F s t"
    using res by (auto simp: move_result_def moved_ok_def)
  have t': "t' \<in> {t, set_completed j t, count_busy t}" using res by (auto simp: move_result_def split: if_splits)
  note sp = same_move_place [OF si sm p] note mp = mark_place [OF sp(1) t']
  have "items_inv hash t' m' Q' F' H' R" using it t' by (auto simp: set_completed_def count_busy_def upd_rebal_inv)
  moreover have "\<forall>b \<in> ran m'. R b + 3 < 2 ^ 16 \<and> data_ok (heap t' b)" using items_after [OF inv sf sc] mp(5) by simp
  moreover have "\<forall>b \<in> move_page t'. b \<in> H' c \<longrightarrow> b \<notin> live m' R \<longrightarrow> unowned_ok (heap t' b)"
    using unowned_after [OF inv j it sm sf sc] mp(4,5) sp(4) by simp
  moreover have "it_flags (heap t' (page_chunk t' i)) = CLEARED" if i: "i < page_count t'" "completed (slab_rebal t') ! i \<noteq> 0" for i
  proof (cases "completed (slab_rebal s) ! i = 0")
    case False
    then have "it_flags (heap s (page_chunk s i)) = CLEARED" using inv i(1) mp(3) sp(3) by (simp add: mover_inv_def)
    from cleared_kept [OF inv _ this sf] show ?thesis using i(1) mp sp by simp
  next
    case True
    have "completed (slab_rebal t) = completed (slab_rebal s)" using sm by (simp add: same_move_def cursor_def)
    then have ne: "completed (slab_rebal t') ! i \<noteq> completed (slab_rebal t) ! i" using True i(2) by simp
    have nb: "\<not> busy"
    proof
      assume busy
      then have "t' = count_busy t" using res by (simp add: move_result_def)
      with ne show False by (simp add: mark_fields)
    qed
    then have "t' = set_completed j t" "it_flags (heap t ?a) = CLEARED" using res ne by (auto simp: move_result_def)
    moreover have "i = j" using ne calculation(1) by (cases "i = j") (simp_all add: mark_fields)
    ultimately show ?thesis using mp(2,5) sp(2) by simp
  qed
  ultimately have "mover_inv hash t' m' Q' F' H' R c" using mp(1) by (simp add: mover_inv_def)
  with sf sc show ?thesis by blast
qed

section \<open>The next position\<close>

lemma advance_fields:
  "heap (advance t) = heap t" "slabclass (advance t) = slabclass t" "power_largest (advance t) = power_largest t" "settings (advance t) = settings t"
  "malloc_supply (advance t) = malloc_supply t" "trylock_supply (advance t) = trylock_supply t"
  "slab_start (slab_rebal (advance t)) = slab_start (slab_rebal t)" "slab_end (slab_rebal (advance t)) = slab_end (slab_rebal t)"
  "s_clsid (slab_rebal (advance t)) = s_clsid (slab_rebal t)" "d_clsid (slab_rebal (advance t)) = d_clsid (slab_rebal t)"
  "completed (slab_rebal (advance t)) = completed (slab_rebal t)" "slab_rebalance_signal (advance t) = slab_rebalance_signal t"
  by (simp_all add: advance_def Let_def)

lemma advance_place:
  "move_place c (advance t) = move_place c t" "page_chunk (advance t) i = page_chunk t i" "page_count (advance t) = page_count t"
  "move_page (advance t) = move_page t"
  by (simp_all add: move_place_def page_chunk_def page_count_def move_page_def pages_def extent_def advance_fields)

lemma advance_items:
  assumes "items_inv hash t m Q F H R"
  shows "items_inv hash (advance t) m Q F H R"
  by (rule same_items_inv [OF assms]) (simp_all add: advance_def Let_def same_tables_def upd_rebal_def)

lemma advance_inv: "mover_inv hash t m Q F H R c \<Longrightarrow> mover_inv hash (advance t) m Q F H R c"
  by (simp add: mover_inv_def advance_items advance_place advance_fields)

lemma advance_at:
  assumes inv: "slab_inv t F H" and p: "move_place c t" and j: "j < page_count t" "slab_pos (slab_rebal t) = page_chunk t j" "rb_done (slab_rebal t) = 0"
    and b: "unat (busy_items (slab_rebal t)) \<le> Suc j" "\<forall>i < Suc j. busy_items (slab_rebal t) \<noteq> 0 \<or> it_flags (heap t (page_chunk t i)) = CLEARED"
  shows "if Suc j < page_count t then mover_at (advance t) (Suc j)
    else if busy_items (slab_rebal t) \<noteq> 0 then mover_at (advance t) 0
    else rb_done (slab_rebal (advance t)) = 1 \<and> page_cleared (advance t)"
proof -
  note P = move_placeD [OF inv p] note k = inv_class [OF inv P(1)]
  let ?r = "slab_rebal t" and ?sz = "unat (sc_size (cls t c))"
  have nx: "slab_pos ?r + unat (sc_size (cls t (nat (s_clsid ?r)))) = page_chunk t (Suc j)" using P(2,4) j(2) by (simp add: chunk_at_def)
  have en: "slab_end ?r = page_chunk t (page_count t)" using p P(3,4) k(3) by (simp add: move_place_def chunk_at_def mult.commute)
  have less: "page_chunk t (Suc j) < slab_end ?r \<longleftrightarrow> Suc j < page_count t" unfolding en P(4) chunk_at_def using mult_less_cancel2 [of "Suc j" ?sz "page_count t"] P(9) by (simp del: mult_Suc)
  have st: "slab_start ?r = page_chunk t 0" using P(4) by (simp add: chunk_at_def)
  have n0: "0 < page_count t" using j(1) by simp
  have at: "mover_at (advance t) i \<longleftrightarrow> i < page_count t \<and> slab_pos (slab_rebal (advance t)) = page_chunk t i \<and> rb_done (slab_rebal (advance t)) = 0 \<and>
    unat (busy_items (slab_rebal (advance t))) \<le> i \<and>
    (\<forall>l < i. busy_items (slab_rebal (advance t)) \<noteq> 0 \<or> it_flags (heap t (page_chunk t l)) = CLEARED)" for i
    by (simp add: mover_at_def advance_place advance_fields)
  show ?thesis
  proof (cases "Suc j < page_count t")
    case True
    then have "slab_rebal (advance t) = ?r\<lparr>slab_pos := page_chunk t (Suc j)\<rparr>" using less by (simp add: advance_def Let_def nx)
    then show ?thesis using True at j b by simp
  next
    case False
    then have ge: "slab_pos ?r + unat (sc_size (cls t (nat (s_clsid ?r)))) \<ge> slab_end ?r" using less by (simp add: nx not_less)
    show ?thesis
    proof (cases "busy_items ?r = 0")
      case True
      then have "slab_rebal (advance t) = ?r\<lparr>slab_pos := page_chunk t (Suc j), rb_done := rb_done ?r + 1\<rparr>" using ge by (simp add: advance_def Let_def nx)
      moreover have "page_cleared (advance t)" unfolding page_cleared_def advance_place advance_fields using b(2) True False by auto
      ultimately show ?thesis using True False j(3) by simp
    next
      case bz: False
      then have "slab_rebal (advance t) = ?r\<lparr>slab_pos := slab_start ?r, busy_items := 0, busy_loops := busy_loops ?r + 1\<rparr>"
        using ge by (simp add: advance_def Let_def)
      then show ?thesis using bz False at n0 st j(3) by simp
    qed
  qed
qed

lemma move_step_all:
  assumes inv: "mover_inv hash s m Q F H R c" and at: "mover_at s j"
  shows "\<exists>t t' busy m' Q' F' H'. slab_rebalance_move hash s = Some (advance t', busy) \<and> move_result hash c (page_chunk s j) j m R F s t t' busy \<and>
    mover_inv hash (advance t') m' Q' F' H' R c \<and> heap (advance t') = heap t \<and>
    step_frame c (page_chunk s j) m R F F' s (advance t') \<and> step_contents c (page_chunk s j) m m' R F s (advance t') \<and>
    (if Suc j < page_count s then mover_at (advance t') (Suc j)
     else if busy_items (slab_rebal t') \<noteq> 0 then mover_at (advance t') 0
     else rb_done (slab_rebal (advance t')) = 1 \<and> page_cleared (advance t')) \<and>
    busy_items (slab_rebal t') = busy_items (slab_rebal s) + (if busy then 1 else 0) \<and>
    (\<forall>i. page_chunk (advance t') i = page_chunk s i) \<and> page_count (advance t') = page_count s"
proof -
  have j: "j < page_count s" and pos: "slab_pos (slab_rebal s) = page_chunk s j" using at by (simp_all add: mover_at_def)
  have ii: "items_inv hash s m Q F H R" and p: "move_place c s" using inv by (simp_all add: mover_inv_def)
  note si = items_invD(4) [OF ii]
  from slab_rebalance_move_step [OF inv pos j] obtain t t' busy where st: "slab_rebalance_move hash s = Some (advance t', busy)"
    and res: "move_result hash c (page_chunk s j) j m R F s t t' busy" by blast
  from mover_inv_kept [OF inv j res] obtain m' Q' F' H' where i: "mover_inv hash t' m' Q' F' H' R c"
    and sf: "step_frame c (page_chunk s j) m R F F' s t" and sc: "step_contents c (page_chunk s j) m m' R F s t" by blast
  have sm: "same_move s t" using res by (simp add: move_result_def)
  have t': "t' \<in> {t, set_completed j t, count_busy t}" using res by (auto simp: move_result_def split: if_splits)
  note sp = same_move_place [OF si sm p] note mp = mark_place [OF sp(1) t']
  have cur: "slab_pos (slab_rebal t') = slab_pos (slab_rebal s)" "rb_done (slab_rebal t') = rb_done (slab_rebal s)"
    "busy_items (slab_rebal t) = busy_items (slab_rebal s)"
    using sm t' by (auto simp: same_move_def cursor_def mark_fields)
  have bi: "busy_items (slab_rebal t') = busy_items (slab_rebal s) + (if busy then 1 else 0)"
    using res cur(3) by (auto simp: move_result_def mark_fields split: if_splits)
  have b0: "unat (busy_items (slab_rebal s)) \<le> j" "\<forall>i < j. busy_items (slab_rebal s) \<noteq> 0 \<or> it_flags (heap s (page_chunk s i)) = CLEARED"
    using at by (simp_all add: mover_at_def)
  have pl: "page_count s < 2 ^ 32" unfolding page_count_def using unat_bound [of "perslab (cls s (nat (s_clsid (slab_rebal s))))"] by simp
  have bu: "unat (busy_items (slab_rebal t')) = unat (busy_items (slab_rebal s)) + (if busy then 1 else 0)"
    unfolding bi using b0(1) j pl by (subst unat_plus_small) auto
  have pre: "busy_items (slab_rebal t') \<noteq> 0 \<or> it_flags (heap t' (page_chunk t' i)) = CLEARED" if l: "i < Suc j" for i
  proof (cases busy)
    case True
    then show ?thesis using bu by auto
  next
    case nb: False
    then have bz: "busy_items (slab_rebal t') = busy_items (slab_rebal s)" using bi by simp
    have "it_flags (heap t (page_chunk s j)) = CLEARED" using res nb by (simp add: move_result_def)
    moreover have "busy_items (slab_rebal s) \<noteq> 0 \<or> it_flags (heap t (page_chunk s i)) = CLEARED" if "i < j"
      using b0(2) that cleared_kept [OF inv _ _ sf, of i] j by auto
    ultimately show ?thesis using bz mp(2,5) sp(2) l by (cases "i = j") auto
  qed
  have ii': "items_inv hash t' m' Q' F' H' R" using i by (simp add: mover_inv_def)
  have adv: "if Suc j < page_count t' then mover_at (advance t') (Suc j)
    else if busy_items (slab_rebal t') \<noteq> 0 then mover_at (advance t') 0
    else rb_done (slab_rebal (advance t')) = 1 \<and> page_cleared (advance t')"
  proof (rule advance_at [OF items_invD(4) [OF ii'] mp(1)])
    show "unat (busy_items (slab_rebal t')) \<le> Suc j" using bu b0(1) by simp
    show "rb_done (slab_rebal t') = 0" using at cur(2) by (simp add: mover_at_def)
  qed (use j pos cur(1) mp sp pre in auto)
  have ht: "heap (advance t') = heap t" using mp(5) by (simp add: advance_fields)
  have f: "step_frame c (page_chunk s j) m R F F' s (advance t')" "step_contents c (page_chunk s j) m m' R F s (advance t')"
    using sf sc unfolding step_frame_def step_contents_def ht by simp_all
  show ?thesis
    by (intro exI conjI allI, rule st, rule res, rule advance_inv [OF i], rule ht, rule f, rule f)
      (use adv bi mp sp in \<open>simp_all add: advance_place\<close>)
qed

section \<open>Clearing a whole page\<close>

text \<open>The items of the other pages stay; one of the page may be dropped, or moved with its value.\<close>

definition run_items :: "(bytes \<rightharpoonup> addr) \<Rightarrow> (bytes \<rightharpoonup> addr) \<Rightarrow> 'a mover_scheme \<Rightarrow> 'a mover_scheme \<Rightarrow> bool" where
  "run_items m m' s t \<longleftrightarrow> (\<forall>k. case m k of
      None \<Rightarrow> m' k = None
    | Some b \<Rightarrow> if b \<in> move_page s then (case m' k of None \<Rightarrow> True | Some y \<Rightarrow> moved_item (heap t y) (heap s b))
        else m' k = Some b \<and> moved_item (heap t b) (heap s b))"

lemma moved_item_refl [simp]: "moved_item x x"
  by (simp add: moved_item_def)

lemma moved_item_trans: "moved_item z y \<Longrightarrow> moved_item y x \<Longrightarrow> moved_item z x"
  by (simp add: moved_item_def data_len_def has_flag_def cong: if_cong)

lemma same_moved: "same_item y x \<Longrightarrow> moved_item y x"
  by (simp add: same_item_def same_data_def moved_item_def)

lemma run_items_refl: "run_items m m s s"
  by (simp add: run_items_def split: option.splits)

lemma run_items_trans:
  assumes st: "run_items m m1 s t" and tu: "run_items m1 m2 t u" and p: "move_page t = move_page s"
  shows "run_items m m2 s u"
  unfolding run_items_def
proof
  fix k
  note S = st [unfolded run_items_def, rule_format, of k] and T = tu [unfolded run_items_def p, rule_format, of k]
  show "case m k of None \<Rightarrow> m2 k = None | Some b \<Rightarrow> if b \<in> move_page s then (case m2 k of None \<Rightarrow> True | Some y \<Rightarrow> moved_item (heap u y) (heap s b))
        else m2 k = Some b \<and> moved_item (heap u b) (heap s b)"
  proof (cases "m k")
    case (Some b)
    show ?thesis
    proof (cases "m1 k")
      case None
      then show ?thesis using S T Some by (auto split: if_splits)
    next
      case (Some y)
      then have sy: "moved_item (heap t y) (heap s b)" and ny: "b \<notin> move_page s \<Longrightarrow> y = b" using S \<open>m k = Some b\<close> by (auto split: if_splits)
      show ?thesis
      proof (cases "m2 k")
        case None
        then have "y \<in> move_page s" using T Some by (auto split: if_splits)
        then have "b \<in> move_page s" using ny by auto
        with None \<open>m k = Some b\<close> show ?thesis by simp
      next
        case z: (Some z)
        then have tz: "moved_item (heap u z) (heap t y)" and nz: "y \<notin> move_page s \<Longrightarrow> z = y" using T Some by (auto split: if_splits)
        have "moved_item (heap u z) (heap s b)" by (rule moved_item_trans [OF tz sy])
        with ny nz z \<open>m k = Some b\<close> show ?thesis by auto
      qed
    qed
  qed (use S T in simp)
qed

lemma moved_run:
  assumes "items_moved c a m m' R F s t" "a \<in> move_page s"
  shows "run_items m m' s t"
  unfolding run_items_def
proof
  fix k
  show "case m k of None \<Rightarrow> m' k = None | Some b \<Rightarrow> if b \<in> move_page s then (case m' k of None \<Rightarrow> True | Some y \<Rightarrow> moved_item (heap t y) (heap s b))
        else m' k = Some b \<and> moved_item (heap t b) (heap s b)"
    using assms(1) [unfolded items_moved_def, rule_format, of k] assms(2) same_moved
    by (auto split: option.splits if_splits)
qed

text \<open>Nobody uses the items of the page, and none of its chunks is on the way to become an item.\<close>

definition quiet :: "nat \<Rightarrow> (bytes \<rightharpoonup> addr) \<Rightarrow> (nat \<Rightarrow> addr list) \<Rightarrow> (addr \<Rightarrow> nat) \<Rightarrow> 'a mover_scheme \<Rightarrow> bool" where
  "quiet c m F R s \<longleftrightarrow> (\<forall>i < page_count s. let a = page_chunk s i in
    a \<in> set (F c) \<or> it_flags (heap s a) = CLEARED \<or> a \<in> ran m \<and> R a = 0)"

text \<open>The state while such a page is cleared: the locks the mover tries are free, and nothing was busy so far.\<close>

definition clearing :: "(bytes \<Rightarrow> uint32) \<Rightarrow> (addr \<Rightarrow> nat) \<Rightarrow> nat \<Rightarrow> 'a mover_scheme \<Rightarrow> bool" where
  "clearing hash R c s \<longleftrightarrow> (\<exists>m Q F H. mover_inv hash s m Q F H R c \<and>
    (if rb_done (slab_rebal s) \<noteq> 0 then page_cleared s
     else \<exists>j n. mover_at s j \<and> busy_items (slab_rebal s) = 0 \<and> quiet c m F R s \<and> trylock_supply s = replicate n True \<and> page_count s \<le> n + j))"

definition same_classes :: "'a mover_scheme \<Rightarrow> 'a mover_scheme \<Rightarrow> bool" where
  "same_classes s t \<longleftrightarrow> map geo (slabclass t) = map geo (slabclass s) \<and> power_largest t = power_largest s \<and> settings t = settings s \<and>
    malloc_supply t = malloc_supply s \<and> slab_start (slab_rebal t) = slab_start (slab_rebal s) \<and> slab_end (slab_rebal t) = slab_end (slab_rebal s) \<and>
    s_clsid (slab_rebal t) = s_clsid (slab_rebal s) \<and> d_clsid (slab_rebal t) = d_clsid (slab_rebal s) \<and> slab_rebalance_signal t = slab_rebalance_signal s"

definition cleared_from :: "(bytes \<Rightarrow> uint32) \<Rightarrow> (addr \<Rightarrow> nat) \<Rightarrow> nat \<Rightarrow> 'a mover_scheme \<Rightarrow> 'a mover_scheme \<Rightarrow> bool" where
  "cleared_from hash R c s t \<longleftrightarrow> (\<forall>m Q F H. mover_inv hash s m Q F H R c \<longrightarrow>
    (\<exists>m' Q' F' H'. mover_inv hash t m' Q' F' H' R c \<and> run_items m m' s t)) \<and> same_classes s t"

definition move_todo :: "'a mover_scheme \<Rightarrow> nat" where
  "move_todo s = (if rb_done (slab_rebal s) \<noteq> 0 then 0 else page_count s - move_offset s)"

abbreviation mover_step :: "(bytes \<Rightarrow> uint32) \<Rightarrow> 'a mover_scheme \<Rightarrow> 'a mover_scheme option" where
  "mover_step hash s \<equiv> map_option fst (slab_rebalance_move hash s)"

abbreviation mover_done :: "'a mover_scheme \<Rightarrow> bool" where
  "mover_done s \<equiv> rb_done (slab_rebal s) \<noteq> 0"

lemma clearing_step:
  assumes g: "clearing hash R c s" and nd: "\<not> mover_done s"
  shows "\<exists>t. mover_step hash s = Some t \<and> clearing hash R c t \<and> move_todo t < move_todo s \<and> cleared_from hash R c s t"
proof -
  obtain m Q F H j n where inv: "mover_inv hash s m Q F H R c" and at: "mover_at s j" and b0: "busy_items (slab_rebal s) = 0"
    and q: "quiet c m F R s" and n: "trylock_supply s = replicate n True" "page_count s \<le> n + j"
    using g nd unfolding clearing_def by auto
  have j: "j < page_count s" and pos: "slab_pos (slab_rebal s) = page_chunk s j" using at by (simp_all add: mover_at_def)
  have ii: "items_inv hash s m Q F H R" and p: "move_place c s" using inv by (simp_all add: mover_inv_def)
  have tj: "move_todo s = page_count s - j" using nd move_offset_chunk [OF items_invD(4) [OF ii] p pos] by (simp add: move_todo_def)
  from move_step_all [OF inv at] obtain t t' busy m' Q' F' H' where st: "slab_rebalance_move hash s = Some (advance t', busy)"
    and res: "move_result hash c (page_chunk s j) j m R F s t t' busy" and inv': "mover_inv hash (advance t') m' Q' F' H' R c"
    and ht: "heap (advance t') = heap t" and sf: "step_frame c (page_chunk s j) m R F F' s (advance t')"
    and sc: "step_contents c (page_chunk s j) m m' R F s (advance t')"
    and ps: "if Suc j < page_count s then mover_at (advance t') (Suc j)
     else if busy_items (slab_rebal t') \<noteq> 0 then mover_at (advance t') 0
     else rb_done (slab_rebal (advance t')) = 1 \<and> page_cleared (advance t')"
    and bi: "busy_items (slab_rebal t') = busy_items (slab_rebal s) + (if busy then 1 else 0)"
    and pc: "\<And>i. page_chunk (advance t') i = page_chunk s i" "page_count (advance t') = page_count s" by blast
  let ?t = "advance t'" and ?a = "page_chunk s j"
  have n0: "0 < n" using n(2) j by simp
  have "?a \<in> set (F c) \<or> it_flags (heap s ?a) = CLEARED \<or> ?a \<in> ran m \<and> R ?a = 0" using q j by (auto simp: quiet_def Let_def)
  then have nb: "\<not> busy" and "\<exists>n' \<ge> n - 1. trylock_supply t = replicate n' True" using res n(1) n0 unfolding move_result_def by blast+
  then obtain n' where n': "n' \<ge> n - 1" "trylock_supply t = replicate n' True" by blast
  have "t' \<in> {t, set_completed j t}" using res nb by (simp add: move_result_def)
  then have ts: "trylock_supply ?t = replicate n' True" using n'(2) by (auto simp: advance_fields set_completed_def)
  have b1: "busy_items (slab_rebal t') = 0" using bi nb b0 by simp
  have q': "quiet c m' F' R ?t"
    unfolding quiet_def Let_def
  proof (intro allI impI)
    fix i assume "i < page_count ?t"
    then have i: "i < page_count s" using pc(2) by simp
    let ?b = "page_chunk s i"
    have pg: "?b \<in> move_page s" using move_placeD(6) [OF items_invD(4) [OF ii] p i] .
    have "?b \<in> set (F' c) \<or> it_flags (heap ?t ?b) = CLEARED \<or> ?b \<in> ran m' \<and> R ?b = 0"
    proof (cases "it_flags (heap s ?b) = CLEARED")
      case True
      then show ?thesis using cleared_kept [OF inv i _ sf] by simp
    next
      case False
      then consider "?b \<in> set (F c)" | "?b \<in> ran m" "R ?b = 0" using q i by (auto simp: quiet_def Let_def)
      then show ?thesis
      proof cases
        case 1
        then show ?thesis using sf pg unfolding step_frame_def by blast
      next
        case 2
        show ?thesis
        proof (cases "?b = ?a")
          case True
          have "it_flags (heap t ?a) = CLEARED" using res nb by (simp add: move_result_def)
          then show ?thesis using True ht by simp
        next
          case ne: False
          obtain k where k: "m k = Some ?b" using 2(1) by (auto simp: ran_def)
          then have "m' k = Some ?b" using sc ne by (simp add: step_contents_def)
          then show ?thesis using 2(2) by (auto simp: ran_def)
        qed
      qed
    qed
    then show "page_chunk ?t i \<in> set (F' c) \<or> it_flags (heap ?t (page_chunk ?t i)) = CLEARED \<or> page_chunk ?t i \<in> ran m' \<and> R (page_chunk ?t i) = 0"
      using pc(1) by simp
  qed
  have ii': "items_inv hash ?t m' Q' F' H' R" and p': "move_place c ?t" using inv' by (simp_all add: mover_inv_def)
  have good: "clearing hash R c ?t \<and> move_todo ?t < move_todo s"
  proof (cases "Suc j < page_count s")
    case True
    then have at': "mover_at ?t (Suc j)" using ps by simp
    have nd': "\<not> mover_done ?t" and pos': "slab_pos (slab_rebal ?t) = page_chunk ?t (Suc j)" and bt: "busy_items (slab_rebal ?t) = 0"
      using at' b1 by (simp_all add: mover_at_def advance_def Let_def)
    have "move_todo ?t = page_count s - Suc j"
      using nd' move_offset_chunk [OF items_invD(4) [OF ii'] p' pos'] pc(2) by (simp add: move_todo_def)
    then have "move_todo ?t < move_todo s" using tj j by simp
    moreover have "page_count ?t \<le> n' + Suc j" using n(2) n'(1) pc(2) n0 by simp
    with at' bt q' ts have "\<exists>j n. mover_at ?t j \<and> busy_items (slab_rebal ?t) = 0 \<and> quiet c m' F' R ?t \<and> trylock_supply ?t = replicate n True \<and> page_count ?t \<le> n + j"
      by blast
    then have "clearing hash R c ?t" using inv' nd' unfolding clearing_def by metis
    ultimately show ?thesis by simp
  next
    case False
    then have d: "rb_done (slab_rebal ?t) = 1" "page_cleared ?t" using ps b1 by simp_all
    then have "clearing hash R c ?t" using inv' unfolding clearing_def by auto
    moreover have "move_todo ?t < move_todo s" using d(1) tj j by (simp add: move_todo_def)
    ultimately show ?thesis by simp
  qed
  have mp: "same_classes s ?t"
    using res by (auto simp: move_result_def same_move_def cursor_def mark_fields same_classes_def advance_fields split: if_splits)
  have "cleared_from hash R c s ?t"
    unfolding cleared_from_def
  proof (intro conjI allI impI)
    fix m1 Q1 F1 H1 assume i1: "mover_inv hash s m1 Q1 F1 H1 R c"
    from move_step_all [OF i1 at] obtain t2 m2 Q2 F2 H2 where s2: "slab_rebalance_move hash s = Some (advance t2, busy)"
      "mover_inv hash (advance t2) m2 Q2 F2 H2 R c" "step_frame c ?a m1 R F1 F2 s (advance t2)" "step_contents c ?a m1 m2 R F1 s (advance t2)"
      using st by auto
    have e: "advance t2 = ?t" using s2(1) st by simp
    have "?a \<in> move_page s" using move_placeD(6) [OF items_invD(4) [OF ii] p j] .
    then have "run_items m1 m2 s ?t" using moved_run [OF contents_moved [OF s2(3,4)]] e by simp
    then show "\<exists>m' Q' F' H'. mover_inv hash ?t m' Q' F' H' R c \<and> run_items m1 m' s ?t" using s2(2) e by auto
  qed (fact mp)
  with st good show ?thesis by auto
qed

lemma cleared_from_refl: "cleared_from hash R c s s"
  using run_items_refl by (auto simp: cleared_from_def same_classes_def)

lemma cleared_from_trans: "\<lbrakk>cleared_from hash R c s t; cleared_from hash R c t u\<rbrakk> \<Longrightarrow> cleared_from hash R c s u"
proof -
  assume st: "cleared_from hash R c s t" and tu: "cleared_from hash R c t u"
  have mp: "move_page t = move_page s" using st by (simp add: cleared_from_def same_classes_def move_page_def)
  have "\<exists>m' Q' F' H'. mover_inv hash u m' Q' F' H' R c \<and> run_items m m' s u" if "mover_inv hash s m Q F H R c" for m Q F H
    using st tu that run_items_trans [OF _ _ mp] unfolding cleared_from_def by metis
  moreover have "same_classes s u" using st tu by (simp add: cleared_from_def same_classes_def)
  ultimately show ?thesis unfolding cleared_from_def by blast
qed

interpretation mover: worker "mover_step hash" mover_done "clearing hash R c" move_todo "cleared_from hash R c" for hash R c
  by unfold_locales (fact clearing_step cleared_from_refl cleared_from_trans)+

section \<open>Properties\<close>

text \<open>A page of two chunks: an item nobody uses, and a cleared chunk. The mover stands at its start.\<close>

definition demo_base :: mover where
  "demo_base = demo_items
      \<lparr>trylock_supply = [True, True], set_stale = False, conn_cas = 0, cas_hits = (\<lambda>_. 0), cas_badval = (\<lambda>_. 0), incr_hits = (\<lambda>_. 0),
       decr_hits = (\<lambda>_. 0), cas_misses = 0, slabs_moved = 0, reassign_rescues = 0, reassign_evictions_nomem = 0, reassign_inline_reclaim = 0,
       reassign_chunk_rescues = 0, reassign_busy_deletes = 0, reassign_busy_items = 0\<rparr>"

definition demo_mover :: mover where
  "demo_mover = upd_rebal (\<lambda>r. r\<lparr>slab_start := 4096, slab_end := 5120, slab_pos := 4096, s_clsid := 1, d_clsid := 0, completed := [0, 0]\<rparr>)
    (mark_cleared 4608 (refcount_decr 4096 demo_base))"

lemma demo_items_heap:
  "nbytes (heap (demo_items z) 4096) = 2" "idata (heap (demo_items z) 4096) = [13, 10]" "it_flags (heap (demo_items z) 4096) = 3"
  "heap (demo_items z) 4608 = item0"
proof -
  have h: "heap (demo_items0 z) = (\<lambda>_. item0)(4096 := demo_item)" by (simp add: demo_items0_def slabs.extend_def rebal.extend_def)
  have k: "[65] = key_of (heap (demo_items0 z) 4096)" by (simp add: h demo_item_def key_of_def)
  note S = do_item_link_state [OF demo_items0_inv _ _ _ k _ refl, simplified, folded demo_items_def]
  show "nbytes (heap (demo_items z) 4096) = 2" "idata (heap (demo_items z) 4096) = [13, 10]" "it_flags (heap (demo_items z) 4096) = 3"
    using arg_cong [OF S(5), of nbytes] arg_cong [OF S(5), of idata] arg_cong [OF S(5), of it_flags]
    by (simp_all add: linked_item_fields) (simp_all add: h demo_item_def)
  show "heap (demo_items z) 4608 = item0" using S(3) [of 4608] by (simp add: h)
qed

lemma demo_base_fields:
  "slab_rebal demo_base = demo_rebal" "slabclass demo_base = slabclass demo_large" "power_largest demo_base = 1" "trylock_supply demo_base = [True, True]"
proof -
  show "slab_rebal demo_base = demo_rebal" "slabclass demo_base = slabclass demo_large" "trylock_supply demo_base = [True, True]"
    unfolding demo_base_def demo_items_def link_fields
    by (simp_all add: demo_items0_def rebal.extend_def slabs.extend_def)
  show "power_largest demo_base = 1" unfolding demo_base_def demo_items_def do_item_link_tables
    by (simp add: demo_items0_def rebal.extend_def slabs.extend_def demo_large_def demo_slabs_def assoc.extend_def)
qed

lemma demo_mover_fields:
  "slab_rebal demo_mover = demo_rebal\<lparr>slab_start := 4096, slab_end := 5120, slab_pos := 4096, s_clsid := 1, d_clsid := 0, completed := [0, 0]\<rparr>"
  "slabclass demo_mover = slabclass demo_large" "power_largest demo_mover = 1" "trylock_supply demo_mover = replicate 2 True"
  "it_flags (heap demo_mover 4608) = CLEARED" "data_ok (heap demo_mover 4096)"
proof -
  show "data_ok (heap demo_mover 4096)"
    unfolding demo_mover_def demo_base_def
    by (simp add: demo_items_heap mark_cleared_fields refcount_decr_def data_ok_def data_len_def has_flag_def)
  have d: "slab_rebal (refcount_decr a s) = slab_rebal s" "slabclass (refcount_decr a s) = slabclass s" "power_largest (refcount_decr a s) = power_largest s"
    "trylock_supply (refcount_decr a s) = trylock_supply s" for a and s :: mover
    by (simp_all add: refcount_decr_def)
  have c: "slabclass (mark_cleared a s) = slabclass s" "power_largest (mark_cleared a s) = power_largest s" for a and s :: mover
    by (simp_all add: mark_cleared_def)
  show "slab_rebal demo_mover = demo_rebal\<lparr>slab_start := 4096, slab_end := 5120, slab_pos := 4096, s_clsid := 1, d_clsid := 0, completed := [0, 0]\<rparr>"
    "slabclass demo_mover = slabclass demo_large" "power_largest demo_mover = 1" "trylock_supply demo_mover = replicate 2 True"
    "it_flags (heap demo_mover 4608) = CLEARED"
    by (simp_all add: demo_mover_def d c mark_cleared_fields demo_base_fields numeral_2_eq_2)
qed

lemma demo_mover_inv:
  "mover_inv demo_hash demo_mover [[65] \<mapsto> 4096] ((\<lambda>_. [])(129 := [4096])) (\<lambda>_. []) demo_H (\<lambda>_. 0) 1"
  "mover_at demo_mover 0" "quiet 1 [[65] \<mapsto> 4096] (\<lambda>_. []) (\<lambda>_. 0) demo_mover" "page_count demo_mover = 2"
proof -
  have i0: "items_inv demo_hash demo_base [[65] \<mapsto> 4096] ((\<lambda>_. [])(129 := [4096])) (\<lambda>_. []) demo_H demo_R"
    unfolding demo_base_def by (rule demo_items_inv)
  from refcount_decr_inv [OF this, of 4096] have i1: "items_inv demo_hash (refcount_decr 4096 demo_base) [[65] \<mapsto> 4096] ((\<lambda>_. [])(129 := [4096])) (\<lambda>_. []) demo_H (demo_R(4096 := 0))"
    by simp
  have "items_inv demo_hash (mark_cleared 4608 (refcount_decr 4096 demo_base)) [[65] \<mapsto> 4096] ((\<lambda>_. [])(129 := [4096])) (\<lambda>_. []) demo_H (demo_R(4096 := 0, 4608 := 0))"
    by (rule mark_cleared_inv [OF i1, where c = 1]) (simp_all add: refcount_decr_def demo_base_fields)
  moreover have "demo_R(4096 := 0, 4608 := 0) = (\<lambda>_. 0)" by auto
  ultimately have ii: "items_inv demo_hash demo_mover [[65] \<mapsto> 4096] ((\<lambda>_. [])(129 := [4096])) (\<lambda>_. []) demo_H (\<lambda>_. 0)"
    by (simp add: demo_mover_def upd_rebal_inv)
  have c1: "sc_size (cls demo_mover 1) = 512" "perslab (cls demo_mover 1) = 2" "slabs_n (cls demo_mover 1) = 1" "slab_list (cls demo_mover 1) = [4096]"
    by (simp_all add: demo_mover_fields demo_large_def demo_slabs_def assoc.extend_def slabclass0_def)
  note r = demo_mover_fields(1) [unfolded demo_rebal_def, simplified]
  have pg: "pages demo_mover 1 = [4096]" "extent demo_mover 1 = 1024" by (simp_all add: pages_def extent_def c1 [simplified])
  show pn: "page_count demo_mover = 2" by (simp add: page_count_def r c1 [simplified])
  have pc: "page_chunk demo_mover i = 4096 + i * 512" for i by (simp add: page_chunk_def chunk_at_def r c1 [simplified])
  have mp: "move_page demo_mover = {4096..<5120}" by (simp add: move_page_def r)
  have pl: "move_place 1 demo_mover" using pg [simplified] by (simp add: move_place_def r demo_mover_fields(3) pn)
  have two: "(\<forall>i < 2. P i) \<longleftrightarrow> P 0 \<and> P 1" for P :: "nat \<Rightarrow> bool" by (auto simp: less_Suc_eq numeral_2_eq_2)
  have "a = 4096 \<or> a = 4608" if "a \<in> demo_H 1" for a using that by simp
  then show "mover_inv demo_hash demo_mover [[65] \<mapsto> 4096] ((\<lambda>_. [])(129 := [4096])) (\<lambda>_. []) demo_H (\<lambda>_. 0) 1"
    using ii pl demo_mover_fields(5,6) by (auto simp: mover_inv_def live_def unowned_ok_def pn r two)
  show "mover_at demo_mover 0" by (simp add: mover_at_def pn pc r)
  show "quiet 1 [[65] \<mapsto> 4096] (\<lambda>_. []) (\<lambda>_. 0) demo_mover"
    using demo_mover_fields(5) by (auto simp: quiet_def Let_def pn pc two)
qed

text \<open>
  C32. A step of the page mover keeps the invariant of the store. Called at any chunk of the page it
  clears, \<^verbatim>\<open>slab_rebalance_move\<close> returns. Whatever it finds there (a free chunk, a cleared one, one whose item
  is locked, in use, dead, or can be moved), table, queues, free lists, reference counts and counters
  stay consistent, and no item is touched but the one in that chunk. That item keeps its place, or its key, value, flags
  and expiration time move to a chunk outside the page, or it is dropped; it is dropped only when it is dead, when no
  chunk outside the page is free, or when it is still in use after a thousand rounds. Afterwards the
  mover stands at the next chunk, or starts over because something was busy, or is done and
  every chunk of the page is cleared.
\<close>

theorem rebalance_move_spec:
  assumes "mover_inv hash s m Q F H R c" "mover_at s j"
  shows "\<exists>s' busy m' Q' F' H'. slab_rebalance_move hash s = Some (s', busy) \<and> mover_inv hash s' m' Q' F' H' R c \<and>
    items_moved c (page_chunk s j) m m' R F s s' \<and>
    (if Suc j < page_count s then mover_at s' (Suc j) else mover_at s' 0 \<or> rb_done (slab_rebal s') = 1 \<and> page_cleared s')"
proof -
  from move_step_all [OF assms] obtain t' busy m' Q' F' H' where st: "slab_rebalance_move hash s = Some (advance t', busy)"
    and inv: "mover_inv hash (advance t') m' Q' F' H' R c" and sf: "step_frame c (page_chunk s j) m R F F' s (advance t')"
    and sc: "step_contents c (page_chunk s j) m m' R F s (advance t')"
    and ps: "if Suc j < page_count s then mover_at (advance t') (Suc j)
     else if busy_items (slab_rebal t') \<noteq> 0 then mover_at (advance t') 0
     else rb_done (slab_rebal (advance t')) = 1 \<and> page_cleared (advance t')" by blast
  have "if Suc j < page_count s then mover_at (advance t') (Suc j)
    else mover_at (advance t') 0 \<or> rb_done (slab_rebal (advance t')) = 1 \<and> page_cleared (advance t')"
    using ps by (auto split: if_splits)
  with st inv contents_moved [OF sf sc] show ?thesis by blast
qed

theorem rebalance_move_spec_witness:
  "\<exists>s' busy m' Q' F' H'. slab_rebalance_move demo_hash demo_mover = Some (s', busy) \<and> mover_inv demo_hash s' m' Q' F' H' (\<lambda>_. 0) 1 \<and>
    items_moved 1 (page_chunk demo_mover 0) [[65] \<mapsto> 4096] m' (\<lambda>_. 0) (\<lambda>_. []) demo_mover s' \<and> mover_at s' 1"
  using rebalance_move_spec [OF demo_mover_inv(1,2)] by (simp add: demo_mover_inv(4))

text \<open>
  The clearing of a page ends. When nobody uses the items of the page, none of its chunks is on the way to
  become an item, and the locks the mover tries are free, then as many steps as the page has chunks
  clear it. The invariant of the store holds at the end, the items of the other pages are where they were, and an
  item of the page is either gone or stored elsewhere with its value. No key appears.
\<close>

theorem page_move_ends:
  assumes "mover_inv hash s m Q F H R c" "mover_at s 0" "quiet c m F R s" "trylock_supply s = replicate n True" "page_count s \<le> n"
  shows "\<exists>t m' Q' F' H'. run_for (mover_step hash) mover_done (page_count s) s = Some t \<and> mover_inv hash t m' Q' F' H' R c \<and>
    page_cleared t \<and> run_items m m' s t \<and> same_classes s t"
proof -
  have b: "busy_items (slab_rebal s) = 0" "\<not> mover_done s" using assms(2) by (simp_all add: mover_at_def unat_eq_zero)
  with assms have "clearing hash R c s" unfolding clearing_def by fastforce
  moreover have "move_todo s \<le> page_count s" by (simp add: move_todo_def)
  ultimately obtain t where t: "run_for (mover_step hash) mover_done (page_count s) s = Some t" "clearing hash R c t" "mover_done t" "cleared_from hash R c s t"
    using mover.run_ends by blast
  have "page_cleared t" using t(2,3) by (auto simp: clearing_def)
  with t(1,4) assms(1) show ?thesis unfolding cleared_from_def by blast
qed

theorem page_move_ends_witness:
  "\<exists>t m' Q' F' H'. run_for (mover_step demo_hash) mover_done 2 demo_mover = Some t \<and> mover_inv demo_hash t m' Q' F' H' (\<lambda>_. 0) 1 \<and>
    page_cleared t \<and> run_items [[65] \<mapsto> 4096] m' demo_mover t \<and> same_classes demo_mover t"
  using page_move_ends [OF demo_mover_inv(1-3) demo_mover_fields(4)] by (simp add: demo_mover_inv(4))

end
