(* ===== verification/Page_Handover.thy ===== *)
theory Page_Handover
  imports Page_Move
begin

text \<open>
  The two ends of a page move: its start, which chooses the oldest page of the source class, and its
  finish, which hands the cleared page to the destination class.
\<close>

section \<open>The invariant of the store when pages change owners\<close>

text \<open>Live items and tables are untouched; what the classes own may change.\<close>

lemma classes_inv:
  assumes inv: "items_inv hash s m Q F H R" and sl: "slab_inv s' F' H'" "no_overflow s'" "power_largest s \<le> power_largest s'"
    and t: "hashpower s' = hashpower s" "primary_hashtable s' = primary_hashtable s" "old_hashtable s' = old_hashtable s"
      "expanding s' = expanding s" "expand_bucket s' = expand_bucket s" "heads s' = heads s" "tails s' = tails s" "lru_sizes s' = lru_sizes s"
      "sizes_bytes s' = sizes_bytes s" "curr_items s' = curr_items s" "curr_bytes s' = curr_bytes s"
    and hp: "\<And>b. b \<in> live m R \<Longrightarrow> heap s' b = heap s b" and HH: "\<And>b c. b \<in> live m R \<Longrightarrow> b \<in> H c \<Longrightarrow> b \<in> H' c"
  shows "items_inv hash s' m Q F' H' R"
proof -
  note I = items_invD [OF inv]
  have lm: "b \<in> live m R" if "b \<in> ran m" for b using that by (simp add: live_def)
  have "assoc_abs hash s' m" by (rule assoc_abs_frame [OF I(1)]) (use t hp lm in auto)
  moreover have "lru_ok s' Q" by (rule lru_ok_frame [OF I(2)]) (use t hp lm I(3) in auto)
  moreover have "item_ok m H' (power_largest s') R b (heap s' b)" if b: "b \<in> live m R" for b
    using I(6) [OF b] hp [OF b] HH [OF b] sl(3) order_trans by (fastforce simp: item_ok_def)
  moreover have "(\<Sum>b \<in> ran m. ITEM_ntotal (heap s' b)) = (\<Sum>b \<in> ran m. ITEM_ntotal (heap s b))"
    by (rule sum.cong) (use hp lm in auto)
  ultimately show ?thesis using I(3,7,8) sl t by (simp add: items_inv_def)
qed

section \<open>Taking the page from its class\<close>

definition take_first :: "nat \<Rightarrow> 'a slabs_scheme \<Rightarrow> 'a slabs_scheme" where
  "take_first src s = upd_cls src (\<lambda>c. c\<lparr>slabs_n := slabs_n c - 1,
     slab_list := map (\<lambda>x. if x < unat (slabs_n (cls s src) - 1) then slab_list c ! (x + 1) else slab_list c ! x) [0..<length (slab_list c)]\<rparr>) s"

lemma hand_over_eq: "hand_over src dst p s = add_page dst p (take_first src s)"
  by (simp add: hand_over_def take_first_def add_page_def Let_def)

lemma take_shift:
  assumes "0 < n" "n \<le> length l"
  shows "take (n - 1) (map (\<lambda>x. if x < n - 1 then l ! (x + 1) else l ! x) [0..<length l]) = tl (take n l)"
  by (rule nth_equalityI) (use assms in \<open>simp_all add: nth_tl\<close>)

text \<open>The page is as long as all pages, wherever its chunks end.\<close>

definition full_page :: "'a slabs_scheme \<Rightarrow> addr \<Rightarrow> bool" where
  "full_page s p \<longleftrightarrow> (\<forall>d \<in> owners s. \<forall>q \<in> set (pages s d). q \<noteq> p \<longrightarrow>
    region p (nat (slab_page_size (settings s))) \<inter> region q (extent s d) = {})"

lemma take_first_inv:
  assumes inv: "slab_inv s F H" and c: "c \<in> {1..power_largest s}" and pg: "pages s c \<noteq> []" "hd (pages s c) = p"
    and held: "chunk_at (unat (sc_size (cls s c))) p ` {..<unat (perslab (cls s c))} \<subseteq> H c" and full: "full_page s p"
  shows "slab_inv (take_first c s) F (H(c := H c - chunk_at (unat (sc_size (cls s c))) p ` {..<unat (perslab (cls s c))}))"
    "fresh_page (owners (take_first c s)) (pages (take_first c s)) (extent (take_first c s)) p (nat (slab_page_size (settings s)))"
    "p \<noteq> NULL" "owners (take_first c s) = owners s" "\<And>d. d \<in> owners s \<Longrightarrow> extent (take_first c s) d = extent s d"
    "\<And>d. pages (take_first c s) d = (if d = c then tl (pages s c) else pages s d)"
proof -
  let ?s = "take_first c s" and ?P = "chunk_at (unat (sc_size (cls s c))) p ` {..<unat (perslab (cls s c))}"
  note k = inv_class [OF inv c]
  have po: "page_ok s" and fo: "free_ok s F" using inv by (simp_all add: slab_inv_def)
  have lw: "list_wf (cls s c)" "c < length (slabclass s)" using page_list_wf [OF inv, of c] c by simp_all
  have c64: "c \<noteq> UNUSED_PAGES" using k(6) by simp
  have pl: "pages s c = take (unat (slabs_n (cls s c))) (slab_list (cls s c))" using c64 by (simp add: pages_def)
  then have n0: "0 < unat (slabs_n (cls s c))" using pg(1) by auto
  have n1: "unat (slabs_n (cls s c) - 1) = unat (slabs_n (cls s c)) - 1" using n0 by (subst unat_minus_le) auto
  have cl: "cls ?s d = (if d = c then (cls s c)\<lparr>slabs_n := slabs_n (cls s c) - 1, slab_list :=
      map (\<lambda>x. if x < unat (slabs_n (cls s c)) - 1 then slab_list (cls s c) ! (x + 1) else slab_list (cls s c) ! x) [0..<length (slab_list (cls s c))]\<rparr>
    else cls s d)" for d
    using lw(2) by (simp add: take_first_def upd_cls_def n1)
  have f: "heap ?s = heap s" "power_largest ?s = power_largest s" "settings ?s = settings s" "malloc_supply ?s = malloc_supply s"
    "length (slabclass ?s) = length (slabclass s)" by (simp_all add: take_first_def)
  have sh: "take (unat (slabs_n (cls s c)) - 1) (map (\<lambda>x. if x < unat (slabs_n (cls s c)) - 1 then slab_list (cls s c) ! (x + 1) else slab_list (cls s c) ! x)
      [0..<length (slab_list (cls s c))]) = tl (pages s c)"
    unfolding pl by (rule take_shift) (use n0 lw(1) in \<open>simp_all add: list_wf_def\<close>)
  show pgs: "pages ?s d = (if d = c then tl (pages s c) else pages s d)" for d
  proof (cases "d = c")
    case True
    have "pages ?s c = tl (pages s c)" unfolding pages_def [of ?s] using c64 sh by (simp add: cl n1)
    then show ?thesis using True by simp
  next
    case False
    then show ?thesis by (simp add: pages_def cl f(4))
  qed
  show ow: "owners ?s = owners s" by (simp add: owners_def f)
  show ex: "extent ?s d = extent s d" for d by (simp add: extent_def cl f(3))
  have dj: "disj_pages (owners s) (pages s) (extent s)" and nn: "NULL \<notin> set (pages s c)" using po k(7) by (simp_all add: page_ok_def)
  have di: "distinct (pages s c)" using dj k(7) by (simp add: disj_pages_def)
  obtain ps where ps: "pages s c = p # ps" using pg by (cases "pages s c") auto
  show "p \<noteq> NULL" using nn ps by auto
  have sub: "distinct (pages ?s d) \<and> set (pages ?s d) \<subseteq> set (pages s d)" if "d \<in> owners s" for d
    using dj that ps by (auto simp: pgs disj_pages_def)
  have exs: "extent ?s = extent s" using ex by auto
  have dj2: "disj_pages (owners ?s) (pages ?s) (extent ?s)" unfolding ow exs by (rule disj_pages_sub [OF dj sub])
  have pq: "p \<notin> set (pages ?s d)" if d: "d \<in> owners s" for d
  proof
    assume "p \<in> set (pages ?s d)"
    then have dc: "d \<noteq> c" and pd: "p \<in> set (pages s d)" using di ps by (auto simp: pgs split: if_splits)
    have "(c, p) \<noteq> (d, p)" using dc by simp
    from disj_pagesD [OF dj k(7) d _ pd this] ps have "region p (extent s c) \<inter> region p (extent s d) = {}" by simp
    moreover have "0 < extent s d"
    proof (cases "d \<in> {1..power_largest s}")
      case False
      then have "d = 0 \<or> d = UNUSED_PAGES" using d by (auto simp: owners_def)
      then show ?thesis using po by (auto simp: page_ok_def extent_def)
    qed (use po in \<open>auto simp: page_ok_def\<close>)
    ultimately show False using k(4) by (auto simp: region_def)
  qed
  show "fresh_page (owners ?s) (pages ?s) (extent ?s) p (nat (slab_page_size (settings s)))"
    unfolding fresh_page_def ow exs
  proof (intro ballI)
    fix d q assume d: "d \<in> owners s" and q: "q \<in> set (pages ?s d)"
    then have "q \<in> set (pages s d)" "q \<noteq> p" using sub pq by auto
    with full d show "region p (nat (slab_page_size (settings s))) \<inter> region q (extent s d) = {}" unfolding full_page_def by blast
  qed
  have chs: "chunks ?s d = (if d = c then chunks s c - ?P else chunks s d)" if d: "d \<in> {1..power_largest s}" for d
  proof (cases "d = c")
    case True
    let ?ch = "\<lambda>q. chunk_at (unat (sc_size (cls s c))) q ` {..<unat (perslab (cls s c))}"
    have "?ch q \<inter> ?P = {}" if "q \<in> set ps" for q
    proof -
      have "(c, p) \<noteq> (c, q)" using that di ps by auto
      from disj_pagesD [OF dj k(7) k(7) _ _ this] ps that have "region p (extent s c) \<inter> region q (extent s c) = {}" by simp
      moreover have "?ch r \<subseteq> region r (extent s c)" for r using chunk_in_region k(1,3) by auto
      ultimately show ?thesis by blast
    qed
    then show ?thesis using True by (auto simp: chunks_def pgs cl ps)
  qed (simp add: chunks_def pgs cl)
  have "free_ok ?s F" using fo by (auto simp: free_ok_def class_ok_def free_list_def f cl)
  moreover have "page_ok ?s"
  proof -
    have "list_wf (cls ?s d)" if "d \<in> {0..power_largest s}" for d
      using page_list_wf(1) [OF inv, of d] that by (auto simp: cl list_wf_def n1)
    moreover have "NULL \<notin> set (pages ?s d)" if "d \<in> owners s" for d using po sub [OF that] that by (auto simp: page_ok_def)
    ultimately show ?thesis using po dj2 unfolding page_ok_def ow exs f by blast
  qed
  moreover have "set (F d) \<inter> (H(c := H c - ?P)) d = {} \<and> set (F d) \<union> (H(c := H c - ?P)) d = chunks ?s d" if d: "d \<in> {1..power_largest s}" for d
    using inv_class(8,9) [OF inv d] held by (auto simp: chs [OF d])
  ultimately show "slab_inv ?s F (H(c := H c - ?P))" by (simp add: slab_inv_def f)
qed

section \<open>The destination\<close>

lemma upd_cls_twist:
  assumes "f \<circ> g = g \<circ> f"
  shows "upd_cls c f (upd_cls d g s) = upd_cls d g (upd_cls c f s)"
proof (cases "c = d \<and> c < length (slabclass s)")
  case True
  then show ?thesis using fun_cong [OF assms, of "cls s c"] by (simp add: upd_cls_def)
next
  case False
  then show ?thesis by (cases "c = d") (simp_all add: upd_cls_def list_update_swap list_update_beyond)
qed

text \<open>Entering the page in the list and cutting it into chunks commute.\<close>

lemma push_add_page: "freelist_push c a (add_page d p s) = add_page d p (freelist_push c a s)"
proof -
  have sl: "sc_slots (cls (add_page d p s) c) = sc_slots (cls s c)"
    by (cases "d < length (slabclass s)") (auto simp: add_page_def upd_cls_def nth_update_if list_update_beyond)
  have up: "upd_item b f (upd_cls d g t) = upd_cls d g (upd_item b f t)" for b f g and t :: "'a slabs_scheme"
    by (simp add: upd_cls_def)
  have tw: "upd_cls c (\<lambda>p. p\<lparr>sc_slots := a, sl_curr := sl_curr p + 1\<rparr>) (add_page d p t) =
    add_page d p (upd_cls c (\<lambda>p. p\<lparr>sc_slots := a, sl_curr := sl_curr p + 1\<rparr>) t)" for t :: "'a slabs_scheme"
    unfolding add_page_def by (rule upd_cls_twist) (simp add: fun_eq_iff)
  show ?thesis
    unfolding freelist_push_def Let_def by (simp add: sl tw [symmetric]) (simp add: add_page_def upd_cls_def)
qed

lemma split_add_page:
  assumes "\<forall>i < n. \<not> has_flag ITEM_CHUNKED (heap s (a + i * unat (sc_size (cls s c))))" "c \<in> {1..power_largest s}" "0 < unat (sc_size (cls s c))"
    "c < length (slabclass s)"
  shows "split_loop n a c (add_page d p s) = map_option (add_page d p) (split_loop n a c s)"
  using assms
proof (induction n arbitrary: a s)
  case (Suc n)
  let ?sz = "unat (sc_size (cls s c))"
  let ?t = "freelist_push c a (upd_item a (\<lambda>i. i\<lparr>it_flags := ITEM_SLABBED, slabs_clsid := of_nat c\<rparr>) s)"
  have f0: "\<not> has_flag ITEM_CHUNKED (heap s a)" using Suc.prems(1) by auto
  have c0: "\<not> (c < POWER_SMALLEST \<or> c > power_largest s)" using Suc.prems(2) by auto
  have fr: "do_slabs_free a c s = Some ?t" using f0 c0 by (simp add: do_slabs_free_def)
  have up: "upd_item a f (add_page d p s) = add_page d p (upd_item a f s)" for f by (simp add: add_page_def upd_cls_def)
  have "do_slabs_free a c (add_page d p s) = Some (freelist_push c a (upd_item a (\<lambda>i. i\<lparr>it_flags := ITEM_SLABBED, slabs_clsid := of_nat c\<rparr>) (add_page d p s)))"
    using f0 c0 by (simp add: do_slabs_free_def add_page_def)
  then have fr': "do_slabs_free a c (add_page d p s) = Some (add_page d p ?t)" unfolding up push_add_page .
  have ct: "sc_size (cls ?t c) = sc_size (cls s c)" using Suc.prems(4) by (simp add: freelist_push_cls)
  have ct': "sc_size (cls (add_page d p ?t) c) = sc_size (cls s c)"
    using ct Suc.prems(4) by (simp add: add_page_def upd_cls_def nth_update_if)
  have fl: "it_flags (heap ?t b) = it_flags (heap s b)" if "b \<noteq> a" for b
    using that by (simp add: freelist_push_heap Let_def)
  have "\<forall>i < n. \<not> has_flag ITEM_CHUNKED (heap ?t (a + ?sz + i * unat (sc_size (cls ?t c))))"
  proof (intro allI impI)
    fix i assume "i < n"
    then have "\<not> has_flag ITEM_CHUNKED (heap s (a + Suc i * ?sz))" using Suc.prems(1) by blast
    then have "\<not> has_flag ITEM_CHUNKED (heap s (a + ?sz + i * ?sz))" by (simp add: add.assoc)
    moreover have "a + ?sz + i * ?sz \<noteq> a" using Suc.prems(3) by simp
    ultimately show "\<not> has_flag ITEM_CHUNKED (heap ?t (a + ?sz + i * unat (sc_size (cls ?t c))))"
      unfolding ct has_flag_def using fl by metis
  qed
  from Suc.IH [OF this] have "split_loop n (a + ?sz) c (add_page d p ?t) = map_option (add_page d p) (split_loop n (a + ?sz) c ?t)"
    using Suc.prems(2-4) ct by simp
  then show ?case unfolding split_loop.simps fr fr' option.case ct ct' .
qed simp

lemma wipe_add_page: "wipe p n (add_page d q s) = add_page d q (wipe p n s)"
  by (simp add: wipe_def add_page_def upd_cls_def cong: if_cong)

lemma finish_page:
  assumes inv: "items_inv hash s m Q F H R" and p: "move_place c s" and cl: "mover_inv hash s m Q F H R c" "page_cleared s"
    and d: "d \<in> {1..power_largest s}" "d \<noteq> c" and full: "full_page s (slab_start (slab_rebal s))"
    and room: "unat (slabs_n (cls s d)) < length (slab_list (cls s d))" "(unat (slabs_n (cls s d)) + 1) * unat (perslab (cls s d)) < 2 ^ 32"
  shows "\<exists>u F' H'. split_slab_page_into_freelist (slab_start (slab_rebal s)) d
      (wipe (slab_start (slab_rebal s)) (nat (slab_page_size (settings s))) (hand_over c d (slab_start (slab_rebal s)) s)) = Some u \<and>
    items_inv hash u m Q F' H' R \<and> pages u c = tl (pages s c) \<and> pages u d = pages s d @ [slab_start (slab_rebal s)] \<and>
    length (F' d) = length (F d) + unat (perslab (cls s d)) \<and> H' d = H d \<and> (\<forall>b \<in> live m R. heap u b = heap s b) \<and>
    settings u = settings s \<and> current_time u = current_time s"
proof -
  let ?p = "slab_start (slab_rebal s)" and ?n = "nat (slab_page_size (settings s))"
  let ?t = "take_first c s" and ?P = "chunk_at (unat (sc_size (cls s c))) (slab_start (slab_rebal s)) ` {..<unat (perslab (cls s c))}"
  let ?H = "H(c := H c - ?P)"
  note I = items_invD [OF inv] note P = move_placeD [OF I(4) p] note k = inv_class [OF I(4) P(1)]
  have st: "pages s c \<noteq> []" "hd (pages s c) = ?p" using p by (auto simp: move_place_def)
  have pc: "?P = page_chunk s ` {..<page_count s}" using P(3,4) by auto
  have held: "x \<in> H c \<and> x \<notin> live m R" if x: "x \<in> ?P" for x
  proof -
    obtain i where i: "i < page_count s" "x = page_chunk s i" using x unfolding pc by auto
    have f: "it_flags (heap s x) = CLEARED" using cl(2) i by (simp add: page_cleared_def)
    show ?thesis by (rule page_chunk_cases [OF cl(1) i(1)]) (use f i(2) in auto)
  qed
  then have hs: "?P \<subseteq> H c" by blast
  note T = take_first_inv [OF I(4) P(1) st hs full]
  have lw: "c < length (slabclass s)" "d < length (slabclass s)" using page_list_wf(2) [OF I(4)] P(1) d(1) by simp_all
  have tf: "heap ?t = heap s" "power_largest ?t = power_largest s" "settings ?t = settings s" "malloc_supply ?t = malloc_supply s"
    "length (slabclass ?t) = length (slabclass s)" by (simp_all add: take_first_def)
  have td: "cls ?t e = cls s e" if "e \<noteq> c" for e using that by (simp add: take_first_def upd_cls_def)
  have dt: "d \<in> {1..power_largest ?t}" using d(1) tf(2) by simp
  have ed: "extent ?t d \<le> ?n" using inv_class(5) [OF I(4) d(1)] T(5) inv_class(7) [OF I(4) d(1)] by simp
  have fr: "fresh_page (owners ?t) (pages ?t) (extent ?t) ?p ?n" by (rule T(2))
  from attach_page [OF T(1) dt T(3) fr ed] room td [OF d(2)] obtain s' F' where
    s': "split_slab_page_into_freelist ?p d (wipe ?p ?n ?t) = Some s'" "slab_inv (add_page d ?p s') F' ?H"
    "lists_only (wipe ?p ?n ?t) s'" "\<And>b. b \<notin> region ?p ?n \<union> all_free ?t F \<Longrightarrow> heap s' b = heap ?t b" by auto
  let ?u = "add_page d ?p s'"
  have sp: "split_slab_page_into_freelist ?p d (wipe ?p ?n (hand_over c d ?p s)) = Some ?u"
  proof -
    have pn: "perslab (cls (add_page d ?p (wipe ?p ?n ?t)) d) = perslab (cls (wipe ?p ?n ?t) d)" "sc_size (cls (wipe ?p ?n ?t) d) = sc_size (cls s d)"
      "perslab (cls (wipe ?p ?n ?t) d) = perslab (cls s d)"
      using lw(2) td [OF d(2)] tf(5) by (simp_all add: add_page_def upd_cls_def)
    have "split_loop (unat (perslab (cls s d))) ?p d (add_page d ?p (wipe ?p ?n ?t)) =
      map_option (add_page d ?p) (split_loop (unat (perslab (cls s d))) ?p d (wipe ?p ?n ?t))"
    proof (rule split_add_page)
      show "\<forall>i < unat (perslab (cls s d)). \<not> has_flag ITEM_CHUNKED (heap (wipe ?p ?n ?t) (?p + i * unat (sc_size (cls (wipe ?p ?n ?t) d))))"
      proof (intro allI impI)
        fix i assume i: "i < unat (perslab (cls s d))"
        have "chunk_at (unat (sc_size (cls s d))) ?p i \<in> region ?p (extent s d)"
          using chunk_in_region [OF i inv_class(1) [OF I(4) d(1)], of ?p] inv_class(3) [OF I(4) d(1)] by simp
        then have "chunk_at (unat (sc_size (cls s d))) ?p i \<in> region ?p ?n" using inv_class(5) [OF I(4) d(1)] by (auto simp: region_def)
        then show "\<not> has_flag ITEM_CHUNKED (heap (wipe ?p ?n ?t) (?p + i * unat (sc_size (cls (wipe ?p ?n ?t) d))))"
          unfolding pn(2) by (simp add: heap_wipe chunk_at_def item0_def has_flag_def)
      qed
    qed (use dt lw(2) tf(5) inv_class(1) [OF I(4) d(1)] pn(2) in simp_all)
    then show ?thesis using s'(1) unfolding split_slab_page_into_freelist_def hand_over_eq wipe_add_page pn(1,3) by simp
  qed
  note lo = lists_onlyD [OF s'(3)] note li = lists_only_items [OF s'(3), unfolded same_tables_def, simplified]
  have geo: "slabs_n (cls s' e) = slabs_n (cls ?t e) \<and> perslab (cls s' e) = perslab (cls ?t e) \<and> slab_list (cls s' e) = slab_list (cls ?t e)"
    if "e < length (slabclass s)" for e
    using geo_fields [OF lo(9), of e] that tf(5) by simp
  have uc: "cls ?u e = (if e = d then (cls s' d)\<lparr>slab_list := (slab_list (cls s' d))[unat (slabs_n (cls s' d)) := ?p], slabs_n := slabs_n (cls s' d) + 1\<rparr> else cls s' e)" for e
    using lw(2) lo(2) tf(5) by (simp add: add_page_def upd_cls_def)
  have ul: "power_largest ?u = power_largest s" using lo(1) tf(2) by (simp add: add_page_def)
  have n1: "unat (slabs_n (cls s d) + 1) = unat (slabs_n (cls s d)) + 1"
    using room(1) page_list_wf(1) [OF I(4), of d] d(1) unat_bound [of "list_size (cls s d)"] by (subst unat_plus_small) (simp_all add: list_wf_def)
  have nc: "unat (slabs_n (cls ?t c)) \<le> unat (slabs_n (cls s c)) \<and> perslab (cls ?t c) = perslab (cls s c)"
  proof -
    have "0 < unat (slabs_n (cls s c))" using st(1) k(6) by (auto simp: pages_def)
    then have "unat (slabs_n (cls s c) - 1) = unat (slabs_n (cls s c)) - 1" by (subst unat_minus_le) auto
    then show ?thesis using lw(1) by (simp add: take_first_def upd_cls_def)
  qed
  have len: "e < length (slabclass s)" if "e \<in> {1..power_largest s}" for e using page_list_wf(2) [OF I(4)] that by simp
  have no: "no_overflow ?u"
    unfolding no_overflow_def ul
  proof
    fix e assume e: "e \<in> {1..power_largest s}"
    have o: "unat (slabs_n (cls s e)) * unat (perslab (cls s e)) < 2 ^ 32" using I(5) e by (simp add: no_overflow_def)
    consider "e = d" | "e = c" | "e \<noteq> d" "e \<noteq> c" by blast
    then show "unat (slabs_n (cls ?u e)) * unat (perslab (cls ?u e)) < 2 ^ 32"
    proof cases
      case 1 then show ?thesis using geo [OF lw(2)] td [OF d(2)] room(2) n1 by (simp add: uc)
    next
      case 2
      then have "unat (slabs_n (cls ?u e)) \<le> unat (slabs_n (cls s c))" "perslab (cls ?u e) = perslab (cls s c)"
        using geo [OF lw(1)] nc d(2) by (simp_all add: uc)
      from times_less [OF o [unfolded 2] this(1)] this(2) show ?thesis by simp
    next
      case 3 then show ?thesis using geo [OF len [OF e]] td [OF 3(2)] o by (simp add: uc)
    qed
  qed
  have hp: "heap ?u b = heap s b" if b: "b \<in> live m R" for b
  proof -
    let ?e = "unat (ITEM_clsid (heap s b))"
    have e: "?e \<in> {1..power_largest ?t}" "b \<in> ?H ?e" using live_held(3,4) [OF inv b] held b tf(2) by auto
    have "b \<notin> region ?p ?n" using fresh_not_mem [OF T(1) fr held_not_free(2) [OF T(1) e]] .
    moreover have "b \<notin> all_free ?t F" by (rule held_not_free(1) [OF T(1) e])
    ultimately show ?thesis using s'(4) [of b] tf(1) by (simp add: add_page_def)
  qed
  have inv': "items_inv hash ?u m Q F' ?H R"
    by (rule classes_inv [OF inv s'(2) no ul [symmetric, THEN eq_refl] _ _ _ _ _ _ _ _ _ _ _ hp])
      (use li held in \<open>auto simp: add_page_def upd_cls_def take_first_def wipe_def\<close>)
  have du: "d \<in> {1..power_largest ?u}" "d \<noteq> UNUSED_PAGES" using d(1) ul inv_class(6) [OF I(4) d(1)] by simp_all
  have "length (F' d) + card (?H d) = unat (slabs_n (cls ?u d)) * unat (perslab (cls ?u d))" by (rule free_length(1) [OF s'(2) du(1)])
  then have "length (F' d) + card (H d) = (unat (slabs_n (cls s d)) + 1) * unat (perslab (cls s d))"
    using geo [OF lw(2)] td [OF d(2)] n1 d(2) by (simp add: uc)
  moreover have "length (F d) + card (H d) = unat (slabs_n (cls s d)) * unat (perslab (cls s d))" by (rule free_length(1) [OF I(4) d(1)])
  ultimately have fl: "length (F' d) = length (F d) + unat (perslab (cls s d))" by simp
  have pgc: "pages ?u c = tl (pages s c)"
  proof -
    have "pages ?u c = pages ?t c" using geo [OF lw(1)] d(2) k(6) by (simp add: pages_def uc)
    then show ?thesis using T(6) [of c] by simp
  qed
  have pgd: "pages ?u d = pages s d @ [?p]"
    using geo [OF lw(2)] td [OF d(2)] n1 du(2) room(1) by (simp add: pages_def uc take_Suc_update)
  have "settings ?u = settings s" "current_time ?u = current_time s"
    using lo(3) tf(3) li by (simp_all add: add_page_def upd_cls_def take_first_def wipe_def)
  with sp inv' pgc pgd fl hp d(2) show ?thesis by (intro exI [of _ ?u] exI [of _ F'] exI [of _ ?H]) simp
qed

section \<open>The start of a move\<close>

lemma grow_items:
  assumes inv: "items_inv hash s m Q F H R" and d: "d \<le> power_largest s" "unat (slabs_n (cls s d)) < 2 ^ 31" and g: "grow_slab_list d s = (s1, ok)"
  shows "items_inv hash s1 m Q F H R" "slab_rebal s1 = slab_rebal s" "heap s1 = heap s"
proof -
  note G = grow_slab_list_inv [OF items_invD(4) [OF inv] d g]
  have t: "hashpower s1 = hashpower s" "primary_hashtable s1 = primary_hashtable s" "old_hashtable s1 = old_hashtable s"
      "expanding s1 = expanding s" "expand_bucket s1 = expand_bucket s" "heads s1 = heads s" "tails s1 = tails s" "lru_sizes s1 = lru_sizes s"
      "sizes_bytes s1 = sizes_bytes s" "curr_items s1 = curr_items s" "curr_bytes s1 = curr_bytes s" and r: "slab_rebal s1 = slab_rebal s"
    using g by (auto simp: grow_slab_list_def realloc_def Let_def upd_cls_def split: if_splits list.splits)
  have "no_overflow s1" using items_invD(5) [OF inv] G(3,7) by (simp add: no_overflow_def)
  from classes_inv [OF inv G(1) this G(3) [symmetric, THEN eq_refl] t] show "items_inv hash s1 m Q F H R" using G(2) by simp
  show "slab_rebal s1 = slab_rebal s" "heap s1 = heap s" by (fact r, fact G(2))
qed

lemma start_fields:
  assumes g: "grow_slab_list (nat (d_clsid (slab_rebal s))) s = (s1, ok)" and v: "0 \<le> s_clsid (slab_rebal s)" "s_clsid (slab_rebal s) \<le> int (power_largest s)"
      "0 \<le> d_clsid (slab_rebal s)" "d_clsid (slab_rebal s) \<le> int (power_largest s)" and r: "slab_rebal s1 = slab_rebal s"
    and n: "slabs_n (cls s1 (nat (s_clsid (slab_rebal s)))) = slabs_n (cls s (nat (s_clsid (slab_rebal s))))"
  shows "slab_rebalance_start s =
    (let c = nat (s_clsid (slab_rebal s)); q = cls s1 c in
     if slabs_n (cls s c) < 2 then (s1, - 3) else if \<not> ok then (s1, - 1) else if s_clsid (slab_rebal s) = d_clsid (slab_rebal s) then (s1, - 2)
     else ((upd_rebal (\<lambda>r. r\<lparr>slab_start := slab_list q ! 0, slab_end := slab_list q ! 0 + unat (sc_size q * perslab q), slab_pos := slab_list q ! 0,
         rb_done := (if s_clsid r = 0 then 1 else 0), completed := replicate (unat (perslab q)) 0\<rparr>) s1)\<lparr>slab_rebalance_signal := 2, slab_reassign_running := True\<rparr>, 0))"
  using v n by (auto simp: slab_rebalance_start_def Let_def g r)

lemma start_move:
  assumes inv: "items_inv hash s m Q F H R" and v: "s_clsid (slab_rebal s) = int c" "c \<in> {1..power_largest s}" "d_clsid (slab_rebal s) = int d" "d \<le> power_largest s"
    and n: "unat (slabs_n (cls s d)) < 2 ^ 31" and b: "busy_items (slab_rebal s) = 0"
    and ok: "\<forall>a \<in> ran m. R a + 3 < 2 ^ 16 \<and> data_ok (heap s a)" "\<forall>a \<in> H c. a \<notin> live m R \<longrightarrow> unowned_ok (heap s a)"
    and st: "slab_rebalance_start s = (s', 0)"
  shows "mover_inv hash s' m Q F H R c" "mover_at s' 0" "slab_start (slab_rebal s') = hd (pages s c)"
    "unat (slabs_n (cls s' d)) < length (slab_list (cls s' d))" "heap s' = heap s" "trylock_supply s' = trylock_supply s"
    "power_largest s' = power_largest s" "settings s' = settings s" "\<And>e. e \<in> owners s \<Longrightarrow> pages s' e = pages s e"
    "\<And>e. slabs_n (cls s' e) = slabs_n (cls s e) \<and> sc_size (cls s' e) = sc_size (cls s e) \<and> perslab (cls s' e) = perslab (cls s e)"
    "d_clsid (slab_rebal s') = int d"
proof -
  obtain s1 gok where g: "grow_slab_list d s = (s1, gok)" by fastforce
  note G = grow_slab_list_inv [OF items_invD(4) [OF inv] v(4) n g] and GI = grow_items [OF inv v(4) n g]
  have cn: "slabs_n (cls s1 c) = slabs_n (cls s c)" "sc_size (cls s1 c) = sc_size (cls s c)" "perslab (cls s1 c) = perslab (cls s c)" using G(7) by auto
  have gg: "grow_slab_list (nat (d_clsid (slab_rebal s))) s = (s1, gok)" using g v(3) by simp
  note sf = start_fields [OF gg _ _ _ _ GI(2), unfolded v(1,3) Let_def nat_int]
  have vv: "(0::int) \<le> int c" "int c \<le> int (power_largest s)" "(0::int) \<le> int d" "int d \<le> int (power_largest s)" using v by simp_all
  define q where "q = cls s1 c"
  have e0: "slab_rebalance_start s =
     (if slabs_n (cls s c) < 2 then (s1, - 3) else if \<not> gok then (s1, - 1) else if c = d then (s1, - 2)
     else ((upd_rebal (\<lambda>r. r\<lparr>slab_start := slab_list q ! 0, slab_end := slab_list q ! 0 + unat (sc_size q * perslab q), slab_pos := slab_list q ! 0,
         rb_done := (if s_clsid r = 0 then 1 else 0), completed := replicate (unat (perslab q)) 0\<rparr>) s1)\<lparr>slab_rebalance_signal := 2, slab_reassign_running := True\<rparr>, 0))"
    unfolding sf [OF vv cn(1)] q_def [symmetric] by simp
  then have good: "\<not> slabs_n (cls s c) < 2" "gok" and s': "s' = (upd_rebal (\<lambda>r. r\<lparr>slab_start := slab_list q ! 0, slab_end := slab_list q ! 0 + unat (sc_size q * perslab q), slab_pos := slab_list q ! 0,
         rb_done := (if s_clsid r = 0 then 1 else 0), completed := replicate (unat (perslab q)) 0\<rparr>) s1)\<lparr>slab_rebalance_signal := 2, slab_reassign_running := True\<rparr>"
    using st by (auto split: if_splits)
  note k = inv_class [OF items_invD(4) [OF inv] v(2)]
  have rb: "slab_rebal s' = (slab_rebal s)\<lparr>slab_start := slab_list q ! 0, slab_end := slab_list q ! 0 + unat (sc_size q * perslab q), slab_pos := slab_list q ! 0,
         rb_done := 0, completed := replicate (unat (perslab q)) 0\<rparr>"
    using v by (simp add: s' GI(2))
  have sf': "slabclass s' = slabclass s1" "power_largest s' = power_largest s1" "settings s' = settings s1" "heap s' = heap s1" "malloc_supply s' = malloc_supply s1"
    by (simp_all add: s')
  have q: "sc_size q = sc_size (cls s c)" "perslab q = perslab (cls s c)" using cn by (simp_all add: q_def)
  have pg0: "pages s1 c = pages s c" by (rule G(9)) (fact k(7))
  have c64: "c \<noteq> UNUSED_PAGES" using k(6) by simp
  have lw: "list_wf (cls s1 c)" using page_list_wf(1) [OF G(1), of c] v(2) G(3) by simp
  have n2: "0 < unat (slabs_n (cls s c))" using good(1) by (auto simp: word_less_nat_alt)
  have hd: "hd (pages s c) = slab_list q ! 0" "pages s c \<noteq> []"
  proof -
    have p1: "pages s1 c = take (unat (slabs_n (cls s c))) (slab_list q)" using c64 cn(1) by (simp add: pages_def q_def)
    have "slab_list q \<noteq> []" using lw n2 cn(1) unfolding q_def list_wf_def by auto
    then show "hd (pages s c) = slab_list q ! 0" "pages s c \<noteq> []" using n2 unfolding pg0 [symmetric] p1 by (simp_all add: hd_conv_nth)
  qed
  have ps: "extent s c < 2 ^ 32" "extent s c = unat (sc_size (cls s c)) * unat (perslab (cls s c))"
    using k(3,5) items_invD(4) [OF inv] by (auto simp: slab_inv_def page_ok_def)
  then have mul: "unat (sc_size q * perslab q) = extent s c" unfolding q by (simp add: unat_times_small)
  have pc: "page_count s' = unat (perslab (cls s c))" using v(1) cn(3) by (simp add: page_count_def rb sf')
  have pgs: "pages s' c = pages s c" "extent s' c = extent s c"
    using pg0 cn G(4) c64 by (simp_all add: pages_def extent_def sf')
  have "slab_list q ! 0 \<in> set (pages s c)" using hd hd_in_set by metis
  then have mp: "move_place c s'" using v(1,2) hd pgs mul G(3) q(2) by (auto simp: move_place_def rb sf'(2) pc)
  have si: "same_tables s1 s' \<and> curr_items s' = curr_items s1 \<and> curr_bytes s' = curr_bytes s1 \<and> heap s' = heap s1"
    by (simp add: s' same_tables_def upd_rebal_def)
  then have ii: "items_inv hash s' m Q F H R" using same_items_inv [OF GI(1), of s'] by simp
  show "mover_inv hash s' m Q F H R c" using ii mp ok GI(3) by (simp add: mover_inv_def sf'(4) rb pc q)
  show "mover_at s' 0" using k(2) b v(1) by (simp add: mover_at_def pc rb page_chunk_def chunk_at_def)
  show "slab_start (slab_rebal s') = hd (pages s c)" using hd by (simp add: rb)
  show "unat (slabs_n (cls s' d)) < length (slab_list (cls s' d))" using G(8) good(2) by (simp add: sf')
  show "heap s' = heap s" "power_largest s' = power_largest s" "settings s' = settings s" using GI(3) G(3,4) by (simp_all add: sf')
  show "d_clsid (slab_rebal s') = int d" using v(3) by (simp add: rb)
  have "trylock_supply s1 = trylock_supply s"
    using g by (auto simp: grow_slab_list_def realloc_def Let_def upd_cls_def split: if_splits list.splits)
  then show "trylock_supply s' = trylock_supply s" by (simp add: s')
  show "pages s' e = pages s e" if "e \<in> owners s" for e using G(9) [OF that] unfolding pages_def sf' .
  show "slabs_n (cls s' e) = slabs_n (cls s e) \<and> sc_size (cls s' e) = sc_size (cls s e) \<and> perslab (cls s' e) = perslab (cls s e)" for e
    using G(7) [of e] by (simp add: sf')
qed

lemma start_ok:
  assumes inv: "items_inv hash s m Q F H R" and v: "s_clsid (slab_rebal s) = int c" "c \<in> {1..power_largest s}" "d_clsid (slab_rebal s) = int d" "d \<le> power_largest s"
    and n: "unat (slabs_n (cls s d)) < 2 ^ 31" and go: "c \<noteq> d" "2 \<le> slabs_n (cls s c)" "snd (grow_slab_list d s)"
  shows "\<exists>s'. slab_rebalance_start s = (s', 0)"
proof -
  obtain s1 where g: "grow_slab_list d s = (s1, True)" using go(3) by (metis prod.collapse)
  note G = grow_slab_list_inv [OF items_invD(4) [OF inv] v(4) n g] and GI = grow_items [OF inv v(4) n g]
  have gg: "grow_slab_list (nat (d_clsid (slab_rebal s))) s = (s1, True)" using g v(3) by simp
  have vv: "(0::int) \<le> int c" "int c \<le> int (power_largest s)" "(0::int) \<le> int d" "int d \<le> int (power_largest s)" using v by simp_all
  have "slabs_n (cls s1 c) = slabs_n (cls s c)" using G(7) by auto
  from start_fields [OF gg _ _ _ _ GI(2), unfolded v(1,3) nat_int, OF vv this] show ?thesis using go(1,2) by (auto simp: Let_def not_le)
qed

section \<open>The whole move\<close>

lemma same_classes_pages:
  assumes "same_classes s t" "length (slabclass s) = 64" "power_largest s < 64"
  shows "length (slabclass t) = 64" "e < 64 \<Longrightarrow> sc_size (cls t e) = sc_size (cls s e) \<and> perslab (cls t e) = perslab (cls s e) \<and> slabs_n (cls t e) = slabs_n (cls s e) \<and>
      slab_list (cls t e) = slab_list (cls s e)"
    "e \<in> owners s \<Longrightarrow> pages t e = pages s e \<and> extent t e = extent s e" "owners t = owners s"
proof -
  have g: "map geo (slabclass t) = map geo (slabclass s)" using assms(1) by (simp add: same_classes_def)
  then show l: "length (slabclass t) = 64" using assms(2) by (metis length_map)
  show c: "sc_size (cls t e) = sc_size (cls s e) \<and> perslab (cls t e) = perslab (cls s e) \<and> slabs_n (cls t e) = slabs_n (cls s e) \<and>
      slab_list (cls t e) = slab_list (cls s e)" if "e < 64" for e
  proof -
    have "geo (cls t e) = geo (cls s e)" using arg_cong [OF g, of "\<lambda>l. l ! e"] that l assms(2) by simp
    from geo_fields [OF this] show ?thesis by simp
  qed
  show "owners t = owners s" using assms(1) by (simp add: owners_def same_classes_def)
  show "pages t e = pages s e \<and> extent t e = extent s e" if "e \<in> owners s"
    using that c [of e] assms(1,3) by (auto simp: owners_def pages_def extent_def same_classes_def)
qed

lemma finish_run:
  assumes "split_slab_page_into_freelist (slab_start (slab_rebal s)) d
      (wipe (slab_start (slab_rebal s)) (nat (slab_page_size (settings s))) (hand_over c d (slab_start (slab_rebal s)) s)) = Some u"
    and "s_clsid (slab_rebal s) = int c" "d_clsid (slab_rebal s) = int d" "0 < d" and inv: "items_inv hash u m Q F H R"
  shows "\<exists>s'. slab_rebalance_finish s = Some s' \<and> items_inv hash s' m Q F H R \<and> heap s' = heap u \<and> pages s' = pages u \<and>
    slab_rebalance_signal s' = 0 \<and> slab_start (slab_rebal s') = NULL \<and> rb_done (slab_rebal s') = 0 \<and> slabs_moved s' = slabs_moved u + 1"
proof -
  have st: "settings (hand_over c d (slab_start (slab_rebal s)) s) = settings s" by (simp add: hand_over_def Let_def)
  obtain s' where s': "slab_rebalance_finish s = Some s'" and f: "heap s' = heap u \<and> slabclass s' = slabclass u \<and> malloc_supply s' = malloc_supply u \<and>
      same_tables u s' \<and> curr_items s' = curr_items u \<and> curr_bytes s' = curr_bytes u \<and>
      slab_rebalance_signal s' = 0 \<and> slab_start (slab_rebal s') = NULL \<and> rb_done (slab_rebal s') = 0 \<and> slabs_moved s' = slabs_moved u + 1"
    using assms(1-4) by (simp add: slab_rebalance_finish_def Let_def st same_tables_def upd_rebal_def)
  have "items_inv hash s' m Q F H R" using same_items_inv [OF inv, of s'] f by simp
  moreover have "pages s' = pages u" using f by (auto simp: pages_def fun_eq_iff)
  ultimately show ?thesis using s' f by blast
qed

section \<open>The rounds of the mover thread\<close>

text \<open>The thread keeps \<^verbatim>\<open>was_busy\<close> and \<^verbatim>\<open>backoff_timer\<close> from round to round, and waits when no move is asked for.\<close>

abbreviation thread_round :: "(bytes \<Rightarrow> uint32) \<Rightarrow> 'a mover_scheme \<times> bool \<times> int \<Rightarrow> ('a mover_scheme \<times> bool \<times> int) option" where
  "thread_round hash \<equiv> (\<lambda>(s, busy, backoff). map_option (\<lambda>(s', busy', backoff', _). (s', busy', backoff')) (rebalance_round hash s busy backoff))"

abbreviation thread_waits :: "'a mover_scheme \<times> bool \<times> int \<Rightarrow> bool" where
  "thread_waits \<equiv> (\<lambda>(s, _). slab_rebalance_signal s = 0)"

lemma run_for_done: "fin s \<Longrightarrow> run_for f fin n s = Some s"
  by (cases n) auto

lemma rounds_finish:
  assumes "clearing hash R c s" "\<not> mover_done s" "slab_rebalance_signal s = 2" "slab_start (slab_rebal s) \<noteq> NULL"
    "run_for (mover_step hash) mover_done n s = Some t" "slab_rebalance_finish t = Some u" "slab_rebalance_signal u = 0"
  shows "\<exists>b' k'. run_for (thread_round hash) thread_waits n (s, b, k) = Some (u, b', k')"
  using assms
proof (induction n arbitrary: s b k)
  case (Suc n)
  from clearing_step [OF Suc.prems(1,2)] obtain s' where s': "mover_step hash s = Some s'" "clearing hash R c s'" "cleared_from hash R c s s'" by blast
  then obtain busy where mv: "slab_rebalance_move hash s = Some (s', busy)" by auto
  have sc: "slab_rebalance_signal s' = 2" "slab_start (slab_rebal s') \<noteq> NULL"
    using s'(3) Suc.prems(3,4) by (simp_all add: cleared_from_def same_classes_def)
  have rest: "run_for (mover_step hash) mover_done n s' = Some t" using Suc.prems(2,5) s'(1) by simp
  show ?case
  proof (cases "mover_done s'")
    case True
    then have "t = s'" using rest run_for_done [of mover_done s'] by simp
    then have "rebalance_round hash s b k = Some (u, busy, k, 0)"
      using mv True Suc.prems(3,4,6) by (simp add: rebalance_round_def)
    then show ?thesis using run_for_done [of thread_waits "(u, busy, k)"] Suc.prems(3,7) by simp
  next
    case False
    then obtain k' z where "rebalance_round hash s b k = Some (s', busy, k', z)"
      using mv Suc.prems(3,4) by (cases busy) (auto simp: rebalance_round_def)
    then show ?thesis using Suc.IH [OF s'(2) False sc rest Suc.prems(6,7), of busy k'] Suc.prems(3) by simp
  qed
qed simp

text \<open>A move that is asked for and can start: two classes, a page to give, room in the list of the other class.\<close>

definition move_asked :: "nat \<Rightarrow> nat \<Rightarrow> 'a mover_scheme \<Rightarrow> bool" where
  "move_asked c d s \<longleftrightarrow> slab_rebalance_signal s = 1 \<and> s_clsid (slab_rebal s) = int c \<and> d_clsid (slab_rebal s) = int d \<and>
    c \<in> {1..power_largest s} \<and> d \<in> {1..power_largest s} \<and> c \<noteq> d \<and> 2 \<le> slabs_n (cls s c) \<and> busy_items (slab_rebal s) = 0 \<and>
    snd (grow_slab_list d s) \<and> unat (slabs_n (cls s d)) < 2 ^ 31 \<and> (unat (slabs_n (cls s d)) + 1) * unat (perslab (cls s d)) < 2 ^ 32 \<and>
    full_page s (hd (pages s c))"

text \<open>Nobody uses the items of the first page of the class, and none of its chunks is about to become an item.\<close>

definition page_idle :: "nat \<Rightarrow> (bytes \<rightharpoonup> addr) \<Rightarrow> (nat \<Rightarrow> addr list) \<Rightarrow> (addr \<Rightarrow> nat) \<Rightarrow> 'a slabs_scheme \<Rightarrow> bool" where
  "page_idle c m F R s \<longleftrightarrow> (\<forall>i < unat (perslab (cls s c)). let a = chunk_at (unat (sc_size (cls s c))) (hd (pages s c)) i in
    a \<in> set (F c) \<or> it_flags (heap s a) = CLEARED \<or> a \<in> ran m \<and> R a = 0)"

text \<open>What became of the items: those outside the page stay, those of the page are moved with their value, or gone.\<close>

definition items_left :: "addr set \<Rightarrow> (bytes \<rightharpoonup> addr) \<Rightarrow> (bytes \<rightharpoonup> addr) \<Rightarrow> 'a mover_scheme \<Rightarrow> 'a mover_scheme \<Rightarrow> bool" where
  "items_left P m m' s t \<longleftrightarrow> (\<forall>k. case m k of
      None \<Rightarrow> m' k = None
    | Some b \<Rightarrow> if b \<in> P then (case m' k of None \<Rightarrow> True | Some y \<Rightarrow> moved_item (heap t y) (heap s b))
        else m' k = Some b \<and> moved_item (heap t b) (heap s b))"

lemma run_items_left:
  assumes "run_items m m' s t" "\<forall>b \<in> ran m'. heap u b = heap t b" "heap s = heap s0"
  shows "items_left (move_page s) m m' s0 u"
  unfolding items_left_def
proof
  fix k
  note r = assms(1) [unfolded run_items_def, rule_format, of k]
  have h: "m' k = Some y \<Longrightarrow> heap u y = heap t y" for y using assms(2) by (auto simp: ran_def)
  show "case m k of None \<Rightarrow> m' k = None
    | Some b \<Rightarrow> if b \<in> move_page s then (case m' k of None \<Rightarrow> True | Some y \<Rightarrow> moved_item (heap u y) (heap s0 b))
        else m' k = Some b \<and> moved_item (heap u b) (heap s0 b)"
    using r h assms(3) by (cases "m k"; cases "m' k"; simp split: if_splits)
qed

lemma start_idle:
  assumes inv: "items_inv hash s m Q F H R" and ask: "move_asked c d s" and idle: "page_idle c m F R s"
    and ok: "\<forall>a \<in> ran m. R a + 3 < 2 ^ 16 \<and> data_ok (heap s a)" "\<forall>a \<in> H c. a \<notin> live m R \<longrightarrow> unowned_ok (heap s a)"
    and locks: "trylock_supply s = replicate n True" "unat (perslab (cls s c)) \<le> n"
  shows "\<exists>s'. slab_rebalance_start s = (s', 0) \<and> clearing hash R c s' \<and> \<not> mover_done s' \<and> slab_rebalance_signal s' = 2 \<and>
    mover_inv hash s' m Q F H R c \<and> page_count s' = unat (perslab (cls s c)) \<and> slab_start (slab_rebal s') = hd (pages s c) \<and>
    unat (slabs_n (cls s' d)) < length (slab_list (cls s' d)) \<and> heap s' = heap s \<and> power_largest s' = power_largest s \<and>
    settings s' = settings s \<and> (\<forall>e \<in> owners s. pages s' e = pages s e \<and> extent s' e = extent s e) \<and>
    slabs_n (cls s' d) = slabs_n (cls s d) \<and> perslab (cls s' d) = perslab (cls s d) \<and> d_clsid (slab_rebal s') = int d"
proof -
  note A = ask [unfolded move_asked_def]
  have v: "s_clsid (slab_rebal s) = int c" "c \<in> {1..power_largest s}" "d_clsid (slab_rebal s) = int d" "d \<le> power_largest s"
    and n: "unat (slabs_n (cls s d)) < 2 ^ 31" and b: "busy_items (slab_rebal s) = 0" and go: "c \<noteq> d" "2 \<le> slabs_n (cls s c)" "snd (grow_slab_list d s)"
    using A by simp_all
  from start_ok [OF inv v n go] obtain s' where s': "slab_rebalance_start s = (s', 0)" by blast
  note S = start_move [OF inv v n b ok s']
  have sig: "slab_rebalance_signal s' = 2" using s' by (auto simp: slab_rebalance_start_def Let_def split: if_splits prod.splits)
  have ii: "slab_inv s' F H" and p: "move_place c s'" using S(1) by (auto simp: mover_inv_def dest: items_invD(4))
  note P = move_placeD [OF ii p]
  have pc: "page_count s' = unat (perslab (cls s c))" using P(3) S(10) [of c] by simp
  have at: "slab_pos (slab_rebal s') = page_chunk s' 0" "\<not> mover_done s'" "busy_items (slab_rebal s') = 0"
    using S(2) by (simp_all add: mover_at_def unat_eq_zero)
  have "page_chunk s' i = chunk_at (unat (sc_size (cls s c))) (hd (pages s c)) i" for i using P(4) S(3,10) by simp
  then have "quiet c m F R s'" using idle S(5) by (simp add: quiet_def page_idle_def pc)
  then have "clearing hash R c s'" using S(1,2,6) at(2,3) locks pc unfolding clearing_def by fastforce
  moreover have "extent s' e = extent s e" for e using S(7,8,10) by (simp add: extent_def)
  ultimately show ?thesis using s' S at sig pc by simp
qed

lemma move_rounds:
  assumes inv: "items_inv hash s m Q F H R" and ask: "move_asked c d s" and idle: "page_idle c m F R s"
    and ok: "\<forall>a \<in> ran m. R a + 3 < 2 ^ 16 \<and> data_ok (heap s a)" "\<forall>a \<in> H c. a \<notin> live m R \<longrightarrow> unowned_ok (heap s a)"
    and locks: "trylock_supply s = replicate n True" "unat (perslab (cls s c)) \<le> n"
  shows "\<exists>u b' k' m' Q' F' H'. run_for (thread_round hash) thread_waits (Suc (unat (perslab (cls s c)))) (s, b, k) = Some (u, b', k') \<and>
    slab_rebalance_signal u = 0 \<and> items_inv hash u m' Q' F' H' R \<and> pages u c = tl (pages s c) \<and> pages u d = pages s d @ [hd (pages s c)] \<and>
    items_left (region (hd (pages s c)) (extent s c)) m m' s u"
proof -
  from start_idle [OF assms] obtain s1 where s1: "slab_rebalance_start s = (s1, 0)" "clearing hash R c s1" "\<not> mover_done s1" "slab_rebalance_signal s1 = 2"
    "mover_inv hash s1 m Q F H R c" "page_count s1 = unat (perslab (cls s c))" "slab_start (slab_rebal s1) = hd (pages s c)"
    "unat (slabs_n (cls s1 d)) < length (slab_list (cls s1 d))" "heap s1 = heap s" "power_largest s1 = power_largest s"
    "settings s1 = settings s" "\<forall>e \<in> owners s. pages s1 e = pages s e \<and> extent s1 e = extent s e"
    "slabs_n (cls s1 d) = slabs_n (cls s d)" "perslab (cls s1 d) = perslab (cls s d)" "d_clsid (slab_rebal s1) = int d" by blast
  note A = ask [unfolded move_asked_def]
  have c: "c \<in> {1..power_largest s}" and d: "d \<in> {1..power_largest s}" and cd: "c \<noteq> d" using A by simp_all
  have si: "slab_inv s1 F H" and p1: "move_place c s1" using s1(5) by (auto simp: mover_inv_def dest: items_invD(4))
  note P1 = move_placeD [OF si p1]
  have "move_todo s1 \<le> unat (perslab (cls s c))" using s1(6) by (simp add: move_todo_def)
  from mover.run_ends [OF s1(2) this] obtain t where t: "run_for (mover_step hash) mover_done (unat (perslab (cls s c))) s1 = Some t"
    "clearing hash R c t" "mover_done t" "cleared_from hash R c s1 t" by blast
  from t(4) s1(5) obtain m' Q' F' H' where t2: "mover_inv hash t m' Q' F' H' R c" "run_items m m' s1 t" and sc: "same_classes s1 t"
    unfolding cleared_from_def by blast
  have cl: "page_cleared t" using t(2,3) by (auto simp: clearing_def)
  have it: "items_inv hash t m' Q' F' H' R" and pt: "move_place c t" using t2(1) by (simp_all add: mover_inv_def)
  have len: "length (slabclass s1) = 64" "power_largest s1 < 64" using si by (simp_all add: slab_inv_def free_ok_def class_ok_def)
  note C = same_classes_pages [OF sc len]
  have ow: "owners t = owners s" using C(4) s1(10) by (simp add: owners_def)
  have pt': "pages t e = pages s e \<and> extent t e = extent s e" if "e \<in> owners s" for e
    using C(3) [of e] s1(12) that s1(10) by (simp add: owners_def)
  have co: "c \<in> owners s" "d \<in> owners s" using c d by (simp_all add: owners_def)
  have st: "slab_start (slab_rebal t) = hd (pages s c)" and t0: "settings t = settings s" "power_largest t = power_largest s"
      "s_clsid (slab_rebal t) = int c" "d_clsid (slab_rebal t) = int d"
    using sc s1(7,10,11,15) p1 by (simp_all add: same_classes_def move_place_def)
  have full: "full_page t (slab_start (slab_rebal t))"
    using A ow pt' unfolding full_page_def st t0(1) by auto
  have d1: "d < 64" using d s1(10) len(2) by simp
  have room: "unat (slabs_n (cls t d)) < length (slab_list (cls t d))" "(unat (slabs_n (cls t d)) + 1) * unat (perslab (cls t d)) < 2 ^ 32"
    using C(2) [OF d1] s1(8,13,14) A by simp_all
  have dt: "d \<in> {1..power_largest t}" "d \<noteq> c" using d t0(2) cd by simp_all
  from finish_page [OF it pt t2(1) cl dt full room] obtain u F2 H2 where u:
    "split_slab_page_into_freelist (slab_start (slab_rebal t)) d
      (wipe (slab_start (slab_rebal t)) (nat (slab_page_size (settings t))) (hand_over c d (slab_start (slab_rebal t)) t)) = Some u"
    "items_inv hash u m' Q' F2 H2 R" "pages u c = tl (pages t c)" "pages u d = pages t d @ [slab_start (slab_rebal t)]"
    "\<forall>b \<in> live m' R. heap u b = heap t b" by blast
  have "0 < d" using d by simp
  from finish_run [OF u(1) t0(3,4) this u(2)] obtain f where f: "slab_rebalance_finish t = Some f" "items_inv hash f m' Q' F2 H2 R"
    "heap f = heap u" "pages f = pages u" "slab_rebalance_signal f = 0" by blast
  have nn: "slab_start (slab_rebal s1) \<noteq> NULL"
  proof -
    have "slab_start (slab_rebal s1) \<in> set (pages s1 c)" using p1 by (simp add: move_place_def)
    moreover have "NULL \<notin> set (pages s1 c)" using si P1(1) by (simp add: slab_inv_def page_ok_def owners_def)
    ultimately show ?thesis by metis
  qed
  from rounds_finish [OF s1(2-4) nn t(1) f(1,5), of False k] obtain b' k' where
    r: "run_for (thread_round hash) thread_waits (unat (perslab (cls s c))) (s1, False, k) = Some (f, b', k')" by blast
  have "rebalance_round hash s b k = Some (s1, False, k, 0)"
    using A s1(1,3) by (simp add: rebalance_round_def)
  then have "run_for (thread_round hash) thread_waits (Suc (unat (perslab (cls s c)))) (s, b, k) = Some (f, b', k')"
    using r A by simp
  moreover have "items_left (move_page s1) m m' s f"
    by (rule run_items_left [OF t2(2) _ s1(9)]) (use u(5) f(3) in \<open>simp add: live_def\<close>)
  moreover have "move_page s1 = region (hd (pages s c)) (extent s c)" using P1(5) s1(7,12) co(1) by simp
  ultimately show ?thesis using f u(3,4) pt' [OF co(1)] pt' [OF co(2)] st by (metis (no_types, lifting))
qed

section \<open>Property\<close>

text \<open>The page of an idle item and a cleared chunk, asked for by the second class; the first class has another page, all free.\<close>

definition demo_two_pages :: mover where
  "demo_two_pages = (upd_rebal (\<lambda>r. r\<lparr>slab_start := NULL, s_clsid := 1, d_clsid := 2\<rparr>) demo_mover)
     \<lparr>slab_rebalance_signal := 1, power_largest := 2, malloc_supply := [],
      slabclass := slabclass0
        # slabclass0\<lparr>sc_size := 512, perslab := 2, slabs_n := 2, slab_list := [4096, 8192], list_size := 2, sc_slots := 8192, sl_curr := 2\<rparr>
        # slabclass0\<lparr>sc_size := 1024, perslab := 1, slab_list := [NULL], list_size := 1\<rparr> # replicate 61 slabclass0,
      heap := (heap demo_mover)(8192 := item0\<lparr>it_flags := ITEM_SLABBED, slabs_clsid := 1, it_next := 8704\<rparr>,
        8704 := item0\<lparr>it_flags := ITEM_SLABBED, slabs_clsid := 1, it_prev := 8192\<rparr>)\<rparr>"

abbreviation demo_F :: "nat \<Rightarrow> addr list" where "demo_F \<equiv> (\<lambda>_. [])(1 := [8192, 8704])"

lemma demo_two_fields:
  "power_largest demo_two_pages = 2" "length (slabclass demo_two_pages) = 64" "settings demo_two_pages = settings demo_mover"
  "cls demo_two_pages 0 = slabclass0"
  "cls demo_two_pages 1 = slabclass0\<lparr>sc_size := 512, perslab := 2, slabs_n := 2, slab_list := [4096, 8192], list_size := 2, sc_slots := 8192, sl_curr := 2\<rparr>"
  "cls demo_two_pages 2 = slabclass0\<lparr>sc_size := 1024, perslab := 1, slab_list := [NULL], list_size := 1\<rparr>"
  "heap demo_two_pages = (heap demo_mover)(8192 := item0\<lparr>it_flags := ITEM_SLABBED, slabs_clsid := 1, it_next := 8704\<rparr>,
        8704 := item0\<lparr>it_flags := ITEM_SLABBED, slabs_clsid := 1, it_prev := 8192\<rparr>)"
  "slab_rebalance_signal demo_two_pages = 1" "slab_rebal demo_two_pages = (slab_rebal demo_mover)\<lparr>slab_start := NULL, s_clsid := 1, d_clsid := 2\<rparr>"
  "trylock_supply demo_two_pages = replicate 2 True" "malloc_supply demo_two_pages = []"
  by (simp_all add: demo_two_pages_def demo_mover_fields(4))

lemma demo_settings_mover: "settings demo_mover = demo_settings"
  unfolding demo_mover_def demo_base_def demo_items_def
  by (simp add: mark_cleared_def refcount_decr_def do_item_link_tables)
    (simp add: demo_items0_def demo_large_def demo_slabs_def assoc.extend_def slabs.extend_def rebal.extend_def)

lemma demo_two_pages_of:
  "owners demo_two_pages = {0, 1, 2, 64}" "pages demo_two_pages 0 = []" "pages demo_two_pages 1 = [4096, 8192]" "pages demo_two_pages 2 = []"
  "pages demo_two_pages 64 = []" "extent demo_two_pages 0 = 1024" "extent demo_two_pages 1 = 1024" "extent demo_two_pages 2 = 1024"
  "extent demo_two_pages 64 = 1024"
proof -
  note f = demo_two_fields(1,3-6) demo_settings_mover [unfolded demo_settings_def]
  show "owners demo_two_pages = {0, 1, 2, 64}" by (auto simp: owners_def f(1))
  show "pages demo_two_pages 0 = []" "pages demo_two_pages 1 = [4096, 8192]" "pages demo_two_pages 2 = []" "pages demo_two_pages 64 = []"
    using f(1,3-5) demo_two_fields(11) by (simp_all add: pages_def slabclass0_def)
  show "extent demo_two_pages 0 = 1024" "extent demo_two_pages 1 = 1024" "extent demo_two_pages 2 = 1024" "extent demo_two_pages 64 = 1024"
    using f(1,2,4-6) by (simp_all add: extent_def slabclass0_def)
qed

lemma demo_two_slabs: "slab_inv demo_two_pages demo_F demo_H"
proof -
  note f = demo_two_fields note g = demo_two_pages_of note st = demo_settings_mover [unfolded demo_settings_def]
  have two: "c \<in> {1..2} \<longleftrightarrow> c = 1 \<or> c = 2" for c :: nat by auto
  have f1: "free_list demo_two_pages 1 [8192, 8704]"
    unfolding free_list_def f(5,7) by (intro conjI exI [of _ 8704]) (simp_all add: slabclass0_def item0_def)
  have f2: "free_list demo_two_pages 2 []" unfolding free_list_def f(6) by (intro conjI exI [of _ NULL]) (simp_all add: slabclass0_def)
  have fo: "free_ok demo_two_pages demo_F"
  proof -
    have "free_list demo_two_pages c (demo_F c)" if "c \<in> {1..2}" for c
      using that [unfolded two] f1 f2 by (elim disjE) simp_all
    then show ?thesis by (simp add: free_ok_def class_ok_def f(1,2))
  qed
  have dj: "disj_pages (owners demo_two_pages) (pages demo_two_pages) (extent demo_two_pages)"
    unfolding g(1) by (auto simp: disj_pages_def g [unfolded One_nat_def] region_def)
  have ch: "chunks demo_two_pages 1 = {4096, 4608, 8192, 8704}" "chunks demo_two_pages 2 = {}"
  proof -
    have "{..<2::nat} = {0, 1}" by auto
    then show "chunks demo_two_pages 1 = {4096, 4608, 8192, 8704}" using g(3) f(5) by (auto simp: chunks_def chunk_at_def)
    show "chunks demo_two_pages 2 = {}" using g(4) by (simp add: chunks_def)
  qed
  have le2: "c \<in> {0..2} \<longleftrightarrow> c = 0 \<or> c = 1 \<or> c = 2" for c :: nat by auto
  have ps: "slab_page_size (settings demo_two_pages) = 1024" by (simp add: f(3) st)
  have ext: "0 < extent demo_two_pages c \<and> extent demo_two_pages c \<le> nat 1024" if "c \<in> {1..2}" for c
    using that [unfolded two] g(7,8) by (elim disjE) simp_all
  have wf: "list_wf (cls demo_two_pages c)" if "c \<in> {0..2}" for c
    using that [unfolded le2] f(4-6) by (elim disjE) (simp_all add: list_wf_def slabclass0_def)
  have nz: "\<forall>c \<in> owners demo_two_pages. NULL \<notin> set (pages demo_two_pages c)" using g(2-5) by (simp add: g(1))
  have po: "page_ok demo_two_pages"
    unfolding page_ok_def ps f(1) using dj ext wf nz by simp
  have "set (demo_F c) \<inter> demo_H c = {} \<and> set (demo_F c) \<union> demo_H c = chunks demo_two_pages c" if "c \<in> {1..2}" for c
    using that [unfolded two] by (elim disjE) (auto simp: ch [unfolded One_nat_def])
  with fo po show ?thesis by (simp add: slab_inv_def f(1))
qed

lemma demo_two_inv:
  "items_inv demo_hash demo_two_pages [[65] \<mapsto> 4096] ((\<lambda>_. [])(129 := [4096])) demo_F demo_H (\<lambda>_. 0)"
  "move_asked 1 2 demo_two_pages" "page_idle 1 [[65] \<mapsto> 4096] demo_F (\<lambda>_. 0) demo_two_pages"
  "\<forall>a \<in> ran [[65] \<mapsto> 4096]. (\<lambda>_. 0 :: nat) a + 3 < 2 ^ 16 \<and> data_ok (heap demo_two_pages a)"
  "\<forall>a \<in> demo_H 1. a \<notin> live [[65] \<mapsto> 4096] (\<lambda>_. 0) \<longrightarrow> unowned_ok (heap demo_two_pages a)"
proof -
  note f = demo_two_fields
  have i0: "items_inv demo_hash demo_mover [[65] \<mapsto> 4096] ((\<lambda>_. [])(129 := [4096])) (\<lambda>_. []) demo_H (\<lambda>_. 0)"
    using demo_mover_inv(1) by (simp add: mover_inv_def)
  have lv: "live [[65] \<mapsto> 4096] (\<lambda>_. 0 :: nat) = {4096}" by (auto simp: live_def)
  have c12: "c \<in> {1..2} \<longleftrightarrow> c = 1 \<or> c = 2" for c :: nat by auto
  have no: "no_overflow demo_two_pages" unfolding no_overflow_def f(1)
    by (intro ballI, drule c12 [THEN iffD1], elim disjE; simp only: f(5,6)) (simp_all add: slabclass0_def)
  show "items_inv demo_hash demo_two_pages [[65] \<mapsto> 4096] ((\<lambda>_. [])(129 := [4096])) demo_F demo_H (\<lambda>_. 0)"
    by (rule classes_inv [OF i0 demo_two_slabs no]) (use demo_mover_fields(3) f(1) lv in \<open>simp_all add: demo_two_pages_def upd_rebal_def\<close>)
  show "\<forall>a \<in> ran [[65] \<mapsto> 4096]. (\<lambda>_. 0 :: nat) a + 3 < 2 ^ 16 \<and> data_ok (heap demo_two_pages a)"
    using demo_mover_fields(6) by (simp add: f(7))
  show "\<forall>a \<in> demo_H 1. a \<notin> live [[65] \<mapsto> 4096] (\<lambda>_. 0) \<longrightarrow> unowned_ok (heap demo_two_pages a)"
    using demo_mover_fields(5) lv by (simp add: f(7) unowned_ok_def)
  have two: "(\<forall>i < 2. P i) \<longleftrightarrow> P 0 \<and> P 1" for P :: "nat \<Rightarrow> bool" by (auto simp: less_Suc_eq numeral_2_eq_2)
  note c1 = f(5) and g = demo_two_pages_of(3)
  have p1: "unat (perslab (cls demo_two_pages 1)) = 2" "unat (sc_size (cls demo_two_pages 1)) = 512" "hd (pages demo_two_pages 1) = 4096"
    unfolding f(5) g by simp_all
  show "page_idle 1 [[65] \<mapsto> 4096] demo_F (\<lambda>_. 0) demo_two_pages"
    unfolding page_idle_def p1 two Let_def using demo_mover_fields(5) by (simp add: chunk_at_def f(7))
  have fp: "full_page demo_two_pages 4096"
    unfolding full_page_def demo_two_pages_of(1) f(3) demo_settings_mover
    by (simp add: demo_two_pages_of [unfolded One_nat_def] region_def demo_settings_def)
  have g2: "snd (grow_slab_list 2 demo_two_pages)" unfolding grow_slab_list_def f(6) by (simp add: slabclass0_def Let_def)
  have n1: "slabs_n (cls demo_two_pages 1) = 2" unfolding f(5) by simp
  have n2: "slabs_n (cls demo_two_pages 2) = 0" "perslab (cls demo_two_pages 2) = 1" unfolding f(6) by (simp_all add: slabclass0_def)
  have b: "busy_items (slab_rebal demo_two_pages) = 0" using f(9) demo_mover_fields(1) by (simp add: demo_rebal_def)
  show "move_asked 1 2 demo_two_pages"
    unfolding move_asked_def n1 n2 p1(3) by (simp add: f(1,8,9) b [unfolded f(9), simplified] g2 fp)
qed

text \<open>
  C33. A page asked for is handed over. When the mover thread finds a request to give a page of class \<open>c\<close> to class
  \<open>d\<close>, and nobody uses the items of that page, then one round to start and one for every chunk of the page bring the thread back to waiting.
  The page is then the last of class \<open>d\<close> and no longer one of class \<open>c\<close>. Table, queues,
  free lists, reference counts and counters are consistent, the items outside the page are where they
  were with their values, and an item of the page is gone or stored elsewhere with its value.
\<close>

theorem page_move_complete:
  assumes "items_inv hash s m Q F H R" "move_asked c d s" "page_idle c m F R s"
    "\<forall>a \<in> ran m. R a + 3 < 2 ^ 16 \<and> data_ok (heap s a)" "\<forall>a \<in> H c. a \<notin> live m R \<longrightarrow> unowned_ok (heap s a)"
    "trylock_supply s = replicate n True" "unat (perslab (cls s c)) \<le> n"
  shows "\<exists>u b' k' m' Q' F' H'. run_for (thread_round hash) thread_waits (Suc (unat (perslab (cls s c)))) (s, b, k) = Some (u, b', k') \<and>
    slab_rebalance_signal u = 0 \<and> items_inv hash u m' Q' F' H' R \<and> pages u c = tl (pages s c) \<and> pages u d = pages s d @ [hd (pages s c)] \<and>
    items_left (region (hd (pages s c)) (extent s c)) m m' s u"
  by (rule move_rounds [OF assms])

theorem page_move_complete_witness:
  "\<exists>u b' k' m' Q' F' H'. run_for (thread_round demo_hash) thread_waits 3 (demo_two_pages, False, 1) = Some (u, b', k') \<and>
    slab_rebalance_signal u = 0 \<and> items_inv demo_hash u m' Q' F' H' (\<lambda>_. 0) \<and> pages u 1 = [8192] \<and> pages u 2 = [4096] \<and>
    items_left {4096..<5120} [[65] \<mapsto> 4096] m' demo_two_pages u"
proof -
  have p: "unat (perslab (cls demo_two_pages 1)) = 2" unfolding demo_two_fields(5) by simp
  have r: "region 4096 1024 = {4096..<5120}" by (auto simp: region_def)
  have three: "Suc 2 = 3" by simp
  show ?thesis
    by (rule page_move_complete [OF demo_two_inv demo_two_fields(10), of False 1, unfolded p demo_two_pages_of(3,4,7) list.sel append_Nil r three]) simp
qed

end
