(* ===== verification/Stats_Prefix.thy ===== *)
theory Stats_Prefix
  imports Bip_Buffer Itoa_Ljust "HOL-Library.Monad_Syntax"
begin

text \<open>
  Statistics per key prefix, \<^verbatim>\<open>stats_prefix.c\<close>: a hash table of counters, filled by the command handlers when
  detailed statistics are on, and its dump as text. A bucket is the list of its nodes, the last one
  added first; a node is referred to by its bucket and position. The hash function is a parameter, and what
  \<^verbatim>\<open>calloc\<close> and \<^verbatim>\<open>malloc\<close> grant is a supply of answers.
\<close>

section \<open>State\<close>

record PREFIX_STATS =
  pf_prefix :: bytes
  pf_prefix_len :: nat
  num_gets :: uint64
  num_sets :: uint64
  num_deletes :: uint64
  num_hits :: uint64

record prefix_table =
  prefix_stats :: "PREFIX_STATS list list"
  prefix_delimiter :: byte
  num_prefixes :: int
  total_prefix_size :: int
  pf_supply :: "bool list"

abbreviation (input) PREFIX_HASH_SIZE :: nat where "PREFIX_HASH_SIZE \<equiv> 256"

text \<open>A signed 32-bit variable keeps the low 32 bits of what is assigned to it.\<close>

definition int32 :: "int \<Rightarrow> int" where
  "int32 i = sint (word_of_int i :: uint32)"

section \<open>Operations\<close>

definition pf_alloc :: "prefix_table \<Rightarrow> prefix_table \<times> bool" where
  "pf_alloc s = (case pf_supply s of [] \<Rightarrow> (s, False) | b # bs \<Rightarrow> (s\<lparr>pf_supply := bs\<rparr>, b))"

definition stats_prefix_init :: "byte \<Rightarrow> prefix_table \<Rightarrow> prefix_table" where
  "stats_prefix_init delimiter s = s\<lparr>prefix_delimiter := delimiter, prefix_stats := replicate PREFIX_HASH_SIZE []\<rparr>"

definition stats_prefix_clear :: "prefix_table \<Rightarrow> prefix_table" where
  "stats_prefix_clear s = s\<lparr>prefix_stats := map (\<lambda>_. []) (prefix_stats s), num_prefixes := 0, total_prefix_size := 0\<rparr>"

text \<open>The place of the first delimiter, when one comes before the end of the key and before any NUL.\<close>

fun find_delimiter :: "byte \<Rightarrow> bytes \<Rightarrow> nat option" where
  "find_delimiter d [] = None"
| "find_delimiter d (x # xs) = (if x = 0 then None else if x = d then Some 0 else map_option Suc (find_delimiter d xs))"

text \<open>\<^verbatim>\<open>strncmp(a, b, n) == 0\<close>\<close>

primrec strncmp_eq :: "nat \<Rightarrow> bytes \<Rightarrow> bytes \<Rightarrow> bool" where
  "strncmp_eq 0 a b = True"
| "strncmp_eq (Suc n) a b = (cstr_at a 0 = cstr_at b 0 \<and> (cstr_at a 0 = 0 \<or> strncmp_eq n (tl a) (tl b)))"

fun find_node :: "(PREFIX_STATS \<Rightarrow> bool) \<Rightarrow> PREFIX_STATS list \<Rightarrow> nat option" where
  "find_node P [] = None"
| "find_node P (x # xs) = (if P x then Some 0 else map_option Suc (find_node P xs))"

definition pf_new :: "bytes \<Rightarrow> PREFIX_STATS" where
  "pf_new p = \<lparr>pf_prefix = p, pf_prefix_len = length p, num_gets = 0, num_sets = 0, num_deletes = 0, num_hits = 0\<rparr>"

text \<open>The node of the prefix of a key, which is added when there is none.\<close>

definition stats_prefix_find :: "(bytes \<Rightarrow> uint32) \<Rightarrow> bytes \<Rightarrow> prefix_table \<Rightarrow> prefix_table \<times> (nat \<times> nat) option" where
  "stats_prefix_find hash key s =
    (case find_delimiter (prefix_delimiter s) key of None \<Rightarrow> (s, None)
     | Some n \<Rightarrow>
       let hashval = unat (hash (take n key) mod 256)
       in case find_node (\<lambda>pfs. strncmp_eq n (pf_prefix pfs) key) (prefix_stats s ! hashval) of
            Some i \<Rightarrow> (s, Some (hashval, i))
          | None \<Rightarrow>
            let (s1, ok1) = pf_alloc s in
            if \<not> ok1 then (s1, None)
            else let (s2, ok2) = pf_alloc s1 in
              if \<not> ok2 then (s2, None)
              else (s2\<lparr>prefix_stats := (prefix_stats s2)[hashval := pf_new (take n key) # prefix_stats s2 ! hashval],
                       num_prefixes := int32 (num_prefixes s2 + 1), total_prefix_size := int32 (total_prefix_size s2 + int n)\<rparr>, Some (hashval, 0)))"

definition upd_node :: "(nat \<times> nat) option \<Rightarrow> (PREFIX_STATS \<Rightarrow> PREFIX_STATS) \<Rightarrow> prefix_table \<Rightarrow> prefix_table" where
  "upd_node pfs f s = (case pfs of None \<Rightarrow> s
     | Some (b, i) \<Rightarrow> s\<lparr>prefix_stats := (prefix_stats s)[b := (prefix_stats s ! b)[i := f (prefix_stats s ! b ! i)]]\<rparr>)"

definition stats_prefix_record_get :: "(bytes \<Rightarrow> uint32) \<Rightarrow> bytes \<Rightarrow> bool \<Rightarrow> prefix_table \<Rightarrow> prefix_table" where
  "stats_prefix_record_get hash key is_hit s =
    (let (s1, pfs) = stats_prefix_find hash key s
     in upd_node pfs (\<lambda>p. let p1 = p\<lparr>num_gets := num_gets p + 1\<rparr> in if is_hit then p1\<lparr>num_hits := num_hits p1 + 1\<rparr> else p1) s1)"

definition stats_prefix_record_delete :: "(bytes \<Rightarrow> uint32) \<Rightarrow> bytes \<Rightarrow> prefix_table \<Rightarrow> prefix_table" where
  "stats_prefix_record_delete hash key s =
    (let (s1, pfs) = stats_prefix_find hash key s in upd_node pfs (\<lambda>p. p\<lparr>num_deletes := num_deletes p + 1\<rparr>) s1)"

definition stats_prefix_record_set :: "(bytes \<Rightarrow> uint32) \<Rightarrow> bytes \<Rightarrow> prefix_table \<Rightarrow> prefix_table" where
  "stats_prefix_record_set hash key s =
    (let (s1, pfs) = stats_prefix_find hash key s in upd_node pfs (\<lambda>p. p\<lparr>num_sets := num_sets p + 1\<rparr>) s1)"

section \<open>The dump\<close>

text \<open>The format string, with its conversions, and what it prints for a node.\<close>

abbreviation dump_format :: bytes where
  "dump_format \<equiv> ascii ''PREFIX %s get %llu hit %llu set %llu del %llu'' @ [13, 10]"

definition dump_line :: "PREFIX_STATS \<Rightarrow> bytes" where
  "dump_line p = ascii ''PREFIX '' @ pf_prefix p @ ascii '' get '' @ dec (unat (num_gets p)) @ ascii '' hit '' @ dec (unat (num_hits p))
     @ ascii '' set '' @ dec (unat (num_sets p)) @ ascii '' del '' @ dec (unat (num_deletes p)) @ [13, 10]"

text \<open>A write at an offset of the buffer; outside of the buffer it is undefined.\<close>

definition write_at :: "bytes \<Rightarrow> int \<Rightarrow> bytes \<Rightarrow> bytes option" where
  "write_at buf pos txt = (if 0 \<le> pos \<and> nat pos + length txt \<le> length buf then Some (copy_at buf (nat pos) txt) else None)"

text \<open>
  \<^verbatim>\<open>snprintf(buf + pos, size - pos, ...)\<close>, where \<^verbatim>\<open>pos\<close> is an \<^verbatim>\<open>int\<close> and the difference a \<^verbatim>\<open>size_t\<close>
\<close>

definition snprintf_at :: "bytes \<Rightarrow> int \<Rightarrow> uint64 \<Rightarrow> bytes \<Rightarrow> bytes option" where
  "snprintf_at buf pos sz txt =
    (let n = unat (sz - word_of_int pos) in if n = 0 then Some buf else write_at buf pos (take (n - 1) txt @ [0]))"

primrec dump_nodes :: "PREFIX_STATS list \<Rightarrow> uint64 \<Rightarrow> bytes \<times> int \<Rightarrow> (bytes \<times> int) option" where
  "dump_nodes [] sz r = Some r"
| "dump_nodes (p # ps) sz r = do {
     buf \<leftarrow> snprintf_at (fst r) (snd r) sz (dump_line p);
     dump_nodes ps sz (buf, int32 (snd r + int (length (dump_line p))))
   }"

primrec dump_table :: "PREFIX_STATS list list \<Rightarrow> uint64 \<Rightarrow> bytes \<times> int \<Rightarrow> (bytes \<times> int) option" where
  "dump_table [] sz r = Some r"
| "dump_table (b # bs) sz r = do { r1 \<leftarrow> dump_nodes b sz r; dump_table bs sz r1 }"

definition dump_size :: "prefix_table \<Rightarrow> uint64" where
  "dump_size s = word_of_int (int (length dump_format)) + word_of_int (total_prefix_size s) +
     word_of_int (num_prefixes s) * (word_of_int (int (length dump_format)) - 2 + 4 * (20 - 4)) + 6"

text \<open>The buffer and the length reported, or nothing when memory is out.\<close>

definition stats_prefix_dump :: "prefix_table \<Rightarrow> (prefix_table \<times> (bytes \<times> int) option) option" where
  "stats_prefix_dump s =
    (let sz = dump_size s; (s1, ok) = pf_alloc s
     in if \<not> ok then Some (s1, None)
        else do {
          (buf, pos) \<leftarrow> dump_table (prefix_stats s1) sz (replicate (unat sz) 0, 0);
          out \<leftarrow> write_at buf pos (ascii ''END'' @ [13, 10, 0]);
          Some (s1, Some (out, int32 (pos + 5)))
        })"

section \<open>Signed 32-bit variables\<close>

lemma int32_id: "\<lbrakk>- (2 ^ 31) \<le> i; i < 2 ^ 31\<rbrakk> \<Longrightarrow> int32 i = i"
  by (simp add: int32_def sint_sbintrunc' signed_take_bit_int_eq_self)

lemma int32_zero [simp]: "int32 0 = 0"
  by (simp add: int32_def)

lemma int32_nat: "n < 2 ^ 31 \<Longrightarrow> int32 (int n) = int n"
  by (rule int32_id) simp_all

lemma int32_add: "int32 (int32 i + j) = int32 (i + j)" "int32 (int32 i) = int32 i"
  by (simp_all add: int32_def)

lemma int32_diff_add: "int32 (int32 i - j + k) = int32 (i - j + k)"
  using int32_add(1) [of i "k - j"] by (simp add: algebra_simps)


section \<open>The dump fits its buffer\<close>

lemma dec_len: "\<lbrakk>n < 10 ^ k; 0 < k\<rbrakk> \<Longrightarrow> length (dec n) \<le> k"
proof (induction k arbitrary: n)
  case (Suc k)
  show ?case
  proof (cases "n < 10")
    case False
    then have "n div 10 < 10 ^ k" "0 < k" using Suc.prems(1) by (auto simp: less_mult_imp_div_less intro: ccontr)
    from Suc.IH [OF this] show ?thesis using False by (subst dec.simps) simp
  qed (simp add: dec_small)
qed simp

lemma dec_u64: "length (dec (unat (x :: uint64))) \<le> 20"
proof (rule dec_len)
  show "unat x < 10 ^ 20" using unat_bound [of x] by simp
qed simp

lemma dump_line_length: "int (length (dump_line p)) \<le> int (length dump_format) - 2 + 4 * (20 - 4) + int (length (pf_prefix p))"
  using dec_u64 [of "num_gets p"] dec_u64 [of "num_hits p"] dec_u64 [of "num_sets p"] dec_u64 [of "num_deletes p"]
  by (simp add: dump_line_def ascii_def)

lemma copy_at_length [simp]: "p + length src \<le> length d \<Longrightarrow> length (copy_at d p src) = length d"
  by (simp add: copy_at_def)

lemma take_written: "\<lbrakk>n \<le> length src; p \<le> length d\<rbrakk> \<Longrightarrow> take (p + n) (copy_at d p src) = take p d @ take n src"
  by (simp add: copy_at_def)

lemma dump_nodes_append: "dump_nodes (ps @ qs) sz r = Option.bind (dump_nodes ps sz r) (dump_nodes qs sz)"
  by (induction ps arbitrary: r) (auto split: Option.bind_splits)

lemma dump_buckets: "dump_table bs sz r = dump_nodes (concat bs) sz r"
proof (induction bs arbitrary: r)
  case (Cons b bs)
  have "dump_table bs sz = dump_nodes (concat bs) sz" using Cons.IH by (rule ext)
  then show ?case by (simp add: dump_nodes_append)
qed simp

abbreviation dump_text :: "PREFIX_STATS list \<Rightarrow> bytes" where
  "dump_text ps \<equiv> concat (map dump_line ps)"

lemma snprintf_fits:
  assumes "length buf = unat sz" "pos + length txt < unat sz"
  shows "snprintf_at buf (int pos) sz txt = Some (copy_at buf pos (txt @ [0]))"
proof -
  have lt: "pos < 2 ^ 64" using assms(2) unat_bound [of sz] by simp
  then have "unat (of_nat pos :: uint64) = pos" by (simp add: unat_of_nat)
  then have "unat (sz - of_nat pos) = unat sz - pos" using assms(2) by (simp add: unat_minus_le)
  then have "unat (sz - word_of_int (int pos)) = unat sz - pos" by simp
  then show ?thesis using assms by (simp add: snprintf_at_def write_at_def Let_def del: of_int_of_nat_eq)
qed

lemma dump_nodes_fit:
  assumes "length buf = unat sz" "pos + length (dump_text ps) < unat sz" "pos + length (dump_text ps) < 2 ^ 31"
  shows "\<exists>buf'. dump_nodes ps sz (buf, int pos) = Some (buf', int (pos + length (dump_text ps))) \<and> length buf' = unat sz \<and>
    take (pos + length (dump_text ps)) buf' = take pos buf @ dump_text ps"
  using assms
proof (induction ps arbitrary: buf pos)
  case (Cons p ps)
  let ?t = "dump_line p" and ?buf = "copy_at buf pos (dump_line p @ [0])"
  have fit: "pos + length ?t < unat sz" "pos + length ?t + length (dump_text ps) < unat sz" "pos + length ?t + length (dump_text ps) < 2 ^ 31"
    using Cons.prems(2,3) by simp_all
  have l: "length ?buf = unat sz" using fit(1) Cons.prems(1) by simp
  have t: "take (pos + length ?t) ?buf = take pos buf @ ?t" using fit(1) Cons.prems(1) by (subst take_written) simp_all
  have i: "int32 (int pos + int (length ?t)) = int (pos + length ?t)" using int32_nat [of "pos + length ?t"] fit(3) by simp
  have e: "dump_nodes (p # ps) sz (buf, int pos) = dump_nodes ps sz (?buf, int (pos + length ?t))"
    using snprintf_fits [OF Cons.prems(1) fit(1)] i by simp
  from Cons.IH [OF l fit(2,3)] t show ?case unfolding e by (auto simp: add.assoc)
qed simp



text \<open>The counts of the table agree with its nodes.\<close>

definition prefix_ok :: "prefix_table \<Rightarrow> bool" where
  "prefix_ok s \<longleftrightarrow> length (prefix_stats s) = PREFIX_HASH_SIZE \<and> num_prefixes s = int32 (int (length (concat (prefix_stats s)))) \<and>
    total_prefix_size s = int32 (\<Sum>p \<leftarrow> concat (prefix_stats s). int (length (pf_prefix p)))"

lemma dump_text_length:
  "int (length (dump_text ps)) \<le> (\<Sum>p \<leftarrow> ps. int (length (pf_prefix p))) + int (length ps) * (int (length dump_format) - 2 + 4 * (20 - 4))"
proof (induction ps)
  case (Cons p ps)
  then show ?case using dump_line_length [of p] by (simp add: algebra_simps)
qed simp

abbreviation prefix_bytes :: "prefix_table \<Rightarrow> int" where
  "prefix_bytes s \<equiv> (\<Sum>p \<leftarrow> concat (prefix_stats s). int (length (pf_prefix p)))"

lemma dump_size_exact:
  assumes ok: "prefix_ok s" and n: "length (concat (prefix_stats s)) < 2 ^ 31" and z: "prefix_bytes s < 2 ^ 31"
  shows "int (unat (dump_size s)) = int (length dump_format) + prefix_bytes s + int (length (concat (prefix_stats s))) * (int (length dump_format) - 2 + 4 * (20 - 4)) + 6"
proof -
  let ?n = "int (length (concat (prefix_stats s)))" and ?z = "prefix_bytes s"
  have z0: "0 \<le> ?z" by (rule sum_list_nonneg) auto
  have f: "num_prefixes s = ?n" "total_prefix_size s = ?z"
    using ok n z z0 int32_nat [OF n] int32_id [of ?z] by (simp_all add: prefix_ok_def del: length_concat)
  let ?x = "int (length dump_format) + ?z + ?n * (int (length dump_format) - 2 + 4 * (20 - 4)) + 6"
  have "dump_size s = word_of_int ?x" by (simp add: dump_size_def f del: length_concat)
  moreover have "0 \<le> ?x" "?x < 2 ^ 64"
  proof -
    have l: "int (length dump_format) = 47" by (simp add: ascii_def)
    show "0 \<le> ?x" unfolding l using z0 by simp
    have "?n < 2 ^ 31" using n by simp
    then show "?x < 2 ^ 64" unfolding l using z by simp
  qed
  moreover have "uint (word_of_int x :: uint64) = x" if "0 \<le> x" "x < 2 ^ 64" for x using that by (simp add: uint_word_of_int)
  ultimately have "uint (dump_size s) = ?x" by (simp only:)
  then show ?thesis by (simp only: uint_nat)
qed

lemma dump_fits:
  assumes ok: "prefix_ok s" and al: "snd (pf_alloc s)" and n: "length (concat (prefix_stats s)) < 2 ^ 31" "prefix_bytes s < 2 ^ 31"
    and len: "length (dump_text (concat (prefix_stats s))) + 5 < 2 ^ 31"
  shows "\<exists>buf. stats_prefix_dump s = Some (fst (pf_alloc s), Some (buf, int (length (dump_text (concat (prefix_stats s))) + 5))) \<and>
    length buf = unat (dump_size s) \<and> length (dump_text (concat (prefix_stats s))) + 5 < length buf \<and>
    take (length (dump_text (concat (prefix_stats s))) + 5) buf = dump_text (concat (prefix_stats s)) @ ascii ''END'' @ [13, 10]"
proof -
  let ?ps = "concat (prefix_stats s)" and ?sz = "dump_size s"
  obtain s1 where s1: "pf_alloc s = (s1, True)" using al by (cases "pf_alloc s") auto
  have ps: "prefix_stats s1 = prefix_stats s" using s1 by (auto simp: pf_alloc_def split: list.splits)
  have "int (length (dump_text ?ps)) + 6 + int (length dump_format) \<le> int (unat ?sz)"
    using dump_text_length [of ?ps] dump_size_exact [OF ok n] by simp
  then have room: "length (dump_text ?ps) + 6 \<le> unat ?sz" "0 + length (dump_text ?ps) < unat ?sz" by linarith+
  have l31: "0 + length (dump_text ?ps) < 2 ^ 31" using len by simp
  from dump_nodes_fit [of "replicate (unat ?sz) 0", OF _ room(2) l31] obtain b where
    b: "dump_nodes ?ps ?sz (replicate (unat ?sz) 0, 0) = Some (b, int (length (dump_text ?ps)))" "length b = unat ?sz" "take (length (dump_text ?ps)) b = dump_text ?ps" by auto
  let ?fin = "ascii ''END'' @ [13, 10, 0]" and ?out = "copy_at b (length (dump_text ?ps)) (ascii ''END'' @ [13, 10, 0])"
  have le: "length ?fin = 6" "take 5 ?fin = ascii ''END'' @ [13, 10]" by (simp_all add: ascii_def)
  have i: "int32 (int (length (dump_text ?ps)) + 5) = int (length (dump_text ?ps) + 5)" using int32_nat [OF len] by simp
  have w: "write_at b (int (length (dump_text ?ps))) ?fin = Some ?out" using room(1) b(2) le(1) by (simp add: write_at_def)
  have "stats_prefix_dump s = Some (s1, Some (?out, int (length (dump_text ?ps) + 5)))"
    using b(1) w i by (simp add: stats_prefix_dump_def s1 ps dump_buckets Let_def del: length_concat)
  moreover have "length ?out = unat ?sz" using room(1) b(2) le(1) by simp
  moreover have "take (length (dump_text ?ps) + 5) ?out = dump_text ?ps @ ascii ''END'' @ [13, 10]"
    using take_written [of 5 ?fin "length (dump_text ?ps)" b] room(1) b(2,3) le by simp
  ultimately show ?thesis using room(1) s1 by auto
qed

section \<open>The table as a map from prefixes to counters\<close>

datatype prefix_op = Rec_get bytes bool | Rec_set bytes | Rec_delete bytes | Clear

fun prefix_step :: "(bytes \<Rightarrow> uint32) \<Rightarrow> prefix_table \<Rightarrow> prefix_op \<Rightarrow> prefix_table" where
  "prefix_step hash s (Rec_get k hit) = stats_prefix_record_get hash k hit s"
| "prefix_step hash s (Rec_set k) = stats_prefix_record_set hash k s"
| "prefix_step hash s (Rec_delete k) = stats_prefix_record_delete hash k s"
| "prefix_step hash s Clear = stats_prefix_clear s"

text \<open>What an operation counts, and for which key.\<close>

fun op_key :: "prefix_op \<Rightarrow> bytes option" where
  "op_key (Rec_get k _) = Some k"
| "op_key (Rec_set k) = Some k"
| "op_key (Rec_delete k) = Some k"
| "op_key Clear = None"

fun op_count :: "prefix_op \<Rightarrow> PREFIX_STATS \<Rightarrow> PREFIX_STATS" where
  "op_count (Rec_get _ hit) p = p\<lparr>num_gets := num_gets p + 1, num_hits := (if hit then num_hits p + 1 else num_hits p)\<rparr>"
| "op_count (Rec_set _) p = p\<lparr>num_sets := num_sets p + 1\<rparr>"
| "op_count (Rec_delete _) p = p\<lparr>num_deletes := num_deletes p + 1\<rparr>"
| "op_count Clear p = p"

definition key_prefix :: "byte \<Rightarrow> bytes \<Rightarrow> bytes option" where
  "key_prefix d key = map_option (\<lambda>n. take n key) (find_delimiter d key)"

definition op_prefix :: "byte \<Rightarrow> prefix_op \<Rightarrow> bytes option" where
  "op_prefix d opn = Option.bind (op_key opn) (key_prefix d)"

text \<open>The specification: a map from prefixes to their counters.\<close>

definition count_step :: "byte \<Rightarrow> (bytes \<rightharpoonup> PREFIX_STATS) \<Rightarrow> prefix_op \<Rightarrow> (bytes \<rightharpoonup> PREFIX_STATS)" where
  "count_step d m opn = (if opn = Clear then Map.empty
     else (case op_prefix d opn of None \<Rightarrow> m | Some p \<Rightarrow> m(p \<mapsto> op_count opn (case m p of None \<Rightarrow> pf_new p | Some x \<Rightarrow> x))))"

abbreviation bucket_of :: "(bytes \<Rightarrow> uint32) \<Rightarrow> bytes \<Rightarrow> nat" where
  "bucket_of hash p \<equiv> unat (hash p mod 256)"

abbreviation node_map :: "PREFIX_STATS list \<Rightarrow> (bytes \<rightharpoonup> PREFIX_STATS)" where
  "node_map xs \<equiv> map_of (map (\<lambda>x. (pf_prefix x, x)) xs)"

definition pf_map :: "(bytes \<Rightarrow> uint32) \<Rightarrow> prefix_table \<Rightarrow> (bytes \<rightharpoonup> PREFIX_STATS)" where
  "pf_map hash s = (\<lambda>p. node_map (prefix_stats s ! bucket_of hash p) p)"

text \<open>The nodes of a bucket have different prefixes, all of \<open>P\<close> and of this bucket.\<close>

definition table_ok :: "(bytes \<Rightarrow> uint32) \<Rightarrow> bytes set \<Rightarrow> prefix_table \<Rightarrow> bool" where
  "table_ok hash P s \<longleftrightarrow> prefix_ok s \<and> (\<forall>b < PREFIX_HASH_SIZE. distinct (map pf_prefix (prefix_stats s ! b)) \<and>
    (\<forall>x \<in> set (prefix_stats s ! b). pf_prefix x \<in> P \<and> bucket_of hash (pf_prefix x) = b))"

text \<open>No two prefixes of a bucket such that one begins with the other.\<close>

definition unmixed :: "(bytes \<Rightarrow> uint32) \<Rightarrow> bytes set \<Rightarrow> bool" where
  "unmixed hash P \<longleftrightarrow> (\<forall>p \<in> P. \<forall>q \<in> P. bucket_of hash p = bucket_of hash q \<longrightarrow> take (length p) q = p \<longrightarrow> p = q)"

lemma bucket_less [simp]: "bucket_of hash p < PREFIX_HASH_SIZE"
proof -
  have "hash p mod 256 < 256" by (rule word_mod_less_divisor) simp
  then show ?thesis by (simp add: word_less_nat_alt)
qed

lemma find_delimiter_Some:
  "find_delimiter d key = Some n \<Longrightarrow> n < length key \<and> key ! n = d \<and> 0 \<notin> set (take n key) \<and> d \<notin> set (take n key)"
proof (induction key arbitrary: n)
  case (Cons x xs)
  then show ?case by (cases n) (auto split: if_splits)
qed simp

lemma strncmp_take: "\<lbrakk>0 \<notin> set (take n b); n \<le> length b\<rbrakk> \<Longrightarrow> strncmp_eq n a b \<longleftrightarrow> take n a = take n b"
proof (induction n arbitrary: a b)
  case (Suc n)
  then obtain y ys where b: "b = y # ys" by (cases b) auto
  have "y \<noteq> 0" "0 \<notin> set (take n ys)" "n \<le> length ys" using Suc.prems unfolding b by auto
  with Suc.IH [of ys "tl a"] show ?case unfolding b by (cases a) auto
qed simp

lemma find_node_map:
  "distinct (map pf_prefix xs) \<Longrightarrow> case find_node (\<lambda>x. pf_prefix x = p) xs of
     None \<Rightarrow> node_map xs p = None \<and> p \<notin> pf_prefix ` set xs
   | Some i \<Rightarrow> i < length xs \<and> pf_prefix (xs ! i) = p \<and> node_map xs p = Some (xs ! i)"
  by (induction xs) (auto split: option.splits)

lemma find_node_cong: "(\<And>x. x \<in> set xs \<Longrightarrow> P x = Q x) \<Longrightarrow> find_node P xs = find_node Q xs"
  by (induction xs) auto

lemma node_map_update:
  assumes "distinct (map pf_prefix xs)" "i < length xs" "pf_prefix y = pf_prefix (xs ! i)"
  shows "node_map (xs[i := y]) = (node_map xs)(pf_prefix y \<mapsto> y)" "map pf_prefix (xs[i := y]) = map pf_prefix xs"
proof -
  show m: "map pf_prefix (xs[i := y]) = map pf_prefix xs" using assms(2,3) by (simp add: map_update list_update_same_conv)
  show "node_map (xs[i := y]) = (node_map xs)(pf_prefix y \<mapsto> y)"
    using assms
  proof (induction xs arbitrary: i)
    case (Cons x xs)
    then show ?case
    proof (cases i)
      case (Suc j)
      have "pf_prefix y \<in> pf_prefix ` set xs" using Cons.prems Suc by auto
      then have "pf_prefix y \<noteq> pf_prefix x" using Cons.prems(1) by auto
      with Cons.IH [of j] Cons.prems Suc show ?thesis by (auto simp: fun_eq_iff)
    qed auto
  qed simp
qed

lemma concat_sum_update:
  "b < length bs \<Longrightarrow> (\<Sum>x \<leftarrow> concat (bs[b := xs]). (g x :: int)) = (\<Sum>x \<leftarrow> concat bs. g x) - (\<Sum>x \<leftarrow> bs ! b. g x) + (\<Sum>x \<leftarrow> xs. g x)"
proof (induction bs arbitrary: b)
  case (Cons y bs)
  then show ?case by (cases b) auto
qed simp

lemma concat_length_update:
  "b < length bs \<Longrightarrow> int (length (concat (bs[b := xs]))) = int (length (concat bs)) - int (length (bs ! b)) + int (length xs)"
  using concat_sum_update [where g = "\<lambda>_. 1"] by (simp add: sum_list_triv)

lemma bucket_prefix_ok:
  assumes ok: "prefix_ok s" and b: "b < PREFIX_HASH_SIZE" and st: "prefix_stats t = (prefix_stats s)[b := xs]"
    and n: "num_prefixes t = int32 (num_prefixes s - int (length (prefix_stats s ! b)) + int (length xs))"
    and z: "total_prefix_size t = int32 (total_prefix_size s - (\<Sum>p \<leftarrow> prefix_stats s ! b. int (length (pf_prefix p))) + (\<Sum>p \<leftarrow> xs. int (length (pf_prefix p))))"
  shows "prefix_ok t"
proof -
  have "b < length (prefix_stats s)" using ok b by (simp add: prefix_ok_def)
  note concat_sum_update [OF this, where xs = xs and g = "\<lambda>p. int (length (pf_prefix p))"] concat_length_update [OF this, where xs = xs]
  then show ?thesis using ok unfolding prefix_ok_def st n z by (simp add: int32_diff_add del: length_concat)
qed

lemma upd_node_prefix_ok:
  assumes "prefix_ok s" "\<And>x. pf_prefix (f x) = pf_prefix x"
  shows "prefix_ok (upd_node r f s)"
proof (cases "\<exists>b i. r = Some (b, i) \<and> b < PREFIX_HASH_SIZE \<and> i < length (prefix_stats s ! b)")
  case True
  then obtain b i where r: "r = Some (b, i)" "b < PREFIX_HASH_SIZE" "i < length (prefix_stats s ! b)" by blast
  let ?xs = "prefix_stats s ! b"
  have "map pf_prefix (?xs[i := f (?xs ! i)]) = map pf_prefix ?xs" using r(3) assms(2) by (simp add: map_update list_update_same_conv)
  from arg_cong [OF this, of "\<lambda>l. sum_list (map (\<lambda>p. int (length p)) l)"]
  have "(\<Sum>p \<leftarrow> ?xs[i := f (?xs ! i)]. int (length (pf_prefix p))) = (\<Sum>p \<leftarrow> ?xs. int (length (pf_prefix p)))" by (simp add: o_def)
  moreover have "int32 (num_prefixes s) = num_prefixes s" "int32 (total_prefix_size s) = total_prefix_size s"
    using assms(1) by (simp_all add: prefix_ok_def int32_add del: length_concat)
  ultimately show ?thesis by (intro bucket_prefix_ok [OF assms(1) r(2), where xs = "?xs[i := f (?xs ! i)]"]) (simp_all add: r(1) upd_node_def)
next
  case False
  have "(prefix_stats s)[b := (prefix_stats s ! b)[i := x]] = prefix_stats s" if "r = Some (b, i)" for b i x
    using False that assms(1) by (cases "b < PREFIX_HASH_SIZE") (auto simp: prefix_ok_def not_less list_update_beyond)
  then show ?thesis using assms(1) by (cases r) (auto simp: upd_node_def)
qed

lemma find_prefix_ok: "prefix_ok s \<Longrightarrow> prefix_ok (fst (stats_prefix_find hash key s))"
proof -
  assume ok: "prefix_ok s"
  have al: "prefix_ok (fst (pf_alloc t))" if "prefix_ok t" for t using that by (simp add: pf_alloc_def prefix_ok_def split: list.split)
  have new: "prefix_ok (t\<lparr>prefix_stats := (prefix_stats t)[bucket_of hash (take n key) := pf_new (take n key) # prefix_stats t ! bucket_of hash (take n key)],
      num_prefixes := int32 (num_prefixes t + 1), total_prefix_size := int32 (total_prefix_size t + int n)\<rparr>)"
    if "prefix_ok t" "find_delimiter (prefix_delimiter s) key = Some n" for t n
    using find_delimiter_Some [OF that(2)]
    by (intro bucket_prefix_ok [OF that(1) bucket_less [of hash "take n key"], where xs = "pf_new (take n key) # prefix_stats t ! bucket_of hash (take n key)"])
      (simp_all add: pf_new_def)
  show ?thesis
    using ok al [OF ok] al [OF al [OF ok]] new [OF al [OF al [OF ok]]]
    unfolding stats_prefix_find_def Let_def by (auto split: option.split prod.splits)
qed

lemma upd_node_ok:
  assumes ok: "table_ok hash P s" and b: "b < PREFIX_HASH_SIZE" "i < length (prefix_stats s ! b)"
    and f0: "\<And>x. pf_prefix (f x) = pf_prefix x"
  shows "table_ok hash P (upd_node (Some (b, i)) f s)"
    "pf_map hash (upd_node (Some (b, i)) f s) = (pf_map hash s)(pf_prefix (prefix_stats s ! b ! i) \<mapsto> f (prefix_stats s ! b ! i))"
    "prefix_delimiter (upd_node (Some (b, i)) f s) = prefix_delimiter s" "pf_supply (upd_node (Some (b, i)) f s) = pf_supply s"
proof -
  note f = f0 [of "prefix_stats s ! b ! i"]
  let ?xs = "prefix_stats s ! b" and ?y = "f (prefix_stats s ! b ! i)" and ?t = "upd_node (Some (b, i)) f s"
  have l: "length (prefix_stats s) = PREFIX_HASH_SIZE" and d: "distinct (map pf_prefix ?xs)"
    and x: "x \<in> set ?xs \<Longrightarrow> pf_prefix x \<in> P \<and> bucket_of hash (pf_prefix x) = b" for x
    using ok b by (auto simp: table_ok_def prefix_ok_def)
  have st: "prefix_stats ?t = (prefix_stats s)[b := ?xs[i := ?y]]" "num_prefixes ?t = num_prefixes s" "total_prefix_size ?t = total_prefix_size s"
    by (simp_all add: upd_node_def)
  note u = node_map_update [OF d b(2) f]
  have at: "prefix_stats ?t ! c = (if c = b then ?xs[i := ?y] else prefix_stats s ! c)" for c using b(1) l by (simp add: st)
  have "prefix_ok ?t" using upd_node_prefix_ok f0 ok by (simp add: table_ok_def)
  moreover have "distinct (map pf_prefix (prefix_stats ?t ! c)) \<and> (\<forall>x \<in> set (prefix_stats ?t ! c). pf_prefix x \<in> P \<and> bucket_of hash (pf_prefix x) = c)"
    if c: "c < PREFIX_HASH_SIZE" for c
  proof (cases "c = b")
    case True
    have "pf_prefix ?y \<in> P \<and> bucket_of hash (pf_prefix ?y) = b" using x [of "?xs ! i"] b(2) f by simp
    then show ?thesis using True at u(2) d x by (auto dest: set_update_subset_insert [THEN subsetD])
  next
    case False
    then show ?thesis using ok c at by (simp add: table_ok_def)
  qed
  ultimately show "table_ok hash P ?t" by (simp add: table_ok_def)
  have bo: "bucket_of hash (pf_prefix (?xs ! i)) = b" using x [of "?xs ! i"] b(2) by simp
  show "pf_map hash ?t = (pf_map hash s)(pf_prefix (?xs ! i) \<mapsto> ?y)"
  proof
    fix p
    show "pf_map hash ?t p = ((pf_map hash s)(pf_prefix (?xs ! i) \<mapsto> ?y)) p"
      using at [of "bucket_of hash p"] u(1) f bo by (cases "p = pf_prefix (?xs ! i)") (auto simp: pf_map_def)
  qed
  show "prefix_delimiter ?t = prefix_delimiter s" "pf_supply ?t = pf_supply s" by (simp_all add: upd_node_def)
qed

lemma prefix_find_ok:
  assumes ok: "table_ok hash P s" and un: "unmixed hash P" and p: "key_prefix (prefix_delimiter s) key = Some p" "p \<in> P"
    and sup: "pf_supply s = replicate (n + 2) True"
  shows "\<exists>s1 i. stats_prefix_find hash key s = (s1, Some (bucket_of hash p, i)) \<and> table_ok hash P s1 \<and> i < length (prefix_stats s1 ! bucket_of hash p) \<and>
    pf_prefix (prefix_stats s1 ! bucket_of hash p ! i) = p \<and>
    prefix_stats s1 ! bucket_of hash p ! i = (case pf_map hash s p of None \<Rightarrow> pf_new p | Some x \<Rightarrow> x) \<and>
    (\<forall>q. q \<noteq> p \<longrightarrow> pf_map hash s1 q = pf_map hash s q) \<and> prefix_delimiter s1 = prefix_delimiter s \<and> (\<exists>n' \<ge> n. pf_supply s1 = replicate n' True)"
proof -
  let ?b = "bucket_of hash p" and ?xs = "prefix_stats s ! bucket_of hash p"
  obtain l where l: "find_delimiter (prefix_delimiter s) key = Some l" "p = take l key" using p(1) by (auto simp: key_prefix_def)
  note D = find_delimiter_Some [OF l(1)]
  have lp: "length p = l" using D l(2) by simp
  have bl: "?b < PREFIX_HASH_SIZE" by (rule bucket_less)
  have xs: "distinct (map pf_prefix ?xs)" "\<And>x. x \<in> set ?xs \<Longrightarrow> pf_prefix x \<in> P \<and> bucket_of hash (pf_prefix x) = ?b"
    and len: "length (prefix_stats s) = PREFIX_HASH_SIZE" using ok bl unfolding table_ok_def prefix_ok_def by blast+
  have sp: "strncmp_eq l (pf_prefix x) key \<longleftrightarrow> pf_prefix x = p" if x: "x \<in> set ?xs" for x
  proof -
    have "strncmp_eq l (pf_prefix x) key \<longleftrightarrow> take (length p) (pf_prefix x) = p" using strncmp_take [of l key] D l(2) lp by simp
    also have "\<dots> \<longleftrightarrow> pf_prefix x = p" using un xs(2) [OF x] p(2) unfolding unmixed_def by (metis order_refl take_all)
    finally show ?thesis .
  qed
  have fn: "find_node (\<lambda>x. strncmp_eq l (pf_prefix x) key) ?xs = find_node (\<lambda>x. pf_prefix x = p) ?xs"
    by (rule find_node_cong) (rule sp)
  note fm = find_node_map [OF xs(1), of p]
  show ?thesis
  proof (cases "find_node (\<lambda>x. pf_prefix x = p) ?xs")
    case (Some i)
    then have "stats_prefix_find hash key s = (s, Some (?b, i))" using l fn by (simp add: stats_prefix_find_def Let_def)
    moreover have "i < length ?xs" "pf_prefix (?xs ! i) = p" "pf_map hash s p = Some (?xs ! i)" using fm Some by (simp_all add: pf_map_def)
    moreover have "\<exists>n' \<ge> n. pf_supply s = replicate n' True" using sup by (intro exI [of _ "n + 2"]) simp
    ultimately show ?thesis using ok by (intro exI [of _ s] exI [of _ i]) simp
  next
    case None
    then have new: "p \<notin> pf_prefix ` set ?xs" "pf_map hash s p = None" using fm by (simp_all add: pf_map_def)
    let ?t = "s\<lparr>pf_supply := replicate n True, prefix_stats := (prefix_stats s)[?b := pf_new p # ?xs],
      num_prefixes := int32 (num_prefixes s + 1), total_prefix_size := int32 (total_prefix_size s + int l)\<rparr>"
    have e: "stats_prefix_find hash key s = (?t, Some (?b, 0))"
      using l fn None sup by (simp add: stats_prefix_find_def Let_def pf_alloc_def)
    have at: "prefix_stats ?t ! c = (if c = ?b then pf_new p # ?xs else prefix_stats s ! c)" for c using bl len by simp
    have "prefix_ok ?t" using find_prefix_ok [of s hash key] e ok by (simp add: table_ok_def)
    moreover have "distinct (map pf_prefix (prefix_stats ?t ! c)) \<and> (\<forall>x \<in> set (prefix_stats ?t ! c). pf_prefix x \<in> P \<and> bucket_of hash (pf_prefix x) = c)"
      if c: "c < PREFIX_HASH_SIZE" for c
      using ok c xs new(1) p(2) unfolding at by (auto simp: table_ok_def pf_new_def)
    ultimately have "table_ok hash P ?t" by (simp add: table_ok_def)
    moreover have "pf_map hash ?t q = pf_map hash s q" if "q \<noteq> p" for q
      using that at [of "bucket_of hash q"] by (auto simp: pf_map_def pf_new_def)
    ultimately show ?thesis using e at [of ?b] new(2) by (intro exI [of _ ?t] exI [of _ 0]) (auto simp: pf_new_def)
  qed
qed

lemma record_step:
  assumes ok: "table_ok hash P s" and un: "unmixed hash P" and k: "op_key opn = Some k" and p: "key_prefix (prefix_delimiter s) k = Some p" "p \<in> P"
    and sup: "pf_supply s = replicate (n + 2) True"
  shows "table_ok hash P (prefix_step hash s opn)"
    "pf_map hash (prefix_step hash s opn) = (pf_map hash s)(p \<mapsto> op_count opn (case pf_map hash s p of None \<Rightarrow> pf_new p | Some x \<Rightarrow> x))"
    "prefix_delimiter (prefix_step hash s opn) = prefix_delimiter s" "\<exists>n' \<ge> n. pf_supply (prefix_step hash s opn) = replicate n' True"
proof -
  from prefix_find_ok [OF ok un p sup] obtain s1 i where f: "stats_prefix_find hash k s = (s1, Some (bucket_of hash p, i))" "table_ok hash P s1"
    "i < length (prefix_stats s1 ! bucket_of hash p)" "pf_prefix (prefix_stats s1 ! bucket_of hash p ! i) = p"
    "prefix_stats s1 ! bucket_of hash p ! i = (case pf_map hash s p of None \<Rightarrow> pf_new p | Some x \<Rightarrow> x)"
    "\<forall>q. q \<noteq> p \<longrightarrow> pf_map hash s1 q = pf_map hash s q" "prefix_delimiter s1 = prefix_delimiter s" "\<exists>n' \<ge> n. pf_supply s1 = replicate n' True" by blast
  have e: "prefix_step hash s opn = upd_node (Some (bucket_of hash p, i)) (op_count opn) s1"
  proof (cases opn)
    case (Rec_get k' hit)
    have "(\<lambda>p. let p1 = p\<lparr>num_gets := num_gets p + 1\<rparr> in if hit then p1\<lparr>num_hits := num_hits p1 + 1\<rparr> else p1) = op_count (Rec_get k' hit)"
      by (auto simp: Let_def)
    then show ?thesis using f(1) k Rec_get by (simp add: stats_prefix_record_get_def)
  qed (use f(1) k in \<open>auto simp: stats_prefix_record_set_def stats_prefix_record_delete_def intro!: arg_cong [where f = "\<lambda>g. upd_node _ g s1"]\<close>)
  have c: "pf_prefix (op_count opn x) = pf_prefix x" for x by (cases opn) auto
  note u = upd_node_ok [OF f(2) bucket_less [of hash p] f(3), of "op_count opn", OF c, folded e, unfolded f(4)]
  show "table_ok hash P (prefix_step hash s opn)" by (rule u(1))
  show "prefix_delimiter (prefix_step hash s opn) = prefix_delimiter s" "\<exists>n' \<ge> n. pf_supply (prefix_step hash s opn) = replicate n' True"
    using u(3,4) f(7,8) by simp_all
  show "pf_map hash (prefix_step hash s opn) = (pf_map hash s)(p \<mapsto> op_count opn (case pf_map hash s p of None \<Rightarrow> pf_new p | Some x \<Rightarrow> x))"
    unfolding u(2) f(5) using f(6) by (auto simp: fun_eq_iff)
qed

lemma quiet_step:
  assumes "op_key opn = Some k" "key_prefix (prefix_delimiter s) k = None"
  shows "prefix_step hash s opn = s"
proof -
  have "stats_prefix_find hash k s = (s, None)" using assms(2) by (simp add: key_prefix_def stats_prefix_find_def)
  then show ?thesis using assms(1)
    by (cases opn) (simp_all add: stats_prefix_record_get_def stats_prefix_record_set_def stats_prefix_record_delete_def upd_node_def)
qed

lemma clear_ok:
  assumes "prefix_ok s"
  shows "table_ok hash P (stats_prefix_clear s)" "pf_map hash (stats_prefix_clear s) = Map.empty"
  using assms by (auto simp: table_ok_def prefix_ok_def stats_prefix_clear_def pf_map_def fun_eq_iff map_replicate_const concat_replicate_trivial)

lemma prefix_step_refines:
  assumes ok: "table_ok hash P s" and un: "unmixed hash P" and d: "prefix_delimiter s = d" and p: "\<And>p. op_prefix d opn = Some p \<Longrightarrow> p \<in> P"
    and sup: "pf_supply s = replicate (n + 2) True"
  shows "table_ok hash P (prefix_step hash s opn) \<and> pf_map hash (prefix_step hash s opn) = count_step d (pf_map hash s) opn \<and>
    prefix_delimiter (prefix_step hash s opn) = d \<and> (\<exists>n' \<ge> n. pf_supply (prefix_step hash s opn) = replicate n' True)"
proof (cases "op_key opn")
  case None
  then have "opn = Clear" by (cases opn) auto
  moreover have "prefix_ok s" using ok by (simp add: table_ok_def)
  ultimately show ?thesis using clear_ok d sup
    by (auto simp: count_step_def stats_prefix_clear_def intro: exI [of _ "n + 2"])
next
  case (Some k)
  then have nc: "opn \<noteq> Clear" by auto
  show ?thesis
  proof (cases "key_prefix d k")
    case None
    have "\<exists>n' \<ge> n. pf_supply s = replicate n' True" using sup by (intro exI [of _ "n + 2"]) simp
    then show ?thesis using quiet_step [OF Some, of s hash] None ok d nc Some by (simp add: count_step_def op_prefix_def)
  next
    case p': (Some q)
    have op: "op_prefix d opn = Some q" using Some p' by (simp add: op_prefix_def)
    from record_step [OF ok un Some _ p [OF op] sup] p' d nc op show ?thesis by (simp add: count_step_def)
  qed
qed

lemma prefix_run_refines:
  assumes "unmixed hash P" "\<forall>opn \<in> set ops. \<forall>p. op_prefix d opn = Some p \<longrightarrow> p \<in> P" "table_ok hash P s" "prefix_delimiter s = d"
    "pf_supply s = replicate n True" "2 * length ops \<le> n"
  shows "pf_map hash (foldl (prefix_step hash) s ops) = foldl (count_step d) (pf_map hash s) ops"
  using assms(2-)
proof (induction ops arbitrary: s n)
  case (Cons opn ops)
  have "(n - 2) + 2 = n" using Cons.prems(5) by simp
  then have "pf_supply s = replicate ((n - 2) + 2) True" using Cons.prems(4) by (simp only:)
  from prefix_step_refines [OF Cons.prems(2) assms(1) Cons.prems(3) _ this, of opn] Cons.prems(1)
  obtain n' where r: "table_ok hash P (prefix_step hash s opn)" "pf_map hash (prefix_step hash s opn) = count_step d (pf_map hash s) opn"
    "prefix_delimiter (prefix_step hash s opn) = d" "n' \<ge> n - 2" "pf_supply (prefix_step hash s opn) = replicate n' True" by auto
  have "2 * length ops \<le> n'" using r(4) Cons.prems(5) by simp
  from Cons.IH [OF _ r(1,3,5) this] Cons.prems(1) r(2) show ?case by simp
qed simp

lemma step_prefix_ok: "prefix_ok s \<Longrightarrow> prefix_ok (prefix_step hash s opn)"
proof -
  assume ok: "prefix_ok s"
  have "prefix_ok (upd_node r f t)" if "stats_prefix_find hash k s = (t, r)" "\<And>x. pf_prefix (f x) = pf_prefix x" for k r f t
    using upd_node_prefix_ok [of t f r] that find_prefix_ok [OF ok, of hash k] by simp
  then show ?thesis using clear_ok(1) [OF ok, of hash UNIV]
    by (cases opn) (auto simp: stats_prefix_record_get_def stats_prefix_record_set_def stats_prefix_record_delete_def table_ok_def Let_def split: prod.split)
qed

lemma run_prefix_ok: "prefix_ok s \<Longrightarrow> prefix_ok (foldl (prefix_step hash) s ops)"
  by (induction ops arbitrary: s) (simp_all add: step_prefix_ok)

text \<open>The table when the server starts: static variables are zero.\<close>

definition zero_table :: "bool list \<Rightarrow> prefix_table" where
  "zero_table supply = \<lparr>prefix_stats = [], prefix_delimiter = 0, num_prefixes = 0, total_prefix_size = 0, pf_supply = supply\<rparr>"

lemma init_ok: "table_ok hash P (stats_prefix_init d (zero_table bs))" "pf_map hash (stats_prefix_init d (zero_table bs)) = Map.empty"
  by (auto simp: table_ok_def prefix_ok_def stats_prefix_init_def zero_table_def pf_map_def fun_eq_iff)

section \<open>Properties\<close>

text \<open>
  C36. Counting by prefix. Over every sequence of recorded fetches, stores and deletions and of resets, the table holds for each
  prefix of a key the number of fetches, hits, stores and deletions of the keys with this prefix
  since the last reset, modulo 2^64, and nothing for other prefixes. Memory must not run out, and no prefix
  may begin with another prefix of its bucket.
\<close>

theorem prefix_counts_spec:
  assumes "unmixed hash {p. \<exists>opn \<in> set ops. op_prefix d opn = Some p}" "2 * length ops \<le> n"
  shows "pf_map hash (foldl (prefix_step hash) (stats_prefix_init d (zero_table (replicate n True))) ops) = foldl (count_step d) Map.empty ops"
proof -
  let ?P = "{p. \<exists>opn \<in> set ops. op_prefix d opn = Some p}"
  have "\<forall>opn \<in> set ops. \<forall>p. op_prefix d opn = Some p \<longrightarrow> p \<in> ?P" by blast
  moreover have "prefix_delimiter (stats_prefix_init d (zero_table (replicate n True))) = d"
    "pf_supply (stats_prefix_init d (zero_table (replicate n True))) = replicate n True" by (simp_all add: stats_prefix_init_def zero_table_def)
  ultimately show ?thesis using prefix_run_refines [OF assms(1) _ init_ok(1) _ _ assms(2)] by (simp add: init_ok(2))
qed

theorem prefix_counts_spec_witness:
  "pf_map (\<lambda>_. 7) (foldl (prefix_step (\<lambda>_. 7)) (stats_prefix_init 58 (zero_table (replicate 8 True)))
     [Rec_set (ascii ''ab:1''), Rec_get (ascii ''cd:2'') False, Rec_get (ascii ''ab:3'') True, Rec_get (ascii ''x'') True]) (ascii ''ab'') =
   Some ((pf_new (ascii ''ab''))\<lparr>num_sets := 1, num_gets := 1, num_hits := 1\<rparr>)"
proof -
  let ?ops = "[Rec_set (ascii ''ab:1''), Rec_get (ascii ''cd:2'') False, Rec_get (ascii ''ab:3'') True, Rec_get (ascii ''x'') True]"
  have p: "op_prefix 58 (Rec_set (ascii ''ab:1'')) = Some (ascii ''ab'')" "op_prefix 58 (Rec_get (ascii ''cd:2'') False) = Some (ascii ''cd'')"
    "op_prefix 58 (Rec_get (ascii ''ab:3'') True) = Some (ascii ''ab'')" "op_prefix 58 (Rec_get (ascii ''x'') True) = None" "ascii ''ab'' \<noteq> ascii ''cd''"
    by (simp_all add: op_prefix_def key_prefix_def ascii_def of_char_def)
  have "{p. \<exists>opn \<in> set ?ops. op_prefix 58 opn = Some p} = {ascii ''ab'', ascii ''cd''}" using p by auto
  moreover have "unmixed (\<lambda>_. 7) {ascii ''ab'', ascii ''cd''}" by (simp add: unmixed_def ascii_def of_char_def)
  ultimately have "unmixed (\<lambda>_. 7) {p. \<exists>opn \<in> set ?ops. op_prefix 58 opn = Some p}" by simp
  from prefix_counts_spec [OF this, of 8] show ?thesis using p by (simp add: count_step_def pf_new_def)
qed

text \<open>
  C37. The dump of the table. Whatever has been recorded, as long as the prefixes and their text stay below 2^31 bytes, the buffer whose size the
  dump computes in advance holds the text: no write is outside it and no line is cut. The text has one line for every prefix of the table with its
  four counters in decimal, and ends with END. Without memory there is no dump.
\<close>

theorem prefix_dump_spec:
  assumes s: "s = foldl (prefix_step hash) (stats_prefix_init d (zero_table bs)) ops"
    and n: "length (concat (prefix_stats s)) < 2 ^ 31" "prefix_bytes s < 2 ^ 31" "length (dump_text (concat (prefix_stats s))) + 5 < 2 ^ 31"
  shows "if \<not> snd (pf_alloc s) then stats_prefix_dump s = Some (fst (pf_alloc s), None)
    else \<exists>buf n. stats_prefix_dump s = Some (fst (pf_alloc s), Some (buf, int n)) \<and> length buf = unat (dump_size s) \<and> n < length buf \<and>
      take n buf = concat (map dump_line (concat (prefix_stats s))) @ ascii ''END'' @ [13, 10]"
proof -
  have ok: "prefix_ok s" unfolding s by (rule run_prefix_ok) (use init_ok(1) [of hash UNIV d bs] in \<open>simp add: table_ok_def\<close>)
  have "stats_prefix_dump s = Some (fst (pf_alloc s), None)" if "\<not> snd (pf_alloc s)"
    using that by (cases "pf_alloc s") (simp add: stats_prefix_dump_def)
  moreover have "\<exists>buf n. stats_prefix_dump s = Some (fst (pf_alloc s), Some (buf, int n)) \<and> length buf = unat (dump_size s) \<and> n < length buf \<and>
      take n buf = dump_text (concat (prefix_stats s)) @ ascii ''END'' @ [13, 10]" if "snd (pf_alloc s)"
    using dump_fits [OF ok that n] by blast
  ultimately show ?thesis by (cases "snd (pf_alloc s)") simp_all
qed

lemma concat_one: "b < n \<Longrightarrow> concat ((replicate n [])[b := xs]) = xs"
proof (induction n arbitrary: b)
  case (Suc n)
  then show ?case by (cases b) (simp_all add: concat_replicate_trivial)
qed simp

theorem prefix_dump_spec_witness:
  "\<exists>buf n s'. stats_prefix_dump (foldl (prefix_step (\<lambda>_. 7)) (stats_prefix_init 58 (zero_table [True, True, True])) [Rec_get (ascii ''ab:1'') True]) =
      Some (s', Some (buf, int n)) \<and> take n buf = ascii ''PREFIX ab get 1 hit 1 set 0 del 0'' @ [13, 10] @ ascii ''END'' @ [13, 10]"
proof -
  let ?s = "foldl (prefix_step (\<lambda>_. 7)) (stats_prefix_init 58 (zero_table [True, True, True])) [Rec_get (ascii ''ab:1'') True]"
  have f: "find_delimiter 58 (ascii ''ab:1'') = Some 2" "take 2 (ascii ''ab:1'') = ascii ''ab''" by (simp_all add: ascii_def of_char_def)
  have "prefix_stats ?s = (replicate 256 [])[7 := [(pf_new (ascii ''ab''))\<lparr>num_gets := 1, num_hits := 1\<rparr>]]" "pf_supply ?s = [True]"
    using f by (simp_all add: stats_prefix_record_get_def stats_prefix_find_def stats_prefix_init_def zero_table_def pf_alloc_def upd_node_def pf_new_def)
  then have s: "concat (prefix_stats ?s) = [(pf_new (ascii ''ab''))\<lparr>num_gets := 1, num_hits := 1\<rparr>]" "snd (pf_alloc ?s)"
    by (simp_all only: pf_alloc_def) (simp_all add: concat_one del: foldl_Cons foldl_Nil)
  have l: "dump_line ((pf_new (ascii ''ab''))\<lparr>num_gets := 1, num_hits := 1\<rparr>) = ascii ''PREFIX ab get 1 hit 1 set 0 del 0'' @ [13, 10]"
    by (simp add: dump_line_def pf_new_def dec_small ascii_def of_char_def)
  have h: "length (concat (prefix_stats ?s)) < 2 ^ 31" "prefix_bytes ?s < 2 ^ 31" "length (dump_text (concat (prefix_stats ?s))) + 5 < 2 ^ 31"
    unfolding s(1) by (simp_all add: l) (simp_all add: ascii_def pf_new_def)
  from prefix_dump_spec [OF refl h] s(2) show ?thesis unfolding s(1) by (auto simp: l)
qed



text \<open>
  C39. Prefixes are mixed up. When a longer prefix that begins with the prefix of a key is in the bucket already, the comparison of
  \<^verbatim>\<open>strncmp\<close> over the length of the shorter one finds the node of the longer: the fetch is counted there, and the prefix of the
  key gets no node.
\<close>

theorem prefix_mixed_up:
  assumes "key_prefix d k = Some p" "key_prefix d k' = Some (p @ x # r)" "bucket_of hash p = bucket_of hash (p @ x # r)"
  shows "let s = foldl (prefix_step hash) (stats_prefix_init d (zero_table [True, True])) [Rec_set k', Rec_get k False] in
    pf_map hash s p = None \<and> map_option num_gets (pf_map hash s (p @ x # r)) = Some 1"
proof -
  let ?q = "p @ x # r" and ?b = "bucket_of hash (p @ x # r)" and ?s0 = "stats_prefix_init d (zero_table [True, True])"
  obtain m where m: "find_delimiter d k = Some m" "p = take m k" using assms(1) by (auto simp: key_prefix_def)
  obtain n where n: "find_delimiter d k' = Some n" "?q = take n k'" using assms(2) by (auto simp: key_prefix_def)
  note M = find_delimiter_Some [OF m(1)]
  have b: "?b < PREFIX_HASH_SIZE" by (rule bucket_less)
  have s0: "prefix_delimiter ?s0 = d" "prefix_stats ?s0 = replicate PREFIX_HASH_SIZE []" "pf_supply ?s0 = [True, True]"
    by (simp_all add: stats_prefix_init_def zero_table_def)
  define s1 where "s1 = prefix_step hash ?s0 (Rec_set k')"
  have s1: "prefix_delimiter s1 = d" "prefix_stats s1 ! ?b = [(pf_new ?q)\<lparr>num_sets := 1\<rparr>]" "length (prefix_stats s1) = PREFIX_HASH_SIZE"
    unfolding s1_def using n b s0
    by (simp_all add: stats_prefix_record_set_def stats_prefix_find_def Let_def n(2) [symmetric] pf_alloc_def upd_node_def pf_new_def)
  have "strncmp_eq m ?q k" using strncmp_take [of m k ?q] M m(2) by (metis append_eq_conv_conj length_take min.absorb2 less_imp_le)
  then have f: "stats_prefix_find hash k s1 = (s1, Some (?b, 0))"
    using m(1) s1(1,2) assms(3) by (simp add: stats_prefix_find_def Let_def m(2) [symmetric] pf_new_def)
  have "prefix_stats (prefix_step hash s1 (Rec_get k False)) ! ?b = [(pf_new ?q)\<lparr>num_sets := 1, num_gets := 1\<rparr>]"
    using f s1(2,3) b by (simp add: stats_prefix_record_get_def upd_node_def Let_def pf_new_def)
  moreover have "foldl (prefix_step hash) ?s0 [Rec_set k', Rec_get k False] = prefix_step hash s1 (Rec_get k False)" by (simp add: s1_def)
  ultimately show ?thesis using assms(3) by (simp add: Let_def pf_map_def pf_new_def del: foldl_Cons prefix_step.simps)
qed

theorem prefix_mixed_up_witness:
  "let s = foldl (prefix_step (\<lambda>_. 0)) (stats_prefix_init 58 (zero_table [True, True])) [Rec_set (ascii ''ab:1''), Rec_get (ascii ''a:1'') False] in
    pf_map (\<lambda>_. 0) s (ascii ''a'') = None \<and> map_option num_gets (pf_map (\<lambda>_. 0) s (ascii ''ab'')) = Some 1"
proof -
  have p: "key_prefix 58 (ascii ''a:1'') = Some (ascii ''a'')" "key_prefix 58 (ascii ''ab:1'') = Some (ascii ''a'' @ 98 # [])"
    by (simp_all add: key_prefix_def ascii_def of_char_def)
  have "ascii ''a'' @ 98 # [] = ascii ''ab''" by (simp add: ascii_def of_char_def)
  with prefix_mixed_up [OF p refl, of "\<lambda>_. 0"] show ?thesis by simp
qed

end
