(* ===== verification/Object_Cache.thy ===== *)
theory Object_Cache
  imports Prelude
begin

text \<open>
  Model of \<^verbatim>\<open>cache.c\<close>, the object caches behind read buffers, I/O objects and responses, as built
  with \<^verbatim>\<open>NDEBUG\<close> (no red zones). The free list \<^verbatim>\<open>STAILQ\<close> is the list of its elements from head to
  tail. What \<^verbatim>\<open>malloc\<close> returns is an argument; \<^verbatim>\<open>cache_alloc\<close> and \<^verbatim>\<open>cache_free\<close> add only the mutex, so an
  operation of the model is one critical section. A \<open>None\<close> result is a dereference of NULL, which
  taking the head of an empty \<^verbatim>\<open>STAILQ\<close> would be.
\<close>

section \<open>Model\<close>

record cache_t =
  name :: bytes
  head :: "addr list"
  bufsize :: uint64
  total :: int
  freecurr :: int
  limit :: int

definition cache_create :: "bool \<Rightarrow> bool \<Rightarrow> bool \<Rightarrow> bytes \<Rightarrow> uint64 \<Rightarrow> cache_t option" where
  "cache_create calloc_ok strdup_ok mutex_ok nm bufsz =
    (if \<not> calloc_ok \<or> \<not> strdup_ok \<or> \<not> mutex_ok then None
     else Some \<lparr>name = nm, head = [], bufsize = bufsz, total = 0, freecurr = 0, limit = 0\<rparr>)"

definition cache_set_limit :: "cache_t \<Rightarrow> int \<Rightarrow> cache_t" where
  "cache_set_limit cache lim = cache\<lparr>limit := lim\<rparr>"

text \<open>The objects \<^verbatim>\<open>cache_destroy\<close> hands back to \<^verbatim>\<open>free\<close>, in order.\<close>

fun drain_head :: "addr list \<Rightarrow> addr list" where
  "drain_head [] = []"
| "drain_head (p # ps) = p # drain_head ps"

definition cache_destroy :: "cache_t \<Rightarrow> addr list" where
  "cache_destroy cache = drain_head (head cache)"

definition do_cache_alloc :: "cache_t \<Rightarrow> addr \<Rightarrow> (cache_t \<times> addr) option" where
  "do_cache_alloc cache malloc_ret =
    (if freecurr cache > 0
     then (case head cache of [] \<Rightarrow> None
           | p # ps \<Rightarrow> Some (cache\<lparr>head := ps, freecurr := freecurr cache - 1\<rparr>, p))
     else if limit cache = 0 \<or> total cache < limit cache
     then if malloc_ret \<noteq> NULL then Some (cache\<lparr>total := total cache + 1\<rparr>, malloc_ret)
          else Some (cache, NULL)
     else Some (cache, NULL))"

text \<open>The state after a free, and the object given back to the C library, if any.\<close>

definition do_cache_free :: "cache_t \<Rightarrow> addr \<Rightarrow> cache_t \<times> addr option" where
  "do_cache_free cache ptr =
    (if limit cache \<noteq> 0 \<and> limit cache < total cache
     then (cache\<lparr>total := total cache - 1\<rparr>, Some ptr)
     else (cache\<lparr>head := head cache @ [ptr], freecurr := freecurr cache + 1\<rparr>, None))"

section \<open>Clients\<close>

text \<open>
  All states of a cache and of the set of objects its clients hold. A client frees only what it
  holds; \<^verbatim>\<open>malloc\<close> returns NULL or memory that is not in use.
\<close>

inductive cache_run :: "cache_t \<Rightarrow> addr set \<Rightarrow> bool" where
  create: "cache_create True True True nm bufsz = Some c \<Longrightarrow> cache_run c {}"
| alloc: "\<lbrakk>cache_run c H; m = NULL \<or> m \<notin> H \<union> set (head c); do_cache_alloc c m = Some (c', p)\<rbrakk>
    \<Longrightarrow> cache_run c' (if p = NULL then H else insert p H)"
| release: "\<lbrakk>cache_run c H; p \<in> H\<rbrakk> \<Longrightarrow> cache_run (fst (do_cache_free c p)) (H - {p})"
| set_limit: "cache_run c H \<Longrightarrow> cache_run (cache_set_limit c lim) H"

definition cache_inv :: "cache_t \<Rightarrow> addr set \<Rightarrow> bool" where
  "cache_inv c H \<longleftrightarrow> finite H \<and> NULL \<notin> H \<and> NULL \<notin> set (head c) \<and> distinct (head c) \<and>
    H \<inter> set (head c) = {} \<and> freecurr c = int (length (head c)) \<and>
    total c = int (card H) + freecurr c"

lemma cache_inv_alloc [mc_inv]:
  assumes "cache_inv c H" "m = NULL \<or> m \<notin> H \<union> set (head c)" "do_cache_alloc c m = Some (c', p)"
  shows "cache_inv c' (if p = NULL then H else insert p H)"
  using assms by (auto simp: cache_inv_def do_cache_alloc_def split: if_splits list.splits)

lemma cache_inv_free [mc_inv]:
  assumes "cache_inv c H" "p \<in> H"
  shows "cache_inv (fst (do_cache_free c p)) (H - {p})"
proof -
  have "0 < card H" using assms by (auto simp: cache_inv_def card_gt_0_iff)
  with assms show ?thesis by (auto simp: cache_inv_def do_cache_free_def card_Diff_singleton)
qed

lemma cache_run_inv: "cache_run c H \<Longrightarrow> cache_inv c H"
proof (induction rule: cache_run.induct)
  case (create nm bufsz c)
  then show ?case by (auto simp: cache_create_def cache_inv_def)
next
  case (set_limit c H lim)
  then show ?case by (simp add: cache_set_limit_def cache_inv_def)
qed (blast intro: cache_inv_alloc cache_inv_free)+

text \<open>
  C25. In every reachable state of an object cache an allocation runs without touching an empty
  free list, and what it returns is NULL or an object no client holds; the counters are exact
  (\<^verbatim>\<open>freecurr\<close> is the length of the free list, \<^verbatim>\<open>total\<close> the number of live objects); NULL comes only
  from \<^verbatim>\<open>malloc\<close> or from a reached limit; and an object freed while \<^verbatim>\<open>total\<close> exceeds the limit goes
  back to the C library.
\<close>

theorem cache_sound:
  assumes "cache_run c H"
  shows "(\<exists>c' p. do_cache_alloc c m = Some (c', p) \<and> p \<notin> H - {m} \<and>
      (p = NULL \<longrightarrow> head c = [] \<and> (m = NULL \<or> (limit c \<noteq> 0 \<and> limit c \<le> int (card H))))) \<and>
    freecurr c = int (length (head c)) \<and> total c = int (card H) + freecurr c \<and>
    distinct (head c) \<and> H \<inter> set (head c) = {} \<and> set (cache_destroy c) = set (head c) \<and>
    (limit c \<noteq> 0 \<and> limit c < total c \<longrightarrow> snd (do_cache_free c q) = Some q)"
proof -
  have drain: "drain_head ps = ps" for ps by (induction ps) auto
  show ?thesis
    using cache_run_inv [OF assms]
    by (auto simp: cache_inv_def do_cache_alloc_def do_cache_free_def cache_destroy_def drain
        split: list.splits)
qed

theorem cache_sound_witness:
  "\<exists>c. cache_run c {} \<and> head c = [7] \<and> do_cache_alloc c 9 = Some (c\<lparr>head := [], freecurr := 0\<rparr>, 7) \<and> total c = 1"
proof -
  define c0 where "c0 = \<lparr>name = [], head = [], bufsize = 64, total = 0, freecurr = 0, limit = 0\<rparr>"
  have r0: "cache_run c0 {}"
    by (rule cache_run.create [of "[]" 64]) (simp add: cache_create_def c0_def)
  have r1: "cache_run (c0\<lparr>total := 1\<rparr>) {7}"
    using cache_run.alloc [OF r0, of 7 "c0\<lparr>total := 1\<rparr>" 7] by (simp add: do_cache_alloc_def c0_def)
  have r2: "cache_run (c0\<lparr>total := 1, head := [7], freecurr := 1\<rparr>) {}"
    using cache_run.release [OF r1, of 7] by (simp add: do_cache_free_def c0_def)
  from cache_sound [OF r2, of 9] r2 show ?thesis
    by (intro exI [of _ "c0\<lparr>total := 1, head := [7], freecurr := 1\<rparr>"]) (simp add: c0_def do_cache_alloc_def)
qed

end
