(* ===== verification/Conn_Io.thy ===== *)
theory Conn_Io
  imports Store_Ops Stats_Prefix Object_Cache
begin

text \<open>
  Connections, from \<^verbatim>\<open>memcached.h\<close> and \<^verbatim>\<open>memcached.c\<close>: the responses a connection queues, how they are sent and give up their items, and
  the read buffer. A connection is a record apart from the store, as \<^verbatim>\<open>conn\<close> is apart from the global state. The socket is a list
  of the answers it will give to reads and one of those it will give to \<^verbatim>\<open>sendmsg\<close>; \<open>wire\<close> is what it has taken. Calls of libevent succeed.
\<close>

section \<open>Connections\<close>

datatype conn_states = conn_listening | conn_new_cmd | conn_waiting | conn_read | conn_parse_cmd | conn_write | conn_nread | conn_swallow
  | conn_closing | conn_mwrite | conn_closed | conn_watch | conn_io_queue

text \<open>
  Where a piece of output lies: in the text buffer of the response, in the data of an item or chunk from an offset on, or, for a large item, in
  its chunks, which are looked up when it is sent.
\<close>

datatype iov_base = Base_text bytes | Base_data addr nat | Base_item addr

type_synonym iovec = "iov_base \<times> nat"

record mc_resp =
  rs_item :: addr
  rs_iov :: "iovec list"
  rs_tosend :: nat
  rs_chunked_iov :: nat
  rs_chunked_total :: nat
  rs_skip :: bool

definition new_resp :: mc_resp where
  "new_resp = \<lparr>rs_item = NULL, rs_iov = [], rs_tosend = 0, rs_chunked_iov = 0, rs_chunked_total = 0, rs_skip = False\<rparr>"

datatype net_result = Net_data bytes | Net_eof | Net_again | Net_error

datatype send_result = Sent nat | Send_again | Send_error

text \<open>
  \<open>resps\<close> is the queue of responses, the current one (\<^verbatim>\<open>c->resp\<close>) first and the one to be sent next (\<^verbatim>\<open>c->resp_head\<close>) last. While data is read,
  \<open>ritem\<close> is the item, or the chunk of a large item, that it goes to, and \<open>roff\<close> the offset in its data. \<open>rbuf\<close> is what has been
  written to the read buffer of \<open>rsize\<close> bytes at the address \<open>rbuf_at\<close>, which comes from the object cache \<open>rbuf_cache\<close>. What \<^verbatim>\<open>malloc\<close> and \<^verbatim>\<open>realloc\<close> will return is
  listed in \<open>mallocs\<close>, and \<open>resp_supply\<close> says which response objects can be had. The counters are those of the worker thread.
\<close>

record conn =
  noreply :: bool
  cstate :: conn_states
  resps :: "mc_resp list"
  resp_supply :: "bool list"
  c_item :: addr
  c_cmd :: nread
  ritem :: addr
  roff :: nat
  rlbytes :: int
  sbytes :: int
  mset_res :: bool
  close_after_write :: bool
  rbuf :: bytes
  rsize :: nat
  rcurr :: nat
  rbytes :: nat
  rbuf_malloced :: bool
  rbuf_at :: addr
  rbuf_cache :: cache_t
  mallocs :: "addr list"
  net :: "net_result list"
  sends :: "send_result list"
  wire :: bytes
  detail_enabled :: bool
  process_started :: int
  ptab :: prefix_table
  touch_cmds :: uint64
  touch_misses :: uint64
  get_cmds :: uint64
  get_misses :: uint64
  get_oom_extstore :: uint64
  delete_misses :: uint64
  incr_misses :: uint64
  decr_misses :: uint64
  touch_hits :: "byte \<Rightarrow> uint64"
  lru_hits :: "byte \<Rightarrow> uint64"
  delete_hits :: "byte \<Rightarrow> uint64"
  set_cmds :: "byte \<Rightarrow> uint64"

definition conn_set_state :: "conn_states \<Rightarrow> conn \<Rightarrow> conn" where
  "conn_set_state st c = c\<lparr>cstate := st\<rparr>"

definition next_malloc :: "conn \<Rightarrow> conn \<times> addr" where
  "next_malloc c = (case mallocs c of [] \<Rightarrow> (c, NULL) | p # ps \<Rightarrow> (c\<lparr>mallocs := ps\<rparr>, p))"

section \<open>Responses\<close>

definition resp_start :: "conn \<Rightarrow> conn \<times> bool" where
  "resp_start c = (case resp_supply c of [] \<Rightarrow> (c, False)
     | b # bs \<Rightarrow> if b then (c\<lparr>resp_supply := bs, resps := new_resp # resps c\<rparr>, True) else (c\<lparr>resp_supply := bs\<rparr>, False))"

definition resp_reset :: "conn \<times> 'a store_scheme \<Rightarrow> (conn \<times> 'a store_scheme) option" where
  "resp_reset = (\<lambda>(c, s). case resps c of [] \<Rightarrow> None
     | r # rs \<Rightarrow> do {
         s1 \<leftarrow> (if rs_item r \<noteq> NULL then item_remove (rs_item r) s else Some s);
         Some (c\<lparr>resps := new_resp # rs\<rparr>, s1)
       })"

definition upd_resp :: "(mc_resp \<Rightarrow> mc_resp) \<Rightarrow> conn \<Rightarrow> conn" where
  "upd_resp f c = (case resps c of [] \<Rightarrow> c | r # rs \<Rightarrow> c\<lparr>resps := f r # rs\<rparr>)"

definition resp_add_iov :: "iov_base \<Rightarrow> nat \<Rightarrow> mc_resp \<Rightarrow> mc_resp" where
  "resp_add_iov buf len r = r\<lparr>rs_iov := rs_iov r @ [(buf, len)], rs_tosend := rs_tosend r + len\<rparr>"

definition resp_add_chunked_iov :: "iov_base \<Rightarrow> nat \<Rightarrow> mc_resp \<Rightarrow> mc_resp" where
  "resp_add_chunked_iov buf len r = resp_add_iov buf len (r\<lparr>rs_chunked_iov := length (rs_iov r), rs_chunked_total := len\<rparr>)"

abbreviation (input) WRITE_BUFFER_SIZE :: nat where "WRITE_BUFFER_SIZE \<equiv> 1024"

definition out_string :: "bytes \<Rightarrow> conn \<times> 'a store_scheme \<Rightarrow> (conn \<times> 'a store_scheme) option" where
  "out_string str cs = do {
     (c, s) \<leftarrow> resp_reset cs;
     if noreply c then Some (conn_set_state conn_new_cmd (upd_resp (rs_skip_update (\<lambda>_. True)) c), s)
     else let txt = (if length str + 2 > WRITE_BUFFER_SIZE then ascii ''SERVER_ERROR output line too long'' else str)
       in Some (conn_set_state conn_new_cmd (upd_resp (resp_add_iov (Base_text (txt @ [13, 10])) (length txt + 2)) c), s)
   }"

definition out_errstring :: "bytes \<Rightarrow> conn \<times> 'a store_scheme \<Rightarrow> (conn \<times> 'a store_scheme) option" where
  "out_errstring str = (\<lambda>(c, s). out_string str (c\<lparr>noreply := False\<rparr>, s))"

text \<open>In the text protocol.\<close>

definition out_of_memory :: "bytes \<Rightarrow> conn \<times> 'a store_scheme \<Rightarrow> (conn \<times> 'a store_scheme) option" where
  "out_of_memory ascii_error cs = out_string ascii_error cs"

text \<open>A response that is done gives up its item. (Pending I/O and separately allocated text are not used by the commands modelled here.)\<close>

definition resp_finish :: "mc_resp \<Rightarrow> 'a store_scheme \<Rightarrow> 'a store_scheme option" where
  "resp_finish r s = (if rs_item r \<noteq> NULL then item_remove (rs_item r) s else Some s)"

fun finish_all :: "mc_resp list \<Rightarrow> 'a store_scheme \<Rightarrow> 'a store_scheme option" where
  "finish_all [] s = Some s"
| "finish_all (r # rs) s = do { s1 \<leftarrow> resp_finish r s; finish_all rs s1 }"

definition conn_release_items :: "conn \<times> 'a store_scheme \<Rightarrow> (conn \<times> 'a store_scheme) option" where
  "conn_release_items = (\<lambda>(c, s). do {
     (c1, s1) \<leftarrow> (if c_item c \<noteq> NULL then do { s1 \<leftarrow> item_remove (c_item c) s; Some (c\<lparr>c_item := NULL\<rparr>, s1) } else Some (c, s));
     s2 \<leftarrow> finish_all (rev (resps c1)) s1;
     Some (c1\<lparr>resps := []\<rparr>, s2)
   })"

section \<open>Sending\<close>

abbreviation (input) IOV_MAX :: nat where "IOV_MAX \<equiv> 1024"

text \<open>The pieces of a large item that are still to be sent: \<open>don\<close> bytes of its chunks are skipped.\<close>

partial_function (option) chunk_iovs :: "(addr \<Rightarrow> item) \<Rightarrow> addr \<Rightarrow> int \<Rightarrow> int \<Rightarrow> nat \<Rightarrow> iovec list \<Rightarrow> iovec list option" where
  "chunk_iovs h ch don todo iovused acc =
    (if ch = NULL \<or> \<not> 0 < todo \<or> \<not> iovused < IOV_MAX - 1 then Some acc
     else let u = ch_used (h ch); nxt = it_next (h ch) in
       if u = 0 then chunk_iovs h nxt don todo iovused acc
       else if u \<le> don then chunk_iovs h nxt (don - u) todo iovused acc
       else chunk_iovs h nxt 0 (todo - (u - don)) (iovused + 1)
         (acc @ [(Base_data ch (nat don), nat (if u - don > todo then todo else u - don))]))"

fun resp_iovs :: "(addr \<Rightarrow> item) \<Rightarrow> mc_resp \<Rightarrow> nat \<Rightarrow> iovec list \<Rightarrow> nat \<Rightarrow> iovec list option" where
  "resp_iovs h r x [] iovused = Some []"
| "resp_iovs h r x ((b, n) # rest) iovused = do {
     v \<leftarrow> (case b of
         Base_item a \<Rightarrow> if x = rs_chunked_iov r
           then chunk_iovs h (ITEM_schunk a (h a)) (int (rs_chunked_total r) - int n) (int n) iovused [] else Some [(b, n)]
       | _ \<Rightarrow> Some [(b, n)]);
     if iovused + length v \<ge> IOV_MAX - 1 then Some v
     else do { w \<leftarrow> resp_iovs h r (x + 1) rest (iovused + length v); Some (v @ w) }
   }"

fun transmit_pre :: "(addr \<Rightarrow> item) \<Rightarrow> mc_resp list \<Rightarrow> nat \<Rightarrow> bool \<Rightarrow> iovec list option" where
  "transmit_pre h [] iovused one_resp = Some []"
| "transmit_pre h (r # rs) iovused one_resp =
    (if \<not> iovused + length (rs_iov r) < IOV_MAX - 1 then Some []
     else if rs_skip r then transmit_pre h rs iovused one_resp
     else do {
       v \<leftarrow> (if rs_chunked_iov r \<noteq> 0 then resp_iovs h r 0 (rs_iov r) iovused else Some (rs_iov r));
       if one_resp then Some v else do { w \<leftarrow> transmit_pre h rs (iovused + length v) one_resp; Some (v @ w) }
     })"

text \<open>After \<open>res\<close> bytes were sent: the pieces that remain of a response, the bytes not yet accounted for, and those accounted for here.\<close>

fun advance_base :: "nat \<Rightarrow> iov_base \<Rightarrow> iov_base" where
  "advance_base k (Base_text t) = Base_text (drop k t)"
| "advance_base k (Base_data a off) = Base_data a (off + k)"
| "advance_base k (Base_item a) = Base_item a"

fun post_iovs :: "nat \<Rightarrow> nat \<Rightarrow> nat \<Rightarrow> iovec list \<Rightarrow> iovec list \<times> nat \<times> nat" where
  "post_iovs x chunked res [] = ([], res, 0)"
| "post_iovs x chunked res ((b, n) # rest) =
    (if n \<le> res then case post_iovs (x + 1) chunked (res - n) rest of (rest', res', sent) \<Rightarrow> ((b, 0) # rest', res', n + sent)
     else ((if chunked = 0 \<or> x \<noteq> chunked then advance_base res b else b, n - res) # rest, 0, res))"

fun transmit_post :: "nat \<Rightarrow> mc_resp list \<Rightarrow> 'a store_scheme \<Rightarrow> (mc_resp list \<times> 'a store_scheme) option" where
  "transmit_post res [] s = Some ([], s)"
| "transmit_post res (r # rs) s =
    (if rs_skip r then do { s1 \<leftarrow> resp_finish r s; transmit_post res rs s1 }
     else if rs_tosend r \<le> res then do { s1 \<leftarrow> resp_finish r s; transmit_post (res - rs_tosend r) rs s1 }
     else case post_iovs 0 (rs_chunked_iov r) res (rs_iov r) of (iov', res', sent) \<Rightarrow>
       if rs_tosend r - sent = 0 then do { s1 \<leftarrow> resp_finish r s; transmit_post res' rs s1 }
       else Some (r\<lparr>rs_iov := iov', rs_tosend := rs_tosend r - sent\<rparr> # rs, s))"

text \<open>The bytes of a piece as they lie in memory when it is sent.\<close>

fun iov_bytes :: "(addr \<Rightarrow> item) \<Rightarrow> iovec \<Rightarrow> bytes" where
  "iov_bytes h (Base_text t, n) = take n t"
| "iov_bytes h (Base_data a off, n) = take n (drop off (idata (h a)))"
| "iov_bytes h (Base_item a, n) = []"

datatype transmit_result = TRANSMIT_COMPLETE | TRANSMIT_INCOMPLETE | TRANSMIT_SOFT_ERROR | TRANSMIT_HARD_ERROR

definition transmit :: "conn \<times> 'a store_scheme \<Rightarrow> ((conn \<times> 'a store_scheme) \<times> transmit_result) option" where
  "transmit = (\<lambda>(c, s). do {
     iovs \<leftarrow> transmit_pre (heap s) (rev (resps c)) 0 False;
     if iovs = [] then do {
       (rs, s1) \<leftarrow> transmit_post 0 (rev (resps c)) s;
       Some ((c\<lparr>resps := rev rs\<rparr>, s1), TRANSMIT_COMPLETE)
     }
     else case sends c of
         Sent n # later \<Rightarrow>
           let out = concat (map (iov_bytes (heap s)) iovs); res = min n (length out)
           in do {
             (rs, s1) \<leftarrow> transmit_post res (rev (resps c)) s;
             Some ((c\<lparr>resps := rev rs, sends := later, wire := wire c @ take res out\<rparr>, s1), if rs \<noteq> [] then TRANSMIT_INCOMPLETE else TRANSMIT_COMPLETE)
           }
       | Send_error # later \<Rightarrow> Some ((conn_set_state conn_closing (c\<lparr>sends := later\<rparr>), s), TRANSMIT_HARD_ERROR)
       | Send_again # later \<Rightarrow> Some ((c\<lparr>sends := later\<rparr>, s), TRANSMIT_SOFT_ERROR)
       | [] \<Rightarrow> Some ((c, s), TRANSMIT_SOFT_ERROR)
   })"

section \<open>The read buffer\<close>

abbreviation (input) READ_BUFFER_SIZE :: nat where "READ_BUFFER_SIZE \<equiv> 16384"

definition rbuf_release :: "conn \<Rightarrow> conn" where
  "rbuf_release c =
    (if rbuf_at c \<noteq> NULL \<and> rbytes c = 0
     then let c1 = (if rbuf_malloced c then c\<lparr>rbuf_malloced := False\<rparr> else c\<lparr>rbuf_cache := fst (do_cache_free (rbuf_cache c) (rbuf_at c))\<rparr>)
          in c1\<lparr>rsize := 0, rbuf_at := NULL, rbuf := [], rcurr := 0\<rparr>
     else c)"

definition rbuf_alloc :: "conn \<Rightarrow> (conn \<times> bool) option" where
  "rbuf_alloc c =
    (if rbuf_at c = NULL
     then case next_malloc c of (c1, p) \<Rightarrow> do {
       (cache, a) \<leftarrow> do_cache_alloc (rbuf_cache c1) p;
       let c2 = c1\<lparr>rbuf_cache := cache\<rparr>;
       Some (if a = NULL then (c2, False) else (c2\<lparr>rbuf_at := a, rbuf := [], rsize := READ_BUFFER_SIZE, rcurr := 0\<rparr>, True))
     }
     else Some (c, True))"

text \<open>
  The read buffer goes back to its cache and is copied afterwards. A cache that keeps it has by then linked it into its list of
  free objects, with a NULL in its first eight bytes (\<^verbatim>\<open>STAILQ_INSERT_TAIL\<close>; built with \<^verbatim>\<open>NDEBUG\<close> there is no word in front of
  an object). What memory reads as that went back to the system is undefined in C; the model takes it unchanged.
\<close>

definition rbuf_switch_to_malloc :: "conn \<Rightarrow> conn \<times> bool" where
  "rbuf_switch_to_malloc c = (case next_malloc c of (c1, tmp) \<Rightarrow>
     if tmp = NULL then (c1, False)
     else let (cache, freed) = do_cache_free (rbuf_cache c1) (rbuf_at c1);
              old = (if freed = None then replicate 8 0 @ drop 8 (rbuf c1) else rbuf c1)
          in (c1\<lparr>rbuf_cache := cache, rbuf := take (rbytes c1) (drop (rcurr c1) old), rcurr := 0, rbuf_at := tmp, rsize := rsize c1 * 2,
              rbuf_malloced := True\<rparr>, True))"

text \<open>\<^verbatim>\<open>c->read(c, buf, n)\<close>: the socket gives at most \<open>n\<close> bytes.\<close>

definition read_net :: "nat \<Rightarrow> conn \<Rightarrow> conn \<times> net_result" where
  "read_net n c = (case net c of [] \<Rightarrow> (c, Net_again)
     | Net_data bs # rest \<Rightarrow> if length bs \<le> n then (c\<lparr>net := rest\<rparr>, Net_data bs) else (c\<lparr>net := Net_data (drop n bs) # rest\<rparr>, Net_data (take n bs))
     | r # rest \<Rightarrow> (c\<lparr>net := rest\<rparr>, r))"

datatype try_read_result = READ_DATA_RECEIVED | READ_NO_DATA_RECEIVED | READ_ERROR | READ_MEMORY_ERROR

text \<open>
  The loop of \<^verbatim>\<open>try_read_network\<close>: \<open>n\<close> reallocations are left before it gives up for this time. A buffer of the cache is read
  into once.
\<close>

abbreviation buffer_full :: "conn \<Rightarrow> bool" where
  "buffer_full c \<equiv> rsize c \<le> rbytes c \<and> rbuf_malloced c"

text \<open>One round: it ends the loop, or asks for another one.\<close>

definition read_round :: "bool \<Rightarrow> try_read_result \<Rightarrow> conn \<times> 'a store_scheme \<Rightarrow> ((conn \<times> 'a store_scheme) \<times> try_read_result option) option" where
  "read_round full gotdata = (\<lambda>(c0, s).
    case (if full then next_malloc c0 else (c0, rbuf_at c0)) of (c1, new_rbuf) \<Rightarrow>
      if full \<and> new_rbuf = NULL
      then do {
        (c2, s2) \<leftarrow> out_of_memory (ascii ''SERVER_ERROR out of memory reading request'') (c1\<lparr>rbytes := 0\<rparr>, s);
        Some ((c2\<lparr>close_after_write := True\<rparr>, s2), Some READ_MEMORY_ERROR)
      }
      else
        let c2 = (if full then c1\<lparr>rbuf_at := new_rbuf, rcurr := 0, rsize := rsize c1 * 2\<rparr> else c1); avail = rsize c2 - rbytes c2
        in case read_net avail c2 of
            (c3, Net_data bs) \<Rightarrow>
              if bs = [] then Some ((c3, s), Some READ_ERROR)
              else let c4 = c3\<lparr>rbuf := copy_at (rbuf c3) (rbytes c3) bs, rbytes := rbytes c3 + length bs\<rparr>
                in Some ((c4, s), if length bs = avail \<and> rbuf_malloced c4 then None else Some READ_DATA_RECEIVED)
          | (c3, Net_eof) \<Rightarrow> Some ((c3, s), Some READ_ERROR)
          | (c3, Net_again) \<Rightarrow> Some ((c3, s), Some gotdata)
          | (c3, Net_error) \<Rightarrow> Some ((c3, s), Some READ_ERROR))"

text \<open>A round with a full buffer uses up one of the reallocations; after a round that does not end the loop the buffer is full.\<close>

primrec read_loop :: "nat \<Rightarrow> try_read_result \<Rightarrow> conn \<times> 'a store_scheme \<Rightarrow> ((conn \<times> 'a store_scheme) \<times> try_read_result) option" where
  "read_loop 0 gotdata cs = Some (cs, gotdata)"
| "read_loop (Suc n) gotdata cs = do {
     (cs1, r) \<leftarrow> read_round True gotdata cs;
     case r of Some res \<Rightarrow> Some (cs1, res) | None \<Rightarrow> read_loop n READ_DATA_RECEIVED cs1
   }"

definition try_read_network :: "conn \<times> 'a store_scheme \<Rightarrow> ((conn \<times> 'a store_scheme) \<times> try_read_result) option" where
  "try_read_network = (\<lambda>(c0, s).
    let c = (if rcurr c0 \<noteq> 0 then c0\<lparr>rbuf := copy_at (rbuf c0) 0 (take (rbytes c0) (drop (rcurr c0) (rbuf c0))), rcurr := 0\<rparr> else c0)
    in if buffer_full c then read_loop 4 READ_NO_DATA_RECEIVED (c, s)
       else do {
         (cs1, r) \<leftarrow> read_round False READ_NO_DATA_RECEIVED (c, s);
         case r of Some res \<Rightarrow> Some (cs1, res) | None \<Rightarrow> read_loop 4 READ_DATA_RECEIVED cs1
       })"

lemma read_round_full:
  "read_round full gotdata (c, s) = Some ((c', s'), None) \<Longrightarrow> buffer_full c'"
  by (auto simp: read_round_def read_net_def next_malloc_def Let_def split: list.splits net_result.splits if_splits Option.bind_splits prod.splits)

section \<open>Replies\<close>

text \<open>A current response that holds no item, and the text line it will send.\<close>

definition ready :: "conn \<Rightarrow> bool" where
  "ready c \<longleftrightarrow> (\<exists>r rs. resps c = r # rs \<and> rs_item r = NULL)"

definition reply :: "conn \<Rightarrow> bytes option" where
  "reply c = (case resps c of [] \<Rightarrow> None
     | r # _ \<Rightarrow> if rs_skip r then None else case rs_iov r of [(Base_text t, n)] \<Rightarrow> Some (take n t) | _ \<Rightarrow> None)"

text \<open>The line a client reads unless it asked for no reply.\<close>

definition line :: "bool \<Rightarrow> bytes \<Rightarrow> bytes option" where
  "line quiet txt = (if quiet then None else Some (txt @ [13, 10]))"

definition text_resp :: "bytes \<Rightarrow> mc_resp" where
  "text_resp txt = resp_add_iov (Base_text (txt @ [13, 10])) (length txt + 2) new_resp"

definition said :: "bytes \<Rightarrow> conn \<Rightarrow> conn" where
  "said txt c = c\<lparr>cstate := conn_new_cmd, resps := (if noreply c then new_resp\<lparr>rs_skip := True\<rparr> else text_resp txt) # tl (resps c)\<rparr>"

lemma new_resp_fields [simp]:
  "rs_item new_resp = NULL" "rs_iov new_resp = []" "rs_tosend new_resp = 0" "rs_chunked_iov new_resp = 0" "\<not> rs_skip new_resp"
  by (simp_all add: new_resp_def)

lemma out_string_said: "\<lbrakk>ready c; length txt \<le> 1022\<rbrakk> \<Longrightarrow> out_string txt (c, s) = Some (said txt c, s)"
  by (auto simp: ready_def out_string_def resp_reset_def upd_resp_def conn_set_state_def said_def text_resp_def)

lemma said_fields:
  "reply (said txt c) = line (noreply c) txt" "cstate (said txt c) = conn_new_cmd" "ready (said txt c)" "noreply (said txt c) = noreply c"
  "c_item (said txt c) = c_item c" "rbuf (said txt c) = rbuf c" "rcurr (said txt c) = rcurr c" "rbytes (said txt c) = rbytes c" "ptab (said txt c) = ptab c"
  by (auto simp: said_def reply_def line_def ready_def text_resp_def resp_add_iov_def)

section \<open>What is still to be sent\<close>

definition resp_out :: "(addr \<Rightarrow> item) \<Rightarrow> mc_resp \<Rightarrow> bytes" where
  "resp_out h r = (if rs_skip r then [] else concat (map (iov_bytes h) (rs_iov r)))"

definition pending :: "(addr \<Rightarrow> item) \<Rightarrow> mc_resp list \<Rightarrow> bytes" where
  "pending h rs = concat (map (resp_out h) rs)"

text \<open>
  A well-formed response: its pieces lie inside their text or inside the data of the item it holds, and \<open>rs_tosend\<close> is their length. (Items of a
  consistent store are not chunked.)
\<close>

fun iov_ok :: "(addr \<Rightarrow> item) \<Rightarrow> addr \<Rightarrow> iovec \<Rightarrow> bool" where
  "iov_ok h a (Base_text t, n) = (n \<le> length t)"
| "iov_ok h a (Base_data b off, n) = (b = a \<and> a \<noteq> NULL \<and> off + n \<le> length (idata (h b)))"
| "iov_ok h a (Base_item b, n) = False"

definition resp_ok :: "(addr \<Rightarrow> item) \<Rightarrow> mc_resp \<Rightarrow> bool" where
  "resp_ok h r \<longleftrightarrow> rs_chunked_iov r = 0 \<and> length (rs_iov r) \<le> 4 \<and> rs_tosend r = sum_list (map snd (rs_iov r)) \<and>
     (\<forall>v \<in> set (rs_iov r). iov_ok h (rs_item r) v)"

text \<open>How many of the responses hold an item.\<close>

definition held_by :: "mc_resp list \<Rightarrow> addr \<Rightarrow> nat" where
  "held_by rs a = length (filter (\<lambda>r. rs_item r = a \<and> a \<noteq> NULL) rs)"

lemma held_by_simps:
  "held_by [] a = 0" "held_by (r # rs) a = (if rs_item r = a \<and> a \<noteq> NULL then Suc (held_by rs a) else held_by rs a)"
  "held_by (rs @ rs') a = held_by rs a + held_by rs' a" "held_by (rev rs) a = held_by rs a"
  by (simp_all add: held_by_def rev_filter [symmetric])

lemma pending_simps: "pending h [] = []" "pending h (r # rs) = resp_out h r @ pending h rs" "pending h (rs @ rs') = pending h rs @ pending h rs'"
  by (simp_all add: pending_def)

lemma iov_length: "iov_ok h a v \<Longrightarrow> length (iov_bytes h v) = snd v"
  by (cases "(h, a, v)" rule: iov_ok.cases) auto

lemma iovs_length: "\<forall>v \<in> set vs. iov_ok h a v \<Longrightarrow> length (concat (map (iov_bytes h) vs)) = sum_list (map snd vs)"
  by (induction vs) (auto simp: iov_length simp del: length_concat)

lemma iov_advance:
  assumes "iov_ok h a (b, n)" "k \<le> n"
  shows "iov_bytes h (advance_base k b, n - k) = drop k (iov_bytes h (b, n)) \<and> iov_ok h a (advance_base k b, n - k)"
  using assms by (cases b) (auto simp: drop_take add.commute)

lemma iov_zero: "iov_ok h a (b, n) \<Longrightarrow> iov_bytes h (b, 0) = [] \<and> iov_ok h a (b, 0)"
  by (cases b) auto

lemma post_iovs_spec:
  assumes "\<forall>v \<in> set vs. iov_ok h a v" "res < sum_list (map snd vs)" "post_iovs x 0 res vs = (vs', res', sent)"
  shows "concat (map (iov_bytes h) vs') = drop res (concat (map (iov_bytes h) vs)) \<and> (\<forall>v \<in> set vs'. iov_ok h a v) \<and> length vs' = length vs \<and>
    sum_list (map snd vs') = sum_list (map snd vs) - res \<and> res' = 0 \<and> sent = res"
  using assms
proof (induction vs arbitrary: x res vs' res' sent)
  case (Cons v vs)
  obtain b n where v: "v = (b, n)" by (cases v)
  have ok: "iov_ok h a (b, n)" "\<forall>v \<in> set vs. iov_ok h a v" using Cons.prems(1) by (simp_all add: v)
  have ln: "length (iov_bytes h (b, n)) = n" using iov_length [OF ok(1)] by simp
  show ?case
  proof (cases "n \<le> res")
    case True
    obtain ws r2 s2 where p: "post_iovs (x + 1) 0 (res - n) vs = (ws, r2, s2)" by (metis prod_cases3)
    from Cons.IH [OF ok(2) _ p] Cons.prems(2) True have i: "concat (map (iov_bytes h) ws) = drop (res - n) (concat (map (iov_bytes h) vs))"
      "\<forall>v \<in> set ws. iov_ok h a v" "length ws = length vs" "sum_list (map snd ws) = sum_list (map snd vs) - (res - n)" "r2 = 0" "s2 = res - n"
      by (auto simp: v)
    have "vs' = (b, 0) # ws" "res' = r2" "sent = n + s2" using Cons.prems(3) True p by (simp_all add: v)
    then show ?thesis using i iov_zero [OF ok(1)] ln True by (simp add: v)
  next
    case False
    then have "vs' = (advance_base res b, n - res) # vs" "res' = 0" "sent = res" using Cons.prems(3) by (auto simp: v)
    then show ?thesis using iov_advance [OF ok(1), of res] ok(2) ln False by (auto simp: v)
  qed
qed simp

lemma resp_kept:
  assumes "rs_item r \<noteq> NULL \<longrightarrow> idata (h' (rs_item r)) = idata (h (rs_item r))" "resp_ok h r"
  shows "resp_ok h' r \<and> resp_out h' r = resp_out h r"
proof -
  have "iov_ok h' (rs_item r) v \<and> iov_bytes h' v = iov_bytes h v" if "v \<in> set (rs_iov r)" for v
    using assms that unfolding resp_ok_def by (cases "(h, rs_item r, v)" rule: iov_ok.cases) auto
  then show ?thesis using assms(2) by (auto simp: resp_ok_def resp_out_def cong: map_cong)
qed

lemma resps_kept:
  assumes "data_kept (live m (\<lambda>a. B a + held_by rs a)) s s'" "\<forall>r \<in> set rs. resp_ok (heap s) r"
  shows "(\<forall>r \<in> set rs. resp_ok (heap s') r) \<and> pending (heap s') rs = pending (heap s) rs"
proof -
  have "resp_ok (heap s') r \<and> resp_out (heap s') r = resp_out (heap s) r" if r: "r \<in> set rs" for r
  proof (rule resp_kept)
    show "rs_item r \<noteq> NULL \<longrightarrow> idata (heap s' (rs_item r)) = idata (heap s (rs_item r))"
    proof
      assume "rs_item r \<noteq> NULL"
      then have "r \<in> set (filter (\<lambda>x. rs_item x = rs_item r \<and> rs_item r \<noteq> NULL) rs)" using r by simp
      then have "0 < held_by rs (rs_item r)" unfolding held_by_def by (rule length_pos_if_in_set)
      then show "idata (heap s' (rs_item r)) = idata (heap s (rs_item r))" using assms(1) by (simp add: data_kept_def live_def same_data_def)
    qed
  qed (use assms(2) r in simp)
  then show ?thesis by (auto simp: pending_def intro!: arg_cong [where f = concat])
qed

lemma resp_finish_inv:
  assumes "items_inv hash s m Q F H (\<lambda>a. B a + held_by (r # rs) a)"
  shows "\<exists>s'. resp_finish r s = Some s' \<and> (\<exists>Q F H. items_inv hash s' m Q F H (\<lambda>a. B a + held_by rs a)) \<and> data_kept (live m (\<lambda>a. B a + held_by rs a)) s s'"
proof (cases "rs_item r = NULL")
  case True
  then have "(\<lambda>a. B a + held_by (r # rs) a) = (\<lambda>a. B a + held_by rs a)" by (auto simp: fun_eq_iff held_by_simps)
  then show ?thesis using assms True by (auto simp: resp_finish_def)
next
  case False
  let ?R = "\<lambda>a. B a + held_by (r # rs) a" and ?a = "rs_item r"
  have R: "?R(?a := ?R ?a - 1) = (\<lambda>a. B a + held_by rs a)" using False by (auto simp: fun_eq_iff held_by_simps)
  have "0 < ?R ?a" using False by (simp add: held_by_simps)
  from do_item_remove_inv [OF assms this] show ?thesis unfolding R using False by (auto simp: resp_finish_def item_remove_def Let_def)
qed

lemma transmit_post_inv:
  assumes "items_inv hash s m Q F H (\<lambda>a. B a + held_by rs a)" "\<forall>r \<in> set rs. resp_ok (heap s) r" "res \<le> length (pending (heap s) rs)"
  shows "\<exists>rs' s'. transmit_post res rs s = Some (rs', s') \<and> (\<exists>Q F H. items_inv hash s' m Q F H (\<lambda>a. B a + held_by rs' a)) \<and>
    (\<forall>r \<in> set rs'. resp_ok (heap s') r) \<and> pending (heap s') rs' = drop res (pending (heap s) rs) \<and>
    data_kept (live m (\<lambda>a. B a + held_by rs' a)) s s' \<and> (\<forall>a. held_by rs' a \<le> held_by rs a) \<and> (rs' = [] \<longleftrightarrow> res = length (pending (heap s) rs))"
  using assms
proof (induction rs arbitrary: s Q F H res)
  case Nil
  then show ?case by (auto simp: pending_simps)
next
  case (Cons r rs)
  note inv = Cons.prems(1)
  have ok: "resp_ok (heap s) r" "\<forall>r \<in> set rs. resp_ok (heap s) r" using Cons.prems(2) by simp_all
  have fin: ?case if go: "transmit_post res (r # rs) s = do { s1 \<leftarrow> resp_finish r s; transmit_post (res - n) rs s1 }"
    and n: "n = length (resp_out (heap s) r)" "n \<le> res" for n
  proof -
    from resp_finish_inv [OF inv] obtain s1 Q1 F1 H1 where s1: "resp_finish r s = Some s1" "items_inv hash s1 m Q1 F1 H1 (\<lambda>a. B a + held_by rs a)"
      "data_kept (live m (\<lambda>a. B a + held_by rs a)) s s1" by blast
    note k = resps_kept [OF s1(3) ok(2)]
    have "res - n \<le> length (pending (heap s1) rs)" using Cons.prems(3) k n by (simp add: pending_simps)
    from Cons.IH [OF s1(2) conjunct1 [OF k] this] obtain rs' s' where
      r: "transmit_post (res - n) rs s1 = Some (rs', s')" "\<exists>Q F H. items_inv hash s' m Q F H (\<lambda>a. B a + held_by rs' a)" "\<forall>r \<in> set rs'. resp_ok (heap s') r"
        "pending (heap s') rs' = drop (res - n) (pending (heap s1) rs)" "data_kept (live m (\<lambda>a. B a + held_by rs' a)) s1 s'"
        "\<forall>a. held_by rs' a \<le> held_by rs a" "rs' = [] \<longleftrightarrow> res - n = length (pending (heap s1) rs)" by blast
    have sub: "live m (\<lambda>a. B a + held_by rs' a) \<subseteq> live m (\<lambda>a. B a + held_by rs a)"
    proof
      fix x assume "x \<in> live m (\<lambda>a. B a + held_by rs' a)"
      then show "x \<in> live m (\<lambda>a. B a + held_by rs a)" using spec [OF r(6), of x] by (auto simp: live_def)
    qed
    have dk: "data_kept (live m (\<lambda>a. B a + held_by rs' a)) s s'" by (rule data_kept_trans [OF s1(3) r(5) sub order_refl])
    have p: "pending (heap s') rs' = drop res (pending (heap s) (r # rs))" using r(4) k n by (simp add: pending_simps)
    have h: "\<forall>a. held_by rs' a \<le> held_by (r # rs) a" using r(6) by (auto simp: held_by_simps intro: le_SucI)
    have e: "rs' = [] \<longleftrightarrow> res = length (pending (heap s) (r # rs))" using r(7) k n by (auto simp: pending_simps)
    show ?thesis unfolding go s1(1) Option.bind.bind_lunit using r(1,2,3) p dk h e by blast
  qed
  have len: "length (resp_out (heap s) r) = rs_tosend r" if "\<not> rs_skip r"
    using ok(1) that iovs_length [of "rs_iov r" "heap s" "rs_item r"] by (simp add: resp_ok_def resp_out_def)
  show ?case
  proof (cases "rs_skip r")
    case True
    then show ?thesis by (intro fin [of 0]) (simp_all add: resp_out_def)
  next
    case ns: False
    show ?thesis
    proof (cases "rs_tosend r \<le> res")
      case True
      then show ?thesis using ns len by (intro fin [of "rs_tosend r"]) simp_all
    next
      case False
      obtain vs' res' sent where p: "post_iovs 0 (rs_chunked_iov r) res (rs_iov r) = (vs', res', sent)" by (metis prod_cases3)
      have c: "rs_chunked_iov r = 0" "\<forall>v \<in> set (rs_iov r). iov_ok (heap s) (rs_item r) v" "res < sum_list (map snd (rs_iov r))"
        using ok(1) False by (simp_all add: resp_ok_def)
      note P = post_iovs_spec [OF c(2,3) p [unfolded c(1)]]
      let ?r = "r\<lparr>rs_iov := vs', rs_tosend := rs_tosend r - sent\<rparr>"
      have go: "transmit_post res (r # rs) s = Some (?r # rs, s)" using ns False p P by simp
      have okr: "resp_ok (heap s) ?r" using P ok(1) by (simp add: resp_ok_def)
      have pd: "pending (heap s) (?r # rs) = drop res (pending (heap s) (r # rs))"
        using P ns False len by (simp add: pending_simps resp_out_def)
      have "held_by (?r # rs) a = held_by (r # rs) a" for a by (simp add: held_by_simps)
      then show ?thesis using go okr pd ok(2) inv ns False len by (auto simp: pending_simps)
    qed
  qed
qed

lemma transmit_pre_spec:
  assumes "\<forall>r \<in> set rs. resp_ok h r"
  shows "\<exists>vs rest. transmit_pre h rs n False = Some vs \<and> pending h rs = concat (map (iov_bytes h) vs) @ rest \<and> (n + 4 < IOV_MAX - 1 \<and> vs = [] \<longrightarrow> pending h rs = [])"
  using assms
proof (induction rs arbitrary: n)
  case (Cons r rs)
  have r: "rs_chunked_iov r = 0" "length (rs_iov r) \<le> 4" using Cons.prems by (simp_all add: resp_ok_def)
  from Cons.IH [of n] Cons.prems obtain us rest1 where u: "transmit_pre h rs n False = Some us" "pending h rs = concat (map (iov_bytes h) us) @ rest1"
    "n + 4 < IOV_MAX - 1 \<and> us = [] \<longrightarrow> pending h rs = []" by auto
  from Cons.IH [of "n + length (rs_iov r)"] Cons.prems obtain ws rest where w: "transmit_pre h rs (n + length (rs_iov r)) False = Some ws"
    "pending h rs = concat (map (iov_bytes h) ws) @ rest" "n + length (rs_iov r) + 4 < IOV_MAX - 1 \<and> ws = [] \<longrightarrow> pending h rs = []" by auto
  consider "\<not> n + length (rs_iov r) < IOV_MAX - 1" | "n + length (rs_iov r) < IOV_MAX - 1" "rs_skip r" | "n + length (rs_iov r) < IOV_MAX - 1" "\<not> rs_skip r" by blast
  then show ?case
  proof cases
    case 1
    then show ?thesis using r(2) by (intro exI [of _ "[]"] exI [of _ "pending h (r # rs)"]) simp
  next
    case 2
    then show ?thesis using u by (intro exI [of _ us] exI [of _ rest1]) (simp add: pending_simps resp_out_def)
  next
    case 3
    then show ?thesis using w r
      by (intro exI [of _ "rs_iov r @ ws"] exI [of _ rest]) (auto simp: pending_simps resp_out_def)
  qed
qed (simp add: pending_simps)

text \<open>No byte is lost, sent twice or out of order: what was sent and what is still to be sent stay the same together.\<close>

lemma transmit_inv:
  fixes s :: "'a store_scheme"
  assumes inv: "items_inv hash s m Q F H (\<lambda>a. B a + held_by (resps c) a)" and ok: "\<forall>r \<in> set (resps c). resp_ok (heap s) r"
  shows "\<exists>c' s' r. transmit (c, s) = Some ((c', s'), r) \<and> wire c' @ pending (heap s') (rev (resps c')) = wire c @ pending (heap s) (rev (resps c)) \<and>
    (\<exists>Q F H. items_inv hash s' m Q F H (\<lambda>a. B a + held_by (resps c') a)) \<and> (\<forall>r \<in> set (resps c'). resp_ok (heap s') r) \<and>
    data_kept (live m (\<lambda>a. B a + held_by (resps c') a)) s s' \<and> (r = TRANSMIT_COMPLETE \<longleftrightarrow> resps c' = []) \<and>
    (r \<in> {TRANSMIT_SOFT_ERROR, TRANSMIT_HARD_ERROR} \<longrightarrow> s' = s \<and> resps c' = resps c) \<and> cstate c' = (if r = TRANSMIT_HARD_ERROR then conn_closing else cstate c)"
proof -
  let ?rs = "rev (resps c)"
  have i: "items_inv hash s m Q F H (\<lambda>a. B a + held_by ?rs a)" using inv by (simp add: held_by_simps)
  have o: "\<forall>r \<in> set ?rs. resp_ok (heap s) r" using ok by simp
  from transmit_pre_spec [OF o, of 0] obtain vs rest where v: "transmit_pre (heap s) ?rs 0 False = Some vs"
    "pending (heap s) ?rs = concat (map (iov_bytes (heap s)) vs) @ rest" "vs = [] \<longrightarrow> pending (heap s) ?rs = []" by auto
  have post: "\<exists>rs' s'. transmit_post res ?rs s = Some (rs', s') \<and> (\<exists>Q F H. items_inv hash s' m Q F H (\<lambda>a. B a + held_by (rev rs') a)) \<and>
      (\<forall>r \<in> set (rev rs'). resp_ok (heap s') r) \<and> pending (heap s') rs' = drop res (pending (heap s) ?rs) \<and>
      data_kept (live m (\<lambda>a. B a + held_by (rev rs') a)) s s' \<and> (rs' = [] \<longleftrightarrow> res = length (pending (heap s) ?rs))"
    if "res \<le> length (pending (heap s) ?rs)" for res
    using transmit_post_inv [OF i o that] by (simp add: held_by_simps) blast
  have full: "resps c \<noteq> []" if "vs \<noteq> []" using v(1) that by auto
  show ?thesis
  proof (cases "vs = []")
    case True
    then have e: "pending (heap s) ?rs = []" using v(3) by simp
    from post [of 0] obtain s' where p: "transmit_post 0 ?rs s = Some ([], s')" "\<exists>Q F H. items_inv hash s' m Q F H (\<lambda>a. B a + held_by [] a)"
      "data_kept (live m (\<lambda>a. B a + held_by [] a)) s s'" using e by auto
    have "transmit (c, s) = Some ((c\<lparr>resps := []\<rparr>, s'), TRANSMIT_COMPLETE)" using True v(1) p(1) by (simp add: transmit_def)
    then show ?thesis using p(2,3) e
      by (intro exI [of _ "c\<lparr>resps := []\<rparr>"] exI [of _ s'] exI [of _ TRANSMIT_COMPLETE]) (simp add: pending_simps held_by_simps)
  next
    case nv: False
    let ?out = "concat (map (iov_bytes (heap s)) vs)"
    show ?thesis
    proof (cases "\<exists>n later. sends c = Sent n # later")
      case True
      then obtain n later where n: "sends c = Sent n # later" by blast
      let ?res = "min n (length ?out)"
      have le: "?res \<le> length (pending (heap s) ?rs)" unfolding v(2) by (simp del: length_concat)
    from post [OF le] obtain rs' s' where p: "transmit_post ?res ?rs s = Some (rs', s')" "\<exists>Q F H. items_inv hash s' m Q F H (\<lambda>a. B a + held_by (rev rs') a)"
        "\<forall>r \<in> set (rev rs'). resp_ok (heap s') r" "pending (heap s') rs' = drop ?res (pending (heap s) ?rs)" "data_kept (live m (\<lambda>a. B a + held_by (rev rs') a)) s s'" by blast
      let ?c = "c\<lparr>resps := rev rs', sends := later, wire := wire c @ take ?res ?out\<rparr>"
      have t: "transmit (c, s) = Some ((?c, s'), if rs' \<noteq> [] then TRANSMIT_INCOMPLETE else TRANSMIT_COMPLETE)"
        using nv v(1) n p(1) by (simp add: transmit_def Let_def del: length_concat)
      have "take ?res ?out = take ?res (pending (heap s) ?rs)" using v(2) by simp
      then have "wire ?c @ pending (heap s') (rev (resps ?c)) = wire c @ pending (heap s) ?rs" using p(4) by simp
      then show ?thesis using t p(2,3,5)
        by (intro exI [of _ ?c] exI [of _ s'] exI [of _ "if rs' \<noteq> [] then TRANSMIT_INCOMPLETE else TRANSMIT_COMPLETE"]) simp
    next
      case False
      then obtain c' r where t: "transmit (c, s) = Some ((c', s), r)" "resps c' = resps c" "wire c' = wire c" "r = TRANSMIT_SOFT_ERROR \<and> cstate c' = cstate c \<or> r = TRANSMIT_HARD_ERROR \<and> cstate c' = conn_closing"
      proof (cases "sends c")
        case Nil
        then have "transmit (c, s) = Some ((c, s), TRANSMIT_SOFT_ERROR)" using nv v(1) by (simp add: transmit_def)
        then show ?thesis using that by blast
      next
        case (Cons x later)
        show ?thesis
        proof (cases x)
          case (Sent n)
          then show ?thesis using False Cons by blast
        next
          case Send_again
          then have "transmit (c, s) = Some ((c\<lparr>sends := later\<rparr>, s), TRANSMIT_SOFT_ERROR)" using nv v(1) Cons by (simp add: transmit_def)
          then show ?thesis using that by simp
        next
          case Send_error
          then have "transmit (c, s) = Some ((conn_set_state conn_closing (c\<lparr>sends := later\<rparr>), s), TRANSMIT_HARD_ERROR)" using nv v(1) Cons by (simp add: transmit_def)
          then show ?thesis using that by (simp add: conn_set_state_def)
        qed
      qed
      then show ?thesis using full [OF nv] inv ok by auto
    qed
  qed
qed

text \<open>
  A full read buffer that cannot grow is answered with an error line; when no response has been started, there is no object to write it to, and
  the code follows a NULL pointer.
\<close>

lemma try_read_network_null:
  assumes "buffer_full c" "rcurr c = 0" "resps c = []" "mallocs c = NULL # ps"
  shows "try_read_network (c, s) = None"
proof -
  have "read_round True READ_NO_DATA_RECEIVED (c, s) = None"
    using assms(3,4) by (simp add: read_round_def next_malloc_def out_of_memory_def out_string_def resp_reset_def)
  then have "read_loop (Suc 3) READ_NO_DATA_RECEIVED (c, s) = None" unfolding read_loop.simps(2) by simp
  moreover have "(4 :: nat) = Suc 3" by simp
  ultimately have "read_loop 4 READ_NO_DATA_RECEIVED (c, s) = None" by presburger
  then show ?thesis using assms(1,2) by (simp add: try_read_network_def)
qed

section \<open>Sending all of it\<close>

text \<open>
  The state \<^verbatim>\<open>conn_mwrite\<close> of \<^verbatim>\<open>drive_machine\<close>, without queued I/O of the external storage. The flag says that the machine stops and waits for
  the socket, after which it comes back to the same state.
\<close>

definition mwrite_turn :: "conn \<times> 'a store_scheme \<Rightarrow> ((conn \<times> 'a store_scheme) \<times> bool) option" where
  "mwrite_turn cs = do {
     ((c1, s1), r) \<leftarrow> transmit cs;
     case r of
       TRANSMIT_COMPLETE \<Rightarrow>
         if cstate c1 = conn_mwrite
         then do {
           (c2, s2) \<leftarrow> conn_release_items (c1, s1);
           let c3 = conn_set_state conn_new_cmd c2;
           Some ((if close_after_write c3 then conn_set_state conn_closing c3 else c3, s2), False)
         }
         else Some ((conn_set_state conn_closing c1, s1), False)
     | TRANSMIT_INCOMPLETE \<Rightarrow> Some ((c1, s1), False)
     | TRANSMIT_HARD_ERROR \<Rightarrow> Some ((c1, s1), False)
     | TRANSMIT_SOFT_ERROR \<Rightarrow> Some ((c1, s1), True)
   }"

text \<open>At most \<open>n\<close> turns of the machine in this state.\<close>

primrec mwrite_loop :: "nat \<Rightarrow> conn \<times> 'a store_scheme \<Rightarrow> (conn \<times> 'a store_scheme) option" where
  "mwrite_loop 0 cs = Some cs"
| "mwrite_loop (Suc n) cs =
    (if cstate (fst cs) \<in> {conn_write, conn_mwrite} then do { (cs1, stop) \<leftarrow> mwrite_turn cs; mwrite_loop n cs1 } else Some cs)"

lemma transmit_frame:
  assumes "transmit (c, s) = Some ((c', s'), r)"
  shows "c_item c' = c_item c" "close_after_write c' = close_after_write c"
    "r = TRANSMIT_COMPLETE \<or> sends c' = tl (sends c) \<and>
      (case sends c of Sent n # later \<Rightarrow> r = TRANSMIT_INCOMPLETE | Send_error # later \<Rightarrow> r = TRANSMIT_HARD_ERROR | _ \<Rightarrow> r = TRANSMIT_SOFT_ERROR)"
  using assms by (auto simp: transmit_def conn_set_state_def Let_def split: Option.bind_splits if_splits list.splits send_result.splits)

lemma transmit_post_length: "transmit_post res rs s = Some (rs', s') \<Longrightarrow> length rs' \<le> length rs"
proof (induction res rs s arbitrary: rs' s' rule: transmit_post.induct)
  case (2 res r rs s)
  then show ?case by (fastforce split: if_splits prod.splits Option.bind_splits intro: le_SucI)
qed simp

text \<open>A call that takes at least one byte makes progress, if only by finishing a response with nothing left to send.\<close>

lemma transmit_progress:
  assumes ok: "\<forall>r \<in> set (resps c). resp_ok (heap s) r" and n: "sends c = Sent n # later" "0 < n"
    and t: "transmit (c, s) = Some ((c', s'), TRANSMIT_INCOMPLETE)"
  shows "length (wire c) \<le> length (wire c') \<and>
    (length (resps c') < length (resps c) \<or> length (resps c') \<le> length (resps c) \<and> length (wire c) < length (wire c'))"
proof -
  from t n(1) obtain vs rs' where v: "transmit_pre (heap s) (rev (resps c)) 0 False = Some vs" and
    p: "transmit_post (min n (length (concat (map (iov_bytes (heap s)) vs)))) (rev (resps c)) s = Some (rs', s')"
      "resps c' = rev rs'" "wire c' = wire c @ take (min n (length (concat (map (iov_bytes (heap s)) vs)))) (concat (map (iov_bytes (heap s)) vs))" "rs' \<noteq> []"
    by (auto simp: transmit_def Let_def split: Option.bind_splits if_splits simp del: length_concat)
  let ?out = "concat (map (iov_bytes (heap s)) vs)"
  let ?res = "min n (length ?out)"
  have le: "length (resps c') \<le> length (resps c)" using transmit_post_length [OF p(1)] p(2) by simp
  obtain r rs where r: "rev (resps c) = r # rs" using p(1,4) by (cases "rev (resps c)") auto
  have lr: "length (resps c) = Suc (length rs)" using arg_cong [OF r, of length] by simp
  have okr: "resp_ok (heap s) r" using ok r by (metis list.set_intros(1) set_rev)
  show ?thesis
  proof (cases "rs_skip r \<or> rs_tosend r \<le> ?res")
    case True
    then obtain s1 k where "transmit_post k rs s1 = Some (rs', s')" using p(1) unfolding r by (auto split: if_splits Option.bind_splits simp del: length_concat)
    from transmit_post_length [OF this] show ?thesis using p(2,3) lr by simp
  next
    case False
    then obtain ws where "vs = rs_iov r @ ws" using v okr unfolding r by (auto simp: resp_ok_def split: if_splits Option.bind_splits)
    moreover have "length (concat (map (iov_bytes (heap s)) (rs_iov r))) = rs_tosend r" using okr iovs_length [of "rs_iov r" "heap s" "rs_item r"] by (simp add: resp_ok_def)
    ultimately have "rs_tosend r \<le> length ?out" by (simp del: length_concat)
    then have "0 < ?res" using False n(2) by (simp del: length_concat)
    then show ?thesis using le p(3) by (simp del: length_concat)
  qed
qed

lemma mwrite_loop_stays: "cstate c \<notin> {conn_write, conn_mwrite} \<Longrightarrow> mwrite_loop n (c, s) = Some (c, s)"
  by (cases n) auto

abbreviation answers :: "conn \<Rightarrow> nat" where
  "answers c \<equiv> length (filter (\<lambda>x. x \<noteq> Send_again) (sends c))"

text \<open>One turn ends the writing, or leaves less to do.\<close>

lemma mwrite_turn_inv:
  fixes s :: "'a store_scheme"
  assumes inv: "items_inv hash s m Q F H (\<lambda>a. B a + held_by (resps c) a)" and ok: "\<forall>r \<in> set (resps c). resp_ok (heap s) r"
    and c: "cstate c = conn_mwrite" "c_item c = NULL"
    and net: "length (resps c) + length (pending (heap s) (rev (resps c))) \<le> answers c" "Send_error \<notin> set (sends c)" "Sent 0 \<notin> set (sends c)"
  shows "\<exists>c' s' stop. mwrite_turn (c, s) = Some ((c', s'), stop) \<and> wire c' @ pending (heap s') (rev (resps c')) = wire c @ pending (heap s) (rev (resps c)) \<and>
    (\<exists>Q F H. items_inv hash s' m Q F H (\<lambda>a. B a + held_by (resps c') a)) \<and> (\<forall>r \<in> set (resps c'). resp_ok (heap s') r) \<and> data_kept (live m B) s s' \<and>
    (resps c' = [] \<and> cstate c' = (if close_after_write c then conn_closing else conn_new_cmd) \<or>
     cstate c' = conn_mwrite \<and> c_item c' = NULL \<and> close_after_write c' = close_after_write c \<and> sends c \<noteq> [] \<and> sends c' = tl (sends c) \<and>
     length (resps c') + length (pending (heap s') (rev (resps c'))) \<le> answers c')"
proof -
  from transmit_inv [OF inv ok] obtain c1 s1 r where t: "transmit (c, s) = Some ((c1, s1), r)"
    "wire c1 @ pending (heap s1) (rev (resps c1)) = wire c @ pending (heap s) (rev (resps c))"
    "\<exists>Q F H. items_inv hash s1 m Q F H (\<lambda>a. B a + held_by (resps c1) a)" "\<forall>r \<in> set (resps c1). resp_ok (heap s1) r"
    "data_kept (live m (\<lambda>a. B a + held_by (resps c1) a)) s s1" "r = TRANSMIT_COMPLETE \<longleftrightarrow> resps c1 = []"
    "r \<in> {TRANSMIT_SOFT_ERROR, TRANSMIT_HARD_ERROR} \<longrightarrow> s1 = s \<and> resps c1 = resps c" "cstate c1 = (if r = TRANSMIT_HARD_ERROR then conn_closing else cstate c)" by blast
  note f = transmit_frame [OF t(1)]
  have "live m B \<subseteq> live m (\<lambda>a. B a + held_by (resps c1) a)" by (auto simp: live_def)
  then have dk: "data_kept (live m B) s s1" using t(5) by (auto simp: data_kept_def)
  have len: "length (wire c1) + length (pending (heap s1) (rev (resps c1))) = length (wire c) + length (pending (heap s) (rev (resps c)))"
    using arg_cong [OF t(2), of length] by simp
  show ?thesis
  proof (cases "r = TRANSMIT_COMPLETE")
    case True
    then have e: "resps c1 = []" using t(6) by simp
    let ?c2 = "c1\<lparr>cstate := if close_after_write c then conn_closing else conn_new_cmd\<rparr>"
    have "c1\<lparr>resps := []\<rparr> = c1" using e by simp
    then have "conn_release_items (c1, s1) = Some (c1, s1)" using e f(1) c(2) by (simp add: conn_release_items_def)
    then have "mwrite_turn (c, s) = Some ((?c2, s1), False)"
      using True t(1,8) c(1) f(2) by (simp add: mwrite_turn_def conn_set_state_def)
    then show ?thesis using t(2-4) dk e by (intro exI [of _ ?c2] exI [of _ s1] exI [of _ False]) simp
  next
    case False
    then have g: "sends c1 = tl (sends c)" and
      k: "case sends c of Sent n # later \<Rightarrow> r = TRANSMIT_INCOMPLETE | Send_error # later \<Rightarrow> r = TRANSMIT_HARD_ERROR | _ \<Rightarrow> r = TRANSMIT_SOFT_ERROR" using f(3) by auto
    have ne: "sends c \<noteq> []"
    proof
      assume e: "sends c = []"
      then have "resps c = []" using net(1) by simp
      then have "resps c1 = []" using t(7) k e by simp
      then show False using t(6) False by simp
    qed
    then obtain x later where x: "sends c = x # later" by (cases "sends c") auto
    have r: "r \<in> {TRANSMIT_SOFT_ERROR, TRANSMIT_INCOMPLETE}" using k net(2) by (cases x) (auto simp: x)
    have l1: "length (resps c1) + length (pending (heap s1) (rev (resps c1))) \<le> answers c1"
    proof (cases "r = TRANSMIT_INCOMPLETE")
      case True
      then obtain n where n: "x = Sent n" "0 < n" using k net(2,3) by (cases x) (auto simp: x)
      then show ?thesis using transmit_progress [OF ok _ n(2), of later c1 s1] t(1) True x len net(1) g by auto
    next
      case soft: False
      then have "x = Send_again" "s1 = s" "resps c1 = resps c" using r k t(7) by (cases x; simp add: x)+
      then show ?thesis using net(1) g by (simp add: x)
    qed
    have "mwrite_turn (c, s) = Some ((c1, s1), r = TRANSMIT_SOFT_ERROR)" using r t(1) by (auto simp: mwrite_turn_def)
    moreover have "cstate c1 = conn_mwrite" using t(8) r c(1) by auto
    ultimately show ?thesis using t(2-4) dk f(1,2) c(2) ne g l1
      by (intro exI [of _ c1] exI [of _ s1] exI [of _ "r = TRANSMIT_SOFT_ERROR"]) simp
  qed
qed

section \<open>Properties\<close>

text \<open>
  C9. All of it goes out. A connection that is to write, on a socket that takes at least one byte whenever it does not ask to wait, sends every byte
  that is pending exactly once and in order, however the socket cuts it; when the turns are over each queued response has given up its item, the connection
  is ready for the next command or to be closed, the store is consistent, and the data of stored and otherwise held items is untouched.
\<close>

theorem write_spec:
  fixes s :: "'a store_scheme"
  assumes inv: "items_inv hash s m Q F H (\<lambda>a. B a + held_by (resps c) a)" and ok: "\<forall>r \<in> set (resps c). resp_ok (heap s) r"
    and c: "cstate c = conn_mwrite" "c_item c = NULL"
    and net: "length (resps c) + length (pending (heap s) (rev (resps c))) \<le> answers c" "Send_error \<notin> set (sends c)" "Sent 0 \<notin> set (sends c)"
  shows "\<exists>c' s'. mwrite_loop (length (sends c) + 1) (c, s) = Some (c', s') \<and> wire c' = wire c @ pending (heap s) (rev (resps c)) \<and> resps c' = [] \<and>
    cstate c' = (if close_after_write c then conn_closing else conn_new_cmd) \<and> (\<exists>Q F H. items_inv hash s' m Q F H B) \<and> data_kept (live m B) s s'"
  using assms
proof (induction "length (sends c)" arbitrary: c s Q F H)
  case 0
  have e: "sends c = []" using 0(1) by simp
  from mwrite_turn_inv [OF 0(2-)] obtain c1 s1 stop where t: "mwrite_turn (c, s) = Some ((c1, s1), stop)"
    "wire c1 @ pending (heap s1) (rev (resps c1)) = wire c @ pending (heap s) (rev (resps c))"
    "\<exists>Q F H. items_inv hash s1 m Q F H (\<lambda>a. B a + held_by (resps c1) a)" "data_kept (live m B) s s1"
    and "resps c1 = [] \<and> cstate c1 = (if close_after_write c then conn_closing else conn_new_cmd) \<or> sends c \<noteq> []" by blast
  then have "resps c1 = []" "cstate c1 = (if close_after_write c then conn_closing else conn_new_cmd)" using e by simp_all
  then show ?case using t e 0(4) by (simp add: pending_simps held_by_simps)
next
  case (Suc n)
  note A = Suc(3-)
  from mwrite_turn_inv [OF A] obtain c1 s1 stop where t: "mwrite_turn (c, s) = Some ((c1, s1), stop)"
    "wire c1 @ pending (heap s1) (rev (resps c1)) = wire c @ pending (heap s) (rev (resps c))"
    "\<exists>Q F H. items_inv hash s1 m Q F H (\<lambda>a. B a + held_by (resps c1) a)" "\<forall>r \<in> set (resps c1). resp_ok (heap s1) r" "data_kept (live m B) s s1"
    and or: "resps c1 = [] \<and> cstate c1 = (if close_after_write c then conn_closing else conn_new_cmd) \<or>
     cstate c1 = conn_mwrite \<and> c_item c1 = NULL \<and> close_after_write c1 = close_after_write c \<and> sends c \<noteq> [] \<and> sends c1 = tl (sends c) \<and>
     length (resps c1) + length (pending (heap s1) (rev (resps c1))) \<le> answers c1" by (elim exE conjE) (rule that, assumption, assumption, blast, assumption+)
  have go: "mwrite_loop (length (sends c) + 1) (c, s) = mwrite_loop (length (sends c)) (c1, s1)" using A(3) t(1) by simp
  show ?case
  proof (cases "resps c1 = [] \<and> cstate c1 = (if close_after_write c then conn_closing else conn_new_cmd)")
    case True
    then have "mwrite_loop (length (sends c)) (c1, s1) = Some (c1, s1)" by (intro mwrite_loop_stays) simp
    then show ?thesis unfolding go using True t(2,3,5) by (auto simp: pending_simps held_by_simps)
  next
    case False
    then have o: "cstate c1 = conn_mwrite" "c_item c1 = NULL" "close_after_write c1 = close_after_write c" "sends c1 = tl (sends c)"
      "length (resps c1) + length (pending (heap s1) (rev (resps c1))) \<le> answers c1" using or by auto
    have n: "n = length (sends c1)" using Suc(2) o(4) by simp
    have "set (sends c1) \<subseteq> set (sends c)" unfolding o(4) by (cases "sends c") auto
    then have e: "Send_error \<notin> set (sends c1)" "Sent 0 \<notin> set (sends c1)" using A(6,7) by auto
    from t(3) obtain Q1 F1 H1 where i: "items_inv hash s1 m Q1 F1 H1 (\<lambda>a. B a + held_by (resps c1) a)" by blast
    from Suc(1) [OF n i t(4) o(1,2,5) e] obtain c2 s2 where r: "mwrite_loop (length (sends c1) + 1) (c1, s1) = Some (c2, s2)"
      "wire c2 = wire c1 @ pending (heap s1) (rev (resps c1))" "resps c2 = []" "cstate c2 = (if close_after_write c1 then conn_closing else conn_new_cmd)"
      "\<exists>Q F H. items_inv hash s2 m Q F H B" "data_kept (live m B) s1 s2" by blast
    have "length (sends c1) + 1 = length (sends c)" using n Suc(2) by simp
    then show ?thesis unfolding go using r t(2) o(3) data_kept_tr [OF t(5) r(6)] by auto
  qed
qed

text \<open>A connection with the given bytes to parse, and one thread's counters at zero.\<close>

definition demo_conn :: "bytes \<Rightarrow> conn" where
  "demo_conn input = \<lparr>noreply = False, cstate = conn_parse_cmd, resps = [], resp_supply = [True], c_item = NULL, c_cmd = NREAD_SET, ritem = NULL, roff = 0,
     rlbytes = 0, sbytes = 0, mset_res = False, close_after_write = False, rbuf = input, rsize = 16384, rcurr = 0, rbytes = length input, rbuf_malloced = False,
     rbuf_at = 8192, rbuf_cache = \<lparr>name = [], head = [], bufsize = 16384, total = 1, freecurr = 0, limit = 0\<rparr>, mallocs = [65536], net = [], sends = [],
     wire = [], detail_enabled = True, process_started = 0, ptab = stats_prefix_init 58 (zero_table []), touch_cmds = 0, touch_misses = 0, get_cmds = 0,
     get_misses = 0, get_oom_extstore = 0, delete_misses = 0, incr_misses = 0, decr_misses = 0,
     touch_hits = (\<lambda>_. 0), lru_hits = (\<lambda>_. 0), delete_hits = (\<lambda>_. 0), set_cmds = (\<lambda>_. 0)\<rparr>"

theorem write_spec_witness:
  "\<exists>c' s' Q F H. mwrite_loop 7 ((demo_conn [])\<lparr>cstate := conn_mwrite, resps := [\<lparr>rs_item = 4608, rs_iov = [(Base_text [65], 1), (Base_data 4608 0, 3)],
      rs_tosend = 4, rs_chunked_iov = 0, rs_chunked_total = 0, rs_skip = False\<rparr>], sends := [Sent 2, Send_again, Sent 1, Sent 9, Sent 9, Sent 9]\<rparr>, demo_store) = Some (c', s') \<and>
    wire c' = [65, 53, 13, 10] \<and> cstate c' = conn_new_cmd \<and> items_inv demo_hash s' [[65] \<mapsto> 4608] Q F H (demo_SR(4608 := 0))"
proof -
  let ?r = "\<lparr>rs_item = 4608, rs_iov = [(Base_text [65], 1), (Base_data 4608 0, 3)], rs_tosend = 4, rs_chunked_iov = 0, rs_chunked_total = 0, rs_skip = False\<rparr>"
  let ?c = "(demo_conn [])\<lparr>cstate := conn_mwrite, resps := [?r], sends := [Sent 2, Send_again, Sent 1, Sent 9, Sent 9, Sent 9]\<rparr>" and ?B = "demo_SR(4608 := 0)"
  have R: "(\<lambda>a. ?B a + held_by (resps ?c) a) = demo_SR" by (auto simp: held_by_simps)
  have inv: "items_inv demo_hash demo_store [[65] \<mapsto> 4608] ((\<lambda>_. [])(129 := [4608])) (\<lambda>_. []) demo_H (\<lambda>a. ?B a + held_by (resps ?c) a)"
    unfolding R by (rule demo_store_inv(1))
  have ok: "\<forall>r \<in> set (resps ?c). resp_ok (heap demo_store) r" by (simp add: resp_ok_def demo_store_num)
  have p: "pending (heap demo_store) (rev (resps ?c)) = [65, 53, 13, 10]" by (simp add: pending_simps resp_out_def demo_store_num)
  have c: "cstate ?c = conn_mwrite" "c_item ?c = NULL" by (simp_all add: demo_conn_def)
  have net: "length (resps ?c) + length (pending (heap demo_store) (rev (resps ?c))) \<le> answers ?c" "Send_error \<notin> set (sends ?c)" "Sent 0 \<notin> set (sends ?c)"
    unfolding p by simp_all
  have n: "length (sends ?c) + 1 = 7" "wire ?c = []" "\<not> close_after_write ?c" by (simp_all add: demo_conn_def)
  from write_spec [OF inv ok c net, unfolded p n(1,2)] n(3) show ?thesis by (simp only: append_Nil if_False) blast
qed

end
