(* ===== verification/Text_Tokens.thy ===== *)
theory Text_Tokens
  imports Prelude
begin

text \<open>
  The tokenizer of the text protocol, \<^verbatim>\<open>tokenize_command\<close> of \<^verbatim>\<open>proto_text.c\<close>. It works in place: the blanks
  that end a word are overwritten by NUL, and a token is the address of a word in the buffer. The model
  keeps the buffer and the addresses, so that what \<^verbatim>\<open>strcmp\<close> and the number parsers later see of a token is what
  stands in the buffer up to the next NUL.
\<close>

section \<open>Tokens\<close>

record token_t =
  tk_value :: "nat option"
  tk_length :: nat

text \<open>The C string at an offset of a buffer.\<close>

abbreviation cstring :: "bytes \<Rightarrow> nat \<Rightarrow> bytes" where
  "cstring buf p \<equiv> takeWhile (\<lambda>x. x \<noteq> 0) (drop p buf)"

text \<open>
  The loop over the characters: \<open>e\<close> is the position, \<open>s\<close> the start of the current word. The result is
  where it stops, with the tokens found and the buffer. (The source counts in an \<^verbatim>\<open>unsigned int\<close>; command
  buffers are far shorter than 2^32 bytes.)
\<close>

fun tokenize_loop :: "nat \<Rightarrow> nat \<Rightarrow> nat \<Rightarrow> token_t list \<Rightarrow> nat \<Rightarrow> bytes \<Rightarrow> nat \<times> nat \<times> token_t list \<times> bytes" where
  "tokenize_loop 0 e s toks max_tokens buf = (e, s, toks, buf)"
| "tokenize_loop (Suc n) e s toks max_tokens buf =
    (if buf ! e = 32
     then if s \<noteq> e
       then let toks1 = toks @ [\<lparr>tk_value = Some s, tk_length = e - s\<rparr>]; buf1 = buf[e := 0]
            in if length toks1 = max_tokens - 1 then (e + 1, e + 1, toks1, buf1)
               else tokenize_loop n (e + 1) (e + 1) toks1 max_tokens buf1
       else tokenize_loop n (e + 1) (e + 1) toks max_tokens buf
     else tokenize_loop n (e + 1) s toks max_tokens buf)"

definition tokenize_command :: "nat \<Rightarrow> nat \<Rightarrow> bytes \<Rightarrow> token_t list \<times> bytes" where
  "tokenize_command command max_tokens buf =
    (let (e, s, toks, buf1) = tokenize_loop (length (cstring buf command)) command command [] max_tokens buf;
         toks1 = (if s \<noteq> e then toks @ [\<lparr>tk_value = Some s, tk_length = e - s\<rparr>] else toks)
     in (toks1 @ [\<lparr>tk_value = (if buf1 ! e = 0 then None else Some e), tk_length = 0\<rparr>], buf1))"

text \<open>What \<^verbatim>\<open>strcmp\<close> and the parsers see of a token.\<close>

definition tk_text :: "bytes \<Rightarrow> token_t \<Rightarrow> bytes" where
  "tk_text buf t = (case tk_value t of None \<Rightarrow> [] | Some p \<Rightarrow> cstring buf p)"

section \<open>Words\<close>

text \<open>The specification: a line is split at its blanks, and empty pieces are dropped.\<close>

fun split_at :: "byte \<Rightarrow> bytes \<Rightarrow> bytes list" where
  "split_at d [] = [[]]"
| "split_at d (x # xs) = (if x = d then [] # split_at d xs else (case split_at d xs of y # ys \<Rightarrow> (x # y) # ys | [] \<Rightarrow> [[x]]))"

definition words :: "bytes \<Rightarrow> bytes list" where
  "words xs = filter (\<lambda>w. w \<noteq> []) (split_at 32 xs)"

lemma split_at_nonempty [simp]: "split_at d xs \<noteq> []"
  by (cases xs) (auto split: list.splits)

lemma split_word:
  assumes "d \<notin> set w"
  shows "split_at d w = [w]" "split_at d (w @ d # xs) = w # split_at d xs"
  using assms by (induction w) auto

lemma words_word: "32 \<notin> set w \<Longrightarrow> words w = (if w = [] then [] else [w])"
  by (simp add: words_def split_word)

lemma words_blank: "32 \<notin> set w \<Longrightarrow> words (w @ 32 # xs) = (if w = [] then words xs else w # words xs)"
  by (simp add: words_def split_word)

section \<open>The tokenizer finds the words\<close>

lemma cstring_append: "\<lbrakk>0 \<notin> set w; p = length pre\<rbrakk> \<Longrightarrow> cstring (pre @ w @ 0 # post) p = w"
proof -
  assume w: "0 \<notin> set w" and p: "p = length pre"
  have "takeWhile (\<lambda>x. x \<noteq> 0) (w @ 0 # post) = w" using w by (induction w) auto
  then show "cstring (pre @ w @ 0 # post) p = w" by (simp add: p)
qed

text \<open>
  The tokens found from some point of the scan on: their texts in the final buffer, and what remains.
  Nothing before the current word and nothing from the end of the command on is written.
\<close>

definition tokens_of :: "nat \<Rightarrow> nat \<Rightarrow> nat \<Rightarrow> bytes list \<Rightarrow> bytes \<Rightarrow> token_t list \<Rightarrow> bytes \<Rightarrow> bool" where
  "tokens_of q k p ws buf ts buf' \<longleftrightarrow> (\<exists>new e. ts = new @ [\<lparr>tk_value = e, tk_length = 0\<rparr>] \<and>
    map (tk_text buf') new = take k ws \<and> map tk_length new = map length (take k ws) \<and> (\<forall>t \<in> set new. tk_value t \<noteq> None) \<and>
    (case e of None \<Rightarrow> length ws \<le> k | Some r \<Rightarrow> p \<le> r \<and> r \<le> q \<and> words (cstring buf' r) = drop k ws \<and> buf' ! r \<noteq> 0) \<and>
    take p buf' = take p buf \<and> drop q buf' = drop q buf \<and> length buf' = length buf)"

abbreviation finish_tokens :: "nat \<times> nat \<times> token_t list \<times> bytes \<Rightarrow> token_t list \<times> bytes" where
  "finish_tokens r \<equiv> (case r of (e, s, toks, buf1) \<Rightarrow>
     ((if s \<noteq> e then toks @ [\<lparr>tk_value = Some s, tk_length = e - s\<rparr>] else toks)
        @ [\<lparr>tk_value = (if buf1 ! e = 0 then None else Some e), tk_length = 0\<rparr>], buf1))"

lemma tokenize_command_eq:
  "tokenize_command p n buf = finish_tokens (tokenize_loop (length (cstring buf p)) p p [] n buf)"
  by (simp add: tokenize_command_def split: prod.splits)

lemma tokenize_loop_words:
  assumes "0 \<notin> set w" "32 \<notin> set w" "0 \<notin> set rest" "length toks < n - 1" "buf = pre @ w @ rest @ 0 # post"
  shows "\<exists>ts buf'. finish_tokens (tokenize_loop (length rest) (length (pre @ w)) (length pre) toks n buf) = (toks @ ts, buf') \<and>
    tokens_of (length (pre @ w @ rest)) (n - 1 - length toks) (length pre) (words (w @ rest)) buf ts buf'"
  using assms
proof (induction rest arbitrary: w pre toks buf)
  case Nil
  let ?new = "if w = [] then [] else [\<lparr>tk_value = Some (length pre), tk_length = length w\<rparr>]"
  have "cstring buf (length pre) = w" unfolding Nil(5) using cstring_append [OF Nil(1) refl, of pre post] by simp
  then have "tokens_of (length (pre @ w)) (n - 1 - length toks) (length pre) (words w) buf (?new @ [\<lparr>tk_value = None, tk_length = 0\<rparr>]) buf"
    unfolding tokens_of_def words_word [OF Nil(2)] using Nil(4) by (intro exI [of _ ?new] exI [of _ None]) (auto simp: tk_text_def)
  then show ?case using Nil(5) by (auto simp: nth_append)
next
  case (Cons x r)
  let ?q = "length (pre @ w @ x # r)"
  have x: "buf ! length (pre @ w) = x" using Cons.prems(5) by (simp add: nth_append)
  show ?case
  proof (cases "x = 32")
    case False
    have "0 \<notin> set (w @ [x])" "32 \<notin> set (w @ [x])" "0 \<notin> set r" "buf = pre @ (w @ [x]) @ r @ 0 # post"
      using False Cons.prems by auto
    from Cons.IH [OF this(1-3) Cons.prems(4) this(4)] False x show ?thesis by simp
  next
    case blank: True
    show ?thesis
    proof (cases "w = []")
      case True
      have "buf = (pre @ [x]) @ [] @ r @ 0 # post" using Cons.prems(5) True by simp
      from Cons.IH [OF _ _ _ Cons.prems(4) this] Cons.prems(3) True obtain ts buf' where
        t: "finish_tokens (tokenize_loop (length r) (Suc (length pre)) (Suc (length pre)) toks n buf) = (toks @ ts, buf')"
          "tokens_of ?q (n - 1 - length toks) (Suc (length pre)) (words r) buf ts buf'" by auto
      have "tokens_of ?q (n - 1 - length toks) (length pre) (words r) buf ts buf'"
        using t(2) unfolding tokens_of_def by (fastforce split: option.splits dest: arg_cong [of _ _ "take (length pre)"])
      then show ?thesis using t(1) True blank x words_blank [of "[]" r] by simp
    next
      case ne: False
      let ?tok = "\<lparr>tk_value = Some (length pre), tk_length = length w\<rparr>" and ?buf = "buf[length (pre @ w) := 0]"
      have b: "?buf = (pre @ w @ [0]) @ [] @ r @ 0 # post" using Cons.prems(5) by (simp add: list_update_append)
      have ws: "words (w @ x # r) = w # words r" using words_blank [OF Cons.prems(2)] ne blank by simp
      have ext: "tokens_of ?q (Suc k) (length pre) (w # words r) buf (?tok # ts) buf'"
        if t: "tokens_of ?q k (length (pre @ w @ [0])) (words r) ?buf ts buf'" for k ts buf'
      proof -
        from t obtain new e where d: "ts = new @ [\<lparr>tk_value = e, tk_length = 0\<rparr>]" "map (tk_text buf') new = take k (words r)"
          "map tk_length new = map length (take k (words r))" "\<forall>t \<in> set new. tk_value t \<noteq> None"
          "case e of None \<Rightarrow> length (words r) \<le> k | Some q \<Rightarrow> length (pre @ w @ [0]) \<le> q \<and> q \<le> ?q \<and> words (cstring buf' q) = drop k (words r) \<and> buf' ! q \<noteq> 0"
          "take (length (pre @ w @ [0])) buf' = take (length (pre @ w @ [0])) ?buf" "drop ?q buf' = drop ?q ?buf" "length buf' = length ?buf"
          unfolding tokens_of_def by blast
        have tk: "take (length (pre @ w @ [0])) buf' = pre @ w @ [0]" unfolding d(6) b by simp
        then have "buf' = pre @ w @ 0 # drop (length (pre @ w @ [0])) buf'"
          using append_take_drop_id [of "length (pre @ w @ [0])" buf'] by simp
        then have "cstring buf' (length pre) = w" using cstring_append [OF Cons.prems(1) refl] by metis
        moreover have "take (length pre) buf' = take (length pre) buf"
          using arg_cong [OF tk, of "take (length pre)"] Cons.prems(5) by (simp add: min_def)
        ultimately show ?thesis
          unfolding tokens_of_def using d by (intro exI [of _ "?tok # new"] exI [of _ e]) (auto simp: tk_text_def split: option.splits)
      qed
      show ?thesis
      proof (cases "length toks + 1 = n - 1")
        case True
        let ?e = "length (pre @ w @ [0])"
        let ?last = "\<lparr>tk_value = (if ?buf ! ?e = 0 then None else Some ?e), tk_length = 0\<rparr>"
        have cs: "cstring ?buf ?e = r" unfolding b using cstring_append [of r "?e" "pre @ w @ [0]" post] Cons.prems(3) by simp
        have z: "?buf ! ?e = 0 \<longleftrightarrow> r = []"
          unfolding b using Cons.prems(3) by (cases r) (auto simp: nth_append)
        have "tokens_of ?q 0 ?e (words r) ?buf [?last] ?buf"
          unfolding tokens_of_def using cs z by (intro exI [of _ "[]"] exI [of _ "tk_value ?last"]) (auto simp: words_def)
        from ext [OF this] have "tokens_of ?q (n - 1 - length toks) (length pre) (words (w @ x # r)) buf [?tok, ?last] ?buf" using True ws by simp
        then show ?thesis using True ne blank x by (auto simp: Let_def)
      next
        case False
        from Cons.IH [OF _ _ _ _ b, of "toks @ [?tok]"] Cons.prems(3,4) False obtain ts buf' where
          t: "finish_tokens (tokenize_loop (length r) (length (pre @ w @ [0])) (length (pre @ w @ [0])) (toks @ [?tok]) n ?buf) = ((toks @ [?tok]) @ ts, buf')"
            "tokens_of ?q (n - 1 - length (toks @ [?tok])) (length (pre @ w @ [0])) (words r) ?buf ts buf'" by auto
        have "Suc (n - 1 - length (toks @ [?tok])) = n - 1 - length toks" using Cons.prems(4) by simp
        from ext [OF t(2), unfolded this] t(1) False ne blank x ws show ?thesis by (auto simp: Let_def)
      qed
    qed
  qed
qed

lemma tokenize_words:
  assumes "p \<le> length buf" "0 \<in> set (drop p buf)" "1 < n"
  shows "\<exists>toks last buf'. tokenize_command p n buf = (toks @ [last], buf') \<and> length (toks @ [last]) \<le> n \<and> tk_length last = 0 \<and>
    map (tk_text buf') toks = take (n - 1) (words (cstring buf p)) \<and> map tk_length toks = map length (take (n - 1) (words (cstring buf p))) \<and>
    (\<forall>t \<in> set toks. tk_value t \<noteq> None) \<and>
    (case tk_value last of None \<Rightarrow> length (words (cstring buf p)) \<le> n - 1
      | Some r \<Rightarrow> p \<le> r \<and> r \<le> p + length (cstring buf p) \<and> words (cstring buf' r) = drop (n - 1) (words (cstring buf p)) \<and> buf' ! r \<noteq> 0) \<and>
    take p buf' = take p buf \<and> drop (p + length (cstring buf p)) buf' = drop (p + length (cstring buf p)) buf \<and> length buf' = length buf"
proof -
  let ?cmd = "cstring buf p" and ?rest = "dropWhile (\<lambda>x. x \<noteq> 0) (drop p buf)"
  obtain post where post: "?rest = 0 # post"
  proof (cases ?rest)
    case Nil
    then show ?thesis using assms(2) unfolding dropWhile_eq_Nil_conv by blast
  next
    case (Cons x xs)
    then have "x = 0" using hd_dropWhile [of "\<lambda>x. x \<noteq> 0" "drop p buf"] by simp
    then show ?thesis using that Cons by simp
  qed
  have b: "buf = take p buf @ [] @ ?cmd @ 0 # post"
    using append_take_drop_id [of p buf] takeWhile_dropWhile_id [of "\<lambda>x. x \<noteq> 0" "drop p buf"] post by simp
  have l: "length (take p buf) = p" "(0 :: byte) \<notin> set ?cmd" using assms(1) by (auto dest: set_takeWhileD)
  from tokenize_loop_words [OF _ _ l(2) _ b, of "[]" n] assms(3) l(1) obtain ts buf' where
    t: "tokenize_command p n buf = (ts, buf')" "tokens_of (p + length ?cmd) (n - 1) p (words ?cmd) buf ts buf'"
    unfolding tokenize_command_eq by auto
  from t(2) obtain new e where d: "ts = new @ [\<lparr>tk_value = e, tk_length = 0\<rparr>]" "map (tk_text buf') new = take (n - 1) (words ?cmd)"
    "map tk_length new = map length (take (n - 1) (words ?cmd))" "\<forall>t \<in> set new. tk_value t \<noteq> None"
    "case e of None \<Rightarrow> length (words ?cmd) \<le> n - 1 | Some r \<Rightarrow> p \<le> r \<and> r \<le> p + length ?cmd \<and> words (cstring buf' r) = drop (n - 1) (words ?cmd) \<and> buf' ! r \<noteq> 0"
    "take p buf' = take p buf" "drop (p + length ?cmd) buf' = drop (p + length ?cmd) buf" "length buf' = length buf"
    unfolding tokens_of_def by blast
  have "length new \<le> n - 1" using arg_cong [OF d(2), of length] by simp
  then show ?thesis using t(1) d assms(3) by (intro exI [of _ new] exI [of _ "\<lparr>tk_value = e, tk_length = 0\<rparr>"] exI [of _ buf']) simp
qed

section \<open>Property\<close>

text \<open>
  C34. Tokenizing a command line. The tokens are the words of the line, in order, as many as fit the array besides the terminal
  token. Each reads as its word in the rewritten buffer, up to a NUL, and carries the length of the word. The terminal
  token is NULL when no word is left; otherwise it points to a place from which the other words
  can be tokenized in the same way. The array is never overrun, and the buffer before the
  line and behind it, where further commands may wait, is not written.
\<close>

theorem tokenize_spec:
  assumes "p \<le> length buf" "0 \<in> set (drop p buf)" "1 < n"
  shows "\<exists>toks last buf'. tokenize_command p n buf = (toks @ [last], buf') \<and> length (toks @ [last]) \<le> n \<and> tk_length last = 0 \<and>
    map (tk_text buf') toks = take (n - 1) (words (cstring buf p)) \<and> map tk_length toks = map length (take (n - 1) (words (cstring buf p))) \<and>
    (\<forall>t \<in> set toks. tk_value t \<noteq> None) \<and>
    (case tk_value last of None \<Rightarrow> length (words (cstring buf p)) \<le> n - 1
      | Some r \<Rightarrow> p \<le> r \<and> r \<le> p + length (cstring buf p) \<and> words (cstring buf' r) = drop (n - 1) (words (cstring buf p)) \<and> buf' ! r \<noteq> 0) \<and>
    take p buf' = take p buf \<and> drop (p + length (cstring buf p)) buf' = drop (p + length (cstring buf p)) buf \<and> length buf' = length buf"
  by (rule tokenize_words [OF assms])

theorem tokenize_spec_witness:
  "\<exists>toks last buf'. tokenize_command 1 3 (0 # ascii ''get  a b c'' @ [0, 7]) = (toks @ [last], buf') \<and>
    map (tk_text buf') toks = [ascii ''get'', ascii ''a''] \<and> tk_value last \<noteq> None \<and> drop 11 buf' = [0, 7]"
proof -
  let ?buf = "0 # ascii ''get  a b c'' @ [0, 7]"
  have c: "cstring ?buf 1 = ascii ''get  a b c''" "words (ascii ''get  a b c'') = [ascii ''get'', ascii ''a'', ascii ''b'', ascii ''c'']"
    by (simp_all add: ascii_def of_char_def words_def)
  have "1 \<le> length ?buf" "0 \<in> set (drop 1 ?buf)" "1 < (3 :: nat)" by simp_all
  from tokenize_spec [OF this, unfolded c] show ?thesis
    by (elim exE conjE) (intro exI conjI, assumption, auto simp: ascii_def eval_nat_numeral split: option.splits)
qed

end
