(* ===== verification/Text_Proto.thy ===== *)
theory Text_Proto
  imports Conn_Io Text_Tokens
begin

text \<open>
  The classic text protocol, \<^verbatim>\<open>proto_text.c\<close>, with the parts of \<^verbatim>\<open>memcached.c\<close> it runs on: the reading of a
  command line, the dispatch to a handler, the handlers that store, delete, touch and count, and the
  reading of the data of an item. The handlers of \<^verbatim>\<open>get\<close>, of the meta commands and of the
  administrative commands are parameters of the dispatch.
\<close>

section \<open>Handlers\<close>

abbreviation (input) KEY_MAX_LENGTH :: nat where "KEY_MAX_LENGTH \<equiv> 250"
abbreviation (input) KEY_TOKEN :: nat where "KEY_TOKEN \<equiv> 1"
abbreviation (input) COMMAND_TOKEN :: nat where "COMMAND_TOKEN \<equiv> 0"
abbreviation (input) MAX_TOKENS :: nat where "MAX_TOKENS \<equiv> 24"

text \<open>The text of a token and, for keys, the bytes of its length.\<close>

abbreviation arg :: "conn \<Rightarrow> token_t list \<Rightarrow> nat \<Rightarrow> bytes" where
  "arg c toks i \<equiv> tk_text (rbuf c) (toks ! i)"

definition key_arg :: "conn \<Rightarrow> token_t list \<Rightarrow> bytes" where
  "key_arg c toks = (case tk_value (toks ! KEY_TOKEN) of None \<Rightarrow> [] | Some p \<Rightarrow> take (tk_length (toks ! KEY_TOKEN)) (drop p (rbuf c)))"

definition set_noreply_maybe :: "token_t list \<Rightarrow> conn \<Rightarrow> conn" where
  "set_noreply_maybe toks c =
    (let t = toks ! (length toks - 2)
     in if tk_value t \<noteq> None \<and> tk_text (rbuf c) t = ascii ''noreply'' then c\<lparr>noreply := True\<rparr> else c)"

abbreviation (input) bad_format :: bytes where "bad_format \<equiv> ascii ''CLIENT_ERROR bad command line format''"

text \<open>When there is no memory for a \<^verbatim>\<open>set\<close>, the old value of the key must not survive it.\<close>

definition drop_stale :: "(bytes \<Rightarrow> uint32) \<Rightarrow> nat \<Rightarrow> bytes \<Rightarrow> 'a store_scheme \<Rightarrow> 'a store_scheme option" where
  "drop_stale hash th key s = do {
     (s1, it) \<leftarrow> item_get hash key th False s;
     if it \<noteq> NULL then do { s2 \<leftarrow> item_unlink hash it s1; item_remove it (STORAGE_delete it s2) } else Some s1
   }"

definition process_update_command :: "(bytes \<Rightarrow> uint32) \<Rightarrow> nat \<Rightarrow> token_t list \<Rightarrow> nread \<Rightarrow> bool \<Rightarrow> conn \<times> 'a store_scheme \<Rightarrow>
    (conn \<times> 'a store_scheme) option" where
  "process_update_command hash th toks comm handle_cas = (\<lambda>(c0, s).
    let c = set_noreply_maybe toks c0 in
    if tk_length (toks ! KEY_TOKEN) > KEY_MAX_LENGTH then out_string bad_format (c, s)
    else
      let key = key_arg c toks; nkey = of_nat (length key);
          (ok2, flags) = safe_strtoul (arg c toks 2); (ok3, exptime_int) = safe_strtol (arg c toks 3); (ok4, vlen) = safe_strtol (arg c toks 4)
      in if \<not> (ok2 \<and> ok3 \<and> ok4) then out_string bad_format (c, s)
      else
        let exptime = realtime (process_started c) (current_time s) (EXPTIME_TO_POSITIVE_TIME exptime_int);
            (ok5, req_cas_id) = (if handle_cas then safe_strtoull (arg c toks 5) else (True, 0))
        in if \<not> ok5 then out_string bad_format (c, s)
        else if vlen < 0 \<or> vlen > 2 ^ 31 - 1 - 2 then out_string bad_format (c, s)
        else
          let vlen1 = vlen + 2;
              c1 = (if detail_enabled c then c\<lparr>ptab := stats_prefix_record_set hash key (ptab c)\<rparr> else c)
          in do {
            (s1, it) \<leftarrow> item_alloc hash key flags exptime vlen1 s;
            if it = NULL
            then do {
              (c2, s2) \<leftarrow> (if \<not> item_size_ok nkey flags vlen1 s1 then out_string (ascii ''SERVER_ERROR object too large for cache'') (c1, s1)
                          else out_of_memory (ascii ''SERVER_ERROR out of memory storing object'') (c1, s1));
              s3 \<leftarrow> (if comm = NREAD_SET then drop_stale hash th key s2 else Some s2);
              Some ((conn_set_state conn_swallow c2)\<lparr>sbytes := vlen1\<rparr>, s3)
            }
            else
              let s2 = upd_item it (ITEM_set_cas req_cas_id) s1
              in Some (conn_set_state conn_nread
                   (c1\<lparr>c_item := it, ritem := (if has_flag ITEM_CHUNKED (heap s2 it) then ITEM_schunk it (heap s2 it) else it), roff := 0,
                       rlbytes := nbytes (heap s2 it), c_cmd := comm\<rparr>), s2)
          })"

definition process_touch_command :: "(bytes \<Rightarrow> uint32) \<Rightarrow> nat \<Rightarrow> token_t list \<Rightarrow> conn \<times> 'a store_scheme \<Rightarrow> (conn \<times> 'a store_scheme) option" where
  "process_touch_command hash th toks = (\<lambda>(c0, s).
    let c = set_noreply_maybe toks c0 in
    if tk_length (toks ! KEY_TOKEN) > KEY_MAX_LENGTH then out_string bad_format (c, s)
    else
      let key = key_arg c toks; (ok, exptime_int) = safe_strtol (arg c toks 2)
      in if \<not> ok then out_string (ascii ''CLIENT_ERROR invalid exptime argument'') (c, s)
      else
        let exptime = realtime (process_started c) (current_time s) (EXPTIME_TO_POSITIVE_TIME exptime_int)
        in do {
          (s1, it) \<leftarrow> item_touch hash key exptime th s;
          if it \<noteq> NULL
          then do {
            let cls = ITEM_clsid (heap s1 it);
            (c2, s2) \<leftarrow> out_string (ascii ''TOUCHED'') (c\<lparr>touch_cmds := touch_cmds c + 1, touch_hits := (touch_hits c)(cls := touch_hits c cls + 1)\<rparr>, s1);
            s3 \<leftarrow> item_remove it s2;
            Some (c2, s3)
          }
          else out_string (ascii ''NOT_FOUND'') (c\<lparr>touch_cmds := touch_cmds c + 1, touch_misses := touch_misses c + 1\<rparr>, s1)
        })"

definition process_arithmetic_command :: "(bytes \<Rightarrow> uint32) \<Rightarrow> nat \<Rightarrow> token_t list \<Rightarrow> bool \<Rightarrow> conn \<times> 'a store_scheme \<Rightarrow> (conn \<times> 'a store_scheme) option" where
  "process_arithmetic_command hash th toks incr = (\<lambda>(c0, s).
    let c = set_noreply_maybe toks c0 in
    if tk_length (toks ! KEY_TOKEN) > KEY_MAX_LENGTH then out_string bad_format (c, s)
    else
      let key = key_arg c toks; (ok, delta) = safe_strtoull (arg c toks 2)
      in if \<not> ok then out_string (ascii ''CLIENT_ERROR invalid numeric delta argument'') (c, s)
      else do {
        (s1, r, temp, _) \<leftarrow> add_delta hash th key incr delta None s;
        case r of
          OK \<Rightarrow> out_string temp (c, s1)
        | NON_NUMERIC \<Rightarrow> out_string (ascii ''CLIENT_ERROR cannot increment or decrement non-numeric value'') (c, s1)
        | EOM \<Rightarrow> out_of_memory (ascii ''SERVER_ERROR out of memory'') (c, s1)
        | DELTA_ITEM_NOT_FOUND \<Rightarrow> out_string (ascii ''NOT_FOUND'')
            (if incr then c\<lparr>incr_misses := incr_misses c + 1\<rparr> else c\<lparr>decr_misses := decr_misses c + 1\<rparr>, s1)
        | DELTA_ITEM_CAS_MISMATCH \<Rightarrow> Some (c, s1)
      })"

text \<open>Whether the tokens of a \<^verbatim>\<open>delete\<close> are in order; a question that may set \<^verbatim>\<open>noreply\<close>.\<close>

definition delete_form :: "token_t list \<Rightarrow> conn \<Rightarrow> conn \<times> bool" where
  "delete_form toks c =
    (let ntokens = length toks in
     if ntokens > 3
     then let hold_is_zero = (arg c toks (KEY_TOKEN + 1) = ascii ''0''); c1 = set_noreply_maybe toks c; sets_noreply = noreply c1
          in (c1, ntokens = 4 \<and> (hold_is_zero \<or> sets_noreply) \<or> ntokens = 5 \<and> hold_is_zero \<and> sets_noreply)
     else (c, True))"

definition process_delete_command :: "(bytes \<Rightarrow> uint32) \<Rightarrow> nat \<Rightarrow> token_t list \<Rightarrow> conn \<times> 'a store_scheme \<Rightarrow> (conn \<times> 'a store_scheme) option" where
  "process_delete_command hash th toks = (\<lambda>(c0, s).
    let (c, valid) = delete_form toks c0 in
    if \<not> valid then out_string (ascii ''CLIENT_ERROR bad command line format.  Usage: delete <key> [noreply]'') (c, s)
    else if tk_length (toks ! KEY_TOKEN) > KEY_MAX_LENGTH then out_string bad_format (c, s)
    else
      let key = key_arg c toks;
          c1 = (if detail_enabled c then c\<lparr>ptab := stats_prefix_record_delete hash key (ptab c)\<rparr> else c)
      in do {
        (s1, it, hv) \<leftarrow> item_get_locked hash key th False s;
        if it \<noteq> NULL
        then do {
          let cls = ITEM_clsid (heap s1 it);
          s2 \<leftarrow> do_item_unlink it hv s1;
          s3 \<leftarrow> do_item_remove it (STORAGE_delete it s2);
          out_string (ascii ''DELETED'') (c1\<lparr>delete_hits := (delete_hits c1)(cls := delete_hits c1 cls + 1)\<rparr>, s3)
        }
        else out_string (ascii ''NOT_FOUND'') (c1\<lparr>delete_misses := delete_misses c1 + 1\<rparr>, s1)
      })"

section \<open>The data of an item\<close>

text \<open>The last two bytes of the data; those of a large item may lie in two chunks.\<close>

definition tail_bytes :: "conn \<times> 'a store_scheme \<Rightarrow> bytes" where
  "tail_bytes = (\<lambda>(c, s). let x = heap s (c_item c) in
     if \<not> has_flag ITEM_CHUNKED x then map (cstr_at (idata x)) [nat (nbytes x) - 2, nat (nbytes x) - 1]
     else let ch = heap s (ritem c); n = nat (ch_used ch) in
       if n > 1 then [idata ch ! (n - 2), idata ch ! (n - 1)]
       else let p = heap s (it_prev ch) in [idata p ! (nat (ch_used p) - 1), idata ch ! (n - 1)])"

text \<open>The reply of a meta set (\<^verbatim>\<open>_finalize_mset\<close>) is a parameter.\<close>

definition complete_nread_ascii :: "(bytes \<Rightarrow> uint32) \<Rightarrow> nat \<Rightarrow> (store_item_type \<Rightarrow> conn \<times> 'a store_scheme \<Rightarrow> (conn \<times> 'a store_scheme) option) \<Rightarrow>
    conn \<times> 'a store_scheme \<Rightarrow> (conn \<times> 'a store_scheme) option" where
  "complete_nread_ascii hash th finalize_mset = (\<lambda>(c0, s).
    let it = c_item c0; cls = ITEM_clsid (heap s it);
        c = c0\<lparr>set_cmds := (set_cmds c0)(cls := set_cmds c0 cls + 1)\<rparr>
    in do {
      (c1, s1) \<leftarrow>
        (if tail_bytes (c, s) \<noteq> [13, 10]
         then out_string (ascii ''CLIENT_ERROR bad data chunk'') (if mset_res c then c\<lparr>noreply := False\<rparr> else c, s)
         else do {
           (s1, ret) \<leftarrow> store_item hash it (c_cmd c) th s;
           if mset_res c then finalize_mset ret (c, s1)
           else case ret of
               STORED \<Rightarrow> out_string (ascii ''STORED'') (c, s1)
             | EXISTS \<Rightarrow> out_string (ascii ''EXISTS'') (c, s1)
             | NOT_FOUND \<Rightarrow> out_string (ascii ''NOT_FOUND'') (c, s1)
             | NOT_STORED \<Rightarrow> out_string (ascii ''NOT_STORED'') (c, s1)
             | _ \<Rightarrow> out_string (ascii ''SERVER_ERROR Unhandled storage type.'') (c, s1)
         });
      s2 \<leftarrow> item_remove (c_item c1) (s1\<lparr>set_stale := False\<rparr>);
      Some (c1\<lparr>mset_res := False, c_item := NULL\<rparr>, s2)
    })"

text \<open>
  A turn of \<^verbatim>\<open>drive_machine\<close> in the state \<^verbatim>\<open>conn_nread\<close>, for an item that is not chunked: bytes already read go to the
  item first, then the socket is asked. The flag says whether the loop stops to wait for the socket.
\<close>

definition put_bytes :: "bytes \<Rightarrow> conn \<times> 'a store_scheme \<Rightarrow> conn \<times> 'a store_scheme" where
  "put_bytes bs = (\<lambda>(c, s). (c\<lparr>roff := roff c + length bs, rlbytes := rlbytes c - int (length bs)\<rparr>,
     upd_item (ritem c) (\<lambda>i. i\<lparr>idata := copy_at (idata i) (roff c) bs\<rparr>) s))"

definition nread_turn :: "conn \<times> 'a store_scheme \<Rightarrow> (conn \<times> 'a store_scheme) \<times> bool" where
  "nread_turn = (\<lambda>(c, s).
    if rlbytes c < 0 then ((conn_set_state conn_closing c, s), False)
    else
      let tocopy = (if rbytes c > 0 then nat (if int (rbytes c) > rlbytes c then rlbytes c else int (rbytes c)) else 0);
          (c1, s1) = (if rbytes c > 0
            then put_bytes (take tocopy (drop (rcurr c) (rbuf c))) (c\<lparr>rcurr := rcurr c + tocopy, rbytes := rbytes c - tocopy\<rparr>, s)
            else (c, s))
      in if rbytes c > 0 \<and> rlbytes c1 = 0 then ((c1, s1), False)
      else case read_net (nat (rlbytes c1)) c1 of
          (c2, Net_data bs) \<Rightarrow> if bs \<noteq> [] then (put_bytes bs (c2, s1), False) else ((conn_set_state conn_closing c2, s1), False)
        | (c2, Net_eof) \<Rightarrow> ((conn_set_state conn_closing c2, s1), False)
        | (c2, Net_again) \<Rightarrow> ((c2, s1), True)
        | (c2, Net_error) \<Rightarrow> ((conn_set_state conn_closing c2, s1), False))"

text \<open>In the state \<^verbatim>\<open>conn_swallow\<close>, bytes are thrown away.\<close>

definition swallow_turn :: "conn \<Rightarrow> conn \<times> bool" where
  "swallow_turn c =
    (if sbytes c \<le> 0 then (conn_set_state conn_new_cmd c, False)
     else if rbytes c > 0
     then let tocopy = nat (if int (rbytes c) > sbytes c then sbytes c else int (rbytes c))
          in (c\<lparr>sbytes := sbytes c - int tocopy, rcurr := rcurr c + tocopy, rbytes := rbytes c - tocopy\<rparr>, False)
     else case read_net (if int (rsize c) > sbytes c then nat (sbytes c) else rsize c) c of
         (c2, Net_data bs) \<Rightarrow> if bs \<noteq> [] then (c2\<lparr>sbytes := sbytes c2 - int (length bs)\<rparr>, False) else (conn_set_state conn_closing c2, False)
       | (c2, Net_eof) \<Rightarrow> (conn_set_state conn_closing c2, False)
       | (c2, Net_again) \<Rightarrow> (c2, True)
       | (c2, Net_error) \<Rightarrow> (conn_set_state conn_closing c2, False))"

section \<open>Commands\<close>

datatype call = Reply_error | Meta_get | Meta_set | Meta_delete | Meta_noop | Meta_arithmetic | Meta_debug
  | Get bool bool | Update nread bool | Arithmetic bool | Delete_key | Touch_key | Stat | Shutdown | Slabs_cmd | Memlimit
  | Flush_all | Version | Quit | Lru_crawler | Watch | Verbosity | Lru_cmd | Extstore_cmd | Close_http

text \<open>The macros that check the number of tokens.\<close>

abbreviation (input) want_min :: "nat \<Rightarrow> nat \<Rightarrow> call \<Rightarrow> call" where
  "want_min n lo x \<equiv> (if n < lo then Reply_error else x)"
abbreviation (input) want_or :: "nat \<Rightarrow> nat \<Rightarrow> nat \<Rightarrow> call \<Rightarrow> call" where
  "want_or n a b x \<equiv> (if n \<noteq> a \<and> n \<noteq> b then Reply_error else x)"
abbreviation (input) want :: "nat \<Rightarrow> nat \<Rightarrow> nat \<Rightarrow> call \<Rightarrow> call" where
  "want n lo hi x \<equiv> (if n < lo \<or> n > hi then Reply_error else x)"

text \<open>Which handler a command line calls. (Built without TLS and without the debugging commands.)\<close>

definition dispatch :: "bytes \<Rightarrow> token_t list \<Rightarrow> call" where
  "dispatch buf toks =
    (let n = length toks; t0 = toks ! COMMAND_TOKEN; w = tk_text buf t0; first = cstr_at w 0; isw = (\<lambda>str. w = ascii str) in
     if n < 2 \<or> tk_length t0 < 2 then Reply_error
     else if first = of_char CHR ''m'' \<and> tk_length t0 = 2
     then let x = cstr_at w 1 in
       (if x = of_char CHR ''g'' then Meta_get else if x = of_char CHR ''s'' then Meta_set else if x = of_char CHR ''d'' then Meta_delete
        else if x = of_char CHR ''n'' then Meta_noop else if x = of_char CHR ''a'' then Meta_arithmetic
        else if x = of_char CHR ''e'' then Meta_debug else Reply_error)
     else if first = of_char CHR ''g''
     then want_min n 3 (if isw ''get'' then Get False False else if isw ''gets'' then Get True False else if isw ''gat'' then Get False True
       else if isw ''gats'' then Get True True else Reply_error)
     else if first = of_char CHR ''s''
     then if isw ''set'' then want_or n 6 7 (Update NREAD_SET False) else if isw ''stats'' then Stat else if isw ''shutdown'' then Shutdown
       else if isw ''slabs'' then Slabs_cmd else Reply_error
     else if first = of_char CHR ''a''
     then if isw ''add'' then want_or n 6 7 (Update NREAD_ADD False) else if isw ''append'' then want_or n 6 7 (Update NREAD_APPEND False) else Reply_error
     else if first = of_char CHR ''c''
     then if isw ''cas'' then want_or n 7 8 (Update NREAD_CAS True) else if isw ''cache_memlimit'' then want_or n 3 4 Memlimit else Reply_error
     else if first = of_char CHR ''i''
     then if isw ''incr'' then want_or n 4 5 (Arithmetic True) else Reply_error
     else if first = of_char CHR ''d''
     then if isw ''delete'' then want n 3 5 Delete_key else if isw ''decr'' then want_or n 4 5 (Arithmetic False) else Reply_error
     else if first = of_char CHR ''t''
     then if isw ''touch'' then want_or n 4 5 Touch_key else Reply_error
     else if isw ''replace'' then want_or n 6 7 (Update NREAD_REPLACE False)
     else if isw ''prepend'' then want_or n 6 7 (Update NREAD_PREPEND False)
     else if isw ''bget'' then want_min n 3 (Get False False)
     else if isw ''flush_all'' then want n 2 4 Flush_all
     else if isw ''version'' then Version
     else if isw ''quit'' then Quit
     else if isw ''lru_crawler'' then Lru_crawler
     else if isw ''watch'' then Watch
     else if isw ''verbosity'' then want_or n 3 4 Verbosity
     else if isw ''lru'' then want_min n 3 Lru_cmd
     else if isw ''extstore'' then want_min n 3 Extstore_cmd
     else if strncmp_eq 5 (tk_text buf (toks ! (n - 2))) (ascii ''HTTP/'') then Close_http
     else Reply_error)"

definition run_call :: "(bytes \<Rightarrow> uint32) \<Rightarrow> nat \<Rightarrow> (call \<Rightarrow> token_t list \<Rightarrow> conn \<times> 'a store_scheme \<Rightarrow> (conn \<times> 'a store_scheme) option) \<Rightarrow>
    call \<Rightarrow> token_t list \<Rightarrow> conn \<times> 'a store_scheme \<Rightarrow> (conn \<times> 'a store_scheme) option" where
  "run_call hash th others cl toks cs = (case cl of
      Reply_error \<Rightarrow> out_string (ascii ''ERROR'') cs
    | Meta_noop \<Rightarrow> do { (c, s) \<leftarrow> out_string (ascii ''MN'') cs; Some (conn_set_state conn_mwrite c, s) }
    | Update comm handle_cas \<Rightarrow> process_update_command hash th toks comm handle_cas cs
    | Arithmetic incr \<Rightarrow> process_arithmetic_command hash th toks incr cs
    | Delete_key \<Rightarrow> process_delete_command hash th toks cs
    | Touch_key \<Rightarrow> process_touch_command hash th toks cs
    | Close_http \<Rightarrow> Some (conn_set_state conn_closing (fst cs), snd cs)
    | _ \<Rightarrow> others cl toks cs)"

text \<open>The command stands in the read buffer at \<open>rcurr\<close>, ended by NUL.\<close>

definition process_command :: "(bytes \<Rightarrow> uint32) \<Rightarrow> nat \<Rightarrow> (call \<Rightarrow> token_t list \<Rightarrow> conn \<times> 'a store_scheme \<Rightarrow> (conn \<times> 'a store_scheme) option) \<Rightarrow>
    conn \<times> 'a store_scheme \<Rightarrow> (conn \<times> 'a store_scheme) option" where
  "process_command hash th others = (\<lambda>(c, s).
    case resp_start c of
      (c1, False) \<Rightarrow> Some (conn_set_state conn_closing c1, s)
    | (c1, True) \<Rightarrow>
      let (toks, buf) = tokenize_command (rcurr c1) MAX_TOKENS (rbuf c1)
      in run_call hash th others (dispatch buf toks) toks (c1\<lparr>rbuf := buf\<rparr>, s))"

text \<open>The offset of a byte in the bytes not yet parsed, as \<^verbatim>\<open>memchr\<close> finds it.\<close>

fun index_of :: "byte \<Rightarrow> bytes \<Rightarrow> nat option" where
  "index_of x [] = None"
| "index_of x (y # ys) = (if y = x then Some 0 else map_option Suc (index_of x ys))"

definition try_read_command_ascii :: "(bytes \<Rightarrow> uint32) \<Rightarrow> nat \<Rightarrow> (call \<Rightarrow> token_t list \<Rightarrow> conn \<times> 'a store_scheme \<Rightarrow> (conn \<times> 'a store_scheme) option) \<Rightarrow>
    conn \<times> 'a store_scheme \<Rightarrow> ((conn \<times> 'a store_scheme) \<times> bool) option" where
  "try_read_command_ascii hash th others = (\<lambda>(c, s).
    if rbytes c = 0 then Some ((c, s), False)
    else let pending = take (rbytes c) (drop (rcurr c) (rbuf c)) in
      case index_of 10 pending of
        None \<Rightarrow>
          if rbytes c > 1024
          then let blanks = length (takeWhile (\<lambda>x. x = 32) (drop (rcurr c) (rbuf c))); ptr = drop (rcurr c + blanks) (rbuf c) in
            if blanks > 100 \<or> \<not> strncmp_eq 4 ptr (ascii ''get '') \<and> \<not> strncmp_eq 5 ptr (ascii ''gets '')
            then Some ((conn_set_state conn_closing c, s), True)
            else if \<not> rbuf_malloced c
            then (case rbuf_switch_to_malloc c of (c1, True) \<Rightarrow> Some ((c1, s), False) | (c1, False) \<Rightarrow> Some ((conn_set_state conn_closing c1, s), True))
            else Some ((c, s), False)
          else Some ((c, s), False)
      | Some el \<Rightarrow>
          let el1 = (if el > 1 \<and> pending ! (el - 1) = 13 then el - 1 else el);
              c1 = c\<lparr>rbuf := (rbuf c)[rcurr c + el1 := 0]\<rparr>
          in do {
            (c2, s2) \<leftarrow> process_command hash th others (c1, s);
            Some ((c2\<lparr>rbytes := rbytes c2 - (el + 1), rcurr := rcurr c + el + 1\<rparr>, s2), True)
          })"

definition reset_cmd_handler :: "conn \<times> 'a store_scheme \<Rightarrow> (conn \<times> 'a store_scheme) option" where
  "reset_cmd_handler = (\<lambda>(c, s). do {
     (c1, s1) \<leftarrow> (if c_item c \<noteq> NULL then do { s1 \<leftarrow> item_remove (c_item c) s; Some (c\<lparr>c_item := NULL\<rparr>, s1) } else Some (c, s));
     Some (conn_set_state (if rbytes c1 > 0 then conn_parse_cmd else if resps c1 \<noteq> [] then conn_mwrite else conn_waiting) c1, s1)
   })"

section \<open>Fields the helpers leave alone\<close>

lemma set_noreply_fields:
  "ready (set_noreply_maybe toks c) = ready c" "rbuf (set_noreply_maybe toks c) = rbuf c" "detail_enabled (set_noreply_maybe toks c) = detail_enabled c"
  "process_started (set_noreply_maybe toks c) = process_started c" "key_arg (set_noreply_maybe toks c) toks = key_arg c toks"
  by (simp_all add: set_noreply_maybe_def ready_def key_arg_def Let_def split: option.split)

lemma ready_more:
  "ready (c\<lparr>ptab := x\<rparr>) = ready c" "ready (c\<lparr>delete_hits := y\<rparr>) = ready c" "ready (c\<lparr>delete_misses := z\<rparr>) = ready c"
  "ready (c\<lparr>touch_cmds := z, touch_hits := y\<rparr>) = ready c" "ready (c\<lparr>touch_cmds := z, touch_misses := z'\<rparr>) = ready c"
  "ready (c\<lparr>incr_misses := z\<rparr>) = ready c" "ready (c\<lparr>decr_misses := z\<rparr>) = ready c" "ready (c\<lparr>set_cmds := y\<rparr>) = ready c" "ready (c\<lparr>noreply := b\<rparr>) = ready c"
  by (simp_all add: ready_def)

section \<open>Deleting\<close>

lemma item_fetched:
  assumes inv: "items_inv hash s m Q F H R" and small: "\<forall>a \<in> ran m. R a + 3 < 2 ^ 16"
  shows "case fresh s m k of
      Some a \<Rightarrow> m k = Some a \<and> a \<noteq> NULL \<and> do_item_get k (hash k) th False s = Some (refcount_incr a s, a) \<and> R a + 2 < 2 ^ 16
    | None \<Rightarrow> \<exists>s'. do_item_get k (hash k) th False s = Some (s', NULL) \<and> (\<exists>Q F H. items_inv hash s' (m(k := None)) Q F H R) \<and>
        data_kept (live (m(k := None)) R) s s'"
proof -
  have "R a + 2 < 2 ^ 16" if "m k = Some a" for a using small ranI [of m k a] that by fastforce
  with fresh_get [OF inv small, of k th] show ?thesis by (cases "fresh s m k") auto
qed

lemma delete_inv:
  assumes inv: "items_inv hash s m Q F H R" and small: "\<forall>a \<in> ran m. R a + 3 < 2 ^ 16" and rd: "ready c"
    and ok: "snd (delete_form toks c)" "tk_length (toks ! KEY_TOKEN) \<le> KEY_MAX_LENGTH" and k: "k = key_arg c toks"
  shows "\<exists>c' s'. process_delete_command hash th toks (c, s) = Some (c', s') \<and> cstate c' = conn_new_cmd \<and>
    reply c' = line (noreply (fst (delete_form toks c))) (if fresh s m k = None then ascii ''NOT_FOUND'' else ascii ''DELETED'') \<and>
    (\<exists>Q F H. items_inv hash s' (m(k := None)) Q F H R) \<and> data_kept (live (m(k := None)) R) s s'"
proof -
  obtain c1 where c1: "delete_form toks c = (c1, True)" using ok(1) by (metis prod.collapse)
  have f: "ready c1" "key_arg c1 toks = k"
    using c1 rd k set_noreply_fields [of toks c] by (auto simp: delete_form_def Let_def split: if_splits)
  let ?c = "if detail_enabled c1 then c1\<lparr>ptab := stats_prefix_record_delete hash k (ptab c1)\<rparr> else c1"
  have r: "ready ?c" "noreply ?c = noreply c1" using f(1) by (simp_all add: ready_more)
  have st: "process_delete_command hash th toks (c, s) = do {
      (s1, it, hv) \<leftarrow> item_get_locked hash k th False s;
      if it \<noteq> NULL
      then do {
        let cls = ITEM_clsid (heap s1 it);
        s2 \<leftarrow> do_item_unlink it hv s1;
        s3 \<leftarrow> do_item_remove it (STORAGE_delete it s2);
        out_string (ascii ''DELETED'') (?c\<lparr>delete_hits := (delete_hits ?c)(cls := delete_hits ?c cls + 1)\<rparr>, s3)
      }
      else out_string (ascii ''NOT_FOUND'') (?c\<lparr>delete_misses := delete_misses ?c + 1\<rparr>, s1) }"
    using ok(2) by (simp add: process_delete_command_def c1 f(2) Let_def)
  note g = item_fetched [OF inv small, of k th]
  show ?thesis
  proof (cases "fresh s m k")
    case None
    then obtain s1 where s1: "do_item_get k (hash k) th False s = Some (s1, NULL)" "\<exists>Q F H. items_inv hash s1 (m(k := None)) Q F H R"
      "data_kept (live (m(k := None)) R) s s1" using g by auto
    let ?d = "?c\<lparr>delete_misses := delete_misses ?c + 1\<rparr>"
    have "out_string (ascii ''NOT_FOUND'') (?d, s1) = Some (said (ascii ''NOT_FOUND'') ?d, s1)"
      by (rule out_string_said) (simp_all add: ready_more r ascii_def)
    then have "process_delete_command hash th toks (c, s) = Some (said (ascii ''NOT_FOUND'') ?d, s1)"
      unfolding st by (simp add: item_get_locked_def s1(1))
    then show ?thesis using s1(2,3) None r(2) c1 by (simp add: said_fields)
  next
    case (Some a)
    then have a: "m k = Some a" "a \<noteq> NULL" "do_item_get k (hash k) th False s = Some (refcount_incr a s, a)" "R a + 2 < 2 ^ 16" using g by auto
    from drop_dead_inv [OF inv a(1,4)] obtain s2 s3 where d: "do_item_unlink a (hash k) (refcount_incr a s) = Some s2"
      "do_item_remove a (STORAGE_delete a s2) = Some s3" "\<exists>Q F H. items_inv hash s3 (m(k := None)) Q F H R" "data_kept (live (m(k := None)) R) s s3" by blast
    define cls where "cls = ITEM_clsid (heap (refcount_incr a s) a)"
    let ?d = "?c\<lparr>delete_hits := (delete_hits ?c)(cls := delete_hits ?c cls + 1)\<rparr>"
    have "out_string (ascii ''DELETED'') (?d, s3) = Some (said (ascii ''DELETED'') ?d, s3)"
      by (rule out_string_said) (simp_all add: ready_more r ascii_def)
    then have "process_delete_command hash th toks (c, s) = Some (said (ascii ''DELETED'') ?d, s3)"
      unfolding st by (simp add: item_get_locked_def a(2,3) d(1,2) cls_def Let_def)
    then show ?thesis using d(3,4) Some r(2) c1 by (simp add: said_fields)
  qed
qed

section \<open>Touching\<close>

lemma item_touched:
  assumes inv: "items_inv hash s m Q F H R" and small: "\<forall>a \<in> ran m. R a + 3 < 2 ^ 16"
  shows "case fresh s m k of
      None \<Rightarrow> \<exists>s1. item_touch hash k et th s = Some (s1, NULL) \<and> (\<exists>Q F H. items_inv hash s1 (m(k := None)) Q F H R) \<and> data_kept (live (m(k := None)) R) s s1
    | Some a \<Rightarrow> a \<noteq> NULL \<and> a \<in> ran m \<and> (\<exists>s1 R1. item_touch hash k et th s = Some (s1, a) \<and> (\<exists>Q F H. items_inv hash s1 m Q F H R1) \<and>
        (R1 = R(a := R a + 1) \<or> R1 = R(a := R a + 2)) \<and> data_kept (live m R - {a}) s s1 \<and> same_value (heap s1 a) (heap s a) \<and> exptime (heap s1 a) = et)"
proof (cases "m k")
  case None
  then have "m(k := None) = m" by (simp add: fun_upd_idem)
  with None inv do_item_get_inv [OF inv small, of k th True] show ?thesis
    by (auto simp: fresh_def item_touch_def do_item_touch_def)
next
  case (Some a)
  then have ar: "a \<in> ran m" by (rule ranI)
  from do_item_get_inv [OF inv small, of k th True] Some obtain s0 Q0 F0 H0 R0 where g:
    "do_item_get k (hash k) th True s = Some (s0, if item_dead (heap s a) s then NULL else a)"
    "items_inv hash s0 (if item_dead (heap s a) s then m(k := None) else m) Q0 F0 H0 R0"
    "if item_dead (heap s a) s then R0 = R else R0 = R(a := R a + 1) \<or> R0 = R(a := R a + 2)"
    "data_kept (live (if item_dead (heap s a) s then m(k := None) else m) R) s s0" by auto
  show ?thesis
  proof (cases "item_dead (heap s a) s")
    case True
    then show ?thesis using g Some by (auto simp: fresh_def item_touch_def do_item_touch_def)
  next
    case False
    have nz: "a \<noteq> NULL" using item_fetched [OF inv small, of k th] Some False by (simp add: fresh_def)
    let ?s1 = "upd_item a (exptime_update (\<lambda>_. et)) s0"
    have e: "item_touch hash k et th s = Some (?s1, a)" using g(1) False nz by (simp add: item_touch_def do_item_touch_def)
    have i0: "items_inv hash s0 m Q0 F0 H0 R0" using g(2) False by simp
    have i1: "items_inv hash ?s1 m Q0 F0 H0 R0" by (rule touch_inv [OF i0]) (use ar in \<open>simp add: live_def\<close>)
    have sd: "same_data (heap s0 a) (heap s a)" using g(4) False ar by (simp add: data_kept_def live_def)
    have "data_kept (live m R - {a}) s ?s1" using g(4) False by (simp add: data_kept_def)
    moreover have "same_value (heap ?s1 a) (heap s a)" using same_data_value [OF sd] by (simp add: same_value_def)
    ultimately show ?thesis using e i1 g(3) False Some nz ar by (simp add: fresh_def) blast
  qed
qed

lemma touch_command_inv:
  assumes inv: "items_inv hash s m Q F H R" and small: "\<forall>a \<in> ran m. R a + 3 < 2 ^ 16" and rd: "ready c"
    and len: "tk_length (toks ! KEY_TOKEN) \<le> KEY_MAX_LENGTH" and k: "k = key_arg c toks" and num: "safe_strtol (arg c toks 2) = (True, n)"
    and et: "et = realtime (process_started c) (current_time s) (EXPTIME_TO_POSITIVE_TIME n)"
  shows "\<exists>c' s'. process_touch_command hash th toks (c, s) = Some (c', s') \<and> cstate c' = conn_new_cmd \<and>
    reply c' = line (noreply (set_noreply_maybe toks c)) (if fresh s m k = None then ascii ''NOT_FOUND'' else ascii ''TOUCHED'') \<and>
    (case fresh s m k of None \<Rightarrow> (\<exists>Q F H. items_inv hash s' (m(k := None)) Q F H R) \<and> data_kept (live (m(k := None)) R) s s'
      | Some a \<Rightarrow> (\<exists>Q F H R'. items_inv hash s' m Q F H R' \<and> (R' = R \<or> R' = R(a := R a + 1))) \<and>
          data_kept (live m R - {a}) s s' \<and> same_value (heap s' a) (heap s a) \<and> exptime (heap s' a) = et)"
proof -
  let ?c = "set_noreply_maybe toks c"
  have f: "ready ?c" "key_arg ?c toks = k" "rbuf ?c = rbuf c" "process_started ?c = process_started c" using rd k by (simp_all add: set_noreply_fields)
  have st: "process_touch_command hash th toks (c, s) = do {
      (s1, it) \<leftarrow> item_touch hash k et th s;
      if it \<noteq> NULL
      then do {
        let cls = ITEM_clsid (heap s1 it);
        (c2, s2) \<leftarrow> out_string (ascii ''TOUCHED'') (?c\<lparr>touch_cmds := touch_cmds ?c + 1, touch_hits := (touch_hits ?c)(cls := touch_hits ?c cls + 1)\<rparr>, s1);
        s3 \<leftarrow> item_remove it s2;
        Some (c2, s3)
      }
      else out_string (ascii ''NOT_FOUND'') (?c\<lparr>touch_cmds := touch_cmds ?c + 1, touch_misses := touch_misses ?c + 1\<rparr>, s1) }"
    using len num by (simp add: process_touch_command_def f Let_def et)
  note g = item_touched [OF inv small, of k et th]
  show ?thesis
  proof (cases "fresh s m k")
    case None
    then obtain s1 where s1: "item_touch hash k et th s = Some (s1, NULL)" "\<exists>Q F H. items_inv hash s1 (m(k := None)) Q F H R"
      "data_kept (live (m(k := None)) R) s s1" using g by auto
    let ?d = "?c\<lparr>touch_cmds := touch_cmds ?c + 1, touch_misses := touch_misses ?c + 1\<rparr>"
    have "out_string (ascii ''NOT_FOUND'') (?d, s1) = Some (said (ascii ''NOT_FOUND'') ?d, s1)"
      by (rule out_string_said) (simp_all add: ready_more f ascii_def)
    then have "process_touch_command hash th toks (c, s) = Some (said (ascii ''NOT_FOUND'') ?d, s1)" unfolding st by (simp add: s1(1))
    then show ?thesis using s1(2,3) None by (simp add: said_fields)
  next
    case (Some a)
    then obtain s1 R1 where a: "a \<noteq> NULL" "a \<in> ran m" "item_touch hash k et th s = Some (s1, a)" "\<exists>Q F H. items_inv hash s1 m Q F H R1"
      "R1 = R(a := R a + 1) \<or> R1 = R(a := R a + 2)" "data_kept (live m R - {a}) s s1" "same_value (heap s1 a) (heap s a)" "exptime (heap s1 a) = et"
      using g unfolding Some option.case by blast
    define cls where "cls = ITEM_clsid (heap s1 a)"
    let ?d = "?c\<lparr>touch_cmds := touch_cmds ?c + 1, touch_hits := (touch_hits ?c)(cls := touch_hits ?c cls + 1)\<rparr>" and ?R = "R1(a := R1 a - 1)"
    have o: "out_string (ascii ''TOUCHED'') (?d, s1) = Some (said (ascii ''TOUCHED'') ?d, s1)"
      by (rule out_string_said) (simp_all add: ready_more f ascii_def)
    have pos: "0 < R1 a" "?R = R \<or> ?R = R(a := R a + 1)" using a(5) by auto
    from a(4) do_item_remove_inv [of hash s1 m _ _ _ R1 a, OF _ pos(1)] obtain s2 where d: "do_item_remove a s1 = Some s2"
      "\<exists>Q F H. items_inv hash s2 m Q F H ?R" "data_kept (live m ?R) s1 s2" by blast
    have e: "process_touch_command hash th toks (c, s) = Some (said (ascii ''TOUCHED'') ?d, s2)"
      unfolding st by (simp add: a(1,3) o [unfolded cls_def] d(1) cls_def item_remove_def Let_def)
    have sub: "live m R \<subseteq> live m ?R" using a(2,5) by (auto simp: live_def)
    have sd: "same_data (heap s2 a) (heap s1 a)" using d(3) a(2) by (simp add: data_kept_def live_def)
    have "data_kept (live m R - {a}) s s2"
      using a(6) d(3) sub by (auto simp: data_kept_def intro: same_data_trans)
    moreover have "same_value (heap s2 a) (heap s a)" "exptime (heap s2 a) = et" using same_data_value [OF sd] a(7,8) by (simp_all add: same_value_def)
    ultimately show ?thesis using e d(2) pos(2) Some by (simp add: said_fields) blast
  qed
qed

section \<open>Counting\<close>

text \<open>The item that holds the text of a counter: the old one, padded with blanks, or a new one.\<close>

definition counted :: "(bytes \<Rightarrow> uint32) \<Rightarrow> (bytes \<rightharpoonup> addr) \<Rightarrow> (addr \<Rightarrow> nat) \<Rightarrow> bytes \<Rightarrow> addr \<Rightarrow> bytes \<Rightarrow> 'a store_scheme \<Rightarrow> 'a store_scheme \<Rightarrow> bool" where
  "counted hash m R k a t s s' \<longleftrightarrow> (\<exists>b. (\<exists>Q F H. items_inv hash s' (m(k \<mapsto> b)) Q F H R) \<and> data_kept (live (m(k \<mapsto> b)) R - {a, b}) s s' \<and>
     data_bytes b s' = (let n = nat (nbytes (heap s a)) in
       if R a = 0 \<and> length t + 2 \<le> n then t @ replicate (n - length t - 2) 32 @ drop (n - 2) (data_bytes a s) else t @ [13, 10]) \<and>
     exptime (heap s' b) = exptime (heap s a))"

lemma arithmetic_inv:
  fixes s :: "'a store_scheme"
  assumes inv: "items_inv hash s m Q F H R" and small: "\<forall>a \<in> ran m. R a + 3 < 2 ^ 16" and pre: "pull_pre s m R" and rd: "ready c"
    and len: "tk_length (toks ! KEY_TOKEN) \<le> KEY_MAX_LENGTH" and k: "k = key_arg c toks" and num: "safe_strtoull (arg c toks 2) = (True, delta)"
    and ok: "\<forall>a. fresh s m k = Some a \<and> delta_error None (heap s a) = None \<longrightarrow> full_data (heap s a) \<and>
      size_pre k (FLAGS_CONV (heap s a)) (int (length (delta_text incr delta (heap s a))) + 2) s"
  shows "\<exists>c' s' txt m1. process_arithmetic_command hash th toks incr (c, s) = Some (c', s') \<and> cstate c' = conn_new_cmd \<and>
    reply c' = line (noreply (set_noreply_maybe toks c)) txt \<and>
    (case fresh s m k of
       None \<Rightarrow> txt = ascii ''NOT_FOUND'' \<and> (\<exists>Q F H. items_inv hash s' (m(k := None)) Q F H R) \<and> data_kept (live (m(k := None)) R) s s'
     | Some a \<Rightarrow> if delta_error None (heap s a) \<noteq> None
         then txt = ascii ''CLIENT_ERROR cannot increment or decrement non-numeric value'' \<and> (\<exists>Q F H. items_inv hash s' m Q F H R) \<and> data_kept (live m R) s s'
         else lost_upto 10 s m m1 \<and>
           (txt = ascii ''SERVER_ERROR out of memory'' \<and> (\<exists>Q F H. items_inv hash s' m1 Q F H R) \<and> data_kept (live m1 R) s s' \<or>
            txt = delta_text incr delta (heap s a) \<and> counted hash m1 R k a txt s s'))"
proof -
  let ?c = "set_noreply_maybe toks c"
  have f: "ready ?c" "key_arg ?c toks = k" "rbuf ?c = rbuf c" using rd k by (simp_all add: set_noreply_fields)
  have st: "process_arithmetic_command hash th toks incr (c, s) = do {
      (s1, r, temp, _) \<leftarrow> add_delta hash th k incr delta None s;
      case r of
        OK \<Rightarrow> out_string temp (?c, s1)
      | NON_NUMERIC \<Rightarrow> out_string (ascii ''CLIENT_ERROR cannot increment or decrement non-numeric value'') (?c, s1)
      | EOM \<Rightarrow> out_of_memory (ascii ''SERVER_ERROR out of memory'') (?c, s1)
      | DELTA_ITEM_NOT_FOUND \<Rightarrow> out_string (ascii ''NOT_FOUND'') (if incr then ?c\<lparr>incr_misses := incr_misses ?c + 1\<rparr> else ?c\<lparr>decr_misses := decr_misses ?c + 1\<rparr>, s1)
      | DELTA_ITEM_CAS_MISMATCH \<Rightarrow> Some (?c, s1) }"
    using len num by (simp add: process_arithmetic_command_def f Let_def)
  show ?thesis
  proof (cases "fresh s m k")
    case None
    from add_delta_missing [OF inv small None, of th incr delta None] obtain s1 where s1: "add_delta hash th k incr delta None s = Some (s1, DELTA_ITEM_NOT_FOUND, [], None)"
      "\<exists>Q F H. items_inv hash s1 (m(k := None)) Q F H R" "data_kept (live (m(k := None)) R) s s1" by blast
    let ?d = "if incr then ?c\<lparr>incr_misses := incr_misses ?c + 1\<rparr> else ?c\<lparr>decr_misses := decr_misses ?c + 1\<rparr>"
    have "out_string (ascii ''NOT_FOUND'') (?d, s1) = Some (said (ascii ''NOT_FOUND'') ?d, s1)"
      by (rule out_string_said) (simp_all add: ready_more f ascii_def)
    then have "process_arithmetic_command hash th toks incr (c, s) = Some (said (ascii ''NOT_FOUND'') ?d, s1)" unfolding st by (simp add: s1(1))
    moreover have "noreply ?d = noreply ?c" by simp
    ultimately show ?thesis using s1(2,3) None by (auto simp: said_fields)
  next
    case (Some a)
    show ?thesis
    proof (cases "delta_error None (heap s a)")
      case e: (Some e)
      then have en: "e = NON_NUMERIC" by (auto simp: delta_error_def split: if_splits)
      from add_delta_refused [OF inv small Some e, of th incr delta] obtain s1 where s1: "add_delta hash th k incr delta None s = Some (s1, e, [], None)"
        "\<exists>Q F H. items_inv hash s1 m Q F H R" "data_kept (live m R) s s1" by blast
      let ?t = "ascii ''CLIENT_ERROR cannot increment or decrement non-numeric value''"
      have "out_string ?t (?c, s1) = Some (said ?t ?c, s1)" by (rule out_string_said) (simp_all add: f ascii_def)
      then have "process_arithmetic_command hash th toks incr (c, s) = Some (said ?t ?c, s1)" unfolding st by (simp add: s1(1) en)
      then show ?thesis using s1(2,3) Some e by (auto simp: said_fields)
    next
      case ne: None
      let ?t = "delta_text incr delta (heap s a)"
      have fs: "full_data (heap s a)" "size_pre k (FLAGS_CONV (heap s a)) (int (length ?t) + 2) s" using ok Some ne by blast+
      have tl: "length ?t \<le> 1022" unfolding delta_text_def itoa_u64_dec using dec_u64 [of "delta_value incr delta (snd (safe_strtoull (data_cstr (heap s a))))"] by simp
      from add_delta_accepted [OF inv small pre Some ne fs(1) refl fs(2), of th] obtain s1 v cas' m1 where
        s1: "add_delta hash th k incr delta None s = Some (s1, v, ?t, cas')" "lost_upto 10 s m m1"
          "v = EOM \<and> (\<exists>Q F H. items_inv hash s1 m1 Q F H R) \<and> data_kept (live m1 R) s s1 \<or> v = OK \<and> counted hash m1 R k a ?t s s1"
        unfolding counted_def Let_def by blast
      have o: "out_string ?t (?c, s1) = Some (said ?t ?c, s1)" by (rule out_string_said [OF f(1) tl])
      have m: "out_string (ascii ''SERVER_ERROR out of memory'') (?c, s1) = Some (said (ascii ''SERVER_ERROR out of memory'') ?c, s1)"
        by (rule out_string_said) (simp_all add: f ascii_def)
      from s1(3) show ?thesis
      proof (elim disjE conjE)
        assume v: "v = EOM" and q: "\<exists>Q F H. items_inv hash s1 m1 Q F H R" "data_kept (live m1 R) s s1"
        have "process_arithmetic_command hash th toks incr (c, s) = Some (said (ascii ''SERVER_ERROR out of memory'') ?c, s1)"
          unfolding st by (simp add: s1(1) v m out_of_memory_def)
        then show ?thesis using s1(2) q Some ne
          by (intro exI [of _ "said (ascii ''SERVER_ERROR out of memory'') ?c"] exI [of _ s1] exI [of _ "ascii ''SERVER_ERROR out of memory''"] exI [of _ m1])
            (simp add: said_fields)
      next
        assume v: "v = OK" and q: "counted hash m1 R k a ?t s s1"
        have "process_arithmetic_command hash th toks incr (c, s) = Some (said ?t ?c, s1)" unfolding st by (simp add: s1(1) v o)
        then show ?thesis using s1(2) q Some ne
          by (intro exI [of _ "said ?t ?c"] exI [of _ s1] exI [of _ ?t] exI [of _ m1]) (simp add: said_fields)
      qed
    qed
  qed
qed

section \<open>Storing: the command line\<close>

lemma mapped_key: "\<lbrakk>items_inv hash s m Q F H R; m k = Some a\<rbrakk> \<Longrightarrow> key_of (heap s a) = k"
  using items_invD(1) by (fastforce simp: assoc_abs_def abs_map_def)

lemma size_ok_settings:
  assumes "items_inv hash s m Q F H R" "items_inv hash s' m' Q' F' H' R'" "settings s' = settings s"
  shows "item_size_ok nk flags nb s' = item_size_ok nk flags nb s"
proof -
  have l: "clsid_loop t sz POWER_SMALLEST \<noteq> 0" if "slab_inv t G K" for t :: "'c slabs_scheme" and sz G K
  proof -
    have "POWER_SMALLEST \<le> power_largest t" using that by (simp add: slab_inv_def free_ok_def class_ok_def)
    from clsid_loop_least [OF this, of sz] show ?thesis by auto
  qed
  show ?thesis
    using l [OF items_invD(4) [OF assms(1)]] l [OF items_invD(4) [OF assms(2)]] assms(3)
    by (simp add: item_size_ok_def slabs_clsid_of_def item_ntotal_of_def split: prod.split)
qed

lemma drop_stale_inv:
  assumes inv: "items_inv hash s m Q F H R" and small: "\<forall>a \<in> ran m. R a + 3 < 2 ^ 16"
  shows "\<exists>s'. drop_stale hash th k s = Some s' \<and> (\<exists>Q F H. items_inv hash s' (m(k := None)) Q F H R) \<and> data_kept (live (m(k := None)) R) s s'"
proof (cases "fresh s m k")
  case None
  with item_fetched [OF inv small, of k th] obtain s1 where s1: "do_item_get k (hash k) th False s = Some (s1, NULL)"
    "\<exists>Q F H. items_inv hash s1 (m(k := None)) Q F H R" "data_kept (live (m(k := None)) R) s s1" by auto
  have "drop_stale hash th k s = Some s1" using s1(1) by (simp add: drop_stale_def item_get_def)
  with s1(2,3) show ?thesis by blast
next
  case (Some a)
  then have a: "m k = Some a" "a \<noteq> NULL" "do_item_get k (hash k) th False s = Some (refcount_incr a s, a)" "R a + 2 < 2 ^ 16"
    using item_fetched [OF inv small, of k th] by auto
  have k: "key_of (heap (refcount_incr a s) a) = k" using mapped_key [OF inv a(1)] by (simp add: refcount_incr_def key_of_def)
  from drop_dead_inv [OF inv a(1,4)] obtain s2 s3 where d: "do_item_unlink a (hash k) (refcount_incr a s) = Some s2"
    "do_item_remove a (STORAGE_delete a s2) = Some s3" "\<exists>Q F H. items_inv hash s3 (m(k := None)) Q F H R"
    "data_kept (live (m(k := None)) R) s s3" by blast
  have "drop_stale hash th k s = Some s3"
    using a(2,3) d(1,2) by (simp add: drop_stale_def item_get_def item_unlink_def item_remove_def k)
  with d(3,4) show ?thesis by blast
qed

text \<open>An item of the connection that waits for its data: nobody else knows it, and it is not in the table.\<close>

definition awaits :: "(bytes \<Rightarrow> uint32) \<Rightarrow> (bytes \<rightharpoonup> addr) \<Rightarrow> (addr \<Rightarrow> nat) \<Rightarrow> bytes \<Rightarrow> uint32 \<Rightarrow> uint32 \<Rightarrow> int \<Rightarrow> conn \<times> 'a store_scheme \<Rightarrow> bool" where
  "awaits hash m R k flags et n = (\<lambda>(c, s). let it = c_item c; x = heap s it in
     cstate c = conn_nread \<and> ritem c = it \<and> roff c = 0 \<and> rlbytes c = n \<and> it \<notin> ran m \<and> R it = 0 \<and> (\<exists>Q F H. items_inv hash s m Q F H (R(it := 1))) \<and>
     key_of x = k \<and> FLAGS_CONV x = flags \<and> exptime x = et \<and> nbytes x = n)"

lemma update_inv:
  fixes s :: "'a store_scheme"
  assumes inv: "items_inv hash s m Q F H R" and small: "\<forall>a \<in> ran m. R a + 3 < 2 ^ 16" and pre: "pull_pre s m R" and rd: "ready c"
    and len: "tk_length (toks ! KEY_TOKEN) \<le> KEY_MAX_LENGTH" and k: "k = key_arg c toks"
    and num: "safe_strtoul (arg c toks 2) = (True, flags)" "safe_strtol (arg c toks 3) = (True, n)" "safe_strtol (arg c toks 4) = (True, vlen)"
      "handle_cas \<longrightarrow> fst (safe_strtoull (arg c toks 5))" "0 \<le> vlen" "vlen \<le> 2 ^ 31 - 3"
    and et: "et = realtime (process_started c) (current_time s) (EXPTIME_TO_POSITIVE_TIME n)"
    and size: "size_pre k flags (vlen + 2) s"
  shows "\<exists>c' s' m1. process_update_command hash th toks comm handle_cas (c, s) = Some (c', s') \<and> lost_upto 10 s m m1 \<and>
    (item_size_ok (of_nat (length k)) flags (vlen + 2) s \<and> awaits hash m1 R k flags et (vlen + 2) (c', s') \<and> c_cmd c' = comm \<and> resps c' = resps c \<and>
       noreply c' = noreply (set_noreply_maybe toks c) \<and> mset_res c' = mset_res c \<and> data_kept (live m1 R) s s' \<or>
     may_fail k flags (vlen + 2) s \<and> cstate c' = conn_swallow \<and> sbytes c' = vlen + 2 \<and>
       reply c' = line (noreply (set_noreply_maybe toks c)) (if item_size_ok (of_nat (length k)) flags (vlen + 2) s
         then ascii ''SERVER_ERROR out of memory storing object'' else ascii ''SERVER_ERROR object too large for cache'') \<and>
       (let m2 = if comm = NREAD_SET then m1(k := None) else m1 in (\<exists>Q F H. items_inv hash s' m2 Q F H R) \<and> data_kept (live m2 R) s s'))"
proof -
  let ?c = "set_noreply_maybe toks c" and ?nb = "vlen + 2" and ?nk = "of_nat (length k) :: uint64"
  have f: "ready ?c" "key_arg ?c toks = k" "rbuf ?c = rbuf c" "process_started ?c = process_started c" "resps ?c = resps c"
    using rd k by (simp_all add: set_noreply_fields) (simp add: set_noreply_maybe_def Let_def)
  let ?d = "if detail_enabled ?c then ?c\<lparr>ptab := stats_prefix_record_set hash k (ptab ?c)\<rparr> else ?c"
  have d: "ready ?d" "noreply ?d = noreply ?c" "resps ?d = resps c" "mset_res ?d = mset_res c"
    using f by (simp_all add: ready_more) (simp add: set_noreply_maybe_def Let_def)
  obtain cas where cas: "(if handle_cas then safe_strtoull (arg c toks 5) else (True, 0)) = (True, cas)"
    using num(4) by (metis prod.collapse)
  have st: "process_update_command hash th toks comm handle_cas (c, s) = do {
      (s1, it) \<leftarrow> item_alloc hash k flags et ?nb s;
      if it = NULL
      then do {
        (c2, s2) \<leftarrow> (if \<not> item_size_ok ?nk flags ?nb s1 then out_string (ascii ''SERVER_ERROR object too large for cache'') (?d, s1)
                    else out_of_memory (ascii ''SERVER_ERROR out of memory storing object'') (?d, s1));
        s3 \<leftarrow> (if comm = NREAD_SET then drop_stale hash th k s2 else Some s2);
        Some ((conn_set_state conn_swallow c2)\<lparr>sbytes := ?nb\<rparr>, s3)
      }
      else
        let s2 = upd_item it (ITEM_set_cas cas) s1
        in Some (conn_set_state conn_nread
             (?d\<lparr>c_item := it, ritem := (if has_flag ITEM_CHUNKED (heap s2 it) then ITEM_schunk it (heap s2 it) else it), roff := 0,
                 rlbytes := nbytes (heap s2 it), c_cmd := comm\<rparr>), s2) }"
    using len num(1-3,5,6) unfolding process_update_command_def Let_def f(2-4) prod.case cas
    by (simp add: et cong: if_cong)
  have fail: "\<exists>c' s' m1. process_update_command hash th toks comm handle_cas (c, s) = Some (c', s') \<and> lost_upto 10 s m m1 \<and>
     may_fail k flags ?nb s \<and> cstate c' = conn_swallow \<and> sbytes c' = ?nb \<and> reply c' = line (noreply ?c) (if item_size_ok ?nk flags ?nb s
         then ascii ''SERVER_ERROR out of memory storing object'' else ascii ''SERVER_ERROR object too large for cache'') \<and>
       (let m2 = if comm = NREAD_SET then m1(k := None) else m1 in (\<exists>Q F H. items_inv hash s' m2 Q F H R) \<and> data_kept (live m2 R) s s')"
    if al: "do_item_alloc hash k flags et ?nb s = Some (s1, NULL)" and i1: "items_inv hash s1 m1 Q1 F1 H1 R" and l: "lost_upto 10 s m m1"
      and dk: "data_kept (live m1 R) s s1" and mf: "may_fail k flags ?nb s" for s1 m1 Q1 F1 H1
  proof -
    let ?txt = "if item_size_ok ?nk flags ?nb s then ascii ''SERVER_ERROR out of memory storing object'' else ascii ''SERVER_ERROR object too large for cache''"
    have so: "item_size_ok ?nk flags ?nb s1 = item_size_ok ?nk flags ?nb s" by (rule size_ok_settings [OF inv i1]) (use dk in \<open>simp add: data_kept_def\<close>)
    have o: "(if \<not> item_size_ok ?nk flags ?nb s1 then out_string (ascii ''SERVER_ERROR object too large for cache'') (?d, s1)
        else out_of_memory (ascii ''SERVER_ERROR out of memory storing object'') (?d, s1)) = Some (said ?txt ?d, s1)"
    proof -
      have "out_string t (?d, s1) = Some (said t ?d, s1)"
        if "t = ascii ''SERVER_ERROR object too large for cache'' \<or> t = ascii ''SERVER_ERROR out of memory storing object''" for t
        by (rule out_string_said [OF d(1)]) (use that in \<open>auto simp: ascii_def\<close>)
      then show ?thesis unfolding so out_of_memory_def by (simp del: ascii_def)
    qed
    have "\<forall>a \<in> ran m1. R a + 3 < 2 ^ 16" using small l by (auto simp: lost_upto_def map_le_def ran_def) (metis domI)
    from drop_stale_inv [OF i1 this, of th k] obtain s2 where s2: "drop_stale hash th k s1 = Some s2" "\<exists>Q F H. items_inv hash s2 (m1(k := None)) Q F H R"
      "data_kept (live (m1(k := None)) R) s1 s2" by blast
    let ?s = "if comm = NREAD_SET then s2 else s1" and ?e = "(conn_set_state conn_swallow (said ?txt ?d))\<lparr>sbytes := ?nb\<rparr>"
      and ?m2 = "if comm = NREAD_SET then m1(k := None) else m1"
    have e: "process_update_command hash th toks comm handle_cas (c, s) = Some (?e, ?s)"
      unfolding st item_alloc_def al by (simp only: Option.bind.bind_lunit prod.case o refl if_True s2(1) split: if_split) simp
    have r: "reply ?e = line (noreply ?c) ?txt" using said_fields(1) [of ?txt ?d] d(2) by (simp add: reply_def conn_set_state_def)
    have cs: "cstate ?e = conn_swallow" "sbytes ?e = ?nb" by (simp_all add: conn_set_state_def)
    have "live (m1(k := None)) R \<subseteq> live m1 R" by (auto simp: live_def ran_def split: if_splits)
    then have dk2: "data_kept (live (m1(k := None)) R) s s2" using data_kept_trans [OF dk s2(3)] by blast
    have "\<exists>Q F H. items_inv hash ?s ?m2 Q F H R" using s2(2) i1 by (cases "comm = NREAD_SET") (simp_all, blast)
    moreover have "data_kept (live ?m2 R) s ?s" using dk dk2 by simp
    ultimately show ?thesis
      using e r cs l mf by (intro exI [of _ ?e] exI [of _ ?s] exI [of _ m1] conjI) (simp_all only: Let_def)
  qed
  have weaken: "\<exists>x y z. A x y z \<and> B x y z \<and> (C x y z \<or> D x y z)" if "\<exists>x y z. A x y z \<and> B x y z \<and> D x y z"
    for A B C D :: "conn \<Rightarrow> 'a store_scheme \<Rightarrow> (bytes \<rightharpoonup> addr) \<Rightarrow> bool" using that by blast
  from alloc_inv' [OF inv pre size, of et] obtain s1 it m1 where al: "do_item_alloc hash k flags et ?nb s = Some (s1, it)"
    "data_kept (live m1 R) s s1" "lost_upto 10 s m m1" and
    r: "if it = NULL then may_fail k flags ?nb s \<and> (\<exists>Q F H. items_inv hash s1 m1 Q F H R)
     else item_size_ok ?nk flags ?nb s \<and> (\<exists>Q F H. items_inv hash s1 m1 Q F H (R(it := 1))) \<and> it \<notin> ran m1 \<and> R it = 0 \<and>
       key_of (heap s1 it) = k \<and> nbytes (heap s1 it) = ?nb \<and> exptime (heap s1 it) = et \<and> FLAGS_CONV (heap s1 it) = flags" by blast
  show ?thesis
  proof (cases "it = NULL")
    case True
    then obtain Q1 F1 H1 where "items_inv hash s1 m1 Q1 F1 H1 R" "may_fail k flags ?nb s" using r by auto
    from fail [OF al(1) [unfolded True] this(1) al(3,2) this(2)] show ?thesis by (rule weaken)
  next
    case nn: False
    then obtain Q1 F1 H1 where i1: "items_inv hash s1 m1 Q1 F1 H1 (R(it := 1))" and p: "it \<notin> ran m1" "R it = 0" "key_of (heap s1 it) = k"
      "nbytes (heap s1 it) = ?nb" "exptime (heap s1 it) = et" "FLAGS_CONV (heap s1 it) = flags" and ok: "item_size_ok ?nk flags ?nb s" using r by auto
    let ?s2 = "upd_item it (ITEM_set_cas cas) s1"
    have lv: "it \<in> live m1 (R(it := 1))" by (simp add: live_def)
    have i2: "items_inv hash ?s2 m1 Q1 F1 H1 (R(it := 1))"
      by (rule mark_inv [OF i1 lv]) (simp add: ITEM_set_cas_def same_core_def)
    have x: "heap ?s2 it = ITEM_set_cas cas (heap s1 it)" by simp
    have ch: "\<not> has_flag ITEM_CHUNKED (heap ?s2 it)" using items_invD(6) [OF i2 lv] by (simp add: item_ok_def)
    let ?c2 = "conn_set_state conn_nread (?d\<lparr>c_item := it, ritem := it, roff := 0, rlbytes := nbytes (heap ?s2 it), c_cmd := comm\<rparr>)"
    have e: "process_update_command hash th toks comm handle_cas (c, s) = Some (?c2, ?s2)"
      unfolding st item_alloc_def al(1) Option.bind.bind_lunit prod.case if_not_P [OF nn] Let_def if_not_P [OF ch] by (rule refl)
    have "key_of (heap ?s2 it) = k" "nbytes (heap ?s2 it) = ?nb" "exptime (heap ?s2 it) = et" "FLAGS_CONV (heap ?s2 it) = flags"
      using p(3-6) unfolding x by (auto simp: ITEM_set_cas_def key_of_def FLAGS_CONV_def has_flag_def)
    then have "awaits hash m1 R k flags et ?nb (?c2, ?s2)" using i2 p(1,2) by (auto simp: awaits_def conn_set_state_def)
    moreover have "data_kept (live m1 R) s ?s2" using al(2) p(1,2) by (auto simp: data_kept_def live_def)
    ultimately show ?thesis using e al(3) ok d(2-4) by (auto simp: conn_set_state_def)
  qed
qed

text \<open>A length that is negative, or too large to be counted with its end of line: nothing is stored and nothing swallowed.\<close>

lemma update_bad_length:
  assumes rd: "ready c" and len: "tk_length (toks ! KEY_TOKEN) \<le> KEY_MAX_LENGTH"
    and num: "safe_strtoul (arg c toks 2) = (True, flags)" "safe_strtol (arg c toks 3) = (True, n)" "safe_strtol (arg c toks 4) = (True, vlen)"
      "handle_cas \<longrightarrow> fst (safe_strtoull (arg c toks 5))" "vlen < 0 \<or> 2 ^ 31 - 3 < vlen"
  shows "\<exists>c'. process_update_command hash th toks comm handle_cas (c, s) = Some (c', s) \<and> cstate c' = conn_new_cmd \<and>
    reply c' = line (noreply (set_noreply_maybe toks c)) bad_format"
proof -
  let ?c = "set_noreply_maybe toks c"
  have f: "ready ?c" "rbuf ?c = rbuf c" using rd by (simp_all add: set_noreply_fields)
  obtain cas where cas: "(if handle_cas then safe_strtoull (arg c toks 5) else (True, 0)) = (True, cas)"
    using num(4) by (metis prod.collapse)
  have o: "out_string bad_format (?c, s) = Some (said bad_format ?c, s)" by (rule out_string_said [OF f(1)]) (simp add: ascii_def)
  have "process_update_command hash th toks comm handle_cas (c, s) = Some (said bad_format ?c, s)"
    using len num(1-3,5) o unfolding process_update_command_def Let_def f(2) prod.case cas by (auto simp del: ascii_def)
  then show ?thesis by (simp add: said_fields)
qed

section \<open>Storing: the data\<close>

text \<open>
  A turn of \<^verbatim>\<open>drive_machine\<close> in the state \<^verbatim>\<open>conn_nread\<close>, and its loop, which leaves the state or stops to wait. The first argument of
  the loop bounds the number of turns.
\<close>

definition data_turn :: "(bytes \<Rightarrow> uint32) \<Rightarrow> nat \<Rightarrow> (store_item_type \<Rightarrow> conn \<times> 'a store_scheme \<Rightarrow> (conn \<times> 'a store_scheme) option) \<Rightarrow>
    conn \<times> 'a store_scheme \<Rightarrow> ((conn \<times> 'a store_scheme) \<times> bool) option" where
  "data_turn hash th finalize_mset cs =
    (if rlbytes (fst cs) = 0 then map_option (\<lambda>cs'. (cs', False)) (complete_nread_ascii hash th finalize_mset cs) else Some (nread_turn cs))"

fun data_loop :: "nat \<Rightarrow> (bytes \<Rightarrow> uint32) \<Rightarrow> nat \<Rightarrow> (store_item_type \<Rightarrow> conn \<times> 'a store_scheme \<Rightarrow> (conn \<times> 'a store_scheme) option) \<Rightarrow>
    conn \<times> 'a store_scheme \<Rightarrow> (conn \<times> 'a store_scheme) option" where
  "data_loop 0 hash th fin cs = None"
| "data_loop (Suc n) hash th fin cs =
    (if cstate (fst cs) \<noteq> conn_nread then Some cs
     else case data_turn hash th fin cs of None \<Rightarrow> None
       | Some (cs', stop) \<Rightarrow> if stop then Some cs' else data_loop n hash th fin cs')"

text \<open>What is waiting for the connection: the bytes read but not parsed, then what the socket will give.\<close>

definition waiting :: "conn \<Rightarrow> bytes list \<Rightarrow> bytes" where
  "waiting c pieces = take (rbytes c) (drop (rcurr c) (rbuf c)) @ concat pieces"

definition got_bytes :: "conn \<Rightarrow> nat \<Rightarrow> nat \<Rightarrow> net_result list \<Rightarrow> conn" where
  "got_bytes c n b rest = c\<lparr>roff := roff c + n, rlbytes := rlbytes c - int n, rcurr := rcurr c + b, rbytes := rbytes c - b, net := rest\<rparr>"

lemma copied_upto:
  assumes "take n d = g" "length g = n"
  shows "take (n + length bs) (copy_at d n bs) = g @ bs"
  using assms by (auto simp: copy_at_def min_def split: if_splits)

lemma put_bytes_two:
  "put_bytes q (put_bytes p (c, s)) = (c\<lparr>roff := roff c + length p + length q, rlbytes := rlbytes c - int (length p) - int (length q)\<rparr>,
     upd_item (ritem c) (\<lambda>i. i\<lparr>idata := copy_at (copy_at (idata i) (roff c) p) (roff c + length p) q\<rparr>) s)"
  by (simp add: put_bytes_def comp_def)

text \<open>A turn takes what the buffer holds, up to the length of the data, and then one piece from the socket.\<close>

lemma nread_turn_step:
  assumes c: "rlbytes c = int (length rest)" "rest \<noteq> []" "waiting c pieces = rest @ extra" "rcurr c + rbytes c \<le> length (rbuf c)"
      "net c = map Net_data pieces @ later" "[] \<notin> set pieces"
    and d: "take (roff c) (idata (heap s (ritem c))) = got" "length got = roff c"
  shows "\<exists>n b pieces' d. nread_turn (c, s) = ((got_bytes c n b (map Net_data pieces' @ later), upd_item (ritem c) (idata_update (\<lambda>_. d)) s), False) \<and>
    take (roff c + n) d = got @ take n rest \<and> n \<le> length rest \<and> waiting (got_bytes c n b (map Net_data pieces' @ later)) pieces' = drop n rest @ extra \<and>
    b \<le> rbytes c \<and> [] \<notin> set pieces' \<and> (n = length rest \<or> Suc (length pieces') = length pieces)"
proof -
  define B where "B = take (rbytes c) (drop (rcurr c) (rbuf c))"
  have lb: "length B = rbytes c" using c(4) by (simp add: B_def)
  have w: "B @ concat pieces = rest @ extra" using c(3) by (simp add: waiting_def B_def)
  show ?thesis
  proof (cases "length rest \<le> rbytes c")
    case True
    then have tb: "take (length rest) (drop (rcurr c) (rbuf c)) = rest"
    proof -
      have "take (length rest) (drop (rcurr c) (rbuf c)) = take (length rest) B" using True by (simp add: B_def min_def)
      also have "\<dots> = take (length rest) (B @ concat pieces)" using True lb by simp
      finally show ?thesis by (simp add: w)
    qed
    have pos: "0 < rbytes c" using True c(2) by (cases rest) auto
    have t: "nat (if rlbytes c < int (rbytes c) then rlbytes c else int (rbytes c)) = length rest" using True c(1) by simp
    have "nread_turn (c, s) = ((got_bytes c (length rest) (length rest) (net c),
        upd_item (ritem c) (\<lambda>i. i\<lparr>idata := copy_at (idata i) (roff c) rest\<rparr>) s), False)"
      unfolding nread_turn_def prod.case t Let_def tb using pos by (simp add: c(1) tb put_bytes_def got_bytes_def Let_def)
    moreover have "upd_item (ritem c) (\<lambda>i. i\<lparr>idata := copy_at (idata i) (roff c) rest\<rparr>) s =
        upd_item (ritem c) (idata_update (\<lambda>_. copy_at (idata (heap s (ritem c))) (roff c) rest)) s" by (simp add: fun_eq_iff)
    moreover have "waiting (got_bytes c (length rest) (length rest) (map Net_data pieces @ later)) pieces = extra"
    proof -
      have "take (rbytes c - length rest) (drop (rcurr c + length rest) (rbuf c)) = drop (length rest) B"
        by (simp add: B_def drop_take add.commute)
      moreover have "drop (length rest) B @ concat pieces = drop (length rest) (B @ concat pieces)" using True lb by simp
      ultimately show ?thesis using w by (simp add: waiting_def got_bytes_def)
    qed
    ultimately show ?thesis using copied_upto [OF d, of rest] True c(5,6)
      by (intro exI [of _ "length rest"] exI [of _ "length rest"] exI [of _ pieces] exI [of _ "copy_at (idata (heap s (ritem c))) (roff c) rest"]) simp
  next
    case False
    then have l: "rbytes c < length rest" by simp
    have "pieces \<noteq> []" using l w lb by (metis append_Nil2 concat.simps(1) length_append not_add_less1)
    then obtain p ps where p: "pieces = p # ps" by (cases pieces) auto
    let ?r = "length rest - rbytes c"
    define q where "q = take ?r p"
    have wb: "take (rbytes c) rest = B" using arg_cong [OF w, of "take (rbytes c)"] l lb by simp
    have wr: "drop (rbytes c) rest @ extra = p @ concat ps" using arg_cong [OF w, of "drop (rbytes c)"] l lb by (simp add: p)
    have q: "q \<noteq> []" "length q \<le> ?r" "take (length q) (drop (rbytes c) rest) = q" "drop (length q) (drop (rbytes c) rest) @ extra = drop ?r p @ concat ps"
    proof -
      show "q \<noteq> []" using l c(6) by (auto simp: q_def p)
      show "length q \<le> ?r" by (simp add: q_def)
      have "take (length q) (drop (rbytes c) rest) = take (length q) (drop (rbytes c) rest @ extra)" by (simp add: q_def)
      then show "take (length q) (drop (rbytes c) rest) = q" unfolding wr by (simp add: q_def min_def split: if_splits)
      have "drop (length q) (drop (rbytes c) rest) @ extra = drop (length q) (drop (rbytes c) rest @ extra)" by (simp add: q_def)
      also have "\<dots> = drop (length q) (p @ concat ps)" by (simp only: wr)
      also have "\<dots> = drop ?r p @ concat ps" by (cases "length p \<le> ?r") (simp_all add: q_def)
      finally show "drop (length q) (drop (rbytes c) rest) @ extra = drop ?r p @ concat ps" .
    qed
    let ?ps = "if length p \<le> ?r then ps else drop ?r p # ps" and ?n = "rbytes c + length q"
    have rn: "read_net ?r (c\<lparr>net := net c\<rparr>) = (c\<lparr>net := map Net_data ?ps @ later\<rparr>, Net_data q)"
      by (simp add: read_net_def c(5) p q_def)
    have turn: "nread_turn (c, s) = ((got_bytes c ?n (rbytes c) (map Net_data ?ps @ later),
        upd_item (ritem c) (\<lambda>i. i\<lparr>idata := copy_at (copy_at (idata i) (roff c) B) (roff c + rbytes c) q\<rparr>) s), False)"
    proof (cases "rbytes c = 0")
      case True
      then have "B = []" using lb by simp
      then show ?thesis using q(1) True rn
        by (simp add: nread_turn_def c(1) put_bytes_def got_bytes_def copy_at_def [where src = "[]"])
    next
      case False
      let ?c = "c\<lparr>rcurr := rcurr c + rbytes c, rbytes := 0\<rparr>"
      let ?p = "put_bytes B (?c, s)"
      have tb: "take (rbytes c) (drop (rcurr c) (rbuf c)) = B" by (simp add: B_def)
      have t: "nat (if rlbytes c < int (rbytes c) then rlbytes c else int (rbytes c)) = rbytes c" using l c(1) by simp
      have rl: "rlbytes (fst ?p) = int ?r" using l by (simp add: put_bytes_def c(1) lb)
      have rn2: "read_net ?r (fst ?p) = ((fst ?p)\<lparr>net := map Net_data ?ps @ later\<rparr>, Net_data q)"
        by (simp add: read_net_def put_bytes_def c(5) p q_def)
      have "nread_turn (c, s) = (put_bytes q ((fst ?p)\<lparr>net := map Net_data ?ps @ later\<rparr>, snd ?p), False)"
        unfolding nread_turn_def prod.case t Let_def tb using False l q(1) rn2 rl nat_diff_distrib' [of "int (length rest)" "int (rbytes c)"] by (simp add: c(1) tb case_prod_beta)
      also have "put_bytes q ((fst ?p)\<lparr>net := map Net_data ?ps @ later\<rparr>, snd ?p) =
        (got_bytes c ?n (rbytes c) (map Net_data ?ps @ later), upd_item (ritem c) (\<lambda>i. i\<lparr>idata := copy_at (copy_at (idata i) (roff c) B) (roff c + rbytes c) q\<rparr>) s)"
        by (simp add: put_bytes_def got_bytes_def lb comp_def)
      finally show ?thesis .
    qed
    let ?d = "copy_at (copy_at (idata (heap s (ritem c))) (roff c) B) (roff c + rbytes c) q"
    have "upd_item (ritem c) (\<lambda>i. i\<lparr>idata := copy_at (copy_at (idata i) (roff c) B) (roff c + rbytes c) q\<rparr>) s = upd_item (ritem c) (idata_update (\<lambda>_. ?d)) s"
      by (simp add: fun_eq_iff)
    moreover have "take (roff c + ?n) ?d = got @ take ?n rest"
    proof -
      have "take (roff c + rbytes c) (copy_at (idata (heap s (ritem c))) (roff c) B) = got @ B" using copied_upto [OF d, of B] by (simp add: lb)
      from copied_upto [OF this, of q] d(2) lb have "take (roff c + ?n) ?d = (got @ B) @ q" by (simp add: add.assoc)
      then show ?thesis using wb q(3) by (simp add: take_add)
    qed
    moreover have "waiting (got_bytes c ?n (rbytes c) (map Net_data ?ps @ later)) ?ps = drop ?n rest @ extra"
      using q(4) by (simp add: waiting_def got_bytes_def add.commute) 
    moreover have "[] \<notin> set ?ps" "?n = length rest \<or> Suc (length ?ps) = length pieces" using c(6) l by (auto simp: p q_def)
    ultimately show ?thesis using turn q(2) l
      by (intro exI [of _ ?n] exI [of _ "rbytes c"] exI [of _ ?ps] exI [of _ ?d]) simp
  qed
qed

lemma data_loop_gets:
  assumes "cstate c = conn_nread" "rlbytes c = int (length rest)" "waiting c pieces = rest @ extra" "rcurr c + rbytes c \<le> length (rbuf c)"
      "net c = map Net_data pieces @ later" "[] \<notin> set pieces" "take (roff c) (idata (heap s (ritem c))) = got" "length got = roff c"
  shows "\<exists>k b net' d. k \<le> length pieces + 1 \<and> take (roff c + length rest) d = got @ rest \<and>
    (\<forall>f. data_loop (k + f) hash th fin (c, s) =
      data_loop f hash th fin (got_bytes c (length rest) b net', upd_item (ritem c) (idata_update (\<lambda>_. d)) s))"
  using assms
proof (induction "length pieces" arbitrary: c s rest pieces got rule: less_induct)
  case less
  note A = less.prems
  show ?case
  proof (cases "rest = []")
    case True
    have "got_bytes c 0 0 (net c) = c" by (simp add: got_bytes_def)
    moreover have "upd_item (ritem c) (idata_update (\<lambda>_. idata (heap s (ritem c)))) s = s" by simp
    ultimately show ?thesis using A(7) True
      by (intro exI [of _ 0] exI [of _ 0] exI [of _ "net c"] exI [of _ "idata (heap s (ritem c))"]) simp
  next
    case False
    from nread_turn_step [OF A(2) False A(3-8)] obtain n b ps d where t:
      "nread_turn (c, s) = ((got_bytes c n b (map Net_data ps @ later), upd_item (ritem c) (idata_update (\<lambda>_. d)) s), False)"
      "take (roff c + n) d = got @ take n rest" "n \<le> length rest" "waiting (got_bytes c n b (map Net_data ps @ later)) ps = drop n rest @ extra"
      "b \<le> rbytes c" "[] \<notin> set ps" "n = length rest \<or> Suc (length ps) = length pieces" by blast
    let ?c = "got_bytes c n b (map Net_data ps @ later)" and ?s = "upd_item (ritem c) (idata_update (\<lambda>_. d)) s"
    have one: "data_loop (Suc f) hash th fin (c, s) = data_loop f hash th fin (?c, ?s)" for f
      using False A(1,2) t(1) by (simp add: data_turn_def)
    show ?thesis
    proof (cases "n = length rest")
      case True
      then show ?thesis using one t(2)
        by (intro exI [of _ 1] exI [of _ b] exI [of _ "map Net_data ps @ later"] exI [of _ d]) simp
    next
      case nn: False
      then have ps: "Suc (length ps) = length pieces" using t(7) by simp
      have c: "cstate ?c = conn_nread" "rlbytes ?c = int (length (drop n rest))" "rcurr ?c + rbytes ?c \<le> length (rbuf ?c)" "net ?c = map Net_data ps @ later"
        "ritem ?c = ritem c" "roff ?c = roff c + n"
        using A(1,2,4) t(3,5) by (auto simp: got_bytes_def)
      have g: "take (roff ?c) (idata (heap ?s (ritem ?c))) = got @ take n rest" "length (got @ take n rest) = roff ?c"
        using t(2,3) A(8) by (simp_all add: c(5,6))
      from less.hyps [OF _ c(1,2) t(4) c(3,4) t(6) g] ps obtain k b' net' d' where
        h: "k \<le> length ps + 1" "take (roff ?c + length (drop n rest)) d' = (got @ take n rest) @ drop n rest"
          "\<And>f. data_loop (k + f) hash th fin (?c, ?s) =
            data_loop f hash th fin (got_bytes ?c (length (drop n rest)) b' net', upd_item (ritem ?c) (idata_update (\<lambda>_. d')) ?s)" by fastforce
      have gg: "got_bytes ?c (length (drop n rest)) b' net' = got_bytes c (length rest) (b + b') net'"
        using t(3) by (simp add: got_bytes_def)
      have ss: "upd_item (ritem ?c) (idata_update (\<lambda>_. d')) ?s = upd_item (ritem c) (idata_update (\<lambda>_. d')) s" by (simp add: c(5))
      have "take (roff c + length rest) d' = got @ rest" using h(2) t(3) by (simp add: c(6))
      moreover have "data_loop (Suc k + f) hash th fin (c, s) =
          data_loop f hash th fin (got_bytes c (length rest) (b + b') net', upd_item (ritem c) (idata_update (\<lambda>_. d')) s)" for f
        using one [of "k + f"] h(3) [of f] unfolding gg ss by simp
      moreover have "Suc k \<le> length pieces + 1" using h(1) ps by simp
      ultimately show ?thesis by blast
    qed
  qed
qed

fun answer :: "store_item_type \<Rightarrow> bytes" where
  "answer STORED = ascii ''STORED''"
| "answer EXISTS = ascii ''EXISTS''"
| "answer NOT_FOUND = ascii ''NOT_FOUND''"
| "answer NOT_STORED = ascii ''NOT_STORED''"
| "answer v = ascii ''SERVER_ERROR Unhandled storage type.''"

lemma tail_of_data:
  assumes "\<not> has_flag ITEM_CHUNKED (heap s (c_item c))" "nbytes (heap s (c_item c)) = int (length bs)" "2 \<le> length bs"
    "take (length bs) (idata (heap s (c_item c))) = bs"
  shows "tail_bytes (c, s) = drop (length bs - 2) bs"
proof -
  have l: "length bs \<le> length (idata (heap s (c_item c)))" using assms(4) by (metis length_take min.cobounded1 nat_le_linear min_def)
  have nth: "idata (heap s (c_item c)) ! i = bs ! i" if "i < length bs" for i using assms(4) that by (metis nth_take)
  obtain n where n: "length bs = Suc (Suc n)" using assms(3) by (cases "length bs" rule: nat.exhaust; cases "length bs - 1") auto
  have "drop n bs = [bs ! n, bs ! Suc n]" using n by (simp add: Cons_nth_drop_Suc [symmetric])
  then show ?thesis using assms(1,2) l n nth [of n] nth [of "Suc n"] by (simp add: tail_bytes_def cstr_at_def Let_def nat_diff_distrib' nat_add_distrib)
qed

lemma complete_nread_inv:
  fixes s :: "'a store_scheme"
  assumes inv: "items_inv hash s m Q F H (R(it := 1))" and small: "\<forall>a \<in> ran m. R a + 3 < 2 ^ 16" and it: "it \<notin> ran m" "R it = 0" "key_of (heap s it) = k"
    and c: "ready c" "\<not> mset_res c" "c_item c = it" "c_cmd c \<notin> {NREAD_APPEND, NREAD_PREPEND}"
    and b: "nbytes (heap s it) = int (length bs)" "2 \<le> length bs" "take (length bs) (idata (heap s it)) = bs"
    and v: "v = store_verdict (c_cmd c) (set_stale s) (ITEM_get_cas (heap s it)) (map_option (\<lambda>a. ITEM_get_cas (heap s a)) (fresh s m k))"
  shows "\<exists>c' s'. complete_nread_ascii hash th fin (c, s) = Some (c', s') \<and> cstate c' = conn_new_cmd \<and> c_item c' = NULL \<and>
    (if drop (length bs - 2) bs = [13, 10]
     then reply c' = line (noreply c) (answer v) \<and>
       (let m' = if v = STORED then m(k \<mapsto> it) else if fresh s m k = None then m(k := None) else m in
         (\<exists>Q F H. items_inv hash s' m' Q F H R) \<and> data_kept (live m' R - {it}) s s' \<and>
         (v = STORED \<longrightarrow> data_bytes it s' = bs \<and> FLAGS_CONV (heap s' it) = FLAGS_CONV (heap s it)))
     else reply c' = line (noreply c) (ascii ''CLIENT_ERROR bad data chunk'') \<and> (\<exists>Q F H. items_inv hash s' m Q F H R) \<and> data_kept (live m R) s s')"
proof -
  have lv: "it \<in> live m (R(it := 1))" by (simp add: live_def)
  have ch: "\<not> has_flag ITEM_CHUNKED (heap s it)" using items_invD(6) [OF inv lv] by (simp add: item_ok_def)
  have tb: "tail_bytes (c\<lparr>set_cmds := h\<rparr>, s) = drop (length bs - 2) bs" for h
    by (rule tail_of_data) (simp_all add: c(3) ch b)
  then have td: "tail_bytes (c\<lparr>set_cmds := (set_cmds c)(ITEM_clsid (heap s it) := set_cmds c (ITEM_clsid (heap s it)) + 1)\<rparr>, s) = drop (length bs - 2) bs" .
  define d where "d = c\<lparr>set_cmds := (set_cmds c)(ITEM_clsid (heap s it) := set_cmds c (ITEM_clsid (heap s it)) + 1)\<rparr>"
  have df: "ready d" "noreply d = noreply c" "c_item d = it" "\<not> mset_res d" "c_cmd d = c_cmd c" using c by (simp_all add: d_def ready_more)
  have fin: "\<exists>s'. item_remove it (s1\<lparr>set_stale := False\<rparr>) = Some s' \<and> (\<exists>Q F H. items_inv hash s' m' Q F H R) \<and> data_kept (live m' R) s1 s'"
    if "items_inv hash s1 m' Q F H (R(it := 1))" for s1 :: "'a store_scheme" and m' Q F H
  proof -
    have i: "items_inv hash (s1\<lparr>set_stale := False\<rparr>) m' Q F H (R(it := 1))" by (rule same_items_inv [OF that]) (simp_all add: same_tables_def)
    have R: "(R(it := 1))(it := (R(it := 1)) it - 1) = R" using it(2) by (simp add: fun_eq_iff)
    from do_item_remove_inv [OF i, of it] show ?thesis unfolding R by (simp add: item_remove_def data_kept_def) blast
  qed
  have st: "complete_nread_ascii hash th fin (c, s) = do {
      (c1, s1) \<leftarrow> (if drop (length bs - 2) bs \<noteq> [13, 10] then out_string (ascii ''CLIENT_ERROR bad data chunk'') (d, s)
        else do {
          (s1, ret) \<leftarrow> store_item hash it (c_cmd c) th s;
          out_string (answer ret) (d, s1) });
      s2 \<leftarrow> item_remove (c_item c1) (s1\<lparr>set_stale := False\<rparr>);
      Some (c1\<lparr>mset_res := False, c_item := NULL\<rparr>, s2) }"
  proof -
    have a: "(case ret of STORED \<Rightarrow> out_string (ascii ''STORED'') x | EXISTS \<Rightarrow> out_string (ascii ''EXISTS'') x
        | NOT_FOUND \<Rightarrow> out_string (ascii ''NOT_FOUND'') x | NOT_STORED \<Rightarrow> out_string (ascii ''NOT_STORED'') x
        | _ \<Rightarrow> out_string (ascii ''SERVER_ERROR Unhandled storage type.'') x) = out_string (answer ret) x" for ret and x :: "conn \<times> 'a store_scheme"
      by (cases ret) simp_all
    show ?thesis unfolding complete_nread_ascii_def prod.case Let_def c(3) td a d_def [symmetric] using df(4,5) td [folded d_def] by (simp cong: if_cong)
  qed
  have said_last: "reply (x\<lparr>mset_res := False, c_item := NULL\<rparr>) = reply x" for x by (simp add: reply_def)
  show ?thesis
  proof (cases "drop (length bs - 2) bs = [13, 10]")
    case False
    let ?t = "ascii ''CLIENT_ERROR bad data chunk''"
    have o: "out_string ?t (d, s) = Some (said ?t d, s)" by (rule out_string_said [OF df(1)]) (simp add: ascii_def)
    from fin [OF inv] obtain s' where s': "item_remove it (s\<lparr>set_stale := False\<rparr>) = Some s'" "\<exists>Q F H. items_inv hash s' m Q F H R" "data_kept (live m R) s s'" by blast
    have "complete_nread_ascii hash th fin (c, s) = Some ((said ?t d)\<lparr>mset_res := False, c_item := NULL\<rparr>, s')"
      unfolding st using False o s'(1) by (simp add: said_fields df(3))
    then show ?thesis using False s'(2,3) by (simp add: said_last said_fields df(2))
  next
    case True
    define m' where "m' = (if v = STORED then m(k \<mapsto> it) else if fresh s m k = None then m(k := None) else m)"
    have sm: "\<forall>a \<in> ran m. (R(it := 1)) a + 3 < 2 ^ 16" using small by simp
    have r1: "0 < (R(it := 1)) it" "(R(it := 1)) it + 1 < 2 ^ 16" by simp_all
    from store_item_inv [OF inv sm it(1) r1 it(3) c(4) v m'_def, of th] obtain s1 Q1 F1 H1 where s1: "do_store_item hash it (c_cmd c) th (hash k) s = Some (s1, v)"
      "items_inv hash s1 m' Q1 F1 H1 (R(it := 1))" "data_kept (live m' (R(it := 1)) - {it}) s s1" "same_value (heap s1 it) (heap s it)" by blast
    have o: "out_string (answer v) (d, s1) = Some (said (answer v) d, s1)"
      by (rule out_string_said [OF df(1)]) (cases v; simp add: ascii_def)
    from fin [OF s1(2)] obtain s' where s': "item_remove it (s1\<lparr>set_stale := False\<rparr>) = Some s'" "\<exists>Q F H. items_inv hash s' m' Q F H R"
      "data_kept (live m' R) s1 s'" by blast
    have e: "complete_nread_ascii hash th fin (c, s) = Some ((said (answer v) d)\<lparr>mset_res := False, c_item := NULL\<rparr>, s')"
      unfolding st using True o s'(1) s1(1) by (simp add: said_fields df(3) store_item_def it(3))
    have dk: "data_kept (live m' R - {it}) s s'"
      by (rule data_kept_trans [OF s1(3) s'(3)]) (auto simp: live_def)
    have val: "data_bytes it s' = bs \<and> FLAGS_CONV (heap s' it) = FLAGS_CONV (heap s it)" if "v = STORED"
    proof -
      have "it \<in> live m' R" using that by (simp add: m'_def live_def ran_def) blast
      then have "same_value (heap s' it) (heap s it)" using s'(3) same_data_value same_value_trans [OF _ s1(4)] by (simp add: data_kept_def)
      then show ?thesis using b same_value_flags(1) by (auto simp: same_value_def data_bytes_def)
    qed
    show ?thesis using True e s'(2) dk val
      by (intro exI [of _ "(said (answer v) d)\<lparr>mset_res := False, c_item := NULL\<rparr>"] exI [of _ s'])
        (simp add: said_last said_fields df(2) m'_def [symmetric] Let_def)
  qed
qed

section \<open>From the line to the handler\<close>

lemma cstring_prefix: "take (length (cstring buf p)) (drop p buf) = cstring buf p"
  by (metis takeWhile_eq_take)

text \<open>The tokens of a command line are its words, the first 23 at most.\<close>

lemma command_tokens:
  assumes "p \<le> length buf" "0 \<in> set (drop p buf)" "tokenize_command p MAX_TOKENS buf = (toks, buf')"
  shows "length toks = min 23 (length (words (cstring buf p))) + 1"
    "\<And>i. i < length toks - 1 \<Longrightarrow> tk_text buf' (toks ! i) = words (cstring buf p) ! i \<and> tk_length (toks ! i) = length (words (cstring buf p) ! i) \<and>
      tk_value (toks ! i) \<noteq> None"
    "2 < length toks \<Longrightarrow> key_arg (c\<lparr>rbuf := buf'\<rparr>) toks = words (cstring buf p) ! 1"
proof -
  let ?ws = "words (cstring buf p)"
  from tokenize_words [OF assms(1,2), of MAX_TOKENS] assms(3) obtain new last where
    t: "toks = new @ [last]" "map (tk_text buf') new = take 23 ?ws" "map tk_length new = map length (take 23 ?ws)" "\<forall>t \<in> set new. tk_value t \<noteq> None"
    by auto
  have l: "length new = min 23 (length ?ws)" using arg_cong [OF t(2), of length] by simp
  show len: "length toks = min 23 (length ?ws) + 1" using t(1) l by simp
  show tok: "tk_text buf' (toks ! i) = ?ws ! i \<and> tk_length (toks ! i) = length (?ws ! i) \<and> tk_value (toks ! i) \<noteq> None" if "i < length toks - 1" for i
  proof -
    have i: "i < length new" "toks ! i = new ! i" using that t(1) by (simp_all add: nth_append)
    have "tk_text buf' (new ! i) = ?ws ! i" "tk_length (new ! i) = length (?ws ! i)"
      using i(1) l arg_cong [OF t(2), of "\<lambda>x. x ! i"] arg_cong [OF t(3), of "\<lambda>x. x ! i"] by simp_all
    then show ?thesis using i t(4) by simp
  qed
  assume "2 < length toks"
  then have a: "tk_text buf' (toks ! 1) = ?ws ! 1" "tk_length (toks ! 1) = length (?ws ! 1)" "tk_value (toks ! 1) \<noteq> None" using tok [of 1] by simp_all
  then obtain q where q: "tk_value (toks ! 1) = Some q" by blast
  then show "key_arg (c\<lparr>rbuf := buf'\<rparr>) toks = ?ws ! 1"
    using a cstring_prefix [where buf = buf' and p = q] by (simp add: key_arg_def tk_text_def)
qed

lemma resp_started:
  assumes "resp_supply c = True # rs"
  defines "c1 \<equiv> c\<lparr>resp_supply := rs, resps := new_resp # resps c\<rparr>"
  shows "resp_start c = (c1, True)" "ready (c1\<lparr>rbuf := buf\<rparr>)" "noreply c1 = noreply c" "rcurr c1 = rcurr c" "rbuf c1 = rbuf c"
    "process_started c1 = process_started c"
  by (simp_all add: resp_start_def ready_def assms(1) c1_def)

definition ends_quiet :: "bytes list \<Rightarrow> bool" where
  "ends_quiet ws \<longleftrightarrow> ws \<noteq> [] \<and> last ws = ascii ''noreply''"

lemma noreply_last:
  assumes "length toks = length ws + 1" "\<And>i. i < length ws \<Longrightarrow> tk_text (rbuf c) (toks ! i) = ws ! i \<and> tk_value (toks ! i) \<noteq> None" "ws \<noteq> []"
  shows "noreply (set_noreply_maybe toks c) \<longleftrightarrow> noreply c \<or> ends_quiet ws"
proof -
  have "length toks - 2 < length ws" "ws ! (length toks - 2) = last ws" using assms(1,3) by (auto simp: last_conv_nth)
  then show ?thesis using assms(2) [of "length toks - 2"] assms(3) by (auto simp: set_noreply_maybe_def ends_quiet_def Let_def)
qed

text \<open>A command line stands in the buffer where the connection parses next, and there is a response to answer with.\<close>

definition has_line :: "conn \<Rightarrow> bytes list \<Rightarrow> bool" where
  "has_line c ws \<longleftrightarrow> rcurr c \<le> length (rbuf c) \<and> 0 \<in> set (drop (rcurr c) (rbuf c)) \<and> words (cstring (rbuf c) (rcurr c)) = ws \<and> length ws \<le> 23 \<and>
     (\<exists>rs. resp_supply c = True # rs)"

lemma process_line:
  assumes "has_line c ws"
  shows "\<exists>toks c1. (\<forall>s :: 'a store_scheme. process_command hash th others (c, s) = run_call hash th others (dispatch (rbuf c1) toks) toks (c1, s)) \<and>
    ready c1 \<and> noreply c1 = noreply c \<and> process_started c1 = process_started c \<and> length toks = length ws + 1 \<and>
    (\<forall>i < length ws. arg c1 toks i = ws ! i \<and> tk_length (toks ! i) = length (ws ! i) \<and> tk_value (toks ! i) \<noteq> None) \<and>
    (1 < length ws \<longrightarrow> key_arg c1 toks = ws ! 1) \<and> tl (resps c1) = resps c \<and> mset_res c1 = mset_res c"
proof -
  from assms obtain rs where h: "rcurr c \<le> length (rbuf c)" "0 \<in> set (drop (rcurr c) (rbuf c))" "words (cstring (rbuf c) (rcurr c)) = ws" "length ws \<le> 23"
    "resp_supply c = True # rs" by (auto simp: has_line_def)
  let ?c = "c\<lparr>resp_supply := rs, resps := new_resp # resps c\<rparr>"
  obtain toks buf' where t: "tokenize_command (rcurr c) MAX_TOKENS (rbuf c) = (toks, buf')" by fastforce
  note T = command_tokens [OF h(1,2) t, unfolded h(3)]
  let ?c1 = "?c\<lparr>rbuf := buf'\<rparr>"
  note S = resp_started [OF h(5)]
  have "process_command hash th others (c, s) = run_call hash th others (dispatch (rbuf ?c1) toks) toks (?c1, s)" for s :: "'a store_scheme"
    by (simp add: process_command_def S(1) t)
  moreover have "length toks = length ws + 1" using T(1) h(4) by simp
  moreover have "\<forall>i < length ws. arg ?c1 toks i = ws ! i \<and> tk_length (toks ! i) = length (ws ! i) \<and> tk_value (toks ! i) \<noteq> None"
    using T(2) calculation(2) by simp
  moreover have "1 < length ws \<longrightarrow> key_arg ?c1 toks = ws ! 1" using T(3) calculation(2) by simp
  ultimately show ?thesis using S(2) [of buf'] by (intro exI [of _ toks] exI [of _ ?c1]) (simp add: ready_def)
qed

lemma unat_word_of_nat_mod: "unat (of_nat n :: byte) = n mod 256"
  by (simp add: unsigned_of_nat take_bit_eq_mod)

lemma ascii_eq_iff: "ascii s = ascii t \<longleftrightarrow> s = t"
proof -
  have "inj (of_char :: char \<Rightarrow> byte)"
  proof (rule injI)
    fix a b :: char
    assume "(of_char a :: byte) = of_char b"
    then have "(of_nat (of_char a) :: byte) = of_nat (of_char b)" by (simp only: of_nat_of_char)
    from arg_cong [OF this, of unat] have "(of_char a :: nat) mod 256 = of_char b mod 256"
      by (simp only: unat_word_of_nat_mod)
    moreover have "(of_char x :: nat) mod 256 = of_char x" for x by simp
    ultimately have "(of_char a :: nat) = of_char b" by simp
    then show "a = b" by simp
  qed
  then show ?thesis unfolding ascii_def by (rule inj_map_eq_map)
qed

text \<open>The words of a line that the \<^verbatim>\<open>delete\<close> handler takes, after the key.\<close>

lemma delete_form_words:
  assumes toks: "length toks = length ws + 1" "\<And>i. i < length ws \<Longrightarrow> arg c toks i = ws ! i \<and> tk_value (toks ! i) \<noteq> None"
    and ws: "ws = w # k # opts" "opts \<in> {[], [ascii ''0''], [ascii ''noreply''], [ascii ''0'', ascii ''noreply'']}"
  shows "snd (delete_form toks c)" "noreply (fst (delete_form toks c)) \<longleftrightarrow> noreply c \<or> opts \<noteq> [] \<and> ends_quiet opts"
proof -
  have n: "noreply (set_noreply_maybe toks c) \<longleftrightarrow> noreply c \<or> ends_quiet ws" by (rule noreply_last [OF toks]) (simp_all add: ws(1))
  have e: "ends_quiet ws = ends_quiet opts" if "opts \<noteq> []" using that by (simp add: ends_quiet_def ws(1))
  have a: "arg c toks 2 = opts ! 0" if "opts \<noteq> []" using toks(2) [of 2] that by (cases opts) (simp_all add: ws(1))
  have ne: "ascii ''0'' \<noteq> ascii ''noreply''" by (simp add: ascii_def)
  have d: "opts \<noteq> [] \<Longrightarrow> delete_form toks c = (set_noreply_maybe toks c,
      length opts = 1 \<and> (opts ! 0 = ascii ''0'' \<or> noreply (set_noreply_maybe toks c)) \<or>
      length opts = 2 \<and> opts ! 0 = ascii ''0'' \<and> noreply (set_noreply_maybe toks c))"
    using toks(1) a by (cases opts) (auto simp: delete_form_def ws(1) Let_def numeral_2_eq_2)
  have z: "opts = [] \<Longrightarrow> delete_form toks c = (c, True)" using toks(1) by (simp add: delete_form_def ws(1))
  consider "opts = []" | "opts = [ascii ''0'']" | "opts = [ascii ''noreply'']" | "opts = [ascii ''0'', ascii ''noreply'']" using ws(2) by blast
  then have "snd (delete_form toks c) \<and> (noreply (fst (delete_form toks c)) \<longleftrightarrow> noreply c \<or> opts \<noteq> [] \<and> ends_quiet opts)"
    using d z n e by cases (simp_all add: ends_quiet_def)
  then show "snd (delete_form toks c)" "noreply (fst (delete_form toks c)) \<longleftrightarrow> noreply c \<or> opts \<noteq> [] \<and> ends_quiet opts" by simp_all
qed

section \<open>Properties\<close>

text \<open>
  C11. Deleting, from the line to the store. When a line \<open>delete\<close> with a key, and an optional 0 and \<open>noreply\<close>, stands in the
  buffer, the command is tokenized, dispatched and carried out: the key leaves the map of the store whether it was
  there or not, the items of all other keys and all held items keep their data, the store stays consistent, and the client reads
  DELETED or NOT_FOUND by whether the key had a live item, or nothing if it asked for silence.
\<close>

theorem delete_spec:
  fixes s :: "'a store_scheme"
  assumes inv: "items_inv hash s m Q F H R" and small: "\<forall>a \<in> ran m. R a + 3 < 2 ^ 16"
    and line: "has_line c (ascii ''delete'' # k # opts)" "opts \<in> {[], [ascii ''0''], [ascii ''noreply''], [ascii ''0'', ascii ''noreply'']}" "length k \<le> 250"
  shows "\<exists>c' s'. process_command hash th others (c, s) = Some (c', s') \<and> cstate c' = conn_new_cmd \<and>
    reply c' = line (noreply c \<or> opts \<noteq> [] \<and> ends_quiet opts) (if fresh s m k = None then ascii ''NOT_FOUND'' else ascii ''DELETED'') \<and>
    (\<exists>Q F H. items_inv hash s' (m(k := None)) Q F H R) \<and> data_kept (live (m(k := None)) R) s s'"
proof -
  let ?ws = "ascii ''delete'' # k # opts"
  from process_line [OF line(1), of hash th others] obtain toks c1 where
    p: "process_command hash th others (c, s) = run_call hash th others (dispatch (rbuf c1) toks) toks (c1, s)" "ready c1" "noreply c1 = noreply c"
      "length toks = length ?ws + 1" "\<And>i. i < length ?ws \<Longrightarrow> arg c1 toks i = ?ws ! i \<and> tk_length (toks ! i) = length (?ws ! i) \<and> tk_value (toks ! i) \<noteq> None"
      "key_arg c1 toks = k" by auto
  have a: "arg c1 toks 0 = ascii ''delete''" "tk_length (toks ! 0) = 6" "tk_length (toks ! 1) = length k"
    using p(5) [of 0] p(5) [of 1] by (simp_all add: ascii_def)
  have n: "3 \<le> length toks" "length toks \<le> 5" using p(4) line(2) by auto
  have w: "cstr_at (ascii ''delete'') 0 = 100" by (simp add: ascii_def cstr_at_def)
  have d: "dispatch (rbuf c1) toks = Delete_key" using n by (simp add: dispatch_def a(1,2) w ascii_eq_iff)
  have f: "snd (delete_form toks c1)" "noreply (fst (delete_form toks c1)) \<longleftrightarrow> noreply c \<or> opts \<noteq> [] \<and> ends_quiet opts"
    using delete_form_words [OF p(4) _ refl line(2), of c1] p(3,5) by blast+
  from delete_inv [OF inv small p(2) f(1) _ p(6) [symmetric], of th] a(3) line(3) show ?thesis
    unfolding p(1) d run_call_def call.case f(2) by simp
qed

text \<open>
  C7. Data arrives. When the item of a \<open>set\<close>, \<open>add\<close>, \<open>replace\<close> or \<open>cas\<close> waits for its data, it does not matter how the
  bytes are cut: partly behind the command in the read buffer, and then in any pieces from the socket. After at most one turn for each piece and
  two more the data is complete. If it ends with a line break, it is stored as the rules of the command say, the client reads the
  outcome, and after STORED the item is the value of its key with exactly the bytes sent. If not, the client reads an error and no key changes.
  In both cases the connection has given up the item and every other item keeps its data.
\<close>

theorem set_data_spec:
  fixes s :: "'a store_scheme"
  assumes aw: "awaits hash m R k flags et (int (length bs)) (c, s)" "2 \<le> length bs" and small: "\<forall>a \<in> ran m. R a + 3 < 2 ^ 16"
    and c: "ready c" "\<not> mset_res c" "c_cmd c \<notin> {NREAD_APPEND, NREAD_PREPEND}"
    and input: "waiting c pieces = bs @ extra" "rcurr c + rbytes c \<le> length (rbuf c)" "net c = map Net_data pieces @ later" "[] \<notin> set pieces"
    and v: "v = store_verdict (c_cmd c) (set_stale s) (ITEM_get_cas (heap s (c_item c))) (map_option (\<lambda>a. ITEM_get_cas (heap s a)) (fresh s m k))"
  shows "\<exists>c' s'. data_loop (length pieces + 3) hash th fin (c, s) = Some (c', s') \<and> cstate c' = conn_new_cmd \<and> c_item c' = NULL \<and>
    (if drop (length bs - 2) bs = [13, 10]
     then reply c' = line (noreply c) (answer v) \<and>
       (let m' = if v = STORED then m(k \<mapsto> c_item c) else if fresh s m k = None then m(k := None) else m in
         (\<exists>Q F H. items_inv hash s' m' Q F H R) \<and> data_kept (live m' R - {c_item c}) s s' \<and>
         (v = STORED \<longrightarrow> data_bytes (c_item c) s' = bs \<and> FLAGS_CONV (heap s' (c_item c)) = flags))
     else reply c' = line (noreply c) (ascii ''CLIENT_ERROR bad data chunk'') \<and> (\<exists>Q F H. items_inv hash s' m Q F H R) \<and> data_kept (live m R) s s')"
proof -
  let ?it = "c_item c"
  from aw(1) obtain Q F H where a: "cstate c = conn_nread" "ritem c = ?it" "roff c = 0" "rlbytes c = int (length bs)" "?it \<notin> ran m" "R ?it = 0"
    "items_inv hash s m Q F H (R(?it := 1))" "key_of (heap s ?it) = k" "nbytes (heap s ?it) = int (length bs)"
    "FLAGS_CONV (heap s ?it) = flags" by (auto simp: awaits_def Let_def)
  have "take (roff c) (idata (heap s (ritem c))) = []" "length [] = roff c" by (simp_all add: a(3))
  from data_loop_gets [OF a(1,4) input this, of hash th fin] obtain n b net' d where
    g: "n \<le> length pieces + 1" "take (length bs) d = bs"
      "\<And>f. data_loop (n + f) hash th fin (c, s) = data_loop f hash th fin (got_bytes c (length bs) b net', upd_item ?it (idata_update (\<lambda>_. d)) s)"
    unfolding a(2,3) by auto
  let ?c = "got_bytes c (length bs) b net'" and ?s = "upd_item ?it (idata_update (\<lambda>_. d)) s"
  have lv: "?it \<in> live m (R(?it := 1))" by (simp add: live_def)
  have i: "items_inv hash ?s m Q F H (R(?it := 1))" by (rule mark_inv [OF a(7) lv]) (simp add: same_core_def)
  have cc: "ready ?c" "\<not> mset_res ?c" "c_item ?c = ?it" "c_cmd ?c = c_cmd c" "noreply ?c = noreply c" "cstate ?c = conn_nread" "rlbytes ?c = 0"
    using c a(1,4) by (simp_all add: got_bytes_def ready_def)
  have mk: "m k \<noteq> Some ?it" using a(5) by (auto simp: ran_def)
  then have fr: "fresh ?s m k = fresh s m k" by (auto simp: fresh_def item_dead_def item_is_flushed_def split: option.split)
  have v': "v = store_verdict (c_cmd ?c) (set_stale ?s) (ITEM_get_cas (heap ?s ?it)) (map_option (\<lambda>a. ITEM_get_cas (heap ?s a)) (fresh ?s m k))"
  proof -
    have "fresh s m k \<noteq> Some ?it" using mk by (auto simp: fresh_def split: option.splits if_splits)
    then have "map_option (\<lambda>a. ITEM_get_cas (heap ?s a)) (fresh s m k) = map_option (\<lambda>a. ITEM_get_cas (heap s a)) (fresh s m k)"
      by (cases "fresh s m k") simp_all
    moreover have "ITEM_get_cas (heap ?s ?it) = ITEM_get_cas (heap s ?it)" by (simp add: ITEM_get_cas_def has_flag_def)
    ultimately show ?thesis unfolding fr v cc(4) by simp
  qed
  have h: "key_of (heap ?s ?it) = k" "nbytes (heap ?s ?it) = int (length bs)" "take (length bs) (idata (heap ?s ?it)) = bs" "FLAGS_CONV (heap ?s ?it) = flags"
    using a(8-10) g(2) by (auto simp: key_of_def FLAGS_CONV_def has_flag_def)
  from complete_nread_inv [OF i small a(5,6) h(1) cc(1-3) _ h(2) aw(2) h(3) v', of th fin] c(3) obtain c' s' where
    e: "complete_nread_ascii hash th fin (?c, ?s) = Some (c', s')" "cstate c' = conn_new_cmd" "c_item c' = NULL" and
    r: "if drop (length bs - 2) bs = [13, 10]
      then reply c' = line (noreply c) (answer v) \<and> (let m' = if v = STORED then m(k \<mapsto> ?it) else if fresh s m k = None then m(k := None) else m in
          (\<exists>Q F H. items_inv hash s' m' Q F H R) \<and> data_kept (live m' R - {?it}) ?s s' \<and>
          (v = STORED \<longrightarrow> data_bytes ?it s' = bs \<and> FLAGS_CONV (heap s' ?it) = flags))
      else reply c' = line (noreply c) (ascii ''CLIENT_ERROR bad data chunk'') \<and> (\<exists>Q F H. items_inv hash s' m Q F H R) \<and> data_kept (live m R) ?s s'"
    unfolding cc(4,5) fr h(4) by auto
  obtain f where "length pieces + 1 = n + f" using g(1) le_Suc_ex by blast
  then have f: "length pieces + 3 = n + Suc (Suc f)" by simp
  have "data_loop (length pieces + 3) hash th fin (c, s) = Some (c', s')"
    unfolding f g(3) using cc(6,7) e(1,2) by (simp add: data_turn_def)
  moreover have dk: "data_kept A s s'" if "data_kept A ?s s'" "?it \<notin> A" for A
    using that by (auto simp: data_kept_def same_data_def)
  have "?it \<notin> live m R" using a(5,6) by (simp add: live_def)
  ultimately show ?thesis using e(2,3) r dk by (auto simp: Let_def split: if_splits)
qed

text \<open>The storage commands, whether they carry a CAS value, and their words after the key.\<close>

definition update_word :: "bytes \<Rightarrow> (nread \<times> bool) option" where
  "update_word = map_of [(ascii ''set'', NREAD_SET, False), (ascii ''add'', NREAD_ADD, False), (ascii ''replace'', NREAD_REPLACE, False),
     (ascii ''append'', NREAD_APPEND, False), (ascii ''prepend'', NREAD_PREPEND, False), (ascii ''cas'', NREAD_CAS, True)]"

lemma dispatch_update:
  assumes "update_word w = Some (comm, hc)" "tk_text buf (toks ! 0) = w" "tk_length (toks ! 0) = length w"
    "length toks = (if hc then 7 else 6) \<or> length toks = (if hc then 8 else 7)"
  shows "dispatch buf toks = Update comm hc"
proof -
  have f: "cstr_at (ascii ''set'') 0 = 115" "cstr_at (ascii ''add'') 0 = 97" "cstr_at (ascii ''replace'') 0 = 114" "cstr_at (ascii ''append'') 0 = 97"
    "cstr_at (ascii ''prepend'') 0 = 112" "cstr_at (ascii ''cas'') 0 = 99" "length (ascii t) = length t" for t
    by (simp_all add: ascii_def cstr_at_def)
  from map_of_SomeD [OF assms(1) [unfolded update_word_def]]
  consider "w = ascii ''set''" "comm = NREAD_SET" "hc = False" | "w = ascii ''add''" "comm = NREAD_ADD" "hc = False"
    | "w = ascii ''replace''" "comm = NREAD_REPLACE" "hc = False" | "w = ascii ''append''" "comm = NREAD_APPEND" "hc = False"
    | "w = ascii ''prepend''" "comm = NREAD_PREPEND" "hc = False" | "w = ascii ''cas''" "comm = NREAD_CAS" "hc = True" by auto
  then show ?thesis by cases (use assms(2-4) in \<open>auto simp: dispatch_def f ascii_eq_iff\<close>)
qed

text \<open>
  C10. A storage command, from the line to the store. When a line with one of the storage commands, a key and readable numbers stands in the buffer,
  a negative length, or one that is too large for a signed number with its end of line, is answered with an error: nothing changes, and nothing will be swallowed.
  For every other length there are two outcomes, and at most ten items are evicted. Either the item is not too large for the cache and there is memory: an item with
  the key, the flags, the expiration time and the room asked for waits for its data, held by the connection alone and in no index, and nothing is answered yet. Or
  the client reads that the object is too large, which happens exactly when it is, or that memory is out, which happens only when
  the size class had no free chunk; the data to come will be swallowed, and after a failed
  \<open>set\<close> the old value of the key is gone too, so that no stale value survives. All other items keep their data. An item that is not too
  large for the cache has to fit one chunk here (\<open>size_pre\<close>): larger ones are put together from chunks and are not covered.
\<close>

theorem update_spec:
  fixes s :: "'a store_scheme"
  assumes inv: "items_inv hash s m Q F H R" and small: "\<forall>a \<in> ran m. R a + 3 < 2 ^ 16" and pre: "pull_pre s m R"
    and line: "has_line c (w # k # ws)" "update_word w = Some (comm, hc)" "length ws = (if hc then 4 else 3) \<or> length ws = (if hc then 5 else 4)" "length k \<le> 250"
    and num: "safe_strtoul (ws ! 0) = (True, flags)" "safe_strtol (ws ! 1) = (True, n)" "safe_strtol (ws ! 2) = (True, vlen)"
      "hc \<longrightarrow> fst (safe_strtoull (ws ! 3))"
    and et: "et = realtime (process_started c) (current_time s) (EXPTIME_TO_POSITIVE_TIME n)" 
    and size: "0 \<le> vlen \<Longrightarrow> vlen \<le> 2 ^ 31 - 3 \<Longrightarrow> size_pre k flags (vlen + 2) s"
  shows "\<exists>c' s' m1. process_command hash th others (c, s) = Some (c', s') \<and>
    (if vlen < 0 \<or> 2 ^ 31 - 3 < vlen
     then s' = s \<and> cstate c' = conn_new_cmd \<and> reply c' = line (noreply c \<or> ends_quiet ws) (ascii ''CLIENT_ERROR bad command line format'')
     else lost_upto 10 s m m1 \<and>
    (item_size_ok (of_nat (length k)) flags (vlen + 2) s \<and> awaits hash m1 R k flags et (vlen + 2) (c', s') \<and> c_cmd c' = comm \<and> ready c' \<and>
       noreply c' = (noreply c \<or> ends_quiet ws) \<and> mset_res c' = mset_res c \<and> data_kept (live m1 R) s s' \<or>
     may_fail k flags (vlen + 2) s \<and> cstate c' = conn_swallow \<and> sbytes c' = vlen + 2 \<and>
       reply c' = line (noreply c \<or> ends_quiet ws) (if item_size_ok (of_nat (length k)) flags (vlen + 2) s
         then ascii ''SERVER_ERROR out of memory storing object'' else ascii ''SERVER_ERROR object too large for cache'') \<and>
       (let m2 = if comm = NREAD_SET then m1(k := None) else m1 in (\<exists>Q F H. items_inv hash s' m2 Q F H R) \<and> data_kept (live m2 R) s s')))"
proof -
  let ?ws = "w # k # ws"
  from process_line [OF line(1), of hash th others] obtain toks c1 where
    p: "process_command hash th others (c, s) = run_call hash th others (dispatch (rbuf c1) toks) toks (c1, s)" "ready c1" "noreply c1 = noreply c"
      "process_started c1 = process_started c" "mset_res c1 = mset_res c" "length toks = length ?ws + 1"
      "\<And>i. i < length ?ws \<Longrightarrow> arg c1 toks i = ?ws ! i \<and> tk_length (toks ! i) = length (?ws ! i) \<and> tk_value (toks ! i) \<noteq> None"
      "key_arg c1 toks = k" by auto
  have l: "3 \<le> length ws" "hc \<longrightarrow> 4 \<le> length ws" "ws \<noteq> []" using line(3) by (auto split: if_splits)
  have a: "arg c1 toks 0 = w" "tk_length (toks ! 0) = length w" "tk_length (toks ! 1) \<le> 250" "arg c1 toks 2 = ws ! 0" "arg c1 toks 3 = ws ! 1" "arg c1 toks 4 = ws ! 2"
    "hc \<longrightarrow> arg c1 toks 5 = ws ! 3"
    using p(7) [of 0] p(7) [of 1] p(7) [of 2] p(7) [of 3] p(7) [of 4] p(7) [of 5] l line(4) by auto
  have d: "dispatch (rbuf c1) toks = Update comm hc" by (rule dispatch_update [OF line(2) a(1,2)]) (use p(6) line(3) in auto)
  have q: "noreply (set_noreply_maybe toks c1) = (noreply c \<or> ends_quiet ws)"
    using noreply_last [OF p(6), of c1] p(3,7) line(3) by (auto simp: ends_quiet_def split: if_splits)
  have nums: "safe_strtoul (arg c1 toks 2) = (True, flags)" "safe_strtol (arg c1 toks 3) = (True, n)" "safe_strtol (arg c1 toks 4) = (True, vlen)"
    "hc \<longrightarrow> fst (safe_strtoull (arg c1 toks 5))" using num a(4-7) by simp_all
  have et': "et = realtime (process_started c1) (current_time s) (EXPTIME_TO_POSITIVE_TIME n)" using et p(4) by simp
  have pc: "process_command hash th others (c, s) = process_update_command hash th toks comm hc (c1, s)" unfolding p(1) d run_call_def call.case ..
  show ?thesis
  proof (cases "vlen < 0 \<or> 2 ^ 31 - 3 < vlen")
    case True
    from update_bad_length [OF p(2) a(3) nums True, of hash th comm s] True show ?thesis unfolding pc q if_P [OF True] by metis
  next
    case False
    then have v: "0 \<le> vlen" "vlen \<le> 2 ^ 31 - 3" by linarith+
    from update_inv [OF inv small pre p(2) a(3) p(8) [symmetric] nums v et' size [OF v], of th comm] obtain c' s' m1 where
      u: "process_update_command hash th toks comm hc (c1, s) = Some (c', s')" "lost_upto 10 s m m1"
      "item_size_ok (of_nat (length k)) flags (vlen + 2) s \<and> awaits hash m1 R k flags et (vlen + 2) (c', s') \<and> c_cmd c' = comm \<and> resps c' = resps c1 \<and> noreply c' = noreply (set_noreply_maybe toks c1) \<and>
         mset_res c' = mset_res c1 \<and> data_kept (live m1 R) s s' \<or>
       may_fail k flags (vlen + 2) s \<and> cstate c' = conn_swallow \<and> sbytes c' = vlen + 2 \<and>
         reply c' = line (noreply (set_noreply_maybe toks c1)) (if item_size_ok (of_nat (length k)) flags (vlen + 2) s
           then ascii ''SERVER_ERROR out of memory storing object'' else ascii ''SERVER_ERROR object too large for cache'') \<and>
         (let m2 = if comm = NREAD_SET then m1(k := None) else m1 in (\<exists>Q F H. items_inv hash s' m2 Q F H R) \<and> data_kept (live m2 R) s s')" by blast
    have "ready c'" if "resps c' = resps c1" using p(2) that by (simp add: ready_def)
    moreover have "process_command hash th others (c, s) = Some (c', s')" unfolding pc by (rule u(1))
    ultimately show ?thesis using u(2,3) unfolding q p(5) if_not_P [OF False] by blast
  qed
qed

lemma index_of_iff: "(\<exists>i. index_of x xs = Some i) \<longleftrightarrow> x \<in> set xs"
  by (induction xs) auto

text \<open>
  C35. Long multigets. A \<open>get\<close> line of more than 1024 bytes whose end has not arrived is moved to a larger buffer. If the cache of
  read buffers keeps the old one, which it does unless its limit is exceeded, the copy is made after the old buffer was
  given back, and its first eight bytes, the word \<open>get\<close> among them, arrive as NUL. When the rest of the line comes,
  the client reads ERROR for its correct command.
\<close>

theorem multiget_lost:
  fixes s :: "'a store_scheme"
  assumes buf: "rcurr c = 0" "rbytes c \<le> length (rbuf c)" "1024 < rbytes c" "10 \<notin> set (take (rbytes c) (rbuf c))" "strncmp_eq 4 (rbuf c) (ascii ''get '')"
    and mem: "\<not> rbuf_malloced c" "mallocs c = p # ps" "p \<noteq> NULL" "limit (rbuf_cache c) = 0 \<or> \<not> limit (rbuf_cache c) < total (rbuf_cache c)"
    and rest: "10 \<in> set input" "resp_supply c = True # rs"
  shows "\<exists>c1 c2. try_read_command_ascii hash th others (c, s) = Some ((c1, s), False) \<and>
    rbuf c1 = replicate 8 0 @ drop 8 (take (rbytes c) (rbuf c)) \<and> rcurr c1 = 0 \<and> rbytes c1 = rbytes c \<and>
    try_read_command_ascii hash th others (c1\<lparr>rbuf := rbuf c1 @ input, rbytes := rbytes c1 + length input\<rparr>, s) = Some ((c2, s), True) \<and>
    reply c2 = line (noreply c) (ascii ''ERROR'')"
proof -
  have i0: "index_of 10 (take (rbytes c) (rbuf c)) = None" using buf(4) index_of_iff [of 10 "take (rbytes c) (rbuf c)"] by auto
  have "strncmp_eq (Suc 3) (rbuf c) (ascii ''get '')" using buf(5) by simp
  then have "cstr_at (rbuf c) 0 = 103" by (simp only: strncmp_eq.simps) (simp add: ascii_def cstr_at_def)
  then obtain xs where g: "rbuf c = 103 # xs" by (cases "rbuf c") (simp_all add: cstr_at_def)
  let ?old = "replicate 8 0 @ drop 8 (rbuf c)"
  define c1 where "c1 = c\<lparr>mallocs := ps, rbuf_cache := fst (do_cache_free (rbuf_cache c) (rbuf_at c)), rbuf := take (rbytes c) ?old, rcurr := 0,
    rbuf_at := p, rsize := rsize c * 2, rbuf_malloced := True\<rparr>"
  have sw: "rbuf_switch_to_malloc c = (c1, True)"
    using mem(2-4) buf(1) by (auto simp: rbuf_switch_to_malloc_def next_malloc_def do_cache_free_def c1_def Let_def)
  have one: "try_read_command_ascii hash th others (c, s) = Some ((c1, s), False)"
    using i0 buf(1,3,5) mem(1) sw by (simp add: try_read_command_ascii_def g)
  have b1: "rbuf c1 = replicate 8 0 @ drop 8 (take (rbytes c) (rbuf c))"
    using buf(3) by (simp add: c1_def drop_take)
  have f1: "rcurr c1 = 0" "rbytes c1 = rbytes c" "resp_supply c1 = True # rs" "noreply c1 = noreply c" "length (rbuf c1) = rbytes c"
    using rest(2) buf(1,2,3) by (simp_all add: c1_def)
  let ?c = "c1\<lparr>rbuf := rbuf c1 @ input, rbytes := rbytes c1 + length input\<rparr>"
  obtain el where el: "index_of 10 (rbuf c1 @ input) = Some el" using rest(1) index_of_iff [of 10 "rbuf c1 @ input"] by auto
  define el1 where "el1 = (if el > 1 \<and> (rbuf c1 @ input) ! (el - 1) = 13 then el - 1 else el)"
  let ?d = "?c\<lparr>rbuf := (rbuf c1 @ input)[el1 := 0]\<rparr>"
  have z: "(rbuf c1 @ input)[el1 := 0] = 0 # tl ((rbuf c1 @ input)[el1 := 0])"
    unfolding b1 by (cases el1) (simp_all add: eval_nat_numeral)
  have "cstring ((rbuf c1 @ input)[el1 := 0]) 0 = []" "0 \<in> set ((rbuf c1 @ input)[el1 := 0])" by (subst z, simp)+
  then have "has_line ?d []" using f1 by (simp add: has_line_def words_def)
  from process_line [OF this, where ?'a = 'a, of hash th others] obtain toks c2 where
    p: "process_command hash th others (?d, s) = run_call hash th others (dispatch (rbuf c2) toks) toks (c2, s)" "ready c2" "noreply c2 = noreply ?d"
      "length toks = 1" by auto
  have "process_command hash th others (?d, s) = Some (said (ascii ''ERROR'') c2, s)"
    unfolding p(1) using p(4) out_string_said [OF p(2), of "ascii ''ERROR''" s] by (simp add: dispatch_def run_call_def ascii_def)
  then have two: "try_read_command_ascii hash th others (?c, s) = Some (((said (ascii ''ERROR'') c2)\<lparr>rbytes := rbytes c2 - (el + 1), rcurr := el + 1\<rparr>, s), True)"
    using el f1(1,2,5) buf(3) by (simp add: try_read_command_ascii_def el1_def Let_def said_fields)
  have "reply ((said (ascii ''ERROR'') c2)\<lparr>rbytes := rbytes c2 - (el + 1), rcurr := el + 1\<rparr>) = line (noreply c) (ascii ''ERROR'')"
    using said_fields(1) [of "ascii ''ERROR''" c2] p(3) f1(4) by (simp add: reply_def)
  with one two b1 f1(1,2) show ?thesis by blast
qed

section \<open>Witnesses\<close>

theorem multiget_lost_witness:
  "\<exists>c1 c2. try_read_command_ascii demo_hash 0 (\<lambda>_ _ _. None) (demo_conn (ascii ''get '' @ replicate 1021 97), demo_store) = Some ((c1, demo_store), False) \<and>
    take 8 (rbuf c1) = replicate 8 0 \<and>
    try_read_command_ascii demo_hash 0 (\<lambda>_ _ _. None) (c1\<lparr>rbuf := rbuf c1 @ [10], rbytes := rbytes c1 + length [10 :: byte]\<rparr>, demo_store) = Some ((c2, demo_store), True) \<and>
    reply c2 = Some (ascii ''ERROR'' @ [13, 10])"
proof -
  let ?c = "demo_conn (ascii ''get '' @ replicate 1021 97)"
  have l: "length (rbuf ?c) = 1025" "rbytes ?c = 1025" by (simp_all add: demo_conn_def ascii_def)
  have b: "rcurr ?c = 0" "rbytes ?c \<le> length (rbuf ?c)" "1024 < rbytes ?c" using l by (simp_all add: demo_conn_def)
  have n: "10 \<notin> set (take (rbytes ?c) (rbuf ?c))" unfolding l(2) using l(1) by (simp add: demo_conn_def ascii_def)
  have "strncmp_eq (Suc (Suc (Suc (Suc 0)))) (rbuf ?c) (ascii ''get '')" by (simp add: demo_conn_def ascii_def cstr_at_def)
  moreover have "4 = Suc (Suc (Suc (Suc 0)))" by simp
  ultimately have g: "strncmp_eq 4 (rbuf ?c) (ascii ''get '')" by (simp only:)
  have m: "\<not> rbuf_malloced ?c" "mallocs ?c = 65536 # []" "(65536 :: addr) \<noteq> NULL" "limit (rbuf_cache ?c) = 0 \<or> \<not> limit (rbuf_cache ?c) < total (rbuf_cache ?c)" "resp_supply ?c = True # []"
    by (simp_all add: demo_conn_def)
  have x: "(10 :: byte) \<in> set [10]" by simp
  from multiget_lost [OF b n g m(1-4) x m(5), of demo_hash 0 "\<lambda>_ _ _. None" demo_store] obtain c1 c2 where
    r: "try_read_command_ascii demo_hash 0 (\<lambda>_ _ _. None) (?c, demo_store) = Some ((c1, demo_store), False)"
      "rbuf c1 = replicate 8 0 @ drop 8 (take (rbytes ?c) (rbuf ?c))"
      "try_read_command_ascii demo_hash 0 (\<lambda>_ _ _. None) (c1\<lparr>rbuf := rbuf c1 @ [10], rbytes := rbytes c1 + length [10 :: byte]\<rparr>, demo_store) = Some ((c2, demo_store), True)"
      "reply c2 = line (noreply ?c) (ascii ''ERROR'')" by blast
  have "take 8 (rbuf c1) = replicate 8 0" by (simp add: r(2))
  moreover have "reply c2 = Some (ascii ''ERROR'' @ [13, 10])" using r(4) by (simp add: line_def demo_conn_def)
  ultimately show ?thesis using r(1,3) by blast
qed

theorem delete_spec_witness:
  "\<exists>c' s' Q F H. process_command demo_hash 0 (\<lambda>_ _ _. None) (demo_conn (ascii ''delete A 0'' @ [0]), demo_store) = Some (c', s') \<and>
    reply c' = Some (ascii ''DELETED'' @ [13, 10]) \<and> items_inv demo_hash s' Map.empty Q F H demo_SR"
proof -
  let ?c = "demo_conn (ascii ''delete A 0'' @ [0])"
  have h: "has_line ?c (ascii ''delete'' # [65] # [ascii ''0''])"
    by (simp add: has_line_def demo_conn_def ascii_def of_char_def words_def)
  have o: "[ascii ''0''] \<in> {[], [ascii ''0''], [ascii ''noreply''], [ascii ''0'', ascii ''noreply'']}" "length [65 :: byte] \<le> 250" by simp_all
  from delete_spec [OF demo_store_inv(1) demo_small h o, of 0 "\<lambda>_ _ _. None"] obtain c' s' where
    r: "process_command demo_hash 0 (\<lambda>_ _ _. None) (?c, demo_store) = Some (c', s')"
      "reply c' = line (noreply ?c \<or> [ascii ''0''] \<noteq> [] \<and> ends_quiet [ascii ''0'']) (if fresh demo_store [[65] \<mapsto> 4608] [65] = None then ascii ''NOT_FOUND'' else ascii ''DELETED'')"
      "\<exists>Q F H. items_inv demo_hash s' ([[65] \<mapsto> 4608](([65]) := None)) Q F H demo_SR" by blast
  have "reply c' = Some (ascii ''DELETED'' @ [13, 10])"
    using r(2) by (simp add: demo_store_fresh line_def ends_quiet_def ascii_eq_iff demo_conn_def)
  moreover have "[[65] \<mapsto> 4608](([65]) := None) = (Map.empty :: bytes \<rightharpoonup> addr)" by (simp add: fun_eq_iff)
  ultimately show ?thesis using r(1,3) by metis
qed

text \<open>Two commands of the example: one that is stored, and one whose object is too large.\<close>

theorem update_spec_witness:
  "(\<exists>c' s' m1. process_command demo_hash 0 (\<lambda>_ _ _. None) (demo_conn (ascii ''set A 0 0 1 noreply'' @ [0]), widen demo_store) = Some (c', s') \<and>
      awaits demo_hash m1 demo_SR [65] 0 0 3 (c', s') \<and> noreply c') \<and>
    (\<exists>c' s'. process_command demo_hash 0 (\<lambda>_ _ _. None) (demo_conn (ascii ''set A 0 0 2000'' @ [0]), widen demo_store) = Some (c', s') \<and>
      cstate c' = conn_swallow \<and> sbytes c' = 2002 \<and> reply c' = Some (ascii ''SERVER_ERROR object too large for cache'' @ [13, 10]))"
proof
  let ?c = "demo_conn (ascii ''set A 0 0 1 noreply'' @ [0])" and ?ws = "[ascii ''0'', ascii ''0'', ascii ''1'', ascii ''noreply'']" and ?s = "widen demo_store"
  note num = safe_strtoul_def safe_strtol_def strtoull_def strtoll_def strto_scan_def ends_number_def digit_val_def ascii_def isspace_def cstr_at_def Let_def
  have k: "length [65 :: byte] \<le> 250" by simp
  have h: "has_line ?c (ascii ''set'' # [65] # ?ws)"
    by (simp add: has_line_def demo_conn_def ascii_def of_char_def words_def)
  have u: "update_word (ascii ''set'') = Some (NREAD_SET, False)" "length ?ws = (if False then 4 else 3) \<or> length ?ws = (if False then 5 else 4)"
    by (simp_all add: update_word_def)
  have n: "safe_strtoul (?ws ! 0) = (True, 0)" "safe_strtol (?ws ! 1) = (True, 0)" "safe_strtol (?ws ! 2) = (True, 1)" "False \<longrightarrow> fst (safe_strtoull (?ws ! 3))"
    by (simp_all add: num)
  have e: "0 = realtime (process_started d) (current_time ?s) (EXPTIME_TO_POSITIVE_TIME 0)" for d
    by (simp add: realtime_def EXPTIME_TO_POSITIVE_TIME_def)
  have z: "size_pre [65] 0 (1 + 2) ?s" "\<not> may_fail [65] 0 (1 + 2) ?s" using demo_wide_alloc [of 3] by simp_all
  have q: "ends_quiet ?ws" "\<not> noreply ?c" by (simp_all add: ends_quiet_def demo_conn_def)
  have v: "\<not> ((1 :: int) < 0 \<or> 2 ^ 31 - 3 < (1 :: int))" by simp
  from update_spec [OF demo_wide(1) demo_small demo_wide(2) h u k n e z(1), of 0 "\<lambda>_ _ _. None", unfolded if_not_P [OF v]] q z(2)
  show "\<exists>c' s' m1. process_command demo_hash 0 (\<lambda>_ _ _. None) (?c, ?s) = Some (c', s') \<and> awaits demo_hash m1 demo_SR [65] 0 0 3 (c', s') \<and> noreply c'"
    by simp blast
  let ?d = "demo_conn (ascii ''set A 0 0 2000'' @ [0])" and ?vs = "[ascii ''0'', ascii ''0'', ascii ''2000'']"
  have h2: "has_line ?d (ascii ''set'' # [65] # ?vs)"
    by (simp add: has_line_def demo_conn_def ascii_def of_char_def words_def)
  have u2: "length ?vs = (if False then 4 else 3) \<or> length ?vs = (if False then 5 else 4)" by simp
  have n2: "safe_strtoul (?vs ! 0) = (True, 0)" "safe_strtol (?vs ! 1) = (True, 0)" "safe_strtol (?vs ! 2) = (True, 2000)" "False \<longrightarrow> fst (safe_strtoull (?vs ! 3))"
    by (simp_all add: num)
  have "item_ntotal_of (of_nat (length [65 :: byte])) 0 (2000 + 2) ?s = (2060, 0)"
    by (simp add: item_ntotal_of_def item_make_header_def demo_wide(6) demo_settings_def)
  then have big: "\<not> item_size_ok (of_nat (length [65 :: byte])) 0 (2000 + 2) ?s"
    unfolding item_size_ok_def by (simp add: slabs_clsid_of_def demo_wide(6) demo_settings_def)
  then have z2: "size_pre [65] 0 (2000 + 2) ?s" by (simp add: size_pre_def)
  have q2: "\<not> (noreply ?d \<or> ends_quiet ?vs)" by (simp add: ends_quiet_def demo_conn_def ascii_eq_iff)
  have v2: "\<not> ((2000 :: int) < 0 \<or> 2 ^ 31 - 3 < (2000 :: int))" by simp
  from update_spec [OF demo_wide(1) demo_small demo_wide(2) h2 u(1) u2 k n2 e z2, of 0 "\<lambda>_ _ _. None", unfolded if_not_P [OF v2] if_not_P [OF big]] big q2
  show "\<exists>c' s'. process_command demo_hash 0 (\<lambda>_ _ _. None) (?d, ?s) = Some (c', s') \<and>
      cstate c' = conn_swallow \<and> sbytes c' = 2002 \<and> reply c' = Some (ascii ''SERVER_ERROR object too large for cache'' @ [13, 10])"
    by (simp add: line_def) blast
qed

theorem set_data_spec_witness:
  "\<exists>c' s' Q F H. data_loop 5 demo_hash 0 (\<lambda>_ _. None)
      ((demo_conn [])\<lparr>cstate := conn_nread, resps := [new_resp], c_item := 4096, c_cmd := NREAD_REPLACE, ritem := 4096,
        rlbytes := 2, net := [Net_data [13], Net_data [10]]\<rparr>, demo_store) = Some (c', s') \<and>
    reply c' = Some (ascii ''STORED'' @ [13, 10]) \<and> items_inv demo_hash s' [[65] \<mapsto> 4096] Q F H (demo_SR(4096 := 0)) \<and> data_bytes 4096 s' = [13, 10]"
proof -
  let ?c = "(demo_conn [])\<lparr>cstate := conn_nread, resps := [new_resp], c_item := 4096, c_cmd := NREAD_REPLACE, ritem := 4096,
        rlbytes := 2, net := [Net_data [13], Net_data [10]]\<rparr>" and ?R = "demo_SR(4096 := 0)" and ?bs = "[13, 10] :: bytes"
  have R: "?R(4096 := 1) = demo_SR" by (simp add: fun_eq_iff)
  have f: "key_of demo_item = [65]" "nbytes demo_item = 2" "FLAGS_CONV demo_item = 0" "exptime demo_item = 0"
    by (simp_all add: demo_item_def item0_def key_of_def FLAGS_CONV_def has_flag_def)
  have aw: "awaits demo_hash [[65] \<mapsto> 4608] ?R [65] 0 0 (int (length ?bs)) (?c, demo_store)" "2 \<le> length ?bs"
  proof -
    have "\<exists>Q F H. items_inv demo_hash demo_store [[65] \<mapsto> 4608] Q F H (?R(4096 := 1))" unfolding R using demo_store_inv(1) by blast
    then show "awaits demo_hash [[65] \<mapsto> 4608] ?R [65] 0 0 (int (length ?bs)) (?c, demo_store)"
      by (simp add: awaits_def demo_conn_def demo_store_inv(5) f del: fun_upd_apply fun_upd_upd) simp
  qed simp
  have s: "\<forall>a \<in> ran [[65] \<mapsto> 4608 :: addr]. ?R a + 3 < 2 ^ 16" by simp
  have c: "ready ?c" "\<not> mset_res ?c" "c_cmd ?c \<notin> {NREAD_APPEND, NREAD_PREPEND}" by (simp_all add: ready_def demo_conn_def)
  have i: "waiting ?c [[13], [10]] = ?bs @ []" "rcurr ?c + rbytes ?c \<le> length (rbuf ?c)" "net ?c = map Net_data [[13], [10]] @ []" "[] \<notin> set [[13], [10] :: bytes]"
    by (simp_all add: waiting_def demo_conn_def)
  have v: "STORED = store_verdict (c_cmd ?c) (set_stale demo_store) (ITEM_get_cas (heap demo_store (c_item ?c)))
      (map_option (\<lambda>a. ITEM_get_cas (heap demo_store a)) (fresh demo_store [[65] \<mapsto> 4608] [65]))" by (simp add: demo_store_fresh)
  have n: "length [[13], [10] :: bytes] + 3 = 5" "drop (length ?bs - 2) ?bs = [13, 10]" "\<not> noreply ?c" "c_item ?c = 4096" by (simp_all add: demo_conn_def)
  have m: "[[65] \<mapsto> 4608]([65] \<mapsto> 4096) = [[65 :: byte] \<mapsto> 4096 :: addr]" by simp
  from set_data_spec [OF aw s c i v, of 0 "\<lambda>_ _. None", unfolded n(1) if_P [OF n(2)] Let_def n(4)] n(3) show ?thesis
    by (simp only: if_True refl m line_def answer.simps simp_thms if_False) blast
qed

end
