(* ===== verification/Text_Get.thy ===== *)
theory Text_Get
  imports Text_Proto
begin

text \<open>
  The handler of \<^verbatim>\<open>get\<close>, \<^verbatim>\<open>gets\<close>, \<^verbatim>\<open>gat\<close> and \<^verbatim>\<open>gats\<close> of \<^verbatim>\<open>proto_text.c\<close>: one response for each key, with the item it holds, and the tokenizing of
  lines with more keys than the token array takes. Fetching a value from the external storage (\<^verbatim>\<open>storage_get_item\<close>) is a parameter; its
  result says whether it failed.
\<close>

section \<open>Model\<close>

text \<open>The text after the key, without the NUL that ends it in the buffer.\<close>

definition make_ascii_get_suffix :: "item \<Rightarrow> bool \<Rightarrow> int \<Rightarrow> bytes" where
  "make_ascii_get_suffix it return_cas nb =
    (let p = [32];
         p = (if FLAGS_SIZE it = 0 then p @ [48] else itoa_u32 (cflags it) p);
         p = itoa_u32 (word_of_int (nb - 2)) (p @ [32]);
         p = (if return_cas then itoa_u64 (ITEM_get_cas it) (p @ [32]) else p)
     in p @ [13, 10])"

definition value_line :: "item \<Rightarrow> bool \<Rightarrow> bytes" where
  "value_line it return_cas = ascii ''VALUE '' @ key_of it @ make_ascii_get_suffix it return_cas (nbytes it)"

type_synonym 'a storage_get = "addr \<Rightarrow> conn \<times> 'a store_scheme \<Rightarrow> ((conn \<times> 'a store_scheme) \<times> bool) option"

text \<open>One key. The flag says that the storage failed.\<close>

definition get_one :: "(bytes \<Rightarrow> uint32) \<Rightarrow> nat \<Rightarrow> 'a storage_get \<Rightarrow> bool \<Rightarrow> bool \<Rightarrow> uint32 \<Rightarrow> bytes \<Rightarrow> conn \<times> 'a store_scheme \<Rightarrow>
    ((conn \<times> 'a store_scheme) \<times> bool) option" where
  "get_one hash th storage_get_item return_cas should_touch et key = (\<lambda>(c, s). do {
     (s1, it, overflow) \<leftarrow> limited_get hash key th et should_touch True s;
     let c1 = (if detail_enabled c then c\<lparr>ptab := stats_prefix_record_get hash key (it \<noteq> NULL) (ptab c)\<rparr> else c);
     if it \<noteq> NULL
     then do {
       let x = heap s1 it;
       let hdr = has_flag ITEM_HDR x;
       let txt = value_line x return_cas;
       let n = nat (nbytes x);
       let c2 = upd_resp (resp_add_iov (Base_text txt) (length txt)) c1;
       ((c3, s3), failed) \<leftarrow>
         (if hdr then storage_get_item it (c2, s1)
          else if \<not> has_flag ITEM_CHUNKED x then Some ((upd_resp (resp_add_iov (Base_data it 0) n) c2, s1), False)
          else Some ((upd_resp (resp_add_chunked_iov (Base_item it) n) c2, s1), False));
       if failed
       then do { s4 \<leftarrow> item_remove it s3; Some ((c3\<lparr>get_oom_extstore := get_oom_extstore c3 + 1\<rparr>, s4), True) }
       else
         let c4 = (if should_touch then c3\<lparr>touch_cmds := touch_cmds c3 + 1, touch_hits := (touch_hits c3)(ITEM_clsid x := touch_hits c3 (ITEM_clsid x) + 1)\<rparr>
                   else c3\<lparr>lru_hits := (lru_hits c3)(slabs_clsid x := lru_hits c3 (slabs_clsid x) + 1), get_cmds := get_cmds c3 + 1\<rparr>)
         in Some ((if hdr then c4 else upd_resp (rs_item_update (\<lambda>_. it)) c4, s3), False)
     }
     else Some ((if should_touch then c1\<lparr>touch_cmds := touch_cmds c1 + 1, touch_misses := touch_misses c1 + 1\<rparr>
                 else c1\<lparr>get_misses := get_misses c1 + 1, get_cmds := get_cmds c1 + 1\<rparr>, s1), False)
   })"

text \<open>How the inner loop ends: at a token of length 0, or by \<^verbatim>\<open>goto stop\<close> at a key, because the key is too long or for another reason.\<close>

datatype get_end = Get_done token_t | Get_stop bool

definition token_bytes :: "bytes \<Rightarrow> token_t \<Rightarrow> bytes" where
  "token_bytes buf t = (case tk_value t of None \<Rightarrow> [] | Some p \<Rightarrow> take (tk_length t) (drop p buf))"

fun get_tokens :: "(bytes \<Rightarrow> uint32) \<Rightarrow> nat \<Rightarrow> 'a storage_get \<Rightarrow> bool \<Rightarrow> bool \<Rightarrow> uint32 \<Rightarrow> token_t list \<Rightarrow> conn \<times> 'a store_scheme \<Rightarrow>
    (get_end \<times> conn \<times> 'a store_scheme) option" where
  "get_tokens hash th st rc touch et [] cs = None"
| "get_tokens hash th st rc touch et (t # ts) cs =
    (if tk_length t = 0 then Some (Get_done t, cs)
     else if tk_length t > KEY_MAX_LENGTH then Some (Get_stop True, cs)
     else do {
       ((c1, s1), failed) \<leftarrow> get_one hash th st rc touch et (token_bytes (rbuf (fst cs)) t) cs;
       if failed then Some (Get_stop False, c1, s1)
       else case ts of
           [] \<Rightarrow> None
         | t' # _ \<Rightarrow>
             if tk_length t' \<noteq> 0
             then (case resp_start c1 of (c2, False) \<Rightarrow> Some (Get_stop False, c2, s1) | (c2, True) \<Rightarrow> get_tokens hash th st rc touch et ts (c2, s1))
             else get_tokens hash th st rc touch et ts (c1, s1)
     })"

text \<open>After the label \<^verbatim>\<open>stop\<close>: an error when keys are left, else the end of the answer.\<close>

definition get_failed :: "bool \<Rightarrow> conn \<times> 'a store_scheme \<Rightarrow> (conn \<times> 'a store_scheme) option" where
  "get_failed fail_length cs = do {
     (c1, s1) \<leftarrow> conn_release_items cs;
     case resp_start c1 of
       (c2, False) \<Rightarrow> Some (conn_set_state conn_closing c2, s1)
     | (c2, True) \<Rightarrow>
         if fail_length then out_string bad_format (c2, s1)
         else out_of_memory (ascii ''SERVER_ERROR out of memory writing get response'') (c2, s1)
   }"

definition get_finished :: "conn \<times> 'a store_scheme \<Rightarrow> (conn \<times> 'a store_scheme) option" where
  "get_finished = (\<lambda>(c, s). Some (conn_set_state conn_mwrite (upd_resp (resp_add_iov (Base_text (ascii ''END'' @ [13, 10])) 5) c), s))"

text \<open>The outer loop; the first argument bounds its rounds, of which every one but the last takes at least one key.\<close>

primrec get_rounds :: "nat \<Rightarrow> (bytes \<Rightarrow> uint32) \<Rightarrow> nat \<Rightarrow> 'a storage_get \<Rightarrow> bool \<Rightarrow> bool \<Rightarrow> uint32 \<Rightarrow> token_t list \<Rightarrow> conn \<times> 'a store_scheme \<Rightarrow>
    (conn \<times> 'a store_scheme) option" where
  "get_rounds 0 hash th st rc touch et toks cs = None"
| "get_rounds (Suc n) hash th st rc touch et toks cs = do {
     (r, c1, s1) \<leftarrow> get_tokens hash th st rc touch et toks cs;
     case r of
       Get_stop fail_length \<Rightarrow> get_failed fail_length (c1, s1)
     | Get_done t \<Rightarrow>
         (case tk_value t of
           None \<Rightarrow> get_finished (c1, s1)
         | Some p \<Rightarrow>
             let (toks1, buf) = tokenize_command p MAX_TOKENS (rbuf c1); left = (tk_value (toks1 ! 0) \<noteq> None)
             in case resp_start (c1\<lparr>rbuf := buf\<rparr>) of
                 (c2, False) \<Rightarrow> if left then get_failed False (c2, s1) else get_finished (c2, s1)
               | (c2, True) \<Rightarrow> if left then get_rounds n hash th st rc touch et toks1 (c2, s1) else get_finished (c2, s1))
   }"

definition process_get_command :: "(bytes \<Rightarrow> uint32) \<Rightarrow> nat \<Rightarrow> 'a storage_get \<Rightarrow> token_t list \<Rightarrow> bool \<Rightarrow> bool \<Rightarrow> conn \<times> 'a store_scheme \<Rightarrow>
    (conn \<times> 'a store_scheme) option" where
  "process_get_command hash th st toks return_cas should_touch = (\<lambda>(c, s).
    let rounds = Suc (length (rbuf c)) in
    if should_touch
    then case safe_strtol (arg c toks 1) of (ok, exptime_int) \<Rightarrow>
      if \<not> ok then out_string (ascii ''CLIENT_ERROR invalid exptime argument'') (c, s)
      else get_rounds rounds hash th st return_cas True (realtime (process_started c) (current_time s) (EXPTIME_TO_POSITIVE_TIME exptime_int))
        (drop (KEY_TOKEN + 1) toks) (c, s)
    else get_rounds rounds hash th st return_cas False 0 (drop KEY_TOKEN toks) (c, s))"

text \<open>The dispatch with this handler; the others remain parameters.\<close>

definition with_get :: "(bytes \<Rightarrow> uint32) \<Rightarrow> nat \<Rightarrow> 'a storage_get \<Rightarrow> (call \<Rightarrow> token_t list \<Rightarrow> conn \<times> 'a store_scheme \<Rightarrow> (conn \<times> 'a store_scheme) option) \<Rightarrow>
    call \<Rightarrow> token_t list \<Rightarrow> conn \<times> 'a store_scheme \<Rightarrow> (conn \<times> 'a store_scheme) option" where
  "with_get hash th st others cl toks cs = (case cl of Get return_cas touch \<Rightarrow> process_get_command hash th st toks return_cas touch cs | _ \<Rightarrow> others cl toks cs)"

section \<open>One key\<close>

text \<open>No \<^verbatim>\<open>flush_all\<close> is in effect, so that an item dies by its expiration time only.\<close>

definition no_flush :: "'a slabs_scheme \<Rightarrow> bool" where
  "no_flush s \<longleftrightarrow> oldest_live (settings s) = 0 \<or> current_time s < oldest_live (settings s)"

text \<open>
  What the answer to a \<open>get\<close> holds for a key: the word \<open>VALUE\<close>, the key, the client flags and the length of the value in decimal,
  with \<open>gets\<close> the CAS value, and the data. It is written down here without the routines of the server.
\<close>

definition value_text :: "item \<Rightarrow> bool \<Rightarrow> bytes" where
  "value_text x rc = ascii ''VALUE '' @ key_of x @ [32] @ dec (unat (FLAGS_CONV x)) @ [32] @ dec (unat (word_of_int (nbytes x - 2) :: uint32)) @
    (if rc then [32] @ dec (unat (ITEM_get_cas x)) else []) @ [13, 10]"

definition get_out :: "'a slabs_scheme \<Rightarrow> (bytes \<rightharpoonup> addr) \<Rightarrow> bool \<Rightarrow> bytes \<Rightarrow> bytes" where
  "get_out s m rc k = (case fresh s m k of None \<Rightarrow> [] | Some a \<Rightarrow> value_text (heap s a) rc @ data_bytes a s)"

lemma value_line_text: "value_line x rc = value_text x rc"
  by (simp add: value_line_def value_text_def make_ascii_get_suffix_def FLAGS_SIZE_def FLAGS_CONV_def itoa_u32_dec itoa_u64_dec dec_small Let_def)

lemma get_out_line: "get_out s m rc k = (case fresh s m k of None \<Rightarrow> [] | Some a \<Rightarrow> value_line (heap s a) rc @ data_bytes a s)"
  by (simp only: get_out_def value_line_text)

lemma same_data_line:
  assumes "same_data x y"
  shows "value_line x rc = value_line y rc"
proof -
  have "it_flags x AND 418 = it_flags y AND 418" using assms by (simp add: same_data_def)
  from layout_flag [OF this] show ?thesis using assms
    by (simp add: value_line_def make_ascii_get_suffix_def same_data_def FLAGS_SIZE_def ITEM_get_cas_def has_flag_def key_of_def Let_def)
qed

lemma get_out_kept:
  assumes nf: "no_flush s" and dk: "data_kept (ran m') s s'" and m': "m' = (if fresh s m k = None then m(k := None) else m)"
  shows "no_flush s'" "get_out s' m' rc k' = get_out s m rc k'" "fresh s' m' k' = fresh s m k'"
proof -
  have t: "current_time s' = current_time s" "settings s' = settings s" using dk by (simp_all add: data_kept_def)
  show nf': "no_flush s'" using nf by (simp add: no_flush_def t)
  have fl: "\<not> item_is_flushed x s" "\<not> item_is_flushed x s'" for x
    using nf nf' by (auto simp: item_is_flushed_def no_flush_def Let_def)
  have sd: "same_data (heap s' a) (heap s a)" if "m' j = Some a" for j a using dk that by (auto simp: data_kept_def ran_def)
  show f: "fresh s' m' k' = fresh s m k'"
  proof (cases "m' k'")
    case None
    then show ?thesis using m' by (auto simp: fresh_def split: if_splits option.splits)
  next
    case (Some a)
    then have "m k' = Some a" using m' by (auto split: if_splits)
    then show ?thesis using Some sd [OF Some] fl t by (simp add: fresh_def item_dead_def same_data_def)
  qed
  show "get_out s' m' rc k' = get_out s m rc k'"
  proof (cases "fresh s' m' k'")
    case None
    then show ?thesis using f by (simp add: get_out_line)
  next
    case (Some a)
    then have "m' k' = Some a" by (auto simp: fresh_def split: option.splits if_splits)
    from sd [OF this] have "value_line (heap s' a) rc = value_line (heap s a) rc" "data_bytes a s' = data_bytes a s"
      using same_data_line data_bytes_same same_data_value by blast+
    then show ?thesis using Some f by (simp add: get_out_line)
  qed
qed

lemma plain_get:
  assumes inv: "items_inv hash s m Q F H R" and small: "\<forall>a \<in> ran m. R a + 3 \<le> 60000"
  shows "case fresh s m k of
      None \<Rightarrow> \<exists>s1. limited_get hash k th et False True s = Some (s1, NULL, False) \<and> (\<exists>Q F H. items_inv hash s1 (m(k := None)) Q F H R) \<and>
        data_kept (live (m(k := None)) R) s s1
    | Some a \<Rightarrow> a \<noteq> NULL \<and> m k = Some a \<and> (\<exists>s1 R1. limited_get hash k th et False True s = Some (s1, a, False) \<and> (\<exists>Q F H. items_inv hash s1 m Q F H R1) \<and>
        (R1 = R(a := R a + 1) \<or> R1 = R(a := R a + 2)) \<and> data_kept (live m R) s s1)"
proof -
  have sm: "\<forall>a \<in> ran m. R a + 3 < 2 ^ 16" using small by fastforce
  note G = do_item_get_inv [OF inv sm, of k th True]
  show ?thesis
  proof (cases "m k")
    case None
    then have "m(k := None) = m" by (simp add: fun_upd_idem)
    with None G inv show ?thesis by (auto simp: fresh_def limited_get_def item_get_def)
  next
    case (Some a)
    then have ar: "a \<in> ran m" by (rule ranI)
    show ?thesis
    proof (cases "item_dead (heap s a) s")
      case True
      then obtain s1 where "do_item_get k (hash k) th True s = Some (s1, NULL)" "\<exists>Q F H. items_inv hash s1 (m(k := None)) Q F H R"
        "data_kept (live (m(k := None)) R) s s1" using G Some by auto
      then show ?thesis using True Some by (simp add: fresh_def limited_get_def item_get_def)
    next
      case False
      then obtain s1 Q1 F1 H1 R1 where g: "do_item_get k (hash k) th True s = Some (s1, a)" "items_inv hash s1 m Q1 F1 H1 R1"
        "R1 = R(a := R a + 1) \<or> R1 = R(a := R a + 2)" "data_kept (live m R) s s1" using G Some by auto
      have nn: "a \<noteq> NULL" using item_fetched [OF inv sm, of k th] Some False by (simp add: fresh_def)
      have "a \<in> live m R1" using ar by (simp add: live_def)
      from items_invD(6) [OF g(2) this] ar have "unat (refcount (heap s1 a)) = R1 a + 1" by (simp add: item_ok_def)
      moreover have "R1 a \<le> R a + 2" using g(3) by auto
      moreover have "R a + 3 \<le> 60000" using small ar by blast
      ultimately have "unat (refcount (heap s1 a)) \<le> 60000" by linarith
      then have "\<not> refcount (heap s1 a) > IT_REFCOUNT_LIMIT" by (simp add: word_less_nat_alt)
      then have "limited_get hash k th et False True s = Some (s1, a, False)" using g(1) nn by (simp add: limited_get_def item_get_def)
      then show ?thesis using g nn False Some by (simp add: fresh_def) blast
    qed
  qed
qed

text \<open>
  The state while a line is served: the responses hold references, and \<open>B\<close> counts those of others. No value lies in the external storage.
\<close>

definition serving :: "(bytes \<Rightarrow> uint32) \<Rightarrow> (bytes \<rightharpoonup> addr) \<Rightarrow> (addr \<Rightarrow> nat) \<Rightarrow> conn \<Rightarrow> 'a store_scheme \<Rightarrow> bool" where
  "serving hash m B c s \<longleftrightarrow> (\<exists>Q F H. items_inv hash s m Q F H (\<lambda>a. B a + held_by (resps c) a)) \<and> (\<forall>r \<in> set (resps c). resp_ok (heap s) r) \<and>
     no_flush s \<and> (\<forall>a \<in> ran m. full_data (heap s a) \<and> \<not> has_flag ITEM_HDR (heap s a))"

text \<open>Room for \<open>n\<close> more references to every stored item.\<close>

definition room :: "nat \<Rightarrow> (bytes \<rightharpoonup> addr) \<Rightarrow> (addr \<Rightarrow> nat) \<Rightarrow> conn \<Rightarrow> bool" where
  "room n m B c \<longleftrightarrow> (\<forall>a \<in> ran m. B a + held_by (resps c) a + 2 * n + 3 \<le> 60000)"

definition without_dead :: "'a slabs_scheme \<Rightarrow> (bytes \<rightharpoonup> addr) \<Rightarrow> bytes list \<Rightarrow> bytes \<rightharpoonup> addr" where
  "without_dead s m ks = (\<lambda>k. if k \<in> set ks \<and> fresh s m k = None then None else m k)"

lemma without_dead_one: "without_dead s m [k] = (if fresh s m k = None then m(k := None) else m)"
  by (auto simp: without_dead_def fun_eq_iff)

lemma kept_serving:
  assumes sv: "serving hash m B c s" and dk: "data_kept (live (without_dead s m [k]) (\<lambda>a. B a + held_by (resps c) a)) s s1"
  shows "\<forall>r \<in> set (resps c). resp_ok (heap s1) r" "set rs \<subseteq> set (resps c) \<Longrightarrow> pending (heap s1) rs = pending (heap s) rs" "no_flush s1"
    "\<forall>a \<in> ran (without_dead s m [k]). full_data (heap s1 a) \<and> \<not> has_flag ITEM_HDR (heap s1 a)"
    "fresh s1 (without_dead s m [k]) j = fresh s m j" "get_out s1 (without_dead s m [k]) rc j = get_out s m rc j"
proof -
  let ?m1 = "without_dead s m [k]"
  from sv have ok: "\<forall>r \<in> set (resps c). resp_ok (heap s) r" and nf: "no_flush s"
    and fd: "\<forall>a \<in> ran m. full_data (heap s a) \<and> \<not> has_flag ITEM_HDR (heap s a)" by (auto simp: serving_def)
  have r: "resp_ok (heap s1) r \<and> resp_out (heap s1) r = resp_out (heap s) r" if r: "r \<in> set (resps c)" for r
  proof (rule resp_kept)
    show "rs_item r \<noteq> NULL \<longrightarrow> idata (heap s1 (rs_item r)) = idata (heap s (rs_item r))"
    proof
      assume "rs_item r \<noteq> NULL"
      then have "r \<in> set (filter (\<lambda>x. rs_item x = rs_item r \<and> rs_item r \<noteq> NULL) (resps c))" using r by simp
      then have "0 < held_by (resps c) (rs_item r)" unfolding held_by_def by (rule length_pos_if_in_set)
      then show "idata (heap s1 (rs_item r)) = idata (heap s (rs_item r))" using dk by (simp add: data_kept_def live_def same_data_def)
    qed
  qed (use ok r in simp)
  then show "\<forall>r \<in> set (resps c). resp_ok (heap s1) r" by simp
  show "pending (heap s1) rs = pending (heap s) rs" if "set rs \<subseteq> set (resps c)"
    using r that by (auto simp: pending_def subset_iff intro!: arg_cong [where f = concat])
  have dk1: "data_kept (ran ?m1) s s1" using dk by (auto simp: data_kept_def live_def)
  note K = get_out_kept [OF nf dk1 without_dead_one]
  show "no_flush s1" "fresh s1 ?m1 j = fresh s m j" "get_out s1 ?m1 rc j = get_out s m rc j" by (rule K)+
  show "\<forall>a \<in> ran ?m1. full_data (heap s1 a) \<and> \<not> has_flag ITEM_HDR (heap s1 a)"
  proof
    fix a assume a: "a \<in> ran ?m1"
    then have "a \<in> ran m" by (auto simp: without_dead_def ran_def split: if_splits)
    moreover have d: "same_data (heap s1 a) (heap s a)" using dk1 a by (simp add: data_kept_def)
    moreover have "has_flag ITEM_HDR (heap s1 a) = has_flag ITEM_HDR (heap s a)" using same_data_value [OF d] same_value_flags(2) by blast
    ultimately show "full_data (heap s1 a) \<and> \<not> has_flag ITEM_HDR (heap s1 a)" using fd by (simp add: same_data_def full_data_def)
  qed
qed

text \<open>What serving some keys does, from one state of the connection and the store to another: \<open>out\<close> is appended to what is to be sent.\<close>

definition served :: "(bytes \<Rightarrow> uint32) \<Rightarrow> (bytes \<rightharpoonup> addr) \<Rightarrow> (addr \<Rightarrow> nat) \<Rightarrow> (addr \<Rightarrow> nat) \<Rightarrow> bytes list \<Rightarrow> bytes \<Rightarrow>
    conn \<times> 'a store_scheme \<Rightarrow> conn \<times> 'a store_scheme \<Rightarrow> bool" where
  "served hash m B B1 ks out = (\<lambda>(c, s) (c1, s1). let m1 = without_dead s m ks in
     serving hash m1 B1 c1 s1 \<and> (\<forall>a. B a \<le> B1 a \<and> B a + held_by (resps c) a \<le> B1 a + held_by (resps c1) a \<and>
       B1 a + held_by (resps c1) a \<le> B a + held_by (resps c) a + 2 * length ks) \<and>
     (\<forall>j rc. fresh s1 m1 j = fresh s m j \<and> get_out s1 m1 rc j = get_out s m rc j) \<and>
     data_kept (live m1 (\<lambda>a. B a + held_by (resps c) a)) s s1 \<and>
     pending (heap s1) (rev (resps c1)) = pending (heap s) (rev (resps c)) @ out)"

definition open_resp :: "conn \<Rightarrow> bool" where
  "open_resp c \<longleftrightarrow> (\<exists>r rs. resps c = r # rs \<and> length (rs_iov r) \<le> 2 \<and> \<not> rs_skip r)"

lemma get_one_step:
  fixes s :: "'a store_scheme"
  assumes sv: "serving hash m B c s" and rm: "room 1 m B c" and rs: "resps c = new_resp # rs"
  shows "\<exists>c1 s1 B1. get_one hash th st rc False 0 k (c, s) = Some ((c1, s1), False) \<and> served hash m B B1 [k] (get_out s m rc k) (c, s) (c1, s1) \<and>
    open_resp c1 \<and> rbuf c1 = rbuf c \<and> resp_supply c1 = resp_supply c"
proof -
  let ?R = "\<lambda>a. B a + held_by (resps c) a" and ?et = "0 :: uint32" and ?m1 = "without_dead s m [k]"
  from sv obtain Q F H where inv: "items_inv hash s m Q F H ?R" by (auto simp: serving_def)
  have small: "\<forall>a \<in> ran m. ?R a + 3 \<le> 60000" using rm by (force simp: room_def)
  note P = plain_get [OF inv small, of k th ?et]
  let ?d = "\<lambda>b. if detail_enabled c then c\<lparr>ptab := stats_prefix_record_get hash k b (ptab c)\<rparr> else c"
  have sub: "set (rev rs) \<subseteq> set (resps c)" using rs by auto
  have p0: "pending (heap s) (rev (resps c)) = pending (heap s) (rev rs)" by (simp add: rs pending_simps resp_out_def)
  show ?thesis
  proof (cases "fresh s m k")
    case None
    have m1: "?m1 = m(k := None)" using None by (simp add: without_dead_one)
    from P obtain s1 where g: "limited_get hash k th ?et False True s = Some (s1, NULL, False)" "\<exists>Q F H. items_inv hash s1 ?m1 Q F H ?R"
      "data_kept (live ?m1 ?R) s s1" by (auto simp: None m1)
    let ?c1 = "(?d False)\<lparr>get_misses := get_misses c + 1, get_cmds := get_cmds c + 1\<rparr>"
    have f: "resps ?c1 = resps c" "rbuf ?c1 = rbuf c" "resp_supply ?c1 = resp_supply c" by simp_all
    have go: "get_one hash th st rc False 0 k (c, s) = Some ((?c1, s1), False)" by (simp add: get_one_def g(1))
    note K = kept_serving [OF sv g(3)]
    have "serving hash ?m1 B ?c1 s1" unfolding serving_def f using g(2) K(1,3,4) by blast
    moreover have "pending (heap s1) (rev (resps ?c1)) = pending (heap s) (rev (resps c)) @ get_out s m rc k"
      unfolding f using K(2) [of "rev (resps c)"] None by (simp add: get_out_line)
    ultimately have "served hash m B B [k] (get_out s m rc k) (c, s) (?c1, s1)"
      unfolding served_def prod.case Let_def f using K(5,6) g(3) by simp
    moreover have "open_resp ?c1" using rs by (simp add: open_resp_def)
    ultimately show ?thesis using go f(2,3) by blast
  next
    case (Some a)
    have m1: "?m1 = m" using Some by (simp add: without_dead_one)
    from P obtain s1 R1 where a: "a \<noteq> NULL" "m k = Some a" and g: "limited_get hash k th ?et False True s = Some (s1, a, False)"
      "\<exists>Q F H. items_inv hash s1 m Q F H R1" "R1 = ?R(a := ?R a + 1) \<or> R1 = ?R(a := ?R a + 2)" "data_kept (live ?m1 ?R) s s1" unfolding Some option.case m1 by blast
    note K = kept_serving [OF sv g(4)]
    have ar: "a \<in> ran m" using a(2) by (rule ranI)
    have al: "a \<in> live m R1" using ar by (simp add: live_def)
    from g(2) obtain Q1 F1 H1 where i1: "items_inv hash s1 m Q1 F1 H1 R1" by blast
    have fl: "\<not> has_flag ITEM_CHUNKED (heap s1 a)" "\<not> has_flag ITEM_HDR (heap s1 a)" "full_data (heap s1 a)"
      using items_invD(6) [OF i1 al] K(4) ar by (simp_all add: item_ok_def m1)
    let ?x = "heap s1 a"
    let ?txt = "value_line ?x rc" and ?n = "nat (nbytes ?x)"
    let ?r = "rs_item_update (\<lambda>_. a) (resp_add_iov (Base_data a 0) ?n (resp_add_iov (Base_text ?txt) (length ?txt) new_resp))"
    let ?c1 = "(?d True)\<lparr>lru_hits := (lru_hits c)(slabs_clsid ?x := lru_hits c (slabs_clsid ?x) + 1), get_cmds := get_cmds c + 1, resps := ?r # rs\<rparr>"
    have f: "resps ?c1 = ?r # rs" "rbuf ?c1 = rbuf c" "resp_supply ?c1 = resp_supply c" by simp_all
    have go: "get_one hash th st rc False 0 k (c, s) = Some ((?c1, s1), False)"
      using rs a(1) fl by (simp add: get_one_def g(1) upd_resp_def Let_def)
    have okr: "resp_ok (heap s1) ?r" using fl(3) a(1) by (simp add: resp_ok_def resp_add_iov_def full_data_def nat_le_iff)
    have out: "resp_out (heap s1) ?r = get_out s1 ?m1 rc k" using Some K(5) [of k]
      by (simp add: resp_out_def resp_add_iov_def get_out_line data_bytes_def)
    have "held_by (?r # rs) x = held_by (resps c) x + (if x = a then 1 else 0)" for x using a(1) by (simp add: rs held_by_simps resp_add_iov_def)
    then have hd: "held_by (?r # rs) = (\<lambda>x. held_by (resps c) x + (if x = a then 1 else 0))" by blast
    obtain B1 where B1: "R1 = (\<lambda>x. B1 x + (held_by (resps c) x + (if x = a then 1 else 0)))" "\<And>x. B x \<le> B1 x \<and> B1 x \<le> B x + (if x = a then 1 else 0)"
    proof (cases "R1 = ?R(a := ?R a + 1)")
      case True
      then show ?thesis by (intro that [of B]) auto
    next
      case False
      then show ?thesis using g(3) by (intro that [of "B(a := B a + 1)"]) auto
    qed
    have "serving hash ?m1 B1 ?c1 s1" unfolding serving_def f(1) hd B1(1) [symmetric] m1 using g(2) K(1,3,4) okr by (simp add: m1 rs)
    moreover have "pending (heap s1) (rev (resps ?c1)) = pending (heap s) (rev (resps c)) @ get_out s m rc k"
      using K(2) [OF sub] out K(6) p0 by (simp add: pending_simps)
    moreover have "B x \<le> B1 x \<and> B1 x + held_by (?r # rs) x \<le> B x + held_by (resps c) x + 2" "B x + held_by (resps c) x \<le> B1 x + held_by (?r # rs) x" for x
      unfolding hd using B1(2) [of x] by (auto split: if_splits)
    ultimately have "served hash m B B1 [k] (get_out s m rc k) (c, s) (?c1, s1)"
      unfolding served_def prod.case Let_def f(1) using K(5,6) g(4) by simp
    moreover have "open_resp ?c1" by (simp add: open_resp_def resp_add_iov_def)
    ultimately show ?thesis using go f(2,3) by blast
  qed
qed

section \<open>All keys\<close>

lemma served_refl:
  assumes "serving hash m B c s"
  shows "served hash m B B [] [] (c, s) (c, s)"
proof -
  have "without_dead s m [] = m" by (simp add: without_dead_def)
  then show ?thesis using assms by (simp add: served_def)
qed

lemma served_trans:
  assumes 1: "served hash m B B1 ks out (c, s) (c1, s1)"
    and 2: "served hash (without_dead s m ks) B1 B2 ks' out' (c2, s1) (c3, s3)"
    and same: "held_by (resps c2) = held_by (resps c1)" "pending (heap s1) (rev (resps c2)) = pending (heap s1) (rev (resps c1))"
  shows "served hash m B B2 (ks @ ks') (out @ out') (c, s) (c3, s3)"
proof -
  let ?m1 = "without_dead s m ks" and ?R = "\<lambda>a. B a + held_by (resps c) a" and ?R1 = "\<lambda>a. B1 a + held_by (resps c1) a"
  note d1 = 1 [unfolded served_def prod.case Let_def] and d2 = 2 [unfolded served_def prod.case Let_def same]
  have fr: "fresh s1 ?m1 j = fresh s m j" for j using d1 by blast
  have m2: "without_dead s1 ?m1 ks' = without_dead s m (ks @ ks')"
    unfolding without_dead_def [of s1] fr by (auto simp: without_dead_def fun_eq_iff)
  have sub1: "live (without_dead s m (ks @ ks')) ?R \<subseteq> live ?m1 ?R" by (auto simp: live_def without_dead_def ran_def split: if_splits)
  have le: "0 < ?R a \<Longrightarrow> 0 < ?R1 a" for a using d1 by (metis less_le_trans)
  have sub2: "live (without_dead s m (ks @ ks')) ?R \<subseteq> live (without_dead s m (ks @ ks')) ?R1"
  proof
    fix x assume "x \<in> live (without_dead s m (ks @ ks')) ?R"
    then show "x \<in> live (without_dead s m (ks @ ks')) ?R1" using le [of x] by (auto simp: live_def)
  qed
  have dk: "data_kept (live (without_dead s m (ks @ ks')) ?R) s s3"
    using d1 d2 [unfolded m2] data_kept_trans [OF _ _ sub1 sub2] by blast
  have "B a \<le> B2 a \<and> ?R a \<le> B2 a + held_by (resps c3) a \<and> B2 a + held_by (resps c3) a \<le> ?R a + 2 * length (ks @ ks')" for a
  proof -
    have "B a \<le> B1 a \<and> ?R a \<le> ?R1 a \<and> ?R1 a \<le> ?R a + 2 * length ks" using d1 by blast
    moreover have "B1 a \<le> B2 a \<and> ?R1 a \<le> B2 a + held_by (resps c3) a \<and> B2 a + held_by (resps c3) a \<le> ?R1 a + 2 * length ks'" using d2 by blast
    ultimately show ?thesis by auto
  qed
  then show ?thesis unfolding served_def prod.case Let_def using d1 d2 [unfolded m2] dk by simp
qed

abbreviation can_start :: "nat \<Rightarrow> conn \<Rightarrow> bool" where
  "can_start n c \<equiv> take n (resp_supply c) = replicate n True"

lemma can_start_drop: "\<lbrakk>can_start n c; resp_supply c' = drop i (resp_supply c); i + j \<le> n\<rbrakk> \<Longrightarrow> can_start j c'"
proof -
  assume a: "can_start n c" "resp_supply c' = drop i (resp_supply c)" "i + j \<le> n"
  have "take (i + j) (resp_supply c) = take (i + j) (take n (resp_supply c))" using a(3) by (simp add: min_def)
  then have "take (i + j) (resp_supply c) = replicate (i + j) True" using a(1,3) by (simp add: min_def)
  then have "drop i (take (i + j) (resp_supply c)) = replicate j True" by simp
  then show ?thesis unfolding a(2) by (simp add: drop_take)
qed

lemma resp_start_next:
  assumes "can_start (Suc n) c"
  shows "resp_start c = (c\<lparr>resp_supply := drop 1 (resp_supply c), resps := new_resp # resps c\<rparr>, True)"
  using assms by (cases "resp_supply c") (auto simp: resp_start_def)

lemma new_resp_same: "held_by (new_resp # rs) = held_by rs" "pending h (rev (new_resp # rs)) = pending h (rev rs)"
  "pending h (rev rs @ [new_resp]) = pending h (rev rs)"
  by (auto simp: fun_eq_iff held_by_simps pending_simps resp_out_def)

lemma serving_new: "\<lbrakk>serving hash m B c s; resps c' = new_resp # resps c\<rbrakk> \<Longrightarrow> serving hash m B c' s"
  unfolding serving_def by (auto simp: new_resp_same resp_ok_def)

lemma room_served:
  assumes "served hash m B B1 ks out (c, s) (c1, s1)" "room (length ks + n) m B c" "held_by (resps c2) = held_by (resps c1)"
  shows "room n (without_dead s m ks) B1 c2"
  unfolding room_def assms(3)
proof
  fix a assume "a \<in> ran (without_dead s m ks)"
  then have "a \<in> ran m" by (auto simp: without_dead_def ran_def split: if_splits)
  then have "B a + held_by (resps c) a + 2 * (length ks + n) + 3 \<le> 60000" using assms(2) by (auto simp: room_def)
  moreover have "B1 a + held_by (resps c1) a \<le> B a + held_by (resps c) a + 2 * length ks" using assms(1) by (simp add: served_def Let_def)
  ultimately show "B1 a + held_by (resps c1) a + 2 * n + 3 \<le> 60000" by simp
qed

lemma served_outs:
  assumes "served hash m B B1 ks out (c, s) (c1, s1)"
  shows "concat (map (get_out s1 (without_dead s m ks) rc) ks') = concat (map (get_out s m rc) ks')"
proof -
  have "get_out s1 (without_dead s m ks) rc j = get_out s m rc j" for j using assms by (simp add: served_def Let_def)
  then show ?thesis by presburger
qed

lemma get_tokens_served:
  fixes s :: "'a store_scheme" and last :: token_t
  assumes "serving hash m B c s" "room (length ts) m B c" "resps c = new_resp # rs" "map (token_bytes (rbuf c)) ts = ks"
    and "\<forall>t \<in> set ts. 0 < tk_length t \<and> tk_length t \<le> KEY_MAX_LENGTH" "tk_length last = 0" "can_start (length ts - 1) c"
  shows "\<exists>c1 s1 B1. get_tokens hash th st rc False 0 (ts @ [last]) (c, s) = Some (Get_done last, c1, s1) \<and>
    served hash m B B1 ks (concat (map (get_out s m rc) ks)) (c, s) (c1, s1) \<and> open_resp c1 \<and> rbuf c1 = rbuf c \<and>
    resp_supply c1 = drop (length ts - 1) (resp_supply c)"
  using assms
proof (induction ts arbitrary: m B c s rs ks)
  case Nil
  then have "open_resp c" by (simp add: open_resp_def)
  then show ?case using Nil served_refl [OF Nil.prems(1)] by auto
next
  case (Cons t ts)
  let ?k = "token_bytes (rbuf c) t" and ?ks = "map (token_bytes (rbuf c)) ts"
  have t: "0 < tk_length t" "tk_length t \<le> KEY_MAX_LENGTH" using Cons.prems(5) by simp_all
  have r1: "room 1 m B c" using Cons.prems(2) by (force simp: room_def)
  from get_one_step [OF Cons.prems(1) r1 Cons.prems(3), of th st rc ?k] obtain c1 s1 B1 where
    g: "get_one hash th st rc False 0 ?k (c, s) = Some ((c1, s1), False)" "served hash m B B1 [?k] (get_out s m rc ?k) (c, s) (c1, s1)"
      "open_resp c1" "rbuf c1 = rbuf c" "resp_supply c1 = resp_supply c" by blast
  have sv1: "serving hash (without_dead s m [?k]) B1 c1 s1" using g(2) by (simp add: served_def Let_def)
  show ?case
  proof (cases ts)
    case Nil
    then show ?thesis using g t Cons.prems(4,6) by auto
  next
    case (Cons t' ts')
    let ?c2 = "c1\<lparr>resp_supply := drop 1 (resp_supply c1), resps := new_resp # resps c1\<rparr>"
    have cs: "can_start (Suc (length ts')) c1" using Cons.prems(7) g(5) by (simp add: Cons)
    have t': "tk_length t' \<noteq> 0" using Cons.prems(5) by (simp add: Cons)
    have go: "get_tokens hash th st rc False 0 ((t # ts) @ [last]) (c, s) = get_tokens hash th st rc False 0 (ts @ [last]) (?c2, s1)"
      using t t' g(1) resp_start_next [OF cs] by (simp add: Cons)
    have sv2: "serving hash (without_dead s m [?k]) B1 ?c2 s1" by (rule serving_new [OF sv1]) simp
    have rm: "room (length ts) (without_dead s m [?k]) B1 ?c2" by (rule room_served [OF g(2)]) (use Cons.prems(2) in \<open>simp_all add: new_resp_same\<close>)
    have st: "can_start (length ts - 1) ?c2" by (rule can_start_drop [OF cs, of _ 1]) (simp_all add: Cons)
    have ks: "map (token_bytes (rbuf ?c2)) ts = ?ks" using g(4) by simp
    from Cons.IH [OF sv2 rm _ ks _ Cons.prems(6) st, of "resps c1"] Cons.prems(5) obtain c3 s3 B3 where
      r: "get_tokens hash th st rc False 0 (ts @ [last]) (?c2, s1) = Some (Get_done last, c3, s3)"
        "served hash (without_dead s m [?k]) B1 B3 ?ks (concat (map (get_out s1 (without_dead s m [?k]) rc) ?ks)) (?c2, s1) (c3, s3)"
        "open_resp c3" "rbuf c3 = rbuf ?c2" "resp_supply c3 = drop (length ts - 1) (resp_supply ?c2)" by auto
    have "served hash m B B3 ([?k] @ ?ks) (get_out s m rc ?k @ concat (map (get_out s m rc) ?ks)) (c, s) (c3, s3)"
      by (rule served_trans [OF g(2) r(2) [unfolded served_outs [OF g(2)]]]) (simp_all add: new_resp_same)
    moreover have "resp_supply c3 = drop (length (t # ts) - 1) (resp_supply c)" using r(5) g(5) by (simp add: Cons)
    ultimately show ?thesis using go r(1,3,4) g(4) Cons.prems(4) by auto
  qed
qed

section \<open>The tokens of a long line\<close>

lemma words_length: "length (words xs) \<le> length xs"
proof (induction xs rule: length_induct)
  case (1 xs)
  show ?case
  proof (cases "32 \<in> set xs")
    case True
    then obtain w ys where x: "xs = w @ 32 # ys" "32 \<notin> set w" by (meson split_list_first)
    have "length (words ys) \<le> length ys" using 1 x by simp
    then show ?thesis using x by (simp add: words_blank)
  next
    case False
    then show ?thesis by (simp add: words_word Suc_le_eq)
  qed
qed

lemma blank_words:
  assumes "words xs = []" "x \<in> set xs"
  shows "x = 32"
  using assms
proof (induction xs rule: length_induct)
  case (1 xs)
  show ?case
  proof (cases "32 \<in> set xs")
    case True
    then obtain w ys where y: "xs = w @ 32 # ys" "32 \<notin> set w" by (meson split_list_first)
    then have "w = []" "words ys = []" using 1(2) by (auto simp: words_blank split: if_splits)
    then show ?thesis using 1 y by auto
  next
    case False
    then show ?thesis using 1 by (auto simp: words_word split: if_splits)
  qed
qed

lemma tokenize_loop_blank: "(\<And>i. i < k \<Longrightarrow> buf ! (e + i) = 32) \<Longrightarrow> tokenize_loop k e e [] n buf = (e + k, e + k, [], buf)"
proof (induction k arbitrary: e)
  case (Suc k)
  have "tokenize_loop k (Suc e) (Suc e) [] n buf = (Suc e + k, Suc e + k, [], buf)"
    using Suc.prems [of "Suc i" for i] by (intro Suc.IH) simp
  then show ?case using Suc.prems [of 0] by simp
qed simp

lemma cstring_end:
  assumes "0 \<in> set (drop p buf)"
  shows "length (cstring buf p) < length (drop p buf)"
proof -
  have "takeWhile (\<lambda>x. x \<noteq> 0) (drop p buf) \<noteq> drop p buf" using assms by (auto simp: takeWhile_eq_all_conv)
  then show ?thesis by (metis le_neq_implies_less length_takeWhile_le takeWhile_eq_take take_all_iff order_refl)
qed

lemma tokenize_blank:
  assumes "p \<le> length buf" "0 \<in> set (drop p buf)" "words (cstring buf p) = []"
  shows "tokenize_command p n buf = ([\<lparr>tk_value = None, tk_length = 0\<rparr>], buf)"
proof -
  let ?k = "length (cstring buf p)"
  have "buf ! (p + i) = 32" if "i < ?k" for i
  proof -
    have "cstring buf p ! i = 32" using blank_words [OF assms(3)] nth_mem [OF that] by blast
    then show ?thesis using that assms(1) by (simp add: takeWhile_nth)
  qed
  then have l: "tokenize_loop ?k p p [] n buf = (p + ?k, p + ?k, [], buf)" by (rule tokenize_loop_blank)
  have "?k < length (drop p buf)" by (rule cstring_end [OF assms(2)])
  then have "drop p buf ! ?k = 0" using nth_length_takeWhile by fastforce
  then have "buf ! (p + ?k) = 0" using assms(1) by simp
  then show ?thesis by (simp add: tokenize_command_def l)
qed

lemma words_nonempty: "w \<in> set (words xs) \<Longrightarrow> w \<noteq> []"
  by (simp add: words_def)

text \<open>The tokens of a line, or of what is left of it, as the handler reads them.\<close>

definition tokens_left :: "bytes \<Rightarrow> token_t \<Rightarrow> bytes list \<Rightarrow> bool" where
  "tokens_left buf t ws \<longleftrightarrow> tk_length t = 0 \<and> (case tk_value t of None \<Rightarrow> ws = []
     | Some r \<Rightarrow> r \<le> length buf \<and> 0 \<in> set (drop r buf) \<and> words (cstring buf r) = ws)"

lemma line_tokens:
  assumes "p \<le> length buf" "0 \<in> set (drop p buf)" "tokenize_command p MAX_TOKENS buf = (toks, buf')"
  shows "\<exists>ts t. toks = ts @ [t] \<and> map (token_bytes buf') ts = take 23 (words (cstring buf p)) \<and> (\<forall>x \<in> set ts. tk_value x \<noteq> None) \<and>
    map tk_length ts = map length (take 23 (words (cstring buf p))) \<and> tokens_left buf' t (drop 23 (words (cstring buf p))) \<and> length buf' = length buf"
proof -
  let ?ws = "words (cstring buf p)" and ?q = "p + length (cstring buf p)"
  obtain ts t where
    t: "toks = ts @ [t]" "map (tk_text buf') ts = take 23 ?ws" "map tk_length ts = map length (take 23 ?ws)" "\<forall>t \<in> set ts. tk_value t \<noteq> None"
      "tk_length t = 0" "drop ?q buf' = drop ?q buf" "length buf' = length buf"
      "case tk_value t of None \<Rightarrow> length ?ws \<le> 23 | Some r \<Rightarrow> p \<le> r \<and> r \<le> ?q \<and> words (cstring buf' r) = drop 23 ?ws \<and> buf' ! r \<noteq> 0"
  proof -
    have n: "(1 :: nat) < 24" "24 - 1 = (23 :: nat)" by simp_all
    from tokenize_words [OF assms(1,2) n(1), unfolded n(2)] obtain new l b where w:
      "tokenize_command p 24 buf = (new @ [l], b)" "map (tk_text b) new = take 23 ?ws" "map tk_length new = map length (take 23 ?ws)"
      "\<forall>t \<in> set new. tk_value t \<noteq> None" "tk_length l = 0" "drop ?q b = drop ?q buf" "length b = length buf"
      "case tk_value l of None \<Rightarrow> length ?ws \<le> 23 | Some r \<Rightarrow> p \<le> r \<and> r \<le> ?q \<and> words (cstring b r) = drop 23 ?ws \<and> b ! r \<noteq> 0" by blast
    have e: "toks = new @ [l]" "buf' = b" using w(1) assms(3) by simp_all
    show ?thesis by (rule that [of new l, unfolded e]) (rule refl w)+
  qed
  have len: "tk_length x = length (tk_text buf' x)" if "x \<in> set ts" for x
  proof -
    from that obtain i where i: "i < length ts" "x = ts ! i" by (auto simp: in_set_conv_nth)
    then show ?thesis using arg_cong [OF t(2), of "\<lambda>l. length (l ! i)"] arg_cong [OF t(3), of "\<lambda>l. l ! i"] arg_cong [OF t(3), of length] by simp
  qed
  have "token_bytes buf' x = tk_text buf' x" if "x \<in> set ts" for x
    using len [OF that] t(4) that cstring_prefix [where buf = buf'] by (auto simp: token_bytes_def tk_text_def split: option.splits)
  then have m: "map (token_bytes buf') ts = take 23 ?ws" using t(2) by (metis map_cong)
  have q: "?q < length buf" "buf ! ?q = 0"
  proof -
    have "length (cstring buf p) < length (drop p buf)" by (rule cstring_end [OF assms(2)])
    then show "?q < length buf" by simp
    have "drop p buf ! length (cstring buf p) = 0" using nth_length_takeWhile \<open>length (cstring buf p) < length (drop p buf)\<close> by fastforce
    then show "buf ! ?q = 0" using assms(1) by simp
  qed
  have q': "buf' ! ?q = 0" using arg_cong [OF t(6), of hd] q t(7) by (simp add: hd_drop_conv_nth)
  have "tokens_left buf' t (drop 23 ?ws)"
  proof (cases "tk_value t")
    case None
    then show ?thesis using t(5,8) by (simp add: tokens_left_def)
  next
    case (Some r)
    then have r: "r \<le> ?q" "words (cstring buf' r) = drop 23 ?ws" using t(8) by simp_all
    have "drop r buf' ! (?q - r) = 0" "?q - r < length (drop r buf')" using r(1) q q' t(7) by simp_all
    then have "0 \<in> set (drop r buf')" by (metis nth_mem)
    then show ?thesis using Some r q(1) t(5,7) by (simp add: tokens_left_def)
  qed
  then show ?thesis using t(1,3,4,7) m by blast
qed

section \<open>The whole line\<close>

abbreviation end_line :: bytes where
  "end_line \<equiv> ascii ''END'' @ [13, 10]"

lemma get_finished_served:
  assumes sv: "served hash m B B1 ks out (c, s) (c1, s1)" and op: "open_resp c1"
  shows "\<exists>c2. get_finished (c1, s1) = Some (c2, s1) \<and> cstate c2 = conn_mwrite \<and> served hash m B B1 ks (out @ end_line) (c, s) (c2, s1)"
proof -
  from op obtain r rs where r: "resps c1 = r # rs" "length (rs_iov r) \<le> 2" "\<not> rs_skip r" by (auto simp: open_resp_def)
  let ?r = "resp_add_iov (Base_text end_line) 5 r" and ?m1 = "without_dead s m ks"
  let ?c2 = "c1\<lparr>resps := ?r # rs, cstate := conn_mwrite\<rparr>"
  have go: "get_finished (c1, s1) = Some (?c2, s1)" by (simp add: get_finished_def upd_resp_def r(1) conn_set_state_def)
  note d = sv [unfolded served_def prod.case Let_def]
  have l: "length end_line = 5" by (simp add: ascii_def)
  have sv1: "serving hash ?m1 B1 c1 s1" using d by blast
  have hd: "held_by (resps ?c2) = held_by (resps c1)" by (auto simp: fun_eq_iff r(1) held_by_simps resp_add_iov_def)
  have "resp_ok (heap s1) r" using sv1 r(1) by (simp add: serving_def)
  then have ok: "resp_ok (heap s1) ?r" using r(2) l by (auto simp: resp_ok_def resp_add_iov_def)
  have sv2: "serving hash ?m1 B1 ?c2 s1" using sv1 ok unfolding serving_def hd by (simp add: r(1))
  have "resp_out (heap s1) ?r = resp_out (heap s1) r @ end_line" using r(3) l by (simp add: resp_out_def resp_add_iov_def)
  then have "pending (heap s1) (rev (resps ?c2)) = pending (heap s1) (rev (resps c1)) @ end_line" by (simp add: r(1) pending_simps)
  then have "served hash m B B1 ks (out @ end_line) (c, s) (?c2, s1)"
    unfolding served_def prod.case Let_def hd using d sv2 by simp
  then show ?thesis using go by auto
qed

lemma served_new:
  assumes sv: "served hash m B B1 ks out (c, s) (c1, s1)" and c2: "resps c2 = new_resp # resps c1"
  shows "served hash m B B1 ks out (c, s) (c2, s1)" "open_resp c2"
proof -
  have "serving hash (without_dead s m ks) B1 c2 s1" using sv by (intro serving_new [OF _ c2]) (simp add: served_def Let_def)
  then show "served hash m B B1 ks out (c, s) (c2, s1)" using sv by (simp add: served_def Let_def c2 new_resp_same del: rev.simps)
  show "open_resp c2" by (simp add: open_resp_def c2)
qed

lemma get_rounds_served:
  fixes s :: "'a store_scheme" and t :: token_t
  assumes "serving hash m B c s" "room (length (ks @ ks')) m B c" "resps c = new_resp # rs" "map (token_bytes (rbuf c)) ts = ks"
    and "\<forall>t \<in> set ts. 0 < tk_length t \<and> tk_length t \<le> KEY_MAX_LENGTH" "tokens_left (rbuf c) t ks'" "\<forall>k \<in> set ks'. length k \<le> KEY_MAX_LENGTH"
    and "length ks' < n" "can_start (length ks - 1 + (length ks' + 1)) c"
  shows "\<exists>c1 s1 B1. get_rounds n hash th st rc False 0 (ts @ [t]) (c, s) = Some (c1, s1) \<and> cstate c1 = conn_mwrite \<and>
    served hash m B B1 (ks @ ks') (concat (map (get_out s m rc) (ks @ ks')) @ end_line) (c, s) (c1, s1)"
  using assms
proof (induction n arbitrary: m B c s rs ts ks ks' t)
  case (Suc n)
  have lk: "length ks = length ts" using Suc.prems(4) by auto
  have rm: "room (length ts) m B c" using Suc.prems(2) lk by (force simp: room_def)
  have z: "tk_length t = 0" using Suc.prems(6) by (simp add: tokens_left_def)
  have cs: "can_start (length ts - 1) c" by (rule can_start_drop [OF Suc.prems(9), of c 0]) (simp_all add: lk)
  from get_tokens_served [OF Suc.prems(1) rm Suc.prems(3-5) z cs, of th st rc] obtain c1 s1 B1 where
    g: "get_tokens hash th st rc False 0 (ts @ [t]) (c, s) = Some (Get_done t, c1, s1)" "served hash m B B1 ks (concat (map (get_out s m rc) ks)) (c, s) (c1, s1)"
      "open_resp c1" "rbuf c1 = rbuf c" "resp_supply c1 = drop (length ts - 1) (resp_supply c)" by blast
  show ?case
  proof (cases "tk_value t")
    case None
    then have k: "ks' = []" using Suc.prems(6) by (simp add: tokens_left_def)
    have "get_rounds (Suc n) hash th st rc False 0 (ts @ [t]) (c, s) = get_finished (c1, s1)" by (simp add: g(1) None)
    then show ?thesis using get_finished_served [OF g(2,3)] by (auto simp: k)
  next
    case (Some p)
    then have p: "p \<le> length (rbuf c1)" "0 \<in> set (drop p (rbuf c1))" "words (cstring (rbuf c1) p) = ks'" using Suc.prems(6) g(4) by (simp_all add: tokens_left_def)
    obtain toks1 buf where tok: "tokenize_command p MAX_TOKENS (rbuf c1) = (toks1, buf)" by fastforce
    have cs1: "can_start (Suc (length ks')) c1" by (rule can_start_drop [OF Suc.prems(9) g(5)]) (simp add: lk)
    let ?c2 = "c1\<lparr>rbuf := buf, resp_supply := drop 1 (resp_supply c1), resps := new_resp # resps c1\<rparr>"
    have "can_start (Suc (length ks')) (c1\<lparr>rbuf := buf\<rparr>)" using cs1 by simp
    from resp_start_next [OF this] have st: "resp_start (c1\<lparr>rbuf := buf\<rparr>) = (?c2, True)" by simp
    show ?thesis
    proof (cases "ks' = []")
      case True
      have "toks1 = [\<lparr>tk_value = None, tk_length = 0\<rparr>]" using tokenize_blank [OF p(1,2), of MAX_TOKENS] p(3) tok True by simp
      then have go: "get_rounds (Suc n) hash th st rc False 0 (ts @ [t]) (c, s) = get_finished (?c2, s1)" by (simp add: g(1) Some tok st)
      have "resps ?c2 = new_resp # resps c1" by simp
      note N = served_new [OF g(2) this]
      from get_finished_served [OF N] show ?thesis unfolding go using True by auto
    next
      case False
      from line_tokens [OF p(1,2) tok, unfolded p(3)] obtain ts' t' where t': "toks1 = ts' @ [t']" "map (token_bytes buf) ts' = take 23 ks'"
        "\<forall>x \<in> set ts'. tk_value x \<noteq> None" "map tk_length ts' = map length (take 23 ks')" "tokens_left buf t' (drop 23 ks')" by blast
      obtain j where pos: "length ks' = Suc j" using False by (cases ks') auto
      have ne: "ts' \<noteq> []" using t'(2) False by auto
      then have "tk_value (toks1 ! 0) \<noteq> None" using t'(1,3) by (cases ts') auto
      then have go: "get_rounds (Suc n) hash th st rc False 0 (ts @ [t]) (c, s) = get_rounds n hash th st rc False 0 (ts' @ [t']) (?c2, s1)"
        by (simp add: g(1) Some tok st t'(1))
      let ?m1 = "without_dead s m ks"
      have sv1: "serving hash ?m1 B1 c1 s1" using g(2) by (simp add: served_def Let_def)
      have sv2: "serving hash ?m1 B1 ?c2 s1" by (rule serving_new [OF sv1]) simp
      have rm2: "room (length (take 23 ks' @ drop 23 ks')) ?m1 B1 ?c2" by (rule room_served [OF g(2)]) (use Suc.prems(2) in \<open>simp_all add: new_resp_same\<close>)
      have l2: "\<forall>x \<in> set ts'. 0 < tk_length x \<and> tk_length x \<le> KEY_MAX_LENGTH"
      proof
        fix x assume "x \<in> set ts'"
        then have "tk_length x \<in> set (map length (take 23 ks'))" unfolding t'(4) [symmetric] by simp
        then obtain k where k: "k \<in> set ks'" "tk_length x = length k" by (auto dest: in_set_takeD)
        then show "0 < tk_length x \<and> tk_length x \<le> KEY_MAX_LENGTH" using Suc.prems(7) words_nonempty [of k "cstring (rbuf c1) p"] p(3) by simp
      qed
      have m2: "map (token_bytes (rbuf ?c2)) ts' = take 23 ks'" "tokens_left (rbuf ?c2) t' (drop 23 ks')" using t'(2,5) by simp_all
      have k2: "\<forall>k \<in> set (drop 23 ks'). length k \<le> KEY_MAX_LENGTH" "length (drop 23 ks') < n"
        using Suc.prems(7,8) by (auto simp: pos dest: in_set_dropD)
      have s2: "can_start (length (take 23 ks') - 1 + (length (drop 23 ks') + 1)) ?c2"
        by (intro can_start_drop [OF cs1, of _ 1]) (simp_all add: pos)
      from Suc.IH [OF sv2 rm2 _ m2(1) l2 m2(2) k2 s2, of "resps c1"] obtain c3 s3 B3 where
        r: "get_rounds n hash th st rc False 0 (ts' @ [t']) (?c2, s1) = Some (c3, s3)" "cstate c3 = conn_mwrite"
          "served hash ?m1 B1 B3 ks' (concat (map (get_out s1 ?m1 rc) ks') @ end_line) (?c2, s1) (c3, s3)" by (auto simp del: concat_append map_append)
      have "served hash m B B3 (ks @ ks') (concat (map (get_out s m rc) ks) @ concat (map (get_out s m rc) ks') @ end_line) (c, s) (c3, s3)"
        by (rule served_trans [OF g(2) r(3) [unfolded served_outs [OF g(2)]]]) (simp_all add: new_resp_same)
      then show ?thesis unfolding go using r(1,2) by auto
    qed
  qed
qed simp

lemma dispatch_get:
  assumes "2 < length toks" "tk_text buf (toks ! 0) = w" "tk_length (toks ! 0) = length w" "w \<in> {ascii ''get'', ascii ''gets''}"
  shows "dispatch buf toks = Get (w = ascii ''gets'') False"
proof -
  have "length w = 3 \<or> length w = 4" "cstr_at w 0 = 103" using assms(4) by (auto simp: ascii_def cstr_at_def)
  then show ?thesis using assms by (auto simp: dispatch_def Let_def ascii_eq_iff)
qed

section \<open>Properties\<close>

text \<open>
  C8. Fetching, from the line to the bytes that go out. When a line \<open>get\<close> or \<open>gets\<close> with any number of keys stands in the buffer (more than the
  token array takes are tokenized in rounds), the replies that are queued are followed by one value line and the data for every key
  that has a live item, in the order of the keys, and by END, and by nothing else. Each response holds its item, so that the bytes stay what they are
  until they are sent. Keys of dead items leave the map; every other item, and every item that was held, keeps its data. No \<open>flush_all\<close> is in effect.
\<close>

theorem get_spec:
  fixes s :: "'a store_scheme"
  assumes sv: "serving hash m B c s" and rm: "room (length ks) m B c" and cs: "can_start (length ks + 1) c"
    and line: "rcurr c \<le> length (rbuf c)" "0 \<in> set (drop (rcurr c) (rbuf c))" "words (cstring (rbuf c) (rcurr c)) = w # ks"
    and w: "w \<in> {ascii ''get'', ascii ''gets''}" and ks: "ks \<noteq> []" "\<forall>k \<in> set ks. length k \<le> 250"
  shows "\<exists>c' s' B'. process_command hash th (with_get hash th st others) (c, s) = Some (c', s') \<and> cstate c' = conn_mwrite \<and>
    pending (heap s') (rev (resps c')) =
      pending (heap s) (rev (resps c)) @ concat (map (get_out s m (w = ascii ''gets'')) ks) @ ascii ''END'' @ [13, 10] \<and>
    serving hash (without_dead s m ks) B' c' s' \<and>
    (\<forall>a. B a \<le> B' a \<and> B' a + held_by (resps c') a \<le> B a + held_by (resps c) a + 2 * length ks) \<and>
    data_kept (live (without_dead s m ks) (\<lambda>a. B a + held_by (resps c) a)) s s'"
proof -
  let ?rc = "w = ascii ''gets''" and ?c1 = "c\<lparr>resp_supply := drop 1 (resp_supply c), resps := new_resp # resps c\<rparr>"
  have cs': "can_start (Suc (length ks)) c" using cs by simp
  have st: "resp_start c = (?c1, True)" by (rule resp_start_next [OF cs'])
  obtain toks buf where tok: "tokenize_command (rcurr c) MAX_TOKENS (rbuf c) = (toks, buf)" by fastforce
  let ?c2 = "?c1\<lparr>rbuf := buf\<rparr>"
  from line_tokens [OF line(1,2) tok, unfolded line(3)] obtain ts t where t: "toks = ts @ [t]" "map (token_bytes buf) ts = take 23 (w # ks)"
    "map tk_length ts = map length (take 23 (w # ks))" "tokens_left buf t (drop 23 (w # ks))" "length buf = length (rbuf c)" by blast
  note T = command_tokens [OF line(1,2) tok, unfolded line(3)]
  have two: "2 < length toks" using T(1) ks(1) by (cases ks) simp_all
  have d: "dispatch buf toks = Get ?rc False" by (rule dispatch_get [OF two _ _ w]) (use T(2) [of 0] two in simp_all)
  obtain x ts' where ts: "ts = x # ts'" using t(2) by (cases ts) auto
  have go: "process_command hash th (with_get hash th st others) (c, s) =
      get_rounds (Suc (length (rbuf ?c2))) hash th st ?rc False 0 (ts' @ [t]) (?c2, s)"
    using d by (simp add: process_command_def st tok run_call_def with_get_def process_get_command_def t(1) ts del: get_rounds.simps)
  have m: "map (token_bytes (rbuf ?c2)) ts' = take 22 ks" "map tk_length ts' = map length (take 22 ks)" "tokens_left (rbuf ?c2) t (drop 22 ks)"
    using t(2-4) ts by simp_all
  have l: "\<forall>x \<in> set ts'. 0 < tk_length x \<and> tk_length x \<le> KEY_MAX_LENGTH"
  proof
    fix x assume "x \<in> set ts'"
    then have "tk_length x \<in> set (map length (take 22 ks))" unfolding m(2) [symmetric] by simp
    then obtain k where k: "k \<in> set ks" "tk_length x = length k" by (auto dest: in_set_takeD)
    then show "0 < tk_length x \<and> tk_length x \<le> KEY_MAX_LENGTH" using ks(2) words_nonempty [of k "cstring (rbuf c) (rcurr c)"] line(3) by simp
  qed
  have "length (w # ks) \<le> length (cstring (rbuf c) (rcurr c))" unfolding line(3) [symmetric] by (rule words_length)
  then have fuel: "length (drop 22 ks) < Suc (length (rbuf ?c2))" using cstring_end [OF line(2)] t(5) by simp
  have sv2: "serving hash m B ?c2 s" by (rule serving_new [OF sv]) simp
  have rm2: "room (length (take 22 ks @ drop 22 ks)) m B ?c2" using rm by (simp add: room_def new_resp_same)
  obtain j where j: "length ks = Suc j" using ks(1) by (cases ks) auto
  have cs2: "can_start (length (take 22 ks) - 1 + (length (drop 22 ks) + 1)) ?c2" by (intro can_start_drop [OF cs', of _ 1]) (simp_all add: j)
  have k2: "\<forall>k \<in> set (drop 22 ks). length k \<le> KEY_MAX_LENGTH" using ks(2) by (auto dest: in_set_dropD)
  from get_rounds_served [OF sv2 rm2 _ m(1) l m(3) k2 fuel cs2, of "resps c" th st ?rc] obtain c' s' B' where
    r: "get_rounds (Suc (length (rbuf ?c2))) hash th st ?rc False 0 (ts' @ [t]) (?c2, s) = Some (c', s')" "cstate c' = conn_mwrite"
      "served hash m B B' ks (concat (map (get_out s m ?rc) ks) @ end_line) (?c2, s) (c', s')" by (auto simp del: get_rounds.simps concat_append map_append)
  have "held_by (resps ?c2) = held_by (resps c)" "pending (heap s) (rev (resps ?c2)) = pending (heap s) (rev (resps c))" by (simp_all add: new_resp_same)
  note R = r(3) [unfolded served_def prod.case Let_def this]
  show ?thesis unfolding go using r(1,2) R by blast
qed

lemma finish_all_inv:
  assumes "items_inv hash s m Q F H (\<lambda>a. B a + held_by rs a)"
  shows "\<exists>s'. finish_all rs s = Some s' \<and> (\<exists>Q F H. items_inv hash s' m Q F H B) \<and> data_kept (live m B) s s'"
  using assms
proof (induction rs arbitrary: s Q F H)
  case Nil
  then show ?case by (auto simp: held_by_simps)
next
  case (Cons r rs)
  from resp_finish_inv [OF Cons.prems] obtain s1 Q1 F1 H1 where s1: "resp_finish r s = Some s1" "items_inv hash s1 m Q1 F1 H1 (\<lambda>a. B a + held_by rs a)"
    "data_kept (live m (\<lambda>a. B a + held_by rs a)) s s1" by blast
  from Cons.IH [OF s1(2)] obtain s' where s': "finish_all rs s1 = Some s'" "\<exists>Q F H. items_inv hash s' m Q F H B" "data_kept (live m B) s1 s'" by blast
  have "live m B \<subseteq> live m (\<lambda>a. B a + held_by rs a)" by (auto simp: live_def)
  from data_kept_trans [OF s1(3) s'(3) this order_refl] show ?case using s1(1) s'(1,2) by simp
qed

lemma get_failed_long:
  "\<lbrakk>conn_release_items cs = Some (c3, s1); resp_start c3 = (c4, True); out_string bad_format (c4, s1) = r\<rbrakk> \<Longrightarrow> get_failed True cs = r"
  by (simp add: get_failed_def)

text \<open>
  C40. A key that is too long. When the first key of a \<open>get\<close> line has more than 250 bytes, the client is told so, but every reply that was still
  queued for earlier commands of the same connection is thrown away with it, whatever it was, and is never sent; the store stays consistent.
\<close>

theorem get_drops_replies:
  fixes s :: "'a store_scheme"
  assumes sv: "serving hash m B c s" and c: "c_item c = NULL" "\<not> noreply c" "can_start 2 c"
    and line: "rcurr c \<le> length (rbuf c)" "0 \<in> set (drop (rcurr c) (rbuf c))" "words (cstring (rbuf c) (rcurr c)) = w # k # ks"
    and w: "w \<in> {ascii ''get'', ascii ''gets''}" and k: "250 < length k"
  shows "\<exists>c' s'. process_command hash th (with_get hash th st others) (c, s) = Some (c', s') \<and> cstate c' = conn_new_cmd \<and>
    pending (heap s') (rev (resps c')) = ascii ''CLIENT_ERROR bad command line format'' @ [13, 10] \<and> wire c' = wire c \<and>
    (\<exists>Q F H. items_inv hash s' m Q F H B) \<and> data_kept (live m B) s s'"
proof -
  let ?rc = "w = ascii ''gets''" and ?c1 = "c\<lparr>resp_supply := drop 1 (resp_supply c), resps := new_resp # resps c\<rparr>"
  have cs: "can_start (Suc 1) c" using c(3) by (simp add: numeral_2_eq_2)
  have st: "resp_start c = (?c1, True)" by (rule resp_start_next [OF cs])
  obtain toks buf where tok: "tokenize_command (rcurr c) MAX_TOKENS (rbuf c) = (toks, buf)" by fastforce
  let ?c2 = "?c1\<lparr>rbuf := buf\<rparr>"
  from line_tokens [OF line(1,2) tok, unfolded line(3)] obtain ts t where t: "toks = ts @ [t]"
    "map tk_length ts = map length (take 23 (w # k # ks))" by blast
  note T = command_tokens [OF line(1,2) tok, unfolded line(3)]
  have two: "2 < length toks" using T(1) by simp
  have d: "dispatch buf toks = Get ?rc False" by (rule dispatch_get [OF two _ _ w]) (use T(2) [of 0] two in simp_all)
  obtain x y ts' where ts: "ts = x # y # ts'" using t(2) by (cases ts; cases "tl ts") auto
  have y: "tk_length y > KEY_MAX_LENGTH" using t(2) k by (simp add: ts)
  have go: "process_command hash th (with_get hash th st others) (c, s) = get_failed True (?c2, s)"
    using d y by (simp add: process_command_def st tok run_call_def with_get_def process_get_command_def t(1) ts)
  from sv obtain Q F H where inv: "items_inv hash s m Q F H (\<lambda>a. B a + held_by (resps c) a)" by (auto simp: serving_def)
  have "(\<lambda>a. B a + held_by (resps c) a) = (\<lambda>a. B a + held_by (rev (resps ?c2)) a)" by (auto simp: held_by_simps fun_eq_iff)
  from finish_all_inv [OF inv [unfolded this]] obtain s1 where s1: "finish_all (rev (resps ?c2)) s = Some s1"
    "\<exists>Q F H. items_inv hash s1 m Q F H B" "data_kept (live m B) s s1" by blast
  let ?c3 = "?c2\<lparr>resps := []\<rparr>"
  have rel: "conn_release_items (?c2, s) = Some (?c3, s1)" using s1(1) c(1) by (simp add: conn_release_items_def)
  have "can_start (Suc 0) ?c3" by (rule can_start_drop [OF cs, of _ 1]) simp_all
  from resp_start_next [OF this] have st3: "resp_start ?c3 = (?c3\<lparr>resp_supply := drop 1 (resp_supply ?c3), resps := [new_resp]\<rparr>, True)" by simp
  let ?c4 = "?c3\<lparr>resp_supply := drop 1 (resp_supply ?c3), resps := [new_resp]\<rparr>"
  have "ready ?c4" by (simp add: ready_def)
  from out_string_said [OF this, of bad_format s1] have said: "out_string bad_format (?c4, s1) = Some (said bad_format ?c4, s1)" by (simp add: ascii_def)
  have "get_failed True (?c2, s) = Some (said bad_format ?c4, s1)" by (rule get_failed_long [OF rel st3 said])
  moreover have "pending (heap s1) (rev (resps (said bad_format ?c4))) = bad_format @ [13, 10]"
    using c(2) by (simp add: said_def pending_simps resp_out_def text_resp_def resp_add_iov_def)
  moreover have "wire (said bad_format ?c4) = wire c" "cstate (said bad_format ?c4) = conn_new_cmd" by (simp_all add: said_def)
  ultimately show ?thesis unfolding go using s1(2,3) by blast
qed

theorem get_spec_witness:
  "\<exists>c' s' B'. process_command demo_hash 0 (with_get demo_hash 0 (\<lambda>_ _. None) (\<lambda>_ _ _. None))
      ((demo_conn (ascii ''get B A'' @ [0]))\<lparr>resp_supply := [True, True, True]\<rparr>, demo_store) = Some (c', s') \<and>
    pending (heap s') (rev (resps c')) = ascii ''VALUE A 0 1'' @ [13, 10, 53, 13, 10] @ ascii ''END'' @ [13, 10] \<and>
    serving demo_hash [[65] \<mapsto> 4608] B' c' s'"
proof -
  let ?c = "(demo_conn (ascii ''get B A'' @ [0]))\<lparr>resp_supply := [True, True, True]\<rparr>" and ?ks = "[[66], [65 :: byte]]"
  have r: "resps ?c = []" by (simp add: demo_conn_def)
  have nf: "no_flush demo_store" by (simp add: no_flush_def demo_store_tables demo_settings_def)
  have h: "has_flag ITEM_HDR (heap demo_store 4608) = False" by (simp add: has_flag_def demo_store_inv(4))
  have sv: "serving demo_hash [[65] \<mapsto> 4608] demo_SR ?c demo_store"
  proof -
    have "(\<lambda>a. demo_SR a + held_by [] a) = demo_SR" by (simp add: held_by_simps fun_eq_iff)
    then show ?thesis unfolding serving_def r using demo_store_inv(1) nf h demo_store_num(1) by auto
  qed
  have rm: "room (length ?ks) [[65] \<mapsto> 4608] demo_SR ?c" by (simp add: room_def r held_by_simps)
  have cs: "can_start (length ?ks + 1) ?c" by simp
  have l: "rcurr ?c \<le> length (rbuf ?c)" "0 \<in> set (drop (rcurr ?c) (rbuf ?c))" "words (cstring (rbuf ?c) (rcurr ?c)) = ascii ''get'' # ?ks"
    by (simp_all add: demo_conn_def ascii_def of_char_def words_def)
  have w: "ascii ''get'' \<in> {ascii ''get'', ascii ''gets''}" "?ks \<noteq> []" "\<forall>k \<in> set ?ks. length k \<le> 250" by simp_all
  have k: "key_of (heap demo_store 4608) = [65]" "FLAGS_SIZE (heap demo_store 4608) = 0"
    using same_value_flags(5) [OF demo_store_inv(2)] demo_store_inv(4) by (simp_all add: demo_num_def demo_item_def key_of_def FLAGS_SIZE_def has_flag_def)
  have v: "value_line (heap demo_store 4608) False = ascii ''VALUE A 0 1'' @ [13, 10]"
    by (simp add: value_line_def make_ascii_get_suffix_def k demo_store_num Let_def itoa_u32_dec dec.simps ascii_def of_char_def)
  have n: "\<not> ascii ''get'' = ascii ''gets''" by (simp add: ascii_eq_iff)
  have o: "concat (map (get_out demo_store [[65] \<mapsto> 4608] (ascii ''get'' = ascii ''gets'')) ?ks) = ascii ''VALUE A 0 1'' @ [13, 10, 53, 13, 10]"
    using demo_store_fresh v by (simp add: n get_out_line fresh_def demo_store_num)
  have m: "without_dead demo_store [[65] \<mapsto> 4608] ?ks = [[65] \<mapsto> 4608]" by (auto simp: without_dead_def demo_store_fresh fun_eq_iff)
  have p: "pending (heap demo_store) (rev (resps ?c)) = []" by (simp add: r pending_simps)
  from get_spec [OF sv rm cs l w, of 0 "\<lambda>_ _. None" "\<lambda>_ _ _. None", unfolded o m p] show ?thesis by (simp only: append_Nil append_assoc append_Cons) blast
qed

theorem get_drops_replies_witness:
  "\<exists>c' s'. pending (heap demo_store) (rev [text_resp (ascii ''STORED'')]) = ascii ''STORED'' @ [13, 10] \<and>
    process_command demo_hash 0 (with_get demo_hash 0 (\<lambda>_ _. None) (\<lambda>_ _ _. None))
      ((demo_conn (ascii ''get '' @ replicate 251 97 @ [0]))\<lparr>resp_supply := [True, True], resps := [text_resp (ascii ''STORED'')]\<rparr>, demo_store) = Some (c', s') \<and>
    pending (heap s') (rev (resps c')) = ascii ''CLIENT_ERROR bad command line format'' @ [13, 10]"
proof -
  let ?r = "text_resp (ascii ''STORED'')" and ?k = "replicate 251 (97 :: byte)"
  let ?c = "(demo_conn (ascii ''get '' @ ?k @ [0]))\<lparr>resp_supply := [True, True], resps := [?r]\<rparr>"
  have r: "resps ?c = [?r]" by simp
  have sv: "serving demo_hash [[65] \<mapsto> 4608] demo_SR ?c demo_store"
  proof -
    have "(\<lambda>a. demo_SR a + held_by [?r] a) = demo_SR" by (auto simp: held_by_simps text_resp_def resp_add_iov_def fun_eq_iff)
    moreover have "no_flush demo_store" by (simp add: no_flush_def demo_store_tables demo_settings_def)
    moreover have "has_flag ITEM_HDR (heap demo_store 4608) = False" by (simp add: has_flag_def demo_store_inv(4))
    moreover have "resp_ok (heap demo_store) ?r" by (simp add: resp_ok_def text_resp_def resp_add_iov_def)
    ultimately show ?thesis unfolding serving_def r using demo_store_inv(1) demo_store_num(1) by auto
  qed
  have c: "c_item ?c = NULL" "\<not> noreply ?c" "can_start 2 ?c" by (simp_all add: demo_conn_def numeral_2_eq_2)
  have z: "0 \<notin> set (ascii ''get '' @ ?k)" by (simp add: ascii_def)
  have b: "cstring (ascii ''get '' @ ?k @ [0]) 0 = ascii ''get'' @ 32 # ?k" using cstring_append [OF z, of 0 "[]" "[]"] by (simp add: ascii_def)
  have n: "32 \<notin> set (ascii ''get'')" "32 \<notin> set ?k" "ascii ''get'' \<noteq> []" "?k \<noteq> []" by (simp_all add: ascii_def)
  have ww: "words (ascii ''get'' @ 32 # ?k) = [ascii ''get'', ?k]" unfolding words_blank [OF n(1)] words_word [OF n(2)] using n(3,4) by (simp only: if_False)
  have f: "rcurr ?c = 0" "rbuf ?c = ascii ''get '' @ ?k @ [0]" by (simp_all add: demo_conn_def)
  have l: "rcurr ?c \<le> length (rbuf ?c)" "0 \<in> set (drop (rcurr ?c) (rbuf ?c))" "words (cstring (rbuf ?c) (rcurr ?c)) = ascii ''get'' # ?k # []"
    unfolding f b ww by simp_all
  have w: "ascii ''get'' \<in> {ascii ''get'', ascii ''gets''}" "250 < length ?k" by simp_all
  have p: "pending (heap demo_store) (rev [?r]) = ascii ''STORED'' @ [13, 10]" by (simp add: pending_simps resp_out_def text_resp_def resp_add_iov_def)
  from get_drops_replies [OF sv c l w, of 0 "\<lambda>_ _. None" "\<lambda>_ _ _. None"] p show ?thesis by blast
qed

end
