(* ===== verification/Spec2Isabelle.thy ===== *)
theory Spec2Isabelle
  imports Base64_C Page_Handover Text_Get
begin

text \<open>
  Verification of the memcached server that Datamime carries as a target application: the C files under
  \<^verbatim>\<open>src/apps/memcached/memcached-1.6.12\<close>. The other parts of the repository are C++ and Python programs around it and third-party
  code; they are not modelled.

  \<^bold>\<open>The program.\<close> A worker thread reads a command line from a connection, tokenizes it and calls a handler
  (\<^verbatim>\<open>proto_text.c\<close>, \<^verbatim>\<open>memcached.c\<close>). The handler looks keys up in the hash table (\<^verbatim>\<open>assoc.c\<close>) and takes references to items, or allocates
  an item (\<^verbatim>\<open>items.c\<close>) from the chunks of a slab class (\<^verbatim>\<open>slabs.c\<close>), evicting from the LRU queues when memory is short. An item is linked into
  the table and a queue, replaced and unlinked, and goes back to its free list with its last reference. A background thread
  moves whole pages of memory from one class to another while items on them are in use. Beside this stand
  self-contained helpers: number parsing and printing, base64 for binary keys, a ring buffer between threads, caches of equal-sized objects and
  statistics per key prefix.

  \<^bold>\<open>Conventions.\<close> An operation is a function from state to state; operations of several components work on one record that each
  component extends (\<open>mem\<close>, then \<open>assoc\<close>, \<open>slabs\<close>, \<open>rebal\<close>, \<open>items\<close>, \<open>lru\<close>, \<open>store\<close>, \<open>mover\<close>), and the schematic part of the record stands for what later
  components add. Memory is a map from addresses to items; an address is a natural number and NULL is 0. A chunk of memory is
  one cell of this map, read as an item, a free-list entry or a piece of a large item. Unsigned integers are words of their width
  where the code can wrap, signed ones are \<open>int\<close> with the wrap-around written out where it occurs. The result \<open>None\<close> of an
  operation of type \<open>option\<close> stands for behaviour that C leaves undefined, such as following a NULL pointer, or for a loop that does not end
  (\<^verbatim>\<open>partial_function\<close>); so a theorem whose conclusion has \<open>Some\<close> states that neither happens. A locked section is one
  step. Answers of the environment (\<^verbatim>\<open>malloc\<close>, item locks granted by \<^verbatim>\<open>trylock\<close>, the socket) are lists in the state that the operations consume. The
  hash function is a parameter. The build is that of the repository: LP64, little endian, \<^verbatim>\<open>NDEBUG\<close> and \<^verbatim>\<open>EXTSTORE\<close> defined.

  \<^bold>\<open>Theories.\<close>
  \<^item> \<open>Prelude\<close>: types, arrays of bytes, generic lemmas on words and lists. \<open>Linked_Lists\<close>: singly and doubly linked chains in
    memory, as lists of addresses, and what linking and unlinking do to them. \<open>Workers\<close>: the locale of background work that ends.
  \<^item> \<open>Itoa_Ljust\<close> (\<^verbatim>\<open>itoa_ljust.c\<close>), \<open>Util_C\<close> (\<^verbatim>\<open>util.c\<close>), \<open>Base64_C\<close> (\<^verbatim>\<open>base64.c\<close>): printing and parsing of numbers, the URI encoder, base64, with the
    decimal specification, the round trips and the bounds of the buffers.
  \<^item> \<open>Bip_Buffer\<close> (\<^verbatim>\<open>bipbuffer.c\<close>): the ring buffer; it implements the locale of byte queues over every schedule.
    \<open>Object_Cache\<close> (\<^verbatim>\<open>cache.c\<close>): allocation and release over all runs.
  \<^item> \<open>Item_Mem\<close> (\<^verbatim>\<open>memcached.h\<close>): the item with its flags and accessors. \<open>Assoc_Table\<close> (\<^verbatim>\<open>assoc.c\<close>): the hash table with incremental expansion and the
    iterator. \<open>assoc_abs hash s m\<close> relates the state to a finite map \<open>m\<close> from keys to items; the locale of item indexes states the contract.
  \<^item> \<open>Slabs_Alloc\<close> (\<^verbatim>\<open>slabs.c\<close>): classes, pages, free lists, large items. \<open>slab_inv s F H\<close>: the free chunks \<open>F\<close> and the held chunks \<open>H\<close> of each
    class are disjoint, inside pages, aligned to the class and complete. \<open>Slab_Reassign\<close>, \<open>Slab_Rebalance\<close>, \<open>Page_Move\<close>, \<open>Page_Handover\<close>: the page mover, from the
    request over the clearing of each chunk to the hand-over. \<open>mover_inv\<close> adds the state of the page that is being cleared to the invariant of the store.
  \<^item> \<open>Items_Link\<close> and \<open>Items_Lru\<close> (\<^verbatim>\<open>items.c\<close>): the life of an item and memory pressure. \<open>items_inv hash s m Q F H R\<close> joins the invariants:
    table \<open>m\<close>, queues \<open>Q\<close>, allocator \<open>F\<close> and \<open>H\<close>, and \<open>R\<close>, the number of references that clients hold of each item, so that the
    reference count is \<open>R\<close> plus one for a linked item. \<open>data_kept A s s'\<close> says that the items in \<open>A\<close> keep key, data, flags and times.
  \<^item> \<open>Store_Ops\<close> (\<^verbatim>\<open>memcached.c\<close>, \<^verbatim>\<open>thread.c\<close>): set, add, replace, append, prepend, cas, incr and decr, conversion of times, limited fetches.
  \<^item> \<open>Conn_Io\<close> (\<^verbatim>\<open>memcached.c\<close>): the responses of a connection, how they are sent in parts and give up their items, the read buffer. \<open>pending\<close> is what is still to be sent, \<open>held_by\<close> the references the responses hold.
    \<open>Text_Tokens\<close>, \<open>Text_Proto\<close>, \<open>Text_Get\<close> (\<^verbatim>\<open>proto_text.c\<close>, parts of \<^verbatim>\<open>memcached.c\<close>): the tokenizer, the dispatch, the handlers of the text
    protocol, the reading of data. \<open>Stats_Prefix\<close> (\<^verbatim>\<open>stats_prefix.c\<close>): counters per key prefix and their dump, whose
    position and sizes are 32-bit integers that wrap (\<open>int32\<close>).

  \<^bold>\<open>What the lemmas show.\<close> For each operation there is a lemma with the ending \<open>_inv\<close>: from a consistent state it
  returns, gives a consistent state again, and its result and effect on the map are those of a specification on finite maps. The
  properties, numbered C1 to C40, state this at the interfaces: the table and fetches as map operations, who owns which chunk, what every
  command answers and changes, that held items keep their memory and data, that iterators, expansions and page moves end, and round trips and bounds of the
  codecs. Some properties show behaviour that looks unintended: they prove that an input with the bad outcome exists.

  \<^bold>\<open>Bounds and fuel.\<close> Reference counts are assumed to stay below 2^16 by the margin an operation needs (\<open>R a + 3 < 2 ^ 16\<close>); fetches by
  clients are limited to 60000 by the code itself. The option \<^verbatim>\<open>tail_repair_time\<close> is off where memory is pulled (\<open>pull_pre\<close>), as it breaks the promise of references by design.
  \<open>size_pre\<close> is about the item that a command allocates: unless it is too large for the cache at all, it fits one chunk, that is, it takes at most
  \<^verbatim>\<open>slab_chunk_size_max\<close> bytes and no more than the chunks of the largest class (which \<^verbatim>\<open>slabs_init\<close> makes that large), and the page list of its
  class stays below the 32-bit limit for ten more pages (\<open>fit_pre\<close>). Items put together from several chunks are modelled, but the properties of the commands do not cover
  them. \<open>may_fail\<close> is when such an allocation may be refused. Loops over lists recurse on them; the loops of
  allocation and eviction are bounded by the constants of the code (10 tries, 5 items of a queue). Loops over pointer chains are
  partial functions, and their lemmas show that they return on the chains of a consistent state. \<open>data_loop\<close> counts turns of the connection; as many turns as
  there are pieces of data and three more are enough, \<open>mwrite_loop\<close> turns while output is sent, one more than the socket's answers; \<open>get_rounds\<close> gets one round more than
  the read buffer has bytes, and each round but the last takes a word. Their properties prove that this suffices.

  \<^bold>\<open>Not modelled.\<close> The meta commands and the administrative commands (parameters of the dispatch; \<open>with_get\<close> puts \<^verbatim>\<open>get\<close> in), the binary protocol, the LRU crawler, the
  external storage (deletions handed to it are recorded, fetching from it is a parameter of \<^verbatim>\<open>get\<close>), the logger, warm restart, start-up and option parsing, libevent, threads and
  locks themselves, SASL and TLS, and the text of the statistics: they are input and output, calls of libraries, or
  schedules around the operations above. The checksum and hash headers are third-party code.
\<close>

end
